(* ===== verification/Prelude.thy ===== *)
theory Prelude
  imports Main "HOL-Library.Word" "HOL-Library.Multiset"
begin

text \<open>
  Shared vocabulary of the development: the machine integer types of the C code, the
  \<open>size_t\<close> arithmetic with its wrap-around written out, the state-and-failure shape of the
  parsers, the outcomes of the allocator, and the facts on words, bytes and lists that the
  component theories share.
\<close>

unbundle bit_operations_syntax

section \<open>Types of the C code\<close>

type_synonym byte = "8 word"
type_synonym uint16 = "16 word"
type_synonym uint32 = "32 word"
type_synonym uint64 = "64 word"

text \<open>A \<open>size_t\<close> is a natural number below \<open>2 ^ 64\<close> (the 64-bit targets of the app).\<close>

definition size_mod :: nat where
  "size_mod = 2 ^ 64"

definition sz_add :: "nat \<Rightarrow> nat \<Rightarrow> nat" where
  "sz_add a b = (a + b) mod size_mod"

definition sz_mul :: "nat \<Rightarrow> nat \<Rightarrow> nat" where
  "sz_mul a b = (a * b) mod size_mod"

lemma size_mod_pos [simp]: "0 < size_mod"
  by (simp add: size_mod_def)

lemma sz_add_exact: "a + b < size_mod \<Longrightarrow> sz_add a b = a + b"
  by (simp add: sz_add_def)

lemma sz_mul_exact: "a * b < size_mod \<Longrightarrow> sz_mul a b = a * b"
  by (simp add: sz_mul_def)

lemma sz_add_wraps: "a < size_mod \<Longrightarrow> b < size_mod \<Longrightarrow> sz_add a b < a \<longleftrightarrow> size_mod \<le> a + b"
  by (auto simp: sz_add_def mod_if split: if_splits)

lemma sz_add_less [simp]: "sz_add a b < size_mod"
  by (simp add: sz_add_def)

section \<open>Allocation outcomes\<close>

text \<open>
  The allocator is outside the program. Its future behaviour is a list of outcomes, one per
  call (\<open>True\<close>: the call returns \<open>NULL\<close>); calls beyond the end of the list succeed.
\<close>

type_synonym heap = "bool list"

fun alloc_next :: "heap \<Rightarrow> bool \<times> heap" where
  "alloc_next [] = (True, [])"
| "alloc_next (fails # h) = (\<not> fails, h)"

section \<open>Reader results\<close>

text \<open>
  A reader takes the unread bytes and returns its result (\<open>None\<close> for the C return value 0)
  together with the bytes left unread, on failure too: the C functions advance their argument
  before they know that they fail.
\<close>

type_synonym cbs = "byte list"
type_synonym 'a reader = "cbs \<Rightarrow> 'a option \<times> cbs"

definition and_then :: "'a reader \<Rightarrow> ('a \<Rightarrow> 'b reader) \<Rightarrow> 'b reader" where
  "and_then m f = (\<lambda>c. case m c of (None, c') \<Rightarrow> (None, c') | (Some x, c') \<Rightarrow> f x c')"

definition return_val :: "'a \<Rightarrow> 'a reader" where
  "return_val x = (\<lambda>c. (Some x, c))"

definition fail :: "'a reader" where
  "fail = (\<lambda>c. (None, c))"

lemma and_then_apply:
  "and_then m f c = (case m c of (None, c') \<Rightarrow> (None, c') | (Some x, c') \<Rightarrow> f x c')"
  by (simp add: and_then_def)

lemma return_val_apply [simp]: "return_val x c = (Some x, c)"
  by (simp add: return_val_def)

lemma fail_apply [simp]: "fail c = (None, c)"
  by (simp add: fail_def)

lemma and_then_SomeE:
  assumes "and_then m f c = (Some y, r)"
  obtains x c' where "m c = (Some x, c')" and "f x c' = (Some y, r)"
  using assms by (auto simp: and_then_apply split: prod.splits option.splits)

lemma and_then_Some [simp]: "m c = (Some x, c') \<Longrightarrow> and_then m f c = f x c'"
  by (simp add: and_then_apply)

lemma and_then_None [simp]: "m c = (None, c') \<Longrightarrow> and_then m f c = (None, c')"
  by (simp add: and_then_apply)

section \<open>Words\<close>

lemma push_or_plus:
  fixes r s :: "'a::len word"
  assumes "unat s < 2 ^ k"
  shows "push_bit k r OR s = push_bit k r + s"
proof -
  have "take_bit k s = s"
    by (metis assms take_bit_nat_eq_self unsigned_take_bit_eq unsigned_word_eqI)
  then have *: "bit s n \<Longrightarrow> n < k" for n
    by (metis bit_take_bit_iff)
  have "push_bit k r AND s = 0"
    by (rule bit_word_eqI) (auto simp: bit_simps dest: *)
  then show ?thesis by (simp add: disjunctive_add_eq_or)
qed

lemma unat_push_or:
  fixes r s :: "'a::len word"
  assumes "unat s < 2 ^ k"
  shows "unat (push_bit k r OR s) = (unat r * 2 ^ k + unat s) mod 2 ^ LENGTH('a)"
  unfolding push_or_plus [OF assms] unat_word_ariths unsigned_push_bit_eq
  by (simp add: take_bit_eq_mod push_bit_eq_mult mod_add_left_eq)

lemma unat_and_mask: "unat (w AND mask n) = unat w mod 2 ^ n"
  for w :: "'a::len word"
  unfolding take_bit_eq_mask [symmetric] unsigned_take_bit_eq by (simp only: take_bit_eq_mod)

lemma unat_drop: "unat (drop_bit k w) = unat w div 2 ^ k"
  for w :: "'a::len word"
  unfolding unat_drop_bit_eq by (simp only: drop_bit_eq_div)

lemma unat_drop_less: "0 < k \<Longrightarrow> w \<noteq> 0 \<Longrightarrow> unat (drop_bit k w) < unat w"
  for w :: "'a::len word"
  unfolding unat_drop by (rule div_less_dividend) (use one_less_power [of "2 :: nat" k] in \<open>auto simp: unat_gt_0\<close>)

lemma unat_byte_less [simp]: "unat (b :: byte) < 256"
  using unsigned_less [of b, where ?'a = nat] by simp

lemma unat_ucast_64 [simp]: "unat (ucast (b :: byte) :: uint64) = unat b"
  by (simp add: unsigned_ucast_eq take_bit_nat_eq_self order_less_le_trans [OF unsigned_less])

lemma unat_ucast_32 [simp]: "unat (ucast (b :: byte) :: uint32) = unat b"
  by (simp add: unsigned_ucast_eq take_bit_nat_eq_self order_less_le_trans [OF unsigned_less])

lemma unat_ucast_to_byte: "unat (ucast w :: byte) = unat w mod 256"
  for w :: "'a::len word"
  by (simp add: unsigned_ucast_eq take_bit_eq_mod)

lemma all_bytes: "(\<forall>b :: byte. P b) \<longleftrightarrow> (\<forall>n \<in> {..<256}. P (word_of_nat n))"
proof
  assume *: "\<forall>n \<in> {..<256}. P (word_of_nat n)"
  show "\<forall>b. P b"
  proof
    fix b :: byte
    have "unat b \<in> {..<256}" by simp
    with * have "P (word_of_nat (unat b))" by blast
    then show "P b" by simp
  qed
qed simp

lemma odd_div_128: "n < 256 \<Longrightarrow> odd (n div 128) \<longleftrightarrow> 128 \<le> n" for n :: nat
proof (cases "128 \<le> n")
  case True
  moreover assume "n < 256"
  ultimately have "n div 128 = 1" by (intro div_nat_eqI) auto
  with True show ?thesis by simp
qed simp

lemma byte_high_bit: "b AND 0x80 \<noteq> 0 \<longleftrightarrow> 128 \<le> unat b" for b :: byte
proof -
  have "b AND 0x80 \<noteq> 0 \<longleftrightarrow> bit b 7"
    by (simp add: bit_iff_and_push_bit_not_eq_0)
  also have "\<dots> \<longleftrightarrow> bit (unat b) 7" by (simp only: bit_unsigned_iff) simp
  also have "\<dots> \<longleftrightarrow> odd (unat b div 128)" by (simp add: bit_iff_odd)
  also have "\<dots> \<longleftrightarrow> 128 \<le> unat b" by (simp add: odd_div_128)
  finally show ?thesis .
qed

lemma byte_high_bit_0: "b AND 0x80 = 0 \<longleftrightarrow> unat b < 128" for b :: byte
  using byte_high_bit [of b] by auto

lemma byte_low_7: "unat (b AND 0x7f) = unat b mod 128" for b :: byte
  using unat_and_mask [of b 7] by (simp add: mask_eq_exp_minus_1)

lemma unat_small: "n < 2 ^ LENGTH('a) \<Longrightarrow> unat (word_of_nat n :: 'a::len word) = n"
  by (simp add: unat_of_nat take_bit_nat_eq_self)

section \<open>Signed words\<close>

lemma uint_not: "uint (NOT b) = 2 ^ LENGTH('a) - 1 - uint b" for b :: "'a::len word"
proof -
  have "uint (NOT b) = (- 1 - uint b) mod 2 ^ LENGTH('a)"
    by (simp add: unsigned_not_eq take_bit_eq_mod not_int_def) (metis minus_diff_commute)
  also have "\<dots> = (2 ^ LENGTH('a) - 1 - uint b) mod 2 ^ LENGTH('a)"
    by (metis (no_types, opaque_lifting) add_diff_cancel_left' diff_add_eq diff_diff_eq2 minus_mod_self1 uminus_add_conv_diff diff_minus_eq_add)
  also have "\<dots> = 2 ^ LENGTH('a) - 1 - uint b"
    using uint_ge_0 [of b] unsigned_less [of b, where ?'a = int] by (intro mod_pos_pos_trivial) linarith+
  finally show ?thesis .
qed

lemma unat_not: "unat (NOT b) + unat b + 1 = 2 ^ LENGTH('a)" for b :: "'a::len word"
proof -
  have "int (unat (NOT b) + unat b + 1) = int (2 ^ LENGTH('a))"
    by (simp add: uint_not)
  then show ?thesis by (simp only: of_nat_eq_iff)
qed

lemma sint_pos: "unat v < 2 ^ 63 \<Longrightarrow> sint v = int (unat v)" for v :: uint64
proof -
  assume "unat v < 2 ^ 63"
  then have "int (unat v) < 2 ^ 63" by (metis of_nat_less_iff of_nat_numeral of_nat_power)
  then show ?thesis by (simp add: sint_uint signed_take_bit_int_eq_self_iff order_trans [of _ 0])
qed

lemma sint_nonneg_iff: "0 \<le> sint v \<longleftrightarrow> unat v < 2 ^ 63" for v :: uint64
proof -
  have "0 \<le> sint v \<longleftrightarrow> \<not> bit (unat v) 63"
    by (simp add: sint_uint bit_unsigned_iff)
  also have "\<dots> \<longleftrightarrow> unat v < 2 ^ 63"
  proof -
    have "unat v < 2 ^ 64" using unsigned_less [of v, where ?'a = nat] by simp
    then have "unat v div 2 ^ 63 < 2" by (simp add: div_less_iff_less_mult)
    then have "unat v div 2 ^ 63 = 0 \<or> unat v div 2 ^ 63 = 1" by (simp only: less_2_cases_iff One_nat_def)
    then show ?thesis by (auto simp: bit_iff_odd)
  qed
  finally show ?thesis .
qed

lemma sint_not: "sint (NOT v) = - 1 - sint v" for v :: uint64
proof -
  have "sint (NOT v) = NOT (sint v)"
    by (rule bit_eqI) (auto simp: bit_signed_iff bit_not_iff min_def)
  then show ?thesis by (simp add: not_int_def algebra_simps)
qed

section \<open>Number of digits in a base\<close>

fun base_len :: "nat \<Rightarrow> nat \<Rightarrow> nat" where
  "base_len B v = (if B \<le> 1 \<or> v < B then 1 else Suc (base_len B (v div B)))"

declare base_len.simps [simp del]

lemma base_len_pos [simp]: "0 < base_len B v"
  by (subst base_len.simps) simp

lemma base_len_bound:
  assumes "1 < B"
  shows "v < B ^ base_len B v \<and> (base_len B v = 1 \<or> B ^ (base_len B v - 1) \<le> v)"
  using assms
proof (induction B v rule: base_len.induct)
  case (1 B v)
  show ?case
  proof (cases "v < B")
    case True
    then show ?thesis by (simp add: base_len.simps [of B v])
  next
    case False
    let ?k = "base_len B (v div B)"
    have IH: "v div B < B ^ ?k" "?k = 1 \<or> B ^ (?k - 1) \<le> v div B"
      using 1 False by auto
    have len: "base_len B v = Suc ?k"
      using False "1.prems" by (simp add: base_len.simps [of B v])
    have "v < B * B ^ ?k"
      using IH(1) "1.prems" by (simp add: div_less_iff_less_mult mult.commute)
    moreover have "B ^ ?k \<le> v"
    proof (cases "?k = 1")
      case True with False show ?thesis by simp
    next
      case f: False
      with IH(2) "1.prems" have "B ^ (?k - 1) * B \<le> v"
        by (simp add: less_eq_div_iff_mult_less_eq)
      moreover have "B ^ (?k - 1) * B = B ^ ?k"
        by (metis base_len_pos power_minus_mult)
      ultimately show ?thesis by simp
    qed
    ultimately show ?thesis by (simp add: len)
  qed
qed

lemma base_len_unique:
  assumes "1 < B" and "0 < n" and "v < B ^ n" and "n = 1 \<or> B ^ (n - 1) \<le> v"
  shows "n = base_len B v"
proof -
  let ?k = "base_len B v"
  note bound = base_len_bound [OF assms(1), of v]
  have "\<not> n < ?k"
  proof
    assume "n < ?k"
    then have "?k \<noteq> 1" "n \<le> ?k - 1" using assms(2) by auto
    then have "B ^ n \<le> B ^ (?k - 1)" "B ^ (?k - 1) \<le> v"
      using bound assms(1) by (auto intro: power_increasing)
    with assms(3) show False by linarith
  qed
  moreover have "\<not> ?k < n"
  proof
    assume "?k < n"
    then have "n \<noteq> 1" "?k \<le> n - 1" using base_len_pos [of B v] by linarith+
    then have "B ^ ?k \<le> B ^ (n - 1)" "B ^ (n - 1) \<le> v"
      using assms by (auto intro: power_increasing)
    with bound show False by linarith
  qed
  ultimately show ?thesis by simp
qed

lemma base_len_le: "1 < B \<Longrightarrow> v < B ^ n \<Longrightarrow> 0 < n \<Longrightarrow> base_len B v \<le> n"
proof (rule ccontr)
  assume B: "1 < B" and v: "v < B ^ n" and n: "0 < n" and "\<not> base_len B v \<le> n"
  then have "B ^ n \<le> B ^ (base_len B v - 1)" "B ^ (base_len B v - 1) \<le> v"
    using base_len_bound [OF B, of v] by (auto intro: power_increasing)
  with v show False by simp
qed

end
