(* ===== verification/CBS.thy ===== *)
theory CBS
  imports Prelude
begin

text \<open>
  The byte reader of \<open>crypto/bytestring/cbs.c\<close>. A \<open>CBS\<close> is a pointer and a length; it is
  modelled by the bytes it covers, so \<open>CBS_init\<close>, \<open>CBS_data\<close> and \<open>CBS_len\<close> become the list
  itself and its length. Every \<open>CBS_get_*\<close> is a reader: the result (\<open>None\<close> where the C
  function returns 0) and the bytes that are left, also after a failure. What a failing call
  stores through its output pointers is not modelled. Tags are the 32-bit values of
  \<open>bytestring.h\<close>.
\<close>

section \<open>Bytes and fixed-width integers\<close>

definition CBS_init :: "byte list \<Rightarrow> nat \<Rightarrow> cbs" where
  "CBS_init data len = take len data"

definition CBS_data :: "cbs \<Rightarrow> byte list" where
  "CBS_data cbs = cbs"

definition CBS_len :: "cbs \<Rightarrow> nat" where
  "CBS_len cbs = length cbs"

definition cbs_get :: "nat \<Rightarrow> byte list reader" where
  "cbs_get n cbs = (if length cbs < n then (None, cbs) else (Some (take n cbs), drop n cbs))"

definition CBS_skip :: "nat \<Rightarrow> unit reader" where
  "CBS_skip len = and_then (cbs_get len) (\<lambda>_. return_val ())"

definition CBS_stow :: "cbs \<Rightarrow> heap \<Rightarrow> (bool \<times> byte list option \<times> nat) \<times> heap" where
  "CBS_stow cbs h =
     (if CBS_len cbs = 0 then ((True, None, 0), h)
      else (case alloc_next h of
        (ok, h') \<Rightarrow>
          if \<not> ok then ((False, None, 0), h')
          else ((True, Some (CBS_data cbs), CBS_len cbs), h')))"

definition CBS_contains_zero_byte :: "cbs \<Rightarrow> bool" where
  "CBS_contains_zero_byte cbs = (\<exists>b \<in> set cbs. b = 0)"

text \<open>\<open>CRYPTO_memcmp\<close> accumulates the differences without branching on the data.\<close>

definition CRYPTO_memcmp :: "byte list \<Rightarrow> byte list \<Rightarrow> byte" where
  "CRYPTO_memcmp a b = foldl (\<lambda>x (p, q). x OR (p XOR q)) 0 (zip a b)"

definition CBS_mem_equal :: "cbs \<Rightarrow> byte list \<Rightarrow> bool" where
  "CBS_mem_equal cbs data =
     (if length data \<noteq> CBS_len cbs then False else CRYPTO_memcmp cbs data = 0)"

definition be_value :: "byte list \<Rightarrow> uint64" where
  "be_value data = foldl (\<lambda>result b. push_bit 8 result OR ucast b) 0 data"

definition cbs_get_u :: "nat \<Rightarrow> uint64 reader" where
  "cbs_get_u len = and_then (cbs_get len) (\<lambda>data. return_val (be_value data))"

definition CBS_get_u8 :: "byte reader" where
  "CBS_get_u8 = and_then (cbs_get 1) (\<lambda>v. return_val (v ! 0))"

definition CBS_get_u16 :: "uint16 reader" where
  "CBS_get_u16 = and_then (cbs_get_u 2) (\<lambda>v. return_val (ucast v))"

text \<open>The byte swaps of \<open>crypto/internal.h\<close>.\<close>

definition CRYPTO_bswap2 :: "uint16 \<Rightarrow> uint16" where
  "CRYPTO_bswap2 x = drop_bit 8 x OR push_bit 8 x"

definition CRYPTO_bswap4 :: "uint32 \<Rightarrow> uint32" where
  "CRYPTO_bswap4 x =
     (let x' = drop_bit 16 x OR push_bit 16 x
      in drop_bit 8 (x' AND 0xff00ff00) OR push_bit 8 (x' AND 0x00ff00ff))"

definition CRYPTO_bswap8 :: "uint64 \<Rightarrow> uint64" where
  "CRYPTO_bswap8 x =
     ucast (CRYPTO_bswap4 (ucast (drop_bit 32 x))) OR push_bit 32 (ucast (CRYPTO_bswap4 (ucast x)))"

definition CBS_get_u16le :: "uint16 reader" where
  "CBS_get_u16le = and_then CBS_get_u16 (\<lambda>v. return_val (CRYPTO_bswap2 v))"

definition CBS_get_u24 :: "uint32 reader" where
  "CBS_get_u24 = and_then (cbs_get_u 3) (\<lambda>v. return_val (ucast v))"

definition CBS_get_u32 :: "uint32 reader" where
  "CBS_get_u32 = and_then (cbs_get_u 4) (\<lambda>v. return_val (ucast v))"

definition CBS_get_u32le :: "uint32 reader" where
  "CBS_get_u32le = and_then CBS_get_u32 (\<lambda>v. return_val (CRYPTO_bswap4 v))"

definition CBS_get_u64 :: "uint64 reader" where
  "CBS_get_u64 = cbs_get_u 8"

definition CBS_get_u64le :: "uint64 reader" where
  "CBS_get_u64le = and_then (cbs_get_u 8) (\<lambda>v. return_val (CRYPTO_bswap8 v))"

definition CBS_get_last_u8 :: "byte reader" where
  "CBS_get_last_u8 cbs = (if CBS_len cbs = 0 then (None, cbs) else (Some (last cbs), butlast cbs))"

definition CBS_get_bytes :: "nat \<Rightarrow> cbs reader" where
  "CBS_get_bytes len = and_then (cbs_get len) (\<lambda>v. return_val (CBS_init v len))"

definition CBS_copy_bytes :: "nat \<Rightarrow> byte list reader" where
  "CBS_copy_bytes len = and_then (cbs_get len) (\<lambda>v. return_val v)"

definition cbs_get_length_prefixed :: "nat \<Rightarrow> cbs reader" where
  "cbs_get_length_prefixed len_len =
     and_then (cbs_get_u len_len) (\<lambda>len. CBS_get_bytes (unat len))"

definition CBS_get_u8_length_prefixed :: "cbs reader" where
  "CBS_get_u8_length_prefixed = cbs_get_length_prefixed 1"

definition CBS_get_u16_length_prefixed :: "cbs reader" where
  "CBS_get_u16_length_prefixed = cbs_get_length_prefixed 2"

definition CBS_get_u24_length_prefixed :: "cbs reader" where
  "CBS_get_u24_length_prefixed = cbs_get_length_prefixed 3"

section \<open>Tags\<close>

abbreviation CBS_ASN1_TAG_SHIFT :: nat where
  "CBS_ASN1_TAG_SHIFT \<equiv> 24"

definition CBS_ASN1_CONSTRUCTED :: uint32 where
  "CBS_ASN1_CONSTRUCTED = push_bit CBS_ASN1_TAG_SHIFT 0x20"

definition CBS_ASN1_TAG_NUMBER_MASK :: uint32 where
  "CBS_ASN1_TAG_NUMBER_MASK = push_bit (5 + CBS_ASN1_TAG_SHIFT) 1 - 1"

definition CBS_ASN1_BOOLEAN :: uint32 where "CBS_ASN1_BOOLEAN = 0x1"
definition CBS_ASN1_INTEGER :: uint32 where "CBS_ASN1_INTEGER = 0x2"
definition CBS_ASN1_BITSTRING :: uint32 where "CBS_ASN1_BITSTRING = 0x3"
definition CBS_ASN1_OCTETSTRING :: uint32 where "CBS_ASN1_OCTETSTRING = 0x4"
definition CBS_ASN1_OBJECT :: uint32 where "CBS_ASN1_OBJECT = 0x6"

text \<open>
  The do-while loop of \<open>parse_base128_integer\<close>, over the unread bytes: \<open>v\<close> is the value read
  so far.
\<close>

fun parse_base128_loop :: "uint64 \<Rightarrow> uint64 reader" where
  "parse_base128_loop v [] = (None, [])"
| "parse_base128_loop v (b # cbs) =
     (if drop_bit (64 - 7) v \<noteq> 0 then (None, cbs)
      else if v = 0 \<and> b = 0x80 then (None, cbs)
      else
        let v' = push_bit 7 v OR ucast (b AND 0x7f)
        in if b AND 0x80 \<noteq> 0 then parse_base128_loop v' cbs else (Some v', cbs))"

definition parse_base128_integer :: "uint64 reader" where
  "parse_base128_integer = parse_base128_loop 0"

definition parse_asn1_tag :: "uint32 reader" where
  "parse_asn1_tag =
     and_then CBS_get_u8 (\<lambda>tag_byte.
       let tag = push_bit CBS_ASN1_TAG_SHIFT (ucast tag_byte AND 0xe0);
           tag_number = ucast (tag_byte AND 0x1f)
       in if tag_number = 0x1f then
            and_then parse_base128_integer (\<lambda>v.
              if v > ucast CBS_ASN1_TAG_NUMBER_MASK \<or> v < 0x1f then fail
              else return_val (tag OR ucast v))
          else return_val (tag OR tag_number))"

section \<open>ASN.1 elements\<close>

definition asn1_element :: "nat \<Rightarrow> uint32 \<Rightarrow> nat \<Rightarrow> (cbs \<times> uint32 \<times> nat) reader" where
  "asn1_element len tag header_len =
     and_then (CBS_get_bytes len) (\<lambda>out. return_val (out, tag, header_len))"

text \<open>
  The result is the whole element, its tag and the length of its header. The header is read
  from a copy of the reader, so only the last step moves it.
\<close>

definition cbs_get_any_asn1_element :: "bool \<Rightarrow> (cbs \<times> uint32 \<times> nat) reader" where
  "cbs_get_any_asn1_element ber_ok cbs =
     (case parse_asn1_tag cbs of
       (None, _) \<Rightarrow> (None, cbs)
     | (Some tag, header1) \<Rightarrow>
       (case CBS_get_u8 header1 of
         (None, _) \<Rightarrow> (None, cbs)
       | (Some length_byte, header) \<Rightarrow>
         let header_len = CBS_len cbs - CBS_len header in
         if length_byte AND 0x80 = 0 then
           asn1_element (unat length_byte + header_len) tag header_len cbs
         else
           let num_bytes = unat (length_byte AND 0x7f) in
           if ber_ok \<and> tag AND CBS_ASN1_CONSTRUCTED \<noteq> 0 \<and> num_bytes = 0 then
             asn1_element header_len tag header_len cbs
           else if num_bytes = 0 \<or> num_bytes > 4 then (None, cbs)
           else
             (case cbs_get_u num_bytes header of
               (None, _) \<Rightarrow> (None, cbs)
             | (Some len64, _) \<Rightarrow>
               if len64 < 128 then (None, cbs)
               else if drop_bit ((num_bytes - 1) * 8) len64 = 0 then (None, cbs)
               else
                 let len = unat len64 in
                 if sz_add (sz_add len header_len) num_bytes < len then (None, cbs)
                 else
                   asn1_element (sz_add len (sz_add header_len num_bytes)) tag
                     (header_len + num_bytes) cbs)))"

definition CBS_get_any_asn1_element :: "(cbs \<times> uint32 \<times> nat) reader" where
  "CBS_get_any_asn1_element = cbs_get_any_asn1_element False"

definition CBS_get_any_ber_asn1_element :: "(cbs \<times> uint32 \<times> nat) reader" where
  "CBS_get_any_ber_asn1_element = cbs_get_any_asn1_element True"

definition CBS_get_any_asn1 :: "(cbs \<times> uint32) reader" where
  "CBS_get_any_asn1 =
     and_then CBS_get_any_asn1_element (\<lambda>(out, tag, header_len).
       case CBS_skip header_len out of
         (None, _) \<Rightarrow> fail
       | (Some _, body) \<Rightarrow> return_val (body, tag))"

definition cbs_get_asn1 :: "uint32 \<Rightarrow> bool \<Rightarrow> cbs reader" where
  "cbs_get_asn1 tag_value skip_header =
     and_then CBS_get_any_asn1_element (\<lambda>(out, tag, header_len).
       if tag \<noteq> tag_value then fail
       else if skip_header then
         (case CBS_skip header_len out of
           (None, _) \<Rightarrow> fail
         | (Some _, body) \<Rightarrow> return_val body)
       else return_val out)"

definition CBS_get_asn1 :: "uint32 \<Rightarrow> cbs reader" where
  "CBS_get_asn1 tag_value = cbs_get_asn1 tag_value True"

definition CBS_get_asn1_element :: "uint32 \<Rightarrow> cbs reader" where
  "CBS_get_asn1_element tag_value = cbs_get_asn1 tag_value False"

definition CBS_peek_asn1_tag :: "uint32 \<Rightarrow> cbs \<Rightarrow> bool" where
  "CBS_peek_asn1_tag tag_value cbs =
     (if CBS_len cbs < 1 then False
      else (case parse_asn1_tag cbs of
        (None, _) \<Rightarrow> False
      | (Some actual_tag, _) \<Rightarrow> tag_value = actual_tag))"

section \<open>Typed contents\<close>

fun uint64_loop :: "uint64 \<Rightarrow> byte list \<Rightarrow> uint64 option" where
  "uint64_loop out [] = Some out"
| "uint64_loop out (b # bs) =
     (if drop_bit 56 out \<noteq> 0 then None else uint64_loop (push_bit 8 out OR ucast b) bs)"

definition CBS_get_asn1_uint64 :: "uint64 reader" where
  "CBS_get_asn1_uint64 =
     and_then (CBS_get_asn1 CBS_ASN1_INTEGER) (\<lambda>data.
       if length data = 0 then fail
       else if data ! 0 AND 0x80 \<noteq> 0 then fail
       else if data ! 0 = 0 \<and> length data > 1 \<and> data ! 1 AND 0x80 = 0 then fail
       else (case uint64_loop 0 data of None \<Rightarrow> fail | Some out \<Rightarrow> return_val out))"

text \<open>
  The union of \<open>CBS_get_asn1_int64\<close> on a little-endian target: byte \<open>i\<close> of the object is bits
  \<open>8 i\<close> to \<open>8 i + 7\<close> of the value.
\<close>

definition le_value :: "byte list \<Rightarrow> uint64" where
  "le_value bytes = foldr (\<lambda>b v. push_bit 8 v OR ucast b) bytes 0"

definition CBS_get_asn1_int64 :: "uint64 reader" where
  "CBS_get_asn1_int64 =
     and_then (CBS_get_asn1 CBS_ASN1_INTEGER) (\<lambda>data.
       let len = length data in
       if len = 0 \<or> len > 8 then fail
       else if len > 1 \<and> data ! 0 = 0 \<and> data ! 1 AND 0x80 = 0 then fail
       else if len > 1 \<and> data ! 0 = 0xff \<and> data ! 1 AND 0x80 \<noteq> 0 then fail
       else
         let is_negative = (data ! 0 AND 0x80 \<noteq> 0);
             u = rev data @ replicate (8 - len) (if is_negative then 0xff else 0)
         in return_val (le_value u))"

definition CBS_get_asn1_bool :: "bool reader" where
  "CBS_get_asn1_bool =
     and_then (CBS_get_asn1 CBS_ASN1_BOOLEAN) (\<lambda>bytes.
       if CBS_len bytes \<noteq> 1 then fail
       else
         let value = CBS_data bytes ! 0 in
         if value \<noteq> 0 \<and> value \<noteq> 0xff then fail else return_val (value \<noteq> 0))"

definition CBS_get_optional_asn1 :: "uint32 \<Rightarrow> cbs option reader" where
  "CBS_get_optional_asn1 tag cbs =
     (if CBS_peek_asn1_tag tag cbs then
        and_then (CBS_get_asn1 tag) (\<lambda>out. return_val (Some out)) cbs
      else (Some None, cbs))"

text \<open>An inner reader that has to use up its bytes: the \<open>CBS_len(&child) != 0\<close> checks.\<close>

definition whole_child :: "'a reader \<Rightarrow> cbs \<Rightarrow> 'a reader" where
  "whole_child m child =
     (case m child of
       (None, _) \<Rightarrow> fail
     | (Some x, rest) \<Rightarrow> if CBS_len rest \<noteq> 0 then fail else return_val x)"

definition CBS_get_optional_asn1_octet_string :: "uint32 \<Rightarrow> (cbs \<times> bool) reader" where
  "CBS_get_optional_asn1_octet_string tag =
     and_then (CBS_get_optional_asn1 tag) (\<lambda>child.
       case child of
         Some c \<Rightarrow> and_then (whole_child (CBS_get_asn1 CBS_ASN1_OCTETSTRING) c)
                     (\<lambda>out. return_val (out, True))
       | None \<Rightarrow> return_val ([], False))"

definition CBS_get_optional_asn1_uint64 :: "uint32 \<Rightarrow> uint64 \<Rightarrow> uint64 reader" where
  "CBS_get_optional_asn1_uint64 tag default_value =
     and_then (CBS_get_optional_asn1 tag) (\<lambda>child.
       case child of
         Some c \<Rightarrow> whole_child CBS_get_asn1_uint64 c
       | None \<Rightarrow> return_val default_value)"

definition CBS_get_optional_asn1_bool :: "uint32 \<Rightarrow> int \<Rightarrow> int reader" where
  "CBS_get_optional_asn1_bool tag default_value =
     and_then (CBS_get_optional_asn1 tag) (\<lambda>child.
       case child of
         Some c \<Rightarrow>
           (case CBS_get_asn1 CBS_ASN1_BOOLEAN c of
             (None, _) \<Rightarrow> fail
           | (Some child2, c') \<Rightarrow>
               if CBS_len child2 \<noteq> 1 \<or> CBS_len c' \<noteq> 0 then fail
               else
                 let boolean = CBS_data child2 ! 0 in
                 if boolean = 0 then return_val 0
                 else if boolean = 0xff then return_val 1
                 else fail)
       | None \<Rightarrow> return_val default_value)"

section \<open>Bit strings\<close>

definition CBS_is_valid_asn1_bitstring :: "cbs \<Rightarrow> bool" where
  "CBS_is_valid_asn1_bitstring cbs =
     (case CBS_get_u8 cbs of
       (None, _) \<Rightarrow> False
     | (Some num_unused_bits, in') \<Rightarrow>
       if num_unused_bits > 7 then False
       else if num_unused_bits = 0 then True
       else (case CBS_get_last_u8 in' of
         (None, _) \<Rightarrow> False
       | (Some last_byte, _) \<Rightarrow>
           last_byte AND (push_bit (unat num_unused_bits) 1 - 1) = 0))"

definition CBS_asn1_bitstring_has_bit :: "cbs \<Rightarrow> uint32 \<Rightarrow> bool" where
  "CBS_asn1_bitstring_has_bit cbs bit_index =
     (if \<not> CBS_is_valid_asn1_bitstring cbs then False
      else
        let byte_num = drop_bit 3 bit_index + 1;
            bit_num = 7 - (bit_index AND 7)
        in unat byte_num < CBS_len cbs \<and>
           CBS_data cbs ! unat byte_num AND push_bit (unat bit_num) 1 \<noteq> 0)"

end
