(* ===== verification/DER.thy ===== *)
theory DER
  imports CBS
begin

text \<open>
  What the readers of \<open>cbs.c\<close> accept, stated on natural numbers: big-endian numbers, base-128
  numbers, tags, lengths and whole elements. Each reader is proved to accept exactly the
  encodings defined here, which are also what the builder of \<open>cbb.c\<close> writes.
\<close>

section \<open>Fixed-width readers\<close>

lemma cbs_get_Some: "cbs_get n cbs = (Some v, rest) \<longleftrightarrow> cbs = v @ rest \<and> length v = n"
  by (auto simp: cbs_get_def)

lemma cbs_get_append [simp]: "n = length v \<Longrightarrow> cbs_get n (v @ rest) = (Some v, rest)"
  by (simp add: cbs_get_def)

lemma cbs_get_None: "cbs_get n cbs = (None, r) \<longleftrightarrow> length cbs < n \<and> r = cbs"
  by (auto simp: cbs_get_def)

lemma CBS_get_bytes_eq: "CBS_get_bytes n = cbs_get n"
  by (auto simp: fun_eq_iff CBS_get_bytes_def and_then_apply CBS_init_def cbs_get_def)

lemma CBS_get_u8_Cons [simp]: "CBS_get_u8 (b # cbs) = (Some b, cbs)"
  by (simp add: CBS_get_u8_def and_then_apply cbs_get_def)

lemma CBS_get_u8_Nil [simp]: "CBS_get_u8 [] = (None, [])"
  by (simp add: CBS_get_u8_def and_then_apply cbs_get_def)

lemma CBS_get_u8_Some: "CBS_get_u8 cbs = (Some b, rest) \<longleftrightarrow> cbs = b # rest"
  by (cases cbs) auto

lemma CBS_skip_append [simp]: "n = length v \<Longrightarrow> CBS_skip n (v @ rest) = (Some (), rest)"
  by (simp add: CBS_skip_def)

definition be_nat :: "byte list \<Rightarrow> nat" where
  "be_nat bs = foldl (\<lambda>r b. r * 256 + unat b) 0 bs"

fun be_bytes :: "nat \<Rightarrow> nat \<Rightarrow> byte list" where
  "be_bytes 0 v = []"
| "be_bytes (Suc n) v = be_bytes n (v div 256) @ [word_of_nat v]"

lemma be_nat_Nil [simp]: "be_nat [] = 0"
  by (simp add: be_nat_def)

lemma be_nat_snoc [simp]: "be_nat (bs @ [b]) = be_nat bs * 256 + unat b"
  by (simp add: be_nat_def)

lemma be_value_Nil [simp]: "be_value [] = 0"
  by (simp add: be_value_def)

lemma be_value_snoc [simp]: "be_value (bs @ [b]) = push_bit 8 (be_value bs) OR ucast b"
  by (simp add: be_value_def)

lemma be_nat_less: "be_nat bs < 256 ^ length bs"
proof (induction bs rule: rev_induct)
  case (snoc b bs)
  have "be_nat bs * 256 + unat b < be_nat bs * 256 + 256" by simp
  also have "\<dots> \<le> 256 ^ length bs * 256"
    using snoc by (metis Suc_leI add.commute mult_Suc mult_le_mono1)
  finally show ?case by (simp add: mult.commute)
qed simp

lemma mod_add_mult_pow: "(a mod m * c + b) mod m = (a * c + b) mod m" for a :: nat
  by (metis mod_add_left_eq mod_mult_left_eq)

lemma unat_be_value:
  "unat (be_value bs) = be_nat bs mod 2 ^ 64"
proof (induction bs rule: rev_induct)
  case (snoc b bs)
  have "unat (be_value (bs @ [b])) = (unat (be_value bs) * 2 ^ 8 + unat b) mod 2 ^ 64"
    unfolding be_value_snoc by (subst unat_push_or) simp_all
  also have "\<dots> = (be_nat bs * 2 ^ 8 + unat b) mod 2 ^ 64"
    unfolding snoc by (rule mod_add_mult_pow)
  finally show ?case by simp
qed simp

lemma unat_be_value_exact:
  assumes "length bs \<le> 8"
  shows "unat (be_value bs) = be_nat bs"
proof -
  have "be_nat bs < 256 ^ length bs" by (rule be_nat_less)
  also have "\<dots> \<le> 256 ^ 8" using assms by (intro power_increasing) auto
  finally show ?thesis by (simp add: unat_be_value)
qed

lemma length_be_bytes [simp]: "length (be_bytes n v) = n"
  by (induction n arbitrary: v) auto

lemma be_nat_be_bytes: "be_nat (be_bytes n v) = v mod 256 ^ n"
proof (induction n arbitrary: v)
  case (Suc n)
  have "be_nat (be_bytes (Suc n) v) = v div 256 mod 256 ^ n * 256 + v mod 256"
    by (simp add: Suc unat_of_nat take_bit_eq_mod)
  also have "\<dots> = v mod (256 * 256 ^ n)"
    by (metis mod_mult2_eq mult.commute)
  finally show ?case by simp
qed simp

lemma be_bytes_Cons: "be_bytes (Suc r) v = word_of_nat (v div 256 ^ r) # be_bytes r v"
proof (induction r arbitrary: v)
  case (Suc r)
  have "be_bytes (Suc (Suc r)) v = be_bytes (Suc r) (v div 256) @ [word_of_nat v]" by simp
  also have "\<dots> = word_of_nat (v div 256 div 256 ^ r) # be_bytes r (v div 256) @ [word_of_nat v]"
    unfolding Suc.IH by simp
  finally show ?case by (simp add: div_mult2_eq)
qed simp

lemma be_nat_Cons: "be_nat (b # bs) = unat b * 256 ^ length bs + be_nat bs"
proof (induction bs rule: rev_induct)
  case (snoc c bs)
  then show ?case using be_nat_snoc [of "b # bs" c] by (simp add: algebra_simps)
qed (use be_nat_snoc [of "[]" b] in simp)

lemma be_nat_not: "be_nat (map NOT bs) + be_nat bs + 1 = 256 ^ length bs"
proof (induction bs)
  case (Cons b bs)
  have "unat (NOT b) + unat b = 255" using unat_not [of b] by simp
  then have "unat (NOT b) * 256 ^ length bs + unat b * 256 ^ length bs = 255 * 256 ^ length bs"
    by (metis add_mult_distrib)
  with Cons show ?case by (simp add: be_nat_Cons)
qed simp

lemma be_bytes_be_nat: "be_bytes (length bs) (be_nat bs) = bs"
proof (induction bs rule: rev_induct)
  case (snoc b bs)
  have "(be_nat bs * 256 + unat b) div 256 = be_nat bs" by simp
  moreover have "word_of_nat (be_nat bs * 256 + unat b) = b"
    by (simp add: word_unat_eq_iff unat_of_nat take_bit_eq_mod del: of_nat_add of_nat_mult)
  ultimately show ?case using snoc by simp
qed simp

lemma be_nat_inj: "length as = length bs \<Longrightarrow> be_nat as = be_nat bs \<Longrightarrow> as = bs"
  by (metis be_bytes_be_nat)

lemma be_bytes_mod: "be_bytes n (v mod 256 ^ n) = be_bytes n v"
  by (rule be_nat_inj) (simp_all add: be_nat_be_bytes)

lemma be_bytes_split: "be_bytes (a + b) v = be_bytes a (v div 256 ^ b) @ be_bytes b v"
proof (induction a)
  case (Suc a)
  have "v div 256 ^ b div 256 ^ a = v div 256 ^ (a + b)" by (simp add: power_add mult.commute flip: div_mult2_eq)
  with Suc show ?case by (simp add: be_bytes_Cons del: be_bytes.simps)
qed simp

lemma cbs_get_u_append:
  "n = length v \<Longrightarrow> cbs_get_u n (v @ rest) = (Some (be_value v), rest)"
  by (simp add: cbs_get_u_def)

lemma cbs_get_u_Some:
  "cbs_get_u n cbs = (Some w, rest) \<longleftrightarrow> (\<exists>v. cbs = v @ rest \<and> length v = n \<and> w = be_value v)"
  by (auto simp: cbs_get_u_def and_then_apply cbs_get_Some split: prod.splits option.splits)

section \<open>Base-128 integers\<close>

fun b128_bytes :: "nat \<Rightarrow> nat \<Rightarrow> byte list" where
  "b128_bytes 0 v = []"
| "b128_bytes (Suc i) v =
     word_of_nat (v div 128 ^ i mod 128 + (if i \<noteq> 0 then 128 else 0)) # b128_bytes i v"

lemma length_b128_bytes [simp]: "length (b128_bytes n v) = n"
  by (induction n) auto

lemma b128_digit: "unat (word_of_nat (v div 128 ^ i mod 128 + (if c then 128 else 0)) :: byte) =
  v div 128 ^ i mod 128 + (if c then 128 else 0)"
proof -
  have "v div 128 ^ i mod 128 < 128" by simp
  then have "v div 128 ^ i mod 128 + (if c then 128 else 0) < 256" by (cases c; simp; linarith)
  then show ?thesis by (simp add: unat_of_nat take_bit_eq_mod del: of_nat_add)
qed

lemma b128_bytes_mod: "b128_bytes n (v mod 128 ^ n) = b128_bytes n v"
proof -
  have "i \<le> n \<Longrightarrow> b128_bytes i (v mod 128 ^ n) = b128_bytes i v" for i
  proof (induction i)
    case (Suc i)
    have "(128::nat) ^ n = 128 ^ i * (128 * 128 ^ (n - Suc i))"
      using Suc.prems by (simp flip: power_add power_Suc)
    then have "v mod 128 ^ n div 128 ^ i mod 128 = v div 128 ^ i mod 128"
      by (simp add: mod_mult2_eq mod_mod_cancel)
    with Suc show ?case by simp
  qed simp
  then show ?thesis by simp
qed

lemma parse_base128_loop_step:
  "parse_base128_loop a (b # cbs) =
     (if 2 ^ 57 \<le> unat a then (None, cbs)
      else if unat a = 0 \<and> unat b = 128 then (None, cbs)
      else if 128 \<le> unat b then parse_base128_loop (word_of_nat (unat a * 128 + unat b mod 128)) cbs
      else (Some (word_of_nat (unat a * 128 + unat b)), cbs))"
proof -
  have 1: "drop_bit 57 a \<noteq> 0 \<longleftrightarrow> 2 ^ 57 \<le> unat a"
    by (simp add: word_unat_eq_iff unat_drop div_eq_0_iff not_less)
  have 2: "push_bit 7 a OR ucast (b AND 0x7f) = word_of_nat (unat a * 128 + unat b mod 128)"
    by (rule word_unat_eq_iff[THEN iffD2])
      (subst unat_push_or, simp_all add: byte_low_7 unat_of_nat take_bit_eq_mod del: of_nat_add of_nat_mult)
  have 3: "a = 0 \<longleftrightarrow> unat a = 0" "b = 0x80 \<longleftrightarrow> unat b = 128"
    by (simp_all add: word_unat_eq_iff)
  show ?thesis
    unfolding parse_base128_loop.simps Let_def byte_high_bit 2 3
    using 1 by (simp add: 3)
qed
declare parse_base128_loop.simps(2) [simp del]

lemma parse_base128_loop_bytes:
  assumes "0 < n" and "unat a * 128 ^ n + v mod 128 ^ n < 2 ^ 64"
    and "unat a \<noteq> 0 \<or> n = 1 \<or> v div 128 ^ (n - 1) mod 128 \<noteq> 0"
  shows "parse_base128_loop a (b128_bytes n v @ rest) =
    (Some (word_of_nat (unat a * 128 ^ n + v mod 128 ^ n)), rest)"
  using assms
proof (induction n arbitrary: a)
  case (Suc i)
  let ?d = "v div 128 ^ i mod 128"
  have split: "v mod 128 ^ Suc i = ?d * 128 ^ i + v mod 128 ^ i"
    by (metis mod_mult2_eq mult.commute power_Suc)
  have "unat a * 128 \<le> unat a * 128 ^ Suc i" by simp
  also have "\<dots> < 2 ^ 64" using Suc.prems(2) by (rule add_lessD1)
  finally have a: "unat a < 2 ^ 57" by simp
  show ?case
  proof (cases "i = 0")
    case True
    with Suc.prems a show ?thesis
      using b128_digit[of v 0 False] by (auto simp: parse_base128_loop_step)
  next
    case False
    let ?a' = "word_of_nat (unat a * 128 + ?d) :: uint64"
    have eq: "unat a * 128 ^ Suc i + v mod 128 ^ Suc i = (unat a * 128 + ?d) * 128 ^ i + v mod 128 ^ i"
      unfolding split by (simp add: algebra_simps)
    have "unat a * 128 + ?d \<le> (unat a * 128 + ?d) * 128 ^ i" by simp
    with Suc.prems(2) eq have "unat a * 128 + ?d < 2 ^ 64" by linarith
    then have a': "unat ?a' = unat a * 128 + ?d"
      by (simp add: unat_of_nat take_bit_eq_mod del: of_nat_add of_nat_mult)
    have nz: "unat a \<noteq> 0 \<or> ?d \<noteq> 0" using Suc.prems(3) False by auto
    have IH: "parse_base128_loop ?a' (b128_bytes i v @ rest) =
      (Some (word_of_nat (unat ?a' * 128 ^ i + v mod 128 ^ i)), rest)"
      by (rule Suc.IH) (use False Suc.prems eq a' nz in auto)
    show ?thesis
      using a False nz IH b128_digit[of v i True]
      by (simp add: parse_base128_loop_step eq a' del: of_nat_add of_nat_mult power_Suc)
  qed
qed simp

lemma mod_128_high: "128 \<le> n \<Longrightarrow> n < 256 \<Longrightarrow> n = n mod 128 + 128" for n :: nat
  by (simp add: le_mod_geq)

lemma parse_base128_loop_Some:
  assumes "parse_base128_loop a cbs = (Some w, rest)"
  shows "\<exists>n v. 0 < n \<and> v < 128 ^ n \<and> cbs = b128_bytes n v @ rest \<and>
    unat w = unat a * 128 ^ n + v \<and> (unat a \<noteq> 0 \<or> n = 1 \<or> 128 ^ (n - 1) \<le> v)"
  using assms
proof (induction cbs arbitrary: a)
  case (Cons b cbs)
  from Cons.prems have a: "unat a < 2 ^ 57" and nz: "\<not> (unat a = 0 \<and> unat b = 128)"
    by (auto simp: parse_base128_loop_step split: if_splits)
  show ?case
  proof (cases "128 \<le> unat b")
    case False
    with Cons.prems a have "unat w = unat a * 128 + unat b" and "rest = cbs"
      by (auto simp: parse_base128_loop_step unat_of_nat take_bit_eq_mod
          simp del: of_nat_add of_nat_mult split: if_splits)
    with False show ?thesis
      by - (rule exI[of _ 1], rule exI[of _ "unat b"], simp)
  next
    case True
    let ?d = "unat b mod 128"
    let ?a' = "word_of_nat (unat a * 128 + ?d) :: uint64"
    have "unat a * 128 + ?d < 2 ^ 57 * 128" using a by linarith
    then have a': "unat ?a' = unat a * 128 + ?d"
      by (simp add: unat_of_nat take_bit_eq_mod del: of_nat_add of_nat_mult)
    from Cons.prems a nz True have "parse_base128_loop ?a' cbs = (Some w, rest)"
      by (auto simp: parse_base128_loop_step split: if_splits)
    from Cons.IH[OF this, unfolded a'] obtain n v where n: "0 < n" and v: "v < 128 ^ n"
      and cbs: "cbs = b128_bytes n v @ rest"
      and w: "unat w = (unat a * 128 + ?d) * 128 ^ n + v"
      by (elim exE conjE) (rule that)
    have bd: "unat b = ?d + 128"
      using True unat_byte_less[of b] by (rule mod_128_high)
    have top: "(?d * 128 ^ n + v) div 128 ^ n = ?d" using v by simp
    have "b # cbs = b128_bytes (Suc n) (?d * 128 ^ n + v) @ rest"
      using n v bd cbs b128_bytes_mod[of n "?d * 128 ^ n + v"]
      by (simp add: top word_unat_eq_iff unat_of_nat take_bit_eq_mod del: of_nat_add of_nat_mult)
    moreover have "?d * 128 ^ n + v < 128 ^ Suc n"
    proof -
      have "?d * 128 ^ n + v < ?d * 128 ^ n + 128 ^ n" using v by simp
      also have "\<dots> = Suc ?d * 128 ^ n" by simp
      also have "\<dots> \<le> 128 * 128 ^ n" by (rule mult_le_mono1) simp
      finally show ?thesis by simp
    qed
    moreover have "unat w = unat a * 128 ^ Suc n + (?d * 128 ^ n + v)"
      unfolding w by (simp add: algebra_simps)
    moreover have "unat a \<noteq> 0 \<or> 128 ^ n \<le> ?d * 128 ^ n + v"
      using nz bd by (cases "?d") auto
    ultimately show ?thesis
      using n by - (rule exI[of _ "Suc n"], rule exI[of _ "?d * 128 ^ n + v"], simp only:, simp)
  qed
qed simp

definition b128 :: "nat \<Rightarrow> byte list" where
  "b128 v = b128_bytes (base_len 128 v) v"

lemma parse_base128_integer_iff:
  "parse_base128_integer cbs = (Some w, rest) \<longleftrightarrow> cbs = b128 (unat w) @ rest"
proof
  assume "parse_base128_integer cbs = (Some w, rest)"
  from parse_base128_loop_Some[OF this[unfolded parse_base128_integer_def]]
  obtain n v where "0 < n" "v < 128 ^ n" "cbs = b128_bytes n v @ rest" "unat w = v"
    "n = 1 \<or> 128 ^ (n - 1) \<le> v" by auto
  then show "cbs = b128 (unat w) @ rest"
    unfolding b128_def using base_len_unique[of 128] by simp
next
  assume cbs: "cbs = b128 (unat w) @ rest"
  let ?n = "base_len 128 (unat w)"
  note b = base_len_bound[of 128 "unat w"]
  have top: "?n = 1 \<or> unat w div 128 ^ (?n - 1) mod 128 \<noteq> 0"
  proof (cases "?n = 1")
    case False
    with b have "128 ^ (?n - 1) \<le> unat w" by auto
    then have "1 \<le> unat w div 128 ^ (?n - 1)" by (simp add: less_eq_div_iff_mult_less_eq)
    moreover have "unat w div 128 ^ (?n - 1) < 128"
      using b by (simp add: div_less_iff_less_mult flip: power_Suc)
    ultimately show ?thesis by simp
  qed simp
  have "parse_base128_loop 0 (b128_bytes ?n (unat w) @ rest) =
    (Some (word_of_nat (unat (0::uint64) * 128 ^ ?n + unat w mod 128 ^ ?n)), rest)"
    by (rule parse_base128_loop_bytes) (use b top unsigned_less[of w, where ?'a=nat] in auto)
  then show "parse_base128_integer cbs = (Some w, rest)"
    using b by (simp add: parse_base128_integer_def cbs b128_def)
qed
section \<open>Tags\<close>

definition tag_bytes :: "uint32 \<Rightarrow> byte list" where
  "tag_bytes tag =
     (let c = unat tag div 2 ^ 29; n = unat tag mod 2 ^ 29
      in if n < 31 then [word_of_nat (c * 32 + n)] else word_of_nat (c * 32 + 31) # b128 n)"


lemma tag_byte_class:
  "push_bit 24 (ucast b AND 0xe0) = push_bit 29 (word_of_nat (unat b div 32) :: uint32)"
  for b :: byte
proof -
  have mask: "(0xe0 :: uint32) = push_bit 5 (mask 3)" by (simp add: mask_eq_exp_minus_1)
  have div: "word_of_nat (unat b div 32) = (ucast (drop_bit 5 b) :: uint32)"
    by (simp add: word_unat_eq_iff unat_drop unat_of_nat take_bit_nat_eq_self
        order_le_less_trans [OF div_le_dividend order_less_trans [OF unat_byte_less]] del: drop_bit_numeral_bit0)
  show ?thesis unfolding mask div
    by (rule bit_word_eqI) (auto simp: bit_simps dest: bit_imp_le_length)
qed

lemma tag_byte_number: "unat (b AND 0x1f) = unat b mod 32" for b :: byte
  using unat_and_mask [of b 5] by (simp add: mask_eq_exp_minus_1)

lemma tag_byte_join:
  assumes "unat (s :: uint32) < 2 ^ 29"
  shows "push_bit 24 (ucast (b :: byte) AND 0xe0) OR s = word_of_nat (unat b div 32 * 2 ^ 29 + unat s)"
proof -
  have b: "unat b div 32 < 8" by (simp add: div_less_iff_less_mult)
  then have lt: "unat b div 32 * 2 ^ 29 + unat s < 2 ^ 32" using assms by simp
  have "unat (word_of_nat (unat b div 32) :: uint32) = unat b div 32"
    by (rule unat_small) (use b in simp)
  then show ?thesis
    unfolding tag_byte_class
    by (intro word_unat_eq_iff [THEN iffD2])
      (subst unat_push_or [OF assms], use lt in \<open>simp add: unat_of_nat take_bit_eq_mod del: of_nat_add of_nat_mult\<close>)
qed

lemma and_then_u8: "and_then CBS_get_u8 f (b # cs) = f b cs"
  by simp

lemma parse_asn1_tag_Cons:
  "parse_asn1_tag (b # cs) =
     (if unat b mod 32 = 31 then
        and_then parse_base128_integer (\<lambda>v.
          if 2 ^ 29 \<le> unat v \<or> unat v < 31 then fail
          else return_val (word_of_nat (unat b div 32 * 2 ^ 29 + unat v))) cs
      else (Some (word_of_nat (unat b div 32 * 2 ^ 29 + unat b mod 32)), cs))"
proof -
  have num: "unat (ucast (b AND 0x1f) :: uint32) = unat b mod 32" by (simp add: tag_byte_number)
  then have eq: "ucast (b AND 0x1f) = (0x1f :: uint32) \<longleftrightarrow> unat b mod 32 = 31"
    by (simp add: word_unat_eq_iff)
  have mask: "unat (ucast CBS_ASN1_TAG_NUMBER_MASK :: uint64) = 2 ^ 29 - 1"
    by (simp add: CBS_ASN1_TAG_NUMBER_MASK_def)
  have bad: "v > ucast CBS_ASN1_TAG_NUMBER_MASK \<or> v < 0x1f \<longleftrightarrow> 2 ^ 29 \<le> unat v \<or> unat v < 31" for v :: uint64
    unfolding word_less_nat_alt mask by auto
  have "unat (ucast (b AND 0x1f) :: uint32) < 2 ^ 29"
    unfolding num by (rule order_less_trans [of _ 32]) simp_all
  note low = tag_byte_join [OF this, of b, unfolded num]
  have high: "push_bit 24 (ucast b AND 0xe0) OR (ucast v :: uint32) = word_of_nat (unat b div 32 * 2 ^ 29 + unat v)"
    if "unat v < 2 ^ 29" for v :: uint64
  proof -
    have "unat (ucast v :: uint32) = unat v"
      using that by (simp add: unsigned_ucast_eq take_bit_nat_eq_self)
    then show ?thesis using tag_byte_join [of "ucast v :: uint32" b] that by simp
  qed
  have fun_eq: "(\<lambda>v. if v > ucast CBS_ASN1_TAG_NUMBER_MASK \<or> v < 0x1f then fail
          else return_val (push_bit 24 (ucast b AND 0xe0) OR ucast v :: uint32)) =
       (\<lambda>v :: uint64. if 2 ^ 29 \<le> unat v \<or> unat v < 31 then fail
          else return_val (word_of_nat (unat b div 32 * 2 ^ 29 + unat v)))"
    unfolding bad by (rule ext) (use high in \<open>simp add: not_le\<close>)
  show ?thesis
    unfolding parse_asn1_tag_def and_then_u8 Let_def eq fun_eq low
    by simp
qed

lemma tag_bytes_join:
  assumes "c < 8" and "n < 2 ^ 29"
  shows "tag_bytes (word_of_nat (c * 2 ^ 29 + n)) =
    (if n < 31 then [word_of_nat (c * 32 + n)] else word_of_nat (c * 32 + 31) # b128 n)"
proof -
  have "c * 2 ^ 29 + n < 2 ^ 32" using assms by simp
  then have "unat (word_of_nat (c * 2 ^ 29 + n) :: uint32) = c * 2 ^ 29 + n"
    by (intro unat_small) simp
  with assms show ?thesis by (simp add: tag_bytes_def)
qed

lemma tag_word_split:
  fixes tag :: uint32
  obtains c n where "c < 8" "n < 2 ^ 29" "tag = word_of_nat (c * 2 ^ 29 + n)"
proof
  show "unat tag div 2 ^ 29 < 8"
    using unsigned_less [of tag, where ?'a = nat] by (simp add: div_less_iff_less_mult)
  show "unat tag mod 2 ^ 29 < 2 ^ 29" by simp
  show "tag = word_of_nat (unat tag div 2 ^ 29 * 2 ^ 29 + unat tag mod 2 ^ 29)"
    unfolding div_mult_mod_eq by simp
qed

lemma unat_tag_byte: "c < 8 \<Longrightarrow> n < 32 \<Longrightarrow> unat (word_of_nat (c * 32 + n) :: byte) = c * 32 + n"
  by (rule unat_small) simp

lemma parse_asn1_tag_iff:
  "parse_asn1_tag cbs = (Some tag, rest) \<longleftrightarrow> cbs = tag_bytes tag @ rest"
proof
  assume p: "parse_asn1_tag cbs = (Some tag, rest)"
  then obtain b cs where cbs: "cbs = b # cs"
    by (cases cbs) (auto simp: parse_asn1_tag_def)
  let ?c = "unat b div 32"
  have c: "?c < 8" by (simp add: div_less_iff_less_mult)
  have b: "b = word_of_nat (?c * 32 + unat b mod 32)" unfolding div_mult_mod_eq by simp
  show "cbs = tag_bytes tag @ rest"
  proof (cases "unat b mod 32 = 31")
    case True
    with p cbs obtain v where v: "parse_base128_integer cs = (Some v, rest)"
      and "31 \<le> unat v" "unat v < 2 ^ 29" "tag = word_of_nat (?c * 2 ^ 29 + unat v)"
      by (auto simp: parse_asn1_tag_Cons and_then_apply not_le not_less
          simp del: of_nat_add of_nat_mult split: prod.splits option.splits if_splits)
    then show ?thesis
      using tag_bytes_join [OF c, of "unat v"] b True cbs
      by (simp add: parse_base128_integer_iff del: of_nat_add of_nat_mult)
  next
    case False
    have "unat b mod 32 < 32" by simp
    with False have lt: "unat b mod 32 < 31" by linarith
    then have lt2: "unat b mod 32 < 2 ^ 29" by (rule order_less_trans) simp
    from p cbs False have "rest = cs" "tag = word_of_nat (?c * 2 ^ 29 + unat b mod 32)"
      by (auto simp: parse_asn1_tag_Cons simp del: of_nat_add of_nat_mult)
    then show ?thesis
      using tag_bytes_join [OF c lt2] lt b cbs by (simp del: of_nat_add of_nat_mult)
  qed
next
  assume cbs: "cbs = tag_bytes tag @ rest"
  obtain c n where c: "c < 8" and n: "n < 2 ^ 29" and tag: "tag = word_of_nat (c * 2 ^ 29 + n)"
    by (rule tag_word_split)
  show "parse_asn1_tag cbs = (Some tag, rest)"
  proof (cases "n < 31")
    case True
    then show ?thesis
      using tag_bytes_join [OF c n] unat_tag_byte [of c n] c cbs
      by (simp add: tag parse_asn1_tag_Cons del: of_nat_add of_nat_mult)
  next
    case False
    have un: "unat (word_of_nat n :: uint64) = n" by (rule unat_small) (use n in simp)
    then have "parse_base128_integer (b128 n @ rest) = (Some (word_of_nat n), rest)"
      by (simp add: parse_base128_integer_iff)
    then show ?thesis
      using tag_bytes_join [OF c n] n False unat_tag_byte [of c 31] c cbs un
      by (simp add: tag parse_asn1_tag_Cons not_le del: of_nat_add of_nat_mult)
  qed
qed

lemma length_tag_bytes: "0 < length (tag_bytes tag) \<and> length (tag_bytes tag) \<le> 6"
proof -
  obtain c n where c: "c < 8" and n: "n < 2 ^ 29" and tag: "tag = word_of_nat (c * 2 ^ 29 + n)"
    by (rule tag_word_split)
  have "base_len 128 n \<le> 5"
  proof (rule ccontr)
    assume *: "\<not> base_len 128 n \<le> 5"
    then have "(128::nat) ^ 5 \<le> 128 ^ (base_len 128 n - 1)" by (intro power_increasing) auto
    moreover from * have "128 ^ (base_len 128 n - 1) \<le> n"
      using base_len_bound [of 128 n] by auto
    ultimately show False using n by simp
  qed
  then show ?thesis using tag_bytes_join [OF c n]
    by (simp add: tag b128_def del: of_nat_add of_nat_mult)
qed
section \<open>Lengths and elements\<close>

definition len_bytes :: "nat \<Rightarrow> byte list" where
  "len_bytes n =
     (if n < 128 then [word_of_nat n]
      else word_of_nat (128 + base_len 256 n) # be_bytes (base_len 256 n) n)"

definition der_header :: "uint32 \<Rightarrow> nat \<Rightarrow> byte list" where
  "der_header tag n = tag_bytes tag @ len_bytes n"

definition der_element :: "uint32 \<Rightarrow> byte list \<Rightarrow> byte list" where
  "der_element tag body = der_header tag (length body) @ body"

lemma asn1_element_Some:
  "asn1_element len tag hl cbs = (Some (out, tag', hl'), rest) \<longleftrightarrow>
     tag' = tag \<and> hl' = hl \<and> cbs = out @ rest \<and> length out = len"
  by (auto simp: asn1_element_def CBS_get_bytes_eq and_then_apply cbs_get_def
      split: if_splits)

lemma element_long_form:
  assumes "nb \<le> 4" and "hl \<le> 7"
  shows "(case cbs_get_u nb header of
      (None, _) \<Rightarrow> (None, cbs)
    | (Some len64, _) \<Rightarrow>
      if len64 < 128 then (None, cbs)
      else if drop_bit ((nb - 1) * 8) len64 = 0 then (None, cbs)
      else let len = unat len64 in
        if sz_add (sz_add len hl) nb < len then (None, cbs)
        else asn1_element (sz_add len (sz_add hl nb)) tag (hl + nb) cbs) =
    (if length header < nb then (None, cbs)
     else let len = be_nat (take nb header) in
       if len < 128 \<or> len < 256 ^ (nb - 1) then (None, cbs)
       else asn1_element (len + (hl + nb)) tag (hl + nb) cbs)"
proof (cases "length header < nb")
  case True
  then show ?thesis by (simp add: cbs_get_u_def and_then_apply cbs_get_def)
next
  case False
  let ?v = "take nb header"
  have v: "length ?v = nb" using False by simp
  then have val: "unat (be_value ?v) = be_nat ?v"
    using assms by (intro unat_be_value_exact) simp
  have "be_nat ?v < 256 ^ nb" using be_nat_less [of ?v] v by simp
  also have "\<dots> \<le> 256 ^ 4" by (rule power_increasing) (use assms in auto)
  finally have "be_nat ?v < 2 ^ 32" by simp
  then have small: "be_nat ?v + (hl + nb) < size_mod"
    using assms by (simp add: size_mod_def)
  then have add: "sz_add hl nb = hl + nb" "sz_add (be_nat ?v) (hl + nb) = be_nat ?v + (hl + nb)"
    "sz_add (sz_add (be_nat ?v) hl) nb = be_nat ?v + hl + nb"
    by (simp_all add: sz_add_exact)
  have drop: "drop_bit ((nb - 1) * 8) (be_value ?v) = 0 \<longleftrightarrow> be_nat ?v < 256 ^ (nb - 1)"
    by (simp add: word_unat_eq_iff unat_drop val div_eq_0_iff power_mult mult.commute [of _ 8])
  have lt: "be_value ?v < 128 \<longleftrightarrow> be_nat ?v < 128"
    by (simp add: word_less_nat_alt val)
  have get: "cbs_get_u nb header = (Some (be_value ?v), drop nb header)"
    using False by (simp add: cbs_get_u_def and_then_apply cbs_get_def)
  show ?thesis
    unfolding get prod.case option.case Let_def drop lt val add using False by simp
qed

lemma element_header:
  assumes "cbs = tag_bytes tag @ lb # header" and "hl = length (tag_bytes tag) + 1" and "nb = unat lb - 128"
  shows "cbs_get_any_asn1_element ber_ok cbs =
    (if unat lb < 128 then asn1_element (unat lb + hl) tag hl cbs
     else if ber_ok \<and> tag AND CBS_ASN1_CONSTRUCTED \<noteq> 0 \<and> nb = 0 then asn1_element hl tag hl cbs
     else if nb = 0 \<or> 4 < nb then (None, cbs)
     else if length header < nb then (None, cbs)
     else
       let len = be_nat (take nb header) in
       if len < 128 \<or> len < 256 ^ (nb - 1) then (None, cbs)
       else asn1_element (len + (hl + nb)) tag (hl + nb) cbs)"
proof -
  have tagp: "parse_asn1_tag cbs = (Some tag, lb # header)"
    by (simp add: parse_asn1_tag_iff assms)
  have hl: "CBS_len cbs - CBS_len header = hl"
    by (simp add: CBS_len_def assms)
  have nb: "unat (lb AND 0x7f) = nb" if "\<not> unat lb < 128"
    using that mod_128_high [of "unat lb"] unat_byte_less [of lb] by (simp add: byte_low_7 assms)
  have hl7: "hl \<le> 7" using length_tag_bytes [of tag] assms(2) by simp
  show ?thesis
  proof (cases "unat lb < 128")
    case True
    then show ?thesis
      unfolding cbs_get_any_asn1_element_def tagp prod.case option.case CBS_get_u8_Cons Let_def hl
        byte_high_bit_0 by simp
  next
    case False
    show ?thesis
      unfolding cbs_get_any_asn1_element_def tagp prod.case option.case CBS_get_u8_Cons Let_def hl
        byte_high_bit_0 nb [OF False]
      using False element_long_form [OF _ hl7, unfolded Let_def] by simp
  qed
qed

lemma len_bytes_long:
  assumes "128 \<le> n" and "n < 2 ^ 32"
  shows "len_bytes n = word_of_nat (128 + base_len 256 n) # be_bytes (base_len 256 n) n"
    and "unat (word_of_nat (128 + base_len 256 n) :: byte) = 128 + base_len 256 n"
    and "base_len 256 n \<le> 4"
proof -
  show k: "base_len 256 n \<le> 4" using assms(2) by (intro base_len_le) auto
  then show "unat (word_of_nat (128 + base_len 256 n) :: byte) = 128 + base_len 256 n"
    by (intro unat_small) simp
  show "len_bytes n = word_of_nat (128 + base_len 256 n) # be_bytes (base_len 256 n) n"
    using assms by (simp add: len_bytes_def)
qed

lemma parse_der_element:
  assumes "length body < 2 ^ 32"
  shows "cbs_get_any_asn1_element ber_ok (der_element tag body @ rest) =
    (Some (der_element tag body, tag, length (der_header tag (length body))), rest)"
proof (cases "length body < 128")
  case True
  then have "unat (word_of_nat (length body) :: byte) = length body" by (intro unat_small) simp
  with True show ?thesis
    using element_header [OF refl refl refl, where tag = tag and lb = "word_of_nat (length body)"
        and header = "body @ rest" and ber_ok = ber_ok]
    by (simp add: der_element_def der_header_def len_bytes_def asn1_element_Some)
next
  case False
  define n k where "n = length body" and "k = base_len 256 n"
  have n: "128 \<le> n" "n < 2 ^ 32" using False assms by (simp_all add: n_def)
  note lb = len_bytes_long [OF n, folded k_def]
  have bound: "n < 256 ^ k" "k = 1 \<or> 256 ^ (k - 1) \<le> n"
    using base_len_bound [of 256 n] by (auto simp: k_def)
  have le: "256 ^ (k - 1) \<le> n" using bound(2) n by auto
  have val: "be_nat (be_bytes k n) = n" using bound by (simp add: be_nat_be_bytes)
  have "0 < k" by (simp add: k_def)
  moreover have "unat (word_of_nat (128 + k) :: byte) - 128 = k" using lb(2) by simp
  ultimately show ?thesis
    using element_header [OF refl refl, where tag = tag and lb = "word_of_nat (128 + k)"
        and header = "be_bytes k n @ body @ rest" and nb = k and ber_ok = ber_ok]
      n le lb val
    by (simp add: der_element_def der_header_def asn1_element_Some not_less flip: n_def del: of_nat_add)
qed

lemma element_accepted:
  assumes "cbs_get_any_asn1_element ber_ok cbs = (Some (out, tag, hl), rest)"
  shows "cbs = out @ rest \<and>
    ((\<exists>body. length body < 2 ^ 32 \<and> out = der_element tag body \<and> hl = length (der_header tag (length body)))
     \<or> (ber_ok \<and> tag AND CBS_ASN1_CONSTRUCTED \<noteq> 0 \<and> out = tag_bytes tag @ [0x80] \<and> hl = length out))"
proof -
  from assms obtain t h1 where p: "parse_asn1_tag cbs = (Some t, h1)"
    by (cases "parse_asn1_tag cbs") (auto simp: cbs_get_any_asn1_element_def split: option.splits)
  with assms obtain lb header where h1: "h1 = lb # header"
    by (cases h1) (auto simp: cbs_get_any_asn1_element_def)
  have cbs: "cbs = tag_bytes t @ lb # header"
    using p h1 by (simp add: parse_asn1_tag_iff)
  define hl' nb where "hl' = length (tag_bytes t) + 1" and "nb = unat lb - 128"
  let ?len = "be_nat (take nb header)"
  note eq = element_header [OF cbs hl'_def nb_def, of ber_ok, unfolded assms Let_def]
  consider (short) "unat lb < 128" "asn1_element (unat lb + hl') t hl' cbs = (Some (out, tag, hl), rest)"
    | (indef) "unat lb = 128" "ber_ok" "t AND CBS_ASN1_CONSTRUCTED \<noteq> 0"
        "asn1_element hl' t hl' cbs = (Some (out, tag, hl), rest)"
    | (long) "128 < unat lb" "nb \<le> 4" "nb \<le> length header" "128 \<le> ?len" "256 ^ (nb - 1) \<le> ?len"
        "asn1_element (?len + (hl' + nb)) t (hl' + nb) cbs = (Some (out, tag, hl), rest)"
    using eq by (auto split: if_splits simp: not_less not_le nb_def)
  then show ?thesis
  proof cases
    case short
    let ?body = "take (unat lb) header"
    from short(2) have o: "t = tag" "hl = hl'" "cbs = out @ rest" "length out = unat lb + hl'"
      by (auto simp: asn1_element_Some)
    have "length cbs = hl' + length header" by (simp add: hl'_def cbs)
    moreover have "length cbs = length out + length rest" by (simp add: o(3))
    ultimately have "length header = unat lb + length rest" using o(4) by linarith
    moreover have "out = take (unat lb + hl') cbs" using o by simp
    ultimately have "length ?body = unat lb" "out = der_element tag ?body"
      using short(1) by (simp_all add: der_element_def der_header_def len_bytes_def cbs hl'_def flip: o(1))
    with short(1) o show ?thesis
      by (auto simp: der_header_def len_bytes_def hl'_def intro!: exI [of _ ?body])
  next
    case indef
    have "lb = 0x80" using indef(1) by (simp add: word_unat_eq_iff)
    moreover from indef(4) have o: "t = tag" "hl = hl'" "cbs = out @ rest" "length out = hl'"
      by (auto simp: asn1_element_Some)
    moreover have "out = take hl' cbs" using o by simp
    ultimately have "out = tag_bytes tag @ [0x80]" by (simp add: hl'_def cbs flip: o(1))
    with indef o show ?thesis by simp
  next
    case long
    let ?v = "take nb header" and ?body = "take ?len (drop nb header)"
    from long(6) have o: "t = tag" "hl = hl' + nb" "cbs = out @ rest" "length out = ?len + (hl' + nb)"
      by (auto simp: asn1_element_Some)
    have "length cbs = hl' + length header" by (simp add: hl'_def cbs)
    moreover have "length cbs = length out + length rest" by (simp add: o(3))
    ultimately have body: "length ?body = ?len" using o(4) by simp
    have v: "length ?v = nb" using long(3) by simp
    have lt: "?len < 256 ^ nb" using be_nat_less [of ?v] v by simp
    moreover have "0 < nb" using long(1) by (simp add: nb_def)
    ultimately have k: "nb = base_len 256 ?len"
      using long by (intro base_len_unique) auto
    have "(256::nat) ^ nb \<le> 256 ^ 4" by (rule power_increasing) (use long(2) in auto)
    with lt have len32: "?len < 2 ^ 32" by simp
    have bytes: "be_bytes nb ?len = ?v" using be_bytes_be_nat [of ?v] v by simp
    have lb: "lb = word_of_nat (128 + nb)"
      using long(1) by (simp add: nb_def)
    have lbs: "len_bytes ?len = lb # ?v"
      using len_bytes_long(1) [OF long(4) len32] k lb bytes by simp
    have tk: "take (?len + nb) header = ?v @ ?body"
      by (metis add.commute take_add)
    have "out = take (?len + (hl' + nb)) cbs" using o by simp
    also have "\<dots> = der_element tag ?body"
      using cbs o(1) body lbs by (simp add: der_element_def der_header_def hl'_def tk)
    finally show ?thesis
      using o body lbs len32 v by (auto simp: der_header_def hl'_def intro!: exI [of _ ?body])
  qed
qed

lemma CBS_get_any_asn1_element_iff:
  "CBS_get_any_asn1_element cbs = (Some (out, tag, hl), rest) \<longleftrightarrow>
    (\<exists>body. length body < 2 ^ 32 \<and> cbs = der_element tag body @ rest \<and>
       out = der_element tag body \<and> hl = length (der_header tag (length body)))"
proof
  assume "CBS_get_any_asn1_element cbs = (Some (out, tag, hl), rest)"
  from element_accepted [OF this [unfolded CBS_get_any_asn1_element_def]]
  show "\<exists>body. length body < 2 ^ 32 \<and> cbs = der_element tag body @ rest \<and>
       out = der_element tag body \<and> hl = length (der_header tag (length body))"
    by auto
qed (auto simp: CBS_get_any_asn1_element_def parse_der_element)

lemma CBS_skip_header [simp]:
  "CBS_skip (length (der_header tag (length body))) (der_element tag body) = (Some (), body)"
  by (simp add: der_element_def)

lemma CBS_get_any_asn1_iff:
  "CBS_get_any_asn1 cbs = (Some (body, tag), rest) \<longleftrightarrow>
     length body < 2 ^ 32 \<and> cbs = der_element tag body @ rest"
proof
  assume "CBS_get_any_asn1 cbs = (Some (body, tag), rest)"
  then show "length body < 2 ^ 32 \<and> cbs = der_element tag body @ rest"
    unfolding CBS_get_any_asn1_def
    by (elim and_then_SomeE)
      (auto simp: CBS_get_any_asn1_element_iff fail_def split: prod.splits option.splits)
next
  assume "length body < 2 ^ 32 \<and> cbs = der_element tag body @ rest"
  then have "CBS_get_any_asn1_element cbs =
    (Some (der_element tag body, tag, length (der_header tag (length body))), rest)"
    by (auto simp: CBS_get_any_asn1_element_iff)
  then show "CBS_get_any_asn1 cbs = (Some (body, tag), rest)"
    by (simp add: CBS_get_any_asn1_def)
qed

lemma CBS_get_asn1_iff:
  "CBS_get_asn1 tag cbs = (Some body, rest) \<longleftrightarrow>
     length body < 2 ^ 32 \<and> cbs = der_element tag body @ rest"
proof
  assume "CBS_get_asn1 tag cbs = (Some body, rest)"
  then show "length body < 2 ^ 32 \<and> cbs = der_element tag body @ rest"
    unfolding CBS_get_asn1_def cbs_get_asn1_def
    by (elim and_then_SomeE)
      (auto simp: CBS_get_any_asn1_element_iff fail_def split: prod.splits option.splits if_splits)
next
  assume "length body < 2 ^ 32 \<and> cbs = der_element tag body @ rest"
  then have "CBS_get_any_asn1_element cbs =
    (Some (der_element tag body, tag, length (der_header tag (length body))), rest)"
    by (auto simp: CBS_get_any_asn1_element_iff)
  then show "CBS_get_asn1 tag cbs = (Some body, rest)"
    by (simp add: CBS_get_asn1_def cbs_get_asn1_def)
qed

lemma der_element_inj:
  assumes "der_element t b @ r = der_element t' b' @ r'" and "length b < 2 ^ 32" and "length b' < 2 ^ 32"
  shows "t = t' \<and> b = b' \<and> r = r'"
proof -
  have "CBS_get_any_asn1 (der_element t b @ r) = (Some (b, t), r)"
    and "CBS_get_any_asn1 (der_element t b @ r) = (Some (b', t'), r')"
    using assms by (auto simp: CBS_get_any_asn1_iff)
  then show ?thesis by simp
qed

lemma length_der_header: "2 \<le> length (der_header tag n)"
  using length_tag_bytes [of tag] by (auto simp: der_header_def len_bytes_def Suc_le_eq)

lemma element_progress:
  assumes "cbs_get_any_asn1_element ber_ok cbs = (Some (out, tag, hl), rest)"
  shows "cbs = out @ rest" and "2 \<le> length out" and "hl \<le> length out" and "2 \<le> hl"
  using element_accepted [OF assms] length_tag_bytes [of tag] length_der_header [of tag]
  by (auto simp: der_element_def Suc_le_eq trans_le_add1)

end
