(* ===== verification/CBB.thy ===== *)
theory CBB
  imports DER
begin

text \<open>
  The byte builder of \<open>crypto/bytestring/cbb.c\<close>. A \<open>CBB\<close> is a top-level object and a chain of
  open children, each with a pending length prefix, over one shared buffer. The state keeps the
  buffer (\<open>struct cbb_buffer_st\<close>) and the chain; a \<open>CBB *\<close> is a handle: 0 is the top-level
  object and \<open>i + 1\<close> the child that hangs off \<open>i\<close>. A \<open>CBB\<close> that was flushed or discarded is no
  longer in the chain: its \<open>base\<close> is \<open>NULL\<close> in the code and every operation on it fails.
  Operations return the C result and the new state.

  The valid bytes \<open>buf[0 .. len - 1]\<close> are a list, so \<open>len\<close> is its length; what memory holds
  beyond \<open>len\<close> is not modelled, and an operation that hands out uninitialised space takes the
  bytes that the caller stores there. \<open>base_oom\<close> holds the outcomes of the allocator.
\<close>

section \<open>State\<close>

record cbb_buffer =
  base_buf :: "byte list"
  base_cap :: nat
  base_can_resize :: bool
  base_error :: bool
  base_oom :: heap

record cbb_child =
  offset :: nat
  pending_len_len :: nat
  pending_is_asn1 :: bool

record cbb =
  cbb_base :: "cbb_buffer option"
  children :: "cbb_child list"

definition CBB_zero :: cbb where
  "CBB_zero = \<lparr>cbb_base = None, children = []\<rparr>"

section \<open>Initialisation\<close>

definition cbb_init :: "cbb \<Rightarrow> nat \<Rightarrow> heap \<Rightarrow> bool \<times> cbb \<times> heap" where
  "cbb_init cbb capacity h =
     (case alloc_next h of (ok, h') \<Rightarrow>
       if \<not> ok then (False, cbb, h')
       else (True, cbb\<lparr>cbb_base := Some \<lparr>base_buf = [], base_cap = capacity, base_can_resize = True,
                base_error = False, base_oom = h'\<rparr>\<rparr>, h'))"

definition CBB_init :: "nat \<Rightarrow> heap \<Rightarrow> bool \<times> cbb" where
  "CBB_init initial_capacity h =
     (let cbb = CBB_zero; (buf_ok, h1) = alloc_next h in
      if initial_capacity > 0 \<and> \<not> buf_ok then (False, cbb)
      else (case cbb_init cbb initial_capacity h1 of (ok, cbb', _) \<Rightarrow> (ok, cbb')))"

definition CBB_init_fixed :: "nat \<Rightarrow> heap \<Rightarrow> bool \<times> cbb" where
  "CBB_init_fixed len h =
     (case cbb_init CBB_zero len h of (ok, cbb', _) \<Rightarrow>
       if \<not> ok then (False, cbb')
       else (True, cbb'\<lparr>cbb_base := map_option (base_can_resize_update (\<lambda>_. False)) (cbb_base cbb')\<rparr>))"

definition CBB_cleanup :: "cbb \<Rightarrow> nat \<Rightarrow> cbb" where
  "CBB_cleanup cbb h = (if h \<noteq> 0 then cbb else \<lparr>cbb_base = None, children = []\<rparr>)"

section \<open>The buffer\<close>

fun cbb_buffer_reserve :: "cbb_buffer option \<Rightarrow> nat \<Rightarrow> bool \<times> cbb_buffer option" where
  "cbb_buffer_reserve None len = (False, None)"
| "cbb_buffer_reserve (Some base) len =
     (let newlen = sz_add (length (base_buf base)) len in
      if newlen < length (base_buf base) then (False, Some (base\<lparr>base_error := True\<rparr>))
      else if newlen > base_cap base then
        if \<not> base_can_resize base then (False, Some (base\<lparr>base_error := True\<rparr>))
        else
          let newcap2 = sz_mul (base_cap base) 2;
              newcap = (if newcap2 < base_cap base \<or> newcap2 < newlen then newlen else newcap2);
              (ok, oom) = alloc_next (base_oom base)
          in if \<not> ok then (False, Some (base\<lparr>base_oom := oom, base_error := True\<rparr>))
             else (True, Some (base\<lparr>base_cap := newcap, base_oom := oom\<rparr>))
      else (True, Some base))"

text \<open>\<open>cbb_buffer_add\<close> with the bytes that end up in the new space.\<close>

definition cbb_buffer_add :: "cbb_buffer option \<Rightarrow> byte list \<Rightarrow> bool \<times> cbb_buffer option" where
  "cbb_buffer_add base bytes =
     (case cbb_buffer_reserve base (length bytes) of
       (False, base') \<Rightarrow> (False, base')
     | (True, base') \<Rightarrow> (True, map_option (base_buf_update (\<lambda>b. b @ bytes)) base'))"

text \<open>
  The loop of \<open>cbb_buffer_add_u\<close>: it fills the new space from its last byte to its first and
  leaves the bits that did not fit in \<open>v\<close>.
\<close>

fun be_store :: "nat \<Rightarrow> uint64 \<Rightarrow> byte list \<Rightarrow> byte list \<times> uint64" where
  "be_store 0 v acc = (acc, v)"
| "be_store (Suc i) v acc = be_store i (drop_bit 8 v) (ucast v # acc)"

definition cbb_buffer_add_u :: "cbb_buffer option \<Rightarrow> uint64 \<Rightarrow> nat \<Rightarrow> bool \<times> cbb_buffer option" where
  "cbb_buffer_add_u base v len_len =
     (if len_len = 0 then (True, base)
      else
        let (bytes, v') = be_store len_len v [] in
        (case cbb_buffer_add base bytes of
          (False, base') \<Rightarrow> (False, base')
        | (True, base') \<Rightarrow>
            if v' \<noteq> 0 then (False, map_option (base_error_update (\<lambda>_. True)) base')
            else (True, base')))"

section \<open>Flushing\<close>

text \<open>The bytes \<open>buf[off ..]\<close> overwritten by \<open>bytes\<close>, and the memmove within the buffer.\<close>

definition store_at :: "nat \<Rightarrow> byte list \<Rightarrow> byte list \<Rightarrow> byte list" where
  "store_at off bytes b = take off b @ bytes @ drop (off + length bytes) b"

definition move_to :: "nat \<Rightarrow> nat \<Rightarrow> nat \<Rightarrow> byte list \<Rightarrow> byte list" where
  "move_to dst src n b = store_at dst (take n (drop src b)) b"

definition asn1_length_form :: "nat \<Rightarrow> (nat \<times> byte \<times> nat) option" where
  "asn1_length_form len =
     (if len > 0xfffffffe then None
      else if len > 0xffffff then Some (5, 0x80 OR 4, len)
      else if len > 0xffff then Some (4, 0x80 OR 3, len)
      else if len > 0xff then Some (3, 0x80 OR 2, len)
      else if len > 0x7f then Some (2, 0x80 OR 1, len)
      else Some (1, word_of_nat len, 0))"

definition set_error :: "cbb_buffer \<Rightarrow> cbb_buffer" where
  "set_error base = base\<lparr>base_error := True\<rparr>"

text \<open>The last loop of \<open>CBB_flush\<close>: the pending prefix of \<open>child\<close> receives \<open>len\<close>.\<close>

definition write_prefix :: "cbb_buffer \<Rightarrow> cbb_child \<Rightarrow> nat \<Rightarrow> bool \<times> cbb_buffer" where
  "write_prefix base child len =
     (let (bytes, rest) = be_store (pending_len_len child) (word_of_nat len) [];
          base' = base\<lparr>base_buf := store_at (offset child) bytes (base_buf base)\<rparr>
      in if rest \<noteq> 0 then (False, set_error base') else (True, base'))"

text \<open>
  The part of \<open>CBB_flush\<close> after the recursive call: the result, the buffer and \<open>child\<close> as it is
  left when the call fails.
\<close>

definition close_child :: "cbb_buffer \<Rightarrow> cbb_child \<Rightarrow> nat \<Rightarrow> bool \<times> cbb_buffer \<times> cbb_child" where
  "close_child base child child_start =
     (let len = length (base_buf base) - child_start in
      if pending_is_asn1 child then
        (case asn1_length_form len of
          None \<Rightarrow> (False, set_error base, child)
        | Some (len_len, initial_length_byte, len') \<Rightarrow>
          let extra_bytes = len_len - 1;
              (ok, base1) =
                (if len_len \<noteq> 1 then cbb_buffer_add (Some base) (replicate extra_bytes 0)
                 else (True, Some base))
          in
          (case base1 of
            None \<Rightarrow> (False, set_error base, child)
          | Some b1 \<Rightarrow>
            if \<not> ok then (False, set_error b1, child)
            else
              let b2 = (if len_len \<noteq> 1 then
                          b1\<lparr>base_buf := move_to (child_start + extra_bytes) child_start len' (base_buf b1)\<rparr>
                        else b1);
                  b3 = b2\<lparr>base_buf := store_at (offset child) [initial_length_byte] (base_buf b2)\<rparr>;
                  child' = child\<lparr>offset := offset child + 1, pending_len_len := len_len - 1\<rparr>;
                  (ok2, b4) = write_prefix b3 child' len'
              in (ok2, b4, child')))
      else (case write_prefix base child len of (ok, b) \<Rightarrow> (ok, b, child)))"

text \<open>
  \<open>CBB_flush\<close> on a \<open>CBB\<close> whose chain of descendants is given, the direct child first. The chain
  that is left is empty on success.
\<close>

fun flush_chain :: "cbb_buffer \<Rightarrow> cbb_child list \<Rightarrow> bool \<times> cbb_buffer \<times> cbb_child list" where
  "flush_chain base [] = (\<not> base_error base, base, [])"
| "flush_chain base (child # rest) =
     (if base_error base then (False, base, child # rest)
      else if pending_len_len child = 0 then (True, base, child # rest)
      else
        let child_start = sz_add (offset child) (pending_len_len child);
            (ok, base1, rest1) = flush_chain base rest
        in
        if \<not> ok \<or> child_start < offset child \<or> length (base_buf base1) < child_start then
          (False, set_error base1, child # rest1)
        else
          (case close_child base1 child child_start of
            (False, base2, child') \<Rightarrow> (False, base2, child' # rest1)
          | (True, base2, _) \<Rightarrow> (True, base2, [])))"

definition CBB_flush :: "cbb \<Rightarrow> nat \<Rightarrow> bool \<times> cbb" where
  "CBB_flush cbb h =
     (case cbb_base cbb of
       None \<Rightarrow> (False, cbb)
     | Some base \<Rightarrow>
       if h > length (children cbb) then (False, cbb)
       else
         (case flush_chain base (drop h (children cbb)) of (ok, base', rest) \<Rightarrow>
           (ok, \<lparr>cbb_base = Some base', children = take h (children cbb) @ rest\<rparr>)))"

definition CBB_finish :: "cbb \<Rightarrow> nat \<Rightarrow> bool \<Rightarrow> byte list option \<times> cbb" where
  "CBB_finish cbb h out_null =
     (if h \<noteq> 0 then (None, cbb)
      else (case CBB_flush cbb h of
        (False, cbb') \<Rightarrow> (None, cbb')
      | (True, cbb') \<Rightarrow>
        (case cbb_base cbb' of
          None \<Rightarrow> (None, cbb')
        | Some base \<Rightarrow>
            if base_can_resize base \<and> out_null then (None, cbb')
            else (Some (base_buf base), CBB_cleanup cbb' 0))))"

section \<open>Contents of a child\<close>

definition content_start :: "cbb \<Rightarrow> nat \<Rightarrow> nat" where
  "content_start cbb h =
     (if h = 0 then 0
      else offset (children cbb ! (h - 1)) + pending_len_len (children cbb ! (h - 1)))"

definition CBB_data :: "cbb \<Rightarrow> nat \<Rightarrow> byte list" where
  "CBB_data cbb h =
     (case cbb_base cbb of None \<Rightarrow> [] | Some base \<Rightarrow> drop (content_start cbb h) (base_buf base))"

definition CBB_len :: "cbb \<Rightarrow> nat \<Rightarrow> nat" where
  "CBB_len cbb h =
     (case cbb_base cbb of None \<Rightarrow> 0 | Some base \<Rightarrow> length (base_buf base) - content_start cbb h)"

section \<open>Writing\<close>

text \<open>\<open>a && b\<close> over the state: the second operation runs only if the first returned 1.\<close>

definition ok_then :: "bool \<times> cbb \<Rightarrow> (cbb \<Rightarrow> bool \<times> cbb) \<Rightarrow> bool \<times> cbb" where
  "ok_then r f = (case r of (ok, cbb) \<Rightarrow> if ok then f cbb else (False, cbb))"

definition on_base :: "cbb \<Rightarrow> (cbb_buffer option \<Rightarrow> bool \<times> cbb_buffer option) \<Rightarrow> bool \<times> cbb" where
  "on_base cbb f = (case f (cbb_base cbb) of (ok, base) \<Rightarrow> (ok, cbb\<lparr>cbb_base := base\<rparr>))"

definition buffer_len :: "cbb \<Rightarrow> nat" where
  "buffer_len cbb = (case cbb_base cbb of None \<Rightarrow> 0 | Some base \<Rightarrow> length (base_buf base))"

definition add_child :: "cbb \<Rightarrow> nat \<Rightarrow> cbb_child \<Rightarrow> cbb" where
  "add_child cbb h child = cbb\<lparr>children := take h (children cbb) @ [child]\<rparr>"

definition cbb_add_length_prefixed :: "cbb \<Rightarrow> nat \<Rightarrow> nat \<Rightarrow> bool \<times> cbb" where
  "cbb_add_length_prefixed cbb h len_len =
     ok_then (CBB_flush cbb h) (\<lambda>c.
       let off = buffer_len c in
       ok_then (on_base c (\<lambda>b. cbb_buffer_add b (replicate len_len 0))) (\<lambda>c'.
         (True, add_child c' h \<lparr>offset = off, pending_len_len = len_len, pending_is_asn1 = False\<rparr>)))"

definition CBB_add_u8_length_prefixed :: "cbb \<Rightarrow> nat \<Rightarrow> bool \<times> cbb" where
  "CBB_add_u8_length_prefixed cbb h = cbb_add_length_prefixed cbb h 1"

definition CBB_add_u16_length_prefixed :: "cbb \<Rightarrow> nat \<Rightarrow> bool \<times> cbb" where
  "CBB_add_u16_length_prefixed cbb h = cbb_add_length_prefixed cbb h 2"

definition CBB_add_u24_length_prefixed :: "cbb \<Rightarrow> nat \<Rightarrow> bool \<times> cbb" where
  "CBB_add_u24_length_prefixed cbb h = cbb_add_length_prefixed cbb h 3"

definition CBB_add_bytes :: "cbb \<Rightarrow> nat \<Rightarrow> byte list \<Rightarrow> bool \<times> cbb" where
  "CBB_add_bytes cbb h data =
     ok_then (CBB_flush cbb h) (\<lambda>c. on_base c (\<lambda>b. cbb_buffer_add b data))"

definition CBB_add_space :: "cbb \<Rightarrow> nat \<Rightarrow> byte list \<Rightarrow> bool \<times> cbb" where
  "CBB_add_space cbb h stored =
     ok_then (CBB_flush cbb h) (\<lambda>c. on_base c (\<lambda>b. cbb_buffer_add b stored))"

definition CBB_reserve :: "cbb \<Rightarrow> nat \<Rightarrow> nat \<Rightarrow> bool \<times> cbb" where
  "CBB_reserve cbb h len =
     ok_then (CBB_flush cbb h) (\<lambda>c. on_base c (\<lambda>b. cbb_buffer_reserve b len))"

definition CBB_did_write :: "cbb \<Rightarrow> nat \<Rightarrow> byte list \<Rightarrow> bool \<times> cbb" where
  "CBB_did_write cbb h stored =
     (case cbb_base cbb of
       None \<Rightarrow> (False, cbb)
     | Some base \<Rightarrow>
       let newlen = sz_add (length (base_buf base)) (length stored) in
       if h < length (children cbb) \<or> newlen < length (base_buf base) \<or> newlen > base_cap base then
         (False, cbb)
       else (True, cbb\<lparr>cbb_base := Some (base\<lparr>base_buf := base_buf base @ stored\<rparr>)\<rparr>))"

definition cbb_add_u :: "cbb \<Rightarrow> nat \<Rightarrow> uint64 \<Rightarrow> nat \<Rightarrow> bool \<times> cbb" where
  "cbb_add_u cbb h value len_len =
     ok_then (CBB_flush cbb h) (\<lambda>c. on_base c (\<lambda>b. cbb_buffer_add_u b value len_len))"

definition CBB_add_u8 :: "cbb \<Rightarrow> nat \<Rightarrow> byte \<Rightarrow> bool \<times> cbb" where
  "CBB_add_u8 cbb h value = cbb_add_u cbb h (ucast value) 1"

definition CBB_add_u16 :: "cbb \<Rightarrow> nat \<Rightarrow> uint16 \<Rightarrow> bool \<times> cbb" where
  "CBB_add_u16 cbb h value = cbb_add_u cbb h (ucast value) 2"

definition CBB_add_u16le :: "cbb \<Rightarrow> nat \<Rightarrow> uint16 \<Rightarrow> bool \<times> cbb" where
  "CBB_add_u16le cbb h value = CBB_add_u16 cbb h (CRYPTO_bswap2 value)"

definition CBB_add_u24 :: "cbb \<Rightarrow> nat \<Rightarrow> uint32 \<Rightarrow> bool \<times> cbb" where
  "CBB_add_u24 cbb h value = cbb_add_u cbb h (ucast value) 3"

definition CBB_add_u32 :: "cbb \<Rightarrow> nat \<Rightarrow> uint32 \<Rightarrow> bool \<times> cbb" where
  "CBB_add_u32 cbb h value = cbb_add_u cbb h (ucast value) 4"

definition CBB_add_u32le :: "cbb \<Rightarrow> nat \<Rightarrow> uint32 \<Rightarrow> bool \<times> cbb" where
  "CBB_add_u32le cbb h value = CBB_add_u32 cbb h (CRYPTO_bswap4 value)"

definition CBB_add_u64 :: "cbb \<Rightarrow> nat \<Rightarrow> uint64 \<Rightarrow> bool \<times> cbb" where
  "CBB_add_u64 cbb h value = cbb_add_u cbb h value 8"

definition CBB_add_u64le :: "cbb \<Rightarrow> nat \<Rightarrow> uint64 \<Rightarrow> bool \<times> cbb" where
  "CBB_add_u64le cbb h value = CBB_add_u64 cbb h (CRYPTO_bswap8 value)"

definition CBB_discard_child :: "cbb \<Rightarrow> nat \<Rightarrow> cbb" where
  "CBB_discard_child cbb h =
     (if \<not> h < length (children cbb) then cbb
      else \<lparr>cbb_base = map_option (base_buf_update (take (offset (children cbb ! h)))) (cbb_base cbb),
            children = take h (children cbb)\<rparr>)"

section \<open>ASN.1\<close>

function base128_count :: "uint64 \<Rightarrow> nat" where
  "base128_count copy = (if copy > 0 then Suc (base128_count (drop_bit 7 copy)) else 0)"
  by pat_completeness auto
termination
  by (relation "measure unat") (simp_all add: unat_drop_less)

declare base128_count.simps [simp del]

fun add_base128_loop :: "cbb \<Rightarrow> nat \<Rightarrow> uint64 \<Rightarrow> nat \<Rightarrow> bool \<times> cbb" where
  "add_base128_loop cbb h v 0 = (True, cbb)"
| "add_base128_loop cbb h v (Suc i) =
     (let byte = ucast (drop_bit (7 * i) v AND 0x7f);
          byte' = (if i \<noteq> 0 then byte OR 0x80 else byte)
      in ok_then (CBB_add_u8 cbb h byte') (\<lambda>c. add_base128_loop c h v i))"

definition add_base128_integer :: "cbb \<Rightarrow> nat \<Rightarrow> uint64 \<Rightarrow> bool \<times> cbb" where
  "add_base128_integer cbb h v =
     (let len_len = base128_count v in
      add_base128_loop cbb h v (if len_len = 0 then 1 else len_len))"

definition CBB_add_asn1 :: "cbb \<Rightarrow> nat \<Rightarrow> uint32 \<Rightarrow> bool \<times> cbb" where
  "CBB_add_asn1 cbb h tag =
     ok_then (CBB_flush cbb h) (\<lambda>c.
       let tag_bits = ucast (drop_bit CBS_ASN1_TAG_SHIFT tag) AND 0xe0;
           tag_number = tag AND CBS_ASN1_TAG_NUMBER_MASK
       in ok_then
            (if tag_number \<ge> 0x1f then
               ok_then (CBB_add_u8 c h (tag_bits OR 0x1f)) (\<lambda>c'.
                 add_base128_integer c' h (ucast tag_number))
             else CBB_add_u8 c h (tag_bits OR ucast tag_number))
            (\<lambda>c'.
              let off = buffer_len c' in
              ok_then (CBB_add_u8 c' h 0) (\<lambda>c2.
                (True, add_child c2 h \<lparr>offset = off, pending_len_len = 1, pending_is_asn1 = True\<rparr>))))"

text \<open>
  The loop of \<open>CBB_add_asn1_uint64\<close> over the last \<open>r\<close> bytes of \<open>value\<close>; the result says also
  whether a byte was written.
\<close>

fun asn1_uint64_loop :: "cbb \<Rightarrow> nat \<Rightarrow> uint64 \<Rightarrow> nat \<Rightarrow> bool \<Rightarrow> (bool \<times> bool) \<times> cbb" where
  "asn1_uint64_loop cbb h value 0 started = ((True, started), cbb)"
| "asn1_uint64_loop cbb h value (Suc r) started =
     (let byte = ucast (drop_bit (8 * r) value AND 0xff) :: byte in
      if \<not> started \<and> byte = 0 then asn1_uint64_loop cbb h value r False
      else
        let (ok1, c1) =
              (if \<not> started \<and> byte AND 0x80 \<noteq> 0 then CBB_add_u8 cbb h 0 else (True, cbb))
        in if \<not> ok1 then ((False, started), c1)
           else (case CBB_add_u8 c1 h byte of
             (False, c2) \<Rightarrow> ((False, True), c2)
           | (True, c2) \<Rightarrow> asn1_uint64_loop c2 h value r True))"

definition CBB_add_asn1_uint64 :: "cbb \<Rightarrow> nat \<Rightarrow> uint64 \<Rightarrow> bool \<times> cbb" where
  "CBB_add_asn1_uint64 cbb h value =
     ok_then (CBB_add_asn1 cbb h CBS_ASN1_INTEGER) (\<lambda>c.
       case asn1_uint64_loop c (h + 1) value 8 False of
         ((False, _), c') \<Rightarrow> (False, c')
       | ((True, started), c') \<Rightarrow>
           ok_then (if \<not> started then CBB_add_u8 c' (h + 1) 0 else (True, c'))
             (\<lambda>c2. CBB_flush c2 h))"

definition int64_byte :: "uint64 \<Rightarrow> nat \<Rightarrow> byte" where
  "int64_byte value i = ucast (drop_bit (8 * i) value)"

fun int64_start :: "uint64 \<Rightarrow> nat \<Rightarrow> nat" where
  "int64_start value 0 = 0"
| "int64_start value (Suc s) =
     (if int64_byte value (Suc s) = 0xff \<and> int64_byte value s AND 0x80 \<noteq> 0
      then int64_start value s else Suc s)"

fun int64_bytes_loop :: "cbb \<Rightarrow> nat \<Rightarrow> uint64 \<Rightarrow> nat \<Rightarrow> bool \<times> cbb" where
  "int64_bytes_loop cbb h value 0 = (True, cbb)"
| "int64_bytes_loop cbb h value (Suc i) =
     ok_then (CBB_add_u8 cbb h (int64_byte value i)) (\<lambda>c. int64_bytes_loop c h value i)"

text \<open>The \<open>int64_t\<close> argument is given by its bits.\<close>

definition CBB_add_asn1_int64 :: "cbb \<Rightarrow> nat \<Rightarrow> uint64 \<Rightarrow> bool \<times> cbb" where
  "CBB_add_asn1_int64 cbb h value =
     (if sint value \<ge> 0 then CBB_add_asn1_uint64 cbb h value
      else
        let start = int64_start value 7 in
        ok_then (CBB_add_asn1 cbb h CBS_ASN1_INTEGER) (\<lambda>c.
          ok_then (int64_bytes_loop c (h + 1) value (start + 1)) (\<lambda>c'. CBB_flush c' h)))"

definition CBB_add_asn1_octet_string :: "cbb \<Rightarrow> nat \<Rightarrow> byte list \<Rightarrow> bool \<times> cbb" where
  "CBB_add_asn1_octet_string cbb h data =
     ok_then (CBB_add_asn1 cbb h CBS_ASN1_OCTETSTRING) (\<lambda>c.
       ok_then (CBB_add_bytes c (h + 1) data) (\<lambda>c'. CBB_flush c' h))"

definition CBB_add_asn1_bool :: "cbb \<Rightarrow> nat \<Rightarrow> int \<Rightarrow> bool \<times> cbb" where
  "CBB_add_asn1_bool cbb h value =
     ok_then (CBB_add_asn1 cbb h CBS_ASN1_BOOLEAN) (\<lambda>c.
       ok_then (CBB_add_u8 c (h + 1) (if value \<noteq> 0 then 0xff else 0)) (\<lambda>c'. CBB_flush c' h))"

end
