(* ===== verification/CBB_Refine.thy ===== *)
theory CBB_Refine
  imports CBB
begin

text \<open>
  The contract of the builder: a list of frames, each with the kind of length prefix it waits
  for, is what a state of \<open>cbb.c\<close> represents. Flushing, writing, opening and discarding are
  proved to act on the frames as they should, and to succeed whenever there is room.
\<close>

section \<open>The buffer\<close>

definition buf_ok :: "cbb_buffer \<Rightarrow> bool" where
  "buf_ok b \<longleftrightarrow> length (base_buf b) \<le> base_cap b \<and> base_cap b < size_mod \<and> \<not> base_error b"

text \<open>Room for \<open>n\<close> more bytes: a buffer that may grow and an allocator that does not fail, or capacity.\<close>

definition roomy :: "cbb_buffer \<Rightarrow> nat \<Rightarrow> bool" where
  "roomy b n \<longleftrightarrow> length (base_buf b) + n < size_mod \<and>
     (base_can_resize b \<and> base_oom b = [] \<or> length (base_buf b) + n \<le> base_cap b)"

lemma cbb_buffer_add_True:
  assumes "cbb_buffer_add (Some b) bs = (True, r)" and "buf_ok b" and "length bs < size_mod"
  obtains b' where "r = Some b'" "base_buf b' = base_buf b @ bs" "buf_ok b'"
    "base_can_resize b' = base_can_resize b"
proof -
  have lt: "length (base_buf b) < size_mod" using assms(2) by (simp add: buf_ok_def)
  obtain b1 where res: "cbb_buffer_reserve (Some b) (length bs) = (True, Some b1)"
    and r: "r = Some (b1\<lparr>base_buf := base_buf b1 @ bs\<rparr>)"
    using assms(1) by (auto simp: cbb_buffer_add_def split: prod.splits bool.splits if_splits
        simp: Let_def)
  have no_wrap: "length (base_buf b) + length bs < size_mod"
  proof (rule ccontr)
    assume "\<not> ?thesis"
    then have "sz_add (length (base_buf b)) (length bs) < length (base_buf b)"
      using sz_add_wraps [OF lt assms(3)] by simp
    with res show False by (simp add: Let_def)
  qed
  then have add: "sz_add (length (base_buf b)) (length bs) = length (base_buf b) + length bs"
    by (rule sz_add_exact)
  have mul: "sz_mul (base_cap b) 2 < size_mod" by (simp add: sz_mul_def)
  have "base_buf b1 = base_buf b \<and> length (base_buf b) + length bs \<le> base_cap b1 \<and>
    base_cap b1 < size_mod \<and> \<not> base_error b1 \<and> base_can_resize b1 = base_can_resize b"
    using res no_wrap assms(2) mul
    by (auto simp: Let_def add buf_ok_def split: prod.splits if_splits)
  then show ?thesis
    using r by (intro that [of "b1\<lparr>base_buf := base_buf b1 @ bs\<rparr>"]) (auto simp: buf_ok_def)
qed

lemma cbb_buffer_add_roomy:
  assumes "buf_ok b" and "roomy b (length bs + n)"
  obtains b' where "cbb_buffer_add (Some b) bs = (True, Some b')" "roomy b' n"
proof -
  have lt: "length (base_buf b) + length bs < size_mod" using assms(2) by (simp add: roomy_def)
  then have add: "sz_add (length (base_buf b)) (length bs) = length (base_buf b) + length bs"
    by (rule sz_add_exact)
  show ?thesis
  proof (cases "base_cap b < length (base_buf b) + length bs")
    case True
    with assms(2) have "base_can_resize b" "base_oom b = []" by (auto simp: roomy_def)
    with True lt obtain newcap where
      "cbb_buffer_add (Some b) bs = (True, Some (base_buf_update (\<lambda>x. x @ bs) (b\<lparr>base_cap := newcap, base_oom := []\<rparr>)))"
      by (auto simp: cbb_buffer_add_def Let_def add)
    then show ?thesis
      by (rule that) (use assms(2) \<open>base_can_resize b\<close> in \<open>auto simp: roomy_def\<close>)
  next
    case False
    with lt have "cbb_buffer_add (Some b) bs = (True, Some (base_buf_update (\<lambda>x. x @ bs) b))"
      by (auto simp: cbb_buffer_add_def Let_def add)
    then show ?thesis
      by (rule that) (use assms(2) in \<open>auto simp: roomy_def\<close>)
  qed
qed

lemma be_store_eq: "be_store n v acc = (be_bytes n (unat v) @ acc, drop_bit (8 * n) v)"
proof (induction n arbitrary: v acc)
  case (Suc n)
  have "word_of_nat (unat v) = (ucast v :: byte)" by (simp add: unsigned_ucast_eq)
  with Suc show ?case by (simp add: unat_drop add.commute [of 8])
qed simp

section \<open>Frames\<close>

text \<open>
  The abstract builder is a list of frames, the outermost first: the kind of length prefix that
  the frame waits for and the bytes written to it so far. The outermost frame has no prefix.
\<close>

datatype prefix_kind = Plain nat | Asn1

type_synonym frame = "prefix_kind \<times> byte list"

fun plen :: "prefix_kind \<Rightarrow> nat" where
  "plen (Plain n) = n"
| "plen Asn1 = 1"

fun prefix_bytes :: "prefix_kind \<Rightarrow> nat \<Rightarrow> byte list" where
  "prefix_bytes (Plain n) len = be_bytes n len"
| "prefix_bytes Asn1 len = len_bytes len"

fun fits :: "prefix_kind \<Rightarrow> nat \<Rightarrow> bool" where
  "fits (Plain n) len \<longleftrightarrow> len < 256 ^ n"
| "fits Asn1 len \<longleftrightarrow> len \<le> 0xfffffffe"

fun render :: "frame list \<Rightarrow> byte list" where
  "render [] = []"
| "render ((k, seg) # fs) =
     prefix_bytes k (length (seg @ render fs)) @ seg @ render fs"

fun all_fit :: "frame list \<Rightarrow> bool" where
  "all_fit [] \<longleftrightarrow> True"
| "all_fit ((k, seg) # fs) \<longleftrightarrow> fits k (length (seg @ render fs)) \<and> all_fit fs"

text \<open>How the frames lie in the buffer, and the children that describe them.\<close>

fun raw :: "frame list \<Rightarrow> byte list" where
  "raw [] = []"
| "raw ((k, seg) # fs) = replicate (plen k) 0 @ seg @ raw fs"

fun layout :: "nat \<Rightarrow> frame list \<Rightarrow> cbb_child list" where
  "layout off [] = []"
| "layout off ((k, seg) # fs) =
     \<lparr>offset = off, pending_len_len = plen k, pending_is_asn1 = (k = Asn1)\<rparr>
       # layout (off + plen k + length seg) fs"

definition kinds_ok :: "frame list \<Rightarrow> bool" where
  "kinds_ok fs \<longleftrightarrow> (\<forall>(k, _) \<in> set fs. 0 < plen k)"

lemma store_at_mid:
  "length old = length bytes \<Longrightarrow> n = length p \<Longrightarrow> store_at n bytes (p @ old @ q) = p @ bytes @ q"
  by (simp add: store_at_def)

lemma asn1_length_form_eq:
  "asn1_length_form len =
    (if len > 0xfffffffe then None
     else if len < 128 then Some (1, word_of_nat len, 0)
     else Some (1 + base_len 256 len, word_of_nat (128 + base_len 256 len), len))"
proof (cases "len > 0xfffffffe \<or> len < 128")
  case False
  then have len: "128 \<le> len" "len \<le> 0xfffffffe" by auto
  let ?k = "if len > 0xffffff then 4 else if len > 0xffff then 3 else if len > 0xff then 2 else 1 :: nat"
  have "base_len 256 len = ?k"
    by (rule base_len_unique [symmetric]) (use len in \<open>auto split: if_splits\<close>)
  moreover have "0x80 OR 4 = (0x84 :: byte)" "0x80 OR 3 = (0x83 :: byte)"
    "0x80 OR 2 = (0x82 :: byte)" "0x80 OR 1 = (0x81 :: byte)"
    by simp_all
  ultimately show ?thesis
    using len by (auto simp: asn1_length_form_def split: if_splits)
qed (auto simp: asn1_length_form_def)

lemma write_prefix_eq:
  assumes "base_buf b = p @ old @ q" and "length old = pending_len_len c" and "offset c = length p"
    and "len < size_mod"
  shows "write_prefix b c len =
    (len < 256 ^ pending_len_len c,
     (if len < 256 ^ pending_len_len c then id else set_error)
       (b\<lparr>base_buf := p @ be_bytes (pending_len_len c) len @ q\<rparr>))"
proof -
  have len: "unat (word_of_nat len :: uint64) = len"
    using assms(4) by (intro unat_small) (simp add: size_mod_def)
  have "drop_bit (8 * n) (word_of_nat len :: uint64) = 0 \<longleftrightarrow> len < 256 ^ n" for n
    by (simp add: word_unat_eq_iff unat_drop len power_mult div_eq_0_iff)
  moreover have "store_at (offset c) (be_bytes (pending_len_len c) len) (base_buf b) =
    p @ be_bytes (pending_len_len c) len @ q"
    using assms by (simp add: store_at_mid)
  ultimately show ?thesis
    by (auto simp: write_prefix_def be_store_eq len Let_def)
qed

lemma close_child_plain:
  assumes "base_buf b = p @ replicate n 0 @ content" and "buf_ok b" and "0 < n"
  shows "close_child b \<lparr>offset = length p, pending_len_len = n, pending_is_asn1 = False\<rparr> (length p + n) =
    (length content < 256 ^ n,
     (if length content < 256 ^ n then id else set_error)
       (b\<lparr>base_buf := p @ be_bytes n (length content) @ content\<rparr>),
     \<lparr>offset = length p, pending_len_len = n, pending_is_asn1 = False\<rparr>)"
proof -
  have len: "length (base_buf b) - (length p + n) = length content" by (simp add: assms(1))
  have "length content < size_mod" using assms(1,2) by (simp add: buf_ok_def)
  then show ?thesis
    using write_prefix_eq [OF assms(1), of "\<lparr>offset = length p, pending_len_len = n, pending_is_asn1 = False\<rparr>" "length content"]
    unfolding close_child_def Let_def len by simp
qed

text \<open>The ASN.1 case, given what \<open>cbb_buffer_add\<close> does for the extra length bytes.\<close>

lemma close_child_asn1_short:
  assumes "base_buf b = p @ [z] @ content" and "buf_ok b" and "length content < 128"
  shows "close_child b \<lparr>offset = length p, pending_len_len = 1, pending_is_asn1 = True\<rparr> (length p + 1) =
    (True, b\<lparr>base_buf := p @ len_bytes (length content) @ content\<rparr>,
     \<lparr>offset = length p + 1, pending_len_len = 0, pending_is_asn1 = True\<rparr>)"
proof -
  have len: "length (base_buf b) - (length p + 1) = length content" by (simp add: assms(1))
  have st: "store_at (length p) [w] (base_buf b) = p @ [w] @ content" for w
    unfolding assms(1) by (rule store_at_mid) simp_all
  have form: "asn1_length_form (length content) = Some (1, word_of_nat (length content), 0)"
    using assms(3) by (simp add: asn1_length_form_eq)
  show ?thesis
    unfolding close_child_def Let_def len form using assms(3)
    by (simp add: st write_prefix_def store_at_def len_bytes_def assms(1))
qed

lemma close_child_asn1_long:
  assumes b: "base_buf b = p @ [z] @ content" and "128 \<le> length content" "length content \<le> 0xfffffffe"
    and k: "k = base_len 256 (length content)"
    and add: "cbb_buffer_add (Some b) (replicate k 0) = (ok, Some b1)"
    and b1: "ok \<Longrightarrow> base_buf b1 = base_buf b @ replicate k 0"
    and lt: "length content < size_mod"
  shows "close_child b \<lparr>offset = length p, pending_len_len = 1, pending_is_asn1 = True\<rparr> (length p + 1) =
    (if ok then
       (True, b1\<lparr>base_buf := p @ len_bytes (length content) @ content\<rparr>,
         \<lparr>offset = length p + 1, pending_len_len = k, pending_is_asn1 = True\<rparr>)
     else (False, set_error b1, \<lparr>offset = length p, pending_len_len = 1, pending_is_asn1 = True\<rparr>))"
proof -
  let ?n = "length content"
  have len: "length (base_buf b) - (length p + 1) = ?n" by (simp add: b)
  have form: "asn1_length_form ?n = Some (1 + k, word_of_nat (128 + k), ?n)"
    using assms(2,3) by (simp add: asn1_length_form_eq k)
  have k0: "0 < k" by (simp add: k)
  show ?thesis
  proof (cases ok)
    case False
    then show ?thesis
      unfolding close_child_def Let_def len form using add k0 by (simp add: Let_def)
  next
    case True
    define X where "X = take k (content @ replicate k (0 :: byte))"
    have X: "length X = k" by (simp add: X_def)
    have buf: "base_buf b1 = p @ z # content @ replicate k 0" using b1 [OF True] b by simp
    have mv: "move_to (length p + 1 + k) (length p + 1) ?n (base_buf b1) = p @ [z] @ X @ content"
      by (simp add: move_to_def store_at_def buf X_def)
    have st: "store_at (length p) [w] (p @ [z] @ X @ content) = p @ [w] @ X @ content" for w
      by (rule store_at_mid) simp_all
    let ?w = "word_of_nat (128 + k) :: byte"
    let ?b3 = "b1\<lparr>base_buf := p @ [?w] @ X @ content\<rparr>"
    let ?c = "\<lparr>offset = length p + 1, pending_len_len = k, pending_is_asn1 = True\<rparr>"
    have lb: "len_bytes ?n = ?w # be_bytes k ?n" using assms(2) by (simp add: len_bytes_def k)
    have "?n < 256 ^ k" using base_len_bound [of 256 ?n] by (simp add: k)
    then have "write_prefix ?b3 ?c ?n = (True, ?b3\<lparr>base_buf := (p @ [?w]) @ be_bytes k ?n @ content\<rparr>)"
      using write_prefix_eq [of ?b3 "p @ [?w]" X content ?c ?n] X lt by simp
    then show ?thesis
      unfolding close_child_def Let_def len form using add True k0 mv st lb by simp
  qed
qed

lemma len_bytes_less: "len < 128 \<Longrightarrow> len_bytes len = [word_of_nat len]"
  by (simp add: len_bytes_def)

lemma close_child_True:
  assumes "close_child b \<lparr>offset = length p, pending_len_len = plen k, pending_is_asn1 = (k = Asn1)\<rparr>
      (length p + plen k) = (True, b', c)"
    and "base_buf b = p @ replicate (plen k) 0 @ content" and "buf_ok b" and "0 < plen k"
  shows "base_buf b' = p @ prefix_bytes k (length content) @ content \<and> buf_ok b' \<and>
    base_can_resize b' = base_can_resize b \<and> fits k (length content)"
proof (cases k)
  case (Plain n)
  with assms close_child_plain [of b p n content] show ?thesis
    by (auto simp: buf_ok_def split: if_splits)
next
  case Asn1
  with assms(2) have buf: "base_buf b = p @ [0] @ content" by simp
  have lt: "length content < size_mod" using assms(2,3) by (simp add: buf_ok_def)
  consider "length content < 128" | "128 \<le> length content" "length content \<le> 0xfffffffe"
    | "0xfffffffe < length content" by linarith
  then show ?thesis
  proof cases
    case 1
    with assms Asn1 close_child_asn1_short [OF buf assms(3)] show ?thesis
      by (auto simp: buf_ok_def len_bytes_less)
  next
    case 2
    let ?k = "base_len 256 (length content)"
    obtain ok r where add: "cbb_buffer_add (Some b) (replicate ?k 0) = (ok, r)" by fastforce
    have k4: "?k \<le> 4" using 2 by (intro base_len_le) auto
    then have klt: "length (replicate ?k (0::byte)) < size_mod" by (simp add: size_mod_def)
    show ?thesis
    proof (cases ok)
      case True
      with add obtain b1 where r: "r = Some b1" and b1: "base_buf b1 = base_buf b @ replicate ?k 0"
        "buf_ok b1" "base_can_resize b1 = base_can_resize b"
        using cbb_buffer_add_True [OF _ assms(3) klt] by metis
      have "length (p @ len_bytes (length content) @ content) = length (base_buf b1)"
        using 2 by (simp add: b1 buf len_bytes_def)
      then show ?thesis
        using assms(1) close_child_asn1_long [OF buf 2 refl add [unfolded r] b1(1) lt] Asn1 True b1 2
        by (auto simp: buf_ok_def)
    next
      case False
      obtain b1 where r: "r = Some b1"
        using add by (cases r) (auto simp: cbb_buffer_add_def Let_def split: if_splits prod.splits)
      have "\<not> ok" by fact
      then show ?thesis
        using assms(1) close_child_asn1_long [OF buf 2 refl add [unfolded r] _ lt] Asn1 False
        by auto
    qed
  next
    case 3
    then have "asn1_length_form (length (base_buf b) - (length p + 1)) = None"
      by (simp add: asn1_length_form_eq buf)
    with assms(1) Asn1 show ?thesis by (simp add: close_child_def)
  qed
qed

lemma flush_chain_True:
  assumes "flush_chain b (layout (length p) fs) = (True, b', rest)"
    and "base_buf b = p @ raw fs" and "buf_ok b" and "kinds_ok fs"
  shows "rest = [] \<and> base_buf b' = p @ render fs \<and> buf_ok b' \<and>
    base_can_resize b' = base_can_resize b \<and> all_fit fs"
  using assms
proof (induction fs arbitrary: p b b' rest)
  case Nil
  then show ?case by auto
next
  case (Cons f fs)
  obtain k seg where f: "f = (k, seg)" by fastforce
  let ?p = "p @ replicate (plen k) 0 @ seg"
  let ?c = "\<lparr>offset = length p, pending_len_len = plen k, pending_is_asn1 = (k = Asn1)\<rparr>"
  let ?content = "seg @ render fs"
  have k: "0 < plen k" and ks: "kinds_ok fs" using Cons.prems(4) by (auto simp: kinds_ok_def f)
  have ne: "\<not> base_error b" using Cons.prems(3) by (simp add: buf_ok_def)
  have start: "sz_add (length p) (plen k) = length p + plen k"
    by (rule sz_add_exact) (use Cons.prems(2,3) in \<open>simp add: buf_ok_def f\<close>)
  have lay: "layout (length p + plen k + length seg) fs = layout (length ?p) fs"
    by (simp add: add.assoc)
  obtain ok b1 rest1 where rec: "flush_chain b (layout (length ?p) fs) = (ok, b1, rest1)"
    by (cases "flush_chain b (layout (length ?p) fs)") auto
  have ok: "ok" and close: "(case close_child b1 ?c (length p + plen k) of
      (False, base2, child') \<Rightarrow> (False, base2, child' # rest1)
    | (True, base2, _) \<Rightarrow> (True, base2, [])) = (True, b', rest)"
    using Cons.prems(1) k ne rec
    by (auto simp: f lay start Let_def split: if_splits)
  have IH: "base_buf b1 = ?p @ render fs" "buf_ok b1" "base_can_resize b1 = base_can_resize b" "all_fit fs"
    using Cons.IH [of b ?p b1 rest1] rec Cons.prems(2,3) ks ok by (auto simp: f)
  obtain c where cc: "close_child b1 ?c (length p + plen k) = (True, b', c)" and "rest = []"
    using close by (auto split: prod.splits bool.splits)
  from close_child_True [OF cc, of ?content] IH k \<open>rest = []\<close> show ?case
    by (simp add: f)
qed

lemma length_prefix: "0 < plen k \<Longrightarrow> plen k \<le> length (prefix_bytes k n)"
  by (cases k) (auto simp: len_bytes_def)

lemma close_child_roomy:
  assumes "base_buf b = p @ replicate (plen k) 0 @ content" and "buf_ok b" and "0 < plen k"
    and "fits k (length content)" and "roomy b (length (prefix_bytes k (length content)) - plen k + m)"
  shows "\<exists>b' c. close_child b \<lparr>offset = length p, pending_len_len = plen k, pending_is_asn1 = (k = Asn1)\<rparr>
      (length p + plen k) = (True, b', c) \<and> roomy b' m"
proof (cases k)
  case (Plain n)
  with assms close_child_plain [of b p n content] show ?thesis
    by (auto simp: roomy_def)
next
  case Asn1
  with assms(1) have buf: "base_buf b = p @ [0] @ content" by simp
  have lt: "length content < size_mod" using assms(1,2) by (simp add: buf_ok_def)
  show ?thesis
  proof (cases "length content < 128")
    case True
    with assms Asn1 close_child_asn1_short [OF buf assms(2)] show ?thesis
      by (auto simp: roomy_def len_bytes_less)
  next
    case False
    then have c: "128 \<le> length content" "length content \<le> 0xfffffffe"
      using assms(4) Asn1 by auto
    let ?k = "base_len 256 (length content)"
    have room: "roomy b (length (replicate ?k (0::byte)) + m)"
      using assms(5) Asn1 c by (simp add: len_bytes_def)
    obtain b1 where add: "cbb_buffer_add (Some b) (replicate ?k 0) = (True, Some b1)" and "roomy b1 m"
      by (rule cbb_buffer_add_roomy [OF assms(2) room])
    have "?k \<le> 4" using c by (intro base_len_le) auto
    then have "length (replicate ?k (0::byte)) < size_mod" by (simp add: size_mod_def)
    from cbb_buffer_add_True [OF add assms(2) this]
    have b1: "base_buf b1 = base_buf b @ replicate ?k 0" by auto
    have "length (p @ len_bytes (length content) @ content) = length (base_buf b1)"
      using c by (simp add: b1 buf len_bytes_def)
    with \<open>roomy b1 m\<close> show ?thesis
      using close_child_asn1_long [OF buf c refl add b1 lt] Asn1 by (auto simp: roomy_def)
  qed
qed

lemma length_raw_render: "kinds_ok fs \<Longrightarrow> length (raw fs) \<le> length (render fs)"
proof (induction fs)
  case (Cons f fs)
  obtain k seg where f: "f = (k, seg)" by fastforce
  with Cons have "length (raw fs) \<le> length (render fs)" "0 < plen k" by (auto simp: kinds_ok_def)
  with length_prefix [of k "length (seg @ render fs)"] show ?case by (simp add: f)
qed simp

lemma flush_chain_roomy:
  assumes "base_buf b = p @ raw fs" and "buf_ok b" and "kinds_ok fs" and "all_fit fs"
    and "roomy b (length (render fs) - length (raw fs) + m)"
  shows "\<exists>b'. flush_chain b (layout (length p) fs) = (True, b', []) \<and> roomy b' m"
  using assms
proof (induction fs arbitrary: p b m)
  case Nil
  then show ?case by (auto simp: buf_ok_def)
next
  case (Cons f fs)
  obtain k seg where f: "f = (k, seg)" by fastforce
  let ?p = "p @ replicate (plen k) 0 @ seg"
  let ?c = "\<lparr>offset = length p, pending_len_len = plen k, pending_is_asn1 = (k = Asn1)\<rparr>"
  let ?content = "seg @ render fs"
  let ?m = "length (prefix_bytes k (length ?content)) - plen k + m"
  have k: "0 < plen k" and ks: "kinds_ok fs" and fit: "all_fit fs" "fits k (length ?content)"
    using Cons.prems(3,4) by (auto simp: kinds_ok_def f)
  have eq: "length (render (f # fs)) - length (raw (f # fs)) + m = length (render fs) - length (raw fs) + ?m"
    using length_prefix [OF k, of "length ?content"] length_raw_render [OF ks] by (simp add: f)
  have room: "roomy b (length (render fs) - length (raw fs) + ?m)"
    using Cons.prems(5) unfolding eq .
  obtain b1 where rec: "flush_chain b (layout (length ?p) fs) = (True, b1, [])" and r1: "roomy b1 ?m"
    using Cons.IH [of b ?p ?m] Cons.prems(1,2) ks fit(1) room by (auto simp: f)
  have b1: "base_buf b1 = ?p @ render fs" "buf_ok b1"
    using flush_chain_True [OF rec] Cons.prems(1,2) ks by (auto simp: f)
  obtain b2 c where cc: "close_child b1 ?c (length p + plen k) = (True, b2, c)" and "roomy b2 m"
    using close_child_roomy [of b1 p k ?content m] b1 k fit(2) r1 by auto
  have start: "sz_add (length p) (plen k) = length p + plen k"
    by (rule sz_add_exact) (use Cons.prems(1,2) in \<open>simp add: buf_ok_def f\<close>)
  have lay: "layout (length p + plen k + length seg) fs = layout (length ?p) fs"
    by (simp add: add.assoc)
  have "\<not> base_error b" "length p + plen k \<le> length (base_buf b1)"
    using Cons.prems(2) b1 by (auto simp: buf_ok_def)
  with k rec cc \<open>roomy b2 m\<close> show ?case by (simp add: f lay start Let_def)
qed

section \<open>The simulation relation\<close>

text \<open>A builder state represents a list of frames; the first is the top-level \<open>CBB\<close>.\<close>

definition represents :: "cbb \<Rightarrow> frame list \<Rightarrow> bool" where
  "represents cbb fs \<longleftrightarrow> fs \<noteq> [] \<and> fst (hd fs) = Plain 0 \<and> kinds_ok (tl fs) \<and>
     (\<exists>b. cbb_base cbb = Some b \<and> buf_ok b \<and> base_buf b = raw fs \<and>
       children cbb = tl (layout 0 fs))"

definition aflush :: "nat \<Rightarrow> frame list \<Rightarrow> frame list" where
  "aflush h fs = take h fs @ [(fst (fs ! h), snd (fs ! h) @ render (drop (Suc h) fs))]"

definition awrite :: "nat \<Rightarrow> byte list \<Rightarrow> frame list \<Rightarrow> frame list" where
  "awrite h bs fs = take h fs @ [(fst (fs ! h), snd (fs ! h) @ render (drop (Suc h) fs) @ bs)]"

definition aopen :: "nat \<Rightarrow> prefix_kind \<Rightarrow> frame list \<Rightarrow> frame list" where
  "aopen h k fs = aflush h fs @ [(k, [])]"

definition adiscard :: "nat \<Rightarrow> frame list \<Rightarrow> frame list" where
  "adiscard h fs = take (Suc h) fs"

lemma raw_append: "raw (fs @ gs) = raw fs @ raw gs"
  by (induction fs rule: raw.induct) auto

lemma layout_append: "layout off (fs @ gs) = layout off fs @ layout (off + length (raw fs)) gs"
  by (induction off fs rule: layout.induct) (auto simp: add.assoc)

lemma length_layout [simp]: "length (layout off fs) = length fs"
  by (induction off fs rule: layout.induct) auto

lemma kinds_ok_append: "kinds_ok (fs @ gs) \<longleftrightarrow> kinds_ok fs \<and> kinds_ok gs"
  by (auto simp: kinds_ok_def)

lemma frames_split:
  assumes "h < length fs"
  shows "fs = take h fs @ (fst (fs ! h), snd (fs ! h)) # drop (Suc h) fs"
  using assms by (simp add: id_take_nth_drop [symmetric])

lemma take_layout: "take n (layout off fs) = layout off (take n fs)"
proof (cases "n \<le> length fs")
  case True
  have "layout off fs = layout off (take n fs @ drop n fs)" by simp
  then show ?thesis using True by (simp only: layout_append) simp
qed simp

lemma children_split:
  assumes "h < length fs"
  shows "drop h (tl (layout 0 fs)) = layout (length (raw (take (Suc h) fs))) (drop (Suc h) fs)"
    and "take h (tl (layout 0 fs)) = tl (layout 0 (take (Suc h) fs))"
proof -
  have "layout 0 fs = layout 0 (take (Suc h) fs @ drop (Suc h) fs)" by simp
  also have "\<dots> = layout 0 (take (Suc h) fs) @ layout (length (raw (take (Suc h) fs))) (drop (Suc h) fs)"
    by (simp only: layout_append) simp
  finally have eq: "layout 0 fs = \<dots>" .
  show "drop h (tl (layout 0 fs)) = layout (length (raw (take (Suc h) fs))) (drop (Suc h) fs)"
    unfolding drop_Suc [symmetric] eq using assms by simp
  show "take h (tl (layout 0 fs)) = tl (layout 0 (take (Suc h) fs))"
    by (simp add: take_tl take_layout)
qed

lemma kinds_ok_subset: "kinds_ok fs \<Longrightarrow> set gs \<subseteq> set fs \<Longrightarrow> kinds_ok gs"
  by (auto simp: kinds_ok_def)

lemma kinds_ok_nth: "kinds_ok fs \<Longrightarrow> n < length fs \<Longrightarrow> 0 < plen (fst (fs ! n))"
  unfolding kinds_ok_def by (drule bspec [OF _ nth_mem]) (auto split: prod.splits)

lemma tl_take_Suc: "tl (take (Suc h) fs) = take h (tl fs)"
  by (cases fs) auto

lemma represents_base:
  assumes "represents cbb fs" and "h < length fs"
  obtains b where "cbb_base cbb = Some b" "buf_ok b" "base_buf b = raw (take (Suc h) fs) @ raw (drop (Suc h) fs)"
    "drop h (children cbb) = layout (length (raw (take (Suc h) fs))) (drop (Suc h) fs)"
    "take h (children cbb) = tl (layout 0 (take (Suc h) fs))"
    "kinds_ok (drop (Suc h) fs)" "kinds_ok (tl (take (Suc h) fs))" "h \<le> length (children cbb)"
proof -
  obtain b where b: "cbb_base cbb = Some b" "buf_ok b" "base_buf b = raw fs"
    "children cbb = tl (layout 0 fs)" and k: "kinds_ok (tl fs)"
    using assms(1) by (auto simp: represents_def)
  show ?thesis
  proof (rule that [OF b(1,2)])
    show "base_buf b = raw (take (Suc h) fs) @ raw (drop (Suc h) fs)"
      unfolding b(3) raw_append [symmetric] by simp
    show "kinds_ok (drop (Suc h) fs)" "kinds_ok (tl (take (Suc h) fs))"
      unfolding drop_Suc tl_take_Suc
      by (rule kinds_ok_subset [OF k], use set_drop_subset set_take_subset in fast)+
    show "h \<le> length (children cbb)" using assms(2) by (simp add: b(4))
  qed (simp_all add: b(4) children_split assms(2))
qed

lemma take_Suc_frame: "h < length fs \<Longrightarrow> take (Suc h) fs = take h fs @ [(fst (fs ! h), snd (fs ! h))]"
  by (simp add: take_Suc_conv_app_nth)

lemma raw_aflush:
  "h < length fs \<Longrightarrow> raw (aflush h fs) = raw (take (Suc h) fs) @ render (drop (Suc h) fs)"
  by (cases "fs ! h") (simp add: aflush_def take_Suc_frame raw_append)

lemma layout_aflush: "h < length fs \<Longrightarrow> layout 0 (aflush h fs) = layout 0 (take (Suc h) fs)"
  by (cases "fs ! h") (simp add: aflush_def take_Suc_frame layout_append)

lemma hd_frames: "h < length fs \<Longrightarrow> fst (hd (take h fs @ [(fst (fs ! h), x)])) = fst (hd fs)"
  by (cases h) (auto simp: hd_append hd_conv_nth)

lemma kinds_tl_frames: "h < length fs \<Longrightarrow> kinds_ok (tl fs) \<Longrightarrow> kinds_ok (tl (take h fs @ [(fst (fs ! h), x)]))"
proof (cases h)
  case (Suc n)
  assume h: "h < length fs" and k: "kinds_ok (tl fs)"
  then have n: "0 < plen (fst (fs ! h))"
    using kinds_ok_nth [OF k, of n] Suc by (simp add: nth_tl)
  have "tl (take h fs @ [(fst (fs ! h), x)]) = take n (tl fs) @ [(fst (fs ! h), x)]"
    using h Suc by (cases fs) auto
  moreover have "kinds_ok (take n (tl fs))"
    by (rule kinds_ok_subset [OF k]) (rule set_take_subset)
  ultimately show ?thesis using n by (simp add: kinds_ok_append) (simp add: kinds_ok_def)
qed (simp add: kinds_ok_def)

lemma CBB_flush_represents:
  assumes "represents cbb fs" and "h < length fs" and "CBB_flush cbb h = (True, cbb')"
  shows "represents cbb' (aflush h fs) \<and> all_fit (drop (Suc h) fs)"
proof -
  obtain b where b: "cbb_base cbb = Some b" "buf_ok b"
    "base_buf b = raw (take (Suc h) fs) @ raw (drop (Suc h) fs)"
    "drop h (children cbb) = layout (length (raw (take (Suc h) fs))) (drop (Suc h) fs)"
    "take h (children cbb) = tl (layout 0 (take (Suc h) fs))" "kinds_ok (drop (Suc h) fs)"
    "h \<le> length (children cbb)"
    by (rule represents_base [OF assms(1,2)])
  obtain b' rest where fl: "flush_chain b (layout (length (raw (take (Suc h) fs))) (drop (Suc h) fs)) = (True, b', rest)"
    and cbb': "cbb' = \<lparr>cbb_base = Some b', children = take h (children cbb) @ rest\<rparr>"
    using assms(3) b by (auto simp: CBB_flush_def split: prod.splits if_splits)
  from flush_chain_True [OF fl b(3,2,6)]
  have r: "rest = []" "base_buf b' = raw (take (Suc h) fs) @ render (drop (Suc h) fs)" "buf_ok b'"
    "all_fit (drop (Suc h) fs)" by auto
  have "represents cbb' (aflush h fs)"
    unfolding represents_def
    using assms(1,2) r b hd_frames [OF assms(2)] kinds_tl_frames [OF assms(2)]
    by (simp add: cbb' represents_def raw_aflush layout_aflush) (simp add: aflush_def)
  with r show ?thesis by simp
qed

lemma ok_then_True:
  assumes "ok_then r f = (True, c)"
  obtains c1 where "r = (True, c1)" and "f c1 = (True, c)"
  using assms by (auto simp: ok_then_def split: prod.splits if_splits)

lemma aflush_last [simp]: "h < length fs \<Longrightarrow> length (aflush h fs) = Suc h"
  by (simp add: aflush_def)

lemma aflush_nonempty [simp]: "aflush h fs \<noteq> []"
  by (simp add: aflush_def)

lemma represents_add:
  assumes "represents cbb (pre @ [(k, seg)])" and "length bs < size_mod"
    and "on_base cbb (\<lambda>b. cbb_buffer_add b bs) = (True, cbb')"
  shows "represents cbb' (pre @ [(k, seg @ bs)])"
proof -
  obtain b where b: "cbb_base cbb = Some b" "buf_ok b" "base_buf b = raw (pre @ [(k, seg)])"
    "children cbb = tl (layout 0 (pre @ [(k, seg)]))"
    using assms(1) by (auto simp: represents_def)
  obtain r where add: "cbb_buffer_add (Some b) bs = (True, r)" and c: "cbb' = cbb\<lparr>cbb_base := r\<rparr>"
    using assms(3) b(1) by (auto simp: on_base_def split: prod.splits)
  from cbb_buffer_add_True [OF add b(2) assms(2)] obtain b' where
    b': "r = Some b'" "base_buf b' = base_buf b @ bs" "buf_ok b'" by metis
  have "tl (pre @ [(k, seg)]) = (if pre = [] then [] else tl pre @ [(k, seg)])" for seg :: "byte list"
    by (cases pre) auto
  then show ?thesis
    using assms(1) b b' unfolding represents_def
    by (cases pre) (auto simp: c raw_append layout_append kinds_ok_append kinds_ok_def)
qed

lemma CBB_add_bytes_represents:
  assumes "represents cbb fs" and "h < length fs" and "length data < size_mod"
    and "CBB_add_bytes cbb h data = (True, cbb')"
  shows "represents cbb' (awrite h data fs)" and "all_fit (drop (Suc h) fs)"
proof -
  obtain c1 where fl: "CBB_flush cbb h = (True, c1)"
    and add: "on_base c1 (\<lambda>b. cbb_buffer_add b data) = (True, cbb')"
    using assms(4) unfolding CBB_add_bytes_def by (rule ok_then_True)
  from CBB_flush_represents [OF assms(1,2) fl]
  show "represents cbb' (awrite h data fs)" "all_fit (drop (Suc h) fs)"
    using represents_add [OF _ assms(3) add, of "take h fs" "fst (fs ! h)" "snd (fs ! h) @ render (drop (Suc h) fs)"]
    by (simp_all add: aflush_def awrite_def)
qed

lemma CBB_add_space_eq: "CBB_add_space = CBB_add_bytes"
  by (simp add: fun_eq_iff CBB_add_space_def CBB_add_bytes_def)

lemma cbb_buffer_add_u_True:
  assumes "cbb_buffer_add_u base v n = (True, base')"
  shows "cbb_buffer_add base (be_bytes n (unat v)) = (True, base') \<or> n = 0 \<and> base' = base"
    and "unat v < 256 ^ n \<or> n = 0"
proof -
  have "drop_bit (8 * n) v = 0 \<longleftrightarrow> unat v < 256 ^ n"
    by (simp add: word_unat_eq_iff unat_drop power_mult div_eq_0_iff)
  with assms show "cbb_buffer_add base (be_bytes n (unat v)) = (True, base') \<or> n = 0 \<and> base' = base"
    and "unat v < 256 ^ n \<or> n = 0"
    by (auto simp: cbb_buffer_add_u_def be_store_eq Let_def split: prod.splits bool.splits if_splits)
qed

lemma cbb_add_u_bytes:
  assumes "cbb_add_u cbb h v n = (True, cbb')" and "0 < n"
  shows "CBB_add_bytes cbb h (be_bytes n (unat v)) = (True, cbb') \<and> unat v < 256 ^ n"
  using assms cbb_buffer_add_u_True [of _ v n]
  by (fastforce simp: cbb_add_u_def CBB_add_bytes_def ok_then_def on_base_def split: prod.splits if_splits)
end
