(* ===== verification/CBB_ASN1.thy ===== *)
theory CBB_ASN1
  imports CBB_Refine
begin

text \<open>
  The refinement of \<open>CBB_Refine\<close> carried on to the operations that open children and to the
  ASN.1 writers of \<open>cbb.c\<close>: each appends to the frame of its handle the DER element of its
  argument.
\<close>

section \<open>Opening children\<close>

lemma CBB_flush_noop:
  assumes "represents c fs" and "length fs = Suc h"
  shows "CBB_flush c h = (True, c)"
  using assms by (cases c) (auto simp: represents_def CBB_flush_def buf_ok_def)

lemma represents_open:
  assumes "represents c fs" and "length fs = Suc h" and "0 < plen k" and "plen k < size_mod"
    and "on_base c (\<lambda>b. cbb_buffer_add b (replicate (plen k) 0)) = (True, c')"
  shows "represents (add_child c' h \<lparr>offset = buffer_len c, pending_len_len = plen k,
    pending_is_asn1 = (k = Asn1)\<rparr>) (fs @ [(k, [])])"
proof -
  obtain b where b: "cbb_base c = Some b" "buf_ok b" "base_buf b = raw fs"
    "children c = tl (layout 0 fs)" and fs: "fs \<noteq> []" "fst (hd fs) = Plain 0" "kinds_ok (tl fs)"
    using assms(1) by (auto simp: represents_def)
  obtain r where add: "cbb_buffer_add (Some b) (replicate (plen k) 0) = (True, r)"
    and c': "c' = c\<lparr>cbb_base := r\<rparr>"
    using assms(5) b(1) by (auto simp: on_base_def split: prod.splits)
  have "length (replicate (plen k) (0::byte)) < size_mod" using assms(4) by simp
  from cbb_buffer_add_True [OF add b(2) this] obtain b' where
    b': "r = Some b'" "base_buf b' = base_buf b @ replicate (plen k) 0" "buf_ok b'" by metis
  have "layout 0 fs \<noteq> []" using fs(1) by (cases fs) auto
  then have "tl (layout 0 (fs @ [(k, [])])) = tl (layout 0 fs) @ layout (length (raw fs)) [(k, [])]"
    by (simp add: layout_append)
  moreover have "kinds_ok (tl (fs @ [(k, [])]))"
    using fs assms(3) by (simp add: kinds_ok_append) (simp add: kinds_ok_def)
  ultimately show ?thesis
    using assms(2) b b' fs
    by (simp add: represents_def add_child_def c' raw_append buffer_len_def)
qed

lemma awrite_aflush [simp]: "h < length fs \<Longrightarrow> awrite h bs (aflush h fs) = awrite h bs fs"
  by (simp add: awrite_def aflush_def nth_append)

lemma awrite_awrite [simp]: "h < length fs \<Longrightarrow> awrite h bs (awrite h as fs) = awrite h (as @ bs) fs"
  by (simp add: awrite_def nth_append)

lemma aflush_awrite [simp]: "h < length fs \<Longrightarrow> aflush h (awrite h as fs) = awrite h as fs"
  by (simp add: awrite_def aflush_def nth_append)

lemma length_awrite [simp]: "h < length fs \<Longrightarrow> length (awrite h bs fs) = Suc h"
  by (simp add: awrite_def)

lemma cbb_add_length_prefixed_represents:
  assumes "represents cbb fs" and "h < length fs" and "0 < n" and "n < size_mod"
    and "cbb_add_length_prefixed cbb h n = (True, cbb')"
  shows "represents cbb' (aopen h (Plain n) fs)" and "all_fit (drop (Suc h) fs)"
proof -
  obtain c1 c2 where fl: "CBB_flush cbb h = (True, c1)"
    and add: "on_base c1 (\<lambda>b. cbb_buffer_add b (replicate n 0)) = (True, c2)"
    and c': "cbb' = add_child c2 h \<lparr>offset = buffer_len c1, pending_len_len = n, pending_is_asn1 = False\<rparr>"
    using assms(5) unfolding cbb_add_length_prefixed_def Let_def
    by (auto elim!: ok_then_True)
  from CBB_flush_represents [OF assms(1,2) fl]
  have r: "represents c1 (aflush h fs)" and "all_fit (drop (Suc h) fs)" by auto
  then show "all_fit (drop (Suc h) fs)" by simp
  from represents_open [OF r, of h "Plain n" c2] add assms(2-4)
  show "represents cbb' (aopen h (Plain n) fs)" by (simp add: c' aopen_def)
qed

section \<open>Base-128 integers and tags\<close>

lemma CBB_add_u8_eq: "CBB_add_u8 cbb h b = CBB_add_bytes cbb h [b]"
proof -
  have "word_of_nat (unat b) = b" by simp
  moreover have "drop_bit 8 (ucast b :: uint64) = 0"
    by (simp add: word_unat_eq_iff unat_drop)
  ultimately have "cbb_buffer_add_u base (ucast b) 1 = cbb_buffer_add base [b]" for base
    by (auto simp: cbb_buffer_add_u_def be_store_eq split: prod.splits bool.splits)
  then show ?thesis by (simp add: CBB_add_u8_def cbb_add_u_def CBB_add_bytes_def)
qed

lemma b128_byte:
  "(let byte = ucast (drop_bit (7 * i) v AND 0x7f) in if c then byte OR 0x80 else byte) =
    (word_of_nat (unat v div 128 ^ i mod 128 + (if c then 128 else 0)) :: byte)"
  for v :: uint64
proof -
  let ?d = "unat v div 128 ^ i mod 128"
  let ?b = "ucast (drop_bit (7 * i) v AND 0x7f) :: byte"
  have d: "?d < 128" by simp
  have "unat (drop_bit (7 * i) v AND 0x7f) = ?d"
    using unat_and_mask [of "drop_bit (7 * i) v" 7]
    by (simp add: mask_eq_exp_minus_1 unat_drop power_mult)
  then have b: "unat ?b = ?d" by (simp add: unat_ucast_to_byte)
  have "unat (push_bit 7 (1::byte) OR ?b) = (1 * 2 ^ 7 + ?d) mod 2 ^ 8"
    by (subst unat_push_or) (simp_all add: b)
  then have "unat (?b OR 0x80) = ?d + 128"
    using d by (simp add: or.commute)
  with b d show ?thesis
    unfolding Let_def by (auto simp: word_unat_eq_iff b128_digit simp del: of_nat_add)
qed

text \<open>A sequence of one-byte writes is one write of all the bytes.\<close>

lemma CBB_add_bytes_append:
  assumes "represents cbb fs" and "h < length fs" and "length as + length bs < size_mod"
    and "ok_then (CBB_add_bytes cbb h as) (\<lambda>c. CBB_add_bytes c h bs) = (True, cbb')"
  shows "represents cbb' (awrite h (as @ bs) fs)"
proof -
  obtain c where 1: "CBB_add_bytes cbb h as = (True, c)" and 2: "CBB_add_bytes c h bs = (True, cbb')"
    using assms(4) by (rule ok_then_True)
  have "represents c (awrite h as fs)"
    using CBB_add_bytes_represents [OF assms(1,2) _ 1] assms(3) by simp
  from CBB_add_bytes_represents(1) [OF this _ _ 2] assms show ?thesis by simp
qed

lemma add_base128_loop_represents:
  assumes "represents cbb fs" and "h < length fs" and "add_base128_loop cbb h v n = (True, cbb')"
    and "length fs = Suc h"
  shows "represents cbb' (awrite h (b128_bytes n (unat v)) fs)"
  using assms
proof (induction n arbitrary: cbb fs)
  case 0
  then have "awrite h [] fs = fs"
    using frames_split [of h fs] by (simp add: awrite_def)
  with 0 show ?case by simp
next
  case (Suc i)
  let ?b = "word_of_nat (unat v div 128 ^ i mod 128 + (if i \<noteq> 0 then 128 else 0)) :: byte"
  obtain c where 1: "CBB_add_bytes cbb h [?b] = (True, c)"
    and 2: "add_base128_loop c h v i = (True, cbb')"
    using Suc.prems(3) unfolding add_base128_loop.simps CBB_add_u8_eq
      b128_byte [unfolded Let_def] Let_def by (rule ok_then_True)
  have "represents c (awrite h [?b] fs)"
    using CBB_add_bytes_represents [OF Suc.prems(1,2) _ 1] by (simp add: size_mod_def)
  from Suc.IH [OF this _ 2] Suc.prems show ?case by simp
qed

lemma base128_count_eq: "v \<noteq> 0 \<Longrightarrow> base128_count v = base_len 128 (unat v)"
proof (induction v rule: base128_count.induct)
  case (1 v)
  have v: "v > 0" using "1.prems" by (simp add: word_neq_0_conv)
  have d: "drop_bit 7 v = 0 \<longleftrightarrow> unat v < 128"
    by (simp add: word_unat_eq_iff unat_drop div_eq_0_iff)
  show ?case
  proof (cases "unat v < 128")
    case True
    with v d show ?thesis
      by (simp add: base128_count.simps [of v] base128_count.simps [of 0] base_len.simps [of 128 "unat v"])
  next
    case False
    with v d 1 have "base128_count (drop_bit 7 v) = base_len 128 (unat v div 128)"
      by (simp add: unat_drop)
    with False v show ?thesis
      by (simp add: base128_count.simps [of v] base_len.simps [of 128 "unat v"])
  qed
qed

lemma add_base128_integer_represents:
  assumes "represents cbb fs" and "length fs = Suc h" and "add_base128_integer cbb h v = (True, cbb')"
  shows "represents cbb' (awrite h (b128 (unat v)) fs)"
proof -
  have "(if base128_count v = 0 then 1 else base128_count v) = base_len 128 (unat v)"
  proof (cases "v = 0")
    case True
    then show ?thesis by (simp add: base128_count.simps base_len.simps)
  next
    case False
    with base128_count_eq [OF False] base_len_pos [of 128 "unat v"] show ?thesis by simp
  qed
  with assms(3) have "add_base128_loop cbb h v (base_len 128 (unat v)) = (True, cbb')"
    by (simp add: add_base128_integer_def Let_def)
  from add_base128_loop_represents [OF assms(1) _ this assms(2)] assms(2) show ?thesis
    by (simp add: b128_def)
qed

lemma tag_bits_number:
  fixes tag :: uint32
  defines "bits \<equiv> (ucast (drop_bit 24 tag) :: byte) AND 0xe0"
  assumes "unat (s :: byte) < 32"
  shows "bits OR s = word_of_nat (unat tag div 2 ^ 29 * 32 + unat s)"
    and "unat (tag AND CBS_ASN1_TAG_NUMBER_MASK) = unat tag mod 2 ^ 29"
proof -
  let ?b = "ucast (drop_bit 24 tag) :: byte"
  have t: "unat tag < 2 ^ 32" using unsigned_less [of tag, where ?'a = nat] by simp
  then have "unat tag div 2 ^ 24 < 256" by (simp add: div_less_iff_less_mult)
  then have b: "unat ?b = unat tag div 2 ^ 24" by (simp add: unat_ucast_to_byte unat_drop)
  have mask: "(0xe0 :: byte) = push_bit 5 (mask 3)" by (simp add: mask_eq_exp_minus_1)
  have bits: "bits = push_bit 5 (drop_bit 5 ?b)"
    unfolding bits_def mask by (rule bit_word_eqI) (auto simp: bit_simps)
  have d: "unat (drop_bit 5 ?b) = unat tag div 2 ^ 29"
    unfolding unat_drop b by (simp flip: div_mult2_eq)
  have lt: "unat tag div 2 ^ 29 < 8" using t by (simp add: div_less_iff_less_mult)
  have lt2: "unat tag div 2 ^ 29 * 32 + unat s < 256" using lt assms(2) by linarith
  have "unat (bits OR s) = (unat tag div 2 ^ 29 * 2 ^ 5 + unat s) mod 2 ^ 8"
    unfolding bits by (subst unat_push_or) (use assms(2) d in simp_all)
  then show "bits OR s = word_of_nat (unat tag div 2 ^ 29 * 32 + unat s)"
    using lt2 by (simp add: word_unat_eq_iff unat_small del: of_nat_add of_nat_mult)
  have "CBS_ASN1_TAG_NUMBER_MASK = mask 29"
    by (simp add: CBS_ASN1_TAG_NUMBER_MASK_def mask_eq_exp_minus_1)
  then show "unat (tag AND CBS_ASN1_TAG_NUMBER_MASK) = unat tag mod 2 ^ 29"
    by (metis unat_and_mask)
qed

lemma CBB_add_asn1_represents:
  assumes "represents cbb fs" and "h < length fs" and "CBB_add_asn1 cbb h tag = (True, cbb')"
  shows "represents cbb' (aopen h Asn1 (awrite h (tag_bytes tag) fs))"
    and "all_fit (drop (Suc h) fs)"
proof -
  let ?bits = "ucast (drop_bit CBS_ASN1_TAG_SHIFT tag) AND 0xe0 :: byte"
  let ?n = "tag AND CBS_ASN1_TAG_NUMBER_MASK"
  let ?c = "unat tag div 2 ^ 29" and ?m = "unat tag mod 2 ^ 29"
  obtain c1 c2 c3 where fl: "CBB_flush cbb h = (True, c1)"
    and tg: "(if ?n \<ge> 0x1f then
               ok_then (CBB_add_u8 c1 h (?bits OR 0x1f)) (\<lambda>c'. add_base128_integer c' h (ucast ?n))
             else CBB_add_u8 c1 h (?bits OR ucast ?n)) = (True, c2)"
    and z: "CBB_add_u8 c2 h 0 = (True, c3)"
    and c': "cbb' = add_child c3 h \<lparr>offset = buffer_len c2, pending_len_len = 1, pending_is_asn1 = True\<rparr>"
    using assms(3) unfolding CBB_add_asn1_def Let_def by (auto elim!: ok_then_True)
  from CBB_flush_represents [OF assms(1,2) fl]
  have r1: "represents c1 (aflush h fs)" and fit: "all_fit (drop (Suc h) fs)" by auto
  show "all_fit (drop (Suc h) fs)" by (rule fit)
  have n: "unat ?n = ?m" using tag_bits_number(2) [of 0 tag] by simp
  have one: "length [b :: byte] < size_mod" for b by (simp add: size_mod_def)
  have r2: "represents c2 (awrite h (tag_bytes tag) fs)"
  proof (cases "?m < 31")
    case True
    then have "unat (ucast ?n :: byte) = ?m" by (simp add: unat_ucast_to_byte n)
    with True have b: "?bits OR ucast ?n = word_of_nat (?c * 32 + ?m)"
      using tag_bits_number(1) [of "ucast ?n" tag] by simp
    have "\<not> ?n \<ge> 0x1f" using True n by (simp add: word_le_nat_alt)
    with tg have "CBB_add_bytes c1 h [word_of_nat (?c * 32 + ?m)] = (True, c2)"
      unfolding CBB_add_u8_eq b by simp
    from CBB_add_bytes_represents(1) [OF r1 _ one this] True assms(2) show ?thesis
      by (simp add: tag_bytes_def Let_def)
  next
    case False
    have b: "?bits OR 0x1f = word_of_nat (?c * 32 + 31)"
      using tag_bits_number(1) [of "0x1f" tag] by simp
    have n64: "unat (ucast ?n :: uint64) = ?m"
      using n by (simp add: unsigned_ucast_eq take_bit_nat_eq_self)
    have "?n \<ge> 0x1f" using False n by (simp add: word_le_nat_alt)
    with tg obtain c where 1: "CBB_add_bytes c1 h [word_of_nat (?c * 32 + 31)] = (True, c)"
      and 2: "add_base128_integer c h (ucast ?n) = (True, c2)"
      unfolding CBB_add_u8_eq b by (auto elim!: ok_then_True)
    from CBB_add_bytes_represents(1) [OF r1 _ one 1] assms(2)
    have "represents c (awrite h [word_of_nat (?c * 32 + 31)] fs)" by simp
    from add_base128_integer_represents [OF this _ 2] False assms(2) n64 show ?thesis
      by (simp add: tag_bytes_def Let_def)
  qed
  have len: "length (awrite h (tag_bytes tag) fs) = Suc h" using assms(2) by simp
  have "on_base c2 (\<lambda>b. cbb_buffer_add b (replicate (plen Asn1) 0)) = (True, c3)"
    using z unfolding CBB_add_u8_eq CBB_add_bytes_def CBB_flush_noop [OF r2 len]
    by (simp add: ok_then_def)
  from represents_open [OF r2 len _ _ this] show "represents cbb' (aopen h Asn1 (awrite h (tag_bytes tag) fs))"
    using assms(2) by (simp add: c' aopen_def size_mod_def)
qed

text \<open>Closing an ASN.1 child that was written through its own handle.\<close>

lemma aflush_aopen_awrite:
  assumes "h < length fs"
  shows "aflush h (awrite (Suc h) body (aopen h Asn1 (awrite h (tag_bytes tag) fs))) =
    awrite h (der_element tag body) fs"
  using assms by (simp add: aflush_def awrite_def aopen_def nth_append der_element_def der_header_def)

lemma close_asn1_child:
  assumes "h < length fs" and "represents c (awrite (Suc h) body (aopen h Asn1 (awrite h (tag_bytes tag) fs)))"
    and "CBB_flush c h = (True, cbb')"
  shows "represents cbb' (awrite h (der_element tag body) fs)" and "length body \<le> 0xfffffffe"
proof -
  let ?gs = "awrite (Suc h) body (aopen h Asn1 (awrite h (tag_bytes tag) fs))"
  have h: "h < length ?gs" using assms(1) by (simp add: aopen_def)
  from CBB_flush_represents [OF assms(2) h assms(3)]
  show "represents cbb' (awrite h (der_element tag body) fs)"
    by (simp add: aflush_aopen_awrite [OF assms(1)])
  have "drop (Suc h) ?gs = [(Asn1, body)]"
    using assms(1) by (simp add: awrite_def aopen_def aflush_def nth_append)
  with CBB_flush_represents [OF assms(2) h assms(3)] show "length body \<le> 0xfffffffe" by simp
qed

lemma aopen_length [simp]: "h < length fs \<Longrightarrow> length (aopen h k fs) = Suc (Suc h)"
  by (simp add: aopen_def)

lemma CBB_add_asn1_octet_string_represents:
  assumes "represents cbb fs" and "h < length fs" and "length data < size_mod"
    and "CBB_add_asn1_octet_string cbb h data = (True, cbb')"
  shows "represents cbb' (awrite h (der_element CBS_ASN1_OCTETSTRING data) fs)"
    and "length data \<le> 0xfffffffe"
proof -
  obtain c c2 where 1: "CBB_add_asn1 cbb h CBS_ASN1_OCTETSTRING = (True, c)"
    and 2: "CBB_add_bytes c (Suc h) data = (True, c2)" and 3: "CBB_flush c2 h = (True, cbb')"
    using assms(4) unfolding CBB_add_asn1_octet_string_def by (auto elim!: ok_then_True)
  have "represents c2 (awrite (Suc h) data (aopen h Asn1 (awrite h (tag_bytes CBS_ASN1_OCTETSTRING) fs)))"
    by (rule CBB_add_bytes_represents(1) [OF CBB_add_asn1_represents(1) [OF assms(1,2) 1] _ assms(3) 2])
      (use assms(2) in simp)
  from close_asn1_child [OF assms(2) this 3]
  show "represents cbb' (awrite h (der_element CBS_ASN1_OCTETSTRING data) fs)"
    and "length data \<le> 0xfffffffe" .
qed

lemma CBB_add_asn1_bool_represents:
  assumes "represents cbb fs" and "h < length fs" and "CBB_add_asn1_bool cbb h value = (True, cbb')"
  shows "represents cbb' (awrite h (der_element CBS_ASN1_BOOLEAN [if value \<noteq> 0 then 0xff else 0]) fs)"
proof -
  let ?b = "if value \<noteq> 0 then 0xff else 0 :: byte"
  obtain c c2 where 1: "CBB_add_asn1 cbb h CBS_ASN1_BOOLEAN = (True, c)"
    and 2: "CBB_add_bytes c (Suc h) [?b] = (True, c2)" and 3: "CBB_flush c2 h = (True, cbb')"
    using assms(3) unfolding CBB_add_asn1_bool_def CBB_add_u8_eq by (auto elim!: ok_then_True)
  have "represents c2 (awrite (Suc h) [?b] (aopen h Asn1 (awrite h (tag_bytes CBS_ASN1_BOOLEAN) fs)))"
    by (rule CBB_add_bytes_represents(1) [OF CBB_add_asn1_represents(1) [OF assms(1,2) 1] _ _ 2])
      (use assms(2) in \<open>simp_all add: size_mod_def\<close>)
  from close_asn1_child(1) [OF assms(2) this 3] show ?thesis .
qed

section \<open>Integers\<close>

text \<open>The minimal two's complement form of a non-negative number.\<close>

definition uint_bytes :: "nat \<Rightarrow> byte list" where
  "uint_bytes v =
     (let bs = be_bytes (base_len 256 v) v in if 128 \<le> unat (hd bs) then 0 # bs else bs)"

lemma asn1_byte: "ucast (drop_bit (8 * r) v AND 0xff) = (word_of_nat (unat v div 256 ^ r) :: byte)"
  for v :: uint64
proof -
  have "unat (drop_bit (8 * r) v AND 0xff) = unat v div 256 ^ r mod 256"
    using unat_and_mask [of "drop_bit (8 * r) v" 8]
    by (simp add: mask_eq_exp_minus_1 unat_drop power_mult)
  then show ?thesis
    by (simp add: word_unat_eq_iff unat_ucast_to_byte unat_of_nat take_bit_eq_mod)
qed

lemma asn1_uint64_loop_started:
  assumes "represents c fs" and "length fs = Suc h" and "asn1_uint64_loop c h v r True = ((True, s), c')"
  shows "s \<and> represents c' (awrite h (be_bytes r (unat v)) fs)"
  using assms
proof (induction r arbitrary: c fs)
  case 0
  then have "awrite h [] fs = fs" using frames_split [of h fs] by (simp add: awrite_def)
  with 0 show ?case by simp
next
  case (Suc r)
  let ?b = "word_of_nat (unat v div 256 ^ r) :: byte"
  obtain c2 where 1: "CBB_add_bytes c h [?b] = (True, c2)"
    and 2: "asn1_uint64_loop c2 h v r True = ((True, s), c')"
    using Suc.prems(3) by (auto simp: asn1_byte CBB_add_u8_eq Let_def split: prod.splits bool.splits)
  have "represents c2 (awrite h [?b] fs)"
    using CBB_add_bytes_represents(1) [OF Suc.prems(1) _ _ 1] Suc.prems(2) by (simp add: size_mod_def)
  from Suc.IH [OF this _ 2] Suc.prems(2) show ?case by (simp add: be_bytes_Cons del: be_bytes.simps)
qed

lemma uint_bytes_top:
  assumes "v < 256 ^ Suc r" and "256 ^ r \<le> v"
  shows "uint_bytes v = (let b = word_of_nat (v div 256 ^ r) in
    if 128 \<le> unat (b :: byte) then 0 # b # be_bytes r v else b # be_bytes r v)"
proof -
  have "base_len 256 v = Suc r" by (rule base_len_unique [symmetric]) (use assms in auto)
  then show ?thesis by (simp add: uint_bytes_def be_bytes_Cons Let_def del: be_bytes.simps)
qed

lemma word_nat_id: "word_of_nat (unat (w :: 'a::len word)) = w"
  by simp

lemma uint_bytes_split:
  fixes n r :: nat
  defines "d \<equiv> n div 256 ^ r mod 256"
  assumes "d \<noteq> 0"
  shows "uint_bytes (n mod 256 ^ Suc r) =
      (if 128 \<le> d then [0] else []) @ word_of_nat (n div 256 ^ r) # be_bytes r n"
    and "n mod 256 ^ Suc r \<noteq> 0"
proof -
  let ?b = "word_of_nat (n div 256 ^ r) :: byte" and ?v = "n mod 256 ^ Suc r"
  have b: "unat ?b = d" by (simp add: d_def unat_of_nat take_bit_eq_mod)
  have split: "?v = d * 256 ^ r + n mod 256 ^ r"
    unfolding d_def by (metis mod_mult2_eq mult.commute power_Suc add.commute)
  have "1 \<le> d" using assms(2) by simp
  then have "1 * 256 ^ r \<le> d * 256 ^ r" by (rule mult_le_mono1)
  then have le: "256 ^ r \<le> ?v" unfolding split by linarith
  moreover have "?v div 256 ^ r = d" unfolding split by simp
  moreover have "word_of_nat d = ?b" by (metis b word_nat_id)
  moreover have "be_bytes r ?v = be_bytes r n"
    by (metis be_bytes_mod mod_mod_trivial mod_mult2_eq mult.commute power_Suc mod_mult_self3 split)
  ultimately show "uint_bytes ?v = (if 128 \<le> d then [0] else []) @ ?b # be_bytes r n"
    using uint_bytes_top [of ?v r] b by (simp add: Let_def)
  show "?v \<noteq> 0"
    using le by (metis less_numeral_extra(3) not_less_zero power_not_zero zero_neq_numeral le_zero_eq)
qed

lemma asn1_uint64_loop_fresh:
  assumes "represents c fs" and "length fs = Suc h" and "asn1_uint64_loop c h v r False = ((True, s), c')"
  shows "if unat v mod 256 ^ r = 0 then \<not> s \<and> c' = c
    else s \<and> represents c' (awrite h (uint_bytes (unat v mod 256 ^ r)) fs)"
  using assms
proof (induction r)
  case (Suc r)
  let ?d = "unat v div 256 ^ r mod 256"
  let ?b = "word_of_nat (unat v div 256 ^ r) :: byte"
  have b: "unat ?b = ?d" by (simp add: unat_of_nat take_bit_eq_mod)
  have split: "unat v mod 256 ^ Suc r = ?d * 256 ^ r + unat v mod 256 ^ r"
    by (metis mod_mult2_eq mult.commute power_Suc add.commute)
  show ?case
  proof (cases "?d = 0")
    case True
    then have "?b = 0" using b by (simp add: word_unat_eq_iff)
    with Suc True split show ?thesis by (simp add: asn1_byte)
  next
    case False
    then have b0: "?b \<noteq> 0" using b by (auto simp: word_unat_eq_iff)
    obtain c1 c2 where 1: "(if ?b AND 0x80 \<noteq> 0 then CBB_add_bytes c h [0] else (True, c)) = (True, c1)"
      and 2: "CBB_add_bytes c1 h [?b] = (True, c2)"
      and 3: "asn1_uint64_loop c2 h v r True = ((True, s), c')"
      using Suc.prems(3) b0
      by (auto simp: asn1_byte CBB_add_u8_eq Let_def split: prod.splits bool.splits if_splits)
    let ?z = "if 128 \<le> ?d then [0] else [] :: byte list"
    have hb: "?b AND 0x80 \<noteq> 0 \<longleftrightarrow> 128 \<le> ?d" by (simp only: byte_high_bit b)
    have one: "length [x :: byte] < size_mod" for x by (simp add: size_mod_def)
    have nop: "awrite h [] fs = fs"
      using frames_split [of h fs] Suc.prems(2) by (simp add: awrite_def)
    have h: "h < length fs" using Suc.prems(2) by simp
    have "represents c1 (awrite h ?z fs)"
      using 1 hb Suc.prems(1) nop CBB_add_bytes_represents(1) [OF Suc.prems(1) h one] by (auto split: if_splits)
    from CBB_add_bytes_represents(1) [OF this _ one 2] h
    have "represents c2 (awrite h (?z @ [?b]) fs)" by simp
    from asn1_uint64_loop_started [OF this _ 3] h
    have s: "s \<and> represents c' (awrite h (?z @ ?b # be_bytes r (unat v)) fs)" by simp
    show ?thesis using s uint_bytes_split [OF False] by simp
  qed
qed simp
end
