(* ===== verification/ASN1_Int.thy ===== *)
theory ASN1_Int
  imports CBB_ASN1
begin

text \<open>
  ASN.1 \<open>INTEGER\<close>: the minimal two's complement contents, the exact language of
  \<open>CBS_get_asn1_uint64\<close> and \<open>CBS_get_asn1_int64\<close>, and the writers that produce it.
\<close>

section \<open>Non-negative integers\<close>

lemma uint_bytes_0: "uint_bytes 0 = [0]"
  by (simp add: uint_bytes_def base_len.simps numeral_2_eq_2)

lemma CBB_add_asn1_uint64_represents:
  assumes "represents cbb fs" and "h < length fs" and "CBB_add_asn1_uint64 cbb h value = (True, cbb')"
  shows "represents cbb' (awrite h (der_element CBS_ASN1_INTEGER (uint_bytes (unat value))) fs)"
proof -
  let ?gs = "aopen h Asn1 (awrite h (tag_bytes CBS_ASN1_INTEGER) fs)"
  obtain c c1 c2 s where 1: "CBB_add_asn1 cbb h CBS_ASN1_INTEGER = (True, c)"
    and 2: "asn1_uint64_loop c (Suc h) value 8 False = ((True, s), c1)"
    and 3: "(if \<not> s then CBB_add_bytes c1 (Suc h) [0] else (True, c1)) = (True, c2)"
    and 4: "CBB_flush c2 h = (True, cbb')"
    using assms(3) unfolding CBB_add_asn1_uint64_def CBB_add_u8_eq Suc_eq_plus1 [symmetric]
    by (fastforce elim!: ok_then_True split: prod.splits bool.splits)
  have r: "represents c ?gs" by (rule CBB_add_asn1_represents(1) [OF assms(1,2) 1])
  have len: "length ?gs = Suc (Suc h)" using assms(2) by simp
  have mod8: "unat value mod 256 ^ 8 = unat value" using unsigned_less [of "value", where ?'a = nat] by simp
  have "represents c2 (awrite (Suc h) (uint_bytes (unat value)) ?gs)"
  proof (cases "unat value = 0")
    case True
    with asn1_uint64_loop_fresh [OF r len 2] mod8 have "\<not> s" "c1 = c" by auto
    with 3 r True len show ?thesis
      using CBB_add_bytes_represents(1) [OF r, of "Suc h" "[0]" c2] by (simp add: size_mod_def uint_bytes_0)
  next
    case False
    with asn1_uint64_loop_fresh [OF r len 2] mod8 3 show ?thesis by auto
  qed
  from close_asn1_child(1) [OF assms(2) this 4] show ?thesis .
qed


lemma nat_byte_bound: "b < 256 \<Longrightarrow> \<not> 2 ^ 56 \<le> w \<Longrightarrow> w * 256 + b < (2::nat) ^ 64"
  by simp

lemma uint64_loop_eq:
  "uint64_loop w bs =
    (let n = unat w * 256 ^ length bs + be_nat bs in if n < 2 ^ 64 then Some (word_of_nat n) else None)"
proof (induction bs arbitrary: w)
  case Nil
  show ?case using unsigned_less [of w, where ?'a = nat] by (simp add: word_nat_id)
next
  case (Cons b bs)
  let ?n = "unat w * 256 ^ length (b # bs) + be_nat (b # bs)"
  have high: "drop_bit 56 w \<noteq> 0 \<longleftrightarrow> 2 ^ 56 \<le> unat w"
    unfolding word_unat_eq_iff unat_drop by (simp add: div_eq_0_iff not_less)
  show ?case
  proof (cases "2 ^ 56 \<le> unat w")
    case True
    have "(2::nat) ^ 64 \<le> unat w * 256" using True by simp
    also have "\<dots> \<le> unat w * 256 * 256 ^ length bs" by simp
    finally have "\<not> ?n < 2 ^ 64" by (simp add: mult.assoc)
    with True high show ?thesis by (simp add: Let_def)
  next
    case False
    let ?w = "push_bit 8 w OR ucast b :: uint64"
    have "unat ?w = unat w * 256 + unat b"
      using False nat_byte_bound [OF unat_byte_less, of "unat w" b]
      by (subst unat_push_or) (simp_all add: unat_ucast_64)
    then have "unat ?w * 256 ^ length bs + be_nat bs = ?n"
      by (simp add: be_nat_Cons algebra_simps)
    with False high Cons.IH [of ?w] show ?thesis by (simp del: push_bit_eq_mult)
  qed
qed

definition uint_form :: "byte list \<Rightarrow> bool" where
  "uint_form data \<longleftrightarrow> data \<noteq> [] \<and> unat (data ! 0) < 128 \<and>
     \<not> (data ! 0 = 0 \<and> length data > 1 \<and> unat (data ! 1) < 128)"

lemma be_bytes_top: "be_bytes (length bs) (be_nat bs) = bs"
  by (rule be_bytes_be_nat)

lemma base_len_be_nat: "b \<noteq> 0 \<Longrightarrow> base_len 256 (be_nat (b # bs)) = Suc (length bs)"
proof (rule base_len_unique [symmetric])
  assume "b \<noteq> 0"
  then have "1 \<le> unat b" by (metis One_nat_def Suc_leI unat_gt_0)
  then have "1 * 256 ^ length bs \<le> unat b * 256 ^ length bs" by (rule mult_le_mono1)
  then have "256 ^ length bs \<le> be_nat (b # bs)" unfolding be_nat_Cons by linarith
  then show "Suc (length bs) = 1 \<or> 256 ^ (Suc (length bs) - 1) \<le> be_nat (b # bs)" by simp
qed (use be_nat_less [of "b # bs"] in auto)

lemma uint_bytes_be_nat: "b \<noteq> 0 \<Longrightarrow> uint_bytes (be_nat (b # bs)) = (if 128 \<le> unat b then 0 # b # bs else b # bs)"
  using be_bytes_be_nat [of "b # bs"] by (simp add: uint_bytes_def base_len_be_nat del: be_bytes.simps)

lemma uint_form_bytes:
  assumes "uint_form data"
  shows "uint_bytes (be_nat data) = data"
proof -
  obtain b bs where d: "data = b # bs" using assms by (cases data) (auto simp: uint_form_def)
  show ?thesis
  proof (cases "b = 0")
    case False
    then show ?thesis using assms uint_bytes_be_nat [of b bs] by (auto simp: d uint_form_def)
  next
    case True
    show ?thesis
    proof (cases bs)
      case Nil
      then show ?thesis using True be_nat_snoc [of "[]" 0] by (simp add: d uint_bytes_0)
    next
      case (Cons c cs)
      then have "128 \<le> unat c" using assms True by (simp add: uint_form_def d)
      moreover from this have "c \<noteq> 0" by auto
      ultimately show ?thesis using uint_bytes_be_nat [of c cs] True Cons
        by (simp add: d be_nat_Cons [of 0])
    qed
  qed
qed

lemma be_nat_uint_bytes [simp]: "be_nat (uint_bytes v) = v"
proof -
  have "be_nat (be_bytes (base_len 256 v) v) = v"
    using base_len_bound [of 256 v] by (simp add: be_nat_be_bytes)
  then show ?thesis by (auto simp: uint_bytes_def Let_def be_nat_Cons)
qed

lemma uint_form_uint_bytes: "uint_form (uint_bytes v)"
proof -
  obtain k where k: "base_len 256 v = Suc k" by (metis base_len_pos gr0_conv_Suc)
  let ?b = "word_of_nat (v div 256 ^ k) :: byte"
  have e: "be_bytes (base_len 256 v) v = ?b # be_bytes k v" by (simp only: k be_bytes_Cons)
  have bound: "v < 256 ^ Suc k" "k = 0 \<or> 256 ^ k \<le> v"
    using base_len_bound [of 256 v] k by auto
  have "v div 256 ^ k < 256" using bound(1) by (simp add: div_less_iff_less_mult mult.commute)
  then have b: "unat ?b = v div 256 ^ k" by (simp add: unat_small)
  have "?b \<noteq> 0 \<or> k = 0"
  proof -
    have "k \<noteq> 0 \<Longrightarrow> 0 < v div 256 ^ k" using bound(2) by (simp add: div_greater_zero_iff)
    then show ?thesis using b by (metis less_irrefl unat_0)
  qed
  then show ?thesis by (auto simp: uint_form_def uint_bytes_def Let_def e)
qed

lemma uint_bytes_iff: "data = uint_bytes n \<longleftrightarrow> uint_form data \<and> be_nat data = n"
  using uint_form_bytes uint_form_uint_bytes by force

lemma length_uint_bytes: "v < 256 ^ n \<Longrightarrow> 0 < n \<Longrightarrow> length (uint_bytes v) \<le> Suc n"
  using base_len_le [of 256 v n] by (auto simp: uint_bytes_def Let_def)

lemma CBS_get_asn1_uint64_iff:
  "CBS_get_asn1_uint64 cbs = (Some v, rest) \<longleftrightarrow>
    cbs = der_element CBS_ASN1_INTEGER (uint_bytes (unat v)) @ rest"
proof
  assume "CBS_get_asn1_uint64 cbs = (Some v, rest)"
  then obtain data c' where g: "CBS_get_asn1 CBS_ASN1_INTEGER cbs = (Some data, c')"
    and "uint_form data" "uint64_loop 0 data = Some v" "c' = rest"
    unfolding CBS_get_asn1_uint64_def
    by (elim and_then_SomeE) (auto simp: uint_form_def byte_high_bit byte_high_bit_0 not_le split: if_splits option.splits)
  then have "data = uint_bytes (unat v)"
    by (auto simp: uint_bytes_iff uint64_loop_eq Let_def unat_small split: if_splits)
  with g \<open>c' = rest\<close> show "cbs = der_element CBS_ASN1_INTEGER (uint_bytes (unat v)) @ rest"
    by (simp add: CBS_get_asn1_iff)
next
  assume cbs: "cbs = der_element CBS_ASN1_INTEGER (uint_bytes (unat v)) @ rest"
  have v: "unat v < 2 ^ 64" using unsigned_less [of v, where ?'a = nat] by simp
  then have "length (uint_bytes (unat v)) < 2 ^ 32"
    using length_uint_bytes [of "unat v" 8] by simp
  with cbs have "CBS_get_asn1 CBS_ASN1_INTEGER cbs = (Some (uint_bytes (unat v)), rest)"
    by (simp add: CBS_get_asn1_iff)
  moreover have "uint_form (uint_bytes (unat v))" by (rule uint_form_uint_bytes)
  moreover have "uint64_loop 0 (uint_bytes (unat v)) = Some v"
    using v by (simp add: uint64_loop_eq word_nat_id)
  ultimately show "CBS_get_asn1_uint64 cbs = (Some v, rest)"
    by (simp add: CBS_get_asn1_uint64_def uint_form_def byte_high_bit byte_high_bit_0)
qed


text \<open>The minimal two's complement form of an integer.\<close>

definition int_bytes :: "int \<Rightarrow> byte list" where
  "int_bytes i = (if 0 \<le> i then uint_bytes (nat i) else map NOT (uint_bytes (nat (- 1 - i))))"

lemma le_value_rev: "le_value (rev bs) = be_value bs"
  by (simp add: le_value_def be_value_def foldr_conv_foldl)

lemma be_nat_zeros [simp]: "be_nat (replicate n 0 @ bs) = be_nat bs"
  by (induction n) (simp_all add: be_nat_Cons)

lemma sign_extended:
  assumes "length data \<le> 8"
  shows "be_value (replicate (8 - length data) (- 1) @ map NOT data) = NOT (be_value data)"
proof -
  let ?l = "replicate (8 - length data) 0 @ data"
  have "replicate (8 - length data) (- 1) @ map NOT data = map NOT ?l" by (simp add: map_replicate)
  moreover have "be_nat (map NOT ?l) = 2 ^ 64 - 1 - be_nat ?l"
    using be_nat_not [of ?l] assms by simp
  moreover have "unat (be_value (map NOT ?l)) = be_nat (map NOT ?l)"
    using assms by (intro unat_be_value_exact) simp
  moreover have "unat (be_value data) = be_nat data" using assms by (intro unat_be_value_exact)
  ultimately show ?thesis
    using unat_not [of "be_value data"] by (simp add: word_unat_eq_iff)
qed


lemma uint_form_bounds:
  assumes "uint_form d"
  shows "be_nat d < 128 * 256 ^ (length d - 1)" and "1 < length d \<Longrightarrow> 128 * 256 ^ (length d - 2) \<le> be_nat d"
proof -
  obtain b bs where d: "d = b # bs" using assms by (cases d) (auto simp: uint_form_def)
  have "unat b < 128" using assms by (simp add: uint_form_def d)
  then have "Suc (unat b) * 256 ^ length bs \<le> 128 * 256 ^ length bs" by (intro mult_le_mono1) simp
  then have "unat b * 256 ^ length bs + 256 ^ length bs \<le> 128 * 256 ^ length bs"
    by (simp only: mult_Suc add.commute)
  then have "unat b * 256 ^ length bs + be_nat bs < 128 * 256 ^ length bs"
    using be_nat_less [of bs] by linarith
  then show "be_nat d < 128 * 256 ^ (length d - 1)" by (simp add: d be_nat_Cons)
  assume "1 < length d"
  then obtain c cs where bs: "bs = c # cs" by (cases bs) (auto simp: d)
  show "128 * 256 ^ (length d - 2) \<le> be_nat d"
  proof (cases "b = 0")
    case True
    then have "128 \<le> unat c" using assms by (simp add: uint_form_def d bs)
    then have "128 * 256 ^ length cs \<le> unat c * 256 ^ length cs" by (rule mult_le_mono1)
    then have "128 * 256 ^ length cs \<le> be_nat d" unfolding d bs be_nat_Cons by linarith
    then show ?thesis by (simp add: d bs)
  next
    case False
    then have "1 \<le> unat b" by (metis One_nat_def Suc_leI unat_gt_0)
    then have "1 * 256 ^ Suc (length cs) \<le> unat b * 256 ^ Suc (length cs)" by (rule mult_le_mono1)
    then have "256 * 256 ^ length cs \<le> be_nat d" 
      using trans_le_add1 [of _ _ "be_nat (c # cs)"]
      unfolding d bs be_nat_Cons [of b] length_Cons mult_1 power_Suc by blast
    then show ?thesis by (simp add: d bs)
  qed
qed

lemma uint_form_short:
  assumes "uint_form d"
  shows "length d \<le> 8 \<longleftrightarrow> be_nat d < 2 ^ 63"
proof
  assume "length d \<le> 8"
  then have "(256::nat) ^ (length d - 1) \<le> 256 ^ 7" by (intro power_increasing) auto
  with uint_form_bounds(1) [OF assms] show "be_nat d < 2 ^ 63" by simp
next
  assume *: "be_nat d < 2 ^ 63"
  show "length d \<le> 8"
  proof (rule ccontr)
    assume "\<not> length d \<le> 8"
    then have "(256::nat) ^ 7 \<le> 256 ^ (length d - 2)" and "1 < length d"
      by (auto intro!: power_increasing simp del: power_numeral)
    with uint_form_bounds(2) [OF assms] * show False by simp
  qed
qed

lemma nth_map_not: "i < length d \<Longrightarrow> map NOT d ! i = NOT (d ! i)"
  by simp

lemma byte_not_less: "unat (NOT b) < 128 \<longleftrightarrow> 128 \<le> unat b" for b :: byte
  using unat_not [of b] by auto

lemma byte_not_zero: "NOT b = 0 \<longleftrightarrow> b = - 1" for b :: byte
  by (metis bit.compl_zero bit.double_compl)

lemma byte_ff: "(0xff :: byte) = - 1"
  by simp

text \<open>What \<open>CBS_get_asn1_int64\<close> accepts, and the value it returns.\<close>

definition int64_of :: "byte list \<Rightarrow> uint64 option" where
  "int64_of data =
     (let len = length data in
      if len = 0 \<or> len > 8 then None
      else if len > 1 \<and> data ! 0 = 0 \<and> data ! 1 AND 0x80 = 0 then None
      else if len > 1 \<and> data ! 0 = 0xff \<and> data ! 1 AND 0x80 \<noteq> 0 then None
      else Some (le_value (rev data @ replicate (8 - len) (if data ! 0 AND 0x80 \<noteq> 0 then 0xff else 0))))"

lemma le_value_padded: "le_value (rev data @ replicate n p) = be_value (replicate n p @ data)"
  using le_value_rev [of "replicate n p @ data"] by simp

lemma int64_of_pos:
  assumes "data \<noteq> []" and "unat (data ! 0) < 128"
  shows "int64_of data = Some v \<longleftrightarrow> unat v < 2 ^ 63 \<and> data = uint_bytes (unat v)"
proof -
  have pad: "be_value (replicate (8 - length data) 0 @ data) = be_value data" if "length data \<le> 8"
    using that by (simp add: word_unat_eq_iff unat_be_value_exact)
  have "int64_of data = Some v \<longleftrightarrow> length data \<le> 8 \<and> uint_form data \<and> be_value data = v"
    using assms pad unat_byte_less
    by (auto simp: int64_of_def uint_form_def Let_def byte_high_bit byte_high_bit_0 le_value_padded)
  also have "\<dots> \<longleftrightarrow> unat v < 2 ^ 63 \<and> data = uint_bytes (unat v)"
    using uint_form_short [of data] uint_form_short [of "uint_bytes (unat v)"]
    by (auto simp: uint_bytes_iff word_unat_eq_iff unat_be_value_exact uint_form_uint_bytes)
  finally show ?thesis .
qed

lemma int64_of_neg:
  assumes "data \<noteq> []" and "128 \<le> unat (data ! 0)"
  shows "int64_of data = Some v \<longleftrightarrow> unat (NOT v) < 2 ^ 63 \<and> map NOT data = uint_bytes (unat (NOT v))"
proof -
  have pad: "be_value (replicate (8 - length data) (- 1) @ data) = NOT (be_value (map NOT data))"
    if "length data \<le> 8"
    using that sign_extended [of "map NOT data"] by (simp add: comp_def)
  have z: "data ! 0 \<noteq> 0" using assms(2) by auto
  have ff: "(0xff :: byte) = - 1" by simp
  have "int64_of data = Some v \<longleftrightarrow>
    length data \<le> 8 \<and> uint_form (map NOT data) \<and> NOT (be_value (map NOT data)) = v"
    using assms pad z
    by (auto simp: int64_of_def uint_form_def Let_def byte_high_bit byte_high_bit_0 le_value_padded ff
        byte_not_less byte_not_zero)
  also have "\<dots> \<longleftrightarrow> length (map NOT data) \<le> 8 \<and> uint_form (map NOT data) \<and> be_value (map NOT data) = NOT v"
    by (auto simp del: map_map)
  also have "\<dots> \<longleftrightarrow> unat (NOT v) < 2 ^ 63 \<and> map NOT data = uint_bytes (unat (NOT v))"
    using uint_form_short [of "map NOT data"] uint_form_short [of "uint_bytes (unat (NOT v))"]
    by (auto simp: uint_bytes_iff word_unat_eq_iff unat_be_value_exact uint_form_uint_bytes)
  finally show ?thesis .
qed


lemma int_bytes_sint:
  "int_bytes (sint v) =
    (if unat v < 2 ^ 63 then uint_bytes (unat v) else map NOT (uint_bytes (unat (NOT v))))" for v :: uint64
proof -
  have neg: "\<not> unat v < 2 ^ 63 \<Longrightarrow> unat (NOT v) < 2 ^ 63"
    using unat_not [of v] by simp
  then have "\<not> unat v < 2 ^ 63 \<Longrightarrow> int (unat (NOT v)) = - 1 - sint v"
    using sint_pos [of "NOT v"] sint_not [of v] by presburger
  then have "\<not> unat v < 2 ^ 63 \<Longrightarrow> unat (NOT v) = nat (- 1 - sint v)"
    by (metis nat_int)
  then show ?thesis
    using sint_pos [of v] sint_nonneg_iff [of v] by (auto simp: int_bytes_def)
qed

lemma uint_bytes_head: "uint_bytes n \<noteq> [] \<and> unat (uint_bytes n ! 0) < 128"
  using uint_form_uint_bytes [of n] by (simp add: uint_form_def)

lemma not_uint_bytes_head: "map NOT (uint_bytes n) \<noteq> [] \<and> 128 \<le> unat (map NOT (uint_bytes n) ! 0)"
  using uint_bytes_head [of n] byte_not_less [of "NOT (uint_bytes n ! 0)"] by simp

lemma int64_of_iff: "int64_of data = Some v \<longleftrightarrow> data = int_bytes (sint v)"
proof -
  have neg: "unat v < 2 ^ 63 \<longleftrightarrow> \<not> unat (NOT v) < 2 ^ 63"
    using unat_not [of v] by auto
  consider "data = []" | "data \<noteq> []" "unat (data ! 0) < 128" | "data \<noteq> []" "128 \<le> unat (data ! 0)"
    by linarith
  then show ?thesis
  proof cases
    case 1
    then show ?thesis using uint_bytes_head by (simp add: int64_of_def int_bytes_sint) metis
  next
    case 2
    then show ?thesis
      using not_uint_bytes_head [of "unat (NOT v)"] unfolding int64_of_pos [OF 2] int_bytes_sint
      by (metis leD)
  next
    case 3
    have "map NOT data = d \<longleftrightarrow> data = map NOT d" for d :: "byte list"
      by (auto simp: comp_def)
    then show ?thesis
      using 3 uint_bytes_head [of "unat v"] neg unfolding int64_of_neg [OF 3] int_bytes_sint
      by (metis leD)
  qed
qed

lemma CBS_get_asn1_int64_of:
  "CBS_get_asn1_int64 = and_then (CBS_get_asn1 CBS_ASN1_INTEGER)
    (\<lambda>data. case int64_of data of None \<Rightarrow> fail | Some v \<Rightarrow> return_val v)"
  unfolding CBS_get_asn1_int64_def int64_of_def Let_def
  by (rule arg_cong [where f = "and_then (CBS_get_asn1 CBS_ASN1_INTEGER)"]) (auto simp: fun_eq_iff)

lemma length_int_bytes: "length (int_bytes (sint v)) \<le> 8" for v :: uint64
  using int64_of_iff [of "int_bytes (sint v)" v] by (auto simp: int64_of_def Let_def split: if_splits)

lemma CBS_get_asn1_int64_iff:
  "CBS_get_asn1_int64 cbs = (Some v, rest) \<longleftrightarrow>
    cbs = der_element CBS_ASN1_INTEGER (int_bytes (sint v)) @ rest"
proof
  assume "CBS_get_asn1_int64 cbs = (Some v, rest)"
  then show "cbs = der_element CBS_ASN1_INTEGER (int_bytes (sint v)) @ rest"
    unfolding CBS_get_asn1_int64_of
    by (elim and_then_SomeE) (auto simp: CBS_get_asn1_iff int64_of_iff split: option.splits)
next
  assume "cbs = der_element CBS_ASN1_INTEGER (int_bytes (sint v)) @ rest"
  then have "CBS_get_asn1 CBS_ASN1_INTEGER cbs = (Some (int_bytes (sint v)), rest)"
    using length_int_bytes [of v] by (simp add: CBS_get_asn1_iff)
  moreover have "int64_of (int_bytes (sint v)) = Some v" by (simp add: int64_of_iff)
  ultimately show "CBS_get_asn1_int64 cbs = (Some v, rest)"
    by (simp add: CBS_get_asn1_int64_of)
qed

section \<open>Writing negative integers\<close>

lemma unat_int64_byte: "unat (int64_byte v i) = unat v div 256 ^ i mod 256"
  by (simp add: int64_byte_def unat_ucast_to_byte unat_drop power_mult)

lemma int64_byte_not: "i < 8 \<Longrightarrow> int64_byte (NOT v) i = NOT (int64_byte v i)"
  by (rule bit_word_eqI) (auto simp: int64_byte_def bit_simps)

lemma int64_bytes_loop_represents:
  assumes "represents c fs" and "length fs = Suc h" and "int64_bytes_loop c h v n = (True, c')"
  shows "represents c' (awrite h (be_bytes n (unat v)) fs)"
  using assms
proof (induction n arbitrary: c fs)
  case 0
  then have "awrite h [] fs = fs" using frames_split [of h fs] by (simp add: awrite_def)
  with 0 show ?case by simp
next
  case (Suc n)
  obtain c1 where 1: "CBB_add_bytes c h [int64_byte v n] = (True, c1)"
    and 2: "int64_bytes_loop c1 h v n = (True, c')"
    using Suc.prems(3) by (auto simp: CBB_add_u8_eq elim!: ok_then_True)
  have b: "int64_byte v n = word_of_nat (unat v div 256 ^ n)"
    by (simp add: word_unat_eq_iff unat_int64_byte unat_of_nat take_bit_eq_mod)
  have "represents c1 (awrite h [int64_byte v n] fs)"
    using CBB_add_bytes_represents(1) [OF Suc.prems(1) _ _ 1] Suc.prems(2) by (simp add: size_mod_def)
  from Suc.IH [OF this _ 2] Suc.prems(2) b show ?case by (simp add: be_bytes_Cons del: be_bytes.simps)
qed

text \<open>The leading bytes that \<open>int64_start\<close> skips are sign extension.\<close>

lemma int64_start_form:
  assumes "unat (NOT v) < 128 * 256 ^ s" and "s < 8"
  shows "uint_form (be_bytes (Suc (int64_start v s)) (unat (NOT v))) \<and>
    unat (NOT v) < 128 * 256 ^ int64_start v s \<and> int64_start v s \<le> s"
  using assms
proof (induction s)
  case 0
  then show ?case by (simp add: uint_form_def unat_ucast_to_byte)
next
  case (Suc s)
  let ?w = "NOT v"
  have hi: "int64_byte v (Suc s) = 0xff \<longleftrightarrow> int64_byte ?w (Suc s) = 0"
    using Suc.prems(2) unfolding byte_ff by (simp only: int64_byte_not byte_not_zero less_imp_le)
  have lo: "int64_byte v s AND 0x80 \<noteq> 0 \<longleftrightarrow> unat (int64_byte ?w s) < 128"
    using Suc.prems(2) by (simp add: int64_byte_not byte_not_less byte_high_bit)
  have q: "unat ?w div 256 ^ Suc s < 128"
    using Suc.prems(1) by (simp add: div_less_iff_less_mult)
  then have zero: "int64_byte ?w (Suc s) = 0 \<longleftrightarrow> unat ?w < 256 ^ Suc s"
    unfolding word_unat_eq_iff unat_int64_byte by (simp add: div_eq_0_iff)
  have b: "word_of_nat (unat ?w div 256 ^ n) = int64_byte ?w n" for n
    by (simp add: word_unat_eq_iff unat_int64_byte unat_of_nat take_bit_eq_mod)
  show ?case
  proof (cases "int64_byte ?w (Suc s) = 0 \<and> unat (int64_byte ?w s) < 128")
    case True
    then have "unat ?w div 256 ^ s < 256" using zero by (simp add: div_less_iff_less_mult)
    moreover have "unat ?w div 256 ^ s mod 256 < 128" using True by (simp only: unat_int64_byte)
    ultimately have "unat ?w div 256 ^ s < 128" by (metis mod_less)
    then have "unat ?w < 128 * 256 ^ s" by (simp only: div_less_iff_less_mult zero_less_power zero_less_numeral)
    with Suc True hi lo show ?thesis by auto
  next
    case False
    then have "int64_start v (Suc s) = Suc s" using hi lo by auto
    moreover have "unat (int64_byte ?w (Suc s)) < 128"
      using q unfolding unat_int64_byte by simp
    moreover have "be_bytes (Suc (Suc s)) (unat ?w) = int64_byte ?w (Suc s) # int64_byte ?w s # be_bytes s (unat ?w)"
      by (simp only: be_bytes_Cons b)
    ultimately show ?thesis
      using False Suc.prems(1) by (auto simp: uint_form_def simp del: be_bytes.simps)
  qed
qed

lemma be_bytes_not:
  fixes v :: uint64
  assumes "n \<le> 8"
  shows "be_bytes n (unat (NOT v)) = map NOT (be_bytes n (unat v))"
  using assms
proof (induction n)
  case (Suc n)
  have b: "word_of_nat (unat w div 256 ^ n) = int64_byte w n" for w
    by (simp add: word_unat_eq_iff unat_int64_byte unat_of_nat take_bit_eq_mod)
  show ?case using Suc int64_byte_not [of n v] by (simp add: be_bytes_Cons b del: be_bytes.simps)
qed simp

lemma negative_int_bytes:
  assumes "\<not> unat v < 2 ^ 63"
  shows "be_bytes (Suc (int64_start v 7)) (unat v) = int_bytes (sint v)"
proof -
  let ?n = "Suc (int64_start v 7)"
  have "unat (NOT v) < 128 * 256 ^ 7" using assms unat_not [of v] by simp
  from int64_start_form [OF this]
  have f: "uint_form (be_bytes ?n (unat (NOT v)))" "unat (NOT v) < 128 * 256 ^ int64_start v 7"
    "?n \<le> 8" by auto
  then have "be_bytes ?n (unat (NOT v)) = uint_bytes (unat (NOT v))"
    unfolding uint_bytes_iff be_nat_be_bytes by simp
  then have "map NOT (be_bytes ?n (unat v)) = uint_bytes (unat (NOT v))"
    using f(3) by (simp only: be_bytes_not)
  then have "map NOT (map NOT (be_bytes ?n (unat v))) = map NOT (uint_bytes (unat (NOT v)))" by simp
  then show ?thesis using assms by (simp add: int_bytes_sint comp_def del: be_bytes.simps)
qed

lemma CBB_add_asn1_int64_represents:
  assumes "represents cbb fs" and "h < length fs" and "CBB_add_asn1_int64 cbb h v = (True, cbb')"
  shows "represents cbb' (awrite h (der_element CBS_ASN1_INTEGER (int_bytes (sint v))) fs)"
proof (cases "unat v < 2 ^ 63")
  case True
  then have "CBB_add_asn1_uint64 cbb h v = (True, cbb')"
    using assms(3) by (simp add: CBB_add_asn1_int64_def sint_nonneg_iff)
  from CBB_add_asn1_uint64_represents [OF assms(1,2) this] True show ?thesis
    by (simp add: int_bytes_sint)
next
  case False
  let ?n = "Suc (int64_start v 7)"
  let ?gs = "aopen h Asn1 (awrite h (tag_bytes CBS_ASN1_INTEGER) fs)"
  have "\<not> 0 \<le> sint v" using False by (simp add: sint_nonneg_iff)
  then obtain c c2 where 1: "CBB_add_asn1 cbb h CBS_ASN1_INTEGER = (True, c)"
    and 2: "int64_bytes_loop c (Suc h) v ?n = (True, c2)" and 3: "CBB_flush c2 h = (True, cbb')"
    using assms(3) unfolding CBB_add_asn1_int64_def by (auto simp: Let_def elim!: ok_then_True simp del: int64_bytes_loop.simps)
  have r: "represents c ?gs" by (rule CBB_add_asn1_represents(1) [OF assms(1,2) 1])
  have "represents c2 (awrite (Suc h) (be_bytes ?n (unat v)) ?gs)"
    by (rule int64_bytes_loop_represents [OF r _ 2]) (use assms(2) in simp)
  from close_asn1_child(1) [OF assms(2) this 3]
  have "represents cbb' (awrite h (der_element CBS_ASN1_INTEGER (be_bytes ?n (unat v))) fs)" .
  moreover have "be_bytes ?n (unat v) = int_bytes (sint v)" by (rule negative_int_bytes [OF False])
  ultimately show ?thesis by simp
qed

end
