(* ===== verification/Codec.thy ===== *)
theory Codec
  imports Prelude
begin

text \<open>
  The contract between the code that writes a value and the code that reads it back. A \<open>codec\<close>
  reads what was written, whatever follows; a \<open>strict_codec\<close> reads nothing else, so every value
  has one encoding; a \<open>stream_codec\<close> also makes progress, so a sequence of encodings is read to
  its end in one way.
\<close>

section \<open>Reading back what was written\<close>

locale codec =
  fixes enc :: "'a \<Rightarrow> byte list" and dec :: "'a reader" and ok :: "'a \<Rightarrow> bool"
  assumes dec_enc: "ok x \<Longrightarrow> dec (enc x @ rest) = (Some x, rest)"
begin

lemma dec_enc_Nil: "ok x \<Longrightarrow> dec (enc x) = (Some x, [])"
  using dec_enc [of x "[]"] by simp

lemma prefix_free:
  assumes "ok x" and "ok y" and "enc x @ r = enc y @ s"
  shows "x = y \<and> r = s"
proof -
  have "(Some x, r) = (Some y, s)"
    using dec_enc [OF assms(1), of r] dec_enc [OF assms(2), of s] unfolding assms(3) by (rule box_equals [OF refl])
  then show ?thesis by simp
qed

lemma enc_inj: "inj_on enc {x. ok x}"
  using prefix_free [of _ _ "[]" "[]"] by (auto simp: inj_on_def)

end

section \<open>Reading nothing else\<close>

locale strict_codec = codec +
  assumes dec_only: "dec cs = (Some x, rest) \<Longrightarrow> ok x \<and> cs = enc x @ rest"
begin

lemma dec_iff: "dec cs = (Some x, rest) \<longleftrightarrow> ok x \<and> cs = enc x @ rest"
  using dec_only dec_enc by auto

lemma refuses: "fst (dec cs) = None \<longleftrightarrow> (\<nexists>x rest. ok x \<and> cs = enc x @ rest)"
proof -
  have "fst (dec cs) = None \<longleftrightarrow> (\<nexists>x rest. dec cs = (Some x, rest))"
    by (cases "dec cs") auto
  then show ?thesis by (simp add: dec_iff)
qed

end

section \<open>Sequences of encodings\<close>

locale stream_codec = strict_codec +
  assumes progress: "ok x \<Longrightarrow> enc x \<noteq> []"
begin

lemma dec_shorter: "dec cs = (Some x, rest) \<Longrightarrow> length rest < length cs"
  using dec_only progress by fastforce

lemma sequence_unique:
  assumes "concat (map enc xs) = concat (map enc ys)" and "\<forall>x \<in> set xs. ok x" and "\<forall>y \<in> set ys. ok y"
  shows "xs = ys"
  using assms
proof (induction xs arbitrary: ys)
  case Nil
  then show ?case using progress by (cases ys) auto
next
  case (Cons x xs)
  then obtain y ys' where ys: "ys = y # ys'" using progress by (cases ys) auto
  with Cons.prems prefix_free [of x y "concat (map enc xs)" "concat (map enc ys')"]
  have "x = y" and "concat (map enc xs) = concat (map enc ys')" by auto
  with Cons ys show ?case by auto
qed

end

text \<open>A loop that reads one item after another until the input is used up.\<close>

inductive reads_all :: "'a reader \<Rightarrow> cbs \<Rightarrow> 'a list \<Rightarrow> bool" for dec where
  reads_Nil: "reads_all dec [] []"
| reads_Cons: "dec cs = (Some x, rest) \<Longrightarrow> cs \<noteq> [] \<Longrightarrow> reads_all dec rest xs \<Longrightarrow> reads_all dec cs (x # xs)"

inductive_cases reads_all_NilE: "reads_all dec [] xs"
inductive_cases reads_all_ConsE: "reads_all dec cs (x # xs)"

context stream_codec begin

lemma reads_all_iff: "reads_all dec cs xs \<longleftrightarrow> cs = concat (map enc xs) \<and> (\<forall>x \<in> set xs. ok x)"
proof
  assume "reads_all dec cs xs"
  then show "cs = concat (map enc xs) \<and> (\<forall>x \<in> set xs. ok x)"
    by induction (use dec_only in auto)
next
  assume "cs = concat (map enc xs) \<and> (\<forall>x \<in> set xs. ok x)"
  then show "reads_all dec cs xs"
  proof (induction xs arbitrary: cs)
    case (Cons x xs)
    then show ?case
      using dec_enc [of x "concat (map enc xs)"] progress [of x]
      by (auto intro!: reads_Cons [where rest = "concat (map enc xs)"])
  qed (auto intro: reads_Nil)
qed

lemma reads_all_unique: "reads_all dec cs xs \<Longrightarrow> reads_all dec cs ys \<Longrightarrow> xs = ys"
  unfolding reads_all_iff using sequence_unique by auto

end

end
