(* ===== verification/CBS_Codecs.thy ===== *)
theory CBS_Codecs
  imports ASN1_Int Codec
begin

text \<open>
  The readers of \<open>cbs.c\<close> as codecs: each interpretation of the contracts of \<open>Codec\<close> shows that
  the reader accepts one encoding of each value and nothing else.
\<close>

section \<open>Byte swaps\<close>

lemma be_bytes_word: "be_bytes n (unat v) = map (\<lambda>i. ucast (drop_bit (8 * i) v)) (rev [0..<n])" for v :: "'a::len word"
proof (induction n)
  case (Suc n)
  have "word_of_nat (unat v div 256 ^ n) = (ucast (drop_bit (8 * n) v) :: byte)"
    by (simp add: word_unat_eq_iff unat_ucast_to_byte unat_drop unat_of_nat take_bit_eq_mod power_mult)
  with Suc show ?case by (simp add: be_bytes_Cons del: be_bytes.simps)
qed simp

lemma bit_beyond: "LENGTH('a) \<le> n \<Longrightarrow> \<not> bit (w :: 'a::len word) n"
  by (auto dest: bit_imp_le_length)

lemma upto_16: "[0..<16] =
   [0, 1, 2, 3, 4, 5, 6, 7, 8, 9, 10, 11, 12, 13, 14, 15]"
  by (simp add: upt_rec)

lemma upto_32: "[0..<32] =
   [0, 1, 2, 3, 4, 5, 6, 7, 8, 9, 10, 11, 12, 13, 14, 15, 16, 17, 18, 19, 20, 21, 22, 23, 24,
    25, 26, 27, 28, 29, 30, 31]"
  by (simp add: upt_rec)

lemma upto_64: "[0..<64] =
   [0, 1, 2, 3, 4, 5, 6, 7, 8, 9, 10, 11, 12, 13, 14, 15, 16, 17, 18, 19, 20, 21, 22, 23, 24,
    25, 26, 27, 28, 29, 30, 31, 32, 33, 34, 35, 36, 37, 38, 39, 40, 41, 42, 43, 44, 45, 46,
    47, 48, 49, 50, 51, 52, 53, 54, 55, 56, 57, 58, 59, 60, 61, 62, 63]"
  by (simp add: upt_rec)

lemma bswap4_bit:
  assumes "n < 32"
  shows "bit (CRYPTO_bswap4 v) n = bit v (8 * (3 - n div 8) + n mod 8)"
proof -
  have "\<forall>n \<in> set [0..<32]. bit (CRYPTO_bswap4 v) n = bit v (8 * (3 - n div 8) + n mod 8)"
    by (simp add: CRYPTO_bswap4_def Let_def bit_simps upto_32 bit_beyond del: set_upt) (simp add: numeral_2_eq_2)
  then show ?thesis using assms by simp
qed

lemma bswap8_bit:
  assumes "n < 64"
  shows "bit (CRYPTO_bswap8 v) n = bit v (8 * (7 - n div 8) + n mod 8)"
proof -
  have "\<forall>n \<in> set [0..<64]. bit (CRYPTO_bswap8 v) n = bit v (8 * (7 - n div 8) + n mod 8)"
    by (simp add: CRYPTO_bswap8_def bit_simps bswap4_bit upto_64 bit_beyond del: set_upt)
  then show ?thesis using assms by simp
qed

lemma bswap_byte:
  fixes w v :: "'a::len word"
  assumes "\<And>n. n < 8 * k \<Longrightarrow> bit w n = bit v (8 * (k - 1 - n div 8) + n mod 8)" and "LENGTH('a) = 8 * k"
  shows "be_bytes k (unat w) = rev (be_bytes k (unat v))"
proof (rule nth_equalityI)
  fix i assume "i < length (be_bytes k (unat w))"
  then have i: "i < k" by simp
  have "ucast (drop_bit (8 * (k - 1 - i)) w) = (ucast (drop_bit (8 * i) v) :: byte)"
  proof (rule bit_word_eqI)
    fix n assume n: "n < LENGTH(8)"
    have "8 * (k - 1 - i) + n < 8 * k" "(8 * (k - 1 - i) + n) div 8 = k - 1 - i" "(8 * (k - 1 - i) + n) mod 8 = n"
      using i n by auto
    with i n assms(1) [of "8 * (k - 1 - i) + n"]
    show "bit (ucast (drop_bit (8 * (k - 1 - i)) w) :: byte) n = bit (ucast (drop_bit (8 * i) v) :: byte) n"
      by (simp add: bit_simps assms(2))
  qed
  with i show "be_bytes k (unat w) ! i = rev (be_bytes k (unat v)) ! i"
    by (simp add: be_bytes_word rev_nth)
qed simp

lemma bswap2_bytes: "be_bytes 2 (unat (CRYPTO_bswap2 v)) = rev (be_bytes 2 (unat v))"
proof (rule bswap_byte)
  fix n :: nat assume n: "n < 8 * 2"
  have "\<forall>n \<in> set [0..<16]. bit (CRYPTO_bswap2 v) n = bit v (8 * (2 - 1 - n div 8) + n mod 8)"
    by (simp add: CRYPTO_bswap2_def bit_simps upto_16 bit_beyond del: set_upt) (simp add: numeral_2_eq_2)
  with n show "bit (CRYPTO_bswap2 v) n = bit v (8 * (2 - 1 - n div 8) + n mod 8)" by simp
qed simp

lemma bswap4_bytes: "be_bytes 4 (unat (CRYPTO_bswap4 v)) = rev (be_bytes 4 (unat v))"
  by (rule bswap_byte) (use bswap4_bit in \<open>simp_all\<close>)

lemma bswap8_bytes: "be_bytes 8 (unat (CRYPTO_bswap8 v)) = rev (be_bytes 8 (unat v))"
  by (rule bswap_byte) (use bswap8_bit in \<open>simp_all\<close>)

lemma be_bytes_word_inj:
  "be_bytes n (unat v) = be_bytes n (unat w) \<Longrightarrow> LENGTH('a) = 8 * n \<Longrightarrow> v = w" for v w :: "'a::len word"
  by (drule arg_cong [where f = be_nat])
    (use unsigned_less [of v, where ?'a = nat] unsigned_less [of w, where ?'a = nat] in
      \<open>simp add: be_nat_be_bytes power_mult word_unat_eq_iff\<close>)

lemma bswap2_invol: "CRYPTO_bswap2 (CRYPTO_bswap2 x) = x"
  by (rule be_bytes_word_inj [of 2]) (simp_all only: bswap2_bytes rev_rev_ident, simp)

lemma bswap4_invol: "CRYPTO_bswap4 (CRYPTO_bswap4 x) = x"
  by (rule be_bytes_word_inj [of 4]) (simp_all only: bswap4_bytes rev_rev_ident, simp)

lemma bswap8_invol: "CRYPTO_bswap8 (CRYPTO_bswap8 x) = x"
  by (rule be_bytes_word_inj [of 8]) (simp_all only: bswap8_bytes rev_rev_ident, simp)

section \<open>Fixed-width integers\<close>

lemma get_u_iff:
  assumes "n \<le> 8" and "8 * n \<le> LENGTH('a::len)" and "LENGTH('a) \<le> 64"
  shows "and_then (cbs_get_u n) (\<lambda>w. return_val (ucast w :: 'a word)) cs = (Some v, rest) \<longleftrightarrow>
    unat v < 256 ^ n \<and> cs = be_bytes n (unat v) @ rest" (is "?L \<longleftrightarrow> ?R")
proof
  assume ?L
  then obtain bs where bs: "cs = bs @ rest" "length bs = n" "v = ucast (be_value bs)"
    by (auto simp: and_then_apply cbs_get_u_Some split: prod.splits option.splits)
  have less: "be_nat bs < 256 ^ n" using be_nat_less [of bs] bs(2) by simp
  also have "(256::nat) ^ n \<le> 2 ^ LENGTH('a)"
    using power_increasing [OF assms(2), of "2::nat"] by (simp add: power_mult)
  finally have "unat v = be_nat bs"
    using unat_be_value_exact [of bs] assms(1) by (simp add: bs unsigned_ucast_eq take_bit_nat_eq_self)
  then show ?R using bs less be_bytes_be_nat [of bs] by simp
next
  assume R: ?R
  then have "cbs_get_u n cs = (Some (be_value (be_bytes n (unat v))), rest)"
    by (simp add: cbs_get_u_append)
  moreover have "ucast (be_value (be_bytes n (unat v))) = v"
    using R unat_be_value_exact [of "be_bytes n (unat v)"] assms(1) unsigned_less [of v, where ?'a = nat]
    by (simp add: word_unat_eq_iff unsigned_ucast_eq take_bit_nat_eq_self be_nat_be_bytes)
  ultimately show ?L by simp
qed

lemma get_u64_iff:
  "cbs_get_u 8 cs = (Some v, rest) \<longleftrightarrow> cs = be_bytes 8 (unat v) @ rest" for v :: uint64
proof -
  have "and_then (cbs_get_u 8) (\<lambda>w. return_val (ucast w :: uint64)) = cbs_get_u 8"
    by (auto simp: fun_eq_iff and_then_apply split: prod.splits option.splits)
  then show ?thesis
    using get_u_iff [of 8 cs v rest] unsigned_less [of v, where ?'a = nat] by simp
qed

lemma and_then_return_iff:
  assumes "\<And>x. g (f x) = x" and "\<And>x. f (g x) = x"
  shows "and_then m (\<lambda>v. return_val (f v)) cs = (Some v, rest) \<longleftrightarrow> m cs = (Some (g v), rest)"
  by (auto simp: and_then_apply assms split: prod.splits option.splits)

lemma prefixed_iff:
  assumes "n \<le> 8"
  shows "cbs_get_length_prefixed n cs = (Some body, rest) \<longleftrightarrow>
    length body < 256 ^ n \<and> cs = be_bytes n (length body) @ body @ rest" (is "?L \<longleftrightarrow> ?R")
proof
  assume ?L
  then obtain w c' where g: "cbs_get_u n cs = (Some w, c')" "cbs_get (unat w) c' = (Some body, rest)"
    by (auto simp: cbs_get_length_prefixed_def CBS_get_bytes_eq elim!: and_then_SomeE)
  then obtain v where v: "cs = v @ c'" "length v = n" "w = be_value v"
    by (auto simp: cbs_get_u_Some)
  have "unat w = be_nat v" using unat_be_value_exact [of v] v assms by simp
  with g(2) v have "c' = body @ rest" "length body = be_nat v" by (auto simp: cbs_get_Some)
  with v be_nat_less [of v] be_bytes_be_nat [of v] show ?R by simp
next
  assume R: ?R
  then have "cbs_get_u n cs = (Some (be_value (be_bytes n (length body))), body @ rest)"
    by (simp add: cbs_get_u_append)
  moreover have "unat (be_value (be_bytes n (length body))) = length body"
    using R unat_be_value_exact [of "be_bytes n (length body)"] assms by (simp add: be_nat_be_bytes)
  ultimately show ?L by (simp add: cbs_get_length_prefixed_def CBS_get_bytes_eq)
qed

lemma nonempty_bytes: "0 < n \<Longrightarrow> be_bytes n v \<noteq> []"
  by (metis length_be_bytes list.size(3) less_irrefl)

section \<open>The codecs of the byte reader\<close>

interpretation u8: stream_codec "\<lambda>b. [b]" CBS_get_u8 "\<lambda>_. True"
  by unfold_locales (simp_all add: CBS_get_u8_Some)

interpretation u16: stream_codec "\<lambda>v. be_bytes 2 (unat v)" CBS_get_u16 "\<lambda>_. True"
  using get_u_iff [where ?'a = 16 and n = 2] unsigned_less [where ?'a = nat and ?'b = 16]
  by unfold_locales (auto simp: CBS_get_u16_def nonempty_bytes simp del: be_bytes.simps)

interpretation u24: stream_codec "\<lambda>v. be_bytes 3 (unat v)" CBS_get_u24 "\<lambda>v. unat v < 2 ^ 24"
  using get_u_iff [where ?'a = 32 and n = 3]
  by unfold_locales (auto simp: CBS_get_u24_def nonempty_bytes simp del: be_bytes.simps)

interpretation u32: stream_codec "\<lambda>v. be_bytes 4 (unat v)" CBS_get_u32 "\<lambda>_. True"
  using get_u_iff [where ?'a = 32 and n = 4] unsigned_less [where ?'a = nat and ?'b = 32]
  by unfold_locales (auto simp: CBS_get_u32_def nonempty_bytes simp del: be_bytes.simps)

interpretation u64: stream_codec "\<lambda>v. be_bytes 8 (unat v)" CBS_get_u64 "\<lambda>_. True"
  by unfold_locales (auto simp: CBS_get_u64_def get_u64_iff nonempty_bytes simp del: be_bytes.simps)

lemma bswap2_swap: "be_bytes 2 (unat (CRYPTO_bswap2 v)) @ r = rev (be_bytes 2 (unat v)) @ r"
  by (simp only: bswap2_bytes)

interpretation u16le: stream_codec "\<lambda>v. rev (be_bytes 2 (unat v))" CBS_get_u16le "\<lambda>_. True"
proof -
  have "CBS_get_u16le cs = (Some v, rest) \<longleftrightarrow> cs = rev (be_bytes 2 (unat v)) @ rest" for cs v rest
    unfolding CBS_get_u16le_def and_then_return_iff [where f = CRYPTO_bswap2 and g = CRYPTO_bswap2, OF bswap2_invol bswap2_invol] u16.dec_iff bswap2_bytes by simp
  then show "stream_codec (\<lambda>v. rev (be_bytes 2 (unat v))) CBS_get_u16le (\<lambda>_. True)"
    by unfold_locales (auto simp: nonempty_bytes simp del: be_bytes.simps)
qed

interpretation u32le: stream_codec "\<lambda>v. rev (be_bytes 4 (unat v))" CBS_get_u32le "\<lambda>_. True"
proof -
  have "CBS_get_u32le cs = (Some v, rest) \<longleftrightarrow> cs = rev (be_bytes 4 (unat v)) @ rest" for cs v rest
    unfolding CBS_get_u32le_def and_then_return_iff [where f = CRYPTO_bswap4 and g = CRYPTO_bswap4, OF bswap4_invol bswap4_invol] u32.dec_iff bswap4_bytes by simp
  then show "stream_codec (\<lambda>v. rev (be_bytes 4 (unat v))) CBS_get_u32le (\<lambda>_. True)"
    by unfold_locales (auto simp: nonempty_bytes simp del: be_bytes.simps)
qed

interpretation u64le: stream_codec "\<lambda>v. rev (be_bytes 8 (unat v))" CBS_get_u64le "\<lambda>_. True"
proof -
  have "CBS_get_u64le cs = (Some v, rest) \<longleftrightarrow> cs = rev (be_bytes 8 (unat v)) @ rest" for cs v rest
    unfolding CBS_get_u64le_def and_then_return_iff [where f = CRYPTO_bswap8 and g = CRYPTO_bswap8, OF bswap8_invol bswap8_invol] get_u64_iff bswap8_bytes by simp
  then show "stream_codec (\<lambda>v. rev (be_bytes 8 (unat v))) CBS_get_u64le (\<lambda>_. True)"
    by unfold_locales (auto simp: nonempty_bytes simp del: be_bytes.simps)
qed

interpretation u8_prefixed: stream_codec "\<lambda>body. be_bytes 1 (length body) @ body"
  CBS_get_u8_length_prefixed "\<lambda>body. length body < 2 ^ 8"
  by unfold_locales (auto simp: CBS_get_u8_length_prefixed_def prefixed_iff nonempty_bytes simp del: be_bytes.simps)

interpretation u16_prefixed: stream_codec "\<lambda>body. be_bytes 2 (length body) @ body"
  CBS_get_u16_length_prefixed "\<lambda>body. length body < 2 ^ 16"
  by unfold_locales (auto simp: CBS_get_u16_length_prefixed_def prefixed_iff nonempty_bytes simp del: be_bytes.simps)

interpretation u24_prefixed: stream_codec "\<lambda>body. be_bytes 3 (length body) @ body"
  CBS_get_u24_length_prefixed "\<lambda>body. length body < 2 ^ 24"
  by unfold_locales (auto simp: CBS_get_u24_length_prefixed_def prefixed_iff nonempty_bytes simp del: be_bytes.simps)

lemma der_element_nonempty: "der_element tag body \<noteq> []"
  using length_der_header [of tag "length body"] by (auto simp: der_element_def)

interpretation base128: strict_codec "\<lambda>v. b128 (unat v)" parse_base128_integer "\<lambda>_. True"
  by unfold_locales (simp_all add: parse_base128_integer_iff)

interpretation asn1_tag: strict_codec tag_bytes parse_asn1_tag "\<lambda>_. True"
  by unfold_locales (simp_all add: parse_asn1_tag_iff)

interpretation element: stream_codec "\<lambda>(body, tag). der_element tag body" CBS_get_any_asn1
  "\<lambda>(body, tag). length body < 2 ^ 32"
  by unfold_locales (auto simp: CBS_get_any_asn1_iff der_element_nonempty)

interpretation asn1_body: stream_codec "der_element tag" "CBS_get_asn1 tag" "\<lambda>body. length body < 2 ^ 32" for tag
  by unfold_locales (auto simp: CBS_get_asn1_iff der_element_nonempty)

interpretation asn1_uint64: stream_codec "\<lambda>v. der_element CBS_ASN1_INTEGER (uint_bytes (unat v))"
  CBS_get_asn1_uint64 "\<lambda>_. True"
  by unfold_locales (auto simp: CBS_get_asn1_uint64_iff der_element_nonempty)

interpretation asn1_int64: stream_codec "\<lambda>v. der_element CBS_ASN1_INTEGER (int_bytes (sint v))"
  CBS_get_asn1_int64 "\<lambda>_. True"
  by unfold_locales (auto simp: CBS_get_asn1_int64_iff der_element_nonempty)

definition bool_bytes :: "bool \<Rightarrow> byte list" where
  "bool_bytes b = [if b then 0xff else 0]"

lemma CBS_get_asn1_bool_iff:
  "CBS_get_asn1_bool cs = (Some b, rest) \<longleftrightarrow> cs = der_element CBS_ASN1_BOOLEAN (bool_bytes b) @ rest"
proof
  assume "CBS_get_asn1_bool cs = (Some b, rest)"
  then obtain body c' where g: "CBS_get_asn1 CBS_ASN1_BOOLEAN cs = (Some body, c')"
    "length body = 1" "body ! 0 = 0 \<or> body ! 0 = 0xff" "b = (body ! 0 \<noteq> 0)" "c' = rest"
    by (auto simp: CBS_get_asn1_bool_def CBS_len_def CBS_data_def Let_def elim!: and_then_SomeE split: if_splits)
  then obtain x where "body = [x]" by (cases body) auto
  with g have "body = bool_bytes b" by (auto simp: bool_bytes_def)
  with g(1,5) show "cs = der_element CBS_ASN1_BOOLEAN (bool_bytes b) @ rest" by (simp add: CBS_get_asn1_iff)
next
  assume "cs = der_element CBS_ASN1_BOOLEAN (bool_bytes b) @ rest"
  then have "CBS_get_asn1 CBS_ASN1_BOOLEAN cs = (Some (bool_bytes b), rest)"
    by (simp add: CBS_get_asn1_iff bool_bytes_def)
  then show "CBS_get_asn1_bool cs = (Some b, rest)"
    by (simp add: CBS_get_asn1_bool_def bool_bytes_def CBS_len_def CBS_data_def Let_def)
qed

interpretation asn1_bool: stream_codec "\<lambda>b. der_element CBS_ASN1_BOOLEAN (bool_bytes b)"
  CBS_get_asn1_bool "\<lambda>_. True"
  by unfold_locales (auto simp: CBS_get_asn1_bool_iff der_element_nonempty)

end
