(* ===== verification/CBB_Total.thy ===== *)
theory CBB_Total
  imports CBS_Codecs
begin

text \<open>
  The converse of the refinement: a writer of \<open>cbb.c\<close> does not fail while the output has room.
  Room is a bound \<open>N\<close> on the bytes in the buffer: the capacity of a fixed buffer, or any \<open>N\<close>
  below \<open>2 ^ 64\<close> for a buffer that may grow while the allocator delivers.
\<close>

section \<open>Capacity\<close>

definition capacity :: "cbb \<Rightarrow> nat \<Rightarrow> bool" where
  "capacity cbb N \<longleftrightarrow> N < size_mod \<and>
     (\<exists>b. cbb_base cbb = Some b \<and> (base_can_resize b \<and> base_oom b = [] \<or> N \<le> base_cap b))"

lemma capacity_roomy:
  assumes "capacity cbb N" and "cbb_base cbb = Some b" and "length (base_buf b) + n \<le> N"
  shows "roomy b n"
  using assms by (auto simp: capacity_def roomy_def)

lemma roomy_capacity:
  assumes "roomy b (N - length (base_buf b))" and "length (base_buf b) \<le> N"
  shows "capacity \<lparr>cbb_base = Some b, children = cs\<rparr> N"
  using assms by (auto simp: capacity_def roomy_def)

lemma CBB_flush_total:
  assumes rep: "represents c fs" and cap: "capacity c N" and h: "h < length fs"
    and fit: "all_fit (drop (Suc h) fs)" and len: "length (raw (aflush h fs)) \<le> N"
  shows "\<exists>c'. CBB_flush c h = (True, c') \<and> capacity c' N"
proof -
  obtain b where b: "cbb_base c = Some b" "buf_ok b"
    "base_buf b = raw (take (Suc h) fs) @ raw (drop (Suc h) fs)"
    "drop h (children c) = layout (length (raw (take (Suc h) fs))) (drop (Suc h) fs)"
    "kinds_ok (drop (Suc h) fs)" "h \<le> length (children c)"
    by (rule represents_base [OF rep h]) blast
  let ?p = "raw (take (Suc h) fs)" and ?fs = "drop (Suc h) fs"
  let ?m = "N - length (raw (aflush h fs))"
  have le: "length (raw ?fs) \<le> length (render ?fs)" by (rule length_raw_render [OF b(5)])
  have "roomy b (length (render ?fs) - length (raw ?fs) + ?m)"
    by (rule capacity_roomy [OF cap b(1)]) (use le len in \<open>simp add: b(3) raw_aflush [OF h]\<close>)
  from flush_chain_roomy [OF b(3,2,5) fit this]
  obtain b' where b': "flush_chain b (layout (length ?p) ?fs) = (True, b', [])" "roomy b' ?m" by auto
  have eq: "CBB_flush c h = (True, \<lparr>cbb_base = Some b', children = take h (children c)\<rparr>)"
    using b b' by (simp add: CBB_flush_def)
  from CBB_flush_represents [OF rep h eq] have "base_buf b' = raw (aflush h fs)"
    by (auto simp: represents_def)
  then have "capacity \<lparr>cbb_base = Some b', children = take h (children c)\<rparr> N"
    using b'(2) len by (intro roomy_capacity) auto
  with eq show ?thesis by blast
qed

lemma on_base_total:
  assumes rep: "represents c fs" and cap: "capacity c N" and len: "length (raw fs) + length bs \<le> N"
  shows "\<exists>c'. on_base c (\<lambda>b. cbb_buffer_add b bs) = (True, c') \<and> capacity c' N"
proof -
  obtain b where b: "cbb_base c = Some b" "buf_ok b" "base_buf b = raw fs"
    using rep by (auto simp: represents_def)
  have "roomy b (length bs + (N - length (raw fs) - length bs))"
    by (rule capacity_roomy [OF cap b(1)]) (use len b(3) in simp)
  from cbb_buffer_add_roomy [OF b(2) this] obtain b' where
    b': "cbb_buffer_add (Some b) bs = (True, Some b')" "roomy b' (N - length (raw fs) - length bs)" by blast
  have "length bs < size_mod" using len cap by (auto simp: capacity_def)
  from cbb_buffer_add_True [OF b'(1) b(2) this] have "base_buf b' = raw fs @ bs" using b(3) by auto
  then have "capacity \<lparr>cbb_base = Some b', children = children c\<rparr> N"
    using b'(2) len by (intro roomy_capacity) auto
  with b b'(1) show ?thesis by (simp add: on_base_def capacity_def)
qed

lemma raw_awrite: "h < length fs \<Longrightarrow> raw (awrite h bs fs) = raw (aflush h fs) @ bs"
  by (simp add: awrite_def aflush_def raw_append)

lemma CBB_add_bytes_total:
  assumes rep: "represents c fs" and cap: "capacity c N" and h: "h < length fs"
    and fit: "all_fit (drop (Suc h) fs)" and len: "length (raw (awrite h bs fs)) \<le> N"
  shows "\<exists>c'. CBB_add_bytes c h bs = (True, c') \<and> capacity c' N"
proof -
  have "length (raw (aflush h fs)) \<le> N" using len by (simp add: raw_awrite [OF h])
  from CBB_flush_total [OF rep cap h fit this] obtain c1 where
    c1: "CBB_flush c h = (True, c1)" "capacity c1 N" by blast
  from CBB_flush_represents [OF rep h c1(1)] have "represents c1 (aflush h fs)" by simp
  from on_base_total [OF this c1(2), of bs] len c1(1) show ?thesis
    by (auto simp: CBB_add_bytes_def ok_then_def raw_awrite [OF h])
qed

lemma cbb_add_u_total:
  assumes rep: "represents c fs" and cap: "capacity c N" and h: "h < length fs" and "0 < n"
    and fit: "all_fit (drop (Suc h) fs)" and len: "length (raw (aflush h fs)) + n \<le> N"
    and v: "unat v < 256 ^ n"
  shows "\<exists>c'. cbb_add_u c h v n = (True, c') \<and> capacity c' N"
proof -
  have "length (raw (awrite h (be_bytes n (unat v)) fs)) \<le> N" using len by (simp add: raw_awrite [OF h])
  from CBB_add_bytes_total [OF rep cap h fit this] obtain c' where
    c': "CBB_add_bytes c h (be_bytes n (unat v)) = (True, c')" "capacity c' N" by blast
  then obtain c1 where c1: "CBB_flush c h = (True, c1)"
    "on_base c1 (\<lambda>b. cbb_buffer_add b (be_bytes n (unat v))) = (True, c')"
    by (auto simp: CBB_add_bytes_def elim!: ok_then_True)
  have "drop_bit (8 * n) v = 0"
    using v by (simp add: word_unat_eq_iff unat_drop power_mult)
  with c1(2) have "on_base c1 (\<lambda>b. cbb_buffer_add_u b v n) = (True, c')"
    using assms(4) by (auto simp: on_base_def cbb_buffer_add_u_def be_store_eq split: prod.splits)
  with c1 c'(2) show ?thesis by (simp add: cbb_add_u_def ok_then_def)
qed

text \<open>
  \<open>delivers N f fs fs'\<close>: with room for \<open>N\<close> bytes the operation succeeds and takes the frames from
  \<open>fs\<close> to \<open>fs'\<close>.
\<close>

definition delivers :: "nat \<Rightarrow> (cbb \<Rightarrow> bool \<times> cbb) \<Rightarrow> frame list \<Rightarrow> frame list \<Rightarrow> bool" where
  "delivers N f fs fs' \<longleftrightarrow> (\<forall>c. represents c fs \<longrightarrow> capacity c N \<longrightarrow>
     (\<exists>c'. f c = (True, c') \<and> represents c' fs' \<and> capacity c' N))"

lemma delivers_then:
  assumes "delivers N f fs fs1" and "delivers N g fs1 fs2"
  shows "delivers N (\<lambda>c. ok_then (f c) g) fs fs2"
  using assms unfolding delivers_def ok_then_def by fastforce

lemma deliversE:
  assumes "delivers N f fs fs'" and "represents c fs" and "capacity c N"
  obtains c' where "f c = (True, c')" and "represents c' fs'" and "capacity c' N"
  using assms unfolding delivers_def by blast

lemma delivers_flush:
  assumes "h < length fs" and "all_fit (drop (Suc h) fs)" and "length (raw (aflush h fs)) \<le> N"
  shows "delivers N (\<lambda>c. CBB_flush c h) fs (aflush h fs)"
  unfolding delivers_def using CBB_flush_total [OF _ _ assms] CBB_flush_represents [OF _ assms(1)] by blast

lemma delivers_bytes:
  assumes "h < length fs" and "all_fit (drop (Suc h) fs)" and "length (raw (awrite h bs fs)) \<le> N"
  shows "delivers N (\<lambda>c. CBB_add_bytes c h bs) fs (awrite h bs fs)"
proof (unfold delivers_def, intro allI impI)
  fix c assume c: "represents c fs" "capacity c N"
  then have "length bs < size_mod" using assms(3) by (simp add: raw_awrite [OF assms(1)] capacity_def)
  with CBB_add_bytes_total [OF c assms] CBB_add_bytes_represents(1) [OF c(1) assms(1)]
  show "\<exists>c'. CBB_add_bytes c h bs = (True, c') \<and> represents c' (awrite h bs fs) \<and> capacity c' N" by blast
qed

lemma delivers_id: "delivers N (\<lambda>c. (True, c)) fs fs"
  by (simp add: delivers_def)

lemma awrite_Nil: "length fs = Suc h \<Longrightarrow> awrite h [] fs = fs"
  using frames_split [of h fs] by (simp add: awrite_def)

lemma aflush_self: "length fs = Suc h \<Longrightarrow> aflush h fs = fs"
  using frames_split [of h fs] by (simp add: aflush_def)

lemma delivers_open:
  assumes "length fs = Suc h" and "0 < plen k" and "length (raw fs) + plen k \<le> N"
  shows "delivers N (\<lambda>c. ok_then (on_base c (\<lambda>b. cbb_buffer_add b (replicate (plen k) 0)))
      (\<lambda>c'. (True, add_child c' h \<lparr>offset = buffer_len c, pending_len_len = plen k, pending_is_asn1 = (k = Asn1)\<rparr>)))
    fs (fs @ [(k, [])])"
proof (unfold delivers_def, intro allI impI)
  fix c assume c: "represents c fs" "capacity c N"
  from on_base_total [OF c, of "replicate (plen k) 0"] assms(3) obtain c' where
    c': "on_base c (\<lambda>b. cbb_buffer_add b (replicate (plen k) 0)) = (True, c')" "capacity c' N" by auto
  have "plen k < size_mod" using assms(3) c(2) by (simp add: capacity_def)
  from represents_open [OF c(1) assms(1,2) this c'(1)] c'
  show "\<exists>c''. ok_then (on_base c (\<lambda>b. cbb_buffer_add b (replicate (plen k) 0)))
      (\<lambda>c'. (True, add_child c' h \<lparr>offset = buffer_len c, pending_len_len = plen k, pending_is_asn1 = (k = Asn1)\<rparr>)) = (True, c'') \<and>
    represents c'' (fs @ [(k, [])]) \<and> capacity c'' N"
    by (simp add: ok_then_def add_child_def capacity_def)
qed

lemma delivers_prefixed:
  assumes "h < length fs" and "0 < n" and "all_fit (drop (Suc h) fs)" and "length (raw (aopen h (Plain n) fs)) \<le> N"
  shows "delivers N (\<lambda>c. cbb_add_length_prefixed c h n) fs (aopen h (Plain n) fs)"
proof -
  have 1: "delivers N (\<lambda>c. CBB_flush c h) fs (aflush h fs)"
    using assms by (intro delivers_flush) (simp_all add: aopen_def raw_append)
  have "length (aflush h fs) = Suc h" using assms(1) by simp
  from delivers_open [OF this, of "Plain n" N] assms
  have "delivers N (\<lambda>c. ok_then (on_base c (\<lambda>b. cbb_buffer_add b (replicate n 0)))
      (\<lambda>c'. (True, add_child c' h \<lparr>offset = buffer_len c, pending_len_len = n, pending_is_asn1 = False\<rparr>)))
    (aflush h fs) (aopen h (Plain n) fs)"
    by (simp add: aopen_def raw_append)
  from delivers_then [OF 1 this] show ?thesis
    unfolding cbb_add_length_prefixed_def Let_def .
qed

lemma delivers_base128_loop:
  assumes "length fs = Suc h" and "length (raw (awrite h (b128_bytes n (unat v)) fs)) \<le> N"
  shows "delivers N (\<lambda>c. add_base128_loop c h v n) fs (awrite h (b128_bytes n (unat v)) fs)"
  using assms
proof (induction n arbitrary: fs)
  case 0
  then show ?case by (simp add: delivers_id awrite_Nil)
next
  case (Suc i)
  let ?b = "word_of_nat (unat v div 128 ^ i mod 128 + (if i \<noteq> 0 then 128 else 0)) :: byte"
  have 1: "delivers N (\<lambda>c. CBB_add_bytes c h [?b]) fs (awrite h [?b] fs)"
    using Suc.prems by (intro delivers_bytes) (auto simp: raw_awrite)
  have 2: "delivers N (\<lambda>c. add_base128_loop c h v i) (awrite h [?b] fs) (awrite h (b128_bytes i (unat v)) (awrite h [?b] fs))"
    using Suc.prems by (intro Suc.IH) auto
  from delivers_then [OF 1 2] Suc.prems(1) show ?case
    unfolding add_base128_loop.simps CBB_add_u8_eq b128_byte [unfolded Let_def] Let_def by simp
qed

lemma base128_count_digits: "(if base128_count v = 0 then 1 else base128_count v) = base_len 128 (unat v)"
proof (cases "v = 0")
  case True
  then show ?thesis by (simp add: base128_count.simps base_len.simps)
next
  case False
  with base128_count_eq [OF False] base_len_pos [of 128 "unat v"] show ?thesis by simp
qed

lemma delivers_base128:
  assumes "length fs = Suc h" and "length (raw (awrite h (b128 (unat v)) fs)) \<le> N"
  shows "delivers N (\<lambda>c. add_base128_integer c h v) fs (awrite h (b128 (unat v)) fs)"
  using delivers_base128_loop [of fs h "base_len 128 (unat v)" v N] assms
  unfolding add_base128_integer_def Let_def base128_count_digits b128_def by simp


lemma tag_forms:
  fixes tag :: uint32
  defines "bits \<equiv> (ucast (drop_bit 24 tag) :: byte) AND 0xe0" and "n \<equiv> tag AND CBS_ASN1_TAG_NUMBER_MASK"
  shows "tag_bytes tag = (if n \<ge> 0x1f then (bits OR 0x1f) # b128 (unat (ucast n :: uint64)) else [bits OR ucast n])"
proof -
  let ?c = "unat tag div 2 ^ 29" and ?m = "unat tag mod 2 ^ 29"
  have n: "unat n = ?m" using tag_bits_number(2) [of 0 tag] by (simp add: n_def)
  show ?thesis
  proof (cases "?m < 31")
    case True
    then have "unat (ucast n :: byte) = ?m" by (simp add: unat_ucast_to_byte n)
    with True have "bits OR ucast n = word_of_nat (?c * 32 + ?m)"
      using tag_bits_number(1) [of "ucast n" tag] by (simp add: bits_def)
    moreover have "\<not> n \<ge> 0x1f" using True n by (simp add: word_le_nat_alt)
    ultimately show ?thesis using True by (simp add: tag_bytes_def Let_def)
  next
    case False
    have "bits OR 0x1f = word_of_nat (?c * 32 + 31)"
      using tag_bits_number(1) [of "0x1f" tag] by (simp add: bits_def)
    moreover have "unat (ucast n :: uint64) = ?m"
      using n by (simp add: unsigned_ucast_eq take_bit_nat_eq_self)
    moreover have "n \<ge> 0x1f" using False n by (simp add: word_le_nat_alt)
    ultimately show ?thesis using False by (simp add: tag_bytes_def Let_def)
  qed
qed

lemma delivers_tag:
  assumes "length fs = Suc h" and "length (raw (awrite h (tag_bytes tag) fs)) \<le> N"
  shows "delivers N (\<lambda>c. if tag AND CBS_ASN1_TAG_NUMBER_MASK \<ge> 0x1f then
        ok_then (CBB_add_u8 c h ((ucast (drop_bit CBS_ASN1_TAG_SHIFT tag) AND 0xe0) OR 0x1f))
          (\<lambda>c'. add_base128_integer c' h (ucast (tag AND CBS_ASN1_TAG_NUMBER_MASK)))
      else CBB_add_u8 c h ((ucast (drop_bit CBS_ASN1_TAG_SHIFT tag) AND 0xe0) OR ucast (tag AND CBS_ASN1_TAG_NUMBER_MASK)))
    fs (awrite h (tag_bytes tag) fs)"
proof (cases "tag AND CBS_ASN1_TAG_NUMBER_MASK \<ge> 0x1f")
  case True
  let ?b = "(ucast (drop_bit CBS_ASN1_TAG_SHIFT tag) AND 0xe0) OR 0x1f :: byte"
  let ?n = "ucast (tag AND CBS_ASN1_TAG_NUMBER_MASK) :: uint64"
  have t: "tag_bytes tag = ?b # b128 (unat ?n)" using tag_forms [of tag] True by simp
  have 1: "delivers N (\<lambda>c. CBB_add_bytes c h [?b]) fs (awrite h [?b] fs)"
    using assms by (intro delivers_bytes) (auto simp: raw_awrite t)
  have 2: "delivers N (\<lambda>c. add_base128_integer c h ?n) (awrite h [?b] fs) (awrite h (tag_bytes tag) fs)"
    using delivers_base128 [of "awrite h [?b] fs" h ?n N] assms by (simp add: t)
  from delivers_then [OF 1 2] True show ?thesis unfolding CBB_add_u8_eq by simp
next
  case False
  then have "tag_bytes tag = [(ucast (drop_bit CBS_ASN1_TAG_SHIFT tag) AND 0xe0) OR ucast (tag AND CBS_ASN1_TAG_NUMBER_MASK)]"
    using tag_forms [of tag] by simp
  with False delivers_bytes [of h fs _ N] assms show ?thesis by (simp add: CBB_add_u8_eq)
qed

lemma delivers_asn1:
  assumes "h < length fs" and "all_fit (drop (Suc h) fs)"
    and "length (raw (aopen h Asn1 (awrite h (tag_bytes tag) fs))) \<le> N"
  shows "delivers N (\<lambda>c. CBB_add_asn1 c h tag) fs (aopen h Asn1 (awrite h (tag_bytes tag) fs))"
proof -
  let ?ts = "awrite h (tag_bytes tag) fs"
  have len: "length (aflush h fs) = Suc h" "length ?ts = Suc h" using assms(1) by simp_all
  have N: "length (raw ?ts) + 1 \<le> N" using assms by (simp add: aopen_def raw_append)
  have 1: "delivers N (\<lambda>c. CBB_flush c h) fs (aflush h fs)"
    using assms N by (intro delivers_flush) (simp_all add: raw_awrite)
  have 2: "delivers N (\<lambda>c. if tag AND CBS_ASN1_TAG_NUMBER_MASK \<ge> 0x1f then
        ok_then (CBB_add_u8 c h ((ucast (drop_bit CBS_ASN1_TAG_SHIFT tag) AND 0xe0) OR 0x1f))
          (\<lambda>c'. add_base128_integer c' h (ucast (tag AND CBS_ASN1_TAG_NUMBER_MASK)))
      else CBB_add_u8 c h ((ucast (drop_bit CBS_ASN1_TAG_SHIFT tag) AND 0xe0) OR ucast (tag AND CBS_ASN1_TAG_NUMBER_MASK)))
    (aflush h fs) ?ts"
    using delivers_tag [OF len(1), of tag N] N assms(1) by simp
  have zero: "CBB_add_u8 c h 0 = on_base c (\<lambda>b. cbb_buffer_add b (replicate (plen Asn1) 0))"
    if "represents c ?ts" for c
    using CBB_flush_noop [OF that len(2)] by (simp add: CBB_add_u8_eq CBB_add_bytes_def ok_then_def)
  have 3: "delivers N (\<lambda>c. ok_then (CBB_add_u8 c h 0)
      (\<lambda>c'. (True, add_child c' h \<lparr>offset = buffer_len c, pending_len_len = 1, pending_is_asn1 = True\<rparr>)))
    ?ts (?ts @ [(Asn1, [])])"
    using delivers_open [OF len(2), of Asn1 N] N zero by (simp add: delivers_def)
  have "aopen h Asn1 ?ts = ?ts @ [(Asn1, [])]" using assms(1) by (simp add: aopen_def)
  with delivers_then [OF 1 delivers_then [OF 2 3]] show ?thesis
    unfolding CBB_add_asn1_def Let_def by simp
qed

lemma awrite_new: "length xs = n \<Longrightarrow> awrite n body (xs @ [(k, s)]) = xs @ [(k, s @ body)]"
  by (simp add: awrite_def nth_append)

lemma delivers_asn1_body:
  assumes h: "h < length fs" and fit: "all_fit (drop (Suc h) fs)" and body: "length body \<le> 0xfffffffe"
    and N: "length (raw (awrite h (der_element tag body) fs)) \<le> N"
    and f: "\<And>gs. length gs = Suc (Suc h) \<Longrightarrow> length (raw (awrite (Suc h) body gs)) \<le> N \<Longrightarrow>
      delivers N f gs (awrite (Suc h) body gs)"
  shows "delivers N (\<lambda>c. ok_then (CBB_add_asn1 c h tag) (\<lambda>c. ok_then (f c) (\<lambda>c'. CBB_flush c' h)))
    fs (awrite h (der_element tag body) fs)"
proof -
  let ?ts = "awrite h (tag_bytes tag) fs"
  let ?gs = "aopen h Asn1 ?ts"
  have opened: "?gs = ?ts @ [(Asn1, [])]" using h by (simp add: aopen_def)
  have "1 \<le> length (len_bytes (length body))" by (simp add: len_bytes_def)
  then have le: "length (raw ?ts) + 1 + length body \<le> N"
    using N by (simp add: raw_awrite [OF h] der_element_def der_header_def)
  have gs: "awrite (Suc h) body ?gs = ?ts @ [(Asn1, body)]"
    using h unfolding opened by (simp add: awrite_new)
  have 1: "delivers N (\<lambda>c. CBB_add_asn1 c h tag) fs ?gs"
    by (rule delivers_asn1 [OF h fit]) (use le in \<open>simp add: opened raw_append\<close>)
  have 2: "delivers N f ?gs (awrite (Suc h) body ?gs)"
    by (rule f) (use h le in \<open>simp_all add: gs raw_append\<close>)
  have "drop (Suc h) (awrite (Suc h) body ?gs) = [(Asn1, body)]" using h by (simp add: gs)
  then have 3: "delivers N (\<lambda>c. CBB_flush c h) (awrite (Suc h) body ?gs) (awrite h (der_element tag body) fs)"
    using delivers_flush [of h "awrite (Suc h) body ?gs" N] h body N
    by (simp add: aflush_aopen_awrite [OF h])
  show ?thesis by (rule delivers_then [OF 1 delivers_then [OF 2 3]])
qed

lemma delivers_octet_string:
  assumes "h < length fs" and "all_fit (drop (Suc h) fs)" and "length data \<le> 0xfffffffe"
    and "length (raw (awrite h (der_element CBS_ASN1_OCTETSTRING data) fs)) \<le> N"
  shows "delivers N (\<lambda>c. CBB_add_asn1_octet_string c h data) fs (awrite h (der_element CBS_ASN1_OCTETSTRING data) fs)"
  unfolding CBB_add_asn1_octet_string_def Suc_eq_plus1 [symmetric]
  by (rule delivers_asn1_body [OF assms(1,2,3,4)], rule delivers_bytes) simp_all

lemma delivers_bool:
  assumes "h < length fs" and "all_fit (drop (Suc h) fs)"
    and "length (raw (awrite h (der_element CBS_ASN1_BOOLEAN (bool_bytes (value \<noteq> 0))) fs)) \<le> N"
  shows "delivers N (\<lambda>c. CBB_add_asn1_bool c h value) fs (awrite h (der_element CBS_ASN1_BOOLEAN (bool_bytes (value \<noteq> 0))) fs)"
  unfolding CBB_add_asn1_bool_def CBB_add_u8_eq Suc_eq_plus1 [symmetric]
  by (rule delivers_asn1_body [OF assms(1,2) _ assms(3)])
    (simp_all add: bool_bytes_def delivers_bytes)

lemma asn1_byte_nat: "unat (ucast (drop_bit (8 * r) v AND 0xff) :: byte) = unat v div 256 ^ r mod 256" for v :: uint64
  by (simp add: asn1_byte unat_of_nat take_bit_eq_mod)

lemma loop_started_total:
  assumes "length fs = Suc h" and "length (raw (awrite h (be_bytes r (unat v)) fs)) \<le> N"
    and "represents c fs" and "capacity c N"
  shows "\<exists>c'. asn1_uint64_loop c h v r True = ((True, True), c') \<and> capacity c' N"
  using assms
proof (induction r arbitrary: c fs)
  case (Suc r)
  let ?b = "word_of_nat (unat v div 256 ^ r) :: byte"
  have "delivers N (\<lambda>c. CBB_add_bytes c h [?b]) fs (awrite h [?b] fs)"
    using Suc.prems by (intro delivers_bytes) (auto simp: raw_awrite be_bytes_Cons simp del: be_bytes.simps)
  with Suc.prems(3,4) obtain c1 where 1: "CBB_add_bytes c h [?b] = (True, c1)"
    "represents c1 (awrite h [?b] fs)" "capacity c1 N" by (auto simp: delivers_def)
  with Suc.IH [of "awrite h [?b] fs" c1] Suc.prems(1,2)
  obtain c2 where "asn1_uint64_loop c1 h v r True = ((True, True), c2)" "capacity c2 N"
    by (auto simp: be_bytes_Cons simp del: be_bytes.simps)
  with 1 show ?case by (auto simp: asn1_byte CBB_add_u8_eq)
qed simp

lemma loop_fresh_total:
  assumes "length fs = Suc h" and "unat v mod 256 ^ r = 0 \<or> length (raw (awrite h (uint_bytes (unat v mod 256 ^ r)) fs)) \<le> N"
    and "represents c fs" and "capacity c N"
  shows "\<exists>c'. asn1_uint64_loop c h v r False = ((True, unat v mod 256 ^ r \<noteq> 0), c') \<and> capacity c' N"
  using assms
proof (induction r)
  case (Suc r)
  let ?d = "unat v div 256 ^ r mod 256"
  let ?b = "word_of_nat (unat v div 256 ^ r) :: byte"
  have b: "unat ?b = ?d" by (simp add: unat_of_nat take_bit_eq_mod)
  have split: "unat v mod 256 ^ Suc r = ?d * 256 ^ r + unat v mod 256 ^ r"
    by (metis mod_mult2_eq mult.commute power_Suc add.commute)
  show ?case
  proof (cases "?d = 0")
    case True
    then have "?b = 0" using b by (simp add: word_unat_eq_iff)
    with Suc True split show ?thesis by (simp add: asn1_byte)
  next
    case False
    let ?z = "if 128 \<le> ?d then [0] else [] :: byte list"
    note u = uint_bytes_split [OF False]
    have N: "length (raw (awrite h (?z @ ?b # be_bytes r (unat v)) fs)) \<le> N"
      using Suc.prems(2) u by auto
    have 1: "delivers N (\<lambda>c. if 128 \<le> ?d then CBB_add_bytes c h [0] else (True, c)) fs (awrite h ?z fs)"
      using Suc.prems(1) N by (cases "128 \<le> ?d") (auto simp: raw_awrite delivers_id awrite_Nil intro!: delivers_bytes)
    have 2: "delivers N (\<lambda>c. CBB_add_bytes c h [?b]) (awrite h ?z fs) (awrite h [?b] (awrite h ?z fs))"
      using Suc.prems(1) N by (intro delivers_bytes; simp add: raw_awrite)
    obtain c1 where c1: "(if 128 \<le> ?d then CBB_add_bytes c h [0] else (True, c)) = (True, c1)"
      "represents c1 (awrite h ?z fs)" "capacity c1 N"
      by (rule deliversE [OF 1 Suc.prems(3,4)])
    obtain c2 where c2: "CBB_add_bytes c1 h [?b] = (True, c2)"
      "represents c2 (awrite h [?b] (awrite h ?z fs))" "capacity c2 N"
      by (rule deliversE [OF 2 c1(2,3)])
    have "\<exists>c'. asn1_uint64_loop c2 h v r True = ((True, True), c') \<and> capacity c' N"
      by (rule loop_started_total [OF _ _ c2(2,3)]) (use Suc.prems(1) N in simp_all)
    moreover have "?b \<noteq> 0" using False b by (auto simp: word_unat_eq_iff)
    moreover have "?b AND 0x80 \<noteq> 0 \<longleftrightarrow> 128 \<le> ?d" by (simp only: byte_high_bit b)
    ultimately show ?thesis using c1(1) c2(1) u(2)
      by (cases "128 \<le> ?d") (simp_all add: asn1_byte CBB_add_u8_eq)
  qed
qed simp

lemma delivers_uint64_body:
  assumes "length gs = Suc h" and "length (raw (awrite h (uint_bytes (unat v)) gs)) \<le> N"
  shows "delivers N (\<lambda>c. case asn1_uint64_loop c h v 8 False of
      ((False, _), c') \<Rightarrow> (False, c')
    | ((True, started), c') \<Rightarrow> if \<not> started then CBB_add_u8 c' h 0 else (True, c'))
    gs (awrite h (uint_bytes (unat v)) gs)"
proof (unfold delivers_def, intro allI impI)
  fix c assume c: "represents c gs" "capacity c N"
  have mod8: "unat v mod 256 ^ 8 = unat v" using unsigned_less [of v, where ?'a = nat] by simp
  have "\<exists>c'. asn1_uint64_loop c h v 8 False = ((True, unat v mod 256 ^ 8 \<noteq> 0), c') \<and> capacity c' N"
    by (rule loop_fresh_total [OF assms(1) _ c]) (use assms(2) mod8 in simp)
  then obtain c1 where loop: "asn1_uint64_loop c h v 8 False = ((True, unat v \<noteq> 0), c1)" and c1: "capacity c1 N"
    unfolding mod8 by blast
  note fresh = asn1_uint64_loop_fresh [OF c(1) assms(1) loop]
  show "\<exists>c'. (case asn1_uint64_loop c h v 8 False of
      ((False, _), c') \<Rightarrow> (False, c')
    | ((True, started), c') \<Rightarrow> if \<not> started then CBB_add_u8 c' h 0 else (True, c')) = (True, c') \<and>
    represents c' (awrite h (uint_bytes (unat v)) gs) \<and> capacity c' N"
  proof (cases "unat v = 0")
    case True
    then have "c1 = c" using fresh mod8 by simp
    have "delivers N (\<lambda>c. CBB_add_bytes c h [0]) gs (awrite h [0] gs)"
      using assms True by (intro delivers_bytes) (simp_all add: uint_bytes_0)
    then obtain c' where "CBB_add_bytes c h [0] = (True, c')" "represents c' (awrite h [0] gs)" "capacity c' N"
      by (rule deliversE [OF _ c])
    with True loop \<open>c1 = c\<close> show ?thesis by (simp add: CBB_add_u8_eq uint_bytes_0)
  next
    case False
    with fresh mod8 loop c1 show ?thesis by simp
  qed
qed

lemma CBB_add_asn1_uint64_body:
  "CBB_add_asn1_uint64 cbb h v =
    ok_then (CBB_add_asn1 cbb h CBS_ASN1_INTEGER) (\<lambda>c. ok_then (case asn1_uint64_loop c (Suc h) v 8 False of
      ((False, _), c') \<Rightarrow> (False, c')
    | ((True, started), c') \<Rightarrow> if \<not> started then CBB_add_u8 c' (Suc h) 0 else (True, c')) (\<lambda>c. CBB_flush c h))"
  unfolding CBB_add_asn1_uint64_def
  by (rule arg_cong [where f = "ok_then _"]) (auto simp: fun_eq_iff ok_then_def split: prod.splits bool.splits)

lemma uint_bytes_u64: "length (uint_bytes (unat v)) \<le> 9" for v :: uint64
  using length_uint_bytes [of "unat v" 8] unsigned_less [of v, where ?'a = nat] by simp

lemma delivers_uint64:
  assumes "h < length fs" and "all_fit (drop (Suc h) fs)"
    and "length (raw (awrite h (der_element CBS_ASN1_INTEGER (uint_bytes (unat v))) fs)) \<le> N"
  shows "delivers N (\<lambda>c. CBB_add_asn1_uint64 c h v) fs (awrite h (der_element CBS_ASN1_INTEGER (uint_bytes (unat v))) fs)"
  unfolding CBB_add_asn1_uint64_body
  by (rule delivers_asn1_body [OF assms(1,2) _ assms(3)], use uint_bytes_u64 [of v] in simp, rule delivers_uint64_body)

lemma delivers_int64_loop:
  assumes "length fs = Suc h" and "length (raw (awrite h (be_bytes n (unat v)) fs)) \<le> N"
  shows "delivers N (\<lambda>c. int64_bytes_loop c h v n) fs (awrite h (be_bytes n (unat v)) fs)"
  using assms
proof (induction n arbitrary: fs)
  case 0
  then show ?case by (simp add: delivers_id awrite_Nil)
next
  case (Suc n)
  have b: "int64_byte v n = word_of_nat (unat v div 256 ^ n)"
    by (simp add: word_unat_eq_iff unat_int64_byte unat_of_nat take_bit_eq_mod)
  have 1: "delivers N (\<lambda>c. CBB_add_bytes c h [int64_byte v n]) fs (awrite h [int64_byte v n] fs)"
    using Suc.prems by (intro delivers_bytes) (auto simp: raw_awrite)
  have 2: "delivers N (\<lambda>c. int64_bytes_loop c h v n) (awrite h [int64_byte v n] fs)
      (awrite h (be_bytes n (unat v)) (awrite h [int64_byte v n] fs))"
    using Suc.prems by (intro Suc.IH) (simp_all add: be_bytes_Cons b del: be_bytes.simps)
  from delivers_then [OF 1 2] Suc.prems(1) show ?case
    by (simp add: CBB_add_u8_eq be_bytes_Cons b del: be_bytes.simps)
qed

lemma delivers_int64:
  assumes "h < length fs" and "all_fit (drop (Suc h) fs)"
    and "length (raw (awrite h (der_element CBS_ASN1_INTEGER (int_bytes (sint v))) fs)) \<le> N"
  shows "delivers N (\<lambda>c. CBB_add_asn1_int64 c h v) fs (awrite h (der_element CBS_ASN1_INTEGER (int_bytes (sint v))) fs)"
proof (cases "unat v < 2 ^ 63")
  case True
  then show ?thesis
    using delivers_uint64 [OF assms(1,2), of v N] assms(3) unfolding CBB_add_asn1_int64_def
    by (simp add: sint_nonneg_iff int_bytes_sint)
next
  case False
  have "delivers N (\<lambda>c. ok_then (CBB_add_asn1 c h CBS_ASN1_INTEGER)
      (\<lambda>c. ok_then (int64_bytes_loop c (Suc h) v (Suc (int64_start v 7))) (\<lambda>c'. CBB_flush c' h)))
    fs (awrite h (der_element CBS_ASN1_INTEGER (int_bytes (sint v))) fs)"
  proof (rule delivers_asn1_body [OF assms(1,2) _ assms(3)])
    show "length (int_bytes (sint v)) \<le> 0xfffffffe" using length_int_bytes [of v] by simp
  next
    fix gs assume "length gs = Suc (Suc h)" "length (raw (awrite (Suc h) (int_bytes (sint v)) gs)) \<le> N"
    then show "delivers N (\<lambda>c. int64_bytes_loop c (Suc h) v (Suc (int64_start v 7))) gs (awrite (Suc h) (int_bytes (sint v)) gs)"
      using delivers_int64_loop [of gs "Suc h" "Suc (int64_start v 7)" v N] unfolding negative_int_bytes [OF False] by blast
  qed
  with False show ?thesis unfolding CBB_add_asn1_int64_def
    by (simp add: sint_nonneg_iff Let_def del: int64_bytes_loop.simps)
qed
end
