(* ===== verification/CBB_Script.thy ===== *)
theory CBB_Script
  imports CBB_Total
begin

text \<open>
  Programs over the byte builder. A script is a sequence of calls of \<open>cbb.c\<close> on handles; \<open>run\<close>
  executes it on the model of the code and \<open>steps\<close> on the frames that specify it. The theorems
  compare what \<open>CBB_finish\<close> returns with what the specification says, in both directions: a
  script that succeeds writes the specified bytes, and a script with room succeeds. The last
  section composes this with the readers.
\<close>

section \<open>Scripts\<close>

datatype cmd =
  Flush nat
| Bytes nat "byte list"
| U8 nat byte
| U16 nat uint16
| U24 nat uint32
| U32 nat uint32
| U64 nat uint64
| U16le nat uint16
| U32le nat uint32
| U64le nat uint64
| Prefixed8 nat
| Prefixed16 nat
| Prefixed24 nat
| Asn1_child nat uint32
| Octets nat "byte list"
| Bool nat int
| Uint64 nat uint64
| Int64 nat uint64
| Discard nat

fun exec :: "cmd \<Rightarrow> cbb \<Rightarrow> bool \<times> cbb" where
  "exec (Flush h) c = CBB_flush c h"
| "exec (Bytes h bs) c = CBB_add_bytes c h bs"
| "exec (U8 h v) c = CBB_add_u8 c h v"
| "exec (U16 h v) c = CBB_add_u16 c h v"
| "exec (U24 h v) c = CBB_add_u24 c h v"
| "exec (U32 h v) c = CBB_add_u32 c h v"
| "exec (U64 h v) c = CBB_add_u64 c h v"
| "exec (U16le h v) c = CBB_add_u16le c h v"
| "exec (U32le h v) c = CBB_add_u32le c h v"
| "exec (U64le h v) c = CBB_add_u64le c h v"
| "exec (Prefixed8 h) c = CBB_add_u8_length_prefixed c h"
| "exec (Prefixed16 h) c = CBB_add_u16_length_prefixed c h"
| "exec (Prefixed24 h) c = CBB_add_u24_length_prefixed c h"
| "exec (Asn1_child h tag) c = CBB_add_asn1 c h tag"
| "exec (Octets h bs) c = CBB_add_asn1_octet_string c h bs"
| "exec (Bool h v) c = CBB_add_asn1_bool c h v"
| "exec (Uint64 h v) c = CBB_add_asn1_uint64 c h v"
| "exec (Int64 h v) c = CBB_add_asn1_int64 c h v"
| "exec (Discard h) c = (True, CBB_discard_child c h)"

fun run :: "cmd list \<Rightarrow> cbb \<Rightarrow> bool \<times> cbb" where
  "run [] c = (True, c)"
| "run (x # xs) c = ok_then (exec x c) (run xs)"

text \<open>What a command puts into its frame, and the frames after it.\<close>

fun payload :: "cmd \<Rightarrow> byte list" where
  "payload (Bytes h bs) = bs"
| "payload (U8 h v) = be_bytes 1 (unat v)"
| "payload (U16 h v) = be_bytes 2 (unat v)"
| "payload (U24 h v) = be_bytes 3 (unat v)"
| "payload (U32 h v) = be_bytes 4 (unat v)"
| "payload (U64 h v) = be_bytes 8 (unat v)"
| "payload (U16le h v) = rev (be_bytes 2 (unat v))"
| "payload (U32le h v) = rev (be_bytes 4 (unat v))"
| "payload (U64le h v) = rev (be_bytes 8 (unat v))"
| "payload (Asn1_child h tag) = tag_bytes tag"
| "payload (Octets h bs) = der_element CBS_ASN1_OCTETSTRING bs"
| "payload (Bool h v) = der_element CBS_ASN1_BOOLEAN (bool_bytes (v \<noteq> 0))"
| "payload (Uint64 h v) = der_element CBS_ASN1_INTEGER (uint_bytes (unat v))"
| "payload (Int64 h v) = der_element CBS_ASN1_INTEGER (int_bytes (sint v))"
| "payload _ = []"

fun handle :: "cmd \<Rightarrow> nat" where
  "handle (Flush h) = h" | "handle (Bytes h _) = h" | "handle (U8 h _) = h" | "handle (U16 h _) = h"
| "handle (U24 h _) = h" | "handle (U32 h _) = h" | "handle (U64 h _) = h" | "handle (U16le h _) = h"
| "handle (U32le h _) = h" | "handle (U64le h _) = h" | "handle (Prefixed8 h) = h"
| "handle (Prefixed16 h) = h" | "handle (Prefixed24 h) = h" | "handle (Asn1_child h _) = h"
| "handle (Octets h _) = h" | "handle (Bool h _) = h" | "handle (Uint64 h _) = h"
| "handle (Int64 h _) = h" | "handle (Discard h) = h"

fun opens :: "cmd \<Rightarrow> prefix_kind option" where
  "opens (Prefixed8 h) = Some (Plain 1)"
| "opens (Prefixed16 h) = Some (Plain 2)"
| "opens (Prefixed24 h) = Some (Plain 3)"
| "opens (Asn1_child h tag) = Some Asn1"
| "opens _ = None"

definition step :: "cmd \<Rightarrow> frame list \<Rightarrow> frame list" where
  "step x fs =
     (let fs' = awrite (handle x) (payload x) fs in
      case x of Discard h \<Rightarrow> adiscard h fs
      | _ \<Rightarrow> (case opens x of None \<Rightarrow> fs' | Some k \<Rightarrow> fs' @ [(k, [])]))"

fun steps :: "cmd list \<Rightarrow> frame list \<Rightarrow> frame list" where
  "steps [] fs = fs"
| "steps (x # xs) fs = steps xs (step x fs)"

text \<open>The sizes of C objects and the value range of a 24-bit integer.\<close>

fun small :: "cmd \<Rightarrow> bool" where
  "small (Bytes h bs) \<longleftrightarrow> length bs < size_mod"
| "small (Octets h bs) \<longleftrightarrow> length bs < size_mod"
| "small _ \<longleftrightarrow> True"

lemma CBB_flush_open:
  assumes "represents c fs" and "CBB_flush c h = (True, c')"
  shows "h < length fs"
  using assms by (auto simp: represents_def CBB_flush_def split: option.splits if_splits)
    (metis One_nat_def Suc_pred le_imp_less_Suc length_greater_0_conv length_layout length_tl not_le)


lemmas writer_defs = CBB_add_bytes_def CBB_add_u8_def CBB_add_u16_def CBB_add_u24_def CBB_add_u32_def
  CBB_add_u64_def CBB_add_u16le_def CBB_add_u32le_def CBB_add_u64le_def cbb_add_u_def
  CBB_add_u8_length_prefixed_def CBB_add_u16_length_prefixed_def CBB_add_u24_length_prefixed_def
  cbb_add_length_prefixed_def CBB_add_asn1_octet_string_def CBB_add_asn1_bool_def
  CBB_add_asn1_uint64_def CBB_add_asn1_int64_def CBB_add_asn1_def

lemma exec_flushes:
  assumes "exec x c = (True, c')" and "\<forall>h. x \<noteq> Discard h"
  shows "\<exists>c1. CBB_flush c (handle x) = (True, c1)"
  using assms by (cases x) (auto simp: writer_defs Let_def elim!: ok_then_True split: if_splits)

lemma awrite_Nil_flush: "awrite h [] fs = aflush h fs"
  by (simp add: awrite_def aflush_def)

lemma awrite_open: "h < length fs \<Longrightarrow> awrite h bs fs @ [(k, [])] = aopen h k (awrite h bs fs)"
  by (simp add: aopen_def)

lemma cbb_add_u_represents:
  assumes "represents c fs" and "h < length fs" and "cbb_add_u c h v n = (True, c')" and "0 < n" and "n \<le> 8"
  shows "represents c' (awrite h (be_bytes n (unat v)) fs)" and "unat v < 256 ^ n"
  using cbb_add_u_bytes [OF assms(3,4)] CBB_add_bytes_represents(1) [OF assms(1,2), of "be_bytes n (unat v)"] assms(5)
  by (auto simp: size_mod_def)

lemma unat_ucast_u64 [simp]:
  "unat (ucast (v :: uint16) :: uint64) = unat v" "unat (ucast (w :: uint32) :: uint64) = unat w"
  by (simp_all add: unsigned_ucast_eq take_bit_nat_eq_self order_less_le_trans [OF unsigned_less])

lemma discard_represents:
  assumes "represents c fs"
  shows "represents (CBB_discard_child c h) (adiscard h fs)"
proof (cases "Suc h < length fs")
  case False
  moreover have "length (children c) = length fs - 1" using assms by (auto simp: represents_def)
  ultimately have "\<not> h < length (children c)" by simp
  with False assms show ?thesis by (simp add: CBB_discard_child_def adiscard_def)
next
  case True
  then have h: "h < length fs" by simp
  obtain b where b: "cbb_base c = Some b" "buf_ok b"
    "base_buf b = raw (take (Suc h) fs) @ raw (drop (Suc h) fs)"
    "drop h (children c) = layout (length (raw (take (Suc h) fs))) (drop (Suc h) fs)"
    "take h (children c) = tl (layout 0 (take (Suc h) fs))"
    "kinds_ok (tl (take (Suc h) fs))"
    by (rule represents_base [OF assms h]) blast
  obtain k seg fs' where d: "drop (Suc h) fs = (k, seg) # fs'"
    using True by (cases "drop (Suc h) fs") auto
  have len: "length (children c) = length fs - 1" using assms by (auto simp: represents_def)
  have "children c ! h = hd (drop h (children c))" using True len by (simp add: hd_drop_conv_nth)
  then have off: "offset (children c ! h) = length (raw (take (Suc h) fs))" by (simp add: b(4) d)
  have "buf_ok (base_buf_update (take (length (raw (take (Suc h) fs)))) b)"
    using b(2,3) by (simp add: buf_ok_def)
  moreover have "fst (hd (take (Suc h) fs)) = fst (hd fs)" "take (Suc h) fs \<noteq> []" "fst (hd fs) = Plain 0"
    using assms by (cases fs; auto simp: represents_def)+
  ultimately show ?thesis
    using True len b by (auto simp: represents_def CBB_discard_child_def adiscard_def off)
qed

lemma exec_refines:
  assumes rep: "represents c fs" and "small x" and ex: "exec x c = (True, c')"
  shows "represents c' (step x fs)"
proof (cases "\<exists>h. x = Discard h")
  case True
  then show ?thesis using ex discard_represents [OF rep] by (auto simp: step_def)
next
  case False
  then obtain c1 where "CBB_flush c (handle x) = (True, c1)" using exec_flushes [OF ex] by blast
  then have h: "handle x < length fs" by (rule CBB_flush_open [OF rep])
  have one: "be_bytes (Suc 0) (unat b) = [b]" for b :: byte by simp
  note rules = CBB_flush_represents [OF rep] CBB_add_bytes_represents(1) [OF rep]
    cbb_add_u_represents(1) [OF rep] cbb_add_length_prefixed_represents(1) [OF rep]
    CBB_add_asn1_represents(1) [OF rep] CBB_add_asn1_octet_string_represents(1) [OF rep]
    CBB_add_asn1_bool_represents [OF rep] CBB_add_asn1_uint64_represents [OF rep]
    CBB_add_asn1_int64_represents [OF rep]
  show ?thesis
  proof (cases x)
    case (U16le h' v)
    then show ?thesis using rules(3) [of h' "ucast (CRYPTO_bswap2 v)" 2 c'] ex h
      by (simp add: step_def CBB_add_u16le_def CBB_add_u16_def bswap2_bytes del: be_bytes.simps)
  next
    case (U32le h' v)
    then show ?thesis using rules(3) [of h' "ucast (CRYPTO_bswap4 v)" 4 c'] ex h
      by (simp add: step_def CBB_add_u32le_def CBB_add_u32_def bswap4_bytes del: be_bytes.simps)
  next
    case (U64le h' v)
    then show ?thesis using rules(3) [of h' "CRYPTO_bswap8 v" 8 c'] ex h
      by (simp add: step_def CBB_add_u64le_def CBB_add_u64_def bswap8_bytes del: be_bytes.simps)
  next
    case (Bool h' v)
    then show ?thesis using rules(7) [of h' v c'] ex h by (simp add: step_def bool_bytes_def)
  next
    case (Asn1_child h' tag)
    then show ?thesis using rules(5) [of h' tag c'] ex h by (simp add: step_def awrite_open)
  next
    case (Flush h')
    then show ?thesis using rules(1) [of h' c'] ex h by (simp add: step_def awrite_Nil_flush)
  next
    case (U8 h' v)
    then show ?thesis using rules(3) [of h' "ucast v" 1 c'] ex h by (simp add: step_def CBB_add_u8_def)
  next
    case (U16 h' v)
    then show ?thesis using rules(3) [of h' "ucast v" 2 c'] ex h
      by (simp add: step_def CBB_add_u16_def del: be_bytes.simps)
  next
    case (U24 h' v)
    then show ?thesis using rules(3) [of h' "ucast v" 3 c'] ex h
      by (simp add: step_def CBB_add_u24_def del: be_bytes.simps)
  next
    case (U32 h' v)
    then show ?thesis using rules(3) [of h' "ucast v" 4 c'] ex h
      by (simp add: step_def CBB_add_u32_def del: be_bytes.simps)
  next
    case (Prefixed8 h')
    then show ?thesis using rules(4) [of h' 1 c'] ex h
      by (simp add: step_def CBB_add_u8_length_prefixed_def awrite_Nil_flush aopen_def size_mod_def)
  next
    case (Prefixed16 h')
    then show ?thesis using rules(4) [of h' 2 c'] ex h
      by (simp add: step_def CBB_add_u16_length_prefixed_def awrite_Nil_flush aopen_def size_mod_def)
  next
    case (Prefixed24 h')
    then show ?thesis using rules(4) [of h' 3 c'] ex h
      by (simp add: step_def CBB_add_u24_length_prefixed_def awrite_Nil_flush aopen_def size_mod_def)
  qed (use ex h assms(2) rules(2-4,6-9) False in
      \<open>simp_all add: step_def CBB_add_u16_def CBB_add_u24_def CBB_add_u32_def CBB_add_u64_def del: be_bytes.simps\<close>)
qed

lemma run_refines:
  assumes "represents c fs" and "\<forall>x \<in> set xs. small x" and "run xs c = (True, c')"
  shows "represents c' (steps xs fs)"
  using assms by (induction xs arbitrary: c fs) (auto elim!: ok_then_True dest: exec_refines)


section \<open>A fresh builder and the finished one\<close>

lemma CBB_init_represents:
  "CBB_init n h = (True, c) \<Longrightarrow> n < size_mod \<Longrightarrow> represents c [(Plain 0, [])]"
  by (auto simp: CBB_init_def cbb_init_def CBB_zero_def represents_def buf_ok_def kinds_ok_def Let_def
      split: prod.splits if_splits)

lemma CBB_init_fixed_represents:
  "CBB_init_fixed n h = (True, c) \<Longrightarrow> n < size_mod \<Longrightarrow> represents c [(Plain 0, [])]"
  by (auto simp: CBB_init_fixed_def cbb_init_def CBB_zero_def represents_def buf_ok_def kinds_ok_def
      split: prod.splits if_splits)

lemma CBB_finish_render:
  assumes "represents c fs" and "CBB_finish c 0 b = (Some out, c')"
  shows "out = render fs" and "all_fit (tl fs)"
proof -
  have fs: "0 < length fs" using assms(1) by (auto simp: represents_def)
  obtain c1 where fl: "CBB_flush c 0 = (True, c1)" and out: "map_option base_buf (cbb_base c1) = Some out"
    using assms(2) by (auto simp: CBB_finish_def split: prod.splits bool.splits option.splits if_splits)
  obtain k seg fs' where e: "fs = (k, seg) # fs'" using fs by (cases fs) auto
  from CBB_flush_represents [OF assms(1) fs fl]
  show "out = render fs" and "all_fit (tl fs)"
    using out assms(1) by (auto simp: represents_def e aflush_def)
qed

lemma CBB_finish_total:
  assumes "represents c fs" and "capacity c N" and "all_fit (tl fs)" and "length (render fs) \<le> N"
  shows "\<exists>c'. CBB_finish c 0 False = (Some (render fs), c')"
proof -
  have fs: "0 < length fs" using assms(1) by (auto simp: represents_def)
  obtain k seg fs' where e: "fs = (k, seg) # fs'" and k: "k = Plain 0"
    using assms(1) by (cases fs) (auto simp: represents_def)
  from CBB_flush_total [OF assms(1,2) fs] assms(3,4)
  obtain c1 where fl: "CBB_flush c 0 = (True, c1)" by (auto simp: e k aflush_def)
  from CBB_flush_represents [OF assms(1) fs fl] obtain b where "cbb_base c1 = Some b"
    by (auto simp: represents_def)
  then have "\<exists>out c'. CBB_finish c 0 False = (Some out, c')"
    by (simp add: CBB_finish_def fl)
  with CBB_finish_render(1) [OF assms(1)] show ?thesis by blast
qed

section \<open>Scripts that have room\<close>

fun in_range :: "cmd \<Rightarrow> bool" where
  "in_range (U24 h v) \<longleftrightarrow> unat v < 2 ^ 24"
| "in_range (Octets h bs) \<longleftrightarrow> length bs \<le> 0xfffffffe"
| "in_range _ \<longleftrightarrow> True"

definition admissible :: "nat \<Rightarrow> cmd \<Rightarrow> frame list \<Rightarrow> bool" where
  "admissible N x fs \<longleftrightarrow> handle x < length fs \<and> in_range x \<and> length (raw (step x fs)) \<le> N \<and>
     ((\<exists>h. x = Discard h) \<or> all_fit (drop (Suc (handle x)) fs))"

fun all_admissible :: "nat \<Rightarrow> cmd list \<Rightarrow> frame list \<Rightarrow> bool" where
  "all_admissible N [] fs \<longleftrightarrow> True"
| "all_admissible N (x # xs) fs \<longleftrightarrow> admissible N x fs \<and> all_admissible N xs (step x fs)"

lemma exec_total:
  assumes rep: "represents c fs" and cap: "capacity c N" and adm: "admissible N x fs"
  shows "\<exists>c'. exec x c = (True, c') \<and> capacity c' N"
proof (cases "\<exists>h. x = Discard h")
  case True
  then show ?thesis using cap by (auto simp: CBB_discard_child_def capacity_def)
next
  case False
  then have h: "handle x < length fs" and fit: "all_fit (drop (Suc (handle x)) fs)"
    and N: "length (raw (step x fs)) \<le> N" and r: "in_range x"
    using adm by (auto simp: admissible_def)
  have u: "\<exists>c'. cbb_add_u c (handle x) v n = (True, c') \<and> capacity c' N"
    if "length (raw (awrite (handle x) bs fs)) \<le> N" "length bs = n" "0 < n" "unat v < 256 ^ n" for v n bs
    using cbb_add_u_total [OF rep cap h that(3) fit _ that(4)] that by (simp add: raw_awrite [OF h])
  have d: "\<exists>c'. f c = (True, c') \<and> capacity c' N" if "delivers N f fs fs'" for f fs'
    using that rep cap unfolding delivers_def by blast
  note step = step_def Let_def awrite_Nil_flush awrite_open
  show ?thesis
  proof (cases x)
    case (Flush h')
    then show ?thesis using d [OF delivers_flush [of h']] h fit N by (simp add: step)
  next
    case (Bytes h' bs)
    then show ?thesis using d [OF delivers_bytes [of h' fs bs]] h fit N by (simp add: step)
  next
    case (U8 h' v)
    then show ?thesis using u [of "be_bytes 1 (unat v)" 1 "ucast v"] N by (simp add: step CBB_add_u8_def)
  next
    case (U16 h' v)
    then show ?thesis using u [of "be_bytes 2 (unat v)" 2 "ucast v"] N unsigned_less [of v, where ?'a = nat]
      by (simp add: step CBB_add_u16_def del: be_bytes.simps)
  next
    case (U24 h' v)
    then show ?thesis using u [of "be_bytes 3 (unat v)" 3 "ucast v"] N r
      by (simp add: step CBB_add_u24_def del: be_bytes.simps)
  next
    case (U32 h' v)
    then show ?thesis using u [of "be_bytes 4 (unat v)" 4 "ucast v"] N unsigned_less [of v, where ?'a = nat]
      by (simp add: step CBB_add_u32_def del: be_bytes.simps)
  next
    case (U64 h' v)
    then show ?thesis using u [of "be_bytes 8 (unat v)" 8 v] N unsigned_less [of v, where ?'a = nat]
      by (simp add: step CBB_add_u64_def del: be_bytes.simps)
  next
    case (U16le h' v)
    then show ?thesis using u [of "rev (be_bytes 2 (unat v))" 2 "ucast (CRYPTO_bswap2 v)"] N
        unsigned_less [of "CRYPTO_bswap2 v", where ?'a = nat]
      by (simp add: step CBB_add_u16le_def CBB_add_u16_def del: be_bytes.simps)
  next
    case (U32le h' v)
    then show ?thesis using u [of "rev (be_bytes 4 (unat v))" 4 "ucast (CRYPTO_bswap4 v)"] N
        unsigned_less [of "CRYPTO_bswap4 v", where ?'a = nat]
      by (simp add: step CBB_add_u32le_def CBB_add_u32_def del: be_bytes.simps)
  next
    case (U64le h' v)
    then show ?thesis using u [of "rev (be_bytes 8 (unat v))" 8 "CRYPTO_bswap8 v"] N
        unsigned_less [of "CRYPTO_bswap8 v", where ?'a = nat]
      by (simp add: step CBB_add_u64le_def CBB_add_u64_def del: be_bytes.simps)
  next
    case (Prefixed8 h')
    then show ?thesis using d [OF delivers_prefixed [of h' fs 1]] h fit N
      by (simp add: step CBB_add_u8_length_prefixed_def aopen_def)
  next
    case (Prefixed16 h')
    then show ?thesis using d [OF delivers_prefixed [of h' fs 2]] h fit N
      by (simp add: step CBB_add_u16_length_prefixed_def aopen_def)
  next
    case (Prefixed24 h')
    then show ?thesis using d [OF delivers_prefixed [of h' fs 3]] h fit N
      by (simp add: step CBB_add_u24_length_prefixed_def aopen_def)
  next
    case (Asn1_child h' tag)
    then show ?thesis using d [OF delivers_asn1 [of h' fs tag]] h fit N by (simp add: step)
  next
    case (Octets h' bs)
    then show ?thesis using d [OF delivers_octet_string [of h' fs bs]] h fit N r by (simp add: step)
  next
    case (Bool h' v)
    then show ?thesis using d [OF delivers_bool [of h' fs v]] h fit N by (simp add: step)
  next
    case (Uint64 h' v)
    then show ?thesis using d [OF delivers_uint64 [of h' fs v]] h fit N by (simp add: step)
  next
    case (Int64 h' v)
    then show ?thesis using d [OF delivers_int64 [of h' fs v]] h fit N by (simp add: step)
  qed (use False in blast)
qed

lemma raw_length_bytes: "length bs \<le> length (raw (awrite h bs fs))"
  by (simp add: awrite_def raw_append)

lemma admissible_small:
  assumes "admissible N x fs" and "N < size_mod"
  shows "small x"
proof (cases x)
  case (Bytes h bs)
  then have "length bs \<le> N"
    using assms raw_length_bytes [of bs h fs] by (simp add: admissible_def step_def)
  with Bytes assms(2) show ?thesis by simp
qed (use assms in \<open>auto simp: admissible_def size_mod_def\<close>)

lemma run_total:
  assumes "represents c fs" and "capacity c N" and "all_admissible N xs fs"
  shows "\<exists>c'. run xs c = (True, c') \<and> represents c' (steps xs fs) \<and> capacity c' N"
  using assms
proof (induction xs arbitrary: c fs)
  case (Cons x xs)
  then obtain c1 where c1: "exec x c = (True, c1)" "capacity c1 N" using exec_total by fastforce
  have "N < size_mod" using Cons.prems(2) by (simp add: capacity_def)
  then have "represents c1 (step x fs)"
    using exec_refines [OF Cons.prems(1) _ c1(1)] admissible_small Cons.prems(3) by auto
  with Cons.IH [of c1 "step x fs"] c1 Cons.prems(3) show ?case by (simp add: ok_then_def)
qed simp

lemma fresh_capacity:
  "N < size_mod \<Longrightarrow> capacity (snd (CBB_init n [])) N" "N < size_mod \<Longrightarrow> capacity (snd (CBB_init_fixed N [])) N"
  by (simp_all add: CBB_init_def CBB_init_fixed_def cbb_init_def CBB_zero_def capacity_def)

end
