(* ===== verification/Builder.thy ===== *)
theory Builder
  imports CBB_Script
begin

text \<open>
  What the byte builder promises to its callers: scripts of calls yield the specified bytes,
  they succeed while there is room, and what is written through a child is read back by the
  matching reader of \<open>cbs.c\<close>.
\<close>

section \<open>Composing scripts\<close>

text \<open>A script for a child: every handle one level deeper.\<close>

fun deeper :: "cmd \<Rightarrow> cmd" where
  "deeper (Flush h) = Flush (Suc h)" | "deeper (Bytes h v) = Bytes (Suc h) v" | "deeper (U8 h v) = U8 (Suc h) v"
| "deeper (U16 h v) = U16 (Suc h) v" | "deeper (U24 h v) = U24 (Suc h) v" | "deeper (U32 h v) = U32 (Suc h) v"
| "deeper (U64 h v) = U64 (Suc h) v" | "deeper (U16le h v) = U16le (Suc h) v" | "deeper (U32le h v) = U32le (Suc h) v"
| "deeper (U64le h v) = U64le (Suc h) v" | "deeper (Prefixed8 h) = Prefixed8 (Suc h)"
| "deeper (Prefixed16 h) = Prefixed16 (Suc h)" | "deeper (Prefixed24 h) = Prefixed24 (Suc h)"
| "deeper (Asn1_child h t) = Asn1_child (Suc h) t" | "deeper (Octets h v) = Octets (Suc h) v"
| "deeper (Bool h v) = Bool (Suc h) v" | "deeper (Uint64 h v) = Uint64 (Suc h) v"
| "deeper (Int64 h v) = Int64 (Suc h) v" | "deeper (Discard h) = Discard (Suc h)"

lemma deeper_simps [simp]:
  "handle (deeper x) = Suc (handle x)" "payload (deeper x) = payload x" "opens (deeper x) = opens x"
  "small (deeper x) = small x"
  by (cases x; simp)+

lemma step_deeper: "step (deeper x) (f # fs) = f # step x fs"
proof -
  have "awrite (Suc n) bs (f # fs) = f # awrite n bs fs" for n bs by (simp add: awrite_def)
  moreover have "adiscard (Suc n) (f # fs) = f # adiscard n fs" for n by (simp add: adiscard_def)
  ultimately show ?thesis by (cases x) (simp_all add: step_def Let_def)
qed

lemma steps_deeper: "steps (map deeper xs) (f # fs) = f # steps xs fs"
  by (induction xs arbitrary: fs) (simp_all add: step_deeper)

text \<open>The kind and the earlier contents of the first frame only prefix the output.\<close>

lemma step_first:
  assumes "fs \<noteq> []"
  shows "step x ((k, s @ seg) # tl fs) = (k, s @ snd (hd (step x ((k', seg) # tl fs)))) # tl (step x ((k', seg) # tl fs))"
  by (cases x; cases "handle x") (simp_all add: step_def Let_def awrite_def adiscard_def)

lemma step_nonempty: "step x ((k, seg) # fs) \<noteq> []"
  by (cases x) (simp_all add: step_def Let_def awrite_def adiscard_def)

lemma steps_first:
  "steps xs ((k, s @ seg) # fs) = (k, s @ snd (hd (steps xs ((k', seg) # fs)))) # tl (steps xs ((k', seg) # fs))"
proof (induction xs arbitrary: seg fs k')
  case (Cons x xs)
  obtain f' seg' fs' where e: "step x ((k', seg) # fs) = (f', seg') # fs'"
    using step_nonempty [of x k' seg fs] by (cases "step x ((k', seg) # fs)") auto
  have "step x ((k, s @ seg) # fs) = (k, s @ seg') # fs'"
    using step_first [of "(k', seg) # fs" x k s seg k'] e by simp
  with Cons.IH [of seg' fs' f'] show ?case by (simp add: e)
qed simp

lemma steps_child:
  "\<exists>body rest. steps xs [(Plain 0, [])] = (Plain 0, body) # rest \<and> steps xs [(k, [])] = (k, body) # rest"
  using steps_first [of xs k "[]" "[]" "[]" "Plain 0"] steps_first [of xs "Plain 0" "[]" "[]" "[]" "Plain 0"]
  by (metis append_Nil)

lemma child_of_script:
  assumes "opens x = Some k" and "handle x = 0"
  shows "\<exists>body rest. steps (x # map deeper xs) [(Plain 0, [])] = (Plain 0, payload x) # (k, body) # rest \<and>
    steps xs [(Plain 0, [])] = (Plain 0, body) # rest"
proof -
  have "step x [(Plain 0, [])] = [(Plain 0, payload x), (k, [])]"
    using assms by (cases x) (simp_all add: step_def Let_def awrite_def)
  then have "steps (x # map deeper xs) [(Plain 0, [])] = (Plain 0, payload x) # steps xs [(k, [])]"
    by (simp add: steps_deeper)
  with steps_child [of xs k] show ?thesis by auto
qed

lemma built_child:
  assumes "CBB_init n h = (True, c0)" and "n < size_mod" and "run (x # map deeper xs) c0 = (True, c)"
    and "CBB_finish c 0 b = (Some out, c')" and "\<forall>y \<in> set (x # xs). small y"
    and "opens x = Some k" and "handle x = 0"
  shows "fits k (length (render (steps xs [(Plain 0, [])])))" and
    "out = payload x @ prefix_bytes k (length (render (steps xs [(Plain 0, [])]))) @ render (steps xs [(Plain 0, [])])"
proof -
  have rep: "represents c (steps (x # map deeper xs) [(Plain 0, [])])"
    by (rule run_refines [OF CBB_init_represents [OF assms(1,2)] _ assms(3)]) (use assms(5) in auto)
  obtain body rest where e: "steps (x # map deeper xs) [(Plain 0, [])] = (Plain 0, payload x) # (k, body) # rest"
    and s: "steps xs [(Plain 0, [])] = (Plain 0, body) # rest"
    using child_of_script [OF assms(6,7), of xs] by blast
  note f = CBB_finish_render [OF rep assms(4), unfolded e]
  show "fits k (length (render (steps xs [(Plain 0, [])])))" using f(2) by (simp add: s)
  show "out = payload x @ prefix_bytes k (length (render (steps xs [(Plain 0, [])]))) @ render (steps xs [(Plain 0, [])])"
    using f(1) by (simp add: s)
qed

lemma fresh_run:
  assumes "all_admissible N xs [(Plain 0, [])]" and "N < size_mod"
    and "all_fit (tl (steps xs [(Plain 0, [])]))" and "length (render (steps xs [(Plain 0, [])])) \<le> N"
  shows "\<exists>c c'. run xs (snd (CBB_init N [])) = (True, c) \<and>
      CBB_finish c 0 False = (Some (render (steps xs [(Plain 0, [])])), c')"
    and "\<exists>c c'. run xs (snd (CBB_init_fixed N [])) = (True, c) \<and>
      CBB_finish c 0 False = (Some (render (steps xs [(Plain 0, [])])), c')"
proof -
  have *: "\<exists>c c'. run xs c0 = (True, c) \<and> CBB_finish c 0 False = (Some (render (steps xs [(Plain 0, [])])), c')"
    if "represents c0 [(Plain 0, [])]" and "capacity c0 N" for c0
    using run_total [OF that assms(1)] CBB_finish_total [OF _ _ assms(3,4)] by blast
  have init: "represents (snd (CBB_init N [])) [(Plain 0, [])]" "represents (snd (CBB_init_fixed N [])) [(Plain 0, [])]"
    using CBB_init_represents [of N "[]" "snd (CBB_init N [])"]
      CBB_init_fixed_represents [of N "[]" "snd (CBB_init_fixed N [])"] assms(2)
    by (simp_all add: CBB_init_def CBB_init_fixed_def cbb_init_def Let_def)
  show "\<exists>c c'. run xs (snd (CBB_init N [])) = (True, c) \<and>
      CBB_finish c 0 False = (Some (render (steps xs [(Plain 0, [])])), c')"
    by (rule *) (use assms(2) in \<open>simp_all add: fresh_capacity init(1)\<close>)
  show "\<exists>c c'. run xs (snd (CBB_init_fixed N [])) = (True, c) \<and>
      CBB_finish c 0 False = (Some (render (steps xs [(Plain 0, [])])), c')"
    by (rule *) (use assms(2) in \<open>simp_all add: fresh_capacity init(2)\<close>)
qed

lemmas frame_eval = step_def Let_def awrite_def adiscard_def admissible_def der_element_def der_header_def
  tag_bytes_def len_bytes_def bool_bytes_def CBS_ASN1_BOOLEAN_def nth_append

lemma be_bytes_numeral [simp]:
  "be_bytes (numeral k) v = be_bytes (pred_numeral k) (v div 256) @ [word_of_nat v]"
  by (simp only: numeral_eq_Suc [of k] be_bytes.simps)


section \<open>Properties\<close>

text \<open>
  C6: a script of calls on a fresh growable builder that succeeds, and that \<open>CBB_finish\<close> ends,
  returns exactly the bytes that the frame semantics of the script specifies: every pending
  length prefix filled in with the length of what was written through its child.
\<close>

theorem builder_output:
  assumes "CBB_init n h = (True, c0)" and "n < size_mod" and "\<forall>x \<in> set xs. small x"
    and "run xs c0 = (True, c)" and "CBB_finish c 0 False = (Some out, c')"
  shows "out = render (steps xs [(Plain 0, [])]) \<and> all_fit (tl (steps xs [(Plain 0, [])]))"
  using CBB_finish_render [OF run_refines [OF CBB_init_represents [OF assms(1,2)] assms(3,4)] assms(5)] by simp

definition sample :: "cmd list" where
  "sample = [Prefixed16 0, Asn1_child 1 0x20000010, Bool 2 1, Discard 1, U8 1 7, Octets 1 [5]]"

lemma sample_frames: "steps sample [(Plain 0, [])] = [(Plain 0, []), (Plain 2, [0x30, 7, 4, 1, 5])]"
  by (simp add: sample_def frame_eval CBS_ASN1_OCTETSTRING_def)

lemma sample_small: "\<forall>x \<in> set sample. small x"
  by (simp add: sample_def size_mod_def)

lemma sample_admissible: "all_admissible 64 sample [(Plain 0, [])]"
  by (simp add: sample_def frame_eval CBS_ASN1_OCTETSTRING_def)

lemma sample_render: "render (steps sample [(Plain 0, [])]) = [0, 5, 0x30, 7, 4, 1, 5]"
  "all_fit (tl (steps sample [(Plain 0, [])]))"
  by (simp_all add: sample_frames)

theorem builder_output_witness:
  "\<exists>c0 c c' out. CBB_init 64 [] = (True, c0) \<and> run sample c0 = (True, c) \<and>
     CBB_finish c 0 False = (Some out, c') \<and> out = [0, 5, 0x30, 7, 4, 1, 5]"
proof -
  have i: "CBB_init 64 [] = (True, snd (CBB_init 64 []))" by (simp add: CBB_init_def cbb_init_def Let_def)
  obtain c c' out where r: "run sample (snd (CBB_init 64 [])) = (True, c)" "CBB_finish c 0 False = (Some out, c')"
    using fresh_run(1) [OF sample_admissible] sample_render by (auto simp: size_mod_def)
  have "out = [0, 5, 0x30, 7, 4, 1, 5]"
    using builder_output [OF i _ sample_small r] by (simp add: size_mod_def sample_render)
  with i r show ?thesis by blast
qed

text \<open>
  C7: a script whose handles are open when it uses them, whose lengths fit their prefixes and
  whose output stays within \<open>N\<close> bytes succeeds and is finished to the specified bytes, in a
  growable builder whose allocations succeed and in a fixed buffer of \<open>N\<close> bytes alike.
\<close>

theorem builder_total:
  assumes "all_admissible N xs [(Plain 0, [])]" and "N < size_mod"
    and "all_fit (tl (steps xs [(Plain 0, [])]))" and "length (render (steps xs [(Plain 0, [])])) \<le> N"
    and "c0 = snd (CBB_init N []) \<or> c0 = snd (CBB_init_fixed N [])"
  shows "\<exists>c c'. run xs c0 = (True, c) \<and>
      CBB_finish c 0 False = (Some (render (steps xs [(Plain 0, [])])), c')"
  using fresh_run [OF assms(1-4)] assms(5) by blast

theorem builder_total_witness:
  "\<exists>c c'. run sample (snd (CBB_init_fixed 64 [])) = (True, c) \<and>
     CBB_finish c 0 False = (Some [0, 5, 0x30, 7, 4, 1, 5], c')"
  using builder_total [OF sample_admissible, of "snd (CBB_init_fixed 64 [])"]
  by (simp add: sample_render size_mod_def)

text \<open>
  C13: what a script writes through an ASN.1 child is read back by \<open>CBS_get_any_asn1\<close>: the tag, and
  as contents the bytes that the same script writes to a builder of its own.
\<close>

theorem built_element_read_back:
  assumes "CBB_init n h = (True, c0)" and "n < size_mod" and "\<forall>x \<in> set xs. small x"
    and "run (Asn1_child 0 tag # map deeper xs) c0 = (True, c)" and "CBB_finish c 0 False = (Some out, c')"
  shows "CBS_get_any_asn1 (out @ rest) = (Some (render (steps xs [(Plain 0, [])]), tag), rest)"
  using built_child [OF assms(1,2,4,5), of Asn1] assms(3)
  by (auto simp: CBS_get_any_asn1_iff der_element_def der_header_def)

theorem built_element_read_back_witness:
  "\<exists>c c' out. run (Asn1_child 0 0x20000011 # map deeper [Bool 0 1, U8 0 5]) (snd (CBB_init 64 [])) = (True, c) \<and>
     CBB_finish c 0 False = (Some out, c') \<and>
     CBS_get_any_asn1 (out @ [9]) = (Some ([1, 1, 0xff, 5], 0x20000011), [9])"
proof -
  let ?xs = "[Bool 0 1, U8 0 5]"
  have i: "CBB_init 64 [] = (True, snd (CBB_init 64 []))" by (simp add: CBB_init_def cbb_init_def Let_def)
  have a: "all_admissible 64 (Asn1_child 0 0x20000011 # map deeper ?xs) [(Plain 0, [])]"
    "all_fit (tl (steps (Asn1_child 0 0x20000011 # map deeper ?xs) [(Plain 0, [])]))"
    "length (render (steps (Asn1_child 0 0x20000011 # map deeper ?xs) [(Plain 0, [])])) \<le> 64"
    by (simp_all add: frame_eval)
  obtain c c' out where r: "run (Asn1_child 0 0x20000011 # map deeper ?xs) (snd (CBB_init 64 [])) = (True, c)"
    "CBB_finish c 0 False = (Some out, c')"
    using fresh_run(1) [OF a(1) _ a(2,3)] by (auto simp: size_mod_def)
  have "CBS_get_any_asn1 (out @ [9]) = (Some (render (steps ?xs [(Plain 0, [])]), 0x20000011), [9])"
    by (rule built_element_read_back [OF i _ _ r]) (simp_all add: size_mod_def)
  then have "CBS_get_any_asn1 (out @ [9]) = (Some ([1, 1, 0xff, 5], 0x20000011), [9])"
    by (simp add: frame_eval)
  with r show ?thesis by blast
qed

text \<open>
  What a script writes through a 16-bit length-prefixed child is read back by
  \<open>CBS_get_u16_length_prefixed\<close>.
\<close>

theorem built_prefixed_read_back:
  assumes "CBB_init n h = (True, c0)" and "n < size_mod" and "\<forall>x \<in> set xs. small x"
    and "run (Prefixed16 0 # map deeper xs) c0 = (True, c)" and "CBB_finish c 0 False = (Some out, c')"
  shows "CBS_get_u16_length_prefixed (out @ rest) = (Some (render (steps xs [(Plain 0, [])])), rest)"
  using built_child [OF assms(1,2,4,5), of "Plain 2"] assms(3) u16_prefixed.dec_enc by auto

theorem built_prefixed_read_back_witness:
  "\<exists>c c' out. run (Prefixed16 0 # map deeper [Bool 0 1, U8 0 5]) (snd (CBB_init 64 [])) = (True, c) \<and>
     CBB_finish c 0 False = (Some out, c') \<and>
     CBS_get_u16_length_prefixed (out @ [9]) = (Some [1, 1, 0xff, 5], [9])"
proof -
  let ?xs = "[Bool 0 1, U8 0 5]"
  have i: "CBB_init 64 [] = (True, snd (CBB_init 64 []))" by (simp add: CBB_init_def cbb_init_def Let_def)
  have a: "all_admissible 64 (Prefixed16 0 # map deeper ?xs) [(Plain 0, [])]"
    "all_fit (tl (steps (Prefixed16 0 # map deeper ?xs) [(Plain 0, [])]))"
    "length (render (steps (Prefixed16 0 # map deeper ?xs) [(Plain 0, [])])) \<le> 64"
    by (simp_all add: frame_eval)
  obtain c c' out where r: "run (Prefixed16 0 # map deeper ?xs) (snd (CBB_init 64 [])) = (True, c)"
    "CBB_finish c 0 False = (Some out, c')"
    using fresh_run(1) [OF a(1) _ a(2,3)] by (auto simp: size_mod_def)
  have "CBS_get_u16_length_prefixed (out @ [9]) = (Some (render (steps ?xs [(Plain 0, [])])), [9])"
    by (rule built_prefixed_read_back [OF i _ _ r]) (simp_all add: size_mod_def)
  then have "CBS_get_u16_length_prefixed (out @ [9]) = (Some [1, 1, 0xff, 5], [9])"
    by (simp add: frame_eval)
  with r show ?thesis by blast
qed

end
