(* ===== verification/OID.thy ===== *)
theory OID
  imports Builder
begin

text \<open>
  Object identifiers: \<open>CBB_add_asn1_oid_from_text\<close> of \<open>cbb.c\<close>, which parses dotted decimal text,
  and \<open>CBS_asn1_oid_to_text\<close> of \<open>cbs.c\<close>, which prints it. Both are compared with one
  specification: the list of arcs, its base-128 encoding and its decimal text.
\<close>

section \<open>Text to DER\<close>

fun dotted_loop :: "uint64 \<Rightarrow> bool \<Rightarrow> uint64 reader" where
  "dotted_loop out seen_digit [] = (if seen_digit then Some out else None, [])"
| "dotted_loop out seen_digit (u # cbs) =
     (if u = 46 \<and> CBS_len cbs > 0 then (if seen_digit then Some out else None, cbs)
      else if u < 48 \<or> u > 57 \<or> (seen_digit \<and> out = 0) \<or> out > - 1 div 10
        \<or> out * 10 > - 1 - ucast (u - 48) then (None, cbs)
      else dotted_loop (out * 10 + ucast (u - 48)) True cbs)"

definition parse_dotted_decimal :: "uint64 reader" where
  "parse_dotted_decimal = dotted_loop 0 False"

lemma dotted_shorter: "dotted_loop out seen cbs = (Some v, rest) \<Longrightarrow> cbs \<noteq> [] \<Longrightarrow> length rest < length cbs"
proof (induction cbs arbitrary: out seen)
  case (Cons u cbs)
  then show ?case by (cases "cbs = []") (auto split: if_splits intro: less_SucI)
qed simp

lemma parse_dotted_shorter:
  "parse_dotted_decimal cbs = (Some v, rest) \<Longrightarrow> cbs \<noteq> [] \<Longrightarrow> length rest < length cbs"
  unfolding parse_dotted_decimal_def by (rule dotted_shorter)

lemma ok_then_cong [fundef_cong]:
  "r = r' \<Longrightarrow> (\<And>c. r' = (True, c) \<Longrightarrow> f c = g c) \<Longrightarrow> ok_then r f = ok_then r' g"
  by (auto simp: ok_then_def split: prod.splits)

text \<open>The while loop over the remaining components.\<close>

function oid_components_loop :: "cbb \<Rightarrow> nat \<Rightarrow> cbs \<Rightarrow> bool \<times> cbb" where
  "oid_components_loop cbb h cbs =
     (if \<not> CBS_len cbs > 0 then (True, cbb)
      else case parse_dotted_decimal cbs of
        (None, _) \<Rightarrow> (False, cbb)
      | (Some a, cbs') \<Rightarrow>
          ok_then (add_base128_integer cbb h a) (\<lambda>c. oid_components_loop c h cbs'))"
  by pat_completeness auto
termination
  by (relation "measure (\<lambda>(_, _, cbs). length cbs)")
    (auto simp: CBS_len_def dest!: sym [of "(Some _, _)"] intro: parse_dotted_shorter)

declare oid_components_loop.simps [simp del]

definition CBB_add_asn1_oid_from_text :: "cbb \<Rightarrow> nat \<Rightarrow> byte list \<Rightarrow> bool \<times> cbb" where
  "CBB_add_asn1_oid_from_text cbb h text =
     ok_then (CBB_flush cbb h) (\<lambda>c.
       case parse_dotted_decimal text of
         (None, _) \<Rightarrow> (False, c)
       | (Some a, cbs) \<Rightarrow>
         (case parse_dotted_decimal cbs of
           (None, _) \<Rightarrow> (False, c)
         | (Some b, cbs') \<Rightarrow>
             if a > 2 \<or> (a < 2 \<and> b > 39) \<or> b > - 1 - 80 then (False, c)
             else ok_then (add_base128_integer c h (40 * a + b)) (\<lambda>c'. oid_components_loop c' h cbs')))"

lemma parse_base128_shorter: "parse_base128_integer cbs = (Some v, rest) \<Longrightarrow> length rest < length cbs"
  by (simp add: parse_base128_integer_iff b128_def)

section \<open>DER to text\<close>

text \<open>What \<open>BIO_snprintf\<close> prints for \<open>PRIu64\<close>: the decimal digits.\<close>

fun decimal :: "nat \<Rightarrow> byte list" where
  "decimal n = (if n < 10 then [word_of_nat (48 + n)] else decimal (n div 10) @ [word_of_nat (48 + n mod 10)])"

declare decimal.simps [simp del]

definition add_decimal :: "cbb \<Rightarrow> nat \<Rightarrow> uint64 \<Rightarrow> bool \<times> cbb" where
  "add_decimal out h v = CBB_add_bytes out h (decimal (unat v))"

function oid_text_loop :: "cbb \<Rightarrow> cbs \<Rightarrow> bool \<times> cbb" where
  "oid_text_loop cbb copy =
     (if CBS_len copy = 0 then (True, cbb)
      else case parse_base128_integer copy of
        (None, _) \<Rightarrow> (False, cbb)
      | (Some v, copy') \<Rightarrow>
          ok_then (CBB_add_u8 cbb 0 46) (\<lambda>c.
            ok_then (add_decimal c 0 v) (\<lambda>c'. oid_text_loop c' copy')))"
  by pat_completeness auto
termination
  by (relation "measure (\<lambda>(_, cbs). length cbs)")
    (auto simp: CBS_len_def dest!: sym [of "(Some _, _)"] intro: parse_base128_shorter)

declare oid_text_loop.simps [simp del]

text \<open>The string that is returned, with the NUL that ends it.\<close>

definition CBS_asn1_oid_to_text :: "cbs \<Rightarrow> heap \<Rightarrow> byte list option" where
  "CBS_asn1_oid_to_text cbs heap =
     (case CBB_init 32 heap of
       (False, _) \<Rightarrow> None
     | (True, cbb) \<Rightarrow>
       (case parse_base128_integer cbs of
         (None, _) \<Rightarrow> None
       | (Some v, copy) \<Rightarrow>
         (case ok_then
             (if v \<ge> 80 then ok_then (CBB_add_bytes cbb 0 [50, 46]) (\<lambda>c. add_decimal c 0 (v - 80))
              else ok_then (add_decimal cbb 0 (v div 40)) (\<lambda>c.
                     ok_then (CBB_add_u8 c 0 46) (\<lambda>c'. add_decimal c' 0 (v mod 40))))
             (\<lambda>c. ok_then (oid_text_loop c copy) (\<lambda>c'. CBB_add_u8 c' 0 0)) of
           (False, _) \<Rightarrow> None
         | (True, c) \<Rightarrow> fst (CBB_finish c 0 False))))"

section \<open>Decimal numbers\<close>

definition digit :: "byte \<Rightarrow> bool" where
  "digit u \<longleftrightarrow> 48 \<le> unat u \<and> unat u \<le> 57"

definition dec_val :: "byte list \<Rightarrow> nat" where
  "dec_val ds = foldl (\<lambda>r u. r * 10 + (unat u - 48)) 0 ds"

definition is_decimal :: "byte list \<Rightarrow> bool" where
  "is_decimal ds \<longleftrightarrow> ds \<noteq> [] \<and> (\<forall>u \<in> set ds. digit u) \<and> (hd ds = 48 \<longrightarrow> ds = [48])"

lemma dec_val_Nil [simp]: "dec_val [] = 0"
  by (simp add: dec_val_def)

lemma dec_val_snoc [simp]: "dec_val (ds @ [u]) = dec_val ds * 10 + (unat u - 48)"
  by (simp add: dec_val_def)

lemma dec_val_one [simp]: "dec_val [u] = unat u - 48"
  by (simp add: dec_val_def)

lemma dec_val_append: "dec_val ds \<le> dec_val (ds @ es)"
  by (induction es rule: rev_induct) (simp_all add: append_assoc [symmetric] del: append_assoc)

lemma is_decimal_snoc:
  "is_decimal (ds @ [u]) \<longleftrightarrow> digit u \<and> (ds = [] \<or> is_decimal ds \<and> ds \<noteq> [48])"
  by (cases ds) (auto simp: is_decimal_def)

lemma is_decimal_prefix: "is_decimal (ds @ es) \<Longrightarrow> ds \<noteq> [] \<Longrightarrow> is_decimal ds"
  by (cases ds) (auto simp: is_decimal_def)

lemma dec_val_0: "is_decimal ds \<Longrightarrow> dec_val ds = 0 \<longleftrightarrow> ds = [48]"
proof (induction ds rule: rev_induct)
  case (snoc u ds)
  then show ?case
    by (auto simp: is_decimal_snoc digit_def word_unat_eq_iff)
qed (simp add: is_decimal_def)

lemma digit_of: "d < 10 \<Longrightarrow> digit (word_of_nat (48 + d)) \<and> unat (word_of_nat (48 + d) :: byte) = 48 + d"
  by (simp add: digit_def unat_small del: of_nat_add)

lemma decimal_value: "is_decimal (decimal n) \<and> dec_val (decimal n) = n"
proof (induction n rule: decimal.induct)
  case (1 n)
  show ?case
  proof (cases "n < 10")
    case True
    then have "decimal n = [word_of_nat (48 + n)]" by (simp add: decimal.simps)
    with digit_of [OF True] show ?thesis by (auto simp: is_decimal_def word_unat_eq_iff)
  next
    case False
    with 1 have IH: "is_decimal (decimal (n div 10))" "dec_val (decimal (n div 10)) = n div 10" by auto
    have "decimal n = decimal (n div 10) @ [word_of_nat (48 + n mod 10)]"
      using False by (simp add: decimal.simps [of n])
    moreover have "decimal (n div 10) \<noteq> [48]" using dec_val_0 [OF IH(1)] IH(2) False by auto
    ultimately show ?thesis using IH digit_of [of "n mod 10"] by (simp add: is_decimal_snoc del: of_nat_add)
  qed
qed

lemma decimal_unique: "is_decimal ds \<Longrightarrow> decimal (dec_val ds) = ds"
proof (induction ds rule: rev_induct)
  case (snoc u ds)
  have u: "digit u" using snoc.prems by (simp add: is_decimal_snoc)
  then have w: "word_of_nat (48 + (unat u - 48)) = u" "unat u - 48 < 10" by (auto simp: digit_def)
  show ?case
  proof (cases "ds = []")
    case True
    with w show ?thesis by (simp add: decimal.simps del: of_nat_add)
  next
    case False
    then have d: "is_decimal ds" "ds \<noteq> [48]" using snoc.prems by (auto simp: is_decimal_snoc)
    then have "0 < dec_val ds" by (metis dec_val_0 gr0I)
    moreover have "(dec_val ds * 10 + (unat u - 48)) div 10 = dec_val ds" using w(2) by simp
    moreover have "(dec_val ds * 10 + (unat u - 48)) mod 10 = unat u - 48" using w(2) by simp
    ultimately show ?thesis using snoc.IH [OF d(1)] w
      by (simp add: decimal.simps [of "dec_val ds * 10 + (unat u - 48)"] del: of_nat_add)
  qed
qed (simp add: is_decimal_def)

lemma decimal_iff: "ds = decimal n \<longleftrightarrow> is_decimal ds \<and> dec_val ds = n"
  using decimal_value decimal_unique by metis


section \<open>The language of the parser\<close>

lemma no_overflow:
  fixes out :: uint64
  assumes "digit u"
  shows "\<not> (out > - 1 div 10 \<or> out * 10 > - 1 - ucast (u - 48)) \<longleftrightarrow> unat out * 10 + (unat u - 48) < 2 ^ 64"
    and "unat out * 10 + (unat u - 48) < 2 ^ 64 \<Longrightarrow> unat (out * 10 + ucast (u - 48)) = unat out * 10 + (unat u - 48)"
proof -
  let ?d = "unat u - 48"
  have d: "unat (u - 48) = ?d" using assms by (simp add: digit_def unat_sub word_le_nat_alt)
  have "?d \<le> 9" using assms by (auto simp: digit_def)
  then have d64: "unat (ucast (u - 48) :: uint64) = ?d" "?d \<le> 9" using d by simp_all
  have top: "unat (- 1 - ucast (u - 48) :: uint64) = 2 ^ 64 - 1 - ?d"
  proof -
    have "- 1 - x = NOT x" for x :: uint64 by (simp add: not_eq_complement)
    then show ?thesis using unat_not [of "ucast (u - 48) :: uint64"] d64 by simp
  qed
  have div: "unat (- 1 div 10 :: uint64) = (2 ^ 64 - 1) div 10" by (simp add: unat_div)
  show "\<not> (out > - 1 div 10 \<or> out * 10 > - 1 - ucast (u - 48)) \<longleftrightarrow> unat out * 10 + (unat u - 48) < 2 ^ 64"
  proof (cases "out > - 1 div 10")
    case True
    then have "(2 ^ 64 - 1) div 10 < unat out" using div by (simp add: word_less_nat_alt)
    with True show ?thesis by simp
  next
    case False
    then have "unat out \<le> (2 ^ 64 - 1) div 10" using div by (simp add: word_less_nat_alt not_less)
    moreover from this have "unat (out * 10) = unat out * 10" by (simp add: unat_word_ariths)
    ultimately show ?thesis using False top d64 by (simp add: word_less_nat_alt not_less) linarith
  qed
  show "unat (out * 10 + ucast (u - 48)) = unat out * 10 + ?d" if "unat out * 10 + ?d < 2 ^ 64"
    using that d64 by (simp add: unat_word_ariths mod_simps)
qed

lemma dotted_loop_seen:
  assumes "is_decimal p" and "dec_val p = unat out"
  shows "dotted_loop out True cbs = (Some v, rest) \<longleftrightarrow>
    (\<exists>ds. is_decimal (p @ ds) \<and> dec_val (p @ ds) = unat v \<and>
      (cbs = ds \<and> rest = [] \<or> rest \<noteq> [] \<and> cbs = ds @ 46 # rest))"
  using assms
proof (induction cbs arbitrary: out p)
  case Nil
  then show ?case by (auto simp: word_unat_eq_iff)
next
  case (Cons u cbs)
  show ?case
  proof (cases "digit u")
    case False
    have "\<not> is_decimal (p @ u # ds)" for ds using False by (simp add: is_decimal_def)
    then have R: "(\<exists>ds. is_decimal (p @ ds) \<and> dec_val (p @ ds) = unat v \<and>
      (u # cbs = ds \<and> rest = [] \<or> rest \<noteq> [] \<and> u # cbs = ds @ 46 # rest)) \<longleftrightarrow>
      dec_val p = unat v \<and> u = 46 \<and> cbs = rest \<and> rest \<noteq> []"
      using Cons.prems by (auto simp: Cons_eq_append_conv)
    have "u < 48 \<or> u > 57" using False by (auto simp: digit_def word_less_nat_alt)
    then show ?thesis unfolding R using Cons.prems(2) by (auto simp: CBS_len_def word_unat_eq_iff)
  next
    case True
    then have nd: "u \<noteq> 46" "\<not> u < 48" "\<not> u > 57" by (auto simp: digit_def word_less_nat_alt)
    have R: "(\<exists>ds. is_decimal (p @ ds) \<and> dec_val (p @ ds) = unat v \<and>
        (u # cbs = ds \<and> rest = [] \<or> rest \<noteq> [] \<and> u # cbs = ds @ 46 # rest)) \<longleftrightarrow>
      (\<exists>ds. is_decimal ((p @ [u]) @ ds) \<and> dec_val ((p @ [u]) @ ds) = unat v \<and>
        (cbs = ds \<and> rest = [] \<or> rest \<noteq> [] \<and> cbs = ds @ 46 # rest))"
      using nd(1) by (auto simp: Cons_eq_append_conv)
    let ?n = "unat out * 10 + (unat u - 48)"
    show ?thesis
    proof (cases "out = 0 \<or> \<not> ?n < 2 ^ 64")
      case bad: True
      then have "dotted_loop out True (u # cbs) = (None, cbs)"
        using nd no_overflow(1) [OF True, of out] by auto
      moreover have "\<not> (is_decimal ((p @ [u]) @ ds) \<and> dec_val ((p @ [u]) @ ds) = unat v)" for ds
      proof
        assume a: "is_decimal ((p @ [u]) @ ds) \<and> dec_val ((p @ [u]) @ ds) = unat v"
        then have "is_decimal (p @ [u])" by (metis is_decimal_prefix snoc_eq_iff_butlast)
        then have "p \<noteq> [48]" using Cons.prems(1) by (auto simp: is_decimal_snoc is_decimal_def)
        then have "out \<noteq> 0" using dec_val_0 [OF Cons.prems(1)] Cons.prems(2) by (metis unat_0)
        moreover have "dec_val (p @ [u]) \<le> unat v" using a dec_val_append by metis
        then have "?n < 2 ^ 64" using Cons.prems(2) unsigned_less [of v, where ?'a = nat] by simp
        ultimately show False using bad by blast
      qed
      ultimately show ?thesis unfolding R by auto
    next
      case False
      then have good: "dotted_loop out True (u # cbs) = dotted_loop (out * 10 + ucast (u - 48)) True cbs"
        using nd no_overflow(1) [OF True, of out] by auto
      have "p \<noteq> [48]" using False Cons.prems by (auto simp: word_unat_eq_iff)
      then have 1: "is_decimal (p @ [u])" using Cons.prems True by (simp add: is_decimal_snoc)
      have 2: "dec_val (p @ [u]) = unat (out * 10 + ucast (u - 48))"
        using no_overflow(2) [OF True, of out] False Cons.prems(2) by simp
      show ?thesis unfolding R good by (rule Cons.IH [OF 1 2])
    qed
  qed
qed


lemma parse_dotted_iff:
  "parse_dotted_decimal cbs = (Some v, rest) \<longleftrightarrow>
    cbs = decimal (unat v) \<and> rest = [] \<or> rest \<noteq> [] \<and> cbs = decimal (unat v) @ 46 # rest"
proof (cases cbs)
  case Nil
  then show ?thesis using decimal_value [of "unat v"] by (auto simp: parse_dotted_decimal_def is_decimal_def)
next
  case (Cons u us)
  have "(\<exists>ds. is_decimal ([u] @ ds) \<and> dec_val ([u] @ ds) = unat v \<and>
      (us = ds \<and> rest = [] \<or> rest \<noteq> [] \<and> us = ds @ 46 # rest)) \<longleftrightarrow>
    (\<exists>es. es \<noteq> [] \<and> es = decimal (unat v) \<and>
      (cbs = es \<and> rest = [] \<or> rest \<noteq> [] \<and> cbs = es @ 46 # rest))" if "digit u"
    unfolding decimal_iff Cons using that
    by (auto simp: append_eq_Cons_conv Cons_eq_append_conv digit_def)
  then have R: "(\<exists>ds. is_decimal ([u] @ ds) \<and> dec_val ([u] @ ds) = unat v \<and>
      (us = ds \<and> rest = [] \<or> rest \<noteq> [] \<and> us = ds @ 46 # rest)) \<longleftrightarrow>
    cbs = decimal (unat v) \<and> rest = [] \<or> rest \<noteq> [] \<and> cbs = decimal (unat v) @ 46 # rest" if "digit u"
    using that decimal_value [of "unat v"] by (auto simp: is_decimal_def)
  show ?thesis
  proof (cases "digit u")
    case False
    have "decimal (unat v) \<noteq> u # ds" for ds using False decimal_value [of "unat v"] by (auto simp: is_decimal_def)
    moreover have "decimal (unat v) \<noteq> []" using decimal_value [of "unat v"] by (simp add: is_decimal_def)
    ultimately have "\<not> (cbs = decimal (unat v) \<and> rest = [] \<or> rest \<noteq> [] \<and> cbs = decimal (unat v) @ 46 # rest)"
      by (auto simp: Cons Cons_eq_append_conv dest: sym)
    moreover have "u < 48 \<or> u > 57" using False by (auto simp: digit_def word_less_nat_alt)
    ultimately show ?thesis by (auto simp: Cons parse_dotted_decimal_def CBS_len_def)
  next
    case True
    have nd: "u \<noteq> 46" "\<not> u < 48" "\<not> u > 57" using True by (auto simp: digit_def word_less_nat_alt)
    have "unat u - 48 \<le> 9" using True unfolding digit_def by linarith
    then have sm: "unat u - 48 < 2 ^ 64" by simp
    have o: "unat (0 * 10 + ucast (u - 48) :: uint64) = unat u - 48"
      using no_overflow(2) [OF True, of 0] sm by simp
    have "dotted_loop 0 False (u # us) = dotted_loop (0 * 10 + ucast (u - 48)) True us"
      using nd no_overflow(1) [OF True, of 0] sm by auto
    moreover have "is_decimal [u]" using True by (simp add: is_decimal_def)
    ultimately show ?thesis
      using dotted_loop_seen [of "[u]" "0 * 10 + ucast (u - 48)" us v rest] o R [OF True]
      by (simp add: Cons parse_dotted_decimal_def)
  qed
qed

fun dotted :: "nat list \<Rightarrow> byte list" where
  "dotted [] = []"
| "dotted [v] = decimal v"
| "dotted (v # w # vs) = decimal v @ 46 # dotted (w # vs)"

lemma decimal_nonempty [simp]: "decimal n \<noteq> []"
  using decimal_value [of n] by (simp add: is_decimal_def)

lemma dotted_nonempty [simp]: "dotted (v # vs) \<noteq> []"
  by (cases vs) simp_all

lemma parse_dotted_cons:
  "parse_dotted_decimal cbs = (Some v, dotted vs) \<longleftrightarrow> cbs = dotted (unat v # vs)"
  by (cases vs) (auto simp: parse_dotted_iff)

section \<open>Object identifiers\<close>

definition oid_ok :: "nat list \<Rightarrow> bool" where
  "oid_ok vs \<longleftrightarrow> (\<exists>a b ws. vs = a # b # ws \<and> a \<le> 2 \<and> (a < 2 \<longrightarrow> b \<le> 39) \<and> 40 * a + b < 2 ^ 64 \<and>
     (\<forall>w \<in> set ws. w < 2 ^ 64))"

definition oid_der :: "nat list \<Rightarrow> byte list" where
  "oid_der vs = b128 (40 * vs ! 0 + vs ! 1) @ concat (map b128 (drop 2 vs))"

lemma components_loop_represents:
  assumes "represents c fs" and "length fs = Suc h" and "oid_components_loop c h cbs = (True, c')"
  shows "\<exists>vs. cbs = dotted vs \<and> (\<forall>v \<in> set vs. v < 2 ^ 64) \<and> represents c' (awrite h (concat (map b128 vs)) fs)"
  using assms
proof (induction c h cbs arbitrary: fs rule: oid_components_loop.induct)
  case (1 c h cbs)
  show ?case
  proof (cases "cbs = []")
    case True
    with 1 show ?thesis
      by (intro exI [of _ "[]"]) (simp add: oid_components_loop.simps CBS_len_def awrite_Nil)
  next
    case False
    then obtain v rest c1 where v: "parse_dotted_decimal cbs = (Some v, rest)"
      and c1: "add_base128_integer c h v = (True, c1)" and loop: "oid_components_loop c1 h rest = (True, c')"
      using "1.prems"(3)
      by (auto simp: oid_components_loop.simps [of c h cbs] CBS_len_def elim!: ok_then_True split: prod.splits option.splits)
    have "represents c1 (awrite h (b128 (unat v)) fs)"
      by (rule add_base128_integer_represents [OF "1.prems"(1,2) c1])
    from "1.IH" [OF _ v [symmetric] refl c1 this _ loop] False "1.prems"(2)
    obtain vs where vs: "rest = dotted vs" "\<forall>v \<in> set vs. v < 2 ^ 64"
      "represents c' (awrite h (concat (map b128 vs)) (awrite h (b128 (unat v)) fs))"
      by (auto simp: CBS_len_def)
    have "unat v < 2 ^ 64" using unsigned_less [of v, where ?'a = nat] by simp
    with vs v "1.prems"(2) show ?thesis
      by (intro exI [of _ "unat v # vs"]) (simp add: parse_dotted_cons)
  qed
qed

lemma oid_head:
  fixes a b :: uint64
  assumes "\<not> (a > 2 \<or> (a < 2 \<and> b > 39) \<or> b > - 1 - 80)"
  shows "unat (40 * a + b) = 40 * unat a + unat b" and "unat a \<le> 2" and "unat a < 2 \<longrightarrow> unat b \<le> 39"
    and "40 * unat a + unat b < 2 ^ 64"
proof -
  show a: "unat a \<le> 2" and b: "unat a < 2 \<longrightarrow> unat b \<le> 39"
    using assms by (auto simp: word_less_nat_alt not_less)
  have "unat b \<le> 2 ^ 64 - 81" using assms by (simp add: word_less_nat_alt not_less)
  with a show lt: "40 * unat a + unat b < 2 ^ 64" by simp
  with a show "unat (40 * a + b) = 40 * unat a + unat b" by (simp add: unat_word_ariths mod_simps)
qed

lemma oid_from_text_represents:
  assumes "represents c fs" and "h < length fs" and "CBB_add_asn1_oid_from_text c h text = (True, c')"
  shows "\<exists>vs. oid_ok vs \<and> text = dotted vs \<and> represents c' (awrite h (oid_der vs) fs)"
proof -
  obtain c0 a b cbs cbs' c1 where fl: "CBB_flush c h = (True, c0)"
    and a: "parse_dotted_decimal text = (Some a, cbs)" and b: "parse_dotted_decimal cbs = (Some b, cbs')"
    and ok: "\<not> (a > 2 \<or> (a < 2 \<and> b > 39) \<or> b > - 1 - 80)"
    and c1: "add_base128_integer c0 h (40 * a + b) = (True, c1)"
    and loop: "oid_components_loop c1 h cbs' = (True, c')"
    using assms(3) unfolding CBB_add_asn1_oid_from_text_def
    by (auto elim!: ok_then_True split: prod.splits option.splits if_splits)
  have r0: "represents c0 (aflush h fs)" using CBB_flush_represents [OF assms(1,2) fl] by simp
  have "represents c1 (awrite h (b128 (unat (40 * a + b))) (aflush h fs))"
    by (rule add_base128_integer_represents [OF r0 _ c1]) (use assms(2) in simp)
  from components_loop_represents [OF this _ loop] assms(2)
  obtain vs where vs: "cbs' = dotted vs" "\<forall>v \<in> set vs. v < 2 ^ 64"
    "represents c' (awrite h (b128 (unat (40 * a + b)) @ concat (map b128 vs)) fs)" by auto
  have "text = dotted (unat a # unat b # vs)"
    using a b vs(1) by (simp only: parse_dotted_cons)
  moreover have "oid_ok (unat a # unat b # vs)" using oid_head [OF ok] vs(2) by (simp add: oid_ok_def)
  ultimately show ?thesis
    using vs(3) oid_head(1) [OF ok] by (intro exI [of _ "unat a # unat b # vs"]) (simp add: oid_der_def)
qed


text \<open>The converse: a valid text is accepted while there is room.\<close>

lemma delivers_components:
  assumes "length fs = Suc h" and "\<forall>v \<in> set vs. v < 2 ^ 64"
    and "length (raw (awrite h (concat (map b128 vs)) fs)) \<le> N"
  shows "delivers N (\<lambda>c. oid_components_loop c h (dotted vs)) fs (awrite h (concat (map b128 vs)) fs)"
  using assms
proof (induction vs arbitrary: fs)
  case Nil
  then show ?case by (simp add: oid_components_loop.simps CBS_len_def delivers_id awrite_Nil)
next
  case (Cons v vs)
  let ?v = "word_of_nat v :: uint64"
  have v: "unat ?v = v" using Cons.prems(2) by (intro unat_small) simp
  have p: "parse_dotted_decimal (dotted (v # vs)) = (Some ?v, dotted vs)" by (simp add: parse_dotted_cons v)
  have 1: "delivers N (\<lambda>c. add_base128_integer c h ?v) fs (awrite h (b128 v) fs)"
    using delivers_base128 [of fs h ?v N] Cons.prems by (simp add: v raw_awrite)
  have 2: "delivers N (\<lambda>c. oid_components_loop c h (dotted vs)) (awrite h (b128 v) fs)
      (awrite h (concat (map b128 vs)) (awrite h (b128 v) fs))"
    using Cons.prems by (intro Cons.IH) simp_all
  show ?case using delivers_then [OF 1 2] Cons.prems(1)
    by (simp add: oid_components_loop.simps [of _ _ "dotted (v # vs)"] CBS_len_def p)
qed

lemma delivers_oid_from_text:
  assumes "h < length fs" and "all_fit (drop (Suc h) fs)" and "oid_ok vs"
    and N: "length (raw (awrite h (oid_der vs) fs)) \<le> N"
  shows "delivers N (\<lambda>c. CBB_add_asn1_oid_from_text c h (dotted vs)) fs (awrite h (oid_der vs) fs)"
proof -
  obtain a b ws where vs: "vs = a # b # ws" and a: "a \<le> 2" "a < 2 \<longrightarrow> b \<le> 39" "40 * a + b < 2 ^ 64"
    and ws: "\<forall>w \<in> set ws. w < 2 ^ 64"
    using assms(3) by (auto simp: oid_ok_def)
  let ?a = "word_of_nat a :: uint64" and ?b = "word_of_nat b :: uint64"
  have u: "unat ?a = a" "unat ?b = b" using a by (intro unat_small; simp)+
  have p: "parse_dotted_decimal (dotted vs) = (Some ?a, dotted (b # ws))"
    "parse_dotted_decimal (dotted (b # ws)) = (Some ?b, dotted ws)"
    by (simp_all only: parse_dotted_cons u vs)
  have b: "b \<le> 2 ^ 64 - 81" using a by (cases "a = 2") (auto simp: le_less_Suc_eq)
  have ok: "\<not> (?a > 2 \<or> (?a < 2 \<and> ?b > 39) \<or> ?b > - 1 - 80)"
    using a b by (auto simp: word_less_nat_alt not_less u)
  note sum = oid_head(1) [OF ok, unfolded u]
  have der: "oid_der vs = b128 (40 * a + b) @ concat (map b128 ws)" by (simp add: oid_der_def vs)
  have len: "length (aflush h fs) = Suc h" using assms(1) by simp
  have 1: "delivers N (\<lambda>c. CBB_flush c h) fs (aflush h fs)"
    using assms(1,2) N by (intro delivers_flush) (simp_all add: raw_awrite)
  have 2: "delivers N (\<lambda>c. add_base128_integer c h (40 * ?a + ?b)) (aflush h fs) (awrite h (b128 (40 * a + b)) fs)"
    using delivers_base128 [OF len, of "40 * ?a + ?b" N] N assms(1) by (simp add: sum der raw_awrite)
  have 3: "delivers N (\<lambda>c. oid_components_loop c h (dotted ws)) (awrite h (b128 (40 * a + b)) fs) (awrite h (oid_der vs) fs)"
    using delivers_components [of "awrite h (b128 (40 * a + b)) fs" h ws N] ws N assms(1) by (simp add: der)
  show ?thesis using delivers_then [OF 1 delivers_then [OF 2 3]] ok
    unfolding CBB_add_asn1_oid_from_text_def by (simp only: p prod.case option.case ok if_False)
qed

section \<open>Printing\<close>

lemma add_decimal_represents:
  assumes "represents c fs" and "h < length fs" and "add_decimal c h v = (True, c')"
  shows "represents c' (awrite h (decimal (unat v)) fs)"
proof -
  have "length (decimal n) \<le> Suc n" for n
  proof (induction n rule: decimal.induct)
    case (1 n)
    then show ?case by (cases "n < 10") (auto simp: decimal.simps [of n])
  qed
  from this [of "unat v"] unsigned_less [of v, where ?'a = nat]
  have "length (decimal (unat v)) < size_mod \<or> unat v = 2 ^ 64 - 1" by (auto simp: size_mod_def)
  then have "length (decimal (unat v)) < size_mod"
  proof
    assume "unat v = 2 ^ 64 - 1"
    then show ?thesis by (simp add: size_mod_def decimal.simps)
  qed
  with CBB_add_bytes_represents(1) [OF assms(1,2)] assms(3) show ?thesis by (simp add: add_decimal_def)
qed

definition dot_all :: "nat list \<Rightarrow> byte list" where
  "dot_all vs = concat (map (\<lambda>v. 46 # decimal v) vs)"

lemma dotted_dot_all: "dotted (v # vs) = decimal v @ dot_all vs"
  by (induction vs arbitrary: v) (simp_all add: dot_all_def)

lemma oid_text_loop_represents:
  assumes "represents c fs" and "length fs = Suc 0" and "oid_text_loop c copy = (True, c')"
  shows "\<exists>vs. copy = concat (map b128 vs) \<and> (\<forall>v \<in> set vs. v < 2 ^ 64) \<and> represents c' (awrite 0 (dot_all vs) fs)"
  using assms
proof (induction c copy arbitrary: fs rule: oid_text_loop.induct)
  case (1 c copy)
  show ?case
  proof (cases "copy = []")
    case True
    with 1 show ?thesis
      by (intro exI [of _ "[]"]) (simp add: oid_text_loop.simps CBS_len_def awrite_Nil dot_all_def)
  next
    case False
    then obtain v rest c1 c2 where v: "parse_base128_integer copy = (Some v, rest)"
      and c1: "CBB_add_u8 c 0 46 = (True, c1)" and c2: "add_decimal c1 0 v = (True, c2)"
      and loop: "oid_text_loop c2 rest = (True, c')"
      using "1.prems"(3)
      by (auto simp: oid_text_loop.simps [of c copy] CBS_len_def elim!: ok_then_True split: prod.splits option.splits)
    have "represents c1 (awrite 0 [46] fs)"
      using CBB_add_bytes_represents(1) [OF "1.prems"(1), of 0 "[46]" c1] c1 "1.prems"(2)
      by (simp add: CBB_add_u8_eq size_mod_def)
    from add_decimal_represents [OF this _ c2] "1.prems"(2)
    have "represents c2 (awrite 0 (46 # decimal (unat v)) fs)" by simp
    from "1.IH" [OF _ v [symmetric] refl c1 c2 this _ loop] False "1.prems"(2)
    obtain vs where vs: "rest = concat (map b128 vs)" "\<forall>v \<in> set vs. v < 2 ^ 64"
      "represents c' (awrite 0 (dot_all vs) (awrite 0 (46 # decimal (unat v)) fs))"
      by (auto simp: CBS_len_def)
    have "unat v < 2 ^ 64" using unsigned_less [of v, where ?'a = nat] by simp
    with vs v "1.prems"(2) show ?thesis
      by (intro exI [of _ "unat v # vs"]) (simp add: parse_base128_integer_iff dot_all_def)
  qed
qed


lemma first_arcs:
  assumes "v < 2 ^ 64" and "\<forall>w \<in> set ws. w < 2 ^ 64"
    and "vs = (if 80 \<le> v then 2 # (v - 80) # ws else v div 40 # v mod 40 # ws)"
  shows "oid_ok vs" and "oid_der vs = b128 v @ concat (map b128 ws)"
proof -
  have "v < 80 \<Longrightarrow> v div 40 < 2" by (simp add: div_less_iff_less_mult)
  then show "oid_ok vs" and "oid_der vs = b128 v @ concat (map b128 ws)"
    using assms by (auto simp: oid_ok_def oid_der_def)
qed

lemma oid_to_text_sound:
  assumes "CBS_asn1_oid_to_text cbs heap = Some txt"
  shows "\<exists>vs. oid_ok vs \<and> cbs = oid_der vs \<and> txt = dotted vs @ [0]"
proof -
  obtain c0 v copy c1 c2 c3 where i: "CBB_init 32 heap = (True, c0)"
    and v: "parse_base128_integer cbs = (Some v, copy)"
    and hd: "(if v \<ge> 80 then ok_then (CBB_add_bytes c0 0 [50, 46]) (\<lambda>c. add_decimal c 0 (v - 80))
              else ok_then (add_decimal c0 0 (v div 40)) (\<lambda>c.
                     ok_then (CBB_add_u8 c 0 46) (\<lambda>c'. add_decimal c' 0 (v mod 40)))) = (True, c1)"
    and loop: "oid_text_loop c1 copy = (True, c2)" and z: "CBB_add_bytes c2 0 [0] = (True, c3)"
    and fin: "fst (CBB_finish c3 0 False) = Some txt"
    using assms unfolding CBS_asn1_oid_to_text_def CBB_add_u8_eq
    by (auto elim!: ok_then_True split: prod.splits bool.splits option.splits)
  let ?top = "[(Plain 0, [])]"
  let ?arcs = "\<lambda>ws. if 80 \<le> unat v then 2 # (unat v - 80) # ws else unat v div 40 # unat v mod 40 # ws"
  have r0: "represents c0 ?top" by (rule CBB_init_represents [OF i]) (simp add: size_mod_def)
  have one: "length [x, y :: byte] < size_mod" "length [x] < size_mod" for x y by (simp_all add: size_mod_def)
  have h: "0 < length ?top" by simp
  have d2: "decimal 2 = [50]" by (simp add: decimal.simps)
  have r1: "represents c1 (awrite 0 (dotted (?arcs [])) ?top)"
  proof (cases "80 \<le> unat v")
    case True
    then have "v \<ge> 80" "unat (v - 80) = unat v - 80" by (simp_all add: word_le_nat_alt unat_sub)
    with hd obtain c where c: "CBB_add_bytes c0 0 [50, 46] = (True, c)" "add_decimal c 0 (v - 80) = (True, c1)"
      by (auto elim!: ok_then_True)
    from add_decimal_represents [OF CBB_add_bytes_represents(1) [OF r0 h one(1) c(1)] _ c(2)] True show ?thesis
      using \<open>unat (v - 80) = unat v - 80\<close> by (simp add: d2)
  next
    case False
    then have "\<not> v \<ge> 80" by (simp add: word_le_nat_alt)
    with hd obtain c c' where c: "add_decimal c0 0 (v div 40) = (True, c)" "CBB_add_bytes c 0 [46] = (True, c')"
      "add_decimal c' 0 (v mod 40) = (True, c1)"
      unfolding CBB_add_u8_eq by (auto elim!: ok_then_True)
    have "represents c' (awrite 0 (decimal (unat v div 40) @ [46]) ?top)"
      using CBB_add_bytes_represents(1) [OF add_decimal_represents [OF r0 h c(1)] _ one(2) c(2)]
      by (simp add: unat_div)
    from add_decimal_represents [OF this _ c(3)] False show ?thesis by (simp add: unat_mod)
  qed
  from oid_text_loop_represents [OF r1 _ loop] obtain ws where ws: "copy = concat (map b128 ws)"
    "\<forall>w \<in> set ws. w < 2 ^ 64" "represents c2 (awrite 0 (dotted (?arcs []) @ dot_all ws) ?top)" by auto
  have "represents c3 (awrite 0 (dotted (?arcs []) @ dot_all ws @ [0]) ?top)"
    using CBB_add_bytes_represents(1) [OF ws(3) _ one(2) z] by simp
  moreover obtain c4 where "CBB_finish c3 0 False = (Some txt, c4)"
    using fin by (cases "CBB_finish c3 0 False") auto
  ultimately have "txt = dotted (?arcs []) @ dot_all ws @ [0]"
    using CBB_finish_render(1) by (fastforce simp: awrite_def)
  then have "txt = dotted (?arcs ws) @ [0]" by (simp add: dotted_dot_all dot_all_def)
  moreover have "cbs = b128 (unat v) @ concat (map b128 ws)" using v ws(1) by (simp add: parse_base128_integer_iff)
  moreover have "unat v < 2 ^ 64" using unsigned_less [of v, where ?'a = nat] by simp
  ultimately show ?thesis using first_arcs [of "unat v" ws "?arcs ws"] ws(2) by metis
qed

lemma b128_nonempty [simp]: "b128 v \<noteq> []"
  by (metis b128_def base_len_pos length_b128_bytes less_irrefl list.size(3))

lemma delivers_decimal:
  assumes "length fs = Suc h" and "length (raw (awrite h (decimal (unat v)) fs)) \<le> N"
  shows "delivers N (\<lambda>c. add_decimal c h v) fs (awrite h (decimal (unat v)) fs)"
  unfolding add_decimal_def using assms by (intro delivers_bytes) simp_all

lemma delivers_text_loop:
  assumes "length fs = Suc 0" and "\<forall>v \<in> set vs. v < 2 ^ 64" and "length (raw (awrite 0 (dot_all vs) fs)) \<le> N"
  shows "delivers N (\<lambda>c. oid_text_loop c (concat (map b128 vs))) fs (awrite 0 (dot_all vs) fs)"
  using assms
proof (induction vs arbitrary: fs)
  case Nil
  then show ?case by (simp add: oid_text_loop.simps CBS_len_def delivers_id awrite_Nil dot_all_def)
next
  case (Cons v vs)
  let ?v = "word_of_nat v :: uint64"
  have v: "unat ?v = v" using Cons.prems(2) by (intro unat_small) simp
  have p: "parse_base128_integer (b128 v @ concat (map b128 vs)) = (Some ?v, concat (map b128 vs))"
    by (simp add: parse_base128_integer_iff v)
  have ne: "b128 v @ concat (map b128 vs) \<noteq> []" by simp
  have d: "dot_all (v # vs) = [46] @ decimal v @ dot_all vs" by (simp add: dot_all_def)
  have 1: "delivers N (\<lambda>c. CBB_add_bytes c 0 [46]) fs (awrite 0 [46] fs)"
    using Cons.prems by (intro delivers_bytes) (simp_all add: d raw_awrite)
  have 2: "delivers N (\<lambda>c. add_decimal c 0 ?v) (awrite 0 [46] fs) (awrite 0 ([46] @ decimal v) fs)"
    using delivers_decimal [of "awrite 0 [46] fs" 0 ?v N] Cons.prems by (simp add: v d raw_awrite)
  have 3: "delivers N (\<lambda>c. oid_text_loop c (concat (map b128 vs))) (awrite 0 ([46] @ decimal v) fs)
      (awrite 0 (dot_all vs) (awrite 0 ([46] @ decimal v) fs))"
    using Cons.prems by (intro Cons.IH) (simp_all add: d)
  show ?case using delivers_then [OF 1 delivers_then [OF 2 3]] Cons.prems(1) ne
    by (simp add: oid_text_loop.simps [of _ "b128 v @ concat (map b128 vs)"] CBS_len_def p CBB_add_u8_eq d)
qed

lemma oid_to_text_total:
  assumes "oid_ok vs" and "length (dotted vs) + 1 < size_mod"
  shows "CBS_asn1_oid_to_text (oid_der vs) [] = Some (dotted vs @ [0])"
proof -
  obtain a b ws where vs: "vs = a # b # ws" and a: "a \<le> 2" "a < 2 \<longrightarrow> b \<le> 39" "40 * a + b < 2 ^ 64"
    and ws: "\<forall>w \<in> set ws. w < 2 ^ 64"
    using assms(1) by (auto simp: oid_ok_def)
  define v where "v = (word_of_nat (40 * a + b) :: uint64)"
  have v: "unat v = 40 * a + b" unfolding v_def using a by (intro unat_small) simp
  let ?N = "length (dotted vs) + 1" and ?top = "[(Plain 0, [])] :: frame list"
  let ?head = "decimal a @ 46 # decimal b"
  have d: "dotted vs = ?head @ dot_all ws" by (simp add: vs dotted_dot_all dot_all_def)
  have d2: "decimal 2 = [50]" by (simp add: decimal.simps)
  have raw: "raw (awrite 0 bs ?top) = bs" for bs by (simp add: awrite_def)
  have 1: "delivers ?N (\<lambda>c. if v \<ge> 80 then ok_then (CBB_add_bytes c 0 [50, 46]) (\<lambda>c. add_decimal c 0 (v - 80))
              else ok_then (add_decimal c 0 (v div 40)) (\<lambda>c.
                     ok_then (CBB_add_u8 c 0 46) (\<lambda>c'. add_decimal c' 0 (v mod 40)))) ?top (awrite 0 ?head ?top)"
  proof (cases "a = 2")
    case True
    then have "v \<ge> 80" "unat (v - 80) = b" using v by (simp_all add: word_le_nat_alt unat_sub)
    moreover have "delivers ?N (\<lambda>c. CBB_add_bytes c 0 [50, 46]) ?top (awrite 0 [50, 46] ?top)"
      by (rule delivers_bytes) (use True in \<open>simp_all add: raw d d2\<close>)
    moreover have "delivers ?N (\<lambda>c. add_decimal c 0 (v - 80)) (awrite 0 [50, 46] ?top) (awrite 0 ?head ?top)"
      using delivers_decimal [of "awrite 0 [50, 46] ?top" 0 "v - 80" ?N] True \<open>unat (v - 80) = b\<close>
      by (simp add: raw d d2)
    ultimately show ?thesis using delivers_then by simp
  next
    case False
    then have "a < 2" "b < 40" using a by auto
    then have n: "\<not> v \<ge> 80" "unat (v div 40) = a" "unat (v mod 40) = b"
      using v by (simp_all add: word_le_nat_alt unat_div unat_mod)
    have 1: "delivers ?N (\<lambda>c. add_decimal c 0 (v div 40)) ?top (awrite 0 (decimal a) ?top)"
      using delivers_decimal [of ?top 0 "v div 40" ?N] by (simp add: raw d n)
    have 2: "delivers ?N (\<lambda>c. CBB_add_u8 c 0 46) (awrite 0 (decimal a) ?top) (awrite 0 (decimal a @ [46]) ?top)"
      using delivers_bytes [of 0 "awrite 0 (decimal a) ?top" "[46]" ?N] by (simp add: CBB_add_u8_eq raw d)
    have 3: "delivers ?N (\<lambda>c. add_decimal c 0 (v mod 40)) (awrite 0 (decimal a @ [46]) ?top) (awrite 0 ?head ?top)"
      using delivers_decimal [of "awrite 0 (decimal a @ [46]) ?top" 0 "v mod 40" ?N] by (simp add: raw d n)
    show ?thesis using delivers_then [OF 1 delivers_then [OF 2 3]] n(1) by simp
  qed
  have 2: "delivers ?N (\<lambda>c. oid_text_loop c (concat (map b128 ws))) (awrite 0 ?head ?top) (awrite 0 (dotted vs) ?top)"
    using delivers_text_loop [of "awrite 0 ?head ?top" ws ?N] ws by (simp add: raw d)
  have 3: "delivers ?N (\<lambda>c. CBB_add_u8 c 0 0) (awrite 0 (dotted vs) ?top) (awrite 0 (dotted vs @ [0]) ?top)"
    using delivers_bytes [of 0 "awrite 0 (dotted vs) ?top" "[0]" ?N] by (simp add: CBB_add_u8_eq raw)
  obtain c0 where i: "CBB_init 32 [] = (True, c0)" and c0: "c0 = snd (CBB_init 32 [])"
    by (simp add: CBB_init_def cbb_init_def Let_def)
  have r0: "represents c0 ?top" by (rule CBB_init_represents [OF i]) (simp add: size_mod_def)
  have cap: "capacity c0 ?N" using i assms(2)
    by (auto simp: CBB_init_def cbb_init_def Let_def CBB_zero_def capacity_def)
  from deliversE [OF delivers_then [OF 1 delivers_then [OF 2 3]] r0 cap]
  obtain c where c: "ok_then (if v \<ge> 80 then ok_then (CBB_add_bytes c0 0 [50, 46]) (\<lambda>c. add_decimal c 0 (v - 80))
              else ok_then (add_decimal c0 0 (v div 40)) (\<lambda>c.
                     ok_then (CBB_add_u8 c 0 46) (\<lambda>c'. add_decimal c' 0 (v mod 40))))
      (\<lambda>c. ok_then (oid_text_loop c (concat (map b128 ws))) (\<lambda>c'. CBB_add_u8 c' 0 0)) = (True, c)"
    and rc: "represents c (awrite 0 (dotted vs @ [0]) ?top)" "capacity c ?N" by blast
  have p: "parse_base128_integer (oid_der vs) = (Some v, concat (map b128 ws))"
    by (simp add: parse_base128_integer_iff v oid_der_def vs)
  have "\<exists>c'. CBB_finish c 0 False = (Some (dotted vs @ [0]), c')"
    using CBB_finish_total [OF rc] by (simp add: awrite_def)
  then show ?thesis unfolding CBS_asn1_oid_to_text_def i p prod.case bool.case option.case c by auto
qed


section \<open>Properties\<close>

lemma oid_from_text_finished:
  assumes "CBB_init n h = (True, c0)" and "n < size_mod" and "CBB_add_asn1_oid_from_text c0 0 text = (True, c)"
    and "CBB_finish c 0 False = (Some der, c')"
  shows "\<exists>vs. oid_ok vs \<and> text = dotted vs \<and> der = oid_der vs"
proof -
  have "(0::nat) < length [(Plain 0, [] :: byte list)]" by simp
  from oid_from_text_represents [OF CBB_init_represents [OF assms(1,2)] this assms(3)] obtain vs where
    vs: "oid_ok vs" "text = dotted vs" "represents c (awrite 0 (oid_der vs) [(Plain 0, [])])" by blast
  from CBB_finish_render(1) [OF vs(3) assms(4)] have "der = oid_der vs" by (simp add: awrite_def)
  with vs show ?thesis by blast
qed

lemma oid_from_text_built:
  assumes "oid_ok vs" and "length (oid_der vs) < size_mod"
  shows "\<exists>c c'. CBB_add_asn1_oid_from_text (snd (CBB_init 0 [])) 0 (dotted vs) = (True, c) \<and>
    CBB_finish c 0 False = (Some (oid_der vs), c')"
proof -
  let ?N = "length (oid_der vs)" and ?top = "[(Plain 0, [])] :: frame list"
  have i: "CBB_init 0 [] = (True, snd (CBB_init 0 []))" by (simp add: CBB_init_def cbb_init_def Let_def)
  have r: "represents (snd (CBB_init 0 [])) ?top" by (rule CBB_init_represents [OF i]) simp
  have cap: "capacity (snd (CBB_init 0 [])) ?N" using assms(2)
    by (auto simp: CBB_init_def cbb_init_def Let_def CBB_zero_def capacity_def)
  have "delivers ?N (\<lambda>c. CBB_add_asn1_oid_from_text c 0 (dotted vs)) ?top (awrite 0 (oid_der vs) ?top)"
    by (rule delivers_oid_from_text [OF _ _ assms(1)]) (simp_all add: awrite_def)
  from deliversE [OF this r cap] obtain c where
    c: "CBB_add_asn1_oid_from_text (snd (CBB_init 0 [])) 0 (dotted vs) = (True, c)"
    "represents c (awrite 0 (oid_der vs) ?top)" "capacity c ?N" by blast
  have "\<exists>c'. CBB_finish c 0 False = (Some (oid_der vs), c')"
    using CBB_finish_total [OF c(2,3)] by (simp add: awrite_def)
  with c show ?thesis by blast
qed

text \<open>
  C14: the text of an object identifier that \<open>CBB_add_asn1_oid_from_text\<close> accepted is what
  \<open>CBS_asn1_oid_to_text\<close> prints for the bytes it wrote, followed by the NUL.
\<close>

theorem oid_text_round_trip:
  assumes "CBB_init n h = (True, c0)" and "n < size_mod" and "CBB_add_asn1_oid_from_text c0 0 text = (True, c)"
    and "CBB_finish c 0 False = (Some der, c')" and "length text + 1 < size_mod"
  shows "CBS_asn1_oid_to_text der [] = Some (text @ [0])"
  using oid_from_text_finished [OF assms(1-4)] oid_to_text_total assms(5) by auto

definition sample_oid :: "nat list" where
  "sample_oid = [1, 2, 840]"

lemma sample_oid_text: "dotted sample_oid = [49, 46, 50, 46, 56, 52, 48]"
  by (simp add: sample_oid_def decimal.simps)

lemma sample_oid_der: "oid_ok sample_oid" "oid_der sample_oid = [42, 0x86, 0x48]"
  by (simp_all add: sample_oid_def oid_ok_def oid_der_def b128_def base_len.simps numeral_2_eq_2 [symmetric])
    (simp_all add: numeral_2_eq_2)

theorem oid_text_round_trip_witness:
  "\<exists>c c' der. CBB_add_asn1_oid_from_text (snd (CBB_init 0 [])) 0 [49, 46, 50, 46, 56, 52, 48] = (True, c) \<and>
    CBB_finish c 0 False = (Some der, c') \<and>
    CBS_asn1_oid_to_text der [] = Some [49, 46, 50, 46, 56, 52, 48, 0]"
proof -
  have i: "CBB_init 0 [] = (True, snd (CBB_init 0 []))" by (simp add: CBB_init_def cbb_init_def Let_def)
  obtain c c' where c: "CBB_add_asn1_oid_from_text (snd (CBB_init 0 [])) 0 (dotted sample_oid) = (True, c)"
    "CBB_finish c 0 False = (Some (oid_der sample_oid), c')"
    using oid_from_text_built [OF sample_oid_der(1)] by (auto simp: sample_oid_der size_mod_def)
  have "CBS_asn1_oid_to_text (oid_der sample_oid) [] = Some (dotted sample_oid @ [0])"
    by (rule oid_text_round_trip [OF i _ c]) (simp_all add: sample_oid_text size_mod_def)
  with c show ?thesis unfolding sample_oid_text by auto
qed

text \<open>
  What \<open>CBS_asn1_oid_to_text\<close> prints, without its NUL, is parsed back to the same bytes, so it
  accepts only minimally encoded identifiers, one for each text.
\<close>

theorem oid_print_parse:
  assumes "CBS_asn1_oid_to_text der heap = Some txt" and "length der < size_mod"
  shows "last txt = 0 \<and> (\<exists>c c'. CBB_add_asn1_oid_from_text (snd (CBB_init 0 [])) 0 (butlast txt) = (True, c) \<and>
    CBB_finish c 0 False = (Some der, c'))"
  using oid_to_text_sound [OF assms(1)] oid_from_text_built assms(2) by force

theorem oid_print_parse_witness:
  "\<exists>c c'. CBB_add_asn1_oid_from_text (snd (CBB_init 0 [])) 0 [49, 46, 50, 46, 56, 52, 48] = (True, c) \<and>
    CBB_finish c 0 False = (Some [42, 0x86, 0x48], c')"
proof -
  have "CBS_asn1_oid_to_text [42, 0x86, 0x48] [] = Some [49, 46, 50, 46, 56, 52, 48, 0]"
    using oid_to_text_total [OF sample_oid_der(1)] by (simp add: sample_oid_text sample_oid_der size_mod_def)
  from oid_print_parse [OF this] show ?thesis by (simp add: size_mod_def)
qed

end
