(* ===== verification/SetOf.thy ===== *)
theory SetOf
  imports OID Qsort
begin

text \<open>
  \<open>CBB_flush_asn1_set_of\<close> of \<open>cbb.c\<close>, which sorts the children of a DER \<open>SET OF\<close>, over a
  parameter for the C library's \<open>qsort\<close> and the hypothesis \<open>qsort_ok\<close> that states what the C
  standard says of it; and \<open>CBB_finish_i2d\<close> of \<open>asn1_compat.c\<close>.
\<close>

section \<open>The order of DER encodings\<close>

fun OPENSSL_memcmp :: "byte list \<Rightarrow> byte list \<Rightarrow> int" where
  "OPENSSL_memcmp (a # as) (b # bs) =
     (if a = b then OPENSSL_memcmp as bs else int (unat a) - int (unat b))"
| "OPENSSL_memcmp _ _ = 0"

definition compare_set_of_element :: "cbs \<Rightarrow> cbs \<Rightarrow> int" where
  "compare_set_of_element a b =
     (let a_len = CBS_len a; b_len = CBS_len b;
          min_len = (if a_len < b_len then a_len else b_len);
          ret = OPENSSL_memcmp (take min_len (CBS_data a)) (take min_len (CBS_data b))
      in if ret \<noteq> 0 then ret
         else if a_len = b_len then 0
         else if a_len < b_len then - 1 else 1)"

fun lex_le :: "byte list \<Rightarrow> byte list \<Rightarrow> bool" where
  "lex_le [] bs \<longleftrightarrow> True"
| "lex_le (a # as) [] \<longleftrightarrow> False"
| "lex_le (a # as) (b # bs) \<longleftrightarrow> a < b \<or> a = b \<and> lex_le as bs"

lemma compare_Cons:
  "compare_set_of_element (a # as) (b # bs) =
    (if a = b then compare_set_of_element as bs else uint a - uint b)"
proof -
  have min: "(if Suc (length as) < Suc (length bs) then Suc (length as) else Suc (length bs)) =
    Suc (if length as < length bs then length as else length bs)" by simp
  have "a \<noteq> b \<Longrightarrow> uint a - uint b \<noteq> 0" by (simp add: word_uint_eq_iff)
  then show ?thesis
    unfolding compare_set_of_element_def CBS_len_def CBS_data_def Let_def list.size add_Suc_right add_0_right min take_Suc_Cons
    by simp
qed

lemma compare_le: "compare_set_of_element a b \<le> 0 \<longleftrightarrow> lex_le a b"
proof (induction a b rule: lex_le.induct)
  case (3 a as b bs)
  then show ?case by (auto simp: compare_Cons word_less_def word_uint_eq_iff)
qed (auto simp: compare_set_of_element_def CBS_len_def CBS_data_def Let_def)

lemma lex_le_total: "lex_le a b \<or> lex_le b a"
  by (induction a b rule: lex_le.induct) auto

lemma lex_le_trans: "lex_le a b \<Longrightarrow> lex_le b c \<Longrightarrow> lex_le a c"
proof (induction a b arbitrary: c rule: lex_le.induct)
  case (3 a as b bs)
  then show ?case by (cases c) auto
qed auto

lemma lex_le_antisym: "lex_le a b \<Longrightarrow> lex_le b a \<Longrightarrow> a = b"
proof (induction a b rule: lex_le.induct)
  case (1 bs)
  then show ?case by (cases bs) auto
qed auto

lemma compare_total_preorder: "total_preorder compare_set_of_element"
  unfolding total_preorder_def compare_le using lex_le_total lex_le_trans by blast

section \<open>Reordering the children\<close>

lemma element_shorter: "CBS_get_any_asn1_element cbs = (Some x, rest) \<Longrightarrow> length rest < length cbs"
  using element_progress(1,2) [of False cbs]
  by (cases x) (fastforce simp: CBS_get_any_asn1_element_def)

function count_children :: "cbs \<Rightarrow> nat option" where
  "count_children cbs =
     (if CBS_len cbs = 0 then Some 0
      else case CBS_get_any_asn1_element cbs of
        (None, _) \<Rightarrow> None
      | (Some _, rest) \<Rightarrow> map_option Suc (count_children rest))"
  by pat_completeness auto
termination
  by (relation "measure length") (auto dest!: sym [of "(Some _, _)"] intro: element_shorter)

declare count_children.simps [simp del]

fun read_children :: "nat \<Rightarrow> cbs \<Rightarrow> cbs list option" where
  "read_children 0 cbs = Some []"
| "read_children (Suc n) cbs =
     (case CBS_get_any_asn1_element cbs of
       (None, _) \<Rightarrow> None
     | (Some (out, _, _), rest) \<Rightarrow> map_option ((#) out) (read_children n rest))"

fun add_children :: "cbb \<Rightarrow> nat \<Rightarrow> cbs list \<Rightarrow> bool \<times> cbb" where
  "add_children cbb h [] = (True, cbb)"
| "add_children cbb h (x # xs) = ok_then (CBB_add_bytes cbb h (CBS_data x)) (\<lambda>c. add_children c h xs)"

definition CBB_flush_asn1_set_of ::
    "((cbs \<Rightarrow> cbs \<Rightarrow> int) \<Rightarrow> cbs list \<Rightarrow> cbs list) \<Rightarrow> cbb \<Rightarrow> nat \<Rightarrow> bool \<times> cbb" where
  "CBB_flush_asn1_set_of qsort cbb h =
     ok_then (CBB_flush cbb h) (\<lambda>c.
       case count_children (CBB_data c h) of
         None \<Rightarrow> (False, c)
       | Some num_children \<Rightarrow>
         if num_children < 2 then (True, c)
         else if num_children > (size_mod - 1) div 16 then (False, c)
         else (case cbb_base c of
           None \<Rightarrow> (False, c)
         | Some base \<Rightarrow>
           let (buf_ok, oom1) = alloc_next (base_oom base);
               (children_ok, oom2) = alloc_next oom1;
               c1 = c\<lparr>cbb_base := Some (base\<lparr>base_oom := oom2\<rparr>)\<rparr>
           in if \<not> buf_ok \<or> \<not> children_ok then (False, c1)
              else (case read_children num_children (CBB_data c h) of
                None \<Rightarrow> (False, c1)
              | Some children' \<Rightarrow>
                let sorted_children = qsort compare_set_of_element children';
                    c2 = c1\<lparr>cbb_base := Some (base\<lparr>base_oom := oom2,
                               base_buf := take (content_start c h) (base_buf base)\<rparr>)\<rparr>
                in add_children c2 h sorted_children)))"


section \<open>What is written\<close>

lemma count_children_elements:
  assumes "count_children cbs = Some n"
  shows "\<exists>es. read_children n cbs = Some es \<and> cbs = concat es \<and> length es = n \<and>
    (\<forall>e \<in> set es. \<exists>tag body. length body < 2 ^ 32 \<and> e = der_element tag body)"
  using assms
proof (induction cbs arbitrary: n rule: count_children.induct)
  case (1 cbs)
  show ?case
  proof (cases "cbs = []")
    case True
    with 1 show ?thesis by (simp add: count_children.simps CBS_len_def)
  next
    case False
    with "1.prems" obtain e tag hl rest m where e: "CBS_get_any_asn1_element cbs = (Some (e, tag, hl), rest)"
      and m: "count_children rest = Some m" "n = Suc m"
      by (auto simp: count_children.simps [of cbs] CBS_len_def split: prod.splits option.splits)
    from "1.IH" [OF _ e [symmetric] refl m(1)] False
    obtain es where "read_children m rest = Some es" "rest = concat es" "length es = m"
      "\<forall>e \<in> set es. \<exists>tag body. length body < 2 ^ 32 \<and> e = der_element tag body"
      by (auto simp: CBS_len_def)
    with e m(2) show ?thesis
      by (intro exI [of _ "e # es"]) (use e in \<open>simp; auto simp: CBS_get_any_asn1_element_iff\<close>)
  qed
qed

lemma add_children_represents:
  assumes "represents c fs" and "length fs = Suc h" and "length (concat xs) < size_mod"
    and "add_children c h xs = (True, c')"
  shows "represents c' (awrite h (concat xs) fs)"
  using assms
proof (induction xs arbitrary: c fs)
  case Nil
  then show ?case by (simp add: awrite_Nil)
next
  case (Cons x xs)
  obtain c1 where 1: "CBB_add_bytes c h x = (True, c1)" and 2: "add_children c1 h xs = (True, c')"
    using Cons.prems(4) by (auto simp: CBS_data_def elim!: ok_then_True)
  have "represents c1 (awrite h x fs)"
    using CBB_add_bytes_represents(1) [OF Cons.prems(1) _ _ 1] Cons.prems(2,3) by simp
  from Cons.IH [OF this _ _ 2] Cons.prems(2,3) show ?case by simp
qed

lemma flushed_data:
  assumes "represents c (pre @ [(k, seg)])"
  shows "CBB_data c (length pre) = seg" and "content_start c (length pre) = length (raw pre) + plen k"
    and "cbb_base c = Some b \<Longrightarrow> base_buf b = raw pre @ replicate (plen k) 0 @ seg"
proof -
  obtain b' where b: "cbb_base c = Some b'" "base_buf b' = raw (pre @ [(k, seg)])"
    "children c = tl (layout 0 (pre @ [(k, seg)]))" "fst (hd (pre @ [(k, seg)])) = Plain 0"
    using assms by (auto simp: represents_def)
  show cs: "content_start c (length pre) = length (raw pre) + plen k"
  proof (cases pre)
    case Nil
    then show ?thesis using b(4) by (simp add: content_start_def)
  next
    case (Cons f pre')
    then show ?thesis
      using b(3) by (cases f) (simp add: content_start_def layout_append nth_append)
  qed
  show "CBB_data c (length pre) = seg" by (simp add: CBB_data_def cs b(1,2) raw_append)
  show "cbb_base c = Some b \<Longrightarrow> base_buf b = raw pre @ replicate (plen k) 0 @ seg"
    using b by (simp add: raw_append)
qed

lemma set_of_represents:
  assumes rep: "represents c fs" and h: "h < length fs" and q: "qsort_ok qsort"
    and ex: "CBB_flush_asn1_set_of qsort c h = (True, c')" and N: "length (snd (aflush h fs ! h)) < size_mod"
  shows "\<exists>es es'. snd (aflush h fs ! h) = concat es \<and>
    (\<forall>e \<in> set es. \<exists>tag body. length body < 2 ^ 32 \<and> e = der_element tag body) \<and>
    mset es' = mset es \<and> sorted_wrt lex_le es' \<and>
    represents c' (take h fs @ [(fst (fs ! h), concat es')])"
proof -
  let ?k = "fst (fs ! h)" and ?pre = "take h fs"
  define seg where "seg = snd (aflush h fs ! h)"
  have af: "aflush h fs = ?pre @ [(?k, seg)]" "length ?pre = h"
    using h by (simp_all add: seg_def aflush_def nth_append)
  obtain c0 n where fl: "CBB_flush c h = (True, c0)" and n: "count_children (CBB_data c0 h) = Some n"
    using ex by (auto simp: CBB_flush_asn1_set_of_def elim!: ok_then_True split: option.splits)
  have r0: "represents c0 (?pre @ [(?k, seg)])" using CBB_flush_represents [OF rep h fl] by (simp add: af)
  note data = flushed_data [OF r0, unfolded af(2)]
  from count_children_elements [OF n] obtain es where es: "read_children n seg = Some es" "seg = concat es"
    "length es = n" "\<forall>e \<in> set es. \<exists>tag body. length body < 2 ^ 32 \<and> e = der_element tag body"
    by (auto simp: data)
  show ?thesis
  proof (cases "n < 2")
    case True
    then have "c' = c0" using ex fl n by (simp add: CBB_flush_asn1_set_of_def ok_then_def)
    moreover have "sorted_wrt lex_le es" using True es(3) by (cases es; cases "tl es") auto
    ultimately show ?thesis using es r0 by (intro exI [of _ es]) (auto simp: seg_def [symmetric])
  next
    case False
    obtain base where base: "cbb_base c0 = Some base" using r0 by (auto simp: represents_def)
    note buf = data(3) [OF base]
    let ?es = "qsort compare_set_of_element es"
    let ?c2 = "\<lambda>oom. c0\<lparr>cbb_base := Some (base\<lparr>base_oom := oom, base_buf := take (content_start c0 h) (base_buf base)\<rparr>)\<rparr>"
    obtain oom where add: "add_children (?c2 oom) h ?es = (True, c')"
      using ex fl n False base es(1)
      by (auto simp: CBB_flush_asn1_set_of_def ok_then_def Let_def data(1) split: prod.splits if_splits)
    have sorted: "mset ?es = mset es" "sorted_wrt lex_le ?es"
      using qsort_okD [OF q compare_total_preorder, of es] by (simp_all add: compare_le)
    have kinds: "kinds_ok (xs @ [(k, seg)]) \<longleftrightarrow> kinds_ok (xs @ [(k, [])])" for xs k
      by (simp add: kinds_ok_append) (simp add: kinds_ok_def)
    have r2: "represents (?c2 oom) (?pre @ [(?k, [])])"
      using r0 base buf by (auto simp: represents_def buf_ok_def data(2) raw_append layout_append hd_append kinds)
    have len: "length (concat ?es) = length seg"
      using sorted(1) by (simp add: es(2) length_concat) (metis mset_map sum_mset_sum_list)
    from add_children_represents [OF r2 _ _ add] N af(2) len
    have "represents c' (?pre @ [(?k, concat ?es)])" by (simp add: seg_def [symmetric] awrite_new h)
    with sorted es show ?thesis by (auto simp: seg_def [symmetric])
  qed
qed


section \<open>Properties\<close>

lemma top_contents: "represents c fs \<Longrightarrow> snd (aflush 0 fs ! 0) = render fs"
  by (cases fs) (auto simp: represents_def aflush_def)

text \<open>
  C15: \<open>CBB_flush_asn1_set_of\<close> reorders the elements written so far into ascending order of their
  encodings: the finished output is a permutation of the DER elements that would have been
  output without it, sorted as X.690 section 11.6 asks.
\<close>

theorem set_of_sorted:
  assumes "CBB_init n heap = (True, c0)" and "n < size_mod" and "\<forall>x \<in> set xs. small x"
    and "run xs c0 = (True, c)" and "qsort_ok qsort" and "CBB_flush_asn1_set_of qsort c 0 = (True, c1)"
    and "CBB_finish c1 0 False = (Some out, c2)" and "length (render (steps xs [(Plain 0, [])])) < size_mod"
  shows "\<exists>es es'. render (steps xs [(Plain 0, [])]) = concat es \<and>
    (\<forall>e \<in> set es. \<exists>tag body. length body < 2 ^ 32 \<and> e = der_element tag body) \<and>
    mset es' = mset es \<and> sorted_wrt lex_le es' \<and> out = concat es'"
proof -
  let ?fs = "steps xs [(Plain 0, [])]"
  have rep: "represents c ?fs" by (rule run_refines [OF CBB_init_represents [OF assms(1,2)] assms(3,4)])
  have h: "0 < length ?fs" and k: "fst (?fs ! 0) = Plain 0"
    using rep by (cases ?fs; auto simp: represents_def)+
  from set_of_represents [OF rep h assms(5,6)] top_contents [OF rep] assms(8) obtain es es' where
    es: "render ?fs = concat es" "\<forall>e \<in> set es. \<exists>tag body. length body < 2 ^ 32 \<and> e = der_element tag body"
    "mset es' = mset es" "sorted_wrt lex_le es'" "represents c1 [(Plain 0, concat es')]"
    by (auto simp: k)
  from CBB_finish_render(1) [OF es(5) assms(7)] have "out = concat es'" by simp
  with es show ?thesis by blast
qed

lemmas cbb_eval = CBB_init_def cbb_init_def CBB_zero_def CBB_flush_def CBB_add_bytes_def ok_then_def on_base_def
  cbb_buffer_add_def sz_add_exact size_mod_def Let_def CBB_finish_def

lemma two_bools:
  "run [Bytes 0 [1, 1, 0xff], Bytes 0 [1, 1, 0]] (snd (CBB_init 16 [])) =
    (True, \<lparr>cbb_base = Some \<lparr>base_buf = [1, 1, 0xff, 1, 1, 0], base_cap = 16, base_can_resize = True,
       base_error = False, base_oom = []\<rparr>, children = []\<rparr>)"
  by (simp add: cbb_eval)

lemma bool_element: "b = 0 \<or> b = 0xff \<Longrightarrow> der_element 1 [b] = [1, 1, b]"
  by (simp add: der_element_def der_header_def tag_bytes_def len_bytes_def)

lemma read_bool: "b = 0 \<or> b = 0xff \<Longrightarrow> CBS_get_any_asn1_element (1 # 1 # b # r) = (Some ([1, 1, b], 1, 2), r)"
  using bool_element [of b]
  by (auto simp: CBS_get_any_asn1_element_iff der_header_def tag_bytes_def len_bytes_def intro!: exI [of _ "[b]"])

lemma read_two: "read_children 2 cbs = read_children (Suc (Suc 0)) cbs"
  by (simp only: numeral_2_eq_2)

lemma two_bools_sorted:
  "CBB_flush_asn1_set_of insertion_sort (snd (run [Bytes 0 [1, 1, 0xff], Bytes 0 [1, 1, 0]] (snd (CBB_init 16 [])))) 0 =
    (True, \<lparr>cbb_base = Some \<lparr>base_buf = [1, 1, 0, 1, 1, 0xff], base_cap = 16, base_can_resize = True,
       base_error = False, base_oom = []\<rparr>, children = []\<rparr>)"
  unfolding two_bools
  by (simp add: CBB_flush_asn1_set_of_def cbb_eval CBB_data_def content_start_def count_children.simps CBS_len_def
      read_bool read_two compare_set_of_element_def CBS_data_def)

theorem set_of_sorted_witness:
  "\<exists>es es' out. fst (CBB_finish (snd (CBB_flush_asn1_set_of insertion_sort
      (snd (run [Bytes 0 [1, 1, 0xff], Bytes 0 [1, 1, 0]] (snd (CBB_init 16 [])))) 0)) 0 False) = Some out \<and>
    [1, 1, 0xff, 1, 1, 0] = concat es \<and> mset es' = mset es \<and> sorted_wrt lex_le es' \<and> out = concat es'"
proof -
  let ?xs = "[Bytes 0 [1, 1, 0xff], Bytes 0 [1, 1, 0]]"
  have i: "CBB_init 16 [] = (True, snd (CBB_init 16 []))" by (simp add: CBB_init_def cbb_init_def Let_def)
  have f: "CBB_finish (snd (CBB_flush_asn1_set_of insertion_sort (snd (run ?xs (snd (CBB_init 16 [])))) 0)) 0 False =
    (Some [1, 1, 0, 1, 1, 0xff], CBB_cleanup CBB_zero 0)"
    unfolding two_bools_sorted by (simp add: cbb_eval CBB_cleanup_def)
  have r: "run ?xs (snd (CBB_init 16 [])) = (True, snd (run ?xs (snd (CBB_init 16 []))))"
    unfolding two_bools by simp
  have s: "CBB_flush_asn1_set_of insertion_sort (snd (run ?xs (snd (CBB_init 16 [])))) 0 =
    (True, snd (CBB_flush_asn1_set_of insertion_sort (snd (run ?xs (snd (CBB_init 16 [])))) 0))"
    unfolding two_bools_sorted by simp
  from set_of_sorted [OF i _ _ r insertion_sort_ok s f]
  have "\<exists>es es'. render (steps ?xs [(Plain 0, [])]) = concat es \<and>
    (\<forall>e \<in> set es. \<exists>tag body. length body < 2 ^ 32 \<and> e = der_element tag body) \<and>
    mset es' = mset es \<and> sorted_wrt lex_le es' \<and> [1, 1, 0, 1, 1, 0xff] = concat es'"
    by (simp add: size_mod_def frame_eval)
  with f show ?thesis by (auto simp: frame_eval)
qed

section \<open>Handing out the result\<close>

text \<open>
  \<open>CBB_finish_i2d\<close> of \<open>asn1_compat.c\<close>. The output pointer is absent (\<open>NULL\<close>), points to \<open>NULL\<close>, or
  points to a caller's buffer; the result is the return value and what the caller finds there:
  the new object, or the buffer with the bytes copied to its front and the pointer moved on.
\<close>

datatype i2d_out = No_out | Out_null | Out_buffer "byte list"
datatype i2d_result = Unchanged | New_object "byte list" | Copied "byte list" nat

definition CBB_finish_i2d :: "cbb \<Rightarrow> i2d_out \<Rightarrow> int \<times> i2d_result \<times> cbb" where
  "CBB_finish_i2d cbb outp =
     (case CBB_finish cbb 0 False of
       (None, cbb') \<Rightarrow> (- 1, Unchanged, CBB_cleanup cbb' 0)
     | (Some der, cbb') \<Rightarrow>
       if length der > 0x7fffffff then (- 1, Unchanged, cbb')
       else
         (int (length der),
          (case outp of
            No_out \<Rightarrow> Unchanged
          | Out_null \<Rightarrow> New_object der
          | Out_buffer old \<Rightarrow> Copied (der @ drop (length der) old) (length der)),
          cbb'))"

end
