(* ===== verification/BER.thy ===== *)
theory BER
  imports SetOf
begin

text \<open>
  \<open>crypto/bytestring/ber.c\<close>: the walk that looks for BER (\<open>cbs_find_ber\<close>), the converter
  (\<open>cbs_convert_ber\<close>, with fuel; the length of the input is enough) and its callers. The
  specification is a relation between byte strings and the ASN.1 values they encode in BER,
  and a function that gives the DER encoding of a value.
\<close>

section \<open>String types\<close>

definition kMaxDepth :: nat where "kMaxDepth = 2048"

definition is_string_type :: "uint32 \<Rightarrow> bool" where
  "is_string_type tag \<longleftrightarrow> tag AND NOT CBS_ASN1_CONSTRUCTED \<in>
     {0x3, 0x4, 0xc, 0x12, 0x13, 0x14, 0x15, 0x16, 0x19, 0x1a, 0x1b, 0x1c, 0x1e}"

definition is_eoc :: "nat \<Rightarrow> cbs \<Rightarrow> bool" where
  "is_eoc header_len contents \<longleftrightarrow>
     header_len = 2 \<and> CBS_len contents = 2 \<and> OPENSSL_memcmp (CBS_data contents) [0, 0] = 0"

text \<open>The test for an indefinite-length element that both walks make.\<close>

definition indefinite_length :: "nat \<Rightarrow> cbs \<Rightarrow> bool" where
  "indefinite_length header_len contents \<longleftrightarrow>
     CBS_len contents = header_len \<and> header_len > 0 \<and> CBS_data contents ! (header_len - 1) = 0x80"

section \<open>Looking for BER\<close>

lemma ber_shorter:
  assumes "CBS_get_any_ber_asn1_element cbs = (Some (contents, tag, hl), rest)"
  shows "length rest < length cbs" and "length contents \<le> length cbs" and "2 \<le> hl" and "hl \<le> length contents"
  using element_progress [OF assms [unfolded CBS_get_any_ber_asn1_element_def]] by auto

lemma skip_shorter:
  assumes "CBS_get_any_ber_asn1_element cbs = (Some (contents, tag, hl), rest)" and "CBS_skip hl contents = (Some u, body)"
  shows "length body < length cbs"
  using ber_shorter [OF assms(1)] assms(2)
  by (auto simp: CBS_skip_def and_then_apply cbs_get_def split: if_splits)

function cbs_find_ber_loop :: "cbs \<Rightarrow> bool \<Rightarrow> nat \<Rightarrow> bool option" where
  "cbs_find_ber_loop in' ber_found depth =
     (if depth > kMaxDepth then None
      else if \<not> CBS_len in' > 0 then Some ber_found
      else case CBS_get_any_ber_asn1_element in' of
        (None, _) \<Rightarrow> None
      | (Some (contents, tag, header_len), rest) \<Rightarrow>
        if indefinite_length header_len contents then Some True
        else if tag AND CBS_ASN1_CONSTRUCTED \<noteq> 0 then
          if is_string_type tag then Some True
          else (case CBS_skip header_len contents of
            (None, _) \<Rightarrow> None
          | (Some _, body) \<Rightarrow>
            (case cbs_find_ber_loop body False (depth + 1) of
              None \<Rightarrow> None
            | Some found \<Rightarrow> cbs_find_ber_loop rest found depth))
        else cbs_find_ber_loop rest ber_found depth)"
  by pat_completeness auto
termination
  by (relation "measure (\<lambda>(cbs, _, _). length cbs)")
    (auto dest!: sym [of "(Some _, _)"] intro: ber_shorter(1) skip_shorter)

declare cbs_find_ber_loop.simps [simp del]

definition cbs_find_ber :: "cbs \<Rightarrow> nat \<Rightarrow> bool option" where
  "cbs_find_ber orig_in depth = cbs_find_ber_loop (CBS_init (CBS_data orig_in) (CBS_len orig_in)) False depth"

section \<open>Conversion\<close>

text \<open>
  The result of the converter is the C result, the rest of its input and the builder; \<open>None\<close> is
  the model running out of fuel. The next step runs only after a result of 1.
\<close>

type_synonym conversion = "(bool \<times> cbs \<times> cbb) option"

definition conv_then :: "conversion \<Rightarrow> (cbs \<Rightarrow> cbb \<Rightarrow> conversion) \<Rightarrow> conversion" where
  "conv_then r f =
     (case r of None \<Rightarrow> None | Some (ok, in', out) \<Rightarrow> if ok then f in' out else Some (False, in', out))"

definition at_input :: "cbs \<Rightarrow> bool \<times> cbb \<Rightarrow> conversion" where
  "at_input in' r = (case r of (ok, out) \<Rightarrow> Some (ok, in', out))"

lemma conv_then_True:
  assumes "conv_then r f = Some (True, i, c)"
  obtains i1 c1 where "r = Some (True, i1, c1)" and "f i1 c1 = Some (True, i, c)"
  using assms by (auto simp: conv_then_def split: option.splits prod.splits if_splits)

lemma at_input_True [simp]: "at_input i r = Some (True, i', c) \<longleftrightarrow> i' = i \<and> r = (True, c)"
  by (auto simp: at_input_def split: prod.splits)

lemma conv_chain:
  assumes "conv_then (at_input i r1) (\<lambda>i c. conv_then (m i c) (\<lambda>i c. conv_then (at_input i (fl c)) (lp)))
    = Some (True, r, out)"
  shows "\<exists>c1 i2 c2 c3. r1 = (True, c1) \<and> m i c1 = Some (True, i2, c2) \<and> fl c2 = (True, c3) \<and>
    lp i2 c3 = Some (True, r, out)"
  using assms by (auto elim!: conv_then_True)

fun cbs_convert_ber ::
    "nat \<Rightarrow> cbs \<Rightarrow> cbb \<Rightarrow> nat \<Rightarrow> uint32 \<Rightarrow> bool \<Rightarrow> nat \<Rightarrow> conversion" where
  "cbs_convert_ber 0 in' out h string_tag looking_for_eoc depth = None"
| "cbs_convert_ber (Suc fuel) in' out h string_tag looking_for_eoc depth =
     (if depth > kMaxDepth then Some (False, in', out)
      else if \<not> CBS_len in' > 0 then Some (\<not> looking_for_eoc, in', out)
      else case CBS_get_any_ber_asn1_element in' of
        (None, in1) \<Rightarrow> Some (False, in1, out)
      | (Some (contents, tag, header_len), in1) \<Rightarrow>
        if is_eoc header_len contents then Some (looking_for_eoc, in1, out)
        else if string_tag \<noteq> 0 \<and> tag AND NOT CBS_ASN1_CONSTRUCTED \<noteq> string_tag then Some (False, in1, out)
        else
          let constructed_string = (tag AND CBS_ASN1_CONSTRUCTED \<noteq> 0 \<and> is_string_type tag);
              out_tag = (if constructed_string then tag AND NOT CBS_ASN1_CONSTRUCTED else tag);
              child_string_tag =
                (if string_tag \<noteq> 0 then string_tag else if constructed_string then out_tag else 0);
              out_contents = (if string_tag \<noteq> 0 then h else h + 1)
          in
          conv_then (at_input in1 (if string_tag \<noteq> 0 then (True, out) else CBB_add_asn1 out h out_tag))
            (\<lambda>in1 out1. conv_then
              (if indefinite_length header_len contents then
                 cbs_convert_ber fuel in1 out1 out_contents child_string_tag True (depth + 1)
               else
                 (case CBS_skip header_len contents of
                   (None, _) \<Rightarrow> Some (False, in1, out1)
                 | (Some _, body) \<Rightarrow>
                   if tag AND CBS_ASN1_CONSTRUCTED \<noteq> 0 then
                     map_option (\<lambda>(ok, _, out2). (ok, in1, out2))
                       (cbs_convert_ber fuel body out1 out_contents child_string_tag False (depth + 1))
                   else at_input in1 (CBB_add_bytes out1 out_contents body)))
              (\<lambda>in2 out2. conv_then (at_input in2 (CBB_flush out2 h))
                (\<lambda>in2 out3. cbs_convert_ber fuel in2 out3 h string_tag looking_for_eoc depth))))"

definition CBS_asn1_ber_to_der :: "cbs \<Rightarrow> heap \<Rightarrow> (cbs \<times> bool) option \<times> cbs" where
  "CBS_asn1_ber_to_der in' heap =
     (case cbs_find_ber in' 0 of
       None \<Rightarrow> (None, in')
     | Some False \<Rightarrow>
       (case CBS_get_any_asn1_element in' of
         (None, in1) \<Rightarrow> (None, in1)
       | (Some (out, _, _), in1) \<Rightarrow> (Some (out, False), in1))
     | Some True \<Rightarrow>
       (case CBB_init (CBS_len in') heap of
         (False, _) \<Rightarrow> (None, in')
       | (True, cbb) \<Rightarrow>
         (case cbs_convert_ber (Suc (CBS_len in')) in' cbb 0 0 False 0 of
           None \<Rightarrow> (None, in')
         | Some (False, in1, _) \<Rightarrow> (None, in1)
         | Some (True, in1, cbb1) \<Rightarrow>
           (case CBB_finish cbb1 0 False of
             (None, _) \<Rightarrow> (None, in1)
           | (Some data, _) \<Rightarrow> (Some (CBS_init data (length data), True), in1)))))"

text \<open>The chunks of an implicitly tagged constructed string.\<close>

lemma get_asn1_shorter: "CBS_get_asn1 tag cbs = (Some body, rest) \<Longrightarrow> length rest < length cbs"
  by (rule asn1_body.dec_shorter)

function implicit_chunks :: "cbs \<Rightarrow> cbb \<Rightarrow> uint32 \<Rightarrow> bool \<times> cbb" where
  "implicit_chunks child result inner_tag =
     (if \<not> CBS_len child > 0 then (True, result)
      else case CBS_get_asn1 inner_tag child of
        (None, _) \<Rightarrow> (False, result)
      | (Some chunk, child') \<Rightarrow>
          ok_then (CBB_add_bytes result 0 (CBS_data chunk)) (\<lambda>c. implicit_chunks child' c inner_tag))"
  by pat_completeness auto
termination
  by (relation "measure (\<lambda>(child, _, _). length child)")
    (auto dest!: sym [of "(Some _, _)"] intro: get_asn1_shorter)

declare implicit_chunks.simps [simp del]

definition CBS_get_asn1_implicit_string :: "uint32 \<Rightarrow> uint32 \<Rightarrow> heap \<Rightarrow> (cbs \<times> bool) reader" where
  "CBS_get_asn1_implicit_string outer_tag inner_tag heap in' =
     (if CBS_peek_asn1_tag outer_tag in' then
        and_then (CBS_get_asn1 outer_tag) (\<lambda>out. return_val (out, False)) in'
      else (case CBB_init (CBS_len in') heap of
        (False, _) \<Rightarrow> (None, in')
      | (True, result) \<Rightarrow>
        (case CBS_get_asn1 (outer_tag OR CBS_ASN1_CONSTRUCTED) in' of
          (None, in1) \<Rightarrow> (None, in1)
        | (Some child, in1) \<Rightarrow>
          (case implicit_chunks child result inner_tag of
            (False, _) \<Rightarrow> (None, in1)
          | (True, result1) \<Rightarrow>
            (case CBB_finish result1 0 False of
              (None, _) \<Rightarrow> (None, in1)
            | (Some data, _) \<Rightarrow> (Some (CBS_init data (length data), True), in1))))))"


section \<open>What a BER encoding denotes\<close>

abbreviation constructed :: "uint32 \<Rightarrow> bool" where
  "constructed tag \<equiv> tag AND CBS_ASN1_CONSTRUCTED \<noteq> 0"

abbreviation primitive_tag :: "uint32 \<Rightarrow> uint32" where
  "primitive_tag tag \<equiv> tag AND NOT CBS_ASN1_CONSTRUCTED"

datatype asn1 = Leaf uint32 "byte list" | Branch uint32 "asn1 list"

fun der :: "asn1 \<Rightarrow> byte list" where
  "der (Leaf tag body) = der_element tag body"
| "der (Branch tag ts) = der_element tag (concat (map der ts))"

text \<open>The two ways to delimit the contents of an element; \<open>True\<close> is the indefinite length.\<close>

definition wrapped :: "bool \<Rightarrow> uint32 \<Rightarrow> byte list \<Rightarrow> byte list \<Rightarrow> bool" where
  "wrapped indefinite tag inner bytes \<longleftrightarrow>
     (if indefinite then bytes = tag_bytes tag @ 0x80 # inner
      else length inner < 2 ^ 32 \<and> bytes = der_element tag inner)"

inductive ber_frags :: "bool \<Rightarrow> uint32 \<Rightarrow> byte list \<Rightarrow> byte list \<Rightarrow> bool" where
  frags_end: "ber_frags False stag [] []"
| frags_eoc: "ber_frags True stag [] [0, 0]"
| frags_prim: "\<not> constructed tag \<Longrightarrow> primitive_tag tag = stag \<Longrightarrow> length body < 2 ^ 32 \<Longrightarrow>
    ber_frags e stag s bs \<Longrightarrow> ber_frags e stag (body @ s) (der_element tag body @ bs)"
| frags_nested: "constructed tag \<Longrightarrow> primitive_tag tag = stag \<Longrightarrow> ber_frags e' stag s1 inner \<Longrightarrow>
    wrapped e' tag inner w \<Longrightarrow> ber_frags e stag s2 bs \<Longrightarrow> ber_frags e stag (s1 @ s2) (w @ bs)"

inductive ber_items :: "bool \<Rightarrow> asn1 list \<Rightarrow> byte list \<Rightarrow> bool" where
  items_end: "ber_items False [] []"
| items_eoc: "ber_items True [] [0, 0]"
| items_leaf: "\<not> constructed tag \<Longrightarrow> \<not> (tag = 0 \<and> body = []) \<Longrightarrow> length body < 2 ^ 32 \<Longrightarrow>
    ber_items e ts bs \<Longrightarrow> ber_items e (Leaf tag body # ts) (der_element tag body @ bs)"
| items_string: "constructed tag \<Longrightarrow> is_string_type tag \<Longrightarrow> ber_frags e' (primitive_tag tag) s inner \<Longrightarrow>
    wrapped e' tag inner w \<Longrightarrow> ber_items e ts bs \<Longrightarrow> ber_items e (Leaf (primitive_tag tag) s # ts) (w @ bs)"
| items_branch: "constructed tag \<Longrightarrow> \<not> is_string_type tag \<Longrightarrow> ber_items e' cs inner \<Longrightarrow>
    wrapped e' tag inner w \<Longrightarrow> ber_items e ts bs \<Longrightarrow> ber_items e (Branch tag cs # ts) (w @ bs)"

text \<open>A DER forest: every string primitive, everything with a definite length.\<close>

inductive der_tree :: "nat \<Rightarrow> asn1 \<Rightarrow> bool" where
  tree_leaf: "\<not> constructed tag \<Longrightarrow> length body < 2 ^ 32 \<Longrightarrow> der_tree d (Leaf tag body)"
| tree_branch: "constructed tag \<Longrightarrow> \<not> is_string_type tag \<Longrightarrow> \<forall>t \<in> set ts. der_tree d t \<Longrightarrow>
    length (concat (map der ts)) < 2 ^ 32 \<Longrightarrow> der_tree (Suc d) (Branch tag ts)"

inductive_simps der_tree_simps: "der_tree d (Leaf tag body)" "der_tree d (Branch tag ts)"

section \<open>The elements that are read\<close>

lemma der_element_00: "der_element 0 [] = [0, 0]"
  by (simp add: der_element_def der_header_def tag_bytes_def len_bytes_def)

lemma memcmp_00: "length xs = 2 \<Longrightarrow> OPENSSL_memcmp xs [0, 0] = 0 \<longleftrightarrow> xs = [0, 0]"
proof -
  assume "length xs = 2"
  then obtain a b where "xs = [a, b]" by (auto simp: numeral_2_eq_2 length_Suc_conv)
  then show ?thesis by (auto simp: uint_0_iff)
qed

lemma header_of_empty: "der_header tag 0 = tag_bytes tag @ [0]"
  by (simp add: der_header_def len_bytes_def)

lemma ber_element_cases:
  assumes "CBS_get_any_ber_asn1_element cbs = (Some (contents, tag, hl), rest)"
  obtains (definite) body where "length body < 2 ^ 32" "cbs = der_element tag body @ rest"
      "CBS_skip hl contents = (Some (), body)" "\<not> indefinite_length hl contents"
      "is_eoc hl contents \<longleftrightarrow> tag = 0 \<and> body = []"
  | (indefinite) "constructed tag" "cbs = tag_bytes tag @ 0x80 # rest" "indefinite_length hl contents"
      "\<not> is_eoc hl contents"
proof -
  from element_accepted [OF assms [unfolded CBS_get_any_ber_asn1_element_def]]
  have cbs: "cbs = contents @ rest" by simp
  from element_accepted [OF assms [unfolded CBS_get_any_ber_asn1_element_def]]
  consider body where "length body < 2 ^ 32" "contents = der_element tag body" "hl = length (der_header tag (length body))"
    | "constructed tag" "contents = tag_bytes tag @ [0x80]" "hl = length contents" by auto
  then show thesis
  proof cases
    case 1
    have "\<not> indefinite_length hl contents"
    proof
      assume "indefinite_length hl contents"
      then have l: "length contents = hl" "contents ! (hl - 1) = 0x80"
        by (auto simp: indefinite_length_def CBS_len_def CBS_data_def)
      then have "body = []" using 1 by (simp add: der_element_def)
      then show False using l 1 by (simp add: der_element_def header_of_empty nth_append)
    qed
    moreover have "is_eoc hl contents \<longleftrightarrow> tag = 0 \<and> body = []"
    proof -
      have "is_eoc hl contents \<longleftrightarrow> hl = 2 \<and> contents = [0, 0]"
        unfolding is_eoc_def CBS_len_def CBS_data_def by (metis memcmp_00 length_Cons list.size(3) numeral_2_eq_2)
      also have "\<dots> \<longleftrightarrow> tag = 0 \<and> body = []"
      proof
        assume "hl = 2 \<and> contents = [0, 0]"
        then have "der_element tag body @ [] = der_element 0 [] @ []" using 1(2) by (simp add: der_element_00)
        from der_element_inj [OF this 1(1)] show "tag = 0 \<and> body = []" by simp
      next
        assume "tag = 0 \<and> body = []"
        then show "hl = 2 \<and> contents = [0, 0]"
          using 1 by (simp add: der_element_00) (simp add: der_header_def tag_bytes_def len_bytes_def)
      qed
      finally show ?thesis .
    qed
    ultimately show thesis using 1 cbs by (intro definite [of body]) simp_all
  next
    case 2
    have "\<not> is_eoc hl contents"
    proof
      assume e: "is_eoc hl contents"
      then have "length contents = 2" by (simp add: is_eoc_def CBS_len_def)
      with e have "contents = [0, 0]" by (simp add: is_eoc_def CBS_data_def memcmp_00)
      then have "last contents = 0" by simp
      then show False using 2 by simp
    qed
    then show thesis using 2 cbs
      by (intro indefinite) (simp_all add: indefinite_length_def CBS_len_def CBS_data_def nth_append)
  qed
qed


section \<open>The conversion is faithful\<close>

definition converted :: "bool \<Rightarrow> uint32 \<Rightarrow> byte list \<Rightarrow> byte list \<Rightarrow> bool" where
  "converted eoc stag used piece \<longleftrightarrow>
     (if stag = 0 then \<exists>ts. ber_items eoc ts used \<and> piece = concat (map der ts)
      else ber_frags eoc stag piece used)"

lemma converted_nil: "converted False stag [] []"
  by (auto simp: converted_def intro: items_end frags_end exI [of _ "[]"])

lemma converted_eoc: "converted True stag [0, 0] []"
  by (auto simp: converted_def intro: items_eoc frags_eoc exI [of _ "[]"])

lemma converted_leaf:
  assumes "\<not> constructed tag" and "\<not> (tag = 0 \<and> body = [])" and "length body < 2 ^ 32" and "converted e 0 bs p"
  shows "converted e 0 (der_element tag body @ bs) (der_element tag body @ p)"
proof -
  obtain ts where "ber_items e ts bs" "p = concat (map der ts)" using assms(4) by (auto simp: converted_def)
  with items_leaf [OF assms(1-3)] show ?thesis
    by (auto simp: converted_def intro!: exI [of _ "Leaf tag body # ts"])
qed

lemma converted_frag:
  "\<not> constructed tag \<Longrightarrow> primitive_tag tag = stag \<Longrightarrow> stag \<noteq> 0 \<Longrightarrow> length body < 2 ^ 32 \<Longrightarrow>
    converted e stag bs p \<Longrightarrow> converted e stag (der_element tag body @ bs) (body @ p)"
  by (auto simp: converted_def intro: frags_prim)

lemma converted_string:
  assumes "constructed tag" and "is_string_type tag" and "converted e' (primitive_tag tag) inner s"
    and "wrapped e' tag inner w" and "converted e 0 bs p"
  shows "converted e 0 (w @ bs) (der_element (primitive_tag tag) s @ p)"
proof -
  have "primitive_tag tag \<noteq> 0" using assms(2) by (auto simp: is_string_type_def)
  then have f: "ber_frags e' (primitive_tag tag) s inner" using assms(3) by (simp add: converted_def)
  obtain ts where "ber_items e ts bs" "p = concat (map der ts)" using assms(5) by (auto simp: converted_def)
  with items_string [OF assms(1,2) f assms(4)] show ?thesis
    by (auto simp: converted_def intro!: exI [of _ "Leaf (primitive_tag tag) s # ts"])
qed

lemma converted_branch:
  assumes "constructed tag" and "\<not> is_string_type tag" and "converted e' 0 inner s"
    and "wrapped e' tag inner w" and "converted e 0 bs p"
  shows "converted e 0 (w @ bs) (der_element tag s @ p)"
proof -
  obtain cs where c: "ber_items e' cs inner" "s = concat (map der cs)" using assms(3) by (auto simp: converted_def)
  obtain ts where "ber_items e ts bs" "p = concat (map der ts)" using assms(5) by (auto simp: converted_def)
  with items_branch [OF assms(1,2) c(1) assms(4)] c(2) show ?thesis
    by (auto simp: converted_def intro!: exI [of _ "Branch tag cs # ts"])
qed

lemma converted_nested:
  "constructed tag \<Longrightarrow> primitive_tag tag = stag \<Longrightarrow> stag \<noteq> 0 \<Longrightarrow> converted e' stag inner s \<Longrightarrow>
    wrapped e' tag inner w \<Longrightarrow> converted e stag bs p \<Longrightarrow> converted e stag (w @ bs) (s @ p)"
  by (auto simp: converted_def intro: frags_nested)

text \<open>The frame in which the contents of an element are written, and what closing it leaves.\<close>

definition inner_frames :: "uint32 \<Rightarrow> uint32 \<Rightarrow> nat \<Rightarrow> frame list \<Rightarrow> frame list" where
  "inner_frames stag out_tag h fs = (if stag \<noteq> 0 then fs else aopen h Asn1 (awrite h (tag_bytes out_tag) fs))"

lemma open_inner:
  assumes "(if stag \<noteq> 0 then (True, out) else CBB_add_asn1 out h out_tag) = (True, out1)"
    and "represents out fs" and "length fs = Suc h"
  shows "represents out1 (inner_frames stag out_tag h fs)"
    and "length (inner_frames stag out_tag h fs) = Suc (if stag \<noteq> 0 then h else h + 1)"
  using assms CBB_add_asn1_represents(1) [OF assms(2), of h out_tag out1]
  by (auto simp: inner_frames_def split: if_splits)

lemma close_inner:
  assumes "represents out2 (awrite (if stag \<noteq> 0 then h else h + 1) piece (inner_frames stag out_tag h fs))"
    and "CBB_flush out2 h = (True, out3)" and "length fs = Suc h"
  shows "represents out3 (awrite h (if stag \<noteq> 0 then piece else der_element out_tag piece) fs)"
proof (cases "stag = 0")
  case True
  then show ?thesis using close_asn1_child(1) [of h fs out2 piece out_tag out3] assms
    by (simp add: inner_frames_def)
next
  case False
  then have "represents out2 (awrite h piece fs)" using assms(1) by (simp add: inner_frames_def)
  with CBB_flush_noop [OF this] assms(2,3) False show ?thesis by simp
qed

lemma converted_element:
  assumes "constructed tag" and "stag \<noteq> 0 \<longrightarrow> primitive_tag tag = stag"
    and "converted e' (if stag \<noteq> 0 then stag else if is_string_type tag then primitive_tag tag else 0) inner s"
    and "wrapped e' tag inner w" and "converted e stag bs p"
  shows "converted e stag (w @ bs)
    ((if stag \<noteq> 0 then s else der_element (if is_string_type tag then primitive_tag tag else tag) s) @ p)"
  using assms converted_nested [of tag stag e' inner s w e bs p] converted_string [of tag e' inner s w e bs p]
    converted_branch [of tag e' inner s w e bs p]
  by (cases "stag = 0"; cases "is_string_type tag") simp_all

lemma cbs_convert_ber_sound:
  assumes "cbs_convert_ber fuel in' out h stag eoc depth = Some (True, r, out')"
    and "represents out fs" and "length fs = Suc h" and "length in' < size_mod"
  shows "\<exists>used piece. in' = used @ r \<and> converted eoc stag used piece \<and>
    represents out' (awrite h piece fs) \<and> (\<not> eoc \<longrightarrow> r = [])"
  using assms
proof (induction fuel arbitrary: in' out h stag eoc depth r out' fs)
  case (Suc fuel)
  show ?case
  proof (cases "in' = []")
    case True
    then show ?thesis using Suc.prems converted_nil [of stag]
      by (auto simp: CBS_len_def awrite_Nil split: if_splits)
  next
    case False
    note step = Suc.prems(1) [unfolded cbs_convert_ber.simps Let_def]
    obtain contents tag hl in1 where el: "CBS_get_any_ber_asn1_element in' = (Some (contents, tag, hl), in1)"
      using step False by (auto simp: CBS_len_def split: if_splits prod.splits option.splits)
    have e00: "\<And>bs. der_element 0 [] @ bs = [0, 0] @ bs" by (simp add: der_element_00)
    show ?thesis
    proof (cases "is_eoc hl contents")
      case True
      from ber_element_cases [OF el] True have "in' = [0, 0] @ in1" by (metis e00)
      moreover have "eoc" "r = in1" "out' = out" using step False el True by (auto simp: CBS_len_def split: if_splits)
      ultimately show ?thesis using converted_eoc [of stag] Suc.prems(2,3) by (auto simp: awrite_Nil)
    next
      case noteoc: False
      let ?cs = "constructed tag \<and> is_string_type tag"
      let ?out_tag = "if ?cs then primitive_tag tag else tag"
      let ?child = "if stag \<noteq> 0 then stag else if ?cs then ?out_tag else 0"
      let ?oc = "if stag \<noteq> 0 then h else h + 1"
      let ?middle = "\<lambda>in1 out1. if indefinite_length hl contents then
                 cbs_convert_ber fuel in1 out1 ?oc ?child True (depth + 1)
               else
                 (case CBS_skip hl contents of
                   (None, _) \<Rightarrow> Some (False, in1, out1)
                 | (Some _, body) \<Rightarrow>
                   if constructed tag then
                     map_option (\<lambda>(ok, _, out2). (ok, in1, out2))
                       (cbs_convert_ber fuel body out1 ?oc ?child False (depth + 1))
                   else at_input in1 (CBB_add_bytes out1 ?oc body))"
      have depth: "\<not> depth > kMaxDepth" using step by (auto split: if_splits)
      have st: "\<not> (stag \<noteq> 0 \<and> primitive_tag tag \<noteq> stag)"
      proof
        assume "stag \<noteq> 0 \<and> primitive_tag tag \<noteq> stag"
        with step depth False noteoc show False by (simp add: CBS_len_def el)
      qed
      have len: "\<not> \<not> CBS_len in' > 0" using False by (simp add: CBS_len_def)
      have chain: "conv_then (at_input in1 (if stag \<noteq> 0 then (True, out) else CBB_add_asn1 out h ?out_tag))
            (\<lambda>in1 out1. conv_then (?middle in1 out1)
              (\<lambda>in2 out2. conv_then (at_input in2 (CBB_flush out2 h))
                (\<lambda>in2 out3. cbs_convert_ber fuel in2 out3 h stag eoc depth))) = Some (True, r, out')"
        using Suc.prems(1)
        by (simp only: cbs_convert_ber.simps depth len el noteoc st prod.case option.case if_False if_True Let_def)
      from conv_chain [OF chain] obtain out1 in2 out2 out3 where
            op: "(if stag \<noteq> 0 then (True, out) else CBB_add_asn1 out h ?out_tag) = (True, out1)"
        and mid: "?middle in1 out1 = Some (True, in2, out2)" and fl: "CBB_flush out2 h = (True, out3)"
        and loop: "cbs_convert_ber fuel in2 out3 h stag eoc depth = Some (True, r, out')"
        by blast
      note inner = open_inner [OF op Suc.prems(2,3)]
      have child: "?child = (if stag \<noteq> 0 then stag else if is_string_type tag then primitive_tag tag else 0)"
        if "constructed tag" using that by simp
      have body_less: "length in1 < size_mod"
        using ber_shorter(1) [OF el] Suc.prems(4) by simp
      have "\<exists>w s. in' = w @ in2 \<and> represents out2 (awrite ?oc s (inner_frames stag ?out_tag h fs)) \<and>
        (\<forall>bs p. converted eoc stag bs p \<longrightarrow>
          converted eoc stag (w @ bs) ((if stag \<noteq> 0 then s else der_element ?out_tag s) @ p))"
      proof (cases "indefinite_length hl contents")
        case ind: True
        from ber_element_cases [OF el] ind have c: "constructed tag" and i: "in' = tag_bytes tag @ 0x80 # in1" by metis+
        have "cbs_convert_ber fuel in1 out1 ?oc ?child True (depth + 1) = Some (True, in2, out2)"
          using mid ind by simp
        from Suc.IH [OF this inner body_less] obtain used s where
          s: "in1 = used @ in2" "converted True ?child used s"
            "represents out2 (awrite ?oc s (inner_frames stag ?out_tag h fs))" by blast
        have w: "wrapped True tag used (tag_bytes tag @ 0x80 # used)" by (simp add: wrapped_def)
        from converted_element [OF c _ s(2) [unfolded child [OF c]] w] st s i c show ?thesis
          by (intro exI [of _ "tag_bytes tag @ 0x80 # used"] exI [of _ s]) auto
      next
        case def: False
        from ber_element_cases [OF el] def obtain body where body: "length body < 2 ^ 32"
          "in' = der_element tag body @ in1" "CBS_skip hl contents = (Some (), body)"
          "\<not> (tag = 0 \<and> body = [])" using noteoc by metis
        show ?thesis
        proof (cases "constructed tag")
          case c: True
          then obtain r' where m: "cbs_convert_ber fuel body out1 ?oc ?child False (depth + 1) = Some (True, r', out2)"
            and in2: "in2 = in1" using mid def body(3) by auto
          have "length body < size_mod" using body(1) by (simp add: size_mod_def)
          from Suc.IH [OF m inner this] obtain s where
            s: "converted False ?child body s" "represents out2 (awrite ?oc s (inner_frames stag ?out_tag h fs))"
            by auto
          have w: "wrapped False tag body (der_element tag body)" using body(1) by (simp add: wrapped_def)
          from converted_element [OF c _ s(1) [unfolded child [OF c]] w] st s body(2) in2 c show ?thesis
            by (intro exI [of _ "der_element tag body"] exI [of _ s]) auto
        next
          case prim: False
          then have m: "CBB_add_bytes out1 ?oc body = (True, out2)" and in2: "in2 = in1"
            using mid def body(3) by auto
          have "length body < size_mod" using body(1) by (simp add: size_mod_def)
          from CBB_add_bytes_represents(1) [OF inner(1) _ this m] inner(2)
          have "represents out2 (awrite ?oc body (inner_frames stag ?out_tag h fs))" by simp
          moreover have "converted eoc stag (der_element tag body @ bs) ((if stag \<noteq> 0 then body else der_element ?out_tag body) @ p)"
            if "converted eoc stag bs p" for bs p
            using that converted_leaf [OF prim body(4,1)] converted_frag [OF prim _ _ body(1)] st prim by auto
          ultimately show ?thesis using body(2) in2 by blast
        qed
      qed
      then obtain w s where ws: "in' = w @ in2" "represents out2 (awrite ?oc s (inner_frames stag ?out_tag h fs))"
        "\<And>bs p. converted eoc stag bs p \<Longrightarrow>
          converted eoc stag (w @ bs) ((if stag \<noteq> 0 then s else der_element ?out_tag s) @ p)" by blast
      let ?piece = "if stag \<noteq> 0 then s else der_element ?out_tag s"
      have r3: "represents out3 (awrite h ?piece fs)" by (rule close_inner [OF ws(2) fl Suc.prems(3)])
      have len2: "length in2 < size_mod" using ws(1) Suc.prems(4) by simp
      from Suc.IH [OF loop r3 _ len2] Suc.prems(3) obtain used p where
        up: "in2 = used @ r" "converted eoc stag used p" "represents out' (awrite h p (awrite h ?piece fs))"
        "\<not> eoc \<longrightarrow> r = []" by auto
      have "represents out' (awrite h (?piece @ p) fs)" using up(3) Suc.prems(3) by simp
      with up ws(1) ws(3) [OF up(2)] show ?thesis
        by (intro exI [of _ "w @ used"] exI [of _ "?piece @ p"]) simp
    qed
  qed
qed simp


section \<open>Enough fuel\<close>

definition returns_within :: "nat \<Rightarrow> conversion \<Rightarrow> bool" where
  "returns_within n r \<longleftrightarrow> (\<exists>ok i c. r = Some (ok, i, c) \<and> length i \<le> n)"

lemma returns_within_Some [simp]: "returns_within n (Some (ok, i, c)) \<longleftrightarrow> length i \<le> n"
  by (simp add: returns_within_def)

lemma returns_within_at_input [simp]: "returns_within n (at_input i r) \<longleftrightarrow> length i \<le> n"
  by (simp add: at_input_def split: prod.splits)

lemma returns_within_then:
  assumes "returns_within n r" and "\<And>i c. r = Some (True, i, c) \<Longrightarrow> length i \<le> n \<Longrightarrow> returns_within n (f i c)"
  shows "returns_within n (conv_then r f)"
  using assms by (auto simp: conv_then_def returns_within_def)

lemma returns_within_if:
  "(b \<Longrightarrow> returns_within n r) \<Longrightarrow> (\<not> b \<Longrightarrow> returns_within n s) \<Longrightarrow> returns_within n (if b then r else s)"
  by simp

lemma returns_within_mono: "returns_within m r \<Longrightarrow> m \<le> n \<Longrightarrow> returns_within n r"
  by (auto simp: returns_within_def)

lemma returns_within_fixed: "returns_within m r \<Longrightarrow> length i \<le> n \<Longrightarrow>
  returns_within n (map_option (\<lambda>(ok, _, c). (ok, i, c)) r)"
  by (auto simp: returns_within_def)

lemma ber_get_shorter: "CBS_get_any_ber_asn1_element cbs = (r, rest) \<Longrightarrow> length rest \<le> length cbs"
proof (cases r)
  case None
  assume "CBS_get_any_ber_asn1_element cbs = (r, rest)"
  with None have "rest = cbs"
    by (auto simp: CBS_get_any_ber_asn1_element_def cbs_get_any_asn1_element_def asn1_element_def
        and_then_apply CBS_get_bytes_eq cbs_get_def Let_def split: prod.splits option.splits if_splits)
  then show ?thesis by simp
next
  case (Some x)
  assume "CBS_get_any_ber_asn1_element cbs = (r, rest)"
  then show ?thesis using Some ber_shorter(1) by (cases x) fastforce
qed

lemma cbs_convert_ber_returns:
  "length in' < fuel \<Longrightarrow> returns_within (length in') (cbs_convert_ber fuel in' out h stag eoc depth)"
proof (induction fuel arbitrary: in' out h stag eoc depth)
  case (Suc fuel)
  obtain r in1 where el: "CBS_get_any_ber_asn1_element in' = (r, in1)" by fastforce
  note le = ber_get_shorter [OF el]
  show ?case
  proof (cases r)
    case None
    with el le show ?thesis by simp
  next
    case (Some x)
    obtain contents tag hl where x: "x = (contents, tag, hl)" by (cases x) auto
    note el' = el [unfolded Some x]
    have in1: "length in1 < length in'" "length in1 < fuel" using ber_shorter(1) [OF el'] Suc.prems by simp_all
    have body: "length body < fuel" if "CBS_skip hl contents = (Some u, body)" for u body
      using skip_shorter [OF el' that] Suc.prems by simp
    have IH: "returns_within (length in1) (cbs_convert_ber fuel i out h stag eoc depth)"
      if "length i \<le> length in1" for i out h stag eoc depth
      by (rule returns_within_mono [OF Suc.IH that]) (use that in1 in simp)
    have IHb: "returns_within (length in1) (map_option (\<lambda>(ok, _, c). (ok, in1, c)) (cbs_convert_ber fuel b out h stag eoc depth))"
      if "CBS_skip hl contents = (Some u, b)" for u b out h stag eoc depth
      using Suc.IH [OF body [OF that]] by (rule returns_within_fixed) simp
    show ?thesis
      unfolding cbs_convert_ber.simps el' prod.case option.case Let_def
      by (intro returns_within_if; (simp add: le; fail)?; rule returns_within_mono [OF _ le];
        intro returns_within_then returns_within_if; (simp add: IH; fail)?)
        (auto intro: IH IHb split: prod.splits option.splits)
  qed
qed simp

section \<open>DER is left alone\<close>

lemma der_not_indefinite: "\<not> indefinite_length (length (der_header tag (length body))) (der_element tag body)"
proof
  assume "indefinite_length (length (der_header tag (length body))) (der_element tag body)"
  then have l: "length (der_element tag body) = length (der_header tag (length body))"
    "der_element tag body ! (length (der_header tag (length body)) - 1) = 0x80"
    by (auto simp: indefinite_length_def CBS_len_def CBS_data_def)
  then have "body = []" by (simp add: der_element_def)
  then show False using l by (simp add: der_element_def header_of_empty nth_append)
qed

lemma find_ber_element:
  assumes "length body < 2 ^ 32" and "depth \<le> kMaxDepth"
  shows "cbs_find_ber_loop (der_element tag body @ rest) found depth =
    (if constructed tag then
       if is_string_type tag then Some True
       else (case cbs_find_ber_loop body False (depth + 1) of
               None \<Rightarrow> None | Some found \<Rightarrow> cbs_find_ber_loop rest found depth)
     else cbs_find_ber_loop rest found depth)"
proof -
  have "CBS_get_any_ber_asn1_element (der_element tag body @ rest) =
    (Some (der_element tag body, tag, length (der_header tag (length body))), rest)"
    using assms(1) by (simp add: CBS_get_any_ber_asn1_element_def parse_der_element)
  then show ?thesis
    using assms(2) by (simp add: cbs_find_ber_loop.simps [of "der_element tag body @ rest"] CBS_len_def
        der_element_nonempty der_not_indefinite not_less)
qed

lemma find_ber_der_forest:
  "\<forall>t \<in> set ts. der_tree d t \<Longrightarrow> depth + d \<le> kMaxDepth \<Longrightarrow> cbs_find_ber_loop (concat (map der ts)) False depth = Some False"
proof (induction d arbitrary: ts depth)
  case 0
  then show ?case
  proof (induction ts)
    case (Cons t ts)
    then show ?case by (cases t) (auto simp: find_ber_element der_tree_simps)
  qed (simp add: cbs_find_ber_loop.simps CBS_len_def)
next
  case (Suc d)
  note IH = Suc.IH
  from Suc.prems show ?case
  proof (induction ts)
    case (Cons t ts)
    then show ?case using IH by (cases t) (auto simp: find_ber_element der_tree_simps)
  qed (simp add: cbs_find_ber_loop.simps CBS_len_def)
qed


section \<open>Properties\<close>

text \<open>
  C8: when \<open>CBS_asn1_ber_to_der\<close> converts its input, the input is a complete BER encoding of some
  ASN.1 values (definite or indefinite lengths, strings whole or in fragments) and the output is
  the DER encoding of the same values.
\<close>

theorem ber_to_der_converts:
  assumes "CBS_asn1_ber_to_der cbs heap = (Some (out, True), rest)" and "length cbs < size_mod"
  shows "\<exists>ts. ber_items False ts cbs \<and> out = concat (map der ts) \<and> rest = []"
proof -
  obtain cbb cbb1 c' where i: "CBB_init (CBS_len cbs) heap = (True, cbb)"
    and c: "cbs_convert_ber (Suc (CBS_len cbs)) cbs cbb 0 0 False 0 = Some (True, rest, cbb1)"
    and f: "CBB_finish cbb1 0 False = (Some out, c')"
    using assms(1) unfolding CBS_asn1_ber_to_der_def CBS_init_def
    by (auto split: option.splits bool.splits prod.splits)
  have r0: "represents cbb [(Plain 0, [])]"
    by (rule CBB_init_represents [OF i]) (use assms(2) in \<open>simp add: CBS_len_def\<close>)
  from cbs_convert_ber_sound [OF c r0 _ assms(2)] obtain used piece where
    u: "cbs = used @ rest" "converted False 0 used piece" "represents cbb1 (awrite 0 piece [(Plain 0, [])])" "rest = []"
    by auto
  from CBB_finish_render(1) [OF u(3) f] have "out = piece" by (simp add: awrite_def)
  with u show ?thesis by (auto simp: converted_def)
qed

text \<open>
  C16: the recursion of the converter ends: with fuel above the length of the input it returns,
  having consumed a part of the input.
\<close>

theorem ber_conversion_returns:
  assumes "length cbs < fuel"
  shows "\<exists>ok rest out'. cbs_convert_ber fuel cbs out h string_tag eoc depth = Some (ok, rest, out') \<and>
    length rest \<le> length cbs"
  using cbs_convert_ber_returns [OF assms] by (simp add: returns_within_def)

theorem ber_conversion_returns_witness:
  "\<exists>ok rest out'. cbs_convert_ber 5 [0x30, 0x80, 0, 0] CBB_zero 0 0 False 0 = Some (ok, rest, out') \<and>
    length rest \<le> length [0x30, 0x80, 0, 0 :: byte]"
  by (rule ber_conversion_returns) simp

text \<open>
  DER input nested at most \<open>kMaxDepth\<close> deep needs no conversion: its first element is handed
  back as it stands, without storage, and the reader is moved past it.
\<close>

theorem ber_to_der_keeps_der:
  assumes "\<forall>t \<in> set (t # ts). der_tree kMaxDepth t"
  shows "CBS_asn1_ber_to_der (concat (map der (t # ts))) heap = (Some (der t, False), concat (map der ts))"
proof -
  have "cbs_find_ber (concat (map der (t # ts))) 0 = Some False"
    using find_ber_der_forest [OF assms, of 0] by (simp add: cbs_find_ber_def CBS_init_def CBS_data_def CBS_len_def)
  moreover obtain tag body where t: "der t = der_element tag body" "length body < 2 ^ 32"
    using assms by (cases t) (auto simp: kMaxDepth_def der_tree_simps elim: der_tree.cases)
  then have "CBS_get_any_asn1_element (der t @ concat (map der ts)) =
    (Some (der t, tag, length (der_header tag (length body))), concat (map der ts))"
    by (simp add: CBS_get_any_asn1_element_def parse_der_element)
  ultimately show ?thesis by (simp add: CBS_asn1_ber_to_der_def)
qed

lemma constructed_bit: "tag AND CBS_ASN1_CONSTRUCTED \<noteq> 0 \<longleftrightarrow> bit tag 29"
proof -
  have "CBS_ASN1_CONSTRUCTED = push_bit 29 1" by (simp add: CBS_ASN1_CONSTRUCTED_def)
  then show ?thesis by (metis bit_iff_and_push_bit_not_eq_0)
qed

theorem ber_to_der_keeps_der_witness:
  "CBS_asn1_ber_to_der (der (Branch 0x20000010 [Leaf 1 [0xff]]) @ der (Leaf 5 [])) [] =
    (Some (der (Branch 0x20000010 [Leaf 1 [0xff]]), False), der (Leaf 5 []))"
proof -
  have k: "kMaxDepth = Suc 2047" by (simp add: kMaxDepth_def)
  have "\<forall>t \<in> set [Branch 0x20000010 [Leaf 1 [0xff]], Leaf 5 []]. der_tree kMaxDepth t"
    unfolding k by (simp add: der_tree_simps constructed_bit is_string_type_def CBS_ASN1_CONSTRUCTED_def bit_simps
        der_element_def der_header_def tag_bytes_def len_bytes_def)
  from ber_to_der_keeps_der [OF this] show ?thesis by simp
qed


lemma parse_indefinite:
  assumes "constructed tag"
  shows "CBS_get_any_ber_asn1_element (tag_bytes tag @ 0x80 # rest) =
    (Some (tag_bytes tag @ [0x80], tag, length (tag_bytes tag) + 1), rest)"
  using assms element_header [OF refl refl refl, where tag = tag and lb = "0x80" and header = rest and ber_ok = True]
  by (simp add: CBS_get_any_ber_asn1_element_def asn1_element_def CBS_get_bytes_eq and_then_apply cbs_get_def)

lemma sequence_tag: "tag_bytes 0x20000010 = [0x30]" "constructed 0x20000010" "\<not> is_string_type 0x20000010"
  by (simp_all add: tag_bytes_def constructed_bit is_string_type_def CBS_ASN1_CONSTRUCTED_def bit_simps)

lemma read_empty_sequence:
  "CBS_get_any_ber_asn1_element (0x30 # 0x80 # rest) = (Some ([0x30, 0x80], 0x20000010, 2), rest)"
  using parse_indefinite [OF sequence_tag(2), of rest] by (simp add: sequence_tag)

lemma read_eoc: "CBS_get_any_ber_asn1_element (0 # 0 # rest) = (Some ([0, 0], 0, 2), rest)"
  using parse_der_element [of "[]" True 0 rest]
  by (simp add: CBS_get_any_ber_asn1_element_def der_element_00 der_header_def tag_bytes_def len_bytes_def)

abbreviation builder4 :: "byte list \<Rightarrow> cbb_child list \<Rightarrow> cbb" where
  "builder4 b cs \<equiv> \<lparr>cbb_base = Some \<lparr>base_buf = b, base_cap = 4, base_can_resize = True,
  base_error = False, base_oom = []\<rparr>, children = cs\<rparr>"

lemma open_sequence:
  "CBB_add_asn1 (builder4 [] []) 0 0x20000010 =
    (True, builder4 [0x30, 0] [\<lparr>offset = 1, pending_len_len = 1, pending_is_asn1 = True\<rparr>])"
  by (simp add: cbb_eval CBB_add_asn1_def add_child_def CBB_add_u8_def cbb_add_u_def cbb_buffer_add_u_def
      CBS_ASN1_CONSTRUCTED_def CBS_ASN1_TAG_NUMBER_MASK_def buffer_len_def word_le_nat_alt)

lemma close_sequence:
  "CBB_flush (builder4 [0x30, 0] [\<lparr>offset = 1, pending_len_len = 1, pending_is_asn1 = True\<rparr>]) 0 = (True, builder4 [0x30, 0] [])"
  by (simp add: cbb_eval close_child_def asn1_length_form_def write_prefix_def store_at_def)

lemma convert_sequence:
  "cbs_convert_ber 5 [0x30, 0x80, 0, 0] (builder4 [] []) 0 0 False 0 = Some (True, [], builder4 [0x30, 0] [])"
proof -
  have five: "(5::nat) = Suc (Suc (Suc (Suc (Suc 0))))" by simp
  show ?thesis unfolding five
    by (simp add: is_eoc_def CBS_data_def CBS_len_def conv_then_def at_input_def read_empty_sequence read_eoc
        indefinite_length_def kMaxDepth_def open_sequence close_sequence [simplified] sequence_tag)
qed

lemma find_in_sequence: "cbs_find_ber [0x30, 0x80, 0, 0] 0 = Some True"
  by (simp add: cbs_find_ber_def cbs_find_ber_loop.simps CBS_init_def CBS_data_def CBS_len_def
      read_empty_sequence indefinite_length_def kMaxDepth_def)

theorem ber_to_der_converts_witness:
  "CBS_asn1_ber_to_der [0x30, 0x80, 0, 0] [] = (Some ([0x30, 0], True), []) \<and>
    (\<exists>ts. ber_items False ts [0x30, 0x80, 0, 0] \<and> [0x30, 0] = concat (map der ts))"
proof -
  have i: "CBB_init 4 [] = (True, builder4 [] [])" by (simp add: cbb_eval)
  obtain c' where f: "CBB_finish (builder4 [0x30, 0] []) 0 False = (Some [0x30, 0], c')" by (simp add: cbb_eval)
  have l: "length [0x30, 0x80, 0, 0 :: byte] = 4" "Suc 4 = 5" by simp_all
  have c: "CBS_asn1_ber_to_der [0x30, 0x80, 0, 0] [] = (Some ([0x30, 0], True), [])"
    unfolding CBS_asn1_ber_to_der_def find_in_sequence CBS_len_def l option.case bool.case i prod.case
      convert_sequence f CBS_init_def by simp
  from ber_to_der_converts [OF c] c show ?thesis by (simp add: size_mod_def)
qed

lemma find_ber_eq_loop: "cbs_find_ber cbs depth = cbs_find_ber_loop cbs False depth"
  by (simp add: cbs_find_ber_def CBS_init_def CBS_data_def CBS_len_def)

lemma find_ber_empty: "depth \<le> kMaxDepth \<Longrightarrow> cbs_find_ber_loop [] found depth = Some found"
  by (simp add: cbs_find_ber_loop.simps CBS_len_def)

text \<open>
  C17: \<open>cbs_find_ber\<close> forgets what it found. Each nested call starts by clearing \<open>*ber_found\<close>, and
  the loop goes on after a nested call that set it: of two constructed elements side by side only
  the second counts. Where the contents of the first have BER in them and those of the second do
  not, \<open>CBS_asn1_ber_to_der\<close> returns the element around both as it is, as if it were DER. The
  elements have definite lengths and are not of string types.
\<close>

theorem find_ber_hidden_by_sibling:
  assumes "\<forall>t \<in> {s, t, u}. constructed t \<and> \<not> is_string_type t" and "elem = der_element t a @ der_element u b"
    and "length elem < 2 ^ 32" and "cbs_find_ber a 2 = Some True" and "cbs_find_ber b 2 = Some False"
  shows "cbs_find_ber elem 1 = Some False \<and> CBS_asn1_ber_to_der (der_element s elem) heap = (Some (der_element s elem, False), [])"
proof -
  have len: "length a < 2 ^ 32" "length b < 2 ^ 32" using assms(2,3) by (simp_all add: der_element_def)
  have deep: "2 \<le> kMaxDepth" by (simp add: kMaxDepth_def)
  have 1: "cbs_find_ber elem 1 = Some False"
    using find_ber_element [OF len(1), of 1 t "der_element u b" False] find_ber_element [OF len(2), of 1 u "[]"]
      assms(1,2,4,5) deep by (simp add: find_ber_eq_loop find_ber_empty numeral_2_eq_2)
  have "cbs_find_ber (der_element s elem) 0 = Some False"
    using find_ber_element [OF assms(3), of 0 s "[]" False] assms(1) 1 by (simp add: find_ber_eq_loop find_ber_empty)
  moreover have "CBS_get_any_asn1_element (der_element s elem) = (Some (der_element s elem, s, length (der_header s (length elem))), [])"
    using parse_der_element [of elem False s "[]"] assms(3) by (simp add: CBS_get_any_asn1_element_def)
  ultimately show ?thesis using 1 by (simp add: CBS_asn1_ber_to_der_def)
qed

theorem find_ber_hidden_by_sibling_witness:
  "cbs_find_ber [0x30, 0x80, 0, 0] 2 = Some True \<and>
   CBS_asn1_ber_to_der [0x30, 8, 0x30, 4, 0x30, 0x80, 0, 0, 0x30, 0] [] =
     (Some ([0x30, 8, 0x30, 4, 0x30, 0x80, 0, 0, 0x30, 0], False), [])"
proof -
  let ?t = "0x20000010 :: uint32" and ?b = "[0x30, 0x80, 0, 0] :: byte list"
  have e: "der_element ?t bs = 0x30 # word_of_nat (length bs) # bs" if "length bs < 128" for bs
    using that by (simp add: der_element_def der_header_def sequence_tag len_bytes_def)
  have inner: "cbs_find_ber ?b 2 = Some True"
    by (simp add: find_ber_eq_loop cbs_find_ber_loop.simps read_empty_sequence indefinite_length_def CBS_len_def
        CBS_data_def kMaxDepth_def)
  have "cbs_find_ber [] 2 = Some False" by (simp add: find_ber_eq_loop find_ber_empty kMaxDepth_def)
  from find_ber_hidden_by_sibling [of ?t ?t ?t _ ?b "[]" "[]", OF _ refl _ inner this] inner sequence_tag(2,3)
  show ?thesis by (simp add: e)
qed

end
