(* ===== verification/Unicode.thy ===== *)
theory Unicode
  imports BER
begin

text \<open>
  Code points in \<open>crypto/bytestring/unicode.c\<close>: the readers and the writers of UTF-8, Latin-1,
  UCS-2 and UTF-32. \<open>utf8\<close> is the encoding the standard defines; \<open>cbs_get_utf8\<close> reads it and
  nothing else (no overlong form, no surrogate, no noncharacter) and \<open>cbb_add_utf8\<close> writes it.
\<close>

section \<open>Code points\<close>

definition is_valid_code_point :: "uint32 \<Rightarrow> bool" where
  "is_valid_code_point v =
     (if v > 0x10ffff \<or> v AND 0xfffe = 0xfffe \<or> (v \<ge> 0xfdd0 \<and> v \<le> 0xfdef) \<or> (v \<ge> 0xd800 \<and> v \<le> 0xdfff)
      then False else True)"

definition BOTTOM_BITS :: "nat \<Rightarrow> byte" where
  "BOTTOM_BITS n = ucast (push_bit n 1 - 1 :: uint32)"

definition TOP_BITS :: "nat \<Rightarrow> byte" where
  "TOP_BITS n = NOT (BOTTOM_BITS (8 - n))"

section \<open>Readers\<close>

fun utf8_tail :: "nat \<Rightarrow> uint32 \<Rightarrow> uint32 reader" where
  "utf8_tail 0 v = return_val v"
| "utf8_tail (Suc i) v = and_then CBS_get_u8 (\<lambda>c.
     if c AND TOP_BITS 2 \<noteq> TOP_BITS 1 then fail
     else utf8_tail i (push_bit 6 v OR ucast (c AND BOTTOM_BITS 6)))"

definition cbs_get_utf8 :: "uint32 reader" where
  "cbs_get_utf8 = and_then CBS_get_u8 (\<lambda>c.
     if c \<le> 0x7f then return_val (ucast c)
     else
       (case (if c AND TOP_BITS 3 = TOP_BITS 2 then Some (ucast (c AND BOTTOM_BITS 5), 1, 0x80)
              else if c AND TOP_BITS 4 = TOP_BITS 3 then Some (ucast (c AND BOTTOM_BITS 4), 2, 0x800)
              else if c AND TOP_BITS 5 = TOP_BITS 4 then Some (ucast (c AND BOTTOM_BITS 3), 3, 0x10000)
              else None) of
         None \<Rightarrow> fail
       | Some (v0, len, lower_bound) \<Rightarrow>
           and_then (utf8_tail len v0) (\<lambda>v.
             if \<not> is_valid_code_point v \<or> v < lower_bound then fail else return_val v)))"

definition cbs_get_latin1 :: "uint32 reader" where
  "cbs_get_latin1 = and_then CBS_get_u8 (\<lambda>c. return_val (ucast c))"

definition cbs_get_ucs2_be :: "uint32 reader" where
  "cbs_get_ucs2_be = and_then CBS_get_u16 (\<lambda>c.
     if \<not> is_valid_code_point (ucast c) then fail else return_val (ucast c))"

definition cbs_get_utf32_be :: "uint32 reader" where
  "cbs_get_utf32_be = and_then CBS_get_u32 (\<lambda>v. if is_valid_code_point v then return_val v else fail)"

section \<open>Writers\<close>

definition cbb_get_utf8_len :: "uint32 \<Rightarrow> nat" where
  "cbb_get_utf8_len u = (if u \<le> 0x7f then 1 else if u \<le> 0x7ff then 2 else if u \<le> 0xffff then 3 else 4)"

definition cbb_add_utf8 :: "cbb \<Rightarrow> nat \<Rightarrow> uint32 \<Rightarrow> bool \<times> cbb" where
  "cbb_add_utf8 cbb h u =
     (if \<not> is_valid_code_point u then (False, cbb)
      else if u \<le> 0x7f then CBB_add_u8 cbb h (ucast u)
      else if u \<le> 0x7ff then
        ok_then (CBB_add_u8 cbb h (ucast (ucast (TOP_BITS 2) OR drop_bit 6 u))) (\<lambda>c.
          CBB_add_u8 c h (ucast (ucast (TOP_BITS 1) OR (u AND ucast (BOTTOM_BITS 6)))))
      else if u \<le> 0xffff then
        ok_then (CBB_add_u8 cbb h (ucast (ucast (TOP_BITS 3) OR drop_bit 12 u))) (\<lambda>c.
          ok_then (CBB_add_u8 c h (ucast (ucast (TOP_BITS 1) OR (drop_bit 6 u AND ucast (BOTTOM_BITS 6))))) (\<lambda>c.
            CBB_add_u8 c h (ucast (ucast (TOP_BITS 1) OR (u AND ucast (BOTTOM_BITS 6))))))
      else if u \<le> 0x10ffff then
        ok_then (CBB_add_u8 cbb h (ucast (ucast (TOP_BITS 4) OR drop_bit 18 u))) (\<lambda>c.
          ok_then (CBB_add_u8 c h (ucast (ucast (TOP_BITS 1) OR (drop_bit 12 u AND ucast (BOTTOM_BITS 6))))) (\<lambda>c.
            ok_then (CBB_add_u8 c h (ucast (ucast (TOP_BITS 1) OR (drop_bit 6 u AND ucast (BOTTOM_BITS 6))))) (\<lambda>c.
              CBB_add_u8 c h (ucast (ucast (TOP_BITS 1) OR (u AND ucast (BOTTOM_BITS 6)))))))
      else (False, cbb))"

definition cbb_add_latin1 :: "cbb \<Rightarrow> nat \<Rightarrow> uint32 \<Rightarrow> bool \<times> cbb" where
  "cbb_add_latin1 cbb h u = (if u \<le> 0xff then CBB_add_u8 cbb h (ucast u) else (False, cbb))"

definition cbb_add_ucs2_be :: "cbb \<Rightarrow> nat \<Rightarrow> uint32 \<Rightarrow> bool \<times> cbb" where
  "cbb_add_ucs2_be cbb h u =
     (if u \<le> 0xffff \<and> is_valid_code_point u then CBB_add_u16 cbb h (ucast u) else (False, cbb))"

definition cbb_add_utf32_be :: "cbb \<Rightarrow> nat \<Rightarrow> uint32 \<Rightarrow> bool \<times> cbb" where
  "cbb_add_utf32_be cbb h u = (if is_valid_code_point u then CBB_add_u32 cbb h u else (False, cbb))"

section \<open>Bytes of UTF-8\<close>

lemma bottom_bits: "n \<le> 8 \<Longrightarrow> BOTTOM_BITS n = mask n"
  by (rule bit_word_eqI) (auto simp: BOTTOM_BITS_def bit_simps simp flip: mask_eq_exp_minus_1 push_bit_eq_mult)

lemma unat_bottom: "n \<le> 8 \<Longrightarrow> unat (c AND BOTTOM_BITS n) = unat c mod 2 ^ n"
  by (simp only: bottom_bits unat_and_mask)

lemma unat_and_not_mask: "unat (c AND NOT (mask n)) = unat c div 2 ^ n * 2 ^ n" for c :: "'a::len word"
proof -
  have "c AND NOT (mask n) = push_bit n (drop_bit n c)"
    by (rule bit_word_eqI) (auto simp: bit_simps)
  moreover have "unat (push_bit n (drop_bit n c)) = unat c div 2 ^ n * 2 ^ n mod 2 ^ LENGTH('a)"
    by (simp only: unsigned_push_bit_eq unat_drop take_bit_eq_mod) (simp only: push_bit_eq_mult)
  moreover have "unat c div 2 ^ n * 2 ^ n < 2 ^ LENGTH('a)"
    using unsigned_less [of c, where ?'a = nat] by (rule order_le_less_trans [OF div_times_less_eq_dividend])
  ultimately show ?thesis by simp
qed

lemma top_bits: "k \<le> 8 \<Longrightarrow> unat (c AND TOP_BITS k) = unat c div 2 ^ (8 - k) * 2 ^ (8 - k)"
  by (simp only: TOP_BITS_def bottom_bits diff_le_self unat_and_not_mask)

lemma byte_classes:
  "c AND TOP_BITS 3 = TOP_BITS 2 \<longleftrightarrow> unat c div 32 = 6"
  "c AND TOP_BITS 4 = TOP_BITS 3 \<longleftrightarrow> unat c div 16 = 14"
  "c AND TOP_BITS 5 = TOP_BITS 4 \<longleftrightarrow> unat c div 8 = 30"
  "c AND TOP_BITS 2 = TOP_BITS 1 \<longleftrightarrow> unat c div 64 = 2"
proof -
  have t: "unat (TOP_BITS 1) = 128" "unat (TOP_BITS 2) = 192" "unat (TOP_BITS 3) = 224" "unat (TOP_BITS 4) = 240"
    by (simp_all add: TOP_BITS_def BOTTOM_BITS_def)
  show "c AND TOP_BITS 3 = TOP_BITS 2 \<longleftrightarrow> unat c div 32 = 6"
  "c AND TOP_BITS 4 = TOP_BITS 3 \<longleftrightarrow> unat c div 16 = 14"
  "c AND TOP_BITS 5 = TOP_BITS 4 \<longleftrightarrow> unat c div 8 = 30"
  "c AND TOP_BITS 2 = TOP_BITS 1 \<longleftrightarrow> unat c div 64 = 2"
    unfolding word_unat_eq_iff using top_bits [of 3 c] top_bits [of 4 c] top_bits [of 5 c] top_bits [of 2 c]
    by (auto simp: t t(1) [unfolded One_nat_def])
qed

lemmas byte_class = byte_classes byte_classes(4) [unfolded One_nat_def]

lemma lead_value: "unat (ucast (c AND BOTTOM_BITS n) :: uint32) = unat c mod 2 ^ n" if "n \<le> 8"
  using unat_bottom [OF that, of c] by simp

section \<open>The language of UTF-8\<close>

definition utf8 :: "nat \<Rightarrow> byte list" where
  "utf8 v = map word_of_nat
     (if v < 0x80 then [v]
      else if v < 0x800 then [192 + v div 64, 128 + v mod 64]
      else if v < 0x10000 then [224 + v div 64 div 64, 128 + v div 64 mod 64, 128 + v mod 64]
      else [240 + v div 64 div 64 div 64, 128 + v div 64 div 64 mod 64, 128 + v div 64 mod 64, 128 + v mod 64])"

fun utf8_value :: "nat \<Rightarrow> byte list \<Rightarrow> nat" where
  "utf8_value v [] = v"
| "utf8_value v (c # cs) = utf8_value (v * 64 + unat c mod 64) cs"

lemma utf8_tail_iff:
  assumes "unat v * 64 ^ n + 64 ^ n \<le> 2 ^ 32"
  shows "utf8_tail n v cs = (Some w, rest) \<longleftrightarrow>
    (\<exists>ds. cs = ds @ rest \<and> length ds = n \<and> (\<forall>d \<in> set ds. unat d div 64 = 2) \<and> unat w = utf8_value (unat v) ds)"
  using assms
proof (induction n arbitrary: v cs)
  case 0
  then show ?case by (auto simp: word_unat_eq_iff)
next
  case (Suc n)
  show ?case
  proof (cases cs)
    case Nil
    then show ?thesis by (auto simp: and_then_apply)
  next
    case (Cons c cs')
    show ?thesis
    proof (cases "unat c div 64 = 2")
      case False
      then show ?thesis by (auto simp: Cons byte_class Cons_eq_append_conv length_Suc_conv)
    next
      case True
      let ?v = "push_bit 6 v OR ucast (c AND BOTTOM_BITS 6)"
      have p: "unat v * 64 + 64 \<le> 2 ^ 32"
      proof -
        have "(unat v * 64 + 64) * 1 \<le> (unat v * 64 + 64) * 64 ^ n" by (intro mult_le_mono) simp_all
        also have "\<dots> \<le> 2 ^ 32" using Suc.prems by (simp add: algebra_simps)
        finally show ?thesis by simp
      qed
      have "unat (ucast (c AND BOTTOM_BITS 6) :: uint32) = unat c mod 64" using lead_value [of 6 c] by simp
      then have v: "unat ?v = unat v * 64 + unat c mod 64"
        using p mod_less_divisor [of 64 "unat c"] by (subst unat_push_or) simp_all
      have "unat ?v * 64 ^ n + 64 ^ n \<le> 2 ^ 32"
      proof -
        have "Suc (unat ?v) \<le> unat v * 64 + 64"
          using v mod_less_divisor [of 64 "unat c"] by linarith
        then have "Suc (unat ?v) * 64 ^ n \<le> (unat v * 64 + 64) * 64 ^ n" by (rule mult_le_mono1)
        then have "unat ?v * 64 ^ n + 64 ^ n \<le> (unat v * 64 + 64) * 64 ^ n" by (simp only: mult_Suc add.commute)
        also have "\<dots> \<le> 2 ^ 32" using Suc.prems by (simp add: algebra_simps)
        finally show ?thesis .
      qed
      note IH = Suc.IH [OF this, of cs', unfolded v]
      have R: "(\<exists>ds. c # cs' = ds @ rest \<and> length ds = Suc n \<and> (\<forall>d \<in> set ds. unat d div 64 = 2) \<and>
          unat w = utf8_value (unat v) ds) \<longleftrightarrow>
        (\<exists>ds. cs' = ds @ rest \<and> length ds = n \<and> (\<forall>d \<in> set ds. unat d div 64 = 2) \<and>
          unat w = utf8_value (unat v * 64 + unat c mod 64) ds)" (is "(\<exists>ds. ?P ds) \<longleftrightarrow> (\<exists>ds. ?Q ds)")
      proof
        assume "\<exists>ds. ?P ds"
        then obtain ds where "?P ds" ..
        then show "\<exists>ds. ?Q ds" by (cases ds) auto
      next
        assume "\<exists>ds. ?Q ds"
        then obtain ds where "?Q ds" ..
        then have "?P (c # ds)" using True by simp
        then show "\<exists>ds. ?P ds" ..
      qed
      have "utf8_tail (Suc n) v (c # cs') = utf8_tail n ?v cs'" using True by (simp add: byte_class)
      with IH R show ?thesis by (simp only: Cons)
    qed
  qed
qed


lemma word_eq_nat: "n < 256 \<Longrightarrow> word_of_nat n = c \<longleftrightarrow> n = unat c" for c :: byte
  by (auto simp: word_unat_eq_iff unat_small)

lemma class_value:
  "n div 32 = 6 \<Longrightarrow> 192 + n mod 32 = n" "n div 16 = 14 \<Longrightarrow> 224 + n mod 16 = n"
  "n div 8 = 30 \<Longrightarrow> 240 + n mod 8 = n" "n div 64 = 2 \<Longrightarrow> 128 + n mod 64 = n" for n :: nat
  using div_mult_mod_eq [of n 32] div_mult_mod_eq [of n 16] div_mult_mod_eq [of n 8] div_mult_mod_eq [of n 64]
  by simp_all

lemma lead_split: "q < m \<Longrightarrow> (k * m + q) div m = k \<and> (k * m + q) mod m = q" for q m k :: nat
  by simp

lemma lead_splits:
  "q < 32 \<Longrightarrow> (192 + q) div 32 = 6" "q < 32 \<Longrightarrow> (192 + q) mod 32 = q"
  "q < 16 \<Longrightarrow> (224 + q) div 16 = 14" "q < 16 \<Longrightarrow> (224 + q) mod 16 = q"
  "q < 8 \<Longrightarrow> (240 + q) div 8 = 30" "q < 8 \<Longrightarrow> (240 + q) mod 8 = q"
  "q < 64 \<Longrightarrow> (128 + q) div 64 = 2" "q < 64 \<Longrightarrow> (128 + q) mod 64 = q" for q :: nat
  using lead_split [of q 32 6] lead_split [of q 16 14] lead_split [of q 8 30] lead_split [of q 64 2] by simp_all

lemma digit64: "w = q * 64 + r mod 64 \<Longrightarrow> w div 64 = q" "w = q * 64 + r mod 64 \<Longrightarrow> w mod 64 = r mod 64" for w :: nat
  by simp_all

lemma digits64: "w = w div 64 * 64 + w mod 64" for w :: nat
  by simp

lemma utf8_2:
  assumes "0x80 \<le> w" and "w < 0x800"
  shows "utf8 w = [c, d] \<longleftrightarrow> unat c div 32 = 6 \<and> unat d div 64 = 2 \<and> w = unat c mod 32 * 64 + unat d mod 64"
proof -
  have lt: "w div 64 < 32" using assms by (simp add: div_less_iff_less_mult)
  have "utf8 w = [c, d] \<longleftrightarrow> 192 + w div 64 = unat c \<and> 128 + w mod 64 = unat d"
    using assms lt by (simp add: utf8_def word_eq_nat less_imp_le del: of_nat_add)
  also have "\<dots> \<longleftrightarrow> unat c div 32 = 6 \<and> unat d div 64 = 2 \<and> w = unat c mod 32 * 64 + unat d mod 64" (is "?L \<longleftrightarrow> ?R")
  proof
    assume ?L
    then have u: "unat c = 192 + w div 64" "unat d = 128 + w mod 64" by simp_all
    show ?R unfolding u using lt digits64 [of w] digits64 [of "w div 64"] digits64 [of "w div 64 div 64"]
      by (simp add: lead_splits)
  next
    assume R: ?R
    then have "w div 64 = unat c mod 32" "w mod 64 = unat d mod 64" by simp_all
    with R show ?L using class_value by simp
  qed
  finally show ?thesis .
qed

lemma utf8_3:
  assumes "0x800 \<le> w" and "w < 0x10000"
  shows "utf8 w = [c, d, e] \<longleftrightarrow> unat c div 16 = 14 \<and> unat d div 64 = 2 \<and> unat e div 64 = 2 \<and>
    w = (unat c mod 16 * 64 + unat d mod 64) * 64 + unat e mod 64"
proof -
  have lt: "w div 64 div 64 < 16" using assms by (simp add: div_less_iff_less_mult)
  have "utf8 w = [c, d, e] \<longleftrightarrow> 224 + w div 64 div 64 = unat c \<and> 128 + w div 64 mod 64 = unat d \<and> 128 + w mod 64 = unat e"
    using assms lt by (simp add: utf8_def word_eq_nat less_imp_le del: of_nat_add)
  also have "\<dots> \<longleftrightarrow> unat c div 16 = 14 \<and> unat d div 64 = 2 \<and> unat e div 64 = 2 \<and>
    w = (unat c mod 16 * 64 + unat d mod 64) * 64 + unat e mod 64" (is "?L \<longleftrightarrow> ?R")
  proof
    assume ?L
    then have u: "unat c = 224 + w div 64 div 64" "unat d = 128 + w div 64 mod 64" "unat e = 128 + w mod 64" by simp_all
    show ?R unfolding u using lt digits64 [of w] digits64 [of "w div 64"] digits64 [of "w div 64 div 64"]
      by (simp add: lead_splits)
  next
    assume R: ?R
    then have w: "w = (unat c mod 16 * 64 + unat d mod 64) * 64 + unat e mod 64" by blast
    note 1 = digit64 [OF w]
    have "w div 64 div 64 = unat c mod 16" "w div 64 mod 64 = unat d mod 64" unfolding 1 by simp_all
    moreover have "224 + unat c mod 16 = unat c" "128 + unat d mod 64 = unat d" "128 + unat e mod 64 = unat e"
      using R class_value by blast+
    ultimately show ?L by (simp only: 1(2))
  qed
  finally show ?thesis .
qed

lemma utf8_4:
  assumes "0x10000 \<le> w" and "w < 0x200000"
  shows "utf8 w = [c, d, e, f] \<longleftrightarrow> unat c div 8 = 30 \<and> unat d div 64 = 2 \<and> unat e div 64 = 2 \<and> unat f div 64 = 2 \<and>
    w = ((unat c mod 8 * 64 + unat d mod 64) * 64 + unat e mod 64) * 64 + unat f mod 64"
proof -
  have lt: "w div 64 div 64 div 64 < 8" using assms by (simp add: div_less_iff_less_mult)
  have "utf8 w = [c, d, e, f] \<longleftrightarrow> 240 + w div 64 div 64 div 64 = unat c \<and> 128 + w div 64 div 64 mod 64 = unat d \<and>
      128 + w div 64 mod 64 = unat e \<and> 128 + w mod 64 = unat f"
    using assms lt by (simp add: utf8_def word_eq_nat less_imp_le del: of_nat_add)
  also have "\<dots> \<longleftrightarrow> unat c div 8 = 30 \<and> unat d div 64 = 2 \<and> unat e div 64 = 2 \<and> unat f div 64 = 2 \<and>
    w = ((unat c mod 8 * 64 + unat d mod 64) * 64 + unat e mod 64) * 64 + unat f mod 64" (is "?L \<longleftrightarrow> ?R")
  proof
    assume ?L
    then have u: "unat c = 240 + w div 64 div 64 div 64" "unat d = 128 + w div 64 div 64 mod 64" "unat e = 128 + w div 64 mod 64" "unat f = 128 + w mod 64" by simp_all
    show ?R unfolding u using lt digits64 [of w] digits64 [of "w div 64"] digits64 [of "w div 64 div 64"]
      by (simp add: lead_splits)
  next
    assume R: ?R
    then have w: "w = ((unat c mod 8 * 64 + unat d mod 64) * 64 + unat e mod 64) * 64 + unat f mod 64" by blast
    note 1 = digit64 [OF w]
    note 2 = digit64 [OF 1(1)]
    have "w div 64 div 64 div 64 = unat c mod 8" "w div 64 div 64 mod 64 = unat d mod 64" unfolding 2 by simp_all
    moreover have "240 + unat c mod 8 = unat c" "128 + unat d mod 64 = unat d" "128 + unat e mod 64 = unat e" "128 + unat f mod 64 = unat f"
      using R class_value by blast+
    ultimately show ?L by (simp only: 1(2) 2(2))
  qed
  finally show ?thesis .
qed


lemma valid_le: "is_valid_code_point v \<Longrightarrow> unat v \<le> 0x10ffff"
  by (auto simp: is_valid_code_point_def word_less_nat_alt not_less split: if_splits)


text \<open>What the first byte says of the sequence: its bits of the value, the number of
  continuation bytes and the least value that needs them.\<close>

definition utf8_lead :: "nat \<Rightarrow> (nat \<times> nat \<times> nat) option" where
  "utf8_lead c =
     (if c div 32 = 6 then Some (c mod 32, 1, 0x80)
      else if c div 16 = 14 then Some (c mod 16, 2, 0x800)
      else if c div 8 = 30 then Some (c mod 8, 3, 0x10000) else None)"

definition continuation :: "nat \<Rightarrow> byte list \<Rightarrow> bool" where
  "continuation n ds \<longleftrightarrow> length ds = n \<and> (\<forall>d \<in> set ds. unat d div 64 = 2)"

lemma continuation_simps [simp]:
  "continuation 0 ds \<longleftrightarrow> ds = []"
  "continuation (Suc n) ds \<longleftrightarrow> (\<exists>e es. ds = e # es \<and> unat e div 64 = 2 \<and> continuation n es)"
  by (auto simp: continuation_def length_Suc_conv)

lemma div_range: "0 < k \<Longrightarrow> n div k = m \<longleftrightarrow> m * k \<le> n \<and> n < m * k + k" for n k m :: nat
proof
  assume k: "0 < k" and m: "n div k = m"
  have "n mod k < k" using k by simp
  then show "m * k \<le> n \<and> n < m * k + k" using div_mult_mod_eq [of n k] unfolding m by linarith
next
  assume "0 < k" and "m * k \<le> n \<and> n < m * k + k"
  then show "n div k = m" by (intro div_nat_eqI) (simp_all add: mult.commute)
qed

lemma lead_ranges:
  "n div 32 = 6 \<Longrightarrow> 128 \<le> n \<and> n div 16 \<noteq> 14 \<and> n div 8 \<noteq> 30"
  "n div 16 = 14 \<Longrightarrow> 128 \<le> n \<and> n div 32 \<noteq> 6 \<and> n div 8 \<noteq> 30"
  "n div 8 = 30 \<Longrightarrow> 128 \<le> n \<and> n div 32 \<noteq> 6 \<and> n div 16 \<noteq> 14" for n :: nat
  by (simp_all add: div_range)

lemma mod_bounds: "n mod 8 < 8" "n mod 16 < 16" "n mod 32 < 32" "n mod 64 < 64" for n :: nat
  by simp_all

lemma value_bounds:
  "x < 32 \<Longrightarrow> d < 64 \<Longrightarrow> x * 64 + d < 0x800"
  "x < 16 \<Longrightarrow> d < 64 \<Longrightarrow> e < 64 \<Longrightarrow> (x * 64 + d) * 64 + e < 0x10000"
  "x < 8 \<Longrightarrow> d < 64 \<Longrightarrow> e < 64 \<Longrightarrow> f < 64 \<Longrightarrow> ((x * 64 + d) * 64 + e) * 64 + f < 0x200000" for x d e f :: nat
  by (simp_all add: algebra_simps)

lemma utf8_lead_cases:
  assumes "utf8_lead n = Some (v0, k, lb)"
  obtains (one) "n div 32 = 6" "v0 = n mod 32" "k = Suc 0" "lb = 0x80"
  | (two) "n div 16 = 14" "v0 = n mod 16" "k = Suc (Suc 0)" "lb = 0x800"
  | (three) "n div 8 = 30" "v0 = n mod 8" "k = Suc (Suc (Suc 0))" "lb = 0x10000"
  using assms by (auto simp: utf8_lead_def split: if_splits)

lemma utf8_leads:
  assumes "0x80 \<le> w" and "w < 0x200000"
  shows "utf8 w = c # ds \<longleftrightarrow>
    (\<exists>v0 k lb. utf8_lead (unat c) = Some (v0, k, lb) \<and> continuation k ds \<and> w = utf8_value v0 ds \<and> lb \<le> w)" (is "?L \<longleftrightarrow> ?R")
proof
  assume u: ?L
  consider "w < 0x800" | "0x800 \<le> w" "w < 0x10000" | "0x10000 \<le> w" by linarith
  then show ?R
  proof cases
    case 1
    obtain d where d: "ds = [d]" using u assms 1 by (auto simp: utf8_def)
    then have u: "unat c div 32 = 6" "unat d div 64 = 2" "w = unat c mod 32 * 64 + unat d mod 64"
      using u utf8_2 [OF assms(1) 1] by blast+
    have "utf8_lead (unat c) = Some (unat c mod 32, Suc 0, 0x80)" using u(1) by (simp add: utf8_lead_def)
    then show ?thesis using u(2,3) assms(1) by (intro exI conjI) (assumption | simp add: d)+
  next
    case 2
    obtain d e where d: "ds = [d, e]" using u assms 2 by (auto simp: utf8_def)
    then have u: "unat c div 16 = 14" "unat d div 64 = 2" "unat e div 64 = 2"
        "w = (unat c mod 16 * 64 + unat d mod 64) * 64 + unat e mod 64"
      using u utf8_3 [OF 2] by blast+
    have "utf8_lead (unat c) = Some (unat c mod 16, Suc (Suc 0), 0x800)"
      using u(1) lead_ranges(2) [OF u(1)] by (simp add: utf8_lead_def)
    then show ?thesis using u(2-4) 2(1) by (intro exI conjI) (assumption | simp add: d)+
  next
    case 3
    obtain d e f where d: "ds = [d, e, f]" using u assms 3 by (auto simp: utf8_def)
    then have u: "unat c div 8 = 30" "unat d div 64 = 2" "unat e div 64 = 2" "unat f div 64 = 2"
        "w = ((unat c mod 8 * 64 + unat d mod 64) * 64 + unat e mod 64) * 64 + unat f mod 64"
      using u utf8_4 [OF 3 assms(2)] by blast+
    have "utf8_lead (unat c) = Some (unat c mod 8, Suc (Suc (Suc 0)), 0x10000)"
      using u(1) lead_ranges(3) [OF u(1)] by (simp add: utf8_lead_def)
    then show ?thesis using u(2-5) 3 by (intro exI conjI) (assumption | simp add: d)+
  qed
next
  assume ?R
  then obtain v0 k lb where lead: "utf8_lead (unat c) = Some (v0, k, lb)"
    and ds: "continuation k ds" and w: "w = utf8_value v0 ds" and lb: "lb \<le> w" by blast
  from lead show ?L
  proof (cases rule: utf8_lead_cases)
    case one
    with ds obtain d where d: "ds = [d]" "unat d div 64 = 2" by auto
    have w': "w = unat c mod 32 * 64 + unat d mod 64" unfolding w d one by simp
    have "w < 0x800" unfolding w' by (intro value_bounds mod_bounds)
    then show ?thesis using utf8_2 [of w c d] assms(1) one(1) d w' by blast
  next
    case two
    with ds obtain d e where d: "ds = [d, e]" "unat d div 64 = 2" "unat e div 64 = 2" by auto
    have w': "w = (unat c mod 16 * 64 + unat d mod 64) * 64 + unat e mod 64" unfolding w d two by simp
    have "w < 0x10000" unfolding w' by (intro value_bounds mod_bounds)
    then show ?thesis using utf8_3 [of w c d e] lb[unfolded two(4)] two(1) d w' by blast
  next
    case three
    with ds obtain d e f where d: "ds = [d, e, f]" "unat d div 64 = 2" "unat e div 64 = 2" "unat f div 64 = 2" by auto
    have w': "w = ((unat c mod 8 * 64 + unat d mod 64) * 64 + unat e mod 64) * 64 + unat f mod 64" unfolding w d three by simp
    show ?thesis using utf8_4 [of w c d e f] assms(2) lb[unfolded three(4)] three(1) d w' by blast
  qed
qed

lemma utf8_ascii: "w < 0x80 \<Longrightarrow> utf8 w = [word_of_nat w]"
  by (simp add: utf8_def)

lemma utf8_not_Nil [simp]: "utf8 w \<noteq> []"
  by (simp add: utf8_def)

lemma lead_of_ascii: "utf8_lead n = Some (v0, k, lb) \<Longrightarrow> 0x80 \<le> n"
  by (erule utf8_lead_cases) (use lead_ranges [of n] in blast)+

lemma utf8_first:
  assumes "w < 0x200000" "utf8 w = c # ds"
  shows "w < 0x80 \<longleftrightarrow> unat c < 0x80"
proof (cases "w < 0x80")
  case True
  then have "word_of_nat w = c" using assms by (simp add: utf8_ascii)
  then show ?thesis using True by (simp add: word_eq_nat)
next
  case False
  then obtain v0 k lb where "utf8_lead (unat c) = Some (v0, k, lb)" using assms utf8_leads [of w c ds] by auto
  then show ?thesis using False lead_of_ascii by fastforce
qed

section \<open>The readers and the language\<close>

lemma lead_bound: "utf8_lead n = Some (v0, k, lb) \<Longrightarrow> v0 < 32 \<and> v0 * 64 ^ k + 64 ^ k \<le> 2 ^ 32"
proof -
  assume "utf8_lead n = Some (v0, k, lb)"
  moreover have "n mod 32 < 32" "n mod 16 < 16" "n mod 8 < 8" by simp_all
  ultimately have "v0 < 32 \<and> k = 1 \<or> v0 < 16 \<and> k = 2 \<or> v0 < 8 \<and> k = 3"
    by (auto elim!: utf8_lead_cases)
  then show ?thesis by (auto simp: power2_eq_square power3_eq_cube)
qed

lemma cbs_get_utf8_lead:
  assumes "0x80 \<le> unat c"
  shows "cbs_get_utf8 (c # cs) = (Some v, rest) \<longleftrightarrow>
    (\<exists>v0 k lb. utf8_lead (unat c) = Some (v0, k, lb) \<and>
       utf8_tail k (word_of_nat v0) cs = (Some v, rest) \<and> is_valid_code_point v \<and> lb \<le> unat v)"
proof -
  have lead: "(if c AND TOP_BITS 3 = TOP_BITS 2 then Some (ucast (c AND BOTTOM_BITS 5), 1, 0x80)
              else if c AND TOP_BITS 4 = TOP_BITS 3 then Some (ucast (c AND BOTTOM_BITS 4), 2, 0x800)
              else if c AND TOP_BITS 5 = TOP_BITS 4 then Some (ucast (c AND BOTTOM_BITS 3), 3, 0x10000)
              else None) = map_option (\<lambda>(v0, k, lb). (word_of_nat v0 :: uint32, k, word_of_nat lb :: uint32)) (utf8_lead (unat c))"
    for c :: byte
  proof -
    have "ucast (c AND BOTTOM_BITS n) = (word_of_nat (unat c mod 2 ^ n) :: uint32)" if "n \<le> 8" for n
      using lead_value [OF that, of c] by (metis word_nat_id)
    from this [of 5] this [of 4] this [of 3] show ?thesis by (simp add: byte_class utf8_lead_def)
  qed
  have "\<not> c \<le> 0x7f" using assms by (simp add: word_le_nat_alt)
  then have "cbs_get_utf8 (c # cs) = (case utf8_lead (unat c) of None \<Rightarrow> fail | Some (v0, k, lb) \<Rightarrow>
     and_then (utf8_tail k (word_of_nat v0)) (\<lambda>v.
             if \<not> is_valid_code_point v \<or> v < word_of_nat lb then fail else return_val v)) cs"
    by (simp add: cbs_get_utf8_def lead option.case_distrib split: option.splits)
  moreover have "v < word_of_nat lb \<longleftrightarrow> \<not> lb \<le> unat v" if "utf8_lead (unat c) = Some (v0, k, lb)" for v0 k lb and v :: uint32
    using that by (rule utf8_lead_cases) (auto simp: word_less_nat_alt)
  ultimately show ?thesis
    by (auto simp: and_then_apply split: option.splits prod.splits if_splits)
qed

lemma valid_small:
  assumes "unat v < 0x80"
  shows "is_valid_code_point v"
proof -
  have "v AND 0xfffe \<noteq> 0xfffe"
  proof
    assume "v AND 0xfffe = 0xfffe"
    then have "unat (v AND 0xfffe) = 0xfffe" by simp
    then show False using word_and_le2 [of v "0xfffe"] assms by (simp add: word_le_nat_alt)
  qed
  then show ?thesis using assms by (simp add: is_valid_code_point_def word_le_nat_alt word_less_nat_alt)
qed


lemma exists_regroup:
  assumes "\<And>v k l. L v k l \<Longrightarrow> T v k \<longleftrightarrow> (\<exists>ds. P ds \<and> C k ds \<and> W v ds)"
    and "\<And>ds. V \<Longrightarrow> U ds \<longleftrightarrow> (\<exists>v k l. L v k l \<and> C k ds \<and> W v ds \<and> B l)"
  shows "(\<exists>v k l. L v k l \<and> T v k \<and> V \<and> B l) \<longleftrightarrow> V \<and> (\<exists>ds. P ds \<and> U ds)"
  using assms by blast

lemma cbs_get_utf8_iff:
  "cbs_get_utf8 cs = (Some v, rest) \<longleftrightarrow> is_valid_code_point v \<and> cs = utf8 (unat v) @ rest"
proof (cases cs)
  case Nil
  then show ?thesis by (simp add: cbs_get_utf8_def and_then_apply)
next
  case (Cons c cs')
  have R: "cs = utf8 (unat v) @ rest \<longleftrightarrow> (\<exists>ds. cs' = ds @ rest \<and> utf8 (unat v) = c # ds)"
      by (cases "utf8 (unat v)") (auto simp: Cons)
  show ?thesis
  proof (cases "unat c < 0x80")
    case True
    then have "cbs_get_utf8 cs = (Some (ucast c), cs')"
      by (simp add: cbs_get_utf8_def Cons word_le_nat_alt)
    moreover have "utf8 (unat v) = c # ds \<longleftrightarrow> v = ucast c \<and> ds = []" if "is_valid_code_point v" for ds
    proof
      assume u: "utf8 (unat v) = c # ds"
      with True valid_le [OF that] utf8_first [OF _ u] have "unat v < 0x80" by simp
      with u have "unat v = unat c \<and> ds = []" by (auto simp: utf8_ascii unsigned_ucast_eq take_bit_eq_mod)
      then show "v = ucast c \<and> ds = []" by (simp add: word_unat_eq_iff)
    qed (use True in \<open>simp add: utf8_ascii\<close>)
    ultimately show ?thesis unfolding R using valid_small [of "ucast c"] True by auto
  next
    case False
    have tail: "utf8_tail k (word_of_nat v0) cs' = (Some v, rest) \<longleftrightarrow>
        (\<exists>ds. cs' = ds @ rest \<and> continuation k ds \<and> unat v = utf8_value v0 ds)"
      if "utf8_lead (unat c) = Some (v0, k, lb)" for v0 k lb
      using lead_bound [OF that] by (subst utf8_tail_iff) (auto simp: continuation_def unsigned_of_nat take_bit_eq_mod)
    have lang: "utf8 (unat v) = c # ds \<longleftrightarrow>
      (\<exists>v0 k lb. utf8_lead (unat c) = Some (v0, k, lb) \<and> continuation k ds \<and> unat v = utf8_value v0 ds \<and> lb \<le> unat v)"
      if "is_valid_code_point v" for ds
    proof (cases "unat v < 0x80")
      case True
      then have "unat (ucast v :: byte) = unat v" by (simp add: unsigned_ucast_eq take_bit_eq_mod)
      then have "utf8 (unat v) \<noteq> c # ds" using False True by (auto simp: utf8_ascii)
      moreover have "\<not> lb \<le> unat v" if "utf8_lead (unat c) = Some (v0, k, lb)" for v0 k lb
        using that True by (auto elim!: utf8_lead_cases)
      ultimately show ?thesis by blast
    next
      case False
      then show ?thesis using valid_le [OF that] by (intro utf8_leads) simp_all
    qed
    have "cbs_get_utf8 cs = (Some v, rest) \<longleftrightarrow>
      (\<exists>v0 k lb. utf8_lead (unat c) = Some (v0, k, lb) \<and>
         utf8_tail k (word_of_nat v0) cs' = (Some v, rest) \<and> is_valid_code_point v \<and> lb \<le> unat v)"
      using False by (simp add: Cons cbs_get_utf8_lead)
    also have "\<dots> \<longleftrightarrow> is_valid_code_point v \<and> (\<exists>ds. cs' = ds @ rest \<and> utf8 (unat v) = c # ds)"
      by (rule exists_regroup [OF tail lang])
    finally show ?thesis unfolding R .
  qed
qed

section \<open>The writers and the language\<close>

text \<open>Bytes written one at a time.\<close>

fun emit :: "cbb \<Rightarrow> nat \<Rightarrow> byte list \<Rightarrow> bool \<times> cbb" where
  "emit cbb h [] = (True, cbb)"
| "emit cbb h (b # bs) = ok_then (CBB_add_u8 cbb h b) (\<lambda>c. emit c h bs)"

lemma ok_then_True_id [simp]: "ok_then r (\<lambda>c. (True, c)) = r"
  by (cases r) (simp add: ok_then_def)

lemma emit_represents:
  assumes "represents c fs" and "h < length fs" and "emit c h bs = (True, c')" and "bs \<noteq> []"
  shows "represents c' (awrite h bs fs)"
  using assms
proof (induction bs arbitrary: c fs)
  case (Cons b bs)
  obtain c1 where 1: "CBB_add_bytes c h [b] = (True, c1)" "emit c1 h bs = (True, c')"
    using Cons.prems(3) by (auto simp: CBB_add_u8_eq elim!: ok_then_True)
  from CBB_add_bytes_represents(1) [OF Cons.prems(1,2) _ 1(1)]
  have r: "represents c1 (awrite h [b] fs)" by (simp add: size_mod_def)
  show ?case
  proof (cases "bs = []")
    case True
    then show ?thesis using r 1 by simp
  next
    case False
    from Cons.IH [OF r _ 1(2) False] Cons.prems(2) show ?thesis by simp
  qed
qed simp

lemma delivers_emit:
  assumes "h < length fs" and "all_fit (drop (Suc h) fs)" and "length (raw (awrite h bs fs)) \<le> N" and "bs \<noteq> []"
  shows "delivers N (\<lambda>c. emit c h bs) fs (awrite h bs fs)"
  using assms
proof (induction bs arbitrary: fs)
  case (Cons b bs)
  have 1: "delivers N (\<lambda>c. CBB_add_bytes c h [b]) fs (awrite h [b] fs)"
    using Cons.prems by (intro delivers_bytes) (auto simp: raw_awrite)
  show ?case
  proof (cases "bs = []")
    case True
    then show ?thesis using 1 by (simp add: CBB_add_u8_eq)
  next
    case False
    have "delivers N (\<lambda>c. emit c h bs) (awrite h [b] fs) (awrite h bs (awrite h [b] fs))"
      using Cons.prems False by (intro Cons.IH) simp_all
    from delivers_then [OF 1 this] Cons.prems(1) show ?thesis by (simp add: CBB_add_u8_eq)
  qed
qed simp

lemma marked_byte:
  fixes x :: uint32
  assumes "k \<le> 8" and "unat x < 2 ^ (8 - k)"
  shows "ucast (ucast (TOP_BITS k) OR x) = (word_of_nat (unat (TOP_BITS k) + unat x) :: byte)"
proof -
  have "TOP_BITS k = push_bit (8 - k) (mask k)"
    by (rule bit_word_eqI) (use assms(1) in \<open>auto simp: TOP_BITS_def bottom_bits bit_simps\<close>)
  then have t: "(ucast (TOP_BITS k) :: uint32) = push_bit (8 - k) (mask k)"
    by simp (rule bit_word_eqI; use assms(1) in \<open>auto simp: bit_simps\<close>)
  have "(ucast (TOP_BITS k) OR x) = (ucast (TOP_BITS k) :: uint32) + x"
    unfolding t by (rule push_or_plus [OF assms(2)])
  then have "(ucast (TOP_BITS k) OR x) = word_of_nat (unat (TOP_BITS k) + unat x)"
    by simp
  then have "ucast (ucast (TOP_BITS k) OR x) = (ucast (word_of_nat (unat (TOP_BITS k) + unat x) :: uint32) :: byte)"
    by (rule arg_cong)
  then show ?thesis by (simp add: word_unat_eq_iff unsigned_ucast_eq unsigned_of_nat del: of_nat_add)
qed

lemma top_values: "unat (TOP_BITS (Suc 0)) = 128" "unat (TOP_BITS 2) = 192" "unat (TOP_BITS 3) = 224" "unat (TOP_BITS 4) = 240"
  by (simp_all add: TOP_BITS_def BOTTOM_BITS_def)

lemma low_six: "unat (x AND ucast (BOTTOM_BITS 6)) = unat x mod 64" for x :: uint32
proof -
  have "(ucast (BOTTOM_BITS 6) :: uint32) = mask 6" by (simp add: BOTTOM_BITS_def mask_eq_exp_minus_1)
  then show ?thesis by (simp add: unat_and_mask)
qed

lemma six_shifts: "n div 4096 = n div 64 div 64" "n div 262144 = n div 64 div 64 div 64" for n :: nat
  by (simp_all add: div_mult2_eq [symmetric])

lemma cbb_add_utf8_eq:
  "cbb_add_utf8 cbb h u = (if is_valid_code_point u then emit cbb h (utf8 (unat u)) else (False, cbb))"
proof (cases "is_valid_code_point u")
  case valid: True
  have tail: "ucast (ucast (TOP_BITS (Suc 0)) OR (x AND ucast (BOTTOM_BITS 6))) = (word_of_nat (128 + unat x mod 64) :: byte)"
    for x :: uint32
    by (subst marked_byte) (simp_all add: low_six top_values)
  have shift: "unat (drop_bit 6 u) = unat u div 64" "unat (drop_bit 12 u) = unat u div 64 div 64"
    "unat (drop_bit 18 u) = unat u div 64 div 64 div 64"
    by (simp_all add: unat_drop six_shifts)
  note le = word_le_nat_alt
  consider "unat u < 0x80" | "0x80 \<le> unat u" "unat u < 0x800" | "0x800 \<le> unat u" "unat u < 0x10000"
    | "0x10000 \<le> unat u" "unat u \<le> 0x10ffff" using valid_le [OF valid] by linarith
  then show ?thesis
  proof cases
    case 1
    then show ?thesis using valid by (simp add: cbb_add_utf8_def utf8_def le)
  next
    case 2
    then have "unat u div 64 < 32" by linarith
    then have "ucast (ucast (TOP_BITS 2) OR drop_bit 6 u) = (word_of_nat (192 + unat u div 64) :: byte)"
      by (subst marked_byte) (simp_all add: shift top_values)
    then show ?thesis using valid 2 by (simp add: cbb_add_utf8_def utf8_def le tail del: of_nat_add)
  next
    case 3
    then have "unat u div 64 div 64 < 16" by linarith
    then have "ucast (ucast (TOP_BITS 3) OR drop_bit 12 u) = (word_of_nat (224 + unat u div 64 div 64) :: byte)"
      by (subst marked_byte) (simp_all add: shift top_values)
    then show ?thesis using valid 3 by (simp add: cbb_add_utf8_def utf8_def le tail shift del: of_nat_add)
  next
    case 4
    then have "unat u div 64 div 64 div 64 < 16" by linarith
    then have "ucast (ucast (TOP_BITS 4) OR drop_bit 18 u) = (word_of_nat (240 + unat u div 64 div 64 div 64) :: byte)"
      by (subst marked_byte) (simp_all add: shift top_values)
    then show ?thesis using valid 4 by (simp add: cbb_add_utf8_def utf8_def le tail shift del: of_nat_add)
  qed
qed (simp add: cbb_add_utf8_def)

lemma utf8_length: "is_valid_code_point u \<Longrightarrow> length (utf8 (unat u)) = cbb_get_utf8_len u"
  by (auto simp: utf8_def cbb_get_utf8_len_def word_le_nat_alt)

section \<open>Contracts\<close>

text \<open>A writer of one character: it appends the encoding, and only of a character in its set.\<close>

locale char_writer = stream_codec enc dec ok
  for enc :: "uint32 \<Rightarrow> byte list" and dec and ok +
  fixes add :: "cbb \<Rightarrow> nat \<Rightarrow> uint32 \<Rightarrow> bool \<times> cbb"
  assumes add_writes: "represents c fs \<Longrightarrow> h < length fs \<Longrightarrow> add c h u = (True, c') \<Longrightarrow>
      ok u \<and> represents c' (awrite h (enc u) fs)"
    and add_delivers: "ok u \<Longrightarrow> h < length fs \<Longrightarrow> all_fit (drop (Suc h) fs) \<Longrightarrow>
      length (raw (awrite h (enc u) fs)) \<le> N \<Longrightarrow> delivers N (\<lambda>c. add c h u) fs (awrite h (enc u) fs)"
begin

text \<open>Reading back what was written into an empty buffer of the top-level object.\<close>

lemma write_read:
  assumes "represents c [(Plain 0, [])]" and "add c 0 u = (True, c1)" and "CBB_finish c1 0 b = (Some out, c2)"
  shows "dec out = (Some u, [])"
proof -
  have "ok u" and r: "represents c1 (awrite 0 (enc u) [(Plain 0, [])])" using add_writes [OF assms(1) _ assms(2)] by auto
  moreover have "out = enc u" using CBB_finish_render [OF r assms(3)] by (simp add: awrite_def aflush_def Let_def)
  ultimately show ?thesis using dec_enc_Nil by simp
qed

end


lemma delivers_add_u:
  assumes "h < length fs" and "all_fit (drop (Suc h) fs)" and "length (raw (awrite h (be_bytes n (unat v)) fs)) \<le> N"
    and "0 < n" and "n \<le> 8" and "unat v < 256 ^ n"
  shows "delivers N (\<lambda>c. cbb_add_u c h v n) fs (awrite h (be_bytes n (unat v)) fs)"
proof (unfold delivers_def, intro allI impI)
  fix c assume c: "represents c fs" "capacity c N"
  have "length (raw (aflush h fs)) + n \<le> N" using assms(3) by (simp add: raw_awrite [OF assms(1)])
  from cbb_add_u_total [OF c assms(1,4,2) this assms(6)] obtain c' where
    c': "cbb_add_u c h v n = (True, c')" "capacity c' N" by blast
  with cbb_add_u_represents(1) [OF c(1) assms(1) c'(1) assms(4,5)]
  show "\<exists>c'. cbb_add_u c h v n = (True, c') \<and> represents c' (awrite h (be_bytes n (unat v)) fs) \<and> capacity c' N"
    by blast
qed

lemma checked_reader_iff:
  assumes "\<And>x. m cs = (Some x, rest) \<longleftrightarrow> cs = enc x @ rest"
  shows "and_then m (\<lambda>x. if \<not> P x then fail else return_val (f x)) cs = (Some v, rest) \<longleftrightarrow>
      (\<exists>x. cs = enc x @ rest \<and> P x \<and> v = f x)" (is "?A \<longleftrightarrow> _")
    and "and_then m (\<lambda>x. if P x then return_val (f x) else fail) cs = (Some v, rest) \<longleftrightarrow>
      (\<exists>x. cs = enc x @ rest \<and> P x \<and> v = f x)" (is "?B \<longleftrightarrow> _")
proof -
  have "?A \<longleftrightarrow> (\<exists>x. m cs = (Some x, rest) \<and> P x \<and> v = f x)"
    by (auto simp: and_then_apply split: prod.splits option.splits if_splits)
  then show "?A \<longleftrightarrow> (\<exists>x. cs = enc x @ rest \<and> P x \<and> v = f x)" by (simp only: assms)
  have "?B \<longleftrightarrow> (\<exists>x. m cs = (Some x, rest) \<and> P x \<and> v = f x)"
    by (auto simp: and_then_apply split: prod.splits option.splits if_splits)
  then show "?B \<longleftrightarrow> (\<exists>x. cs = enc x @ rest \<and> P x \<and> v = f x)" by (simp only: assms)
qed

lemma ucast_small: "unat u < 2 ^ LENGTH('b::len) \<Longrightarrow> unat (ucast u :: 'b word) = unat u"
  by (simp add: unsigned_ucast_eq take_bit_nat_eq_self)

interpretation utf8_chars: char_writer "\<lambda>v. utf8 (unat v)" cbs_get_utf8 is_valid_code_point cbb_add_utf8
proof unfold_locales
  show "represents c fs \<Longrightarrow> h < length fs \<Longrightarrow> cbb_add_utf8 c h u = (True, c') \<Longrightarrow>
      is_valid_code_point u \<and> represents c' (awrite h (utf8 (unat u)) fs)" for c fs h u c'
    by (auto simp: cbb_add_utf8_eq intro: emit_represents split: if_splits)
  show "is_valid_code_point u \<Longrightarrow> h < length fs \<Longrightarrow> all_fit (drop (Suc h) fs) \<Longrightarrow>
      length (raw (awrite h (utf8 (unat u)) fs)) \<le> N \<Longrightarrow> delivers N (\<lambda>c. cbb_add_utf8 c h u) fs (awrite h (utf8 (unat u)) fs)"
    for u h fs N
    by (simp add: cbb_add_utf8_eq delivers_emit)
qed (simp_all add: cbs_get_utf8_iff)

interpretation latin1_chars: char_writer "\<lambda>v. [ucast v]" cbs_get_latin1 "\<lambda>v. v \<le> 0xff" cbb_add_latin1
proof unfold_locales
  show "represents c fs \<Longrightarrow> h < length fs \<Longrightarrow> cbb_add_latin1 c h u = (True, c') \<Longrightarrow>
      u \<le> 0xff \<and> represents c' (awrite h [ucast u] fs)" for c fs h u c'
    using CBB_add_bytes_represents(1) [of c fs h "[ucast u]" c']
    by (auto simp: cbb_add_latin1_def CBB_add_u8_eq size_mod_def split: if_splits)
  show "u \<le> 0xff \<Longrightarrow> h < length fs \<Longrightarrow> all_fit (drop (Suc h) fs) \<Longrightarrow>
      length (raw (awrite h [ucast u] fs)) \<le> N \<Longrightarrow> delivers N (\<lambda>c. cbb_add_latin1 c h u) fs (awrite h [ucast u] fs)"
    for u h fs N
    by (simp add: cbb_add_latin1_def CBB_add_u8_eq delivers_bytes)
next
  have id: "ucast (ucast u :: byte) = u" if "u \<le> 0xff" for u :: uint32
    using that ucast_small [where ?'b = 8, of u] by (simp add: word_unat_eq_iff word_le_nat_alt ucast_small)
  have le: "ucast b \<le> (0xff :: uint32)" for b :: byte
  proof -
    have "unat b < 256" using unsigned_less [of b, where ?'a = nat] by simp
    then have "unat b \<le> 255" by linarith
    then show ?thesis by (simp add: word_le_nat_alt ucast_small)
  qed
  have widened: "ucast (ucast b :: uint32) = b" for b :: byte
    by (simp add: word_unat_eq_iff ucast_small)
  show "v \<le> 0xff \<Longrightarrow> cbs_get_latin1 ([ucast v] @ rest) = (Some v, rest)" for v rest
    by (simp add: cbs_get_latin1_def and_then_apply CBS_get_u8_Some id)
  show "cbs_get_latin1 cs = (Some v, rest) \<Longrightarrow> v \<le> 0xff \<and> cs = [ucast v] @ rest" for cs v rest
    by (auto simp: cbs_get_latin1_def and_then_apply CBS_get_u8_Some le widened split: prod.splits option.splits)
qed simp

definition ucs2_ok :: "uint32 \<Rightarrow> bool" where
  "ucs2_ok u \<longleftrightarrow> u \<le> 0xffff \<and> is_valid_code_point u"

interpretation ucs2_chars: char_writer "\<lambda>v. be_bytes 2 (unat v)" cbs_get_ucs2_be ucs2_ok cbb_add_ucs2_be
proof unfold_locales
  have v: "unat (ucast (ucast u :: uint16) :: uint64) = unat u" if "u \<le> 0xffff" for u :: uint32
    using that by (simp add: word_le_nat_alt ucast_small)
  show "represents c fs \<Longrightarrow> h < length fs \<Longrightarrow> cbb_add_ucs2_be c h u = (True, c') \<Longrightarrow>
      ucs2_ok u \<and> represents c' (awrite h (be_bytes 2 (unat u)) fs)" for c fs h u c'
    using cbb_add_u_represents(1) [of c fs h "ucast (ucast u :: uint16)" 2 c'] v [of u]
    by (auto simp: cbb_add_ucs2_be_def CBB_add_u16_def ucs2_ok_def simp del: be_bytes.simps be_bytes_numeral split: if_splits)
  show "ucs2_ok u \<Longrightarrow> h < length fs \<Longrightarrow> all_fit (drop (Suc h) fs) \<Longrightarrow>
      length (raw (awrite h (be_bytes 2 (unat u)) fs)) \<le> N \<Longrightarrow>
      delivers N (\<lambda>c. cbb_add_ucs2_be c h u) fs (awrite h (be_bytes 2 (unat u)) fs)" for u h fs N
    using delivers_add_u [of h fs 2 "ucast (ucast u :: uint16)" N] v [of u]
    by (auto simp: cbb_add_ucs2_be_def CBB_add_u16_def ucs2_ok_def word_le_nat_alt simp del: be_bytes.simps be_bytes_numeral)
next
  have iff: "cbs_get_ucs2_be cs = (Some v, rest) \<longleftrightarrow> ucs2_ok v \<and> cs = be_bytes 2 (unat v) @ rest" for cs v rest
  proof -
    have "cbs_get_ucs2_be cs = (Some v, rest) \<longleftrightarrow>
        (\<exists>x :: uint16. cs = be_bytes 2 (unat x) @ rest \<and> is_valid_code_point (ucast x) \<and> v = ucast x)"
      unfolding cbs_get_ucs2_be_def by (subst checked_reader_iff(1) [where enc = "\<lambda>v. be_bytes 2 (unat v)"]) (simp_all add: u16.dec_iff del: be_bytes.simps)
    also have "\<dots> \<longleftrightarrow> ucs2_ok v \<and> cs = be_bytes 2 (unat v) @ rest" (is "?L \<longleftrightarrow> ?R")
    proof
      assume ?L
      then obtain x :: uint16 where x: "cs = be_bytes 2 (unat x) @ rest" "is_valid_code_point (ucast x)" "v = ucast x" by blast
      have lt: "unat x < 65536" using unsigned_less [of x, where ?'a = nat] by simp
      then have u: "unat v = unat x" unfolding x(3) by (simp add: ucast_small)
      have "v \<le> 0xffff" using lt by (simp add: word_le_nat_alt u)
      then show ?R using x(2) by (simp only: u x(1) ucs2_ok_def simp_thms x(3) [symmetric])
    next
      assume R: ?R
      then have le: "unat v \<le> 65535" by (simp add: ucs2_ok_def word_le_nat_alt)
      then have u: "unat (ucast v :: uint16) = unat v" by (simp add: ucast_small)
      then have "ucast (ucast v :: uint16) = v" using le by (simp add: word_unat_eq_iff ucast_small)
      with R u show ?L by (intro exI [of _ "ucast v"]) (simp add: ucs2_ok_def del: be_bytes.simps)
    qed
    finally show ?thesis .
  qed
  show "ucs2_ok v \<Longrightarrow> cbs_get_ucs2_be (be_bytes 2 (unat v) @ rest) = (Some v, rest)" for v rest by (simp add: iff)
  show "cbs_get_ucs2_be cs = (Some v, rest) \<Longrightarrow> ucs2_ok v \<and> cs = be_bytes 2 (unat v) @ rest" for cs v rest by (simp add: iff)
qed (simp add: nonempty_bytes del: be_bytes.simps)

interpretation utf32_chars: char_writer "\<lambda>v. be_bytes 4 (unat v)" cbs_get_utf32_be is_valid_code_point cbb_add_utf32_be
proof unfold_locales
  show "represents c fs \<Longrightarrow> h < length fs \<Longrightarrow> cbb_add_utf32_be c h u = (True, c') \<Longrightarrow>
      is_valid_code_point u \<and> represents c' (awrite h (be_bytes 4 (unat u)) fs)" for c fs h u c'
    using cbb_add_u_represents(1) [of c fs h "ucast u" 4 c']
    by (auto simp: cbb_add_utf32_be_def CBB_add_u32_def split: if_splits)
  show "is_valid_code_point u \<Longrightarrow> h < length fs \<Longrightarrow> all_fit (drop (Suc h) fs) \<Longrightarrow>
      length (raw (awrite h (be_bytes 4 (unat u)) fs)) \<le> N \<Longrightarrow>
      delivers N (\<lambda>c. cbb_add_utf32_be c h u) fs (awrite h (be_bytes 4 (unat u)) fs)" for u h fs N
    using delivers_add_u [of h fs 4 "ucast u" N] valid_le [of u]
    by (auto simp: cbb_add_utf32_be_def CBB_add_u32_def word_le_nat_alt)
next
  have iff: "cbs_get_utf32_be cs = (Some v, rest) \<longleftrightarrow> is_valid_code_point v \<and> cs = be_bytes 4 (unat v) @ rest" for cs v rest
    unfolding cbs_get_utf32_be_def by (subst checked_reader_iff(2) [where enc = "\<lambda>v. be_bytes 4 (unat v)"]) (auto simp: u32.dec_iff simp del: be_bytes.simps)
  show "is_valid_code_point v \<Longrightarrow> cbs_get_utf32_be (be_bytes 4 (unat v) @ rest) = (Some v, rest)" for v rest by (simp add: iff)
  show "cbs_get_utf32_be cs = (Some v, rest) \<Longrightarrow> is_valid_code_point v \<and> cs = be_bytes 4 (unat v) @ rest" for cs v rest by (simp add: iff)
qed (simp add: nonempty_bytes del: be_bytes.simps)

end
