(* ===== verification/MBString.thy ===== *)
theory MBString
  imports Unicode
begin

text \<open>
  Conversion of character strings: \<open>crypto/asn1/a_mbstr.c\<close> and the \<open>ASN1_STRING\<close> operations of
  \<open>crypto/asn1/asn1_lib.c\<close> it rests on. The text is read twice through the readers of
  \<open>Unicode\<close>, once to find the smallest string type that holds it and once to write it into a
  builder.
\<close>

section \<open>Constants\<close>

datatype mb_form = MBSTRING_UTF8 | MBSTRING_ASC | MBSTRING_BMP | MBSTRING_UNIV

text \<open>The values of the \<open>inform\<close> argument; any other is an unknown format.\<close>

fun mbstring_form :: "int \<Rightarrow> mb_form option" where
  "mbstring_form n = (if n = 0x1000 then Some MBSTRING_UTF8 else if n = 0x1001 then Some MBSTRING_ASC
     else if n = 0x1002 then Some MBSTRING_BMP else if n = 0x1004 then Some MBSTRING_UNIV else None)"

definition B_ASN1_PRINTABLESTRING :: uint64 where "B_ASN1_PRINTABLESTRING = 0x0002"
definition B_ASN1_T61STRING :: uint64 where "B_ASN1_T61STRING = 0x0004"
definition B_ASN1_IA5STRING :: uint64 where "B_ASN1_IA5STRING = 0x0010"
definition B_ASN1_UNIVERSALSTRING :: uint64 where "B_ASN1_UNIVERSALSTRING = 0x0100"
definition B_ASN1_BMPSTRING :: uint64 where "B_ASN1_BMPSTRING = 0x0800"
definition B_ASN1_UTF8STRING :: uint64 where "B_ASN1_UTF8STRING = 0x2000"

definition DIRSTRING_TYPE :: uint64 where
  "DIRSTRING_TYPE = B_ASN1_PRINTABLESTRING OR B_ASN1_T61STRING OR B_ASN1_BMPSTRING OR B_ASN1_UTF8STRING"

definition V_ASN1_UTF8STRING :: int where "V_ASN1_UTF8STRING = 12"
definition V_ASN1_PRINTABLESTRING :: int where "V_ASN1_PRINTABLESTRING = 19"
definition V_ASN1_T61STRING :: int where "V_ASN1_T61STRING = 20"
definition V_ASN1_IA5STRING :: int where "V_ASN1_IA5STRING = 22"
definition V_ASN1_UNIVERSALSTRING :: int where "V_ASN1_UNIVERSALSTRING = 28"
definition V_ASN1_BMPSTRING :: int where "V_ASN1_BMPSTRING = 30"

definition INT_MAX :: int where "INT_MAX = 2 ^ 31 - 1"

datatype asn1_error = UNKNOWN_FORMAT | INVALID_BMPSTRING | INVALID_UNIVERSALSTRING | INVALID_UTF8STRING
  | ILLEGAL_CHARACTERS | STRING_TOO_SHORT | STRING_TOO_LONG | MALLOC_FAILURE | INTERNAL_ERROR

section \<open>\<open>ASN1_STRING\<close>\<close>

text \<open>
  \<open>str_data\<close> is the memory block of the string, its terminating zero byte included, or \<open>None\<close>
  for a null pointer; \<open>str_length\<close> is the field \<open>length\<close>.
\<close>

record asn1_string =
  str_length :: int
  str_type :: int
  str_data :: "byte list option"
  str_flags :: int

definition ASN1_STRING_type_new :: "int \<Rightarrow> heap \<Rightarrow> asn1_string option \<times> heap" where
  "ASN1_STRING_type_new type h =
     (case alloc_next h of (ok, h') \<Rightarrow>
       if \<not> ok then (None, h')
       else (Some \<lparr>str_length = 0, str_type = type, str_data = None, str_flags = 0\<rparr>, h'))"

text \<open>
  The \<open>len\<close> bytes at a pointer. A negative length stands for a C string; \<open>mem\<close> is the memory
  from the pointer on.
\<close>

definition c_string :: "byte list \<Rightarrow> byte list" where
  "c_string mem = takeWhile (\<lambda>b. b \<noteq> 0) mem"

definition ASN1_STRING_set :: "asn1_string \<Rightarrow> byte list \<Rightarrow> int \<Rightarrow> heap \<Rightarrow> bool \<times> asn1_string \<times> heap" where
  "ASN1_STRING_set str data len h =
     (let bytes = (if len < 0 then c_string data else take (nat len) data);
          n = int (length bytes);
          (ok, block, h') =
            (if str_length str \<le> n \<or> str_data str = None
             then (case alloc_next h of (ok, h') \<Rightarrow> (ok, [], h'))
             else (True, the (str_data str), h))
      in if \<not> ok then (False, str, h')
         else (True, str\<lparr>str_length := n, str_data := Some (store_at 0 (bytes @ [0]) block)\<rparr>, h'))"

definition ASN1_STRING_cmp :: "asn1_string \<Rightarrow> asn1_string \<Rightarrow> int" where
  "ASN1_STRING_cmp a b =
     (let i = str_length a - str_length b in
      if i = 0 then
        (let i = OPENSSL_memcmp (take (nat (str_length a)) (the (str_data a))) (take (nat (str_length a)) (the (str_data b))) in
         if i = 0 then str_type a - str_type b else i)
      else i)"

section \<open>Types that can hold a character\<close>

text \<open>\<open>strchr\<close> finds the terminating zero byte of its string too.\<close>

definition strchr :: "nat list \<Rightarrow> nat \<Rightarrow> bool" where
  "strchr s ch \<longleftrightarrow> ch \<in> set (s @ [0])"

definition is_printable :: "uint32 \<Rightarrow> bool" where
  "is_printable value =
     (if value > 0x7f then False
      else
        let ch = unat value in
        if ch \<ge> 97 \<and> ch \<le> 122 then True
        else if ch \<ge> 65 \<and> ch \<le> 90 then True
        else if ch \<ge> 48 \<and> ch \<le> 57 then True
        else if ch = 32 \<or> strchr [39, 40, 41, 43, 44, 45, 46, 47, 58, 61, 63] ch then True
        else False)"

definition clear_if :: "uint64 \<Rightarrow> bool \<Rightarrow> uint64 \<Rightarrow> uint64" where
  "clear_if b cond msk = (if msk AND b \<noteq> 0 \<and> cond then msk AND NOT b else msk)"

definition narrow_mask :: "uint32 \<Rightarrow> uint64 \<Rightarrow> uint64" where
  "narrow_mask c msk =
     (let msk = clear_if B_ASN1_PRINTABLESTRING (\<not> is_printable c) msk;
          msk = clear_if B_ASN1_IA5STRING (c > 127) msk;
          msk = clear_if B_ASN1_T61STRING (c > 0xff) msk
      in clear_if B_ASN1_BMPSTRING (c > 0xffff) msk)"

fun decode_func :: "mb_form \<Rightarrow> uint32 reader" where
  "decode_func MBSTRING_BMP = cbs_get_ucs2_be"
| "decode_func MBSTRING_UNIV = cbs_get_utf32_be"
| "decode_func MBSTRING_UTF8 = cbs_get_utf8"
| "decode_func MBSTRING_ASC = cbs_get_latin1"

fun decode_error :: "mb_form \<Rightarrow> asn1_error" where
  "decode_error MBSTRING_BMP = INVALID_BMPSTRING"
| "decode_error MBSTRING_UNIV = INVALID_UNIVERSALSTRING"
| "decode_error MBSTRING_UTF8 = INVALID_UTF8STRING"
| "decode_error MBSTRING_ASC = INTERNAL_ERROR"

fun encode_func :: "mb_form \<Rightarrow> cbb \<Rightarrow> nat \<Rightarrow> uint32 \<Rightarrow> bool \<times> cbb" where
  "encode_func MBSTRING_BMP = cbb_add_ucs2_be"
| "encode_func MBSTRING_UNIV = cbb_add_utf32_be"
| "encode_func MBSTRING_UTF8 = cbb_add_utf8"
| "encode_func MBSTRING_ASC = cbb_add_latin1"

text \<open>The encodings as one family of codecs.\<close>

fun char_bytes :: "mb_form \<Rightarrow> uint32 \<Rightarrow> byte list" where
  "char_bytes MBSTRING_BMP v = be_bytes 2 (unat v)"
| "char_bytes MBSTRING_UNIV v = be_bytes 4 (unat v)"
| "char_bytes MBSTRING_UTF8 v = utf8 (unat v)"
| "char_bytes MBSTRING_ASC v = [ucast v]"

fun char_ok :: "mb_form \<Rightarrow> uint32 \<Rightarrow> bool" where
  "char_ok MBSTRING_BMP v = ucs2_ok v"
| "char_ok MBSTRING_UNIV v = is_valid_code_point v"
| "char_ok MBSTRING_UTF8 v = is_valid_code_point v"
| "char_ok MBSTRING_ASC v = (v \<le> 0xff)"

interpretation chars: char_writer "char_bytes f" "decode_func f" "char_ok f" "encode_func f" for f
proof (cases f)
  case MBSTRING_UTF8
  have "char_bytes MBSTRING_UTF8 = (\<lambda>v. utf8 (unat v))" "char_ok MBSTRING_UTF8 = is_valid_code_point" by auto
  then show "char_writer (char_bytes f) (decode_func f) (char_ok f) (encode_func f)"
    using utf8_chars.char_writer_axioms MBSTRING_UTF8 by simp
next
  case MBSTRING_ASC
  have "char_bytes MBSTRING_ASC = (\<lambda>v. [ucast v])" "char_ok MBSTRING_ASC = (\<lambda>v. v \<le> 0xff)" by auto
  then show "char_writer (char_bytes f) (decode_func f) (char_ok f) (encode_func f)"
    using latin1_chars.char_writer_axioms MBSTRING_ASC by simp
next
  case MBSTRING_BMP
  have "char_bytes MBSTRING_BMP = (\<lambda>v. be_bytes 2 (unat v))" "char_ok MBSTRING_BMP = ucs2_ok" by (auto simp del: be_bytes.simps)
  then show "char_writer (char_bytes f) (decode_func f) (char_ok f) (encode_func f)"
    using ucs2_chars.char_writer_axioms MBSTRING_BMP by (simp del: be_bytes.simps)
next
  case MBSTRING_UNIV
  have "char_bytes MBSTRING_UNIV = (\<lambda>v. be_bytes 4 (unat v))" "char_ok MBSTRING_UNIV = is_valid_code_point" by (auto simp del: be_bytes.simps)
  then show "char_writer (char_bytes f) (decode_func f) (char_ok f) (encode_func f)"
    using utf32_chars.char_writer_axioms MBSTRING_UNIV by (simp del: be_bytes.simps)
qed

section \<open>The two passes\<close>

text \<open>
  The first loop: which output types are still possible, the number of characters and the
  length of the text in UTF-8. The input is shorter than \<open>INT_MAX\<close>, so neither counter wraps.
\<close>

function scan :: "mb_form \<Rightarrow> uint64 \<Rightarrow> nat \<Rightarrow> nat \<Rightarrow> cbs \<Rightarrow> asn1_error + uint64 \<times> nat \<times> nat" where
  "scan inform msk nchar utf8_len cs =
     (if CBS_len cs = 0 then Inr (msk, nchar, utf8_len)
      else (case decode_func inform cs of
        (None, _) \<Rightarrow> Inl (decode_error inform)
      | (Some c, cs') \<Rightarrow>
          if nchar = 0 \<and> (inform = MBSTRING_BMP \<or> inform = MBSTRING_UNIV) \<and> c = 0xfeff then Inl ILLEGAL_CHARACTERS
          else
            let msk = narrow_mask c msk in
            if msk = 0 then Inl ILLEGAL_CHARACTERS
            else scan inform msk (nchar + 1) (utf8_len + cbb_get_utf8_len c) cs'))"
  by pat_completeness auto
termination
  by (relation "measure (\<lambda>(_, _, _, _, cs). length cs)")
    (auto dest!: sym [of "(Some _, _)"] dest: chars.dec_shorter)

function transcode :: "mb_form \<Rightarrow> mb_form \<Rightarrow> cbb \<Rightarrow> cbs \<Rightarrow> bool \<times> cbb" where
  "transcode inform outform cbb cs =
     (if CBS_len cs = 0 then (True, cbb)
      else (case decode_func inform cs of
        (None, _) \<Rightarrow> (False, cbb)
      | (Some c, cs') \<Rightarrow>
          (case encode_func outform cbb 0 c of
            (False, cbb') \<Rightarrow> (False, cbb')
          | (True, cbb') \<Rightarrow> transcode inform outform cbb' cs')))"
  by pat_completeness auto
termination
  by (relation "measure (\<lambda>(_, _, _, cs). length cs)")
    (auto dest!: sym [of "(Some _, _)"] dest: chars.dec_shorter)

declare scan.simps [simp del] transcode.simps [simp del]

text \<open>The output type, the output format and the estimate of the size.\<close>

definition choose_type :: "uint64 \<Rightarrow> nat \<Rightarrow> nat \<Rightarrow> int \<times> mb_form \<times> nat" where
  "choose_type msk nchar utf8_len =
     (if msk AND B_ASN1_PRINTABLESTRING \<noteq> 0 then (V_ASN1_PRINTABLESTRING, MBSTRING_ASC, nchar)
      else if msk AND B_ASN1_IA5STRING \<noteq> 0 then (V_ASN1_IA5STRING, MBSTRING_ASC, nchar)
      else if msk AND B_ASN1_T61STRING \<noteq> 0 then (V_ASN1_T61STRING, MBSTRING_ASC, nchar)
      else if msk AND B_ASN1_BMPSTRING \<noteq> 0 then (V_ASN1_BMPSTRING, MBSTRING_BMP, 2 * nchar)
      else if msk AND B_ASN1_UNIVERSALSTRING \<noteq> 0 then (V_ASN1_UNIVERSALSTRING, MBSTRING_UNIV, 4 * nchar)
      else (V_ASN1_UTF8STRING, MBSTRING_UTF8, utf8_len))"

text \<open>
  The argument \<open>out\<close>: a null pointer, a pointer to a null pointer or a pointer to a string.
  \<open>Out_freed\<close> is the state in which it points to a string that was freed.
\<close>

datatype out_arg = No_out | Out_null | Out asn1_string | Out_freed

definition err :: "bool \<Rightarrow> asn1_string \<Rightarrow> out_arg" where
  "err free_out dest = (if free_out then Out_freed else Out dest)"

text \<open>The last part of \<open>ASN1_mbstring_ncopy\<close>, from the destination on.\<close>

definition mbstring_store ::
  "heap \<Rightarrow> bool \<Rightarrow> asn1_string \<Rightarrow> byte list \<Rightarrow> int \<Rightarrow> mb_form \<Rightarrow> mb_form \<Rightarrow> nat \<Rightarrow> (asn1_error + int) \<times> out_arg" where
  "mbstring_store h free_out dest input len inform outform size_estimate =
     (if inform = outform then
        (case ASN1_STRING_set dest input len h of
          (False, dest', _) \<Rightarrow> (Inl MALLOC_FAILURE, Out dest')
        | (True, dest', _) \<Rightarrow> (Inr (str_type dest), Out dest'))
      else
        (case CBB_init (size_estimate + 1) h of
          (False, _) \<Rightarrow> (Inl MALLOC_FAILURE, err free_out dest)
        | (True, cbb) \<Rightarrow>
            (case transcode inform outform cbb (take (nat len) input) of
              (False, _) \<Rightarrow> (Inl INTERNAL_ERROR, err free_out dest)
            | (True, cbb) \<Rightarrow>
                (case CBB_add_u8 cbb 0 0 of
                  (False, _) \<Rightarrow> (Inl INTERNAL_ERROR, err free_out dest)
                | (True, cbb) \<Rightarrow>
                    (case CBB_finish cbb 0 False of
                      (None, _) \<Rightarrow> (Inl INTERNAL_ERROR, err free_out dest)
                    | (Some data, _) \<Rightarrow>
                        if length data < 1 \<or> int (length data) > INT_MAX then (Inl INTERNAL_ERROR, err free_out dest)
                        else (Inr (str_type dest),
                          Out (dest\<lparr>str_length := int (length data) - 1, str_data := Some data\<rparr>)))))))"

definition ASN1_mbstring_ncopy ::
  "heap \<Rightarrow> out_arg \<Rightarrow> byte list \<Rightarrow> int \<Rightarrow> int \<Rightarrow> uint64 \<Rightarrow> int \<Rightarrow> int \<Rightarrow> (asn1_error + int) \<times> out_arg" where
  "ASN1_mbstring_ncopy h out input len inform msk minsize maxsize =
     (let len = (if len = -1 then int (length (c_string input)) else len);
          msk = (if msk = 0 then DIRSTRING_TYPE else msk) in
      case mbstring_form inform of
        None \<Rightarrow> (Inl UNKNOWN_FORMAT, out)
      | Some inform \<Rightarrow>
          (case scan inform msk 0 0 (take (nat len) input) of
            Inl e \<Rightarrow> (Inl e, out)
          | Inr (msk, nchar, utf8_len) \<Rightarrow>
              if minsize > 0 \<and> int nchar < minsize then (Inl STRING_TOO_SHORT, out)
              else if maxsize > 0 \<and> int nchar > maxsize then (Inl STRING_TOO_LONG, out)
              else
                let (type, outform, size_estimate) = choose_type msk nchar utf8_len in
                (case out of
                  No_out \<Rightarrow> (Inr type, No_out)
                | Out dest \<Rightarrow>
                    let dest = (if str_data dest \<noteq> None then dest\<lparr>str_length := 0, str_data := None\<rparr> else dest) in
                    mbstring_store h False (dest\<lparr>str_type := type\<rparr>) input len inform outform size_estimate
                | _ \<Rightarrow>
                    (case ASN1_STRING_type_new type h of
                      (None, _) \<Rightarrow> (Inl MALLOC_FAILURE, out)
                    | (Some dest, h) \<Rightarrow> mbstring_store h True dest input len inform outform size_estimate))))"

definition ASN1_mbstring_copy ::
  "heap \<Rightarrow> out_arg \<Rightarrow> byte list \<Rightarrow> int \<Rightarrow> int \<Rightarrow> uint64 \<Rightarrow> (asn1_error + int) \<times> out_arg" where
  "ASN1_mbstring_copy h out input len inform msk = ASN1_mbstring_ncopy h out input len inform msk 0 0"

section \<open>The types that remain\<close>

definition type_bits :: "(int \<times> nat) list" where
  "type_bits = [(V_ASN1_PRINTABLESTRING, 1), (V_ASN1_IA5STRING, 4), (V_ASN1_T61STRING, 2), (V_ASN1_BMPSTRING, 11),
     (V_ASN1_UNIVERSALSTRING, 8)]"

text \<open>
  The characters a string type can hold and the format of its contents. A PrintableString holds
  the characters of X.680; the code lets the zero character through as well.
\<close>

definition printable_chars :: string where
  "printable_chars = ''ABCDEFGHIJKLMNOPQRSTUVWXYZabcdefghijklmnopqrstuvwxyz0123456789 '()+,-./:=?''"

definition type_holds :: "int \<Rightarrow> uint32 \<Rightarrow> bool" where
  "type_holds t v \<longleftrightarrow>
     (if t = V_ASN1_PRINTABLESTRING then v = 0 \<or> unat v \<in> of_char ` set printable_chars
      else if t = V_ASN1_IA5STRING then v \<le> 127
      else if t = V_ASN1_T61STRING then v \<le> 0xff
      else if t = V_ASN1_BMPSTRING then v \<le> 0xffff
      else True)"

definition type_form :: "int \<Rightarrow> mb_form" where
  "type_form t =
     (if t = V_ASN1_BMPSTRING then MBSTRING_BMP else if t = V_ASN1_UNIVERSALSTRING then MBSTRING_UNIV
      else if t = V_ASN1_UTF8STRING then MBSTRING_UTF8 else MBSTRING_ASC)"

lemmas type_defs = V_ASN1_PRINTABLESTRING_def V_ASN1_IA5STRING_def V_ASN1_T61STRING_def V_ASN1_BMPSTRING_def
  V_ASN1_UNIVERSALSTRING_def V_ASN1_UTF8STRING_def

text \<open>The characters in the order of their codes, as ranges.\<close>

lemma printable_codes:
  "of_char ` set printable_chars = {32, 39, 40, 41, 43, 44, 45, 46, 47, 58, 61, 63} \<union> {48..57} \<union> {65..90} \<union> {97..122 :: nat}"
proof -
  have "{48..57} = set [48..<58 :: nat]" "{65..90} = set [65..<91 :: nat]" "{97..122} = set [97..<123 :: nat]"
    unfolding set_upt by auto
  then show ?thesis by (simp only: printable_chars_def) (simp add: upt_rec, blast)
qed

lemma printable_iff: "is_printable v \<longleftrightarrow> v = 0 \<or> unat v \<in> of_char ` set printable_chars"
proof -
  have "0x7f < v \<longleftrightarrow> 127 < unat v" "v = 0 \<longleftrightarrow> unat v = 0" by (auto simp: word_less_nat_alt unat_eq_0)
  then show ?thesis unfolding printable_codes is_printable_def strchr_def Let_def
    by (cases "unat v > 127") auto
qed

lemma type_holds_eq:
  "type_holds t v \<longleftrightarrow>
     (if t = V_ASN1_PRINTABLESTRING then is_printable v
      else if t = V_ASN1_IA5STRING then v \<le> 127
      else if t = V_ASN1_T61STRING then v \<le> 0xff
      else if t = V_ASN1_BMPSTRING then v \<le> 0xffff
      else True)"
  by (simp only: type_holds_def printable_iff)

text \<open>
  The first type of a preference list that a mask allows and that holds a text; UTF8String, which
  holds every text, if there is none, whether the mask allows it or not.
\<close>

fun first_type :: "(int \<times> nat) list \<Rightarrow> uint64 \<Rightarrow> uint32 list \<Rightarrow> int" where
  "first_type [] m vs = V_ASN1_UTF8STRING"
| "first_type ((t, k) # ts) m vs = (if bit m k \<and> (\<forall>v \<in> set vs. type_holds t v) then t else first_type ts m vs)"

lemma mask_bits:
  "m AND B_ASN1_PRINTABLESTRING \<noteq> 0 \<longleftrightarrow> bit m 1" "m AND B_ASN1_T61STRING \<noteq> 0 \<longleftrightarrow> bit m 2"
  "m AND B_ASN1_IA5STRING \<noteq> 0 \<longleftrightarrow> bit m 4" "m AND B_ASN1_UNIVERSALSTRING \<noteq> 0 \<longleftrightarrow> bit m 8"
  "m AND B_ASN1_BMPSTRING \<noteq> 0 \<longleftrightarrow> bit m 11"
  using and_exp_eq_0_iff_not_bit [of m 1] and_exp_eq_0_iff_not_bit [of m 2] and_exp_eq_0_iff_not_bit [of m 4]
    and_exp_eq_0_iff_not_bit [of m 8] and_exp_eq_0_iff_not_bit [of m 11]
  by (simp_all add: B_ASN1_PRINTABLESTRING_def B_ASN1_T61STRING_def B_ASN1_IA5STRING_def B_ASN1_UNIVERSALSTRING_def
      B_ASN1_BMPSTRING_def)

lemma bit_clear_if: "bit (clear_if b cond m) j \<longleftrightarrow> bit m j \<and> \<not> (bit b j \<and> cond)"
proof (cases "m AND b = 0")
  case True
  then have "\<not> (bit m j \<and> bit b j)" by (metis bit_0_eq bit_and_iff bot_apply bot_bool_def)
  then show ?thesis by (auto simp: clear_if_def True)
next
  case False
  then show ?thesis by (auto simp: clear_if_def bit_simps dest: bit_imp_le_length)
qed

lemma bit_narrow:
  "bit (narrow_mask c m) k \<longleftrightarrow> bit m k \<and> \<not> (k = 1 \<and> \<not> is_printable c) \<and> \<not> (k = 4 \<and> \<not> c \<le> 127) \<and>
     \<not> (k = 2 \<and> \<not> c \<le> 0xff) \<and> \<not> (k = 11 \<and> \<not> c \<le> 0xffff)"
proof -
  have "bit B_ASN1_PRINTABLESTRING k \<longleftrightarrow> k = 1" "bit B_ASN1_IA5STRING k \<longleftrightarrow> k = 4"
    "bit B_ASN1_T61STRING k \<longleftrightarrow> k = 2" "bit B_ASN1_BMPSTRING k \<longleftrightarrow> k = 11"
    using bit_exp_iff [of 1 k, where ?'a = "64 word"] bit_exp_iff [of 4 k, where ?'a = "64 word"]
      bit_exp_iff [of 2 k, where ?'a = "64 word"] bit_exp_iff [of 11 k, where ?'a = "64 word"]
    by (auto simp: B_ASN1_PRINTABLESTRING_def B_ASN1_T61STRING_def B_ASN1_IA5STRING_def B_ASN1_BMPSTRING_def)
  then show ?thesis by (auto simp: narrow_mask_def Let_def bit_clear_if not_le)
qed

lemma bit_fold_narrow:
  "bit (fold narrow_mask vs m) k \<longleftrightarrow> bit m k \<and> (\<forall>v \<in> set vs. \<not> (k = 1 \<and> \<not> is_printable v) \<and> \<not> (k = 4 \<and> \<not> v \<le> 127) \<and>
     \<not> (k = 2 \<and> \<not> v \<le> 0xff) \<and> \<not> (k = 11 \<and> \<not> v \<le> 0xffff))"
  by (induction vs arbitrary: m) (auto simp: bit_narrow)

lemma choose_first:
  "choose_type (fold narrow_mask vs m) n u =
     (let t = first_type type_bits m vs in
      (t, type_form t, if type_form t = MBSTRING_BMP then 2 * n else if type_form t = MBSTRING_UNIV then 4 * n
         else if type_form t = MBSTRING_UTF8 then u else n))"
  by (auto simp: choose_type_def mask_bits bit_fold_narrow type_bits_def type_holds_eq type_form_def type_defs Let_def)

section \<open>The loops\<close>

lemma scan_Inr:
  "scan f m n u cs = Inr (m', n', u') \<Longrightarrow>
     \<exists>vs. reads_all (decode_func f) cs vs \<and> m' = fold narrow_mask vs m \<and> n' = n + length vs \<and>
       u' = u + sum_list (map cbb_get_utf8_len vs)"
proof (induction f m n u cs rule: scan.induct)
  case (1 f m n u cs)
  show ?case
  proof (cases "cs = []")
    case True
    then have "m' = m \<and> n' = n \<and> u' = u" using "1.prems" by (simp add: CBS_len_def scan.simps)
    then show ?thesis using True by (intro exI [of _ "[]"]) (auto intro: reads_Nil)
  next
    case False
    obtain c cs' where d: "decode_func f cs = (Some c, cs')"
      using "1.prems" False by (simp add: CBS_len_def scan.simps [of f m n u cs] split: prod.splits option.splits)
    with "1.prems" False have no: "\<not> (n = 0 \<and> (f = MBSTRING_BMP \<or> f = MBSTRING_UNIV) \<and> c = 0xfeff)"
      and nz: "narrow_mask c m \<noteq> 0"
      and s: "scan f (narrow_mask c m) (n + 1) (u + cbb_get_utf8_len c) cs' = Inr (m', n', u')"
      by (auto simp: CBS_len_def scan.simps [of f m n u cs] Let_def split: if_splits)
    from "1.IH" [OF _ d [symmetric] refl no refl nz s] False
    obtain vs where "reads_all (decode_func f) cs' vs" "m' = fold narrow_mask vs (narrow_mask c m)"
      "n' = n + 1 + length vs" "u' = u + cbb_get_utf8_len c + sum_list (map cbb_get_utf8_len vs)" by (auto simp: CBS_len_def)
    with d False show ?thesis by (intro exI [of _ "c # vs"]) (auto intro: reads_Cons)
  qed
qed

lemma scan_mask: "scan f m n u cs = Inr (m', n', u') \<Longrightarrow> m \<noteq> 0 \<Longrightarrow> m' \<noteq> 0"
proof (induction f m n u cs rule: scan.induct)
  case (1 f m n u cs)
  show ?case
  proof (cases "cs = []")
    case True
    then show ?thesis using "1.prems" by (simp add: CBS_len_def scan.simps)
  next
    case False
    obtain c cs' where d: "decode_func f cs = (Some c, cs')"
      using "1.prems" False by (simp add: CBS_len_def scan.simps [of f m n u cs] split: prod.splits option.splits)
    with "1.prems" False have no: "\<not> (n = 0 \<and> (f = MBSTRING_BMP \<or> f = MBSTRING_UNIV) \<and> c = 0xfeff)"
      and nz: "narrow_mask c m \<noteq> 0"
      and s: "scan f (narrow_mask c m) (n + 1) (u + cbb_get_utf8_len c) cs' = Inr (m', n', u')"
      by (auto simp: CBS_len_def scan.simps [of f m n u cs] Let_def split: if_splits)
    from "1.IH" [OF _ d [symmetric] refl no refl nz s nz] False show ?thesis by (simp add: CBS_len_def)
  qed
qed

text \<open>UTF8String is returned if only it or types that the code does not know are left.\<close>

lemma left_to_utf8:
  assumes "fold narrow_mask vs m \<noteq> 0" and "first_type type_bits m vs = V_ASN1_UTF8STRING"
  shows "\<exists>k. bit m k \<and> k \<notin> snd ` set type_bits"
proof -
  obtain k where k: "bit (fold narrow_mask vs m) k" using assms(1) by (metis bit_0_eq bit_eqI bot_apply bot_bool_def)
  moreover have "k \<notin> snd ` set type_bits"
    using assms(2) k by (auto simp: bit_fold_narrow type_bits_def type_holds_eq type_defs split: if_splits)
  ultimately show ?thesis by (auto simp: bit_fold_narrow)
qed

lemma transcode_writes:
  assumes "reads_all (decode_func f) cs vs" and "represents c [(k, seg)]" and "transcode f g c cs = (True, c')"
  shows "represents c' [(k, seg @ concat (map (char_bytes g) vs))] \<and> (\<forall>v \<in> set vs. char_ok g v)"
  using assms
proof (induction arbitrary: c seg)
  case reads_Nil
  then show ?case by (simp add: CBS_len_def transcode.simps)
next
  case (reads_Cons cs v rest vs)
  obtain c1 where c1: "encode_func g c 0 v = (True, c1)" "transcode f g c1 rest = (True, c')"
    using reads_Cons.prems(2) reads_Cons.hyps by (simp add: CBS_len_def transcode.simps [of f g c cs] split: prod.splits bool.splits)
  from chars.add_writes [OF reads_Cons.prems(1) _ c1(1)] have
    v: "char_ok g v" and "represents c1 [(k, seg @ char_bytes g v)]" by (simp_all add: awrite_def aflush_def)
  from reads_Cons.IH [OF this(2) c1(2)] v show ?case by simp
qed


lemma scan_accepts:
  assumes "reads_all (decode_func f) cs vs" and "n > 0 \<or> f \<noteq> MBSTRING_BMP \<and> f \<noteq> MBSTRING_UNIV \<or> vs = [] \<or> hd vs \<noteq> 0xfeff"
    and "bit m k" and "\<forall>v \<in> set vs. bit (narrow_mask v (NOT 0)) k"
  shows "scan f m n u cs = Inr (fold narrow_mask vs m, n + length vs, u + sum_list (map cbb_get_utf8_len vs))"
  using assms
proof (induction arbitrary: m n u)
  case reads_Nil
  then show ?case by (simp add: CBS_len_def scan.simps)
next
  case (reads_Cons cs v rest vs)
  have k: "bit (narrow_mask v m) k" using reads_Cons.prems(2,3) by (simp add: bit_narrow)
  then have "narrow_mask v m \<noteq> 0" by auto
  moreover have "\<not> (n = 0 \<and> (f = MBSTRING_BMP \<or> f = MBSTRING_UNIV) \<and> v = 0xfeff)" using reads_Cons.prems(1) by auto
  ultimately have "scan f m n u cs = scan f (narrow_mask v m) (n + 1) (u + cbb_get_utf8_len v) rest"
    using reads_Cons.hyps by (simp only: scan.simps [of f m n u cs] CBS_len_def Let_def length_0_conv if_False
        option.case prod.case)
  with reads_Cons.IH [of "n + 1" "narrow_mask v m" "u + cbb_get_utf8_len v"] k reads_Cons.prems(3)
  show ?case by simp
qed

lemma transcode_delivers:
  assumes "reads_all (decode_func f) cs vs" and "\<forall>v \<in> set vs. char_ok g v"
    and "length seg + length (concat (map (char_bytes g) vs)) \<le> N"
  shows "delivers N (\<lambda>c. transcode f g c cs) [(Plain 0, seg)] [(Plain 0, seg @ concat (map (char_bytes g) vs))]"
  using assms
proof (induction arbitrary: seg)
  case reads_Nil
  then show ?case by (simp add: CBS_len_def transcode.simps delivers_id)
next
  case (reads_Cons cs v rest vs)
  have "delivers N (\<lambda>c. encode_func g c 0 v) [(Plain 0, seg)] (awrite 0 (char_bytes g v) [(Plain 0, seg)])"
    by (rule chars.add_delivers) (use reads_Cons.prems in \<open>simp_all add: awrite_def aflush_def\<close>)
  then have 1: "delivers N (\<lambda>c. encode_func g c 0 v) [(Plain 0, seg)] [(Plain 0, seg @ char_bytes g v)]"
    by (simp add: awrite_def aflush_def)
  have 2: "delivers N (\<lambda>c. transcode f g c rest) [(Plain 0, seg @ char_bytes g v)]
      [(Plain 0, (seg @ char_bytes g v) @ concat (map (char_bytes g) vs))]"
    by (rule reads_Cons.IH) (use reads_Cons.prems in simp_all)
  have "transcode f g c cs = ok_then (encode_func g c 0 v) (\<lambda>c. transcode f g c rest)" for c
    using reads_Cons.hyps by (simp add: CBS_len_def transcode.simps [of f g c cs] ok_then_def split: prod.splits bool.splits)
  with delivers_then [OF 1 2] show ?case by simp
qed

section \<open>Conversion\<close>

definition text_of :: "byte list \<Rightarrow> int \<Rightarrow> byte list" where
  "text_of input len = (if len = -1 then c_string input else take (nat len) input)"

text \<open>Output types hold the characters they were chosen for.\<close>

lemma printable_le: "is_printable v \<Longrightarrow> v \<le> 0x7f"
  by (auto simp: is_printable_def not_less split: if_splits)

lemma first_type_cases:
  "first_type type_bits m vs = t \<Longrightarrow> t \<in> {19, 22, 20, 30, 28, 12} \<and> (\<forall>v \<in> set vs. type_holds t v)"
  by (auto simp: type_bits_def type_defs type_holds_eq split: if_splits)

lemma char_valid: "char_ok f v \<Longrightarrow> is_valid_code_point v"
proof (cases f)
  case MBSTRING_ASC
  assume "char_ok f v"
  then have "v \<le> 0xff" using MBSTRING_ASC by simp
  then have v: "unat v \<le> 255" by (simp add: word_le_nat_alt)
  have "v AND 0xfffe \<noteq> 0xfffe"
  proof
    assume "v AND 0xfffe = 0xfffe"
    then have "unat (v AND 0xfffe) = 0xfffe" by simp
    then show False using word_and_le2 [of v "0xfffe"] v by (simp add: word_le_nat_alt)
  qed
  then show ?thesis using v by (simp add: is_valid_code_point_def word_le_nat_alt word_less_nat_alt)
qed (auto simp: ucs2_ok_def)

lemma type_form_ok:
  assumes "type_holds t v" and "is_valid_code_point v" and "t \<in> {19, 22, 20, 30, 28, 12}"
  shows "char_ok (type_form t) v"
  using assms printable_le [of v]
  by (auto simp: type_holds_eq type_form_def type_defs ucs2_ok_def intro: order_trans split: if_splits)


lemma frame_ops: "awrite 0 bs [(k, seg)] = [(k, seg @ bs)]" "render [(Plain 0, seg)] = seg" "raw [(Plain 0, seg)] = seg"
  by (simp_all add: awrite_def aflush_def)

lemma store_Inr:
  assumes "mbstring_store h fo dest input len f g est = (Inr t, out)" and "est + 1 < size_mod" and "0 \<le> len"
    and "reads_all (decode_func f) (take (nat len) input) vs" and "str_data dest = None"
  shows "t = str_type dest \<and> (\<exists>s. out = Out s \<and> str_type s = t \<and>
    str_data s = Some (concat (map (char_bytes g) vs) @ [0]) \<and> str_length s = int (length (concat (map (char_bytes g) vs))))"
proof (cases "f = g")
  case True
  have "take (nat len) input = concat (map (char_bytes f) vs)" using assms(4) by (simp add: chars.reads_all_iff)
  then show ?thesis using assms(1,3,5) True
    by (auto simp: mbstring_store_def ASN1_STRING_set_def Let_def store_at_def split: prod.splits bool.splits if_splits)
next
  case False
  obtain c where c: "CBB_init (est + 1) h = (True, c)"
    using assms(1) False by (auto simp: mbstring_store_def split: prod.splits bool.splits)
  obtain c1 where c1: "transcode f g c (take (nat len) input) = (True, c1)"
    using assms(1) False c by (auto simp: mbstring_store_def split: prod.splits bool.splits)
  obtain c2 where c2: "CBB_add_u8 c1 0 0 = (True, c2)"
    using assms(1) False c c1 by (auto simp: mbstring_store_def split: prod.splits bool.splits)
  obtain data c3 where c3: "CBB_finish c2 0 False = (Some data, c3)"
    using assms(1) False c c1 c2 by (auto simp: mbstring_store_def split: prod.splits option.splits)
  have "represents c [(Plain 0, [])]" using CBB_init_represents [OF c assms(2)] .
  from transcode_writes [OF assms(4) this c1] have
    r: "represents c1 [(Plain 0, concat (map (char_bytes g) vs))]" by simp
  from CBB_add_bytes_represents(1) [OF r, of 0 "[0]" c2] c2 have
    "represents c2 [(Plain 0, concat (map (char_bytes g) vs) @ [0])]" by (simp add: CBB_add_u8_eq frame_ops size_mod_def)
  from CBB_finish_render [OF this c3] have "data = concat (map (char_bytes g) vs) @ [0]" by (simp add: frame_ops)
  then show ?thesis using assms(1) False c c1 c2 c3
    by (auto simp: mbstring_store_def split: if_splits)
qed

lemma store_total:
  assumes "reads_all (decode_func f) (take (nat len) input) vs" and "str_data dest = None" and "0 \<le> len"
    and "\<forall>v \<in> set vs. char_ok g v" and "int (length (concat (map (char_bytes g) vs))) < INT_MAX"
    and "est + 1 < size_mod"
  shows "\<exists>s. mbstring_store [] fo dest input len f g est = (Inr (str_type dest), Out s)"
proof (cases "f = g")
  case True
  then show ?thesis using assms(2,3)
    by (simp add: mbstring_store_def ASN1_STRING_set_def Let_def)
next
  case False
  let ?body = "concat (map (char_bytes g) vs)" and ?N = "2 ^ 31 :: nat"
  have N: "length (?body @ [0]) \<le> ?N" using assms(5) by (simp add: INT_MAX_def)
  have Nsz: "?N < size_mod" by (simp add: size_mod_def)
  obtain c where c: "CBB_init (est + 1) [] = (True, c)" by (simp add: CBB_init_def cbb_init_def)
  have r: "represents c [(Plain 0, [])]" by (rule CBB_init_represents [OF c assms(6)])
  have cap: "capacity c ?N" using fresh_capacity(1) [OF Nsz, of "est + 1"] c by simp
  have "delivers ?N (\<lambda>c. transcode f g c (take (nat len) input)) [(Plain 0, [])] [(Plain 0, [] @ ?body)]"
    by (rule transcode_delivers [OF assms(1,4)]) (use N in simp)
  from deliversE [OF this r cap] obtain c1 where c1: "transcode f g c (take (nat len) input) = (True, c1)"
    "represents c1 [(Plain 0, ?body)]" "capacity c1 ?N" by auto
  have "delivers ?N (\<lambda>c. CBB_add_bytes c 0 [0]) [(Plain 0, ?body)] (awrite 0 [0] [(Plain 0, ?body)])"
    by (rule delivers_bytes) (use N in \<open>simp_all add: frame_ops\<close>)
  from deliversE [OF this c1(2,3)] obtain c2 where c2: "CBB_add_u8 c1 0 0 = (True, c2)"
    "represents c2 [(Plain 0, ?body @ [0])]" "capacity c2 ?N" by (auto simp: CBB_add_u8_eq frame_ops)
  from CBB_finish_total [OF c2(2,3)] N obtain c3 where
    c3: "CBB_finish c2 0 False = (Some (?body @ [0]), c3)" by (auto simp: frame_ops)
  have "int (length (?body @ [0])) \<le> INT_MAX" using assms(5) by simp
  then show ?thesis using False c c1(1) c2(1) c3 by (auto simp: mbstring_store_def)
qed

text \<open>The length of the text in the output format is what the estimate says, and bounded.\<close>

lemma char_bytes_le: "length (char_bytes f v) \<le> 4"
  by (cases f) (auto simp: utf8_def simp del: be_bytes.simps be_bytes_numeral)

lemma char_bytes_pos: "1 \<le> length (char_bytes f v)"
  by (cases f) (auto simp: utf8_def simp del: be_bytes.simps be_bytes_numeral)

lemma text_length: "length vs \<le> length (concat (map (char_bytes f) vs)) \<and>
    length (concat (map (char_bytes f) vs)) \<le> 4 * length vs"
proof (induction vs)
  case (Cons v vs)
  then show ?case using char_bytes_le [of f v] char_bytes_pos [of f v] by simp
qed simp

lemma utf8_sum: "sum_list (map cbb_get_utf8_len vs) \<le> 4 * length vs"
  by (induction vs) (auto simp: cbb_get_utf8_len_def)

text \<open>The arguments that the C prototype admits.\<close>

definition mb_args :: "byte list \<Rightarrow> int \<Rightarrow> bool" where
  "mb_args input len \<longleftrightarrow>
     (len = -1 \<and> 0 \<in> set input \<and> int (length (c_string input)) \<le> INT_MAX \<or>
      0 \<le> len \<and> len \<le> INT_MAX \<and> len \<le> int (length input))"

definition effective_len :: "byte list \<Rightarrow> int \<Rightarrow> int" where
  "effective_len input len = (if len = -1 then int (length (c_string input)) else len)"

lemma mb_text:
  assumes "mb_args input len"
  shows "take (nat (effective_len input len)) input = text_of input len" "0 \<le> effective_len input len"
    "int (length (text_of input len)) \<le> INT_MAX"
proof -
  have "take (length (c_string input)) input = c_string input"
    unfolding c_string_def by (metis takeWhile_eq_take)
  then show "take (nat (effective_len input len)) input = text_of input len" by (simp add: effective_len_def text_of_def)
  show "0 \<le> effective_len input len" "int (length (text_of input len)) \<le> INT_MAX"
    using assms by (auto simp: mb_args_def effective_len_def text_of_def)
qed


definition default_mask :: "uint64 \<Rightarrow> uint64" where
  "default_mask m = (if m = 0 then DIRSTRING_TYPE else m)"

lemma ncopy_stages:
  assumes "mb_args input len" and "mbstring_form inform = Some f"
  shows "ASN1_mbstring_ncopy h out input len inform m minsize maxsize =
    (case scan f (default_mask m) 0 0 (text_of input len) of
            Inl e \<Rightarrow> (Inl e, out)
          | Inr (m, nchar, utf8_len) \<Rightarrow>
              if minsize > 0 \<and> int nchar < minsize then (Inl STRING_TOO_SHORT, out)
              else if maxsize > 0 \<and> int nchar > maxsize then (Inl STRING_TOO_LONG, out)
              else
                let (type, outform, size_estimate) = choose_type m nchar utf8_len in
                (case out of
                  No_out \<Rightarrow> (Inr type, No_out)
                | Out dest \<Rightarrow>
                    let dest = (if str_data dest \<noteq> None then dest\<lparr>str_length := 0, str_data := None\<rparr> else dest) in
                    mbstring_store h False (dest\<lparr>str_type := type\<rparr>) input (effective_len input len) f outform size_estimate
                | _ \<Rightarrow>
                    (case ASN1_STRING_type_new type h of
                      (None, _) \<Rightarrow> (Inl MALLOC_FAILURE, out)
                    | (Some dest, h) \<Rightarrow> mbstring_store h True dest input (effective_len input len) f outform size_estimate)))"
  using assms mb_text(1) [OF assms(1)]
  by (simp add: ASN1_mbstring_ncopy_def default_mask_def effective_len_def [symmetric] Let_def del: mbstring_form.simps
      cong: if_cong)

lemma ncopy_sound:
  assumes "ASN1_mbstring_ncopy h out input len inform m minsize maxsize = (Inr t, Out s)"
    and "mb_args input len"
  shows "\<exists>f vs. mbstring_form inform = Some f \<and> text_of input len = concat (map (char_bytes f) vs) \<and>
    (\<forall>v \<in> set vs. char_ok f v) \<and> t = first_type type_bits (default_mask m) vs \<and> str_type s = t \<and>
    (\<forall>v \<in> set vs. type_holds t v) \<and>
    str_data s = Some (concat (map (char_bytes (type_form t)) vs) @ [0]) \<and>
    str_length s = int (length (concat (map (char_bytes (type_form t)) vs))) \<and>
    (minsize > 0 \<longrightarrow> minsize \<le> int (length vs)) \<and> (maxsize > 0 \<longrightarrow> int (length vs) \<le> maxsize) \<and>
    (t = V_ASN1_UTF8STRING \<longrightarrow> (\<exists>k. bit (default_mask m) k \<and> k \<notin> snd ` set type_bits))"
proof -
  obtain f where f: "mbstring_form inform = Some f"
    using assms(1) by (auto simp: ASN1_mbstring_ncopy_def Let_def split: option.splits)
  note stages = ncopy_stages [OF assms(2) f, of h out m minsize maxsize, unfolded assms(1)]
  obtain m' n u where sc: "scan f (default_mask m) 0 0 (text_of input len) = Inr (m', n, u)"
    using stages by (auto split: sum.splits)
  from scan_Inr [OF sc] obtain vs where vs: "reads_all (decode_func f) (text_of input len) vs"
    "m' = fold narrow_mask vs (default_mask m)" "n = length vs" "u = sum_list (map cbb_get_utf8_len vs)" by auto
  have tx: "text_of input len = concat (map (char_bytes f) vs)" "\<forall>v \<in> set vs. char_ok f v"
    using vs(1) by (simp_all add: chars.reads_all_iff)
  let ?t = "first_type type_bits (default_mask m) vs"
  obtain est where ch: "choose_type m' n u = (?t, type_form ?t, est)" and "est \<le> 4 * n \<or> est \<le> u"
    unfolding vs(2) choose_first Let_def by auto
  moreover have "length vs \<le> nat INT_MAX"
    using text_length [of vs f] mb_text(3) [OF assms(2)] unfolding tx(1) by linarith
  ultimately have est: "est + 1 < size_mod" using utf8_sum [of vs] unfolding vs(3,4)
    by (auto simp: INT_MAX_def size_mod_def)
  have bounds: "minsize > 0 \<longrightarrow> minsize \<le> int (length vs)" "maxsize > 0 \<longrightarrow> int (length vs) \<le> maxsize"
    using stages by (auto simp: sc vs(3) split: if_splits)
  have "\<exists>h' fo dest. mbstring_store h' fo dest input (effective_len input len) f (type_form ?t) est = (Inr t, Out s) \<and>
      str_type dest = ?t \<and> str_data dest = None"
    using stages [symmetric] 
    by (cases out; simp add: sc ch ASN1_STRING_type_new_def Let_def split: if_splits prod.splits) force+
  then obtain h' fo dest where st: "mbstring_store h' fo dest input (effective_len input len) f (type_form ?t) est = (Inr t, Out s)"
    "str_type dest = ?t" "str_data dest = None" by blast
  note 1 = store_Inr [OF st(1) est mb_text(2) [OF assms(2)] _ st(3), unfolded mb_text(1) [OF assms(2)], OF vs(1)]
  then have t: "t = ?t" using st(2) by simp
  have "default_mask m \<noteq> 0"
    by (simp add: default_mask_def DIRSTRING_TYPE_def B_ASN1_PRINTABLESTRING_def B_ASN1_T61STRING_def B_ASN1_BMPSTRING_def B_ASN1_UTF8STRING_def)
  then have utf8: "?t = V_ASN1_UTF8STRING \<Longrightarrow> \<exists>k. bit (default_mask m) k \<and> k \<notin> snd ` set type_bits"
    using left_to_utf8 scan_mask [OF sc] vs(2) by blast
  show ?thesis
    using 1 st(2) f tx bounds utf8 first_type_cases [OF refl, of "default_mask m" vs]
    by (intro exI [of _ f] exI [of _ vs]) (simp only: t out_arg.inject, auto)
qed


text \<open>The converse: a text that its format allows and some allowed type holds is converted.\<close>

lemma ncopy_complete:
  assumes "mb_args input len" and "mbstring_form inform = Some f"
    and tx: "text_of input len = concat (map (char_bytes f) vs)" and ok: "\<forall>v \<in> set vs. char_ok f v"
    and bom: "f = MBSTRING_BMP \<or> f = MBSTRING_UNIV \<Longrightarrow> vs \<noteq> [] \<Longrightarrow> hd vs \<noteq> 0xfeff"
    and t: "t = first_type type_bits (default_mask m) vs" and m: "t = V_ASN1_UTF8STRING \<Longrightarrow> bit (default_mask m) 13"
    and "minsize > 0 \<Longrightarrow> minsize \<le> int (length vs)" and "maxsize > 0 \<Longrightarrow> int (length vs) \<le> maxsize"
    and "int (length (concat (map (char_bytes (type_form t)) vs))) < INT_MAX"
  shows "\<exists>s. ASN1_mbstring_ncopy [] Out_null input len inform m minsize maxsize = (Inr t, Out s)"
proof -
  let ?m = "default_mask m"
  have r: "reads_all (decode_func f) (text_of input len) vs" using tx ok by (simp add: chars.reads_all_iff)
  have "\<exists>k. bit ?m k \<and> (\<forall>v \<in> set vs. bit (narrow_mask v (NOT 0)) k)"
  proof (cases "t = V_ASN1_UTF8STRING")
    case True
    then show ?thesis using m by (intro exI [of _ 13]) (auto simp: bit_narrow bit_not_iff)
  next
    case False
    then show ?thesis unfolding t
      by (auto simp: type_bits_def type_holds_eq type_defs bit_narrow bit_not_iff split: if_splits)
  qed
  then obtain k where k: "bit ?m k" "\<forall>v \<in> set vs. bit (narrow_mask v (NOT 0)) k" by blast
  from scan_accepts [OF r _ k, of 0 0] bom have
    sc: "scan f ?m 0 0 (text_of input len) = Inr (fold narrow_mask vs ?m, length vs, sum_list (map cbb_get_utf8_len vs))" by auto
  obtain est where ch: "choose_type (fold narrow_mask vs ?m) (length vs) (sum_list (map cbb_get_utf8_len vs)) = (t, type_form t, est)"
    and "est \<le> 4 * length vs \<or> est \<le> sum_list (map cbb_get_utf8_len vs)"
    unfolding choose_first Let_def t by auto
  moreover have "length vs \<le> nat INT_MAX"
    using text_length [of vs f] mb_text(3) [OF assms(1)] unfolding tx by linarith
  ultimately have est: "est + 1 < size_mod" using utf8_sum [of vs] by (auto simp: INT_MAX_def size_mod_def)
  have good: "\<forall>v \<in> set vs. char_ok (type_form t) v"
    using first_type_cases [OF t [symmetric]] ok char_valid type_form_ok by blast
  let ?dest = "\<lparr>str_length = 0, str_type = t, str_data = None, str_flags = 0\<rparr>"
  have "\<exists>s. mbstring_store [] True ?dest input (effective_len input len) f (type_form t) est = (Inr (str_type ?dest), Out s)"
    by (rule store_total) (use r est good assms(10) mb_text [OF assms(1)] in simp_all)
  then show ?thesis
    using assms(8,9) by (auto simp: ncopy_stages [OF assms(1,2)] sc ch ASN1_STRING_type_new_def)
qed

text \<open>
  C10: what a successful conversion returns. The input is a text in its format, and the string
  holds the same characters: its contents are the characters in the format of its type and a
  terminating zero byte, and the number of characters is within the given bounds. The type is the
  first of PrintableString, IA5String, T61String, BMPString, UniversalString that the mask allows
  and that holds every character. Where none of these qualifies it is UTF8String, and then the
  mask allows UTF8String or a type that the code does not know. A PrintableString may contain the
  zero character besides the characters of X.680.
\<close>

theorem mbstring_converts_only:
  assumes "ASN1_mbstring_ncopy h out input len inform m minsize maxsize = (Inr t, Out s)"
    and "mb_args input len"
  shows "\<exists>f vs. mbstring_form inform = Some f \<and> text_of input len = concat (map (char_bytes f) vs) \<and>
    (\<forall>v \<in> set vs. char_ok f v) \<and> t = first_type type_bits (default_mask m) vs \<and> str_type s = t \<and>
    (\<forall>v \<in> set vs. type_holds t v) \<and>
    str_data s = Some (concat (map (char_bytes (type_form t)) vs) @ [0]) \<and>
    str_length s = int (length (concat (map (char_bytes (type_form t)) vs))) \<and>
    (minsize > 0 \<longrightarrow> minsize \<le> int (length vs)) \<and> (maxsize > 0 \<longrightarrow> int (length vs) \<le> maxsize) \<and>
    (t = V_ASN1_UTF8STRING \<longrightarrow> (\<exists>k. bit (default_mask m) k \<and> k \<notin> {1, 4, 2, 11, 8}))"
  using ncopy_sound [OF assms] by (simp add: type_bits_def insert_commute)

fun form_code :: "mb_form \<Rightarrow> int" where
  "form_code MBSTRING_UTF8 = 0x1000"
| "form_code MBSTRING_ASC = 0x1001"
| "form_code MBSTRING_BMP = 0x1002"
| "form_code MBSTRING_UNIV = 0x1004"

lemma form_code [simp]: "mbstring_form (form_code f) = Some f"
  by (cases f) simp_all

lemma form_code_eq [simp]: "form_code f = form_code g \<longleftrightarrow> f = g"
  by (cases f; cases g) simp_all

lemma form_of_code: "mbstring_form n = Some f \<longleftrightarrow> n = form_code f"
  by (cases f) (auto split: if_splits)

declare mbstring_form.simps [simp del]

text \<open>
  C9: round trip through a string type. A text in UTF-8 is converted to the first type of the
  mask that can hold it; converted back from the format of that type, it is the same text. The
  text does not start with a byte-order mark, which the two-byte and four-byte formats refuse,
  and its conversion fits an \<open>int\<close>.
\<close>

theorem mbstring_round_trip:
  assumes ok: "\<forall>v \<in> set vs. is_valid_code_point v" and bom: "vs \<noteq> [] \<Longrightarrow> hd vs \<noteq> 0xfeff"
    and t: "t = first_type type_bits (default_mask m) vs" and m: "t = V_ASN1_UTF8STRING \<Longrightarrow> bit (default_mask m) 13"
    and len: "4 * int (length vs) < INT_MAX" and u: "u = concat (map (\<lambda>v. utf8 (unat v)) vs)"
  shows "\<exists>s s'. ASN1_mbstring_ncopy [] Out_null u (int (length u)) (form_code MBSTRING_UTF8) m 0 0 = (Inr t, Out s) \<and>
    ASN1_mbstring_ncopy [] Out_null (the (str_data s)) (str_length s) (form_code (type_form t)) B_ASN1_UTF8STRING 0 0 =
      (Inr V_ASN1_UTF8STRING, Out s') \<and>
    str_data s' = Some (u @ [0]) \<and> str_length s' = int (length u)"
proof -
  have u8: "char_bytes MBSTRING_UTF8 = (\<lambda>v. utf8 (unat v))" by auto
  have lim: "int (length (concat (map (char_bytes f) vs))) < INT_MAX" for f
    using text_length [of vs f] len by linarith
  have args: "mb_args (concat (map (char_bytes f) vs) @ r) (int (length (concat (map (char_bytes f) vs))))" for f r
    using lim [of f] by (simp add: mb_args_def)
  have tof: "text_of (concat (map (char_bytes f) vs) @ r) (int (length (concat (map (char_bytes f) vs)))) =
      concat (map (char_bytes f) vs)" for f r
    by (simp add: text_of_def)
  have u: "u = concat (map (char_bytes MBSTRING_UTF8) vs)" unfolding u8 u ..
  note args1 = args [of MBSTRING_UTF8 "[]", simplified append_Nil2, folded u]
  note text1 = tof [of MBSTRING_UTF8 "[]", simplified append_Nil2, folded u]
  have good: "\<forall>v \<in> set vs. char_ok (type_form t) v"
    using first_type_cases [OF t [symmetric]] ok type_form_ok by blast
  have "\<exists>s. ASN1_mbstring_ncopy [] Out_null u (int (length u)) (form_code MBSTRING_UTF8) m 0 0 = (Inr t, Out s)"
    by (rule ncopy_complete [OF args1 form_code _ _ _ t m]) (use text1 ok lim in \<open>simp_all add: u\<close>)
  then obtain s where s: "ASN1_mbstring_ncopy [] Out_null u (int (length u)) (form_code MBSTRING_UTF8) m 0 0 = (Inr t, Out s)" ..
  from ncopy_sound [OF s args1] obtain vs' where
    vs': "text_of u (int (length u)) = concat (map (char_bytes MBSTRING_UTF8) vs')" "\<forall>v \<in> set vs'. char_ok MBSTRING_UTF8 v"
      "str_data s = Some (concat (map (char_bytes (type_form t)) vs') @ [0])"
      "str_length s = int (length (concat (map (char_bytes (type_form t)) vs')))" by (auto simp: form_of_code simp del: form_code.simps)
  have "vs' = vs" using vs'(1,2) ok text1 unfolding u
    by (intro chars.sequence_unique [of MBSTRING_UTF8]) auto
  note s_data = vs'(3,4)[unfolded this]
  have ft: "first_type type_bits (default_mask B_ASN1_UTF8STRING) vs = V_ASN1_UTF8STRING"
  proof -
    have "\<not> bit (0x2000 :: uint64) k" if "k \<noteq> 13" for k
      using bit_exp_iff [of 13 k, where ?'a = "64 word"] that by simp
    then show ?thesis by (simp add: default_mask_def B_ASN1_UTF8STRING_def type_bits_def)
  qed
  have m13: "bit (default_mask B_ASN1_UTF8STRING) 13"
    using bit_exp_iff [of 13 13, where ?'a = "64 word"] by (simp add: default_mask_def B_ASN1_UTF8STRING_def)
  let ?d = "concat (map (char_bytes (type_form t)) vs)"
  have "\<exists>s'. ASN1_mbstring_ncopy [] Out_null (?d @ [0]) (int (length ?d)) (form_code (type_form t)) B_ASN1_UTF8STRING 0 0 =
      (Inr V_ASN1_UTF8STRING, Out s')"
    by (rule ncopy_complete [OF args form_code tof good _ ft [symmetric]]) (use bom lim m13 in auto)
  then obtain s' where s': "ASN1_mbstring_ncopy [] Out_null (?d @ [0]) (int (length ?d)) (form_code (type_form t)) B_ASN1_UTF8STRING 0 0 =
      (Inr V_ASN1_UTF8STRING, Out s')" ..
  from ncopy_sound [OF s' args] obtain ws where
    ws: "?d = concat (map (char_bytes (type_form t)) ws)" "\<forall>v \<in> set ws. char_ok (type_form t) v"
      "str_data s' = Some (concat (map (char_bytes (type_form V_ASN1_UTF8STRING)) ws) @ [0])"
      "str_length s' = int (length (concat (map (char_bytes (type_form V_ASN1_UTF8STRING)) ws)))"
    by (auto simp: form_of_code tof simp del: form_code.simps)
  have "ws = vs" using ws(1,2) good by (intro chars.sequence_unique [of "type_form t"]) auto
  moreover have "type_form V_ASN1_UTF8STRING = MBSTRING_UTF8" by (simp add: type_form_def type_defs)
  ultimately show ?thesis using s s' ws(3,4) s_data u by (intro exI [of _ s] exI [of _ s']) simp
qed


theorem mbstring_round_trip_witness:
  "\<exists>s s'. ASN1_mbstring_ncopy [] Out_null [0x41, 0xc3, 0xa9] 3 0x1000 B_ASN1_BMPSTRING 0 0 = (Inr V_ASN1_BMPSTRING, Out s) \<and>
    ASN1_mbstring_ncopy [] Out_null (the (str_data s)) (str_length s) 0x1002 B_ASN1_UTF8STRING 0 0 =
      (Inr V_ASN1_UTF8STRING, Out s') \<and>
    str_data s' = Some [0x41, 0xc3, 0xa9, 0] \<and> str_length s' = 3"
proof -
  have v: "is_valid_code_point 0x41" "is_valid_code_point 0xe9"
    by (simp_all add: is_valid_code_point_def)
  have b: "bit (0x800 :: uint64) k \<longleftrightarrow> k = 11" for k
    using bit_exp_iff [of 11 k, where ?'a = "64 word"] by auto
  have t: "V_ASN1_BMPSTRING = first_type type_bits (default_mask B_ASN1_BMPSTRING) [0x41, 0xe9]"
    by (simp add: default_mask_def B_ASN1_BMPSTRING_def type_bits_def b type_holds_eq type_defs)
  show ?thesis
    using mbstring_round_trip [of "[0x41, 0xe9]" V_ASN1_BMPSTRING B_ASN1_BMPSTRING, OF _ _ t _ _ refl] v
    by (simp add: type_defs INT_MAX_def type_form_def utf8_def)
qed

theorem mbstring_converts_only_witness:
  "\<exists>s f vs. ASN1_mbstring_ncopy [] Out_null [0x41, 0x2a] 2 0x1001 (B_ASN1_PRINTABLESTRING OR B_ASN1_IA5STRING) 0 0 =
      (Inr V_ASN1_IA5STRING, Out s) \<and> mbstring_form 0x1001 = Some f \<and> [0x41, 0x2a] = concat (map (char_bytes f) vs) \<and>
    V_ASN1_IA5STRING = first_type type_bits (B_ASN1_PRINTABLESTRING OR B_ASN1_IA5STRING) vs \<and>
    str_data s = Some (concat (map (char_bytes MBSTRING_ASC) vs) @ [0])"
proof -
  have sc: "ASN1_mbstring_ncopy [] Out_null [0x41, 0x2a] 2 0x1001 (B_ASN1_PRINTABLESTRING OR B_ASN1_IA5STRING) 0 0 =
      (Inr V_ASN1_IA5STRING, Out \<lparr>str_length = 2, str_type = V_ASN1_IA5STRING, str_data = Some [0x41, 0x2a, 0], str_flags = 0\<rparr>)"
    by (simp add: ASN1_mbstring_ncopy_def mbstring_form.simps scan.simps CBS_len_def cbs_get_latin1_def narrow_mask_def clear_if_def
        is_printable_def strchr_def B_ASN1_PRINTABLESTRING_def B_ASN1_IA5STRING_def B_ASN1_T61STRING_def B_ASN1_BMPSTRING_def
        choose_type_def ASN1_STRING_type_new_def mbstring_store_def ASN1_STRING_set_def type_defs store_at_def)
  have "mb_args [0x41, 0x2a] 2" by (simp add: mb_args_def INT_MAX_def)
  from mbstring_converts_only [OF sc this] obtain f vs where v: "mbstring_form 0x1001 = Some f"
    "text_of [0x41, 0x2a] 2 = concat (map (char_bytes f) vs)"
    "V_ASN1_IA5STRING = first_type type_bits (default_mask (B_ASN1_PRINTABLESTRING OR B_ASN1_IA5STRING)) vs"
    "Some [0x41, 0x2a, 0] = Some (concat (map (char_bytes (type_form V_ASN1_IA5STRING)) vs) @ [0])"
    unfolding asn1_string.simps by blast
  have "text_of [0x41, 0x2a] 2 = [0x41, 0x2a]" "type_form V_ASN1_IA5STRING = MBSTRING_ASC"
    by (simp_all add: text_of_def type_form_def type_defs)
  note v = v [unfolded this]
  have "default_mask (B_ASN1_PRINTABLESTRING OR B_ASN1_IA5STRING) = B_ASN1_PRINTABLESTRING OR B_ASN1_IA5STRING"
    by (simp add: default_mask_def B_ASN1_PRINTABLESTRING_def B_ASN1_IA5STRING_def)
  with v(3) have "V_ASN1_IA5STRING = first_type type_bits (B_ASN1_PRINTABLESTRING OR B_ASN1_IA5STRING) vs" by simp
  with v(1,2,4) sc show ?thesis
    by (intro exI [of _ "\<lparr>str_length = 2, str_type = V_ASN1_IA5STRING, str_data = Some [0x41, 0x2a, 0], str_flags = 0\<rparr>"] exI [of _ f] exI [of _ vs])
      (simp only: asn1_string.simps simp_thms)
qed

text \<open>
  The function \<open>is_printable\<close> looks the character up with \<open>strchr\<close>, which also finds the zero byte that
  ends its string, so the zero character counts as printable and a text that contains it becomes
  a PrintableString.
\<close>

theorem nul_becomes_printable:
  "ASN1_mbstring_ncopy [] Out_null [0x41, 0] 2 0x1001 (B_ASN1_PRINTABLESTRING OR B_ASN1_UTF8STRING) 0 0 =
     (Inr V_ASN1_PRINTABLESTRING,
      Out \<lparr>str_length = 2, str_type = V_ASN1_PRINTABLESTRING, str_data = Some [0x41, 0, 0], str_flags = 0\<rparr>)"
    by (simp add: ASN1_mbstring_ncopy_def mbstring_form.simps scan.simps CBS_len_def cbs_get_latin1_def narrow_mask_def clear_if_def
        is_printable_def strchr_def B_ASN1_PRINTABLESTRING_def B_ASN1_IA5STRING_def B_ASN1_T61STRING_def B_ASN1_BMPSTRING_def
        B_ASN1_UTF8STRING_def
        choose_type_def ASN1_STRING_type_new_def mbstring_store_def ASN1_STRING_set_def type_defs store_at_def)

text \<open>
  A text that is not a sequence of characters in its format is refused
  and the caller's string is left alone.
\<close>

theorem mbstring_refuses_malformed:
  assumes "\<nexists>f vs. mbstring_form inform = Some f \<and> text_of input len = concat (map (char_bytes f) vs) \<and> (\<forall>v \<in> set vs. char_ok f v)"
    and "mb_args input len"
  shows "\<exists>e. ASN1_mbstring_ncopy h out input len inform m minsize maxsize = (Inl e, out)"
proof (cases "mbstring_form inform")
  case None
  then show ?thesis by (simp add: ASN1_mbstring_ncopy_def Let_def)
next
  case (Some f)
  have "\<exists>e. scan f (default_mask m) 0 0 (text_of input len) = Inl e"
  proof (cases "scan f (default_mask m) 0 0 (text_of input len)")
    case (Inr r)
    obtain m' n u where r: "r = (m', n, u)" by (cases r)
    from scan_Inr [OF Inr [unfolded r]] assms(1) Some show ?thesis by (auto simp: chars.reads_all_iff)
  qed simp
  then show ?thesis using ncopy_stages [OF assms(2) Some] by auto
qed

theorem mbstring_refuses_malformed_witness:
  "\<exists>e. ASN1_mbstring_ncopy [] Out_null [0x41, 0xc3] 2 0x1000 0 0 0 = (Inl e, Out_null)"
proof -
  have "\<nexists>vs. [0x41, 0xc3] = concat (map (char_bytes MBSTRING_UTF8) vs) \<and> (\<forall>v \<in> set vs. char_ok MBSTRING_UTF8 v)"
  proof
    assume "\<exists>vs. [0x41, 0xc3] = concat (map (char_bytes MBSTRING_UTF8) vs) \<and> (\<forall>v \<in> set vs. char_ok MBSTRING_UTF8 v)"
    then obtain vs where r: "reads_all (decode_func MBSTRING_UTF8) [0x41, 0xc3] vs"
      using chars.reads_all_iff [of MBSTRING_UTF8] by blast
    have d: "cbs_get_utf8 [0x41, 0xc3] = (Some 0x41, [0xc3])" "fst (cbs_get_utf8 [0xc3]) = None"
      by (simp_all add: cbs_get_utf8_def and_then_apply TOP_BITS_def BOTTOM_BITS_def)
    obtain ws where "reads_all cbs_get_utf8 [0xc3] ws"
      using r by (cases rule: reads_all.cases) (auto simp: d)
    then show False by (cases rule: reads_all.cases) (use d(2) in auto)
  qed
  then show ?thesis
    by (intro mbstring_refuses_malformed) (auto simp: mb_args_def INT_MAX_def text_of_def mbstring_form.simps)
qed

text \<open>
  C18: what \<open>*out\<close> is after a failure. Take a call that gets a type for its text when \<open>out\<close> is a null
  pointer, and fails when \<open>out\<close> points to a null pointer. If the new string could not be
  allocated, \<open>*out\<close> is null. If it was, and the text is stored as it is, \<open>*out\<close> is the new string,
  empty. If the text had to be converted, for whatever reason that failed, the new string has been
  freed and \<open>*out\<close> still points to it.
\<close>

theorem mbstring_leaves_dangling_out:
  assumes "ASN1_mbstring_ncopy h Out_null input len inform m minsize maxsize = (Inl e, out')"
    and "ASN1_mbstring_ncopy h No_out input len inform m minsize maxsize = (Inr t, No_out)" and "mb_args input len"
  shows "out' = (if \<not> fst (alloc_next h) then Out_null
    else if mbstring_form inform = Some (type_form t) then Out \<lparr>str_length = 0, str_type = t, str_data = None, str_flags = 0\<rparr>
    else Out_freed)"
proof -
  obtain f where f: "mbstring_form inform = Some f"
    using assms(2) by (auto simp: ASN1_mbstring_ncopy_def Let_def split: option.splits)
  note stages = ncopy_stages [OF assms(3) f, of h No_out m minsize maxsize, unfolded assms(2)]
  obtain m' n u where sc: "scan f (default_mask m) 0 0 (text_of input len) = Inr (m', n, u)"
    using stages by (auto split: sum.splits)
  have "\<not> (minsize > 0 \<and> int n < minsize)" "\<not> (maxsize > 0 \<and> int n > maxsize)"
    using stages by (auto simp: sc split: if_splits)
  moreover obtain est where ch: "choose_type m' n u = (t, type_form t, est)"
    using stages by (auto simp: sc choose_type_def type_form_def type_defs split: if_splits)
  moreover note ncopy_stages [OF assms(3) f, of h Out_null m minsize maxsize, unfolded assms(1)]
  ultimately have r: "(Inl e, out') = (case ASN1_STRING_type_new t h of
      (None, _) \<Rightarrow> (Inl MALLOC_FAILURE, Out_null)
    | (Some dest, h) \<Rightarrow> mbstring_store h True dest input (effective_len input len) f (type_form t) est)"
    unfolding sc sum.case prod.case by (simp only: if_False Let_def prod.case out_arg.case)
  show ?thesis
  proof (cases "fst (alloc_next h)")
    case False
    then show ?thesis using r by (simp add: ASN1_STRING_type_new_def split: prod.splits)
  next
    case True
    then obtain h' where "alloc_next h = (True, h')" by (cases "alloc_next h") simp
    then have "(Inl e, out') = mbstring_store h' True \<lparr>str_length = 0, str_type = t, str_data = None, str_flags = 0\<rparr>
        input (effective_len input len) f (type_form t) est"
      using r by (simp add: ASN1_STRING_type_new_def)
    then have "out' = (if f = type_form t then Out \<lparr>str_length = 0, str_type = t, str_data = None, str_flags = 0\<rparr> else Out_freed)"
      by (auto simp: mbstring_store_def ASN1_STRING_set_def err_def Let_def split: prod.splits bool.splits option.splits if_splits)
    then show ?thesis using True f by simp
  qed
qed

theorem mbstring_leaves_dangling_out_witness:
  "\<exists>out'. ASN1_mbstring_ncopy [False, True] Out_null [0xe9] 1 0x1001 B_ASN1_UTF8STRING 0 0 = (Inl MALLOC_FAILURE, out') \<and> out' = Out_freed"
proof -
  note eval = ASN1_mbstring_ncopy_def mbstring_form.simps scan.simps CBS_len_def cbs_get_latin1_def narrow_mask_def clear_if_def
    is_printable_def strchr_def B_ASN1_PRINTABLESTRING_def B_ASN1_IA5STRING_def B_ASN1_T61STRING_def B_ASN1_BMPSTRING_def
    B_ASN1_UTF8STRING_def B_ASN1_UNIVERSALSTRING_def err_def CBB_init_def cbb_init_def
    choose_type_def ASN1_STRING_type_new_def mbstring_store_def ASN1_STRING_set_def type_defs store_at_def
  obtain out' where c: "ASN1_mbstring_ncopy [False, True] Out_null [0xe9] 1 0x1001 B_ASN1_UTF8STRING 0 0 = (Inl MALLOC_FAILURE, out')"
    by (simp add: eval)
  moreover have "ASN1_mbstring_ncopy [False, True] No_out [0xe9] 1 0x1001 B_ASN1_UTF8STRING 0 0 = (Inr 12, No_out)"
    by (simp add: eval)
  moreover have "mb_args [0xe9] 1" by (simp add: mb_args_def INT_MAX_def)
  ultimately have "out' = Out_freed"
    using mbstring_leaves_dangling_out by (fastforce simp: mbstring_form.simps type_form_def type_defs)
  then show ?thesis using c by simp
qed

end
