(* ===== verification/Stack.thy ===== *)
theory Stack
  imports Qsort
begin

text \<open>
  The growable array of pointers of \<open>crypto/stack/stack.c\<close>. A pointer is an \<open>'p option\<close>, \<open>None\<close>
  the null pointer; a \<open>_STACK *\<close> is an option likewise. The array has \<open>num_alloc\<close> slots, of which
  the first \<open>num\<close> are in use. A comparison function is named by its address, as the code compares
  and calls it only through its pointer; \<open>call_cmp_func\<close> is what the code calls it by, and
  \<open>qsort\<close> is the C library's.
\<close>

section \<open>State\<close>

record 'p stack =
  num :: nat
  sk_data :: "'p option list"
  sorted_flag :: bool
  num_alloc :: nat
  comp :: "nat option"

definition kMinSize :: nat where
  "kMinSize = 4"

definition sizeof_ptr :: nat where
  "sizeof_ptr = 8"

section \<open>Operations\<close>

definition sk_new :: "nat option \<Rightarrow> heap \<Rightarrow> 'p stack option \<times> heap" where
  "sk_new cmp h =
     (case alloc_next h of (ok, h) \<Rightarrow>
       if \<not> ok then (None, h)
       else (case alloc_next h of (ok, h) \<Rightarrow>
         if \<not> ok then (None, h)
         else (Some \<lparr>num = 0, sk_data = replicate kMinSize None, sorted_flag = False, num_alloc = kMinSize, comp = cmp\<rparr>, h)))"

definition sk_new_null :: "heap \<Rightarrow> 'p stack option \<times> heap" where
  "sk_new_null h = sk_new None h"

fun sk_num :: "'p stack option \<Rightarrow> nat" where
  "sk_num None = 0"
| "sk_num (Some sk) = num sk"

text \<open>\<open>data[0 .. n - 1]\<close> set to null pointers.\<close>

fun sk_zero :: "'p stack option \<Rightarrow> 'p stack option" where
  "sk_zero None = None"
| "sk_zero (Some sk) =
     (if num sk = 0 then Some sk
      else Some (sk\<lparr>sk_data := replicate (num sk) None @ drop (num sk) (sk_data sk), num := 0, sorted_flag := False\<rparr>))"

fun sk_value :: "'p stack option \<Rightarrow> nat \<Rightarrow> 'p option" where
  "sk_value None i = None"
| "sk_value (Some sk) i = (if i \<ge> num sk then None else sk_data sk ! i)"

fun sk_set :: "'p stack option \<Rightarrow> nat \<Rightarrow> 'p option \<Rightarrow> 'p option \<times> 'p stack option" where
  "sk_set None i value = (None, None)"
| "sk_set (Some sk) i value =
     (if i \<ge> num sk then (None, Some sk) else (value, Some (sk\<lparr>sk_data := (sk_data sk)[i := value]\<rparr>)))"

text \<open>The pointers that \<open>sk_pop_free_ex\<close> hands to the free function, in order.\<close>

fun sk_pop_free_ex :: "'p stack option \<Rightarrow> 'p list" where
  "sk_pop_free_ex None = []"
| "sk_pop_free_ex (Some sk) = concat (map (\<lambda>i. case sk_data sk ! i of None \<Rightarrow> [] | Some p \<Rightarrow> [p]) [0..<num sk])"

text \<open>
  Growing the array. A grown array keeps its pointers; the new slots hold whatever the
  allocator left there, here null pointers, and are not read before they are written.
\<close>

definition sk_grow :: "'p stack \<Rightarrow> heap \<Rightarrow> 'p stack option \<times> heap" where
  "sk_grow sk h =
     (let new_alloc = sz_mul (num_alloc sk) 2;
          alloc_size = sz_mul new_alloc sizeof_ptr;
          (new_alloc, alloc_size) =
            (if new_alloc < num_alloc sk \<or> alloc_size div sizeof_ptr \<noteq> new_alloc
             then (sz_add (num_alloc sk) 1, sz_mul (sz_add (num_alloc sk) 1) sizeof_ptr)
             else (new_alloc, alloc_size))
      in if new_alloc < num_alloc sk \<or> alloc_size div sizeof_ptr \<noteq> new_alloc then (None, h)
         else (case alloc_next h of (ok, h) \<Rightarrow>
           if \<not> ok then (None, h)
           else (Some (sk\<lparr>sk_data := sk_data sk @ replicate (new_alloc - num_alloc sk) None, num_alloc := new_alloc\<rparr>), h)))"

definition sk_store :: "'p stack \<Rightarrow> 'p option \<Rightarrow> nat \<Rightarrow> 'p stack" where
  "sk_store sk p where =
     (if where \<ge> num sk then sk\<lparr>sk_data := (sk_data sk)[num sk := p]\<rparr>
      else sk\<lparr>sk_data := (take where (sk_data sk) @ p # drop where (take (num sk) (sk_data sk))) @ drop (Suc (num sk)) (sk_data sk)\<rparr>)"

fun sk_insert :: "'p stack option \<Rightarrow> 'p option \<Rightarrow> nat \<Rightarrow> heap \<Rightarrow> nat \<times> 'p stack option \<times> heap" where
  "sk_insert None p where h = (0, None, h)"
| "sk_insert (Some sk) p where h =
     (case (if num_alloc sk \<le> sz_add (num sk) 1 then sk_grow sk h else (Some sk, h)) of
       (None, h) \<Rightarrow> (0, Some sk, h)
     | (Some sk, h) \<Rightarrow>
         let sk = (sk_store sk p where)\<lparr>num := num sk + 1, sorted_flag := False\<rparr> in
         (num sk, Some sk, h))"

fun sk_delete :: "'p stack option \<Rightarrow> nat \<Rightarrow> 'p option \<times> 'p stack option" where
  "sk_delete None where = (None, None)"
| "sk_delete (Some sk) where =
     (if where \<ge> num sk then (None, Some sk)
      else
        let ret = sk_data sk ! where;
            sk = (if where \<noteq> num sk - 1
                  then sk\<lparr>sk_data := take where (sk_data sk) @ take (num sk - where - 1) (drop (Suc where) (sk_data sk)) @
                          drop (num sk - 1) (sk_data sk)\<rparr>
                  else sk)
        in (ret, Some (sk\<lparr>num := num sk - 1\<rparr>)))"

text \<open>A linear search of \<open>data[i .. num - 1]\<close>.\<close>

function linear_search :: "('p option \<Rightarrow> bool) \<Rightarrow> 'p stack \<Rightarrow> nat \<Rightarrow> nat option" where
  "linear_search P sk i =
     (if i < num sk then (if P (sk_data sk ! i) then Some i else linear_search P sk (i + 1)) else None)"
  by pat_completeness auto
termination
  by (relation "measure (\<lambda>(P, sk, i). num sk - i)") auto

fun sk_delete_ptr :: "'p stack option \<Rightarrow> 'p option \<Rightarrow> 'p option \<times> 'p stack option" where
  "sk_delete_ptr None p = (None, None)"
| "sk_delete_ptr (Some sk) p =
     (case linear_search (\<lambda>e. e = p) sk 0 of
       Some i \<Rightarrow> sk_delete (Some sk) i
     | None \<Rightarrow> (None, Some sk))"

fun sk_is_sorted :: "'p stack option \<Rightarrow> bool" where
  "sk_is_sorted None = True"
| "sk_is_sorted (Some sk) = sorted_flag sk"

text \<open>
  The binary search of \<open>sk_find\<close>; \<open>cmp\<close> is the comparison of two pointers. The candidates are
  the indices from \<open>lo\<close> to \<open>hi - 1\<close>.
\<close>

function binary_search :: "('p option \<Rightarrow> 'p option \<Rightarrow> int) \<Rightarrow> 'p stack \<Rightarrow> 'p option \<Rightarrow> nat \<Rightarrow> nat \<Rightarrow> nat option" where
  "binary_search cmp sk p lo hi =
     (if lo < hi then
        let mid = lo + (hi - lo - 1) div 2; r = cmp p (sk_data sk ! mid) in
        if r > 0 then binary_search cmp sk p (mid + 1) hi
        else if r < 0 then binary_search cmp sk p lo mid
        else if hi - lo = 1 then Some mid
        else binary_search cmp sk p lo (mid + 1)
      else None)"
  by pat_completeness auto
termination
  by (relation "measure (\<lambda>(cmp, sk, p, lo, hi). hi - lo)") auto

text \<open>\<open>call_cmp_func\<close> applies a comparison function, named by its address, to two pointers.\<close>

fun sk_find :: "(nat \<Rightarrow> 'p option \<Rightarrow> 'p option \<Rightarrow> int) \<Rightarrow> 'p stack option \<Rightarrow> 'p option \<Rightarrow> nat option" where
  "sk_find call_cmp_func None p = None"
| "sk_find call_cmp_func (Some sk) p =
     (case comp sk of
       None \<Rightarrow> linear_search (\<lambda>e. e = p) sk 0
     | Some f \<Rightarrow>
         if p = None then None
         else if \<not> sk_is_sorted (Some sk) then linear_search (\<lambda>e. call_cmp_func f p e = 0) sk 0
         else binary_search (call_cmp_func f) sk p 0 (num sk))"

fun sk_shift :: "'p stack option \<Rightarrow> 'p option \<times> 'p stack option" where
  "sk_shift None = (None, None)"
| "sk_shift (Some sk) = (if num sk = 0 then (None, Some sk) else sk_delete (Some sk) 0)"

definition sk_push :: "'p stack option \<Rightarrow> 'p option \<Rightarrow> heap \<Rightarrow> nat \<times> 'p stack option \<times> heap" where
  "sk_push sk p h = sk_insert sk p (sk_num sk) h"

fun sk_pop :: "'p stack option \<Rightarrow> 'p option \<times> 'p stack option" where
  "sk_pop None = (None, None)"
| "sk_pop (Some sk) = (if num sk = 0 then (None, Some sk) else sk_delete (Some sk) (num sk - 1))"

fun sk_dup :: "'p stack option \<Rightarrow> heap \<Rightarrow> 'p stack option \<times> heap" where
  "sk_dup None h = (None, h)"
| "sk_dup (Some sk) h =
     (case sk_new (comp sk) h of
       (None, h) \<Rightarrow> (None, h)
     | (Some ret, h) \<Rightarrow>
         (case alloc_next h of (ok, h) \<Rightarrow>
           if \<not> ok then (None, h)
           else (Some (ret\<lparr>sk_data := take (num sk) (sk_data sk) @ replicate (num_alloc sk - num sk) None,
                  num := num sk, sorted_flag := sorted_flag sk, num_alloc := num_alloc sk, comp := comp sk\<rparr>), h)))"

fun sk_sort :: "(nat \<Rightarrow> 'p option \<Rightarrow> 'p option \<Rightarrow> int) \<Rightarrow>
    (('p option \<Rightarrow> 'p option \<Rightarrow> int) \<Rightarrow> 'p option list \<Rightarrow> 'p option list) \<Rightarrow> 'p stack option \<Rightarrow> 'p stack option" where
  "sk_sort call_cmp_func qsort None = None"
| "sk_sort call_cmp_func qsort (Some sk) =
     (case comp sk of
       None \<Rightarrow> Some sk
     | Some f \<Rightarrow>
         if sorted_flag sk then Some sk
         else
           let sk = (if num sk \<ge> 2
                     then sk\<lparr>sk_data := qsort (call_cmp_func f) (take (num sk) (sk_data sk)) @ drop (num sk) (sk_data sk)\<rparr>
                     else sk)
           in Some (sk\<lparr>sorted_flag := True\<rparr>))"

definition sk_set_cmp_func :: "'p stack \<Rightarrow> nat option \<Rightarrow> nat option \<times> 'p stack" where
  "sk_set_cmp_func sk cmp =
     (let old = comp sk;
          sk = (if comp sk \<noteq> cmp then sk\<lparr>sorted_flag := False\<rparr> else sk)
      in (old, sk\<lparr>comp := cmp\<rparr>))"

text \<open>
  The copying loop of \<open>sk_deep_copy\<close> from index \<open>i\<close> on: the copy, or the copies that are freed
  when \<open>copy_func\<close> returns a null pointer.
\<close>

function deep_copy_loop :: "('p \<Rightarrow> 'p option) \<Rightarrow> 'p stack \<Rightarrow> nat \<Rightarrow> 'p list + 'p stack" where
  "deep_copy_loop copy_func ret i =
     (if i < num ret then
        (case sk_data ret ! i of
          None \<Rightarrow> deep_copy_loop copy_func ret (i + 1)
        | Some p \<Rightarrow>
            (case copy_func p of
              None \<Rightarrow> Inl (concat (map (\<lambda>j. case sk_data ret ! j of None \<Rightarrow> [] | Some q \<Rightarrow> [q]) [0..<i]))
            | Some q \<Rightarrow> deep_copy_loop copy_func (ret\<lparr>sk_data := (sk_data ret)[i := Some q]\<rparr>) (i + 1)))
      else Inr ret)"
  by pat_completeness auto
termination
  by (relation "measure (\<lambda>(f, ret, i). num ret - i)") auto

definition sk_deep_copy :: "('p \<Rightarrow> 'p option) \<Rightarrow> 'p stack option \<Rightarrow> heap \<Rightarrow> 'p list \<times> 'p stack option" where
  "sk_deep_copy copy_func sk h =
     (case sk_dup sk h of
       (None, _) \<Rightarrow> ([], None)
     | (Some ret, _) \<Rightarrow>
         (case deep_copy_loop copy_func ret 0 of
           Inl freed \<Rightarrow> (freed, None)
         | Inr ret \<Rightarrow> ([], Some ret)))"

declare linear_search.simps [simp del] binary_search.simps [simp del] deep_copy_loop.simps [simp del]

section \<open>Contents and invariant\<close>

definition ptrs :: "'p stack \<Rightarrow> 'p option list" where
  "ptrs sk = take (num sk) (sk_data sk)"

definition sk_ok :: "'p stack \<Rightarrow> bool" where
  "sk_ok sk \<longleftrightarrow> num sk < num_alloc sk \<and> length (sk_data sk) = num_alloc sk \<and> num_alloc sk * sizeof_ptr < size_mod"

lemma length_ptrs [simp]: "sk_ok sk \<Longrightarrow> length (ptrs sk) = num sk"
  by (simp add: sk_ok_def ptrs_def)

lemma nth_ptrs: "sk_ok sk \<Longrightarrow> i < num sk \<Longrightarrow> sk_data sk ! i = ptrs sk ! i"
  by (simp add: sk_ok_def ptrs_def)

lemma ok_update [simp]:
  "sk_ok (sk\<lparr>sorted_flag := b\<rparr>) = sk_ok sk" "sk_ok (sk\<lparr>comp := c\<rparr>) = sk_ok sk"
  "ptrs (sk\<lparr>sorted_flag := b\<rparr>) = ptrs sk" "ptrs (sk\<lparr>comp := c\<rparr>) = ptrs sk"
  by (simp_all add: sk_ok_def ptrs_def)

lemma sk_new_ok:
  assumes "sk_new c h = (Some sk, h')"
  shows "sk_ok sk \<and> ptrs sk = [] \<and> comp sk = c \<and> \<not> sorted_flag sk"
  using assms by (auto simp: sk_new_def sk_ok_def ptrs_def kMinSize_def sizeof_ptr_def size_mod_def split: prod.splits if_splits)

lemma sk_grow_ok:
  assumes "sk_ok sk" and "num_alloc sk \<le> sz_add (num sk) 1" and "sk_grow sk h = (Some sk', h')"
  shows "sk_ok sk' \<and> ptrs sk' = ptrs sk \<and> num sk' = num sk \<and> num sk + 1 < num_alloc sk' \<and> comp sk' = comp sk"
proof -
  have alloc: "num_alloc sk < 2 ^ 61" "num sk < num_alloc sk"
    using assms(1) by (auto simp: sk_ok_def sizeof_ptr_def size_mod_def)
  then have n: "sz_add (num sk) 1 = num sk + 1" by (intro sz_add_exact) (simp add: size_mod_def)
  have g: "sz_mul (num_alloc sk) 2 = num_alloc sk * 2" using alloc by (intro sz_mul_exact) (simp add: size_mod_def)
  have i: "sz_add (num_alloc sk) 1 = num_alloc sk + 1" using alloc by (intro sz_add_exact) (simp add: size_mod_def)
  have exact: "sz_mul a sizeof_ptr div sizeof_ptr = a \<Longrightarrow> a * sizeof_ptr < size_mod" for a
  proof -
    assume "sz_mul a sizeof_ptr div sizeof_ptr = a"
    moreover have "sz_mul a sizeof_ptr < size_mod" by (simp add: sz_mul_def)
    moreover have "sz_mul a sizeof_ptr div sizeof_ptr * sizeof_ptr \<le> sz_mul a sizeof_ptr" by simp
    ultimately show "a * sizeof_ptr < size_mod" by simp
  qed
  have "\<exists>new \<in> {num_alloc sk * 2, num_alloc sk + 1}.
      sk' = sk\<lparr>sk_data := sk_data sk @ replicate (new - num_alloc sk) None, num_alloc := new\<rparr> \<and>
      num_alloc sk < new \<and> new * sizeof_ptr < size_mod"
    using assms(3) alloc exact [of "num_alloc sk * 2"] exact [of "num_alloc sk + 1"] unfolding sk_grow_def g i Let_def
    by (auto split: if_splits prod.splits)
  then obtain new where "sk' = sk\<lparr>sk_data := sk_data sk @ replicate (new - num_alloc sk) None, num_alloc := new\<rparr>"
    "num_alloc sk < new" "new * sizeof_ptr < size_mod" by blast
  then show ?thesis using assms(1,2) n by (auto simp: sk_ok_def ptrs_def)
qed

lemma sk_store_contents:
  assumes "sk_ok sk" and "num sk + 1 < num_alloc sk" and "sk' = (sk_store sk p w)\<lparr>num := num sk + 1, sorted_flag := False\<rparr>"
  shows "sk_ok sk' \<and> ptrs sk' = take w (ptrs sk) @ p # drop w (ptrs sk)"
proof (cases "w \<ge> num sk")
  case True
  then show ?thesis using assms by (auto simp: sk_store_def sk_ok_def ptrs_def take_Suc_conv_app_nth)
next
  case False
  let ?xs = "take w (sk_data sk) @ p # drop w (take (num sk) (sk_data sk))"
  have n: "length ?xs = Suc (num sk)" using assms(1) False by (simp add: sk_ok_def)
  have d: "sk_data sk' = ?xs @ drop (Suc (num sk)) (sk_data sk)" using assms(3) False by (simp add: sk_store_def)
  have "ptrs sk' = ?xs" using assms(3) n False unfolding ptrs_def d by (simp add: sk_store_def del: append.append_Cons append_assoc)
  moreover have "length (sk_data sk') = length (sk_data sk)" unfolding d using n assms(1,2) by (simp add: sk_ok_def)
  ultimately show ?thesis using assms False by (auto simp: sk_ok_def ptrs_def sk_store_def)
qed

lemma sk_insert_ok:
  assumes "sk_ok sk" and "sk_insert (Some sk) p w h = (r, sk', h')"
  obtains (failed) "r = 0" "sk' = Some sk"
  | (inserted) s where "sk' = Some s" "r = num sk + 1" "sk_ok s" "ptrs s = take w (ptrs sk) @ p # drop w (ptrs sk)"
      "\<not> sorted_flag s" "comp s = comp sk"
proof -
  let ?g = "if num_alloc sk \<le> sz_add (num sk) 1 then sk_grow sk h else (Some sk, h)"
  obtain g h1 where g: "?g = (g, h1)" by (cases ?g)
  show ?thesis
  proof (cases g)
    case None
    then show ?thesis using assms(2) g by (intro failed) auto
  next
    case (Some s1)
    have s1: "sk_ok s1 \<and> ptrs s1 = ptrs sk \<and> num s1 = num sk \<and> num sk + 1 < num_alloc s1 \<and> comp s1 = comp sk"
    proof (cases "num_alloc sk \<le> sz_add (num sk) 1")
      case True
      then show ?thesis using sk_grow_ok [OF assms(1) True] g Some by simp
    next
      case False
      have "sz_add (num sk) 1 = num sk + 1"
        using assms(1) by (intro sz_add_exact) (auto simp: sk_ok_def sizeof_ptr_def size_mod_def)
      then show ?thesis using False assms(1) g Some by simp
    qed
    let ?s = "(sk_store s1 p w)\<lparr>num := num s1 + 1, sorted_flag := False\<rparr>"
    have "comp ?s = comp sk" using s1 by (simp add: sk_store_def)
    moreover have "r = num sk + 1" "sk' = Some ?s" using assms(2) g Some s1 by (auto simp: Let_def)
    moreover have "sk_ok ?s \<and> ptrs ?s = take w (ptrs s1) @ p # drop w (ptrs s1)"
      by (rule sk_store_contents) (use s1 in simp_all)
    ultimately show ?thesis using s1 by (intro inserted [of ?s]) simp_all
  qed
qed

lemma sk_delete_ok:
  assumes "sk_ok sk" and "w < num sk"
  shows "\<exists>s. sk_delete (Some sk) w = (ptrs sk ! w, Some s) \<and> sk_ok s \<and> ptrs s = take w (ptrs sk) @ drop (Suc w) (ptrs sk) \<and>
    sorted_flag s = sorted_flag sk \<and> comp s = comp sk"
proof -
  let ?d = "take w (sk_data sk) @ take (num sk - w - 1) (drop (Suc w) (sk_data sk))"
  have ok: "num sk < length (sk_data sk)" using assms(1) by (simp add: sk_ok_def)
  have len: "length ?d = num sk - 1" using assms(2) ok by simp
  have drop: "drop (Suc w) (ptrs sk) = take (num sk - w - 1) (drop (Suc w) (sk_data sk))"
    by (simp add: ptrs_def drop_take)
  have "take (num sk - 1) (?d @ drop (num sk - 1) (sk_data sk)) = ?d" using len by (metis append_eq_conv_conj)
  moreover have "take (num sk - 1) (sk_data sk) = ?d" if "w = num sk - 1" using that by simp
  moreover have "length (?d @ drop (num sk - 1) (sk_data sk)) = length (sk_data sk)" using len ok by simp
  moreover have "take w (ptrs sk) = take w (sk_data sk)" using assms(2) by (simp add: ptrs_def min_def)
  ultimately show ?thesis
    using assms drop by (auto simp: Let_def ptrs_def sk_ok_def)
qed

lemma linear_search_first:
  assumes "sk_ok sk"
  shows "(case linear_search P sk i of
      Some j \<Rightarrow> i \<le> j \<and> j < num sk \<and> P (ptrs sk ! j) \<and> (\<forall>k. i \<le> k \<longrightarrow> k < j \<longrightarrow> \<not> P (ptrs sk ! k))
    | None \<Rightarrow> \<forall>k. i \<le> k \<longrightarrow> k < num sk \<longrightarrow> \<not> P (ptrs sk ! k))"
  using assms
proof (induction P sk i rule: linear_search.induct)
  case (1 P sk i)
  show ?case
  proof (cases "i < num sk \<and> \<not> P (ptrs sk ! i)")
    case True
    then have "linear_search P sk i = linear_search P sk (i + 1)"
      by (subst linear_search.simps) (auto simp: nth_ptrs [OF "1.prems"])
    moreover have "(\<forall>k. i \<le> k \<longrightarrow> Q k) \<longleftrightarrow> Q i \<and> (\<forall>k. i + 1 \<le> k \<longrightarrow> Q k)" for Q
      by (metis Suc_eq_plus1 Suc_leI Suc_leD le_eq_less_or_eq)
    ultimately show ?thesis using True 1 by (auto simp: nth_ptrs [OF "1.prems"] split: option.splits)
  next
    case False
    then show ?thesis by (subst linear_search.simps) (auto simp: nth_ptrs [OF "1.prems"])
  qed
qed


section \<open>Searching\<close>

text \<open>What a search for the first index with a property returns.\<close>

definition first_index :: "('e \<Rightarrow> bool) \<Rightarrow> 'e list \<Rightarrow> nat option \<Rightarrow> bool" where
  "first_index P xs r \<longleftrightarrow> (case r of
      Some i \<Rightarrow> i < length xs \<and> P (xs ! i) \<and> (\<forall>j < i. \<not> P (xs ! j))
    | None \<Rightarrow> \<forall>x \<in> set xs. \<not> P x)"

lemma first_index_unique:
  assumes "first_index P xs r" and "first_index P xs s"
  shows "r = s"
  using assms by (cases r; cases s; simp add: first_index_def) (metis nth_mem linorder_neqE_nat)+

lemma linear_search_first_index: "sk_ok sk \<Longrightarrow> first_index P (ptrs sk) (linear_search P sk 0)"
  using linear_search_first [where sk = sk and P = P and i = 0] by (auto simp: first_index_def in_set_conv_nth split: option.splits)

text \<open>A comparison function: a total preorder whose sign flips with its arguments.\<close>

definition comparator :: "('e \<Rightarrow> 'e \<Rightarrow> int) \<Rightarrow> bool" where
  "comparator cmp \<longleftrightarrow> total_preorder cmp \<and> (\<forall>a b. sgn (cmp a b) = - sgn (cmp b a))"

lemma opposite_signs: "sgn x = - sgn y \<Longrightarrow> (x < 0 \<longleftrightarrow> y > 0) \<and> (x = 0 \<longleftrightarrow> y = 0)" for x y :: int
  by (cases "x < 0"; cases "x = 0"; cases "y < 0"; cases "y = 0") simp_all

lemma comparator_sign:
  assumes "comparator cmp"
  shows "cmp a b < 0 \<longleftrightarrow> cmp b a > 0" "cmp a b = 0 \<longleftrightarrow> cmp b a = 0"
proof -
  have "sgn (cmp a b) = - sgn (cmp b a)" using assms unfolding comparator_def by blast
  then show "cmp a b < 0 \<longleftrightarrow> cmp b a > 0" "cmp a b = 0 \<longleftrightarrow> cmp b a = 0"
    using opposite_signs by blast+
qed

lemma comparator_trans: "comparator cmp \<Longrightarrow> cmp a b \<le> 0 \<Longrightarrow> cmp b c \<le> 0 \<Longrightarrow> cmp a c \<le> 0"
  unfolding comparator_def total_preorder_def by blast

lemma comparator_mono:
  assumes "comparator cmp" and "cmp x y \<le> 0"
  shows "cmp p y > 0 \<Longrightarrow> cmp p x > 0" and "cmp p x < 0 \<Longrightarrow> cmp p y < 0"
proof -
  show "cmp p x > 0" if "cmp p y > 0"
    using comparator_trans [OF assms(1), of p x y] assms(2) that by (meson not_le)
  show "cmp p y < 0" if "cmp p x < 0"
  proof (rule ccontr)
    assume "\<not> cmp p y < 0"
    then have "cmp y p \<le> 0" using comparator_sign [OF assms(1), of y p] by linarith
    from comparator_trans [OF assms(1) assms(2) this] that comparator_sign [OF assms(1), of p x] show False by simp
  qed
qed

lemma binary_search_first:
  assumes "sk_ok sk" and "comparator cmp" and "sorted_wrt (\<lambda>a b. cmp a b \<le> 0) (ptrs sk)"
    and "hi \<le> num sk" and "\<forall>j < lo. cmp p (ptrs sk ! j) > 0"
    and "(\<forall>j. hi \<le> j \<longrightarrow> j < num sk \<longrightarrow> cmp p (ptrs sk ! j) < 0) \<or> lo < hi \<and> cmp p (ptrs sk ! (hi - 1)) = 0"
  shows "first_index (\<lambda>e. cmp p e = 0) (ptrs sk) (binary_search cmp sk p lo hi)"
  using assms
proof (induction cmp sk p lo hi rule: binary_search.induct)
  case (1 cmp sk p lo hi)
  note ok = "1.prems"(1) and c = "1.prems"(2) and sorted = "1.prems"(3)
  have le: "cmp (ptrs sk ! i) (ptrs sk ! j) \<le> 0" if "i < j" "j < num sk" for i j
    using sorted that ok by (simp add: sorted_wrt_iff_nth_less)
  show ?case
  proof (cases "lo < hi")
    case False
    then have beyond: "\<forall>j. hi \<le> j \<longrightarrow> j < num sk \<longrightarrow> cmp p (ptrs sk ! j) < 0" using "1.prems"(6) by blast
    have "cmp p e \<noteq> 0" if e: "e \<in> set (ptrs sk)" for e
    proof -
      obtain j where j: "j < num sk" "e = ptrs sk ! j" using e ok by (auto simp: in_set_conv_nth)
      then show ?thesis using False "1.prems"(5) beyond by (cases "j < lo") (auto dest: spec [of _ j])
    qed
    then show ?thesis using False by (subst binary_search.simps) (simp add: first_index_def)
  next
    case True
    define mid where "mid = lo + (hi - lo - 1) div 2"
    have mid: "lo \<le> mid" "mid < hi" "mid < num sk" using True "1.prems"(4) by (auto simp: mid_def)
    define r where "r = cmp p (ptrs sk ! mid)"
    have r': "cmp p (sk_data sk ! mid) = r" using mid ok by (simp add: r_def nth_ptrs)
    have eq: "binary_search cmp sk p lo hi =
        (if r > 0 then binary_search cmp sk p (mid + 1) hi
         else if r < 0 then binary_search cmp sk p lo mid
         else if hi - lo = 1 then Some mid
         else binary_search cmp sk p lo (mid + 1))"
      by (simp only: binary_search.simps [of cmp sk p lo hi] Let_def True if_True mid_def [symmetric] r')
    have mono: "cmp p (ptrs sk ! j) > 0 \<Longrightarrow> cmp p (ptrs sk ! i) > 0" "cmp p (ptrs sk ! i) < 0 \<Longrightarrow> cmp p (ptrs sk ! j) < 0"
      if "i \<le> j" "j < num sk" for i j
      using comparator_mono [OF c le, of i j p] that by (cases "i = j"; auto)+
    consider (low) "r > 0" | (high) "r < 0" | (found) "r = 0" "hi - lo = 1" | (narrow) "r = 0" "hi - lo \<noteq> 1" by linarith
    then show ?thesis
    proof cases
      case low
      have "\<forall>j < mid + 1. cmp p (ptrs sk ! j) > 0" using mono(1) [of _ mid] mid(3) low by (auto simp: r_def)
      moreover have "cmp p (ptrs sk ! (hi - 1)) = 0 \<Longrightarrow> mid + 1 < hi" using low mid(2) by (cases "mid = hi - 1") (auto simp: r_def)
      ultimately show ?thesis
        using "1.IH"(1) [OF True mid_def refl] "1.prems" low by (auto simp: eq r')
    next
      case high
      have "\<forall>j. mid \<le> j \<longrightarrow> j < num sk \<longrightarrow> cmp p (ptrs sk ! j) < 0" using mono(2) [of mid] mid(3) high by (auto simp: r_def)
      then show ?thesis
        using "1.IH"(2) [OF True mid_def refl] "1.prems" high mid by (auto simp: eq r')
    next
      case found
      then have "mid = lo" by (simp add: mid_def)
      then show ?thesis using found "1.prems"(5) mid(3) ok by (auto simp: eq first_index_def r_def)
    next
      case narrow
      then show ?thesis
        using "1.IH"(3) [OF True mid_def refl] "1.prems" mid by (auto simp: eq r' r_def)
    qed
  qed
qed


lemma binary_search_above:
  assumes "\<forall>i. lo \<le> i \<longrightarrow> i < hi \<longrightarrow> cmp p (sk_data sk ! i) > 0"
  shows "binary_search cmp sk p lo hi = None"
  using assms
proof (induction cmp sk p lo hi rule: binary_search.induct)
  case (1 cmp sk p lo hi)
  show ?case
  proof (cases "lo < hi")
    case True
    define mid where "mid = lo + (hi - lo - 1) div 2"
    have mid: "lo \<le> mid" "mid < hi" using True by (auto simp: mid_def)
    then have above: "cmp p (sk_data sk ! mid) > 0" using "1.prems" by blast
    have "binary_search cmp sk p (mid + 1) hi = None"
      using "1.IH"(1) [OF True mid_def refl above] "1.prems" mid by simp
    then show ?thesis using True above by (subst binary_search.simps) (simp add: Let_def mid_def)
  qed (simp add: binary_search.simps)
qed

section \<open>Scripts of operations\<close>

datatype 'p sk_op = Insert "'p option" nat | Push "'p option" | Delete nat | Delete_ptr "'p option" | Shift | Pop | Zero
  | Sort | Set_cmp "nat option" | Set nat "'p option" | Value nat | Find "'p option" | Num | Is_sorted | Dup

text \<open>\<open>Dup\<close> goes on with the duplicate, or with the old stack where there is no memory for it.\<close>

datatype 'p sk_result = Size nat | Ptr "'p option" | Old_cmp "nat option" | Found "nat option" | Flag bool | Count nat | Done

fun sk_exec :: "(nat \<Rightarrow> 'p option \<Rightarrow> 'p option \<Rightarrow> int) \<Rightarrow>
    (('p option \<Rightarrow> 'p option \<Rightarrow> int) \<Rightarrow> 'p option list \<Rightarrow> 'p option list) \<Rightarrow>
    'p sk_op \<Rightarrow> 'p stack \<Rightarrow> heap \<Rightarrow> 'p sk_result \<times> 'p stack \<times> heap" where
  "sk_exec call qsort (Insert p w) sk h = (case sk_insert (Some sk) p w h of (n, sk', h') \<Rightarrow> (Size n, the sk', h'))"
| "sk_exec call qsort (Push p) sk h = (case sk_push (Some sk) p h of (n, sk', h') \<Rightarrow> (Size n, the sk', h'))"
| "sk_exec call qsort (Delete w) sk h = (case sk_delete (Some sk) w of (p, sk') \<Rightarrow> (Ptr p, the sk', h))"
| "sk_exec call qsort (Delete_ptr p) sk h = (case sk_delete_ptr (Some sk) p of (p, sk') \<Rightarrow> (Ptr p, the sk', h))"
| "sk_exec call qsort Shift sk h = (case sk_shift (Some sk) of (p, sk') \<Rightarrow> (Ptr p, the sk', h))"
| "sk_exec call qsort Pop sk h = (case sk_pop (Some sk) of (p, sk') \<Rightarrow> (Ptr p, the sk', h))"
| "sk_exec call qsort Zero sk h = (Done, the (sk_zero (Some sk)), h)"
| "sk_exec call qsort Sort sk h = (Done, the (sk_sort call qsort (Some sk)), h)"
| "sk_exec call qsort (Set_cmp c) sk h = (case sk_set_cmp_func sk c of (old, sk') \<Rightarrow> (Old_cmp old, sk', h))"
| "sk_exec call qsort (Set i p) sk h = (case sk_set (Some sk) i p of (q, sk') \<Rightarrow> (Ptr q, the sk', h))"
| "sk_exec call qsort (Value i) sk h = (Ptr (sk_value (Some sk) i), sk, h)"
| "sk_exec call qsort (Find p) sk h = (Found (sk_find call (Some sk) p), sk, h)"
| "sk_exec call qsort Num sk h = (Count (sk_num (Some sk)), sk, h)"
| "sk_exec call qsort Is_sorted sk h = (Flag (sk_is_sorted (Some sk)), sk, h)"
| "sk_exec call qsort Dup sk h = (case sk_dup (Some sk) h of (None, h') \<Rightarrow> (Size 0, sk, h') | (Some sk', h') \<Rightarrow> (Done, sk', h'))"

fun sk_run :: "(nat \<Rightarrow> 'p option \<Rightarrow> 'p option \<Rightarrow> int) \<Rightarrow>
    (('p option \<Rightarrow> 'p option \<Rightarrow> int) \<Rightarrow> 'p option list \<Rightarrow> 'p option list) \<Rightarrow>
    'p sk_op list \<Rightarrow> 'p stack \<Rightarrow> heap \<Rightarrow> 'p sk_result list \<times> 'p stack \<times> heap" where
  "sk_run call qsort [] sk h = ([], sk, h)"
| "sk_run call qsort (x # xs) sk h =
     (case sk_exec call qsort x sk h of (r, sk, h) \<Rightarrow>
       (case sk_run call qsort xs sk h of (rs, sk, h) \<Rightarrow> (r # rs, sk, h)))"

text \<open>
  The same operations on a list, the comparison function and the flag. \<open>find_index\<close> is the
  contract of \<open>sk_find\<close>: the first element that compares equal.
\<close>

fun find_index :: "('e \<Rightarrow> bool) \<Rightarrow> 'e list \<Rightarrow> nat option" where
  "find_index P [] = None"
| "find_index P (x # xs) = (if P x then Some 0 else map_option Suc (find_index P xs))"

lemma find_index_first: "first_index P xs (find_index P xs)"
proof (induction xs)
  case (Cons x xs)
  have "(\<forall>j < Suc i. \<not> P ((x # xs) ! j)) \<longleftrightarrow> \<not> P x \<and> (\<forall>j < i. \<not> P (xs ! j))" for i
    by (auto simp: less_Suc_eq_0_disj)
  with Cons show ?case by (auto simp: first_index_def split: option.splits)
qed (simp add: first_index_def)

type_synonym 'p seq = "'p option list \<times> nat option \<times> bool"

fun seq_exec :: "(nat \<Rightarrow> 'p option \<Rightarrow> 'p option \<Rightarrow> int) \<Rightarrow>
    (('p option \<Rightarrow> 'p option \<Rightarrow> int) \<Rightarrow> 'p option list \<Rightarrow> 'p option list) \<Rightarrow>
    'p sk_op \<Rightarrow> 'p seq \<Rightarrow> 'p sk_result \<times> 'p seq" where
  "seq_exec call qsort (Insert p w) (xs, c, b) = (Size (length xs + 1), take w xs @ p # drop w xs, c, False)"
| "seq_exec call qsort (Push p) (xs, c, b) = (Size (length xs + 1), xs @ [p], c, False)"
| "seq_exec call qsort (Delete w) (xs, c, b) =
     (if w < length xs then (Ptr (xs ! w), take w xs @ drop (Suc w) xs, c, b) else (Ptr None, xs, c, b))"
| "seq_exec call qsort (Delete_ptr p) (xs, c, b) =
     (if p \<in> set xs then (Ptr p, remove1 p xs, c, b) else (Ptr None, xs, c, b))"
| "seq_exec call qsort Shift (xs, c, b) = (case xs of [] \<Rightarrow> (Ptr None, [], c, b) | x # ys \<Rightarrow> (Ptr x, ys, c, b))"
| "seq_exec call qsort Pop (xs, c, b) = (if xs = [] then (Ptr None, [], c, b) else (Ptr (last xs), butlast xs, c, b))"
| "seq_exec call qsort Zero (xs, c, b) = (Done, [], c, b \<and> xs = [])"
| "seq_exec call qsort Sort (xs, c, b) =
     (case c of None \<Rightarrow> (Done, xs, c, b)
      | Some f \<Rightarrow> if b then (Done, xs, c, b) else (Done, if length xs \<ge> 2 then qsort (call f) xs else xs, c, True))"
| "seq_exec call qsort (Set_cmp c') (xs, c, b) = (Old_cmp c, xs, c', b \<and> c = c')"
| "seq_exec call qsort (Set i p) (xs, c, b) = (if i < length xs then (Ptr p, xs[i := p], c, b) else (Ptr None, xs, c, b))"
| "seq_exec call qsort (Value i) (xs, c, b) = (Ptr (if i < length xs then xs ! i else None), xs, c, b)"
| "seq_exec call qsort (Find p) (xs, c, b) =
     (Found (case c of None \<Rightarrow> find_index (\<lambda>e. e = p) xs
       | Some f \<Rightarrow> if p = None then None else find_index (\<lambda>e. call f p e = 0) xs), xs, c, b)"
| "seq_exec call qsort Num (xs, c, b) = (Count (length xs), xs, c, b)"
| "seq_exec call qsort Is_sorted (xs, c, b) = (Flag b, xs, c, b)"
| "seq_exec call qsort Dup (xs, c, b) = (Done, xs, c, b)"

fun seq_run :: "(nat \<Rightarrow> 'p option \<Rightarrow> 'p option \<Rightarrow> int) \<Rightarrow>
    (('p option \<Rightarrow> 'p option \<Rightarrow> int) \<Rightarrow> 'p option list \<Rightarrow> 'p option list) \<Rightarrow>
    'p sk_op list \<Rightarrow> 'p seq \<Rightarrow> 'p sk_result list \<times> 'p seq" where
  "seq_run call qsort [] s = ([], s)"
| "seq_run call qsort (x # xs) s =
     (case seq_exec call qsort x s of (r, s) \<Rightarrow> (case seq_run call qsort xs s of (rs, s) \<Rightarrow> (r # rs, s)))"

definition seq_of :: "'p stack \<Rightarrow> 'p seq" where
  "seq_of sk = (ptrs sk, comp sk, sorted_flag sk)"

text \<open>What the flag says of the contents.\<close>

definition sorted_ok :: "(nat \<Rightarrow> 'p option \<Rightarrow> 'p option \<Rightarrow> int) \<Rightarrow> 'p seq \<Rightarrow> bool" where
  "sorted_ok call s \<longleftrightarrow> (case s of (xs, c, b) \<Rightarrow> \<forall>f. b \<longrightarrow> c = Some f \<longrightarrow> sorted_wrt (\<lambda>x y. call f x y \<le> 0) xs)"

definition comparators :: "(nat \<Rightarrow> 'p option \<Rightarrow> 'p option \<Rightarrow> int) \<Rightarrow> bool" where
  "comparators call \<longleftrightarrow> (\<forall>f. comparator (call f))"

text \<open>
  \<open>sk_find\<close> returns the first element that compares equal, by the comparison function or by
  address, and fails only when there is none: the binary search of a sorted stack finds what the
  linear search finds. A null pointer is not found through a comparison function.
\<close>

theorem sk_find_first:
  assumes "sk_ok sk" and "sorted_ok call (seq_of sk)" and "comparators call"
  shows "first_index (\<lambda>e. case comp sk of None \<Rightarrow> e = p | Some f \<Rightarrow> p \<noteq> None \<and> call f p e = 0) (take (num sk) (sk_data sk))
    (sk_find call (Some sk) p)"
proof (cases "comp sk")
  case None
  then show ?thesis using linear_search_first_index [OF assms(1), of "\<lambda>e. e = p"] by (simp add: ptrs_def)
next
  case (Some f)
  note lin = linear_search_first_index [OF assms(1), of "\<lambda>e. call f p e = 0"]
  have bin: "first_index (\<lambda>e. call f p e = 0) (ptrs sk) (binary_search (call f) sk p 0 (num sk))" if "sorted_flag sk"
    using assms that Some by (intro binary_search_first) (auto simp: seq_of_def sorted_ok_def comparators_def)
  show ?thesis
  proof (cases "p = None")
    case True
    then show ?thesis using Some by (simp add: first_index_def)
  next
    case False
    then show ?thesis using Some lin bin by (auto simp: ptrs_def)
  qed
qed

lemma sk_find_index:
  assumes "sk_ok sk" and "sorted_ok call (seq_of sk)" and "comparators call"
  shows "sk_find call (Some sk) p = (case comp sk of None \<Rightarrow> find_index (\<lambda>e. e = p) (ptrs sk)
    | Some f \<Rightarrow> if p = None then None else find_index (\<lambda>e. call f p e = 0) (ptrs sk))"
proof (rule first_index_unique [OF sk_find_first [OF assms, folded ptrs_def]])
  show "first_index (\<lambda>e. case comp sk of None \<Rightarrow> e = p | Some f \<Rightarrow> p \<noteq> None \<and> call f p e = 0) (ptrs sk)
    (case comp sk of None \<Rightarrow> find_index (\<lambda>e. e = p) (ptrs sk)
     | Some f \<Rightarrow> if p = None then None else find_index (\<lambda>e. call f p e = 0) (ptrs sk))"
    using find_index_first [of "\<lambda>e. e = p" "ptrs sk"] find_index_first [of "\<lambda>e. call (the (comp sk)) p e = 0" "ptrs sk"]
    by (cases "comp sk"; cases "p = None") (auto simp: first_index_def [of _ _ None])
qed

lemma sk_dup_contents:
  assumes "sk_ok sk" and "sk_dup (Some sk) h = (Some d, h')"
  shows "sk_ok d \<and> seq_of d = seq_of sk"
  using assms by (auto simp: sk_ok_def seq_of_def ptrs_def split: prod.splits option.splits if_splits)

lemma remove1_first:
  assumes "i < length xs" and "xs ! i = p" and "\<forall>j < i. xs ! j \<noteq> p"
  shows "remove1 p xs = take i xs @ drop (Suc i) xs"
  using assms
proof (induction xs arbitrary: i)
  case (Cons x xs)
  show ?case
  proof (cases i)
    case 0
    then show ?thesis using Cons.prems by simp
  next
    case (Suc k)
    moreover have "x \<noteq> p" using Cons.prems(3) Suc by force
    moreover have "\<forall>j < k. xs ! j \<noteq> p" using Cons.prems(3) Suc by force
    ultimately show ?thesis using Cons.IH [of k] Cons.prems by simp
  qed
qed simp

text \<open>An operation either is refused for lack of memory or does what it does to the list.\<close>

lemma sk_exec_step_not_find:
  assumes "sk_ok sk" and "qsort_ok qsort" and "comparators call" and "sk_exec call qsort x sk h = (r, sk', h')" and "\<forall>p. x \<noteq> Find p"
  shows "sk_ok sk' \<and> (r = Size 0 \<and> sk' = sk \<or> seq_exec call qsort x (seq_of sk) = (r, seq_of sk'))"
proof (cases x)
  case (Insert p w)
  obtain n s where i: "sk_insert (Some sk) p w h = (n, s, h')" "r = Size n" "sk' = the s"
    using assms(4) Insert by (auto split: prod.splits)
  show ?thesis by (rule sk_insert_ok [OF assms(1) i(1)]) (use i assms(1) Insert in \<open>auto simp: seq_of_def\<close>)
next
  case (Push p)
  obtain n s where i: "sk_insert (Some sk) p (num sk) h = (n, s, h')" "r = Size n" "sk' = the s"
    using assms(4) Push by (auto simp: sk_push_def split: prod.splits)
  show ?thesis by (rule sk_insert_ok [OF assms(1) i(1)]) (use i assms(1) Push in \<open>auto simp: seq_of_def\<close>)
next
  case (Delete w)
  then show ?thesis using assms(1,4) sk_delete_ok [OF assms(1), of w] by (cases "w < num sk") (auto simp: seq_of_def)
next
  case (Delete_ptr p)
  have f: "first_index (\<lambda>e. e = p) (ptrs sk) (linear_search (\<lambda>e. e = p) sk 0)" by (rule linear_search_first_index [OF assms(1)])
  show ?thesis
  proof (cases "linear_search (\<lambda>e. e = p) sk 0")
    case None
    then show ?thesis using f assms(1,4) Delete_ptr by (auto simp: first_index_def seq_of_def)
  next
    case (Some i)
    then have i: "i < num sk" "ptrs sk ! i = p" "\<forall>j < i. ptrs sk ! j \<noteq> p" using f assms(1) by (auto simp: first_index_def)
    then have "p \<in> set (ptrs sk)" using assms(1) by (metis length_ptrs nth_mem)
    moreover have "remove1 p (ptrs sk) = take i (ptrs sk) @ drop (Suc i) (ptrs sk)" using i assms(1) by (intro remove1_first) simp_all
    ultimately show ?thesis using sk_delete_ok [OF assms(1) i(1)] assms(4) Delete_ptr Some i(2)
      by (auto simp: seq_of_def simp del: sk_delete.simps)
  qed
next
  case Shift
  show ?thesis
  proof (cases "num sk = 0")
    case True
    then have "ptrs sk = []" by (simp add: ptrs_def)
    then show ?thesis using True assms(1,4) Shift by (auto simp: seq_of_def)
  next
    case False
    then obtain y ys where "ptrs sk = y # ys" using assms(1) by (metis length_ptrs length_0_conv neq_Nil_conv)
    then show ?thesis using sk_delete_ok [OF assms(1), of 0] False assms(4) Shift by (auto simp: seq_of_def simp del: sk_delete.simps)
  qed
next
  case Pop
  show ?thesis
  proof (cases "num sk = 0")
    case True
    then have "ptrs sk = []" by (simp add: ptrs_def)
    then show ?thesis using True assms(1,4) Pop by (auto simp: seq_of_def)
  next
    case False
    then have ne: "ptrs sk \<noteq> []" using length_ptrs [OF assms(1)] by auto
    then have "ptrs sk ! (num sk - 1) = last (ptrs sk)"
      "take (num sk - 1) (ptrs sk) @ drop (Suc (num sk - 1)) (ptrs sk) = butlast (ptrs sk)"
      using length_ptrs [OF assms(1)] False by (simp_all add: last_conv_nth butlast_conv_take)
    then show ?thesis using sk_delete_ok [OF assms(1), of "num sk - 1"] False ne assms(4) Pop by (auto simp: seq_of_def simp del: sk_delete.simps)
  qed
next
  case Zero
  then show ?thesis using assms(1,4) by (cases "num sk = 0") (auto simp: seq_of_def sk_ok_def ptrs_def)
next
  case Sort
  show ?thesis
  proof (cases "comp sk")
    case None
    then show ?thesis using assms(1,4) Sort by (auto simp: seq_of_def)
  next
    case (Some f)
    have "mset (qsort (call f) (ptrs sk)) = mset (ptrs sk)"
      using assms(2,3) by (auto simp: comparators_def comparator_def dest: qsort_okD)
    then have "length (qsort (call f) (ptrs sk)) = num sk" using assms(1) by (metis length_ptrs size_mset)
    then show ?thesis using assms(1,4) Sort Some by (auto simp: seq_of_def sk_ok_def ptrs_def Let_def)
  qed
next
  case (Set_cmp c)
  then show ?thesis using assms(1,4) by (cases "comp sk = c") (auto simp: sk_set_cmp_func_def seq_of_def Let_def sk_ok_def ptrs_def)
next
  case (Set i p)
  then show ?thesis using assms(1,4) by (cases "i < num sk") (auto simp: seq_of_def sk_ok_def ptrs_def take_update_swap)
next
  case (Value i)
  then show ?thesis using assms(1,4) nth_ptrs [OF assms(1), of i] by (cases "i < num sk") (auto simp: seq_of_def)
next
  case Dup
  then show ?thesis using assms(1,4) sk_dup_contents [OF assms(1), of h]
    by (auto simp: seq_of_def simp del: sk_dup.simps split: prod.splits option.splits)
qed (use assms in \<open>auto simp: seq_of_def\<close>)

text \<open>What a search returns depends on the order of a stack that is flagged as sorted.\<close>

lemma sk_exec_step:
  assumes "sk_ok sk" and "qsort_ok qsort" and "comparators call" and e: "sk_exec call qsort x sk h = (r, sk', h')"
  shows "sk_ok sk' \<and> (r = Size 0 \<and> sk' = sk \<or>
    (\<exists>r'. seq_exec call qsort x (seq_of sk) = (r', seq_of sk') \<and> (sorted_ok call (seq_of sk) \<longrightarrow> r' = r)))"
proof (cases "\<exists>p. x = Find p")
  case True
  then obtain p where "x = Find p" ..
  moreover have "sk' = sk" "r = Found (sk_find call (Some sk) p)" using e \<open>x = Find p\<close> by auto
  ultimately show ?thesis using assms(1) sk_find_index [OF assms(1) _ assms(3), of p] by (auto simp: seq_of_def simp del: sk_find.simps)
qed (use sk_exec_step_not_find [OF assms] in blast)


text \<open>With memory the operation is not refused.\<close>

lemma sk_insert_total:
  assumes "sk_ok sk" and "num sk + 1 < 2 ^ 59"
  shows "\<exists>s. sk_insert (Some sk) p w [] = (num sk + 1, Some s, [])"
proof (cases "num_alloc sk \<le> sz_add (num sk) 1")
  case False
  then show ?thesis by (simp add: Let_def sk_store_def)
next
  case True
  have n: "sz_add (num sk) 1 = num sk + 1" using assms(2) by (intro sz_add_exact) (simp add: size_mod_def)
  then have alloc: "num_alloc sk < 2 ^ 59" using True assms(2) by simp
  have g: "sz_mul (num_alloc sk) 2 = num_alloc sk * 2" using alloc by (intro sz_mul_exact) (simp add: size_mod_def)
  have "sz_mul (num_alloc sk * 2) sizeof_ptr = num_alloc sk * 2 * sizeof_ptr"
    using alloc by (intro sz_mul_exact) (simp add: size_mod_def sizeof_ptr_def)
  then have "sz_mul (num_alloc sk * 2) sizeof_ptr div sizeof_ptr = num_alloc sk * 2" by (simp add: sizeof_ptr_def)
  then have "\<exists>s. sk_grow sk [] = (Some s, []) \<and> num s = num sk" by (simp add: sk_grow_def g Let_def)
  then show ?thesis using True by (auto simp: Let_def sk_store_def)
qed

lemma seq_exec_length:
  assumes "qsort_ok qsort" and "comparators call" and "seq_exec call qsort x (xs, c, b) = (r, ys, c', b')"
  shows "length ys \<le> length xs + 1"
proof (cases x)
  case Sort
  have "length (qsort (call f) xs) = length xs" for f
  proof -
    have "mset (qsort (call f) xs) = mset xs"
      using assms(1,2) by (auto simp: comparators_def comparator_def dest: qsort_okD)
    then show ?thesis by (metis size_mset)
  qed
  then show ?thesis using assms(3) Sort by (auto split: option.splits if_splits)
qed (use assms(3) in \<open>auto simp: length_remove1 split: if_splits list.splits\<close>)

lemma sk_exec_total:
  assumes "sk_ok sk" and "qsort_ok qsort" and "comparators call" and "num sk + 1 < 2 ^ 59"
    and e: "sk_exec call qsort x sk [] = (r, sk', h')" and "sorted_ok call (seq_of sk)"
  shows "h' = [] \<and> sk_ok sk' \<and> seq_exec call qsort x (seq_of sk) = (r, seq_of sk')"
proof -
  have "r \<noteq> Size 0 \<and> h' = []"
  proof (cases x)
    case (Insert p w)
    then show ?thesis using e sk_insert_total [OF assms(1,4), of p w] by (auto simp del: sk_insert.simps)
  next
    case (Push p)
    then show ?thesis using e sk_insert_total [OF assms(1,4), of p "num sk"] by (auto simp: sk_push_def simp del: sk_insert.simps)
  next
    case Dup
    then show ?thesis using e by (auto simp: sk_new_def)
  qed (use e in \<open>auto simp del: sk_delete.simps sk_delete_ptr.simps sk_shift.simps sk_pop.simps sk_set.simps split: prod.splits\<close>)
  then show ?thesis using sk_exec_step [OF assms(1,2,3) e] assms(6) by auto
qed

text \<open>The order that the flag promises.\<close>

lemma sorted_wrt_remove1: "sorted_wrt P xs \<Longrightarrow> sorted_wrt P (remove1 p xs)"
  by (induction xs) (auto dest: notin_set_remove1)

lemma sorted_wrt_delete:
  assumes "sorted_wrt P xs"
  shows "sorted_wrt P (take w xs @ drop (Suc w) xs)"
proof -
  have "sorted_wrt P (take w xs @ drop w xs)" unfolding append_take_drop_id by (rule assms)
  moreover have "set (drop (Suc w) xs) \<subseteq> set (drop w xs)" by (rule set_drop_subset_set_drop) simp
  moreover have "sorted_wrt P (drop (Suc w) xs)" by (rule sorted_wrt_drop [OF assms])
  ultimately show ?thesis unfolding sorted_wrt_append by blast
qed

lemma seq_exec_sorted:
  assumes "qsort_ok qsort" and "comparators call" and "sorted_ok call s" and "seq_exec call qsort x s = (r, s')"
    and "\<forall>i p. x \<noteq> Set i p"
  shows "sorted_ok call s'"
proof -
  obtain xs c b where s: "s = (xs, c, b)" by (cases s)
  have q: "sorted_wrt (\<lambda>x y. call f x y \<le> 0) (qsort (call f) xs)" for f
    using assms(1,2) by (auto simp: comparators_def comparator_def dest: qsort_okD)
  have short: "sorted_wrt P xs" if "\<not> 2 \<le> length xs" for P
    using that by (cases xs; cases "tl xs") auto
  show ?thesis
    using assms(3,4,5) q short unfolding s sorted_ok_def
    by (cases x) (auto simp: sorted_wrt_remove1 sorted_wrt_delete butlast_conv_take sorted_wrt_take
      split: if_splits option.splits list.splits)
qed

text \<open>
  The invariant of a stack and what it means for a whole script. \<open>sk_set\<close> writes to the array and
  leaves the flag alone: a script is orderly if whenever it does so the stack is still sorted or
  not flagged.
\<close>

definition stack_inv :: "(nat \<Rightarrow> 'p option \<Rightarrow> 'p option \<Rightarrow> int) \<Rightarrow> 'p stack \<Rightarrow> bool" where
  "stack_inv call sk \<longleftrightarrow> sk_ok sk \<and> sorted_ok call (seq_of sk)"

fun sk_orderly :: "(nat \<Rightarrow> 'p option \<Rightarrow> 'p option \<Rightarrow> int) \<Rightarrow>
    (('p option \<Rightarrow> 'p option \<Rightarrow> int) \<Rightarrow> 'p option list \<Rightarrow> 'p option list) \<Rightarrow>
    'p sk_op list \<Rightarrow> 'p stack \<Rightarrow> heap \<Rightarrow> bool" where
  "sk_orderly call qsort [] sk h = True"
| "sk_orderly call qsort (x # xs) sk h =
     (case sk_exec call qsort x sk h of (r, sk, h) \<Rightarrow>
       (case x of Set i p \<Rightarrow> sorted_ok call (seq_of sk) | _ \<Rightarrow> True) \<and> sk_orderly call qsort xs sk h)"

lemma orderly_without_set:
  "\<forall>i p. Set i p \<notin> set xs \<Longrightarrow> sk_orderly call qsort xs sk h"
  by (induction xs arbitrary: sk h) (auto split: prod.splits sk_op.splits)

lemma sk_run_array:
  assumes "sk_ok sk" and "qsort_ok qsort" and "comparators call" and "sk_run call qsort xs sk h = (rs, sk', h')"
  shows "sk_ok sk'"
  using assms
proof (induction xs arbitrary: sk h rs)
  case (Cons x xs)
  obtain r sk1 h1 where e: "sk_exec call qsort x sk h = (r, sk1, h1)" by (cases "sk_exec call qsort x sk h")
  obtain rs' where "sk_run call qsort xs sk1 h1 = (rs', sk', h')"
    using Cons.prems(4) e by (auto split: prod.splits)
  then show ?case using Cons.IH sk_exec_step [OF Cons.prems(1-3) e] assms(2,3) by blast
qed simp

lemma sk_exec_inv:
  assumes "stack_inv call sk" and "qsort_ok qsort" and "comparators call" and e: "sk_exec call qsort x sk h = (r, sk', h')"
    and "sk_orderly call qsort (x # xs) sk h"
  shows "stack_inv call sk' \<and> sk_orderly call qsort xs sk' h'"
proof -
  have ok: "sk_ok sk" "sorted_ok call (seq_of sk)" using assms(1) by (simp_all add: stack_inv_def)
  have orderly: "sk_orderly call qsort xs sk' h'" "case x of Set i p \<Rightarrow> sorted_ok call (seq_of sk') | _ \<Rightarrow> True"
    using assms(5) e by simp_all
  have "sorted_ok call (seq_of sk')"
  proof (cases "\<exists>i p. x = Set i p")
    case True
    then show ?thesis using orderly(2) by auto
  next
    case False
    then show ?thesis
      using sk_exec_step [OF ok(1) assms(2,3) e] ok(2) seq_exec_sorted [OF assms(2,3) ok(2)] by metis
  qed
  then show ?thesis using sk_exec_step [OF ok(1) assms(2,3) e] orderly(1) by (simp add: stack_inv_def)
qed

lemma sk_run_inv:
  assumes "stack_inv call sk" and "qsort_ok qsort" and "comparators call" and "sk_run call qsort xs sk h = (rs, sk', h')"
    and "sk_orderly call qsort xs sk h"
  shows "stack_inv call sk'"
  using assms
proof (induction xs arbitrary: sk h rs)
  case (Cons x xs)
  obtain r sk1 h1 where e: "sk_exec call qsort x sk h = (r, sk1, h1)" by (cases "sk_exec call qsort x sk h")
  obtain rs' where "sk_run call qsort xs sk1 h1 = (rs', sk', h')"
    using Cons.prems(4) e by (auto split: prod.splits)
  then show ?case using Cons.IH sk_exec_inv [OF Cons.prems(1-3) e Cons.prems(5)] assms(2,3) by blast
qed simp

lemma sk_run_refines:
  assumes "stack_inv call sk" and "qsort_ok qsort" and "comparators call" and "num sk + length xs < 2 ^ 59"
    and "sk_run call qsort xs sk [] = (rs, sk', h')" and "sk_orderly call qsort xs sk []"
  shows "sk_ok sk' \<and> seq_run call qsort xs (seq_of sk) = (rs, seq_of sk')"
  using assms
proof (induction xs arbitrary: sk rs)
  case (Cons x xs)
  have ok: "sk_ok sk" "sorted_ok call (seq_of sk)" using Cons.prems(1) by (simp_all add: stack_inv_def)
  obtain r sk1 h1 where e: "sk_exec call qsort x sk [] = (r, sk1, h1)" by (cases "sk_exec call qsort x sk []")
  have 1: "h1 = [] \<and> sk_ok sk1 \<and> seq_exec call qsort x (seq_of sk) = (r, seq_of sk1)"
    using sk_exec_total [OF ok(1) Cons.prems(2,3) _ e ok(2)] Cons.prems(4) by simp
  have inv: "stack_inv call sk1" "sk_orderly call qsort xs sk1 []"
    using sk_exec_inv [OF Cons.prems(1-3) e Cons.prems(6)] 1 by simp_all
  have "num sk1 \<le> num sk + 1"
    using seq_exec_length [OF assms(2,3), of x "ptrs sk" "comp sk" "sorted_flag sk" r "ptrs sk1"] 1 ok(1)
    by (simp add: seq_of_def)
  then have n: "num sk1 + length xs < 2 ^ 59" using Cons.prems(4) by simp
  obtain rs' where "sk_run call qsort xs sk1 [] = (rs', sk', h')" "rs = r # rs'"
    using Cons.prems(5) e 1 by (auto split: prod.splits)
  with Cons.IH [OF inv(1) Cons.prems(2,3) n this(1) inv(2)] 1 show ?case by simp
qed (simp add: stack_inv_def)


section \<open>Deep copies\<close>

definition non_null :: "'p option list \<Rightarrow> 'p list" where
  "non_null es = concat (map (\<lambda>e. case e of None \<Rightarrow> [] | Some p \<Rightarrow> [p]) es)"

lemma non_null_nth: "n \<le> length es \<Longrightarrow> concat (map (\<lambda>i. case es ! i of None \<Rightarrow> [] | Some p \<Rightarrow> [p]) [0..<n]) = non_null (take n es)"
proof (induction n)
  case (Suc n)
  then show ?case by (simp add: non_null_def take_Suc_conv_app_nth)
qed (simp add: non_null_def)

definition copied :: "('p \<Rightarrow> 'p option) \<Rightarrow> 'p option list \<Rightarrow> 'p option list" where
  "copied f es = map (\<lambda>e. case e of None \<Rightarrow> None | Some p \<Rightarrow> f p) es"

lemma sk_dup_total: "fst (sk_dup (Some sk) h) \<noteq> None \<longleftrightarrow> True \<notin> set (take 3 h)"
  by (cases h rule: alloc_next.cases; cases "tl h"; cases "tl (tl h)") (auto simp: sk_new_def)

lemma deep_copy_loop_result:
  assumes "i \<le> num ret" and "num ret \<le> length (sk_data ret)" and "length es = num ret"
    and "take (num ret) (sk_data ret) = copied f (take i es) @ drop i es" and "\<forall>p. Some p \<in> set (take i es) \<longrightarrow> f p \<noteq> None"
  shows "case deep_copy_loop f ret i of
      Inr ret' \<Rightarrow> num ret' = num ret \<and> length (sk_data ret') = length (sk_data ret) \<and> num_alloc ret' = num_alloc ret \<and>
        take (num ret) (sk_data ret') = copied f es \<and> (\<forall>p. Some p \<in> set es \<longrightarrow> f p \<noteq> None)
    | Inl freed \<Rightarrow> \<exists>j p. j < length es \<and> es ! j = Some p \<and> f p = None \<and> (\<forall>q. Some q \<in> set (take j es) \<longrightarrow> f q \<noteq> None) \<and> freed = non_null (copied f (take j es))"
  using assms
proof (induction f ret i rule: deep_copy_loop.induct)
  case (1 f ret i)
  show ?case
  proof (cases "i < num ret")
    case False
    then show ?thesis using "1.prems" by (subst deep_copy_loop.simps) simp
  next
    case True
    have len: "length (copied f (take i es)) = i" using True "1.prems"(3) by (simp add: copied_def)
    have "sk_data ret ! i = take (num ret) (sk_data ret) ! i" using True by simp
    also have "\<dots> = es ! i" unfolding "1.prems"(4) using len True "1.prems"(3) by (simp add: nth_append)
    finally have ei: "sk_data ret ! i = es ! i" .
    have snoc: "take (Suc i) es = take i es @ [es ! i]" "drop i es = es ! i # drop (Suc i) es"
      using True "1.prems"(3) by (simp_all add: take_Suc_conv_app_nth Cons_nth_drop_Suc)
    show ?thesis
    proof (cases "es ! i")
      case None
      then have "deep_copy_loop f ret i = deep_copy_loop f ret (i + 1)" using True ei by (subst deep_copy_loop.simps) simp
      moreover have "take (num ret) (sk_data ret) = copied f (take (i + 1) es) @ drop (i + 1) es"
        using "1.prems"(4) None by (simp add: snoc copied_def)
      ultimately show ?thesis using "1.IH"(1) [OF True] "1.prems" True None ei by (auto simp: snoc)
    next
      case (Some p)
      show ?thesis
      proof (cases "f p")
        case None
        have "deep_copy_loop f ret i = Inl (concat (map (\<lambda>j. case sk_data ret ! j of None \<Rightarrow> [] | Some q \<Rightarrow> [q]) [0..<i]))"
          using True ei Some None by (subst deep_copy_loop.simps) simp
        also have "concat (map (\<lambda>j. case sk_data ret ! j of None \<Rightarrow> [] | Some q \<Rightarrow> [q]) [0..<i]) = non_null (take i (sk_data ret))"
          using True "1.prems"(2) by (intro non_null_nth) simp
        also have "take i (sk_data ret) = take i (take (num ret) (sk_data ret))" using True by (simp add: min_def)
        also have "\<dots> = copied f (take i es)" unfolding "1.prems"(4) using len by simp
        finally show ?thesis using Some None True "1.prems"(3,5) by auto
      next
        case (Some q)
        let ?r = "ret\<lparr>sk_data := (sk_data ret)[i := Some q]\<rparr>"
        have "deep_copy_loop f ret i = deep_copy_loop f ?r (i + 1)"
          using True ei \<open>es ! i = Some p\<close> Some by (subst deep_copy_loop.simps) simp
        moreover have "take (num ?r) (sk_data ?r) = copied f (take (i + 1) es) @ drop (i + 1) es"
          using "1.prems"(4) \<open>es ! i = Some p\<close> Some len by (simp add: take_update_swap snoc list_update_append) (simp add: copied_def)
        ultimately show ?thesis using "1.IH"(2) [OF True _ Some] "1.prems" True ei \<open>es ! i = Some p\<close> Some by (auto simp: snoc split: sum.splits)
      qed
    qed
  qed
qed

section \<open>Properties\<close>

text \<open>
  C20: with memory, any script of operations on a stack, searches and overwriting of elements
  included, does to its contents, comparison function and flag, and returns, what the list
  operations do; it never runs out of the array. \<open>sk_set\<close> is used in an orderly way: on a stack
  flagged as sorted it keeps the order. Without that \<open>sk_find\<close> misses elements, see
  \<open>sk_set_breaks_order\<close>.
\<close>

theorem stack_refines_list:
  assumes "sk_new c h0 = (Some sk, h)" and "qsort_ok qsort" and "comparators call" and "length xs < 2 ^ 59"
    and "sk_orderly call qsort xs sk []" and "sk_run call qsort xs sk [] = (rs, sk', h')"
  shows "seq_run call qsort xs ([], c, False) = (rs, seq_of sk') \<and> num sk' < num_alloc sk' \<and> length (sk_data sk') = num_alloc sk'"
proof -
  have "sk_ok sk \<and> seq_of sk = ([], c, False)" using sk_new_ok [OF assms(1)] by (simp add: seq_of_def)
  moreover have "num sk = 0" using assms(1) by (auto simp: sk_new_def split: prod.splits if_splits)
  ultimately show ?thesis using sk_run_refines [OF _ assms(2,3) _ assms(6,5)] assms(4)
    by (simp add: sk_ok_def stack_inv_def sorted_ok_def)
qed

text \<open>
  C21: whatever the allocator does, no script of operations breaks the array, which has
  \<open>num_alloc\<close> slots, more than are in use; and if \<open>sk_set\<close> is used in an orderly way, a stack
  flagged as sorted is sorted.
\<close>

theorem stack_invariant:
  assumes "sk_new c h0 = (Some sk, h)" and "qsort_ok qsort" and "comparators call"
    and "sk_run call qsort xs sk h1 = (rs, sk', h')"
  shows "num sk' < num_alloc sk' \<and> length (sk_data sk') = num_alloc sk' \<and>
    (sk_orderly call qsort xs sk h1 \<longrightarrow>
      (\<forall>f. sorted_flag sk' \<longrightarrow> comp sk' = Some f \<longrightarrow> sorted_wrt (\<lambda>x y. call f x y \<le> 0) (take (num sk') (sk_data sk'))))"
proof -
  have "stack_inv call sk" using sk_new_ok [OF assms(1)] by (simp add: stack_inv_def seq_of_def sorted_ok_def)
  with sk_run_inv [OF this assms(2,3,4)] sk_run_array [OF _ assms(2,3,4)] show ?thesis
    by (auto simp: stack_inv_def sk_ok_def seq_of_def sorted_ok_def ptrs_def)
qed

text \<open>C22: on a sorted stack the binary search and the linear search agree.\<close>

theorem binary_search_is_linear:
  assumes "sk_ok sk" and "comparator cmp" and "sorted_wrt (\<lambda>a b. cmp a b \<le> 0) (take (num sk) (sk_data sk))"
  shows "binary_search cmp sk p 0 (num sk) = linear_search (\<lambda>e. cmp p e = 0) sk 0"
  by (rule first_index_unique [OF binary_search_first linear_search_first_index]) (use assms in \<open>simp_all add: ptrs_def\<close>)

text \<open>
  C23: \<open>sk_deep_copy\<close> fails for lack of memory if one of its three requests is refused, with
  nothing copied and nothing to free. Otherwise it returns a stack of the copies, null pointers
  staying null; or, when the copy of an element fails, nothing, and then it has freed exactly the
  copies made before that element, which succeeded.
\<close>

theorem sk_deep_copy_result:
  assumes "sk_ok sk" and "sk_deep_copy copy_func (Some sk) h = (freed, r)"
  shows "if True \<in> set (take 3 h) then freed = [] \<and> r = None
    else case r of
      Some ret \<Rightarrow> freed = [] \<and> sk_ok ret \<and> take (num ret) (sk_data ret) = copied copy_func (take (num sk) (sk_data sk)) \<and>
        (\<forall>p. Some p \<in> set (take (num sk) (sk_data sk)) \<longrightarrow> copy_func p \<noteq> None)
    | None \<Rightarrow> \<exists>i p. i < num sk \<and> sk_data sk ! i = Some p \<and> copy_func p = None \<and>
        (\<forall>q. Some q \<in> set (take i (sk_data sk)) \<longrightarrow> copy_func q \<noteq> None) \<and>
        freed = non_null (copied copy_func (take i (sk_data sk)))"
proof (cases "sk_dup (Some sk) h")
  case (Pair d h')
  show ?thesis
  proof (cases d)
    case None
    then have "True \<in> set (take 3 h)" "freed = []" "r = None"
      using assms(2) Pair sk_dup_total [of sk h] by (simp_all add: sk_deep_copy_def del: sk_dup.simps)
    then show ?thesis by simp
  next
    case (Some ret)
    have ret: "num ret = num sk" "sk_data ret = ptrs sk @ replicate (num_alloc sk - num sk) None" "num_alloc ret = num_alloc sk"
      using Pair Some by (auto simp: ptrs_def split: prod.splits option.splits if_splits)
    have len: "length (ptrs sk) = num sk" using assms(1) by simp
    have mem: "True \<notin> set (take 3 h)" using Pair Some sk_dup_total [of sk h] by (simp del: sk_dup.simps)
    have loop: "case deep_copy_loop copy_func ret 0 of
        Inr ret' \<Rightarrow> num ret' = num ret \<and> length (sk_data ret') = length (sk_data ret) \<and> num_alloc ret' = num_alloc ret \<and>
          take (num ret) (sk_data ret') = copied copy_func (ptrs sk) \<and> (\<forall>p. Some p \<in> set (ptrs sk) \<longrightarrow> copy_func p \<noteq> None)
      | Inl freed \<Rightarrow> \<exists>j p. j < length (ptrs sk) \<and> ptrs sk ! j = Some p \<and> copy_func p = None \<and>
          (\<forall>q. Some q \<in> set (take j (ptrs sk)) \<longrightarrow> copy_func q \<noteq> None) \<and> freed = non_null (copied copy_func (take j (ptrs sk)))"
      by (rule deep_copy_loop_result) (simp_all add: ret len copied_def)
    show ?thesis
    proof (cases "deep_copy_loop copy_func ret 0")
      case (Inl fr)
      then have r: "freed = fr" "r = None" using assms(2) Pair Some by (simp_all add: sk_deep_copy_def del: sk_dup.simps)
      obtain j p where j: "j < num sk" "ptrs sk ! j = Some p" "copy_func p = None"
        "\<forall>q. Some q \<in> set (take j (ptrs sk)) \<longrightarrow> copy_func q \<noteq> None" "fr = non_null (copied copy_func (take j (ptrs sk)))"
        using loop [unfolded Inl sum.case len] by blast
      moreover have "take j (ptrs sk) = take j (sk_data sk)" using j(1) by (simp add: ptrs_def min_def)
      moreover have "sk_data sk ! j = Some p" using j(1,2) nth_ptrs [OF assms(1)] by simp
      ultimately show ?thesis using mem unfolding r option.case by (metis (no_types, lifting))
    next
      case (Inr ret')
      then have "freed = []" "r = Some ret'" using assms(2) Pair Some by (simp_all add: sk_deep_copy_def del: sk_dup.simps)
      then show ?thesis using mem loop [unfolded Inr sum.case] assms(1) len
        by (auto simp: ret sk_ok_def simp flip: ptrs_def)
    qed
  qed
qed

section \<open>Witnesses\<close>

text \<open>Numbers compared by value, the null pointer first.\<close>

fun by_value :: "nat \<Rightarrow> nat option \<Rightarrow> nat option \<Rightarrow> int" where
  "by_value f a b = (case a of None \<Rightarrow> - 1 | Some x \<Rightarrow> int x) - (case b of None \<Rightarrow> - 1 | Some y \<Rightarrow> int y)"

lemma by_value_comparators: "comparators by_value"
  by (auto simp: comparators_def comparator_def total_preorder_def sgn_if split: option.splits)

definition numbers :: "nat list \<Rightarrow> nat stack" where
  "numbers xs = \<lparr>num = length xs, sk_data = map Some xs @ [None], sorted_flag = False, num_alloc = length xs + 1, comp = Some 1\<rparr>"

definition three_sorted :: "nat stack" where
  "three_sorted = the (sk_sort by_value insertion_sort (Some (numbers [7, 3, 7])))"

lemma three_sorted_eq:
  "three_sorted = \<lparr>num = 3, sk_data = [Some 3, Some 7, Some 7, None], sorted_flag = True, num_alloc = 4, comp = Some 1\<rparr>"
  by (simp add: three_sorted_def numbers_def)

text \<open>
  C24: \<open>sk_set\<close> leaves the sorted flag alone. On a sorted stack of three elements or more, store an
  element above all others in the first place: \<open>sk_find\<close> still searches by bisection and misses
  the element, which is in the stack, and \<open>sk_sort\<close> does nothing about it.
\<close>

theorem sk_set_breaks_order:
  assumes "sk_ok sk" and "sorted_flag sk" and "comp sk = Some f" and "3 \<le> num sk"
    and "\<forall>i. 0 < i \<longrightarrow> i < num sk \<longrightarrow> call f (Some p) (sk_data sk ! i) > 0"
  shows "\<exists>sk'. sk_set (Some sk) 0 (Some p) = (Some p, Some sk') \<and> sk_is_sorted (Some sk') \<and> sk_value (Some sk') 0 = Some p \<and>
    sk_find call (Some sk') (Some p) = None \<and> sk_sort call qsort (Some sk') = Some sk'"
proof -
  let ?sk = "sk\<lparr>sk_data := (sk_data sk)[0 := Some p]\<rparr>"
  have "binary_search (call f) ?sk (Some p) 0 (num sk) = binary_search (call f) ?sk (Some p) (0 + (num sk - 0 - 1) div 2 + 1) (num sk)"
    using assms(4,5) by (subst binary_search.simps) (simp add: Let_def)
  also have "\<dots> = None" using assms(5) by (intro binary_search_above) simp_all
  finally show ?thesis using assms(1-4) by (auto simp: sk_ok_def)
qed

theorem sk_set_breaks_order_witness:
  "\<exists>sk'. sk_set (Some three_sorted) 0 (Some 9) = (Some 9, Some sk') \<and> sk_is_sorted (Some sk') \<and> sk_value (Some sk') 0 = Some 9 \<and>
    sk_find by_value (Some sk') (Some 9) = None \<and> sk_sort by_value insertion_sort (Some sk') = Some sk'"
  by (rule sk_set_breaks_order [where f = 1])
    (simp_all add: three_sorted_eq sk_ok_def sizeof_ptr_def size_mod_def less_Suc_eq numeral_3_eq_3 nth_Cons split: nat.splits)

definition sample_ops :: "nat sk_op list" where
  "sample_ops = [Push (Some 5), Push (Some 2), Insert (Some 9) 0, Set 1 (Some 7), Sort, Set 1 (Some 8), Find (Some 8), Dup, Pop, Delete_ptr (Some 2)]"

lemma sample_orderly:
  assumes "sk_new (Some 1) [] = (Some sk, [])"
  shows "sk_orderly by_value insertion_sort sample_ops sk []"
proof -
  have "replicate 4 None = [None, None, None, None :: nat option]" by (simp add: numeral_eq_Suc)
  moreover have "sk = \<lparr>num = 0, sk_data = replicate kMinSize None, sorted_flag = False, num_alloc = kMinSize, comp = Some 1\<rparr>"
    using assms by (simp add: sk_new_def)
  ultimately show ?thesis
    by (simp add: sample_ops_def kMinSize_def sk_push_def sk_store_def sz_add_def size_mod_def sorted_ok_def seq_of_def ptrs_def
        sk_grow_def sz_mul_def sizeof_ptr_def Let_def)
qed

theorem stack_refines_list_witness:
  "\<exists>sk rs sk' h'. sk_new (Some 1) [] = (Some sk, []) \<and> sk_run by_value insertion_sort sample_ops sk [] = (rs, sk', h') \<and>
     rs ! 6 = Found (Some 1) \<and> ptrs sk' = [Some 8]"
proof -
  obtain sk where n: "sk_new (Some 1) [] = (Some sk :: nat stack option, [])" by (simp add: sk_new_def)
  obtain rs sk' h' where r: "sk_run by_value insertion_sort sample_ops sk [] = (rs, sk', h')"
    by (cases "sk_run by_value insertion_sort sample_ops sk []")
  from stack_refines_list [OF n insertion_sort_ok by_value_comparators _ sample_orderly [OF n] r]
  have "seq_run by_value insertion_sort sample_ops ([], Some 1, False) = (rs, seq_of sk')" by (simp add: sample_ops_def)
  then have "rs ! 6 = Found (Some 1)" "ptrs sk' = [Some 8]" by (auto simp: sample_ops_def seq_of_def)
  then show ?thesis using n r by blast
qed

theorem stack_invariant_witness:
  "\<exists>sk rs sk' h'. sk_new (Some 1) [] = (Some sk, []) \<and> sk_run by_value insertion_sort sample_ops sk [False, True] = (rs, sk', h') \<and>
     num sk' < num_alloc sk'"
proof -
  obtain sk where n: "sk_new (Some 1) [] = (Some sk :: nat stack option, [])" by (simp add: sk_new_def)
  obtain rs sk' h' where r: "sk_run by_value insertion_sort sample_ops sk [False, True] = (rs, sk', h')"
    by (cases "sk_run by_value insertion_sort sample_ops sk [False, True]")
  from stack_invariant [OF n insertion_sort_ok by_value_comparators r] n r show ?thesis by blast
qed

theorem sk_find_first_witness:
  "sk_find by_value (Some three_sorted) (Some 7) = Some 1 \<and>
   first_index (\<lambda>e. case comp three_sorted of None \<Rightarrow> e = Some 7 | Some f \<Rightarrow> Some 7 \<noteq> (None :: nat option) \<and> by_value f (Some 7) e = 0)
     (take (num three_sorted) (sk_data three_sorted)) (Some 1)"
proof -
  have "sk_find by_value (Some three_sorted) (Some 7) = Some 1" by (simp add: three_sorted_eq binary_search.simps)
  moreover have "sk_ok three_sorted" "sorted_ok by_value (seq_of three_sorted)"
    by (simp_all add: three_sorted_eq sk_ok_def seq_of_def sorted_ok_def ptrs_def sizeof_ptr_def size_mod_def)
  ultimately show ?thesis using sk_find_first [of three_sorted by_value "Some 7", OF _ _ by_value_comparators] by simp
qed

theorem binary_search_is_linear_witness:
  "binary_search (by_value 1) three_sorted (Some 7) 0 (num three_sorted) = linear_search (\<lambda>e. by_value 1 (Some 7) e = 0) three_sorted 0"
proof -
  have "comparator (by_value 1)" using by_value_comparators by (simp add: comparators_def)
  moreover have "sk_ok three_sorted" by (simp add: three_sorted_eq sk_ok_def sizeof_ptr_def size_mod_def)
  ultimately show ?thesis using binary_search_is_linear [of three_sorted "by_value 1" "Some 7"] by (simp add: three_sorted_eq)
qed


theorem sk_deep_copy_result_witness:
  "\<exists>freed. sk_deep_copy (\<lambda>x. if x = 3 then None else Some (x + 1)) (Some (numbers [7, 8, 3])) [] = (freed, None) \<and> freed = [8, 9]"
proof -
  have ok: "sk_ok (numbers [7, 8, 3])" by (simp add: numbers_def sk_ok_def sizeof_ptr_def size_mod_def)
  have e: "sk_deep_copy (\<lambda>x. if x = 3 then None else Some (x + 1)) (Some (numbers [7, 8, 3])) [] = ([8, 9], None)"
    by (simp add: sk_deep_copy_def numbers_def sk_new_def deep_copy_loop.simps)
  show ?thesis using sk_deep_copy_result [OF ok e] e by simp
qed

end
