(* ===== verification/LHash.thy ===== *)
theory LHash
  imports Stack
begin

text \<open>
  The hash table of \<open>crypto/lhash/lhash.c\<close>: an array of chains that grows and shrinks with the
  number of items. A chain is the list of its items in order. The hash and comparison functions
  are named by their addresses and applied by \<open>call_hash_func\<close> and \<open>call_cmp_func\<close>, as in the
  code.
\<close>

section \<open>State\<close>

record 'd lhash_item =
  item_data :: 'd
  item_hash :: uint32

record 'd lhash =
  num_items :: nat
  buckets :: "'d lhash_item list list"
  num_buckets :: nat
  callback_depth :: uint32
  lh_comp :: nat
  lh_hash :: nat

definition kMinNumBuckets :: nat where "kMinNumBuckets = 16"
definition kMaxAverageChainLength :: nat where "kMaxAverageChainLength = 2"
definition kMinAverageChainLength :: nat where "kMinAverageChainLength = 1"

section \<open>Operations\<close>

definition lh_new :: "nat \<Rightarrow> nat \<Rightarrow> heap \<Rightarrow> 'd lhash option \<times> heap" where
  "lh_new hash cmp h =
     (case alloc_next h of (ok, h) \<Rightarrow>
       if \<not> ok then (None, h)
       else (case alloc_next h of (ok, h) \<Rightarrow>
         if \<not> ok then (None, h)
         else (Some \<lparr>num_items = 0, buckets = replicate kMinNumBuckets [], num_buckets = kMinNumBuckets,
                callback_depth = 0, lh_comp = cmp, lh_hash = hash\<rparr>, h)))"

definition lh_num_items :: "'d lhash \<Rightarrow> nat" where
  "lh_num_items lh = num_items lh"

text \<open>
  A pointer to a \<open>next\<close> field, or to the head of a bucket, is the place it has in a chain: the
  number of items before it.
\<close>

fun chain_pos :: "('d lhash_item \<Rightarrow> bool) \<Rightarrow> 'd lhash_item list \<Rightarrow> nat" where
  "chain_pos P [] = 0"
| "chain_pos P (cur # rest) = (if P cur then 0 else Suc (chain_pos P rest))"

definition get_next_ptr_and_hash ::
  "(nat \<Rightarrow> 'd \<Rightarrow> uint32) \<Rightarrow> (nat \<Rightarrow> 'd \<Rightarrow> 'd \<Rightarrow> int) \<Rightarrow> 'd lhash \<Rightarrow> 'd \<Rightarrow> (nat \<times> nat) \<times> uint32" where
  "get_next_ptr_and_hash call_hash_func call_cmp_func lh data =
     (let hash = call_hash_func (lh_hash lh) data;
          b = unat hash mod num_buckets lh
      in ((b, chain_pos (\<lambda>cur. call_cmp_func (lh_comp lh) (item_data cur) data = 0) (buckets lh ! b)), hash))"

definition get_next_ptr_by_key :: "('k \<Rightarrow> 'd \<Rightarrow> int) \<Rightarrow> 'd lhash \<Rightarrow> 'k \<Rightarrow> uint32 \<Rightarrow> nat \<times> nat" where
  "get_next_ptr_by_key cmp_key lh key key_hash =
     (let b = unat key_hash mod num_buckets lh
      in (b, chain_pos (\<lambda>cur. cmp_key key (item_data cur) = 0) (buckets lh ! b)))"

text \<open>The item a place points to, or \<open>None\<close> at the end of a chain.\<close>

definition at_ptr :: "'d lhash \<Rightarrow> nat \<times> nat \<Rightarrow> 'd lhash_item option" where
  "at_ptr lh p = (case p of (b, k) \<Rightarrow> if k < length (buckets lh ! b) then Some (buckets lh ! b ! k) else None)"

definition lh_retrieve ::
  "(nat \<Rightarrow> 'd \<Rightarrow> uint32) \<Rightarrow> (nat \<Rightarrow> 'd \<Rightarrow> 'd \<Rightarrow> int) \<Rightarrow> 'd lhash \<Rightarrow> 'd \<Rightarrow> 'd option" where
  "lh_retrieve call_hash_func call_cmp_func lh data =
     (case get_next_ptr_and_hash call_hash_func call_cmp_func lh data of (next_ptr, _) \<Rightarrow>
       map_option item_data (at_ptr lh next_ptr))"

definition lh_retrieve_key :: "('k \<Rightarrow> 'd \<Rightarrow> int) \<Rightarrow> 'd lhash \<Rightarrow> 'k \<Rightarrow> uint32 \<Rightarrow> 'd option" where
  "lh_retrieve_key cmp_key lh key key_hash = map_option item_data (at_ptr lh (get_next_ptr_by_key cmp_key lh key key_hash))"

text \<open>One item is moved to the front of its new chain.\<close>

definition move_item :: "nat \<Rightarrow> 'd lhash_item \<Rightarrow> 'd lhash_item list list \<Rightarrow> 'd lhash_item list list" where
  "move_item new_num_buckets cur new_buckets =
     (let new_bucket = unat (item_hash cur) mod new_num_buckets
      in new_buckets[new_bucket := cur # new_buckets ! new_bucket])"

definition lh_rebucket :: "'d lhash \<Rightarrow> nat \<Rightarrow> heap \<Rightarrow> 'd lhash \<times> heap" where
  "lh_rebucket lh new_num_buckets h =
     (let alloc_size = sz_mul sizeof_ptr new_num_buckets in
      if alloc_size div sizeof_ptr \<noteq> new_num_buckets then (lh, h)
      else (case alloc_next h of (ok, h) \<Rightarrow>
        if \<not> ok then (lh, h)
        else (lh\<lparr>num_buckets := new_num_buckets,
                buckets := fold (move_item new_num_buckets) (concat (buckets lh)) (replicate new_num_buckets [])\<rparr>, h)))"

definition lh_maybe_resize :: "'d lhash \<Rightarrow> heap \<Rightarrow> 'd lhash \<times> heap" where
  "lh_maybe_resize lh h =
     (if callback_depth lh > 0 then (lh, h)
      else
        let avg_chain_length = num_items lh div num_buckets lh in
        if avg_chain_length > kMaxAverageChainLength then
          (let new_num_buckets = sz_mul (num_buckets lh) 2 in
           if new_num_buckets > num_buckets lh then lh_rebucket lh new_num_buckets h else (lh, h))
        else if avg_chain_length < kMinAverageChainLength \<and> num_buckets lh > kMinNumBuckets then
          (let new_num_buckets = num_buckets lh div 2;
               new_num_buckets = (if new_num_buckets < kMinNumBuckets then kMinNumBuckets else new_num_buckets)
           in lh_rebucket lh new_num_buckets h)
        else (lh, h))"

text \<open>The result, \<open>*old_data\<close>, the table and the allocator.\<close>

definition lh_insert ::
  "(nat \<Rightarrow> 'd \<Rightarrow> uint32) \<Rightarrow> (nat \<Rightarrow> 'd \<Rightarrow> 'd \<Rightarrow> int) \<Rightarrow> 'd lhash \<Rightarrow> 'd \<Rightarrow> heap \<Rightarrow> bool \<times> 'd option \<times> 'd lhash \<times> heap" where
  "lh_insert call_hash_func call_cmp_func lh data h =
     (case get_next_ptr_and_hash call_hash_func call_cmp_func lh data of ((b, k), hash) \<Rightarrow>
       (case at_ptr lh (b, k) of
         Some old \<Rightarrow>
           (True, Some (item_data old), lh\<lparr>buckets := (buckets lh)[b := (buckets lh ! b)[k := old\<lparr>item_data := data\<rparr>]]\<rparr>, h)
       | None \<Rightarrow>
           (case alloc_next h of (ok, h) \<Rightarrow>
             if \<not> ok then (False, None, lh, h)
             else
               (case lh_maybe_resize (lh\<lparr>buckets := (buckets lh)[b := buckets lh ! b @ [\<lparr>item_data = data, item_hash = hash\<rparr>]],
                                        num_items := num_items lh + 1\<rparr>) h of
                 (lh, h) \<Rightarrow> (True, None, lh, h)))))"

definition lh_delete ::
  "(nat \<Rightarrow> 'd \<Rightarrow> uint32) \<Rightarrow> (nat \<Rightarrow> 'd \<Rightarrow> 'd \<Rightarrow> int) \<Rightarrow> 'd lhash \<Rightarrow> 'd \<Rightarrow> heap \<Rightarrow> 'd option \<times> 'd lhash \<times> heap" where
  "lh_delete call_hash_func call_cmp_func lh data h =
     (case get_next_ptr_and_hash call_hash_func call_cmp_func lh data of ((b, k), _) \<Rightarrow>
       (case at_ptr lh (b, k) of
         None \<Rightarrow> (None, lh, h)
       | Some item \<Rightarrow>
           (case lh_maybe_resize (lh\<lparr>buckets := (buckets lh)[b := take k (buckets lh ! b) @ drop (Suc k) (buckets lh ! b)],
                                    num_items := num_items lh - 1\<rparr>) h of
             (lh, h) \<Rightarrow> (Some (item_data item), lh, h))))"

text \<open>
  \<open>lh_doall_arg\<close> with a callback that leaves the table alone: it folds over the items, bucket by
  bucket, and resizes the table if a resize was put off.
\<close>

definition UINT_MAX :: uint32 where
  "UINT_MAX = 0xffffffff"

definition lh_doall_arg :: "'d lhash \<Rightarrow> ('d \<Rightarrow> 's \<Rightarrow> 's) \<Rightarrow> 's \<Rightarrow> heap \<Rightarrow> 's \<times> 'd lhash \<times> heap" where
  "lh_doall_arg lh func arg h =
     (let lh = (if callback_depth lh < UINT_MAX then lh\<lparr>callback_depth := callback_depth lh + 1\<rparr> else lh);
          arg = fold (fold (\<lambda>cur. func (item_data cur))) (buckets lh) arg;
          lh = (if callback_depth lh < UINT_MAX then lh\<lparr>callback_depth := callback_depth lh - 1\<rparr> else lh)
      in (case lh_maybe_resize lh h of (lh, h) \<Rightarrow> (arg, lh, h)))"

text \<open>\<open>OPENSSL_hash32\<close> and the string hash of the tables.\<close>

definition OPENSSL_hash32 :: "byte list \<Rightarrow> uint32" where
  "OPENSSL_hash32 ptr = fold (\<lambda>b h. (h XOR ucast b) * 16777619) ptr 2166136261"

definition lh_strhash :: "byte list option \<Rightarrow> uint32" where
  "lh_strhash c = (case c of None \<Rightarrow> 0 | Some s \<Rightarrow> OPENSSL_hash32 (takeWhile (\<lambda>b. b \<noteq> 0) s))"

section \<open>The contract of a keyed store\<close>

locale keyed_store =
  fixes inv :: "'s \<Rightarrow> bool" and abs :: "'s \<Rightarrow> 'k \<Rightarrow> 'd option" and key :: "'d \<Rightarrow> 'k"
    and retrieve :: "'s \<Rightarrow> 'd \<Rightarrow> 'd option"
    and insert :: "'s \<Rightarrow> 'd \<Rightarrow> heap \<Rightarrow> bool \<times> 'd option \<times> 's \<times> heap"
    and delete :: "'s \<Rightarrow> 'd \<Rightarrow> heap \<Rightarrow> 'd option \<times> 's \<times> heap"
  assumes retrieve: "inv s \<Longrightarrow> retrieve s d = abs s (key d)"
    and insert: "inv s \<Longrightarrow> insert s d h = (ok, old, s', h') \<Longrightarrow> inv s' \<and>
      (if ok then old = abs s (key d) \<and> abs s' = (abs s)(key d \<mapsto> d) else old = None \<and> abs s' = abs s)"
    and delete: "inv s \<Longrightarrow> delete s d h = (old, s', h') \<Longrightarrow> inv s' \<and> old = abs s (key d) \<and> abs s' = (abs s)(key d := None)"
begin

lemma retrieve_inserted:
  assumes "inv s" and "insert s d h = (True, old, s', h')"
  shows "retrieve s' e = (if key e = key d then Some d else retrieve s e)"
  using insert [OF assms] retrieve assms(1) by auto

lemma retrieve_deleted:
  assumes "inv s" and "delete s d h = (old, s', h')"
  shows "retrieve s' e = (if key e = key d then None else retrieve s e)"
  using delete [OF assms] retrieve assms(1) by auto

text \<open>A sequence of insertions that all succeed.\<close>

inductive inserts :: "'s \<Rightarrow> 'd list \<Rightarrow> 's \<Rightarrow> bool" where
  inserts_Nil: "inserts s [] s"
| inserts_Cons: "insert s d h = (True, old, s', h') \<Longrightarrow> inserts s' ds s'' \<Longrightarrow> inserts s (d # ds) s''"

lemma inserts_last:
  assumes "inserts s ds s'" and "inv s"
  shows "inv s' \<and> abs s' = abs s ++ map_of (rev (map (\<lambda>d. (key d, d)) ds))"
  using assms
proof induction
  case (inserts_Cons s d h old s' h' ds s'')
  from insert [OF inserts_Cons.prems inserts_Cons.hyps(1)] have "inv s'" "abs s' = (abs s)(key d \<mapsto> d)" by auto
  with inserts_Cons.IH show ?case by (auto simp: map_add_assoc [symmetric] map_add_def fun_eq_iff split: option.splits)
qed simp

end

section \<open>Invariant and contents\<close>

text \<open>
  The functions of a table agree with a key: two elements compare equal when they have the same
  key, and then they have the same hash. (Any equivalence relation is of this form.)
\<close>

definition agrees :: "('d \<Rightarrow> 'k) \<Rightarrow> ('d \<Rightarrow> uint32) \<Rightarrow> ('d \<Rightarrow> 'd \<Rightarrow> int) \<Rightarrow> bool" where
  "agrees key hash cmp \<longleftrightarrow> (\<forall>a b. cmp a b = 0 \<longleftrightarrow> key a = key b) \<and> (\<forall>a b. key a = key b \<longrightarrow> hash a = hash b)"

definition placed :: "nat \<Rightarrow> 'd lhash_item list list \<Rightarrow> bool" where
  "placed n bs \<longleftrightarrow> length bs = n \<and> (\<forall>b < n. \<forall>it \<in> set (bs ! b). unat (item_hash it) mod n = b)"

definition entries :: "('d \<Rightarrow> 'k) \<Rightarrow> 'd lhash_item list \<Rightarrow> ('k \<times> 'd) list" where
  "entries key its = map (\<lambda>it. (key (item_data it), item_data it)) its"

definition lh_map :: "('d \<Rightarrow> 'k) \<Rightarrow> 'd lhash \<Rightarrow> 'k \<Rightarrow> 'd option" where
  "lh_map key lh = map_of (entries key (concat (buckets lh)))"

definition items_ok :: "('d \<Rightarrow> 'k) \<Rightarrow> ('d \<Rightarrow> uint32) \<Rightarrow> 'd lhash_item list \<Rightarrow> bool" where
  "items_ok key hash its \<longleftrightarrow> distinct (map fst (entries key its)) \<and> (\<forall>it \<in> set its. item_hash it = hash (item_data it))"

definition lh_ok ::
  "('d \<Rightarrow> 'k) \<Rightarrow> (nat \<Rightarrow> 'd \<Rightarrow> uint32) \<Rightarrow> (nat \<Rightarrow> 'd \<Rightarrow> 'd \<Rightarrow> int) \<Rightarrow> 'd lhash \<Rightarrow> bool" where
  "lh_ok key call_hash call_cmp lh \<longleftrightarrow>
     agrees key (call_hash (lh_hash lh)) (call_cmp (lh_comp lh)) \<and>
     kMinNumBuckets \<le> num_buckets lh \<and> num_buckets lh * sizeof_ptr < size_mod \<and>
     placed (num_buckets lh) (buckets lh) \<and>
     items_ok key (call_hash (lh_hash lh)) (concat (buckets lh)) \<and>
     num_items lh = length (concat (buckets lh))"

lemma entries_simps [simp]:
  "entries key [] = []" "entries key (it # its) = (key (item_data it), item_data it) # entries key its"
  "entries key (its @ jts) = entries key its @ entries key jts"
  by (simp_all add: entries_def)

lemma entries_keys: "fst ` set (entries key its) = (\<lambda>it. key (item_data it)) ` set its"
  by (force simp: entries_def)

lemma items_ok_simps [simp]:
  "items_ok key hash []"
  "items_ok key hash (it # its) \<longleftrightarrow> key (item_data it) \<notin> fst ` set (entries key its) \<and> item_hash it = hash (item_data it) \<and> items_ok key hash its"
  by (auto simp: items_ok_def)

lemma items_ok_mset:
  assumes "mset its = mset jts"
  shows "items_ok key hash its \<longleftrightarrow> items_ok key hash jts"
proof -
  have "mset (map fst (entries key its)) = mset (map fst (entries key jts))"
    using assms by (simp add: entries_def comp_def)
  then have "distinct (map fst (entries key its)) \<longleftrightarrow> distinct (map fst (entries key jts))" by (rule mset_eq_imp_distinct_iff)
  then show ?thesis using mset_eq_setD [OF assms] by (simp add: items_ok_def)
qed

lemma map_of_mset:
  assumes "mset its = mset jts" and "items_ok key hash its"
  shows "map_of (entries key its) = map_of (entries key jts)"
proof -
  have "items_ok key hash jts" using assms items_ok_mset by blast
  moreover have "set (entries key its) = set (entries key jts)" using mset_eq_setD [OF assms(1)] by (simp add: entries_def)
  ultimately show ?thesis using assms(2) by (simp add: items_ok_def map_of_inject_set)
qed

lemma concat_bucket:
  assumes "b < length bs"
  shows "concat bs = concat (take b bs) @ bs ! b @ concat (drop (Suc b) bs)"
    and "concat (bs[b := c]) = concat (take b bs) @ c @ concat (drop (Suc b) bs)"
  using assms by (simp_all add: upd_conv_take_nth_drop) (metis concat.simps(2) concat_append id_take_nth_drop)

lemma placed_update:
  "placed n bs \<Longrightarrow> (\<And>it. it \<in> set c \<Longrightarrow> unat (item_hash it) mod n = b) \<Longrightarrow> placed n (bs[b := c])"
  by (auto simp: placed_def) (metis nth_list_update_eq nth_list_update_neq)

lemma placed_elsewhere:
  assumes "placed n bs" and "b < n" and "it \<in> set (concat (take b bs)) \<union> set (concat (drop (Suc b) bs))"
  shows "unat (item_hash it) mod n \<noteq> b"
proof -
  have n: "length bs = n" using assms(1) by (simp add: placed_def)
  have "\<exists>c. c < n \<and> c \<noteq> b \<and> it \<in> set (bs ! c)"
  proof (cases "it \<in> set (concat (take b bs))")
    case True
    then obtain xs where xs: "xs \<in> set (take b bs)" "it \<in> set xs" by auto
    obtain c where "c < b" "xs = bs ! c" using xs(1) assms(2) n by (auto simp: in_set_conv_nth)
    then show ?thesis using assms(2) xs(2) by (intro exI [of _ c]) simp
  next
    case False
    then have "it \<in> set (concat (drop (Suc b) bs))" using assms(3) by blast
    then obtain xs where xs: "xs \<in> set (drop (Suc b) bs)" "it \<in> set xs" by auto
    obtain c where "c < n - Suc b" "xs = bs ! (Suc b + c)" using xs(1) n unfolding in_set_conv_nth by auto
    moreover from this have "Suc b + c < n" "Suc b + c \<noteq> b" by linarith+
    ultimately show ?thesis using xs(2) by blast
  qed
  then obtain c where c: "c < n" "c \<noteq> b" "it \<in> set (bs ! c)" by blast
  then have "unat (item_hash it) mod n = c" using assms(1) by (simp add: placed_def)
  with c(2) show ?thesis by simp
qed

text \<open>The chain search.\<close>

lemma chain_pos_split:
  obtains (missing) "chain_pos P its = length its" "\<forall>it \<in> set its. \<not> P it"
  | (found) xs it ys where "its = xs @ it # ys" "chain_pos P its = length xs" "P it" "\<forall>x \<in> set xs. \<not> P x"
proof (induction its arbitrary: thesis)
  case Nil
  then show ?case by simp
next
  case (Cons a its)
  show ?case
  proof (cases "P a")
    case True
    then show ?thesis using Cons.prems(2) [of "[]" a its] by simp
  next
    case False
    show ?thesis
    proof (rule Cons.IH)
      assume "chain_pos P its = length its" "\<forall>it \<in> set its. \<not> P it"
      then show thesis using Cons.prems(1) False by simp
    next
      fix xs it ys
      assume "its = xs @ it # ys" "chain_pos P its = length xs" "P it" "\<forall>x \<in> set xs. \<not> P x"
      then show thesis using Cons.prems(2) [of "a # xs" it ys] False by simp
    qed
  qed
qed


section \<open>Lookup\<close>

lemma lh_okD:
  assumes "lh_ok key ch cc lh"
  shows "agrees key (ch (lh_hash lh)) (cc (lh_comp lh))" "placed (num_buckets lh) (buckets lh)"
    "items_ok key (ch (lh_hash lh)) (concat (buckets lh))" "num_items lh = length (concat (buckets lh))"
    "0 < num_buckets lh" "length (buckets lh) = num_buckets lh"
  using assms by (simp_all add: lh_ok_def kMinNumBuckets_def placed_def)

text \<open>
  Where \<open>get_next_ptr_and_hash\<close> stops: at the item with the key of \<open>data\<close>, or at the end of the
  only chain that could hold it.
\<close>

lemma get_next_split:
  assumes ok: "lh_ok key ch cc lh" and get: "get_next_ptr_and_hash ch cc lh data = ((b, k), hash)"
  obtains (missing) xs zs where "hash = ch (lh_hash lh) data" "b = unat hash mod num_buckets lh" "b < length (buckets lh)"
      "concat (buckets lh) = xs @ buckets lh ! b @ zs" "at_ptr lh (b, k) = None" "lh_map key lh (key data) = None"
      "\<And>c. concat ((buckets lh)[b := c]) = xs @ c @ zs" "k = length (buckets lh ! b)"
  | (found) xs us it vs zs where "hash = ch (lh_hash lh) data" "b = unat hash mod num_buckets lh" "b < length (buckets lh)"
      "buckets lh ! b = us @ it # vs" "k = length us" "at_ptr lh (b, k) = Some it" "key (item_data it) = key data"
      "concat (buckets lh) = xs @ us @ it # vs @ zs" "\<And>c. concat ((buckets lh)[b := c]) = xs @ c @ zs"
proof -
  let ?P = "\<lambda>cur. cc (lh_comp lh) (item_data cur) data = 0"
  note d = lh_okD [OF ok]
  have P: "?P it \<longleftrightarrow> key (item_data it) = key data" for it using d(1) by (simp add: agrees_def)
  have g: "hash = ch (lh_hash lh) data" "b = unat hash mod num_buckets lh" "k = chain_pos ?P (buckets lh ! b)"
    using get by (auto simp: get_next_ptr_and_hash_def Let_def)
  have b: "b < length (buckets lh)" using d(5,6) by (simp add: g(2))
  let ?xs = "concat (take b (buckets lh))" and ?zs = "concat (drop (Suc b) (buckets lh))"
  note c = concat_bucket [OF b]
  show ?thesis
  proof (rule chain_pos_split [of ?P "buckets lh ! b"])
    assume k: "chain_pos ?P (buckets lh ! b) = length (buckets lh ! b)" and none: "\<forall>it \<in> set (buckets lh ! b). \<not> ?P it"
    have "key (item_data it) \<noteq> key data" if it: "it \<in> set (concat (buckets lh))" for it
    proof (cases "it \<in> set (buckets lh ! b)")
      case True
      then show ?thesis using none by (simp add: P)
    next
      case False
      have "it \<in> set (?xs @ buckets lh ! b @ ?zs)" using it by (simp only: c(1) [symmetric])
      then have "it \<in> set ?xs \<union> set ?zs" using False unfolding set_append by blast
      then have "unat (item_hash it) mod num_buckets lh \<noteq> b"
        by (rule placed_elsewhere [OF d(2) b [unfolded d(6)]])
      moreover have "item_hash it = ch (lh_hash lh) (item_data it)" using d(3) it by (auto simp: items_ok_def)
      moreover have "ch (lh_hash lh) (item_data it) = ch (lh_hash lh) data" if "key (item_data it) = key data"
        using d(1) that unfolding agrees_def by blast
      ultimately show ?thesis using g(1,2) by metis
    qed
    then have "lh_map key lh (key data) = None" unfolding lh_map_def map_of_eq_None_iff entries_keys by (metis imageE)
    then show ?thesis using missing g b c k by (simp add: at_ptr_def)
  next
    fix us it vs
    assume "buckets lh ! b = us @ it # vs" "chain_pos ?P (buckets lh ! b) = length us" "?P it"
    then show ?thesis using found [of us it vs ?xs ?zs] g b c by (simp add: at_ptr_def P)
  qed
qed

lemma map_of_entries_mid:
  assumes "items_ok key hash (xs @ it # ys)"
  shows "map_of (entries key (xs @ it # ys)) = (map_of (entries key (xs @ ys)))(key (item_data it) \<mapsto> item_data it)"
    and "map_of (entries key (xs @ ys)) (key (item_data it)) = None"
proof -
  have k: "key (item_data it) \<notin> fst ` set (entries key xs)" "key (item_data it) \<notin> fst ` set (entries key ys)"
    using assms by (auto simp: items_ok_def entries_keys)
  then have "map_of (entries key xs) (key (item_data it)) = None" by (simp add: map_of_eq_None_iff)
  then show "map_of (entries key (xs @ it # ys)) = (map_of (entries key (xs @ ys)))(key (item_data it) \<mapsto> item_data it)"
    by (auto simp: fun_eq_iff map_add_def split: option.splits)
  show "map_of (entries key (xs @ ys)) (key (item_data it)) = None"
    using k by (auto simp: map_of_eq_None_iff image_Un)
qed

lemma lh_retrieve_map:
  assumes "lh_ok key ch cc lh"
  shows "lh_retrieve ch cc lh data = lh_map key lh (key data)"
proof (cases "get_next_ptr_and_hash ch cc lh data")
  case (Pair p hash)
  obtain b k where p: "p = (b, k)" by (cases p)
  show ?thesis
  proof (rule get_next_split [OF assms Pair [unfolded p]])
    fix xs us it vs zs
    assume *: "at_ptr lh (b, k) = Some it" "key (item_data it) = key data" "concat (buckets lh) = xs @ us @ it # vs @ zs"
    have "items_ok key (ch (lh_hash lh)) ((xs @ us) @ it # (vs @ zs))" using lh_okD(3) [OF assms] *(3) by simp
    from map_of_entries_mid(1) [OF this] have "lh_map key lh (key data) = Some (item_data it)"
      by (simp add: lh_map_def *(3) *(2) [symmetric])
    then show ?thesis using *(1) Pair p by (simp add: lh_retrieve_def)
  qed (use Pair p in \<open>simp add: lh_retrieve_def\<close>)
qed


section \<open>Resizing\<close>

lemma move_item_placed:
  assumes "placed n bs" and "0 < n"
  shows "placed n (move_item n it bs)" and "mset (concat (move_item n it bs)) = add_mset it (mset (concat bs))"
proof -
  let ?b = "unat (item_hash it) mod n"
  have b: "?b < length bs" using assms by (simp add: placed_def)
  have "unat (item_hash x) mod n = ?b" if "x \<in> set (it # bs ! ?b)" for x
    using assms that b by (auto simp: placed_def)
  then show "placed n (move_item n it bs)" unfolding move_item_def Let_def by (intro placed_update [OF assms(1)])
  have "mset (concat (move_item n it bs)) =
      mset (concat (take ?b bs)) + add_mset it (mset (bs ! ?b)) + mset (concat (drop (Suc ?b) bs))"
    unfolding move_item_def Let_def concat_bucket(2) [OF b] by (simp del: mset_concat)
  also have "\<dots> = add_mset it (mset (concat bs))" unfolding concat_bucket(1) [OF b] by (simp del: mset_concat)
  finally show "mset (concat (move_item n it bs)) = add_mset it (mset (concat bs))" .
qed

lemma fold_move_item:
  assumes "placed n bs" and "0 < n"
  shows "placed n (fold (move_item n) its bs) \<and> mset (concat (fold (move_item n) its bs)) = mset its + mset (concat bs)"
  using assms(1)
proof (induction its arbitrary: bs)
  case (Cons it its)
  then show ?case using move_item_placed [OF Cons.prems assms(2)] by (simp del: mset_concat)
qed simp

text \<open>What a resize keeps.\<close>

definition same_items :: "'d lhash \<Rightarrow> 'd lhash \<Rightarrow> bool" where
  "same_items lh lh' \<longleftrightarrow> mset (concat (buckets lh')) = mset (concat (buckets lh)) \<and> num_items lh' = num_items lh \<and>
     callback_depth lh' = callback_depth lh \<and> lh_comp lh' = lh_comp lh \<and> lh_hash lh' = lh_hash lh"

lemma same_items_refl [simp]: "same_items lh lh"
  by (simp add: same_items_def)

lemma same_items_map:
  assumes "same_items lh lh'" and "lh_ok key ch cc lh"
  shows "lh_map key lh' = lh_map key lh"
  using map_of_mset [OF _ lh_okD(3) [OF assms(2)], of "concat (buckets lh')"] assms(1)
  by (simp add: lh_map_def same_items_def del: mset_concat)

lemma lh_rebucket_ok:
  assumes "lh_ok key ch cc lh" and "lh_rebucket lh n h = (lh', h')" and "kMinNumBuckets \<le> n"
  shows "lh_ok key ch cc lh' \<and> same_items lh lh' \<and> (lh' = lh \<or> num_buckets lh' = n)"
proof (cases "lh' = lh")
  case True
  then show ?thesis using assms(1) by simp
next
  case False
  have n: "0 < n" using assms(3) by (simp add: kMinNumBuckets_def)
  have lh': "lh' = lh\<lparr>num_buckets := n, buckets := fold (move_item n) (concat (buckets lh)) (replicate n [])\<rparr>"
    and "sz_mul sizeof_ptr n div sizeof_ptr = n"
    using assms(2) False by (auto simp: lh_rebucket_def Let_def split: if_splits prod.splits)
  have "n * sizeof_ptr = sz_mul sizeof_ptr n div sizeof_ptr * sizeof_ptr" using \<open>sz_mul sizeof_ptr n div sizeof_ptr = n\<close> by simp
  also have "\<dots> \<le> sz_mul sizeof_ptr n" by simp
  also have "\<dots> < size_mod" by (simp add: sz_mul_def)
  finally have size: "n * sizeof_ptr < size_mod" .
  have "placed n (replicate n ([] :: 'a lhash_item list))" by (simp add: placed_def)
  from fold_move_item [OF this n, of "concat (buckets lh)"] have
    p: "placed n (buckets lh')" and m: "mset (concat (buckets lh')) = mset (concat (buckets lh))"
    by (simp_all add: lh' del: mset_concat)
  from items_ok_mset [OF m, of key "ch (lh_hash lh)"] lh_okD(3) [OF assms(1)] have
    i: "items_ok key (ch (lh_hash lh)) (concat (buckets lh'))" by blast
  have "length (concat (buckets lh')) = num_items lh" using lh_okD(4) [OF assms(1)] m by (metis size_mset)
  then show ?thesis using assms(1,3) p m i size by (simp add: lh_ok_def same_items_def lh')
qed

lemma lh_maybe_resize_ok:
  assumes "lh_ok key ch cc lh" and "lh_maybe_resize lh h = (lh', h')"
  shows "lh_ok key ch cc lh' \<and> same_items lh lh' \<and> lh_map key lh' = lh_map key lh \<and> (callback_depth lh > 0 \<longrightarrow> lh' = lh)"
proof -
  have nb: "kMinNumBuckets \<le> num_buckets lh" using assms(1) by (simp add: lh_ok_def)
  from assms(2) have "lh' = lh \<or> callback_depth lh = 0 \<and>
      (num_buckets lh < sz_mul (num_buckets lh) 2 \<and> lh_rebucket lh (sz_mul (num_buckets lh) 2) h = (lh', h') \<or>
       kMinNumBuckets \<le> num_buckets lh div 2 \<and> lh_rebucket lh (num_buckets lh div 2) h = (lh', h') \<or>
       lh_rebucket lh kMinNumBuckets h = (lh', h'))"
    by (auto simp: lh_maybe_resize_def Let_def word_gt_0 split: if_splits)
  then have "\<exists>n \<ge> kMinNumBuckets. lh' = lh \<or> lh_rebucket lh n h = (lh', h') \<and> callback_depth lh = 0"
    using nb by (meson le_refl less_imp_le order_trans)
  then obtain n where n: "kMinNumBuckets \<le> n" "lh' = lh \<or> lh_rebucket lh n h = (lh', h') \<and> callback_depth lh = 0" by blast
  show ?thesis
  proof (cases "lh' = lh")
    case True
    then show ?thesis using assms(1) by simp
  next
    case False
    with n(2) have "lh_rebucket lh n h = (lh', h')" and "callback_depth lh = 0" by auto
    with lh_rebucket_ok [OF assms(1) this(1) n(1)] same_items_map [OF _ assms(1), of lh'] show ?thesis by simp
  qed
qed

section \<open>Insertion and deletion\<close>

lemma lh_ok_replace:
  assumes "lh_ok key ch cc lh" and "b < length (buckets lh)" and "\<And>it. it \<in> set c \<Longrightarrow> unat (item_hash it) mod num_buckets lh = b"
    and "items_ok key (ch (lh_hash lh)) (concat ((buckets lh)[b := c]))"
  shows "lh_ok key ch cc (lh\<lparr>buckets := (buckets lh)[b := c], num_items := length (concat ((buckets lh)[b := c]))\<rparr>)"
  using assms placed_update [OF lh_okD(2) [OF assms(1)] assms(3)] by (simp add: lh_ok_def)

lemma in_bucket: "lh_ok key ch cc lh \<Longrightarrow> b < length (buckets lh) \<Longrightarrow> it \<in> set (buckets lh ! b) \<Longrightarrow> unat (item_hash it) mod num_buckets lh = b"
  by (auto simp: lh_ok_def placed_def)

lemma lh_insert_ok:
  assumes ok: "lh_ok key ch cc lh" and ins: "lh_insert ch cc lh data h = (r, old, lh', h')"
  shows "lh_ok key ch cc lh' \<and>
    (if r then old = lh_map key lh (key data) \<and> lh_map key lh' = (lh_map key lh)(key data \<mapsto> data)
     else old = None \<and> lh_map key lh' = lh_map key lh)"
proof -
  obtain b k hash where g: "get_next_ptr_and_hash ch cc lh data = ((b, k), hash)"
    by (cases "get_next_ptr_and_hash ch cc lh data") auto
  show ?thesis
  proof (rule get_next_split [OF ok g])
    fix xs zs
    assume *: "hash = ch (lh_hash lh) data" "b = unat hash mod num_buckets lh" "b < length (buckets lh)"
      "concat (buckets lh) = xs @ buckets lh ! b @ zs" "at_ptr lh (b, k) = None" "lh_map key lh (key data) = None"
      "\<And>c. concat ((buckets lh)[b := c]) = xs @ c @ zs"
    let ?it = "\<lparr>item_data = data, item_hash = hash\<rparr>"
    let ?c = "buckets lh ! b @ [?it]"
    let ?lh = "lh\<lparr>buckets := (buckets lh)[b := ?c], num_items := num_items lh + 1\<rparr>"
    have items: "items_ok key (ch (lh_hash lh)) (xs @ buckets lh ! b @ zs)" using lh_okD(3) [OF ok] *(4) by simp
    moreover have "key data \<notin> fst ` set (entries key (xs @ buckets lh ! b @ zs))"
      using *(6) unfolding lh_map_def *(4) map_of_eq_None_iff .
    ultimately have "items_ok key (ch (lh_hash lh)) (?it # xs @ buckets lh ! b @ zs)" using *(1) by simp
    then have new: "items_ok key (ch (lh_hash lh)) (xs @ ?c @ zs)"
      by (subst items_ok_mset [of _ "?it # xs @ buckets lh ! b @ zs"]) simp_all
    have "lh_ok key ch cc (lh\<lparr>buckets := (buckets lh)[b := ?c], num_items := length (concat ((buckets lh)[b := ?c]))\<rparr>)"
    proof (rule lh_ok_replace [OF ok *(3)])
      show "items_ok key (ch (lh_hash lh)) (concat ((buckets lh)[b := ?c]))" unfolding *(7) by (rule new)
    qed (use in_bucket [OF ok *(3)] *(2) in auto)
    then have ok': "lh_ok key ch cc ?lh" using lh_okD(4) [OF ok] by (simp add: *(4,7))
    have "items_ok key (ch (lh_hash lh)) ((xs @ buckets lh ! b) @ ?it # zs)" using new by simp
    from map_of_entries_mid(1) [OF this] have m: "lh_map key ?lh = (lh_map key lh)(key data \<mapsto> data)"
      by (simp add: lh_map_def *(4,7))
    show ?thesis
      using ins lh_maybe_resize_ok [OF ok'] *(5,6) ok m by (auto simp: lh_insert_def g split: prod.splits if_splits)
  next
    fix xs us it vs zs
    assume *: "hash = ch (lh_hash lh) data" "b = unat hash mod num_buckets lh" "b < length (buckets lh)"
      "buckets lh ! b = us @ it # vs" "k = length us" "at_ptr lh (b, k) = Some it" "key (item_data it) = key data"
      "concat (buckets lh) = xs @ us @ it # vs @ zs" "\<And>c. concat ((buckets lh)[b := c]) = xs @ c @ zs"
    let ?it = "it\<lparr>item_data := data\<rparr>"
    let ?c = "us @ ?it # vs"
    let ?lh = "lh\<lparr>buckets := (buckets lh)[b := ?c]\<rparr>"
    have items: "items_ok key (ch (lh_hash lh)) ((xs @ us) @ it # (vs @ zs))" using lh_okD(3) [OF ok] *(8) by simp
    have "item_hash it = ch (lh_hash lh) (item_data it)" using items by (simp add: items_ok_def)
    also have "\<dots> = hash" using *(1,7) lh_okD(1) [OF ok] unfolding agrees_def by blast
    finally have "item_hash it = hash" .
    then have new: "items_ok key (ch (lh_hash lh)) ((xs @ us) @ ?it # (vs @ zs))"
      using items *(1,7) by (auto simp: items_ok_def entries_keys)
    have "lh_ok key ch cc (lh\<lparr>buckets := (buckets lh)[b := ?c], num_items := length (concat ((buckets lh)[b := ?c]))\<rparr>)"
      by (rule lh_ok_replace [OF ok *(3)]) (use new in_bucket [OF ok *(3)] *(4) in \<open>auto simp: *(9)\<close>)
    moreover have "length (concat ((buckets lh)[b := ?c])) = num_items lh" using lh_okD(4) [OF ok] by (simp add: *(8,9))
    ultimately have ok': "lh_ok key ch cc ?lh" by simp
    have m: "lh_map key ?lh = (lh_map key lh)(key data \<mapsto> data)"
      using map_of_entries_mid(1) [OF items] map_of_entries_mid(1) [OF new] *(7) by (simp add: lh_map_def *(8,9))
    have "lh_map key lh (key data) = Some (item_data it)"
      using map_of_entries_mid(1) [OF items] *(7) by (simp add: lh_map_def *(8))
    then show ?thesis using ins ok' m *(4-6) by (auto simp: lh_insert_def g)
  qed
qed

lemma lh_delete_ok:
  assumes ok: "lh_ok key ch cc lh" and del: "lh_delete ch cc lh data h = (old, lh', h')"
  shows "lh_ok key ch cc lh' \<and> old = lh_map key lh (key data) \<and> lh_map key lh' = (lh_map key lh)(key data := None)"
proof -
  obtain b k hash where g: "get_next_ptr_and_hash ch cc lh data = ((b, k), hash)"
    by (cases "get_next_ptr_and_hash ch cc lh data") auto
  show ?thesis
  proof (rule get_next_split [OF ok g])
    assume "at_ptr lh (b, k) = None" "lh_map key lh (key data) = None"
    then show ?thesis using del ok by (auto simp: lh_delete_def g)
  next
    fix xs us it vs zs
    assume *: "b < length (buckets lh)" "buckets lh ! b = us @ it # vs" "k = length us" "at_ptr lh (b, k) = Some it"
      "key (item_data it) = key data" "concat (buckets lh) = xs @ us @ it # vs @ zs"
      "\<And>c. concat ((buckets lh)[b := c]) = xs @ c @ zs"
    let ?lh = "lh\<lparr>buckets := (buckets lh)[b := us @ vs], num_items := num_items lh - 1\<rparr>"
    have items: "items_ok key (ch (lh_hash lh)) ((xs @ us) @ it # (vs @ zs))" using lh_okD(3) [OF ok] *(6) by simp
    then have new: "items_ok key (ch (lh_hash lh)) ((xs @ us) @ (vs @ zs))" by (auto simp: items_ok_def)
    have "lh_ok key ch cc (lh\<lparr>buckets := (buckets lh)[b := us @ vs], num_items := length (concat ((buckets lh)[b := us @ vs]))\<rparr>)"
      by (rule lh_ok_replace [OF ok *(1)]) (use new in_bucket [OF ok *(1)] *(2) in \<open>auto simp: *(7)\<close>)
    then have ok': "lh_ok key ch cc ?lh" using lh_okD(4) [OF ok] by (simp add: *(6,7))
    note m = map_of_entries_mid [OF items]
    have "lh_map key ?lh = (lh_map key lh)(key data := None)" "lh_map key lh (key data) = Some (item_data it)"
      using m *(5) by (auto simp: lh_map_def *(6,7))
    then show ?thesis using del lh_maybe_resize_ok [OF ok'] *(2,3,4) by (auto simp: lh_delete_def g split: prod.splits)
  qed
qed

interpretation table: keyed_store "lh_ok key ch cc" "lh_map key" key "lh_retrieve ch cc" "lh_insert ch cc" "lh_delete ch cc"
  for key ch cc
  by unfold_locales (erule lh_retrieve_map, erule (1) lh_insert_ok, erule (1) lh_delete_ok)

section \<open>Scripts of table operations\<close>

datatype 'd lh_op = Lh_insert 'd | Lh_delete 'd | Lh_retrieve 'd

datatype 'd lh_result = Inserted bool "'d option" | Element "'d option"

fun lh_step ::
  "(nat \<Rightarrow> 'd \<Rightarrow> uint32) \<Rightarrow> (nat \<Rightarrow> 'd \<Rightarrow> 'd \<Rightarrow> int) \<Rightarrow> 'd lh_op \<Rightarrow> 'd lhash \<Rightarrow> heap \<Rightarrow> 'd lh_result \<times> 'd lhash \<times> heap" where
  "lh_step ch cc (Lh_insert d) lh h = (case lh_insert ch cc lh d h of (ok, old, lh, h) \<Rightarrow> (Inserted ok old, lh, h))"
| "lh_step ch cc (Lh_delete d) lh h = (case lh_delete ch cc lh d h of (old, lh, h) \<Rightarrow> (Element old, lh, h))"
| "lh_step ch cc (Lh_retrieve d) lh h = (Element (lh_retrieve ch cc lh d), lh, h)"

fun lh_run ::
  "(nat \<Rightarrow> 'd \<Rightarrow> uint32) \<Rightarrow> (nat \<Rightarrow> 'd \<Rightarrow> 'd \<Rightarrow> int) \<Rightarrow> 'd lh_op list \<Rightarrow> 'd lhash \<Rightarrow> heap \<Rightarrow> 'd lh_result list \<times> 'd lhash \<times> heap" where
  "lh_run ch cc [] lh h = ([], lh, h)"
| "lh_run ch cc (x # xs) lh h =
     (case lh_step ch cc x lh h of (r, lh, h) \<Rightarrow> (case lh_run ch cc xs lh h of (rs, lh, h) \<Rightarrow> (r # rs, lh, h)))"

text \<open>What the operations do to a finite map from keys to elements.\<close>

fun map_step :: "('d \<Rightarrow> 'k) \<Rightarrow> 'd lh_op \<Rightarrow> ('k \<Rightarrow> 'd option) \<Rightarrow> 'd lh_result \<times> ('k \<Rightarrow> 'd option)" where
  "map_step key (Lh_insert d) m = (Inserted True (m (key d)), m(key d \<mapsto> d))"
| "map_step key (Lh_delete d) m = (Element (m (key d)), m(key d := None))"
| "map_step key (Lh_retrieve d) m = (Element (m (key d)), m)"

fun map_run :: "('d \<Rightarrow> 'k) \<Rightarrow> 'd lh_op list \<Rightarrow> ('k \<Rightarrow> 'd option) \<Rightarrow> 'd lh_result list \<times> ('k \<Rightarrow> 'd option)" where
  "map_run key [] m = ([], m)"
| "map_run key (x # xs) m = (case map_step key x m of (r, m) \<Rightarrow> (case map_run key xs m of (rs, m) \<Rightarrow> (r # rs, m)))"

lemma lh_maybe_resize_memory: "lh_maybe_resize lh [] = (lh', h') \<Longrightarrow> h' = []"
  by (auto simp: lh_maybe_resize_def lh_rebucket_def Let_def split: if_splits)

lemma lh_insert_memory: "lh_insert ch cc lh d [] = (ok, old, lh', h') \<Longrightarrow> ok \<and> h' = []"
  by (auto simp: lh_insert_def split: prod.splits option.splits dest: lh_maybe_resize_memory)

lemma lh_delete_memory: "lh_delete ch cc lh d [] = (old, lh', h') \<Longrightarrow> h' = []"
  by (auto simp: lh_delete_def split: prod.splits option.splits dest: lh_maybe_resize_memory)

lemma lh_step_ok:
  assumes "lh_ok key ch cc lh" and "lh_step ch cc x lh h = (r, lh', h')"
  shows "lh_ok key ch cc lh'"
proof (cases x)
  case (Lh_insert d)
  then show ?thesis using assms(2) table.insert [OF assms(1), of d h] by (auto split: prod.splits)
next
  case (Lh_delete d)
  then show ?thesis using assms(2) table.delete [OF assms(1), of d h] by (auto split: prod.splits)
qed (use assms in auto)

lemma lh_step_memory: "lh_step ch cc x lh [] = (r, lh', h') \<Longrightarrow> h' = []"
  by (cases x) (auto split: prod.splits dest: lh_insert_memory lh_delete_memory)

lemma lh_step_refines:
  assumes ok: "lh_ok key ch cc lh" and step: "lh_step ch cc x lh [] = (r, lh', h')"
  shows "map_step key x (lh_map key lh) = (r, lh_map key lh')"
proof (cases x)
  case (Lh_insert d)
  then show ?thesis using step lh_insert_memory [of ch cc lh d] table.insert [OF ok, of d "[]"] by (auto split: prod.splits)
next
  case (Lh_delete d)
  then show ?thesis using step table.delete [OF ok, of d "[]"] by (auto split: prod.splits)
next
  case (Lh_retrieve d)
  then show ?thesis using step table.retrieve [OF ok] by auto
qed

lemma lh_run_ok:
  "lh_ok key ch cc lh \<Longrightarrow> lh_run ch cc xs lh h = (rs, lh', h') \<Longrightarrow> lh_ok key ch cc lh'"
  by (induction ch cc xs lh h arbitrary: rs lh' h' rule: lh_run.induct) (auto split: prod.splits dest: lh_step_ok)

lemma lh_run_refines:
  "lh_ok key ch cc lh \<Longrightarrow> lh_run ch cc xs lh [] = (rs, lh', h') \<Longrightarrow> map_run key xs (lh_map key lh) = (rs, lh_map key lh')"
proof (induction xs arbitrary: lh rs)
  case (Cons x xs)
  obtain r lh1 h1 where s: "lh_step ch cc x lh [] = (r, lh1, h1)" by (cases "lh_step ch cc x lh []") auto
  from lh_step_memory [OF s] Cons.prems(2) s obtain rs1 where r: "lh_run ch cc xs lh1 [] = (rs1, lh', h')" "rs = r # rs1"
    by (auto split: prod.splits)
  show ?case using lh_step_refines [OF Cons.prems(1) s] Cons.IH [OF lh_step_ok [OF Cons.prems(1) s] r(1)] r(2) by simp
qed simp

lemma lh_new_ok:
  assumes "lh_new hash cmp h = (Some lh, h')" and "agrees key (ch hash) (cc cmp)"
  shows "lh_ok key ch cc lh \<and> lh_map key lh = Map.empty"
  using assms
  by (auto simp: lh_new_def lh_ok_def placed_def items_ok_def lh_map_def kMinNumBuckets_def sizeof_ptr_def size_mod_def split: prod.splits if_splits)

section \<open>Load\<close>

text \<open>
  With memory the average chain length stays between the two bounds, and only the smallest table
  may be emptier.
\<close>

definition load_ok :: "'d lhash \<Rightarrow> bool" where
  "load_ok lh \<longleftrightarrow> num_items lh div num_buckets lh \<le> kMaxAverageChainLength \<and>
     (num_buckets lh = kMinNumBuckets \<or> kMinAverageChainLength \<le> num_items lh div num_buckets lh)"

lemma avg_bounds:
  assumes "kMinNumBuckets \<le> num_buckets lh"
  shows "kMaxAverageChainLength < num_items lh div num_buckets lh \<longleftrightarrow> 3 * num_buckets lh \<le> num_items lh"
    and "num_items lh div num_buckets lh < kMinAverageChainLength \<longleftrightarrow> num_items lh < num_buckets lh"
  using assms less_eq_div_iff_mult_less_eq [of "num_buckets lh" 3 "num_items lh"]
  by (auto simp: kMinNumBuckets_def kMaxAverageChainLength_def kMinAverageChainLength_def div_eq_0_iff)

lemma load_ok_iff:
  assumes "kMinNumBuckets \<le> num_buckets lh"
  shows "load_ok lh \<longleftrightarrow> num_items lh < 3 * num_buckets lh \<and> (num_buckets lh = 16 \<or> num_buckets lh \<le> num_items lh)"
  unfolding load_ok_def not_less [symmetric] avg_bounds [OF assms] by (simp add: kMinNumBuckets_def)

lemma lh_rebucket_memory:
  assumes "lh_rebucket lh n [] = (lh', h')" and "sizeof_ptr * n < size_mod"
  shows "num_buckets lh' = n \<and> num_items lh' = num_items lh \<and> callback_depth lh' = callback_depth lh"
  using assms by (auto simp: lh_rebucket_def Let_def sz_mul_def sizeof_ptr_def split: if_splits)

lemma lh_maybe_resize_load:
  assumes "lh_maybe_resize lh [] = (lh', h')" and "callback_depth lh = 0" and "num_items lh < 2 ^ 60"
    and "kMinNumBuckets \<le> num_buckets lh" and "num_buckets lh * sizeof_ptr < size_mod"
    and "num_items lh \<le> 3 * num_buckets lh" and "num_buckets lh = 16 \<or> num_buckets lh \<le> num_items lh + 1"
  shows "load_ok lh' \<and> num_items lh' = num_items lh \<and> callback_depth lh' = 0"
proof -
  let ?n = "num_buckets lh" and ?i = "num_items lh"
  note avg = avg_bounds [OF assms(4)]
  consider (grow) "3 * ?n \<le> ?i" | (shrink) "?i < ?n" "16 < ?n" | (keep) "?i < 3 * ?n" "?n = 16 \<or> ?n \<le> ?i"
    using assms(4,7) by (fastforce simp: kMinNumBuckets_def)
  then show ?thesis
  proof cases
    case grow
    then have "sz_mul ?n 2 = 2 * ?n" and fits: "sizeof_ptr * (2 * ?n) < size_mod"
      using assms(3) by (simp_all add: sz_mul_def size_mod_def sizeof_ptr_def)
    then have "lh_rebucket lh (2 * ?n) [] = (lh', h')"
      using assms(1,2,4) grow by (simp add: lh_maybe_resize_def avg kMinNumBuckets_def)
    from lh_rebucket_memory [OF this fits] show ?thesis using grow assms(2,4,6) by (simp add: load_ok_iff kMinNumBuckets_def)
  next
    case shrink
    then have i: "?i + 1 = ?n" using assms(7) by linarith
    let ?m = "max 16 (?n div 2)"
    have "\<not> 3 * ?n \<le> ?i" using shrink by linarith
    moreover have "(if ?n div 2 < kMinNumBuckets then kMinNumBuckets else ?n div 2) = ?m" by (simp add: kMinNumBuckets_def)
    ultimately have "lh_rebucket lh ?m [] = (lh', h')"
      using assms(1,2) shrink by (simp add: lh_maybe_resize_def avg kMinNumBuckets_def kMinAverageChainLength_def Let_def)
    moreover have "sizeof_ptr * ?m < size_mod" using assms(5) shrink by (simp add: sizeof_ptr_def)
    ultimately show ?thesis using lh_rebucket_memory [of lh ?m lh' h'] shrink assms(2) i
      by (simp add: load_ok_iff kMinNumBuckets_def) linarith
  next
    case keep
    then have "lh' = lh" using assms(1,2) by (auto simp: lh_maybe_resize_def avg kMinNumBuckets_def)
    then show ?thesis using keep assms(2,4) by (simp add: load_ok_iff)
  qed
qed

text \<open>A step leaves the number of items alone or changes it by one and then resizes.\<close>

lemma lh_step_resizes:
  assumes "lh_step ch cc x lh [] = (r, lh', h')"
  obtains "num_items lh' = num_items lh" "num_buckets lh' = num_buckets lh" "callback_depth lh' = callback_depth lh"
  | lh1 where "lh_maybe_resize lh1 [] = (lh', h')" "num_buckets lh1 = num_buckets lh" "callback_depth lh1 = callback_depth lh"
      "num_items lh1 = num_items lh + 1 \<or> num_items lh1 = num_items lh - 1"
proof (cases x)
  case (Lh_insert d)
  show ?thesis using assms that(1) that(2) unfolding Lh_insert by (fastforce simp: lh_insert_def split: prod.splits option.splits)
next
  case (Lh_delete d)
  show ?thesis using assms that(1) that(2) unfolding Lh_delete by (fastforce simp: lh_delete_def split: prod.splits option.splits)
qed (use assms that(1) in auto)

lemma lh_step_load:
  assumes ok: "lh_ok key ch cc lh" and step: "lh_step ch cc x lh [] = (r, lh', h')" and "load_ok lh" and "callback_depth lh = 0"
    and "num_items lh + 1 < 2 ^ 60"
  shows "load_ok lh' \<and> num_items lh' \<le> num_items lh + 1 \<and> callback_depth lh' = 0"
proof -
  have n: "kMinNumBuckets \<le> num_buckets lh" "num_buckets lh * sizeof_ptr < size_mod" using ok by (simp_all add: lh_ok_def)
  note load = assms(3) [unfolded load_ok_iff [OF n(1)]]
  show ?thesis
  proof (rule lh_step_resizes [OF step])
    assume "num_items lh' = num_items lh" "num_buckets lh' = num_buckets lh" "callback_depth lh' = callback_depth lh"
    then show ?thesis using assms(3,4) by (simp add: load_ok_def)
  next
    fix lh1
    assume r: "lh_maybe_resize lh1 [] = (lh', h')" and lh1: "num_buckets lh1 = num_buckets lh" "callback_depth lh1 = callback_depth lh"
      and i: "num_items lh1 = num_items lh + 1 \<or> num_items lh1 = num_items lh - 1"
    have "num_items lh1 < 2 ^ 60" "num_items lh1 \<le> 3 * num_buckets lh1" "num_buckets lh1 = 16 \<or> num_buckets lh1 \<le> num_items lh1 + 1"
      "num_items lh1 \<le> num_items lh + 1"
      using i load assms(5) lh1(1) by auto
    with lh_maybe_resize_load [OF r] show ?thesis using n lh1 assms(4) by simp
  qed
qed

lemma lh_run_load:
  "lh_ok key ch cc lh \<Longrightarrow> lh_run ch cc xs lh [] = (rs, lh', h') \<Longrightarrow> load_ok lh \<Longrightarrow> callback_depth lh = 0 \<Longrightarrow>
   num_items lh + length xs < 2 ^ 60 \<Longrightarrow> load_ok lh' \<and> callback_depth lh' = 0"
proof (induction xs arbitrary: lh rs)
  case (Cons x xs)
  obtain r lh1 h1 where s: "lh_step ch cc x lh [] = (r, lh1, h1)" by (cases "lh_step ch cc x lh []") auto
  from lh_step_memory [OF s] Cons.prems(2) s obtain rs1 where r: "lh_run ch cc xs lh1 [] = (rs1, lh', h')"
    by (auto split: prod.splits)
  have "load_ok lh1 \<and> num_items lh1 \<le> num_items lh + 1 \<and> callback_depth lh1 = 0"
    using Cons.prems(5) by (intro lh_step_load [OF Cons.prems(1) s Cons.prems(3,4)]) simp
  then show ?case using Cons.IH [OF lh_step_ok [OF Cons.prems(1) s] r] Cons.prems(5) by simp
qed simp

section \<open>Iteration\<close>

lemma lh_insert_in_callback:
  assumes "callback_depth lh > 0" and "lh_insert ch cc lh d h = (ok, old, lh', h')"
  shows "num_buckets lh' = num_buckets lh \<and> callback_depth lh' = callback_depth lh \<and>
    (\<forall>b. b \<noteq> unat (ch (lh_hash lh) d) mod num_buckets lh \<longrightarrow> buckets lh' ! b = buckets lh ! b)"
  using assms by (auto simp: lh_insert_def lh_maybe_resize_def get_next_ptr_and_hash_def Let_def split: prod.splits option.splits if_splits)

lemma lh_delete_in_callback:
  assumes "callback_depth lh > 0" and "lh_delete ch cc lh d h = (old, lh', h')"
  shows "num_buckets lh' = num_buckets lh \<and> callback_depth lh' = callback_depth lh \<and>
    (\<forall>b. b \<noteq> unat (ch (lh_hash lh) d) mod num_buckets lh \<longrightarrow> buckets lh' ! b = buckets lh ! b)"
  using assms by (auto simp: lh_delete_def lh_maybe_resize_def get_next_ptr_and_hash_def Let_def split: prod.splits option.splits if_splits)

lemma fold_buckets: "fold (fold f) bs s = fold f (concat bs) s"
  by (induction bs arbitrary: s) auto

lemma lh_doall_ok:
  assumes ok: "lh_ok key ch cc lh" and "callback_depth lh < UINT_MAX - 1" and "lh_doall_arg lh func arg h = (arg', lh', h')"
  shows "arg' = fold (\<lambda>cur. func (item_data cur)) (concat (buckets lh)) arg \<and> lh_ok key ch cc lh' \<and> lh_map key lh' = lh_map key lh \<and>
    callback_depth lh' = callback_depth lh"
proof -
  have d: "callback_depth lh < UINT_MAX" "callback_depth lh + 1 < UINT_MAX"
    using assms(2) by (simp_all add: UINT_MAX_def word_less_nat_alt unat_word_ariths)
  obtain lh1 h1 where r: "lh_maybe_resize lh h = (lh1, h1)" by (cases "lh_maybe_resize lh h")
  with assms(3) d have "arg' = fold (\<lambda>cur. func (item_data cur)) (concat (buckets lh)) arg" "lh' = lh1"
    by (simp_all add: lh_doall_arg_def Let_def fold_buckets)
  with lh_maybe_resize_ok [OF ok r] show ?thesis by (simp add: same_items_def)
qed

lemma lh_run_memory: "lh_run ch cc xs lh [] = (rs, lh', h') \<Longrightarrow> h' = []"
  by (induction xs arbitrary: lh rs lh' h') (auto split: prod.splits dest: lh_step_memory)

section \<open>Properties\<close>

lemma lh_ok_ran:
  assumes "lh_ok key ch cc lh"
  shows "set (map item_data (concat (buckets lh))) = ran (lh_map key lh)" and "num_items lh = card (dom (lh_map key lh))"
    and "distinct (map key (map item_data (concat (buckets lh))))"
proof -
  let ?e = "entries key (concat (buckets lh))"
  have d: "distinct (map fst ?e)" and n: "num_items lh = length ?e"
    using lh_okD(3,4) [OF assms] by (simp_all add: items_ok_def entries_def)
  have "ran (map_of ?e) = set (map snd ?e)" using d by (simp add: ran_distinct)
  then show "set (map item_data (concat (buckets lh))) = ran (lh_map key lh)" by (simp add: lh_map_def entries_def image_image o_def)
  show "num_items lh = card (dom (lh_map key lh))"
    using distinct_card [OF d] n by (simp add: lh_map_def dom_map_of_conv_image_fst)
  show "distinct (map key (map item_data (concat (buckets lh))))" using d by (simp add: entries_def o_def)
qed

text \<open>
  C25: with memory, any script of insertions, deletions and look-ups on a new table returns what
  it returns on a finite map; then every look-up gives the entry of the map and \<open>lh_num_items\<close> is
  the number of entries, however often the buckets were rebuilt on the way.
\<close>

theorem lh_refines_map:
  assumes "lh_new hash cmp h0 = (Some lh, h)" and "agrees key (ch hash) (cc cmp)"
    and "lh_run ch cc xs lh [] = (rs, lh', h')"
  shows "\<exists>m. map_run key xs Map.empty = (rs, m) \<and> (\<forall>d. lh_retrieve ch cc lh' d = m (key d)) \<and> lh_num_items lh' = card (dom m)"
proof -
  note new = lh_new_ok [of hash cmp h0 lh h key ch cc, OF assms(1,2)]
  then have ok: "lh_ok key ch cc lh'" using lh_run_ok [OF _ assms(3)] by blast
  show ?thesis using lh_run_refines [OF _ assms(3), of key] new lh_ok_ran(2) [OF ok] table.retrieve [OF ok]
    by (auto simp: lh_num_items_def)
qed

text \<open>
  C26: whatever the allocator does, after any script every item is in the bucket its hash selects,
  its stored hash is that of its element, no two elements have the same key and the item count is
  the number of items in the chains.
\<close>

theorem lh_invariant:
  assumes "lh_new hash cmp h0 = (Some lh, h)" and "agrees key (ch hash) (cc cmp)"
    and "lh_run ch cc xs lh h1 = (rs, lh', h')"
  shows "length (buckets lh') = num_buckets lh' \<and> kMinNumBuckets \<le> num_buckets lh' \<and>
    (\<forall>b < num_buckets lh'. \<forall>it \<in> set (buckets lh' ! b). unat (item_hash it) mod num_buckets lh' = b \<and>
       item_hash it = ch (lh_hash lh') (item_data it)) \<and>
    distinct (map (\<lambda>it. key (item_data it)) (concat (buckets lh'))) \<and> num_items lh' = sum_list (map length (buckets lh'))"
proof -
  have ok: "lh_ok key ch cc lh'" using lh_new_ok [of hash cmp h0 lh h key ch cc, OF assms(1,2)] lh_run_ok [OF _ assms(3)] by blast
  then have "length (buckets lh') = num_buckets lh'" by (simp add: lh_ok_def placed_def)
  then have "it \<in> set (concat (buckets lh'))" if "b < num_buckets lh'" "it \<in> set (buckets lh' ! b)" for b it
    using that by (auto intro!: bexI [of _ "buckets lh' ! b"])
  with ok show ?thesis using lh_ok_ran(3) [OF ok]
    by (auto simp: lh_ok_def placed_def items_ok_def o_def length_concat)
qed

text \<open>
  C27: with memory and outside of an iteration, the table grows and shrinks so that there are at
  most two whole items per bucket on average; there are never fewer than \<open>kMinNumBuckets\<close>, and a
  table with more than these has at least one item per bucket on average.
\<close>

theorem lh_load_bounds:
  assumes "lh_new hash cmp h0 = (Some lh, h)" and "agrees key (ch hash) (cc cmp)" and "length xs < 2 ^ 60"
    and "lh_run ch cc xs lh [] = (rs, lh', h')"
  shows "num_items lh' div num_buckets lh' \<le> kMaxAverageChainLength \<and> kMinNumBuckets \<le> num_buckets lh' \<and>
    (kMinNumBuckets < num_buckets lh' \<longrightarrow> kMinAverageChainLength \<le> num_items lh' div num_buckets lh')"
proof -
  note new = lh_new_ok [of hash cmp h0 lh h key ch cc, OF assms(1,2)]
  then have min: "kMinNumBuckets \<le> num_buckets lh'" using lh_run_ok [OF _ assms(4)] by (auto simp: lh_ok_def)
  have "load_ok lh" "callback_depth lh = 0" "num_items lh = 0"
    using assms(1) by (auto simp: lh_new_def load_ok_def split: prod.splits if_splits)
  then show ?thesis using lh_run_load [OF _ assms(4), of key] new min assms(3) by (auto simp: load_ok_def)
qed

text \<open>
  While a callback runs, insertions, deletions and look-ups do not move any item to another
  bucket: they touch only the bucket of their element.
\<close>

theorem lh_stable_in_callback:
  assumes "callback_depth lh > 0" and "lh_step ch cc x lh h = (r, lh', h')"
  shows "num_buckets lh' = num_buckets lh \<and> callback_depth lh' = callback_depth lh \<and>
    (\<forall>b. b \<noteq> unat (ch (lh_hash lh) (case x of Lh_insert d \<Rightarrow> d | Lh_delete d \<Rightarrow> d | Lh_retrieve d \<Rightarrow> d)) mod num_buckets lh \<longrightarrow>
       buckets lh' ! b = buckets lh ! b)"
proof (cases x)
  case (Lh_insert d)
  then show ?thesis using assms(2) lh_insert_in_callback [OF assms(1), of ch cc d h] by (auto split: prod.splits)
next
  case (Lh_delete d)
  then show ?thesis using assms(2) lh_delete_in_callback [OF assms(1), of ch cc d h] by (auto split: prod.splits)
qed (use assms in auto)

text \<open>
  C28: \<open>lh_doall_arg\<close> calls its function on every element of the table exactly once, keeps the
  contents through the resize it may do and restores the callback depth.
\<close>

theorem lh_doall_visits_all:
  assumes "lh_ok key ch cc lh" and "callback_depth lh < UINT_MAX - 1" and "lh_doall_arg lh func arg h = (arg', lh', h')"
  shows "\<exists>xs. distinct xs \<and> set xs = ran (lh_map key lh) \<and> arg' = fold func xs arg \<and>
    lh_ok key ch cc lh' \<and> lh_map key lh' = lh_map key lh \<and> callback_depth lh' = callback_depth lh"
proof (intro exI conjI)
  let ?xs = "map item_data (concat (buckets lh))"
  show "distinct ?xs" using lh_ok_ran(3) [OF assms(1)] by (simp only: distinct_map)
  show "set ?xs = ran (lh_map key lh)" by (rule lh_ok_ran(1) [OF assms(1)])
  show "arg' = fold func ?xs arg" using lh_doall_ok [OF assms] by (simp add: fold_map o_def)
qed (use lh_doall_ok [OF assms] in auto)

section \<open>Witnesses\<close>

text \<open>Numbers keyed by strings, in a table of the default string hash.\<close>

definition str_hash :: "nat \<Rightarrow> byte list \<times> nat \<Rightarrow> uint32" where
  "str_hash f d = lh_strhash (Some (fst d))"

definition str_cmp :: "nat \<Rightarrow> byte list \<times> nat \<Rightarrow> byte list \<times> nat \<Rightarrow> int" where
  "str_cmp f a b = (if fst a = fst b then 0 else 1)"

lemma str_agrees: "agrees fst (str_hash f) (str_cmp g)"
  by (simp add: agrees_def str_hash_def str_cmp_def)

definition empty_table :: "(byte list \<times> nat) lhash" where
  "empty_table = the (fst (lh_new 0 0 []))"

lemma empty_table_new: "lh_new 0 0 [] = (Some empty_table, [])"
  by (simp add: lh_new_def empty_table_def)

definition table_script :: "(byte list \<times> nat) lh_op list" where
  "table_script = [Lh_insert ([97], 1), Lh_insert ([98], 2), Lh_insert ([97], 3), Lh_retrieve ([97], 0), Lh_delete ([98], 0),
     Lh_retrieve ([98], 0)]"

theorem lh_refines_map_witness:
  "\<exists>lh'. lh_run str_hash str_cmp table_script empty_table [] =
     ([Inserted True None, Inserted True None, Inserted True (Some ([97], 1)), Element (Some ([97], 3)),
       Element (Some ([98], 2)), Element None], lh', []) \<and> lh_retrieve str_hash str_cmp lh' ([97], 0) = Some ([97], 3)"
proof -
  obtain rs lh' h' where r: "lh_run str_hash str_cmp table_script empty_table [] = (rs, lh', h')"
    by (cases "lh_run str_hash str_cmp table_script empty_table []") auto
  with lh_run_memory [OF r] lh_refines_map [where ch = str_hash and cc = str_cmp and key = fst, OF empty_table_new str_agrees r] r show ?thesis by (auto simp: table_script_def)
qed

theorem lh_invariant_witness:
  "\<exists>rs lh' h'. lh_run str_hash str_cmp table_script empty_table [False, True] = (rs, lh', h') \<and> num_items lh' = sum_list (map length (buckets lh'))"
proof -
  obtain rs lh' h' where r: "lh_run str_hash str_cmp table_script empty_table [False, True] = (rs, lh', h')"
    by (cases "lh_run str_hash str_cmp table_script empty_table [False, True]") auto
  with lh_invariant [where ch = str_hash and cc = str_cmp and key = fst, OF empty_table_new str_agrees r] show ?thesis by blast
qed

theorem lh_load_bounds_witness:
  "\<exists>rs lh' h'. lh_run str_hash str_cmp table_script empty_table [] = (rs, lh', h') \<and> num_items lh' div num_buckets lh' \<le> 2"
proof -
  obtain rs lh' h' where r: "lh_run str_hash str_cmp table_script empty_table [] = (rs, lh', h')"
    by (cases "lh_run str_hash str_cmp table_script empty_table []") auto
  with lh_load_bounds [where ch = str_hash and cc = str_cmp and key = fst, OF empty_table_new str_agrees _ r] show ?thesis by (simp add: table_script_def kMaxAverageChainLength_def)
qed

theorem lh_stable_in_callback_witness:
  "\<exists>r lh' h'. lh_step str_hash str_cmp (Lh_insert ([97], 1)) (empty_table\<lparr>callback_depth := 1\<rparr>) [] = (r, lh', h') \<and>
     num_buckets lh' = 16"
proof -
  obtain r lh' h' where s: "lh_step str_hash str_cmp (Lh_insert ([97], 1)) (empty_table\<lparr>callback_depth := 1\<rparr>) [] = (r, lh', h')"
    by (cases "lh_step str_hash str_cmp (Lh_insert ([97], 1)) (empty_table\<lparr>callback_depth := 1\<rparr>) []") auto
  from lh_stable_in_callback [OF _ s] have "num_buckets lh' = num_buckets empty_table" by simp
  with s show ?thesis by (auto simp: empty_table_def lh_new_def kMinNumBuckets_def)
qed

theorem lh_doall_visits_all_witness:
  "\<exists>rs lh h lh' h'. lh_run str_hash str_cmp table_script empty_table [] = (rs, lh, h) \<and>
     lh_doall_arg lh (\<lambda>d s. s + snd d) 0 [] = (3, lh', h')"
proof -
  obtain rs lh h where r: "lh_run str_hash str_cmp table_script empty_table [] = (rs, lh, h)"
    by (cases "lh_run str_hash str_cmp table_script empty_table []") auto
  obtain s lh' h' where d: "lh_doall_arg lh (\<lambda>d s. s + snd d) 0 [] = (s, lh', h')"
    by (cases "lh_doall_arg lh (\<lambda>d s. s + snd d) 0 []") auto
  note new = lh_new_ok [of _ _ _ _ _ fst str_hash str_cmp, OF empty_table_new str_agrees]
  have ok: "lh_ok fst str_hash str_cmp lh" using new lh_run_ok [OF _ r] by blast
  have "lh_map fst lh = [[97] \<mapsto> ([97], 3)]" using lh_run_refines [OF _ r, of fst] new by (auto simp: table_script_def fun_eq_iff)
  then have ran: "ran (lh_map fst lh) = {([97::byte], 3)}" by simp
  have "callback_depth lh < UINT_MAX - 1"
    using lh_run_load [OF _ r, of fst] new by (simp add: UINT_MAX_def load_ok_def empty_table_def lh_new_def table_script_def)
  from lh_doall_visits_all [OF ok this d, unfolded ran] obtain xs
    where xs: "distinct xs" "set xs = {([97::byte], 3)}" and s: "s = fold (\<lambda>d s. s + snd d) xs 0"
    by blast
  have "length xs = 1" using distinct_card [OF xs(1)] unfolding xs(2) by simp
  then obtain x where "xs = [x]" by (metis One_nat_def length_0_conv length_Suc_conv)
  then have "s = 3" using xs(2) s by simp
  then show ?thesis using r d by blast
qed

end
