(* ===== verification/ConstTime.thy ===== *)
theory ConstTime
  imports Prelude
begin

text \<open>
  The constant-time comparisons and selections of \<open>crypto/internal.h\<close>: masks of all ones or all
  zeros computed without branches.
\<close>

section \<open>Constant-time words\<close>

type_synonym crypto_word_t = "64 word"

definition CONSTTIME_TRUE_W :: crypto_word_t where "CONSTTIME_TRUE_W = NOT 0"
definition CONSTTIME_FALSE_W :: crypto_word_t where "CONSTTIME_FALSE_W = 0"
definition CONSTTIME_TRUE_8 :: byte where "CONSTTIME_TRUE_8 = 0xff"
definition CONSTTIME_FALSE_8 :: byte where "CONSTTIME_FALSE_8 = 0"

definition value_barrier_w :: "crypto_word_t \<Rightarrow> crypto_word_t" where
  "value_barrier_w a = a"

definition constant_time_msb_w :: "crypto_word_t \<Rightarrow> crypto_word_t" where
  "constant_time_msb_w a = 0 - drop_bit (8 * 8 - 1) a"

definition constant_time_lt_w :: "crypto_word_t \<Rightarrow> crypto_word_t \<Rightarrow> crypto_word_t" where
  "constant_time_lt_w a b = constant_time_msb_w (a XOR ((a XOR b) OR ((a - b) XOR a)))"

definition constant_time_lt_8 :: "crypto_word_t \<Rightarrow> crypto_word_t \<Rightarrow> byte" where
  "constant_time_lt_8 a b = ucast (constant_time_lt_w a b)"

definition constant_time_ge_w :: "crypto_word_t \<Rightarrow> crypto_word_t \<Rightarrow> crypto_word_t" where
  "constant_time_ge_w a b = NOT (constant_time_lt_w a b)"

definition constant_time_ge_8 :: "crypto_word_t \<Rightarrow> crypto_word_t \<Rightarrow> byte" where
  "constant_time_ge_8 a b = ucast (constant_time_ge_w a b)"

definition constant_time_is_zero_w :: "crypto_word_t \<Rightarrow> crypto_word_t" where
  "constant_time_is_zero_w a = constant_time_msb_w (NOT a AND (a - 1))"

definition constant_time_is_zero_8 :: "crypto_word_t \<Rightarrow> byte" where
  "constant_time_is_zero_8 a = ucast (constant_time_is_zero_w a)"

definition constant_time_eq_w :: "crypto_word_t \<Rightarrow> crypto_word_t \<Rightarrow> crypto_word_t" where
  "constant_time_eq_w a b = constant_time_is_zero_w (a XOR b)"

definition constant_time_eq_8 :: "crypto_word_t \<Rightarrow> crypto_word_t \<Rightarrow> byte" where
  "constant_time_eq_8 a b = ucast (constant_time_eq_w a b)"

text \<open>An \<open>int\<close> is converted by sign extension.\<close>

definition constant_time_eq_int :: "32 word \<Rightarrow> 32 word \<Rightarrow> crypto_word_t" where
  "constant_time_eq_int a b = constant_time_eq_w (scast a) (scast b)"

definition constant_time_eq_int_8 :: "32 word \<Rightarrow> 32 word \<Rightarrow> byte" where
  "constant_time_eq_int_8 a b = constant_time_eq_8 (scast a) (scast b)"

definition constant_time_select_w :: "crypto_word_t \<Rightarrow> crypto_word_t \<Rightarrow> crypto_word_t \<Rightarrow> crypto_word_t" where
  "constant_time_select_w msk a b = (value_barrier_w msk AND a) OR (value_barrier_w (NOT msk) AND b)"

text \<open>The 8-bit arguments are promoted: the mask is extended with zeros.\<close>

definition constant_time_select_8 :: "byte \<Rightarrow> byte \<Rightarrow> byte \<Rightarrow> byte" where
  "constant_time_select_8 msk a b = ucast (constant_time_select_w (ucast msk) (ucast a) (ucast b))"

definition constant_time_select_int :: "crypto_word_t \<Rightarrow> 32 word \<Rightarrow> 32 word \<Rightarrow> 32 word" where
  "constant_time_select_int msk a b = ucast (constant_time_select_w msk (scast a) (scast b))"

section \<open>What the masks mean\<close>

lemma bit_top_iff: "bit (w :: 64 word) 63 \<longleftrightarrow> 2 ^ 63 \<le> unat w"
proof -
  have "unat w < 2 ^ 64" using unsigned_less [of w] by simp
  then have "bit (unat w) 63 \<longleftrightarrow> 2 ^ 63 \<le> unat w" by (simp add: bit_iff_odd) (auto simp: odd_iff_mod_2_eq_one div_eq_0_iff)
  then show ?thesis by (simp add: bit_unsigned_iff)
qed

lemma msb_mask: "constant_time_msb_w a = (if bit a 63 then -1 else 0)"
proof -
  have "drop_bit 63 a = of_bool (bit a 63)"
  proof (rule bit_word_eqI)
    fix n assume "n < LENGTH(64)"
    show "bit (drop_bit 63 a) n = bit (of_bool (bit a 63) :: 64 word) n"
      by (cases n) (auto simp: bit_simps dest: bit_imp_le_length)
  qed
  then show ?thesis by (simp add: constant_time_msb_w_def)
qed

lemma constant_time_lt_w_mask: "constant_time_lt_w a b = (if a < b then -1 else 0)"
proof -
  have "bit (a XOR ((a XOR b) OR ((a - b) XOR a))) 63 \<longleftrightarrow> a < b"
  proof (cases "bit a 63 = bit b 63")
    case True
    moreover have "unat a < 2 ^ 64" "unat b < 2 ^ 64" using unsigned_less [of a] unsigned_less [of b] by simp_all
    moreover have "unat (a - b) = (if unat b \<le> unat a then unat a - unat b else unat a + 2 ^ 64 - unat b)"
      by (simp add: unat_sub_if')
    ultimately have "bit (a - b) 63 \<longleftrightarrow> a < b" unfolding bit_top_iff word_less_nat_alt by (auto split: if_splits)
    with True show ?thesis by (auto simp: bit_simps)
  next
    case False
    then have "a < b \<longleftrightarrow> bit b 63" unfolding bit_top_iff word_less_nat_alt by auto
    with False show ?thesis by (auto simp: bit_simps)
  qed
  then show ?thesis by (simp add: constant_time_lt_w_def msb_mask)
qed

lemma constant_time_is_zero_w_mask: "constant_time_is_zero_w a = (if a = 0 then -1 else 0)"
proof -
  have "bit (NOT a AND (a - 1)) 63 \<longleftrightarrow> a = 0"
  proof (cases "a = 0")
    case False
    then have "unat (a - 1) = unat a - 1" by (simp add: unat_minus_one)
    then have "\<not> (\<not> bit a 63 \<and> bit (a - 1) 63)" by (auto simp: bit_top_iff)
    with False show ?thesis by (simp only: bit_and_iff bit_not_iff) auto
  qed (simp add: bit_simps)
  then show ?thesis by (simp add: constant_time_is_zero_w_def msb_mask)
qed

lemma xor_eq_0_iff_eq: "(a :: 'a::len word) XOR b = 0 \<longleftrightarrow> a = b"
  by (auto simp: bit_eq_iff bit_simps)

lemma constant_time_eq_w_mask: "constant_time_eq_w a b = (if a = b then -1 else 0)"
  using xor_eq_0_iff_eq [of a b] by (simp add: constant_time_eq_w_def constant_time_is_zero_w_mask)

lemma constant_time_select_w_mask:
  "constant_time_select_w (-1) a b = a" "constant_time_select_w 0 a b = b"
  by (simp_all add: constant_time_select_w_def value_barrier_w_def)

lemma byte_ones: "(ucast (-1 :: 64 word) :: byte) = 255"
proof -
  have "(ucast (-1 :: 64 word) :: byte) = -1" by (simp add: bit_eq_iff bit_simps)
  also have "(-1 :: byte) = 255" by (simp add: word_unat_eq_iff unsigned_minus_1_eq_mask mask_eq_exp_minus_1)
  finally show ?thesis .
qed

lemma constant_time_8_masks:
  "constant_time_lt_8 a b = (if a < b then 255 else 0)" "constant_time_ge_8 a b = (if b \<le> a then 255 else 0)"
  "constant_time_is_zero_8 a = (if a = 0 then 255 else 0)" "constant_time_eq_8 a b = (if a = b then 255 else 0)"
  by (auto simp: constant_time_lt_8_def constant_time_lt_w_mask constant_time_ge_8_def constant_time_ge_w_def
      constant_time_is_zero_8_def constant_time_is_zero_w_mask constant_time_eq_8_def constant_time_eq_w_mask byte_ones)

lemma ucast_byte_word: "ucast (ucast (x :: byte) :: 64 word) = x"
  by (rule bit_word_eqI) (auto simp: bit_simps)

lemma constant_time_select_8_mask: "constant_time_select_8 (if P then 255 else 0) a b = (if P then a else b)"
proof -
  have "(255 :: 64 word) = mask 8" by (simp add: mask_eq_exp_minus_1)
  then have "ucast (0xff AND ucast a OR NOT 0xff AND ucast b :: 64 word) = a"
    by (auto simp: bit_eq_iff bit_simps)
  then show ?thesis
    by (auto simp: constant_time_select_8_def constant_time_select_w_def value_barrier_w_def ucast_byte_word)
qed

lemma scast_inj: "(scast (a :: 32 word) :: 64 word) = scast b \<longleftrightarrow> a = b"
  by (auto dest: arg_cong [where f = "scast :: 64 word \<Rightarrow> 32 word"] simp: scast_up_scast_id is_up)

lemma ucast_scast_int: "ucast (scast (a :: 32 word) :: 64 word) = a"
  by (rule bit_word_eqI) (auto simp: bit_simps)

section \<open>Property\<close>

text \<open>
  C29: the branch-free comparisons and selections compute what the branches would: a selection by
  a comparison mask is a conditional, for words, bytes and ints, with no assumption on the
  operands.
\<close>

theorem constant_time_selects:
  "constant_time_select_w (constant_time_lt_w a b) x y = (if a < b then x else y) \<and>
   constant_time_select_w (constant_time_ge_w a b) x y = (if b \<le> a then x else y) \<and>
   constant_time_select_w (constant_time_is_zero_w a) x y = (if a = 0 then x else y) \<and>
   constant_time_select_w (constant_time_eq_w a b) x y = (if a = b then x else y) \<and>
   constant_time_select_8 (constant_time_lt_8 a b) v w = (if a < b then v else w) \<and>
   constant_time_select_8 (constant_time_ge_8 a b) v w = (if b \<le> a then v else w) \<and>
   constant_time_select_8 (constant_time_is_zero_8 a) v w = (if a = 0 then v else w) \<and>
   constant_time_select_8 (constant_time_eq_8 a b) v w = (if a = b then v else w) \<and>
   constant_time_select_8 (constant_time_eq_int_8 i j) v w = (if i = j then v else w) \<and>
   constant_time_select_int (constant_time_eq_int i j) k l = (if i = j then k else l)"
  unfolding constant_time_8_masks constant_time_eq_int_8_def constant_time_select_8_mask constant_time_eq_int_def
    constant_time_eq_w_mask constant_time_lt_w_mask constant_time_is_zero_w_mask constant_time_ge_w_def
    constant_time_select_int_def scast_inj
  by (auto simp: constant_time_select_w_mask ucast_scast_int not_le)

end
