(* ===== verification/Base64.thy ===== *)
theory Base64
  imports ConstTime
begin

text \<open>
  The base64 coder of \<open>crypto/base64/base64.c\<close>: the block functions, the streaming encoder that
  breaks lines after 64 characters, and the streaming decoder that skips white space. The bytes
  an operation writes from \<open>out\<close> on are returned as a list, those beyond \<open>*out_len\<close> included.
\<close>

section \<open>Characters\<close>

definition constant_time_lt_args_8 :: "byte \<Rightarrow> byte \<Rightarrow> byte" where
  "constant_time_lt_args_8 a b = (let aw = ucast a; bw = ucast b in ucast (constant_time_msb_w (aw - bw)))"

definition constant_time_in_range_8 :: "byte \<Rightarrow> byte \<Rightarrow> byte \<Rightarrow> byte" where
  "constant_time_in_range_8 a lo hi = constant_time_lt_args_8 (a - lo) (hi - lo + 1)"

text \<open>The character codes: \<open>+ / 0 a A = z 9 Z\<close> are 43, 47, 48, 97, 65, 61, 122, 57 and 90.\<close>

definition conv_bin2ascii :: "byte \<Rightarrow> byte" where
  "conv_bin2ascii a =
     (let a = a AND 0x3f;
          ret = constant_time_select_8 (constant_time_eq_8 (ucast a) 62) 43 47;
          ret = constant_time_select_8 (constant_time_lt_args_8 a 62) (a - 52 + 48) ret;
          ret = constant_time_select_8 (constant_time_lt_args_8 a 52) (a - 26 + 97) ret
      in constant_time_select_8 (constant_time_lt_args_8 a 26) (a + 65) ret)"

definition base64_ascii_to_bin :: "byte \<Rightarrow> byte" where
  "base64_ascii_to_bin a =
     (let is_upper = constant_time_in_range_8 a 65 90;
          is_lower = constant_time_in_range_8 a 97 122;
          is_digit = constant_time_in_range_8 a 48 57;
          is_plus = constant_time_eq_8 (ucast a) 43;
          is_slash = constant_time_eq_8 (ucast a) 47;
          is_equals = constant_time_eq_8 (ucast a) 61;
          ret = 0xff;
          ret = constant_time_select_8 is_upper (a - 65) ret;
          ret = constant_time_select_8 is_lower (a - 97 + 26) ret;
          ret = constant_time_select_8 is_digit (a - 48 + 52) ret;
          ret = constant_time_select_8 is_plus 62 ret;
          ret = constant_time_select_8 is_slash 63 ret
      in constant_time_select_8 is_equals 0 ret)"

section \<open>Encoding\<close>

definition EVP_EncodedLength :: "nat \<Rightarrow> nat option" where
  "EVP_EncodedLength len =
     (if sz_add len 2 < len then None
      else
        let len = sz_add len 2 div 3 in
        if sz_mul len 4 div 4 \<noteq> len then None
        else
          let len = sz_mul len 4 in
          if sz_add len 1 < len then None else Some (sz_add len 1))"

record evp_encode_ctx =
  data_used :: nat
  ctx_data :: "byte list"
  eof_seen :: bool
  error_encountered :: bool

definition sizeof_data :: nat where "sizeof_data = 48"

definition EVP_EncodeInit :: evp_encode_ctx where
  "EVP_EncodeInit = \<lparr>data_used = 0, ctx_data = replicate sizeof_data 0, eof_seen = False, error_encountered = False\<rparr>"

definition out_char :: "uint32 \<Rightarrow> byte" where
  "out_char l = conv_bin2ascii (ucast l)"

text \<open>One turn of the loop of \<open>EVP_EncodeBlock\<close> per case: three bytes or more, two, one.\<close>

fun encode_block_loop :: "byte list \<Rightarrow> byte list" where
  "encode_block_loop [] = []"
| "encode_block_loop [a] =
     (let l = push_bit 16 (ucast a) in [out_char (drop_bit 18 l), out_char (drop_bit 12 l), 61, 61])"
| "encode_block_loop [a, b] =
     (let l = push_bit 16 (ucast a) OR push_bit 8 (ucast b)
      in [out_char (drop_bit 18 l), out_char (drop_bit 12 l), out_char (drop_bit 6 l), 61])"
| "encode_block_loop (a # b # c # src) =
     (let l = push_bit 16 (ucast a) OR push_bit 8 (ucast b) OR ucast c
      in [out_char (drop_bit 18 l), out_char (drop_bit 12 l), out_char (drop_bit 6 l), out_char l] @ encode_block_loop src)"

text \<open>The bytes written to \<open>dst\<close>, with the terminator, and the count of the others.\<close>

definition EVP_EncodeBlock :: "byte list \<Rightarrow> byte list \<times> nat" where
  "EVP_EncodeBlock src = (let dst = encode_block_loop src in (dst @ [0], length dst))"

definition set_data :: "nat \<Rightarrow> byte list \<Rightarrow> evp_encode_ctx \<Rightarrow> evp_encode_ctx" where
  "set_data off xs ctx = ctx\<lparr>ctx_data := take off (ctx_data ctx) @ xs @ drop (off + length xs) (ctx_data ctx)\<rparr>"

text \<open>
  The loop over whole lines: the bytes written so far without the terminator, the rest of the
  input and \<open>total\<close>, or \<open>None\<close> where \<open>total\<close> overflows.
\<close>

function (sequential) encode_lines_loop :: "byte list \<Rightarrow> byte list \<Rightarrow> nat \<Rightarrow> byte list \<times> (byte list \<times> nat) option" where
  "encode_lines_loop inp out tot =
     (if length inp < sizeof_data then (out, Some (inp, tot))
      else (case EVP_EncodeBlock (take sizeof_data inp) of (dst, encoded) \<Rightarrow>
        let out = out @ take encoded dst @ [10] in
        if sz_add (sz_add tot encoded) 1 < tot then (out, None)
        else encode_lines_loop (drop sizeof_data inp) out (sz_add (sz_add tot encoded) 1)))"
  by pat_completeness auto
termination by (relation "measure (\<lambda>(inp, _, _). length inp)") (auto simp: sizeof_data_def)

declare encode_lines_loop.simps [simp del]

definition INT_MAX :: nat where "INT_MAX = 2147483647"

text \<open>The bytes written, \<open>*out_len\<close> and the new context.\<close>

definition EVP_EncodeUpdate :: "evp_encode_ctx \<Rightarrow> byte list \<Rightarrow> byte list \<times> nat \<times> evp_encode_ctx" where
  "EVP_EncodeUpdate ctx inp =
     (if inp = [] then ([], 0, ctx)
      else if sizeof_data - data_used ctx > length inp then
        ([], 0, (set_data (data_used ctx) inp ctx)\<lparr>data_used := data_used ctx + length inp\<rparr>)
      else
        (case (if data_used ctx \<noteq> 0 then
                 (let todo = sizeof_data - data_used ctx;
                      ctx = set_data (data_used ctx) (take todo inp) ctx
                  in (case EVP_EncodeBlock (ctx_data ctx) of (dst, encoded) \<Rightarrow>
                       (take encoded dst @ [10], drop todo inp, encoded + 1, ctx\<lparr>data_used := 0\<rparr>)))
               else ([], inp, 0, ctx)) of (out, inp, tot, ctx) \<Rightarrow>
          (case encode_lines_loop inp out tot of
            (out, None) \<Rightarrow> (out @ [0], 0, ctx)
          | (out, Some (rest, tot)) \<Rightarrow>
              (if out = [] then [] else out @ [0], if tot > INT_MAX then 0 else tot,
               (if rest \<noteq> [] then set_data 0 rest ctx else ctx)\<lparr>data_used := length rest\<rparr>))))"

definition EVP_EncodeFinal :: "evp_encode_ctx \<Rightarrow> byte list \<times> nat \<times> evp_encode_ctx" where
  "EVP_EncodeFinal ctx =
     (if data_used ctx = 0 then ([], 0, ctx)
      else (case EVP_EncodeBlock (take (data_used ctx) (ctx_data ctx)) of (dst, encoded) \<Rightarrow>
        (take encoded dst @ [10, 0], encoded + 1, ctx\<lparr>data_used := 0\<rparr>)))"

section \<open>Decoding\<close>

definition EVP_DecodedLength :: "nat \<Rightarrow> nat option" where
  "EVP_DecodedLength len = (if len mod 4 \<noteq> 0 then None else Some (len div 4 * 3))"

definition EVP_DecodeInit :: evp_encode_ctx where
  "EVP_DecodeInit = \<lparr>data_used = 0, ctx_data = replicate sizeof_data 0, eof_seen = False, error_encountered = False\<rparr>"

text \<open>The bytes written on success; their number is \<open>*out_num_bytes\<close>.\<close>

definition base64_decode_quad :: "byte \<Rightarrow> byte \<Rightarrow> byte \<Rightarrow> byte \<Rightarrow> byte list option" where
  "base64_decode_quad in0 in1 in2 in3 =
     (let a = base64_ascii_to_bin in0; b = base64_ascii_to_bin in1; c = base64_ascii_to_bin in2; d = base64_ascii_to_bin in3 in
      if a = 0xff \<or> b = 0xff \<or> c = 0xff \<or> d = 0xff then None
      else
        let v = push_bit 18 (ucast a) OR push_bit 12 (ucast b) OR push_bit 6 (ucast c) OR ucast d :: uint32;
            padding_pattern = of_bool (in0 = 61) * 8 + of_bool (in1 = 61) * 4 + of_bool (in2 = 61) * 2 + of_bool (in3 = 61) :: nat
        in if padding_pattern = 0 then Some [ucast (drop_bit 16 v), ucast (drop_bit 8 v), ucast v]
           else if padding_pattern = 1 then Some [ucast (drop_bit 16 v), ucast (drop_bit 8 v)]
           else if padding_pattern = 3 then Some [ucast (drop_bit 16 v)]
           else None)"

definition quad_at :: "byte list \<Rightarrow> byte list option" where
  "quad_at xs = base64_decode_quad (xs ! 0) (xs ! 1) (xs ! 2) (xs ! 3)"

definition is_space :: "byte \<Rightarrow> bool" where
  "is_space c \<longleftrightarrow> c = 32 \<or> c = 9 \<or> c = 13 \<or> c = 10"

text \<open>The loop of \<open>EVP_DecodeUpdate\<close>: \<open>None\<close> where it returns -1.\<close>

fun decode_update_loop :: "evp_encode_ctx \<Rightarrow> byte list \<Rightarrow> byte list \<Rightarrow> byte list option \<times> evp_encode_ctx" where
  "decode_update_loop ctx out [] = (Some out, ctx)"
| "decode_update_loop ctx out (c # inp) =
     (if is_space c then decode_update_loop ctx out inp
      else if eof_seen ctx then (None, ctx\<lparr>error_encountered := True\<rparr>)
      else
        let ctx = (set_data (data_used ctx) [c] ctx)\<lparr>data_used := data_used ctx + 1\<rparr> in
        if data_used ctx = 4 then
          (case quad_at (ctx_data ctx) of
            None \<Rightarrow> (None, ctx\<lparr>error_encountered := True\<rparr>)
          | Some bytes \<Rightarrow>
              (let ctx = ctx\<lparr>data_used := 0\<rparr>;
                   ctx = (if length bytes < 3 then ctx\<lparr>eof_seen := True\<rparr> else ctx)
               in decode_update_loop ctx (out @ bytes) inp))
        else decode_update_loop ctx out inp)"

text \<open>The return value, the \<open>*out_len\<close> bytes decoded and the new context.\<close>

definition EVP_DecodeUpdate :: "evp_encode_ctx \<Rightarrow> byte list \<Rightarrow> int \<times> byte list \<times> evp_encode_ctx" where
  "EVP_DecodeUpdate ctx inp =
     (if error_encountered ctx then (-1, [], ctx)
      else (case decode_update_loop ctx [] inp of
        (None, ctx) \<Rightarrow> (-1, [], ctx)
      | (Some out, ctx) \<Rightarrow>
          if length out > INT_MAX then (-1, [], ctx\<lparr>error_encountered := True\<rparr>)
          else (if eof_seen ctx then 0 else 1, out, ctx)))"

definition EVP_DecodeFinal :: "evp_encode_ctx \<Rightarrow> int" where
  "EVP_DecodeFinal ctx = (if error_encountered ctx \<or> data_used ctx \<noteq> 0 then -1 else 1)"

text \<open>
  The loop of \<open>EVP_DecodeBase64\<close> on the input from \<open>i\<close> on: the return value and the bytes written
  from \<open>out\<close> on, on failure too. \<open>i \<noteq> in_len - 4\<close> says that the quad is not the last one.
\<close>

fun decode_base64_writes :: "byte list \<Rightarrow> byte list \<Rightarrow> bool \<times> byte list" where
  "decode_base64_writes out (a # b # c # d # inp) =
     (case base64_decode_quad a b c d of
       None \<Rightarrow> (False, out)
     | Some bytes \<Rightarrow>
         if length bytes \<noteq> 3 \<and> inp \<noteq> [] then (False, out @ bytes)
         else decode_base64_writes (out @ bytes) inp)"
| "decode_base64_writes out inp = (True, out)"

definition EVP_DecodeBase64_out :: "nat \<Rightarrow> byte list \<Rightarrow> bool \<times> byte list" where
  "EVP_DecodeBase64_out max_out inp =
     (if length inp mod 4 \<noteq> 0 then (False, [])
      else (case EVP_DecodedLength (length inp) of
        None \<Rightarrow> (False, [])
      | Some max_len \<Rightarrow> if max_out < max_len then (False, []) else decode_base64_writes [] inp))"

text \<open>The result alone: the \<open>*out_len\<close> bytes decoded, \<open>None\<close> for the return value 0.\<close>

definition EVP_DecodeBase64 :: "nat \<Rightarrow> byte list \<Rightarrow> byte list option" where
  "EVP_DecodeBase64 max_out inp = (case EVP_DecodeBase64_out max_out inp of (ok, out) \<Rightarrow> if ok then Some out else None)"

text \<open>The result of the loop.\<close>

fun decode_base64_loop :: "byte list \<Rightarrow> byte list option" where
  "decode_base64_loop (a # b # c # d # inp) =
     (case base64_decode_quad a b c d of
       None \<Rightarrow> None
     | Some bytes \<Rightarrow>
         if length bytes \<noteq> 3 \<and> inp \<noteq> [] then None
         else map_option ((@) bytes) (decode_base64_loop inp))"
| "decode_base64_loop inp = Some []"

lemma decode_writes_loop:
  "(case decode_base64_writes out t of (ok, written) \<Rightarrow> if ok then Some written else None) = map_option ((@) out) (decode_base64_loop t)"
  by (induction out t rule: decode_base64_writes.induct)
    (auto split: option.splits simp: option.map_comp o_def)

lemma EVP_DecodeBase64_eq:
  "EVP_DecodeBase64 max_out inp =
     (if length inp mod 4 \<noteq> 0 then None
      else (case EVP_DecodedLength (length inp) of
        None \<Rightarrow> None
      | Some max_len \<Rightarrow> if max_out < max_len then None else decode_base64_loop inp))"
  using decode_writes_loop [of "[]" inp]
  by (cases "decode_base64_loop inp") (simp_all add: EVP_DecodeBase64_def EVP_DecodeBase64_out_def split: option.splits)

text \<open>\<open>None\<close> stands for -1; the zero bytes put in place of the padding are counted.\<close>

definition EVP_DecodeBlock :: "byte list \<Rightarrow> byte list option" where
  "EVP_DecodeBlock src =
     (let src = dropWhile (\<lambda>c. c = 32 \<or> c = 9) src;
          src = rev (dropWhile is_space (rev src))
      in (case EVP_DecodedLength (length src) of
           None \<Rightarrow> None
         | Some dst_len \<Rightarrow>
             if dst_len > INT_MAX then None
             else (case EVP_DecodeBase64 dst_len src of
               None \<Rightarrow> None
             | Some dst \<Rightarrow> Some (dst @ replicate ((3 - length dst mod 3) mod 3) 0))))"

section \<open>The alphabet\<close>

lemma lt_args_8_mask: "constant_time_lt_args_8 a b = (if a < b then 255 else 0)"
proof -
  have "bit (ucast a - ucast b :: 64 word) 63 \<longleftrightarrow> a < b"
    unfolding bit_top_iff word_less_nat_alt
    using unat_byte_less [of a] unat_byte_less [of b] by (auto simp: unat_sub_if' simp del: unat_byte_less)
  then show ?thesis by (simp add: constant_time_lt_args_8_def msb_mask byte_ones)
qed

lemma in_range_mask:
  "constant_time_in_range_8 a 65 90 = (if 65 \<le> a \<and> a \<le> 90 then 255 else 0)"
  "constant_time_in_range_8 a 97 122 = (if 97 \<le> a \<and> a \<le> 122 then 255 else 0)"
  "constant_time_in_range_8 a 48 57 = (if 48 \<le> a \<and> a \<le> 57 then 255 else 0)"
  using unat_byte_less [of a]
  by (auto simp: constant_time_in_range_8_def lt_args_8_mask word_less_nat_alt word_le_nat_alt unat_sub_if' simp del: unat_byte_less split: if_splits)

lemma ucast_byte_eq: "(ucast (a :: byte) :: 64 word) = ucast b \<longleftrightarrow> a = b"
  by (auto simp: word_unat_eq_iff)

lemma conv_bin2ascii_cases:
  "conv_bin2ascii a = (let a = a AND 63 in
     if a < 26 then a + 65 else if a < 52 then a + 71 else if a < 62 then a - 4 else if a = 62 then 43 else 47)"
  using ucast_byte_eq [of _ 62]
  by (simp add: conv_bin2ascii_def Let_def lt_args_8_mask constant_time_8_masks constant_time_select_8_mask)

lemma base64_ascii_to_bin_cases:
  "base64_ascii_to_bin a =
     (if a = 61 then 0 else if a = 47 then 63 else if a = 43 then 62 else if 48 \<le> a \<and> a \<le> 57 then a + 4
      else if 97 \<le> a \<and> a \<le> 122 then a - 71 else if 65 \<le> a \<and> a \<le> 90 then a - 65 else 255)"
  using ucast_byte_eq [of a 43] ucast_byte_eq [of a 47] ucast_byte_eq [of a 61]
  by (simp add: base64_ascii_to_bin_def Let_def in_range_mask constant_time_8_masks constant_time_select_8_mask)

lemma and_63_less: "a AND 63 < (64 :: byte)"
  using unat_and_mask [of a 6] by (simp add: mask_eq_exp_minus_1 word_less_nat_alt)

lemma and_63_id: "a < 64 \<Longrightarrow> a AND 63 = (a :: byte)"
  using unat_and_mask [of a 6] by (simp add: mask_eq_exp_minus_1 word_less_nat_alt word_unat_eq_iff)

definition is_digit :: "byte \<Rightarrow> bool" where
  "is_digit c \<longleftrightarrow> 65 \<le> c \<and> c \<le> 90 \<or> 97 \<le> c \<and> c \<le> 122 \<or> 48 \<le> c \<and> c \<le> 57 \<or> c = 43 \<or> c = 47"

lemma conv_below_64:
  assumes "b < 64"
  shows "is_digit (conv_bin2ascii b) \<and> base64_ascii_to_bin (conv_bin2ascii b) = b"
proof -
  have "unat b < 64" using assms by (simp add: word_less_nat_alt)
  then show ?thesis
    unfolding conv_bin2ascii_cases and_63_id [OF assms] base64_ascii_to_bin_cases is_digit_def word_less_nat_alt word_le_nat_alt
      word_unat_eq_iff Let_def
    by (auto simp: unat_word_ariths unat_sub_if')
qed

lemma conv_digit: "is_digit (conv_bin2ascii a)"
  and conv_bin: "base64_ascii_to_bin (conv_bin2ascii a) = a AND 63"
proof -
  have "conv_bin2ascii a = conv_bin2ascii (a AND 63)" by (simp add: conv_bin2ascii_cases)
  then show "is_digit (conv_bin2ascii a)" "base64_ascii_to_bin (conv_bin2ascii a) = a AND 63"
    using conv_below_64 [OF and_63_less [of a]] by simp_all
qed

lemma bin_invalid: "base64_ascii_to_bin c = 255 \<longleftrightarrow> \<not> is_digit c \<and> c \<noteq> 61"
  unfolding base64_ascii_to_bin_cases is_digit_def word_less_nat_alt word_le_nat_alt word_unat_eq_iff
  using unat_byte_less [of c] by (auto simp: unat_word_ariths unat_sub_if' simp del: unat_byte_less)

section \<open>Quads\<close>

definition sextet :: "nat \<Rightarrow> uint32 \<Rightarrow> byte" where
  "sextet k l = ucast (drop_bit k l) AND 63"

lemma bit_63: "bit (63 :: byte) n \<longleftrightarrow> n < 6"
proof -
  have "(63 :: byte) = mask 6" by (simp add: mask_eq_exp_minus_1)
  then show ?thesis by (simp only: bit_mask_iff) auto
qed

lemma bit_sextet: "bit (sextet k l) n \<longleftrightarrow> n < 6 \<and> bit l (k + n)"
  unfolding sextet_def bit_and_iff bit_63 by (auto simp: bit_simps)

lemma sextets_join:
  "push_bit 18 (ucast (sextet 18 l)) OR push_bit 12 (ucast (sextet 12 l)) OR push_bit 6 (ucast (sextet 6 l)) OR ucast (sextet 0 l) =
   l AND mask 24" (is "?v = _")
proof (rule bit_word_eqI)
  fix n assume "n < LENGTH(32)"
  then have n: "n < 32" by simp
  have "bit ?v n \<longleftrightarrow> 18 \<le> n \<and> n < 24 \<and> bit l n \<or> 12 \<le> n \<and> n < 18 \<and> bit l n \<or> 6 \<le> n \<and> n < 12 \<and> bit l n \<or> n < 6 \<and> bit l n"
    using n
    by (cases "18 \<le> n"; cases "12 \<le> n"; cases "6 \<le> n") (auto simp: bit_simps bit_sextet)
  also have "\<dots> \<longleftrightarrow> bit (l AND mask 24) n" using n by (auto simp: bit_simps)
  finally show "bit ?v n = bit (l AND mask 24) n" .
qed

lemma and_63_twice: "(x AND 63) AND 63 = (x AND 63 :: byte)"
  using and_63_id [OF and_63_less [of x]] .

lemma out_char_sextet: "out_char (drop_bit k l) = conv_bin2ascii (sextet k l)" "out_char l = conv_bin2ascii (sextet 0 l)"
  by (simp_all add: out_char_def sextet_def conv_bin2ascii_cases and_63_twice)

lemma bin_of_sextet: "base64_ascii_to_bin (conv_bin2ascii (sextet k l)) = sextet k l"
  by (simp add: conv_bin sextet_def and_63_twice)

lemma sextet_not_invalid: "sextet k l \<noteq> 255" "conv_bin2ascii x \<noteq> 61" "base64_ascii_to_bin 61 = 0"
  using and_63_less [of "ucast (drop_bit k l)"] conv_digit [of x]
  by (auto simp: sextet_def is_digit_def base64_ascii_to_bin_cases word_less_nat_alt)

lemma decode_quad_3:
  "base64_decode_quad (conv_bin2ascii (sextet 18 l)) (conv_bin2ascii (sextet 12 l)) (conv_bin2ascii (sextet 6 l)) (conv_bin2ascii (sextet 0 l)) =
   Some [ucast (drop_bit 16 (l AND mask 24)), ucast (drop_bit 8 (l AND mask 24)), ucast (l AND mask 24)]"
  unfolding base64_decode_quad_def Let_def bin_of_sextet sextets_join by (simp add: sextet_not_invalid)

lemma decode_quad_2:
  assumes "sextet 0 l = 0"
  shows "base64_decode_quad (conv_bin2ascii (sextet 18 l)) (conv_bin2ascii (sextet 12 l)) (conv_bin2ascii (sextet 6 l)) 61 =
   Some [ucast (drop_bit 16 (l AND mask 24)), ucast (drop_bit 8 (l AND mask 24))]"
  unfolding base64_decode_quad_def Let_def bin_of_sextet sextets_join [symmetric]
  using assms by (simp add: sextet_not_invalid)

lemma decode_quad_1:
  assumes "sextet 0 l = 0" "sextet 6 l = 0"
  shows "base64_decode_quad (conv_bin2ascii (sextet 18 l)) (conv_bin2ascii (sextet 12 l)) 61 61 = Some [ucast (drop_bit 16 (l AND mask 24))]"
  unfolding base64_decode_quad_def Let_def bin_of_sextet sextets_join [symmetric]
  using assms by (simp add: sextet_not_invalid)

definition triple :: "byte \<Rightarrow> byte \<Rightarrow> byte \<Rightarrow> uint32" where
  "triple a b c = push_bit 16 (ucast a) OR push_bit 8 (ucast b) OR ucast c"

lemma triple_bytes:
  "(ucast (drop_bit 16 (triple a b c AND mask 24)) :: byte) = a" "(ucast (drop_bit 8 (triple a b c AND mask 24)) :: byte) = b"
  "(ucast (triple a b c AND mask 24) :: byte) = c"
  by (rule bit_word_eqI, auto simp: triple_def bit_simps dest: bit_imp_le_length)+

lemma triple_padding: "sextet 0 (triple a b 0) = 0" "sextet 6 (triple a 0 0) = 0"
  by (rule bit_word_eqI, auto simp: triple_def bit_sextet bit_simps dest: bit_imp_le_length)+

lemmas quads = decode_quad_1 [of "triple a 0 0" for a, unfolded triple_bytes, OF triple_padding(1) triple_padding(2)]
  decode_quad_2 [of "triple a b 0" for a b, unfolded triple_bytes, OF triple_padding(1)]
  decode_quad_3 [of "triple a b c" for a b c, unfolded triple_bytes]

lemma encode_block_loop_triple:
  "encode_block_loop [a] = [conv_bin2ascii (sextet 18 (triple a 0 0)), conv_bin2ascii (sextet 12 (triple a 0 0)), 61, 61]"
  "encode_block_loop [a, b] =
    [conv_bin2ascii (sextet 18 (triple a b 0)), conv_bin2ascii (sextet 12 (triple a b 0)), conv_bin2ascii (sextet 6 (triple a b 0)), 61]"
  "encode_block_loop (a # b # c # src) =
    [conv_bin2ascii (sextet 18 (triple a b c)), conv_bin2ascii (sextet 12 (triple a b c)), conv_bin2ascii (sextet 6 (triple a b c)),
     conv_bin2ascii (sextet 0 (triple a b c))] @ encode_block_loop src"
  using out_char_sextet by (simp_all add: triple_def Let_def)

declare encode_block_loop.simps(2-4) [simp del]

lemma decode_encode_loop: "decode_base64_loop (encode_block_loop xs) = Some xs"
  by (induction xs rule: encode_block_loop.induct) (simp_all add: encode_block_loop_triple quads)

lemma length_encode_loop: "length (encode_block_loop xs) = 4 * ((length xs + 2) div 3)"
proof (induction xs rule: encode_block_loop.induct)
  case (4 a b c src)
  have "(length (a # b # c # src) + 2) div 3 = Suc ((length src + 2) div 3)"
    using div_add_self2 [of 3 "length src + 2"] by simp
  then show ?case using 4 by (simp add: encode_block_loop_triple)
qed (simp_all add: encode_block_loop_triple)

section \<open>The accepted texts\<close>

text \<open>
  Base64 text: groups of four digits, of which the last may end in one or two padding characters.
\<close>

fun base64_text :: "byte list \<Rightarrow> bool" where
  "base64_text (a # b # c # d # inp) \<longleftrightarrow>
     is_digit a \<and> is_digit b \<and>
     (if inp = [] then is_digit c \<and> (is_digit d \<or> d = 61) \<or> c = 61 \<and> d = 61
      else is_digit c \<and> is_digit d \<and> base64_text inp)"
| "base64_text inp \<longleftrightarrow> inp = []"

lemma not_digit_61: "\<not> is_digit 61"
  by (simp add: is_digit_def word_le_nat_alt)

definition quad_bytes :: "byte \<Rightarrow> byte \<Rightarrow> byte \<Rightarrow> byte \<Rightarrow> byte list" where
  "quad_bytes a b c d =
     (let v = push_bit 18 (ucast (base64_ascii_to_bin a)) OR push_bit 12 (ucast (base64_ascii_to_bin b)) OR
          push_bit 6 (ucast (base64_ascii_to_bin c)) OR ucast (base64_ascii_to_bin d) :: uint32
      in [ucast (drop_bit 16 v), ucast (drop_bit 8 v), ucast v])"

lemma decode_quad_eq:
  "base64_decode_quad a b c d =
     (if is_digit a \<and> is_digit b \<and> (is_digit c \<and> (is_digit d \<or> d = 61) \<or> c = 61 \<and> d = 61)
      then Some (take (if c = 61 then 1 else if d = 61 then 2 else 3) (quad_bytes a b c d)) else None)"
  unfolding base64_decode_quad_def quad_bytes_def Let_def bin_invalid using not_digit_61
  by (cases "a = 61"; cases "b = 61"; cases "c = 61"; cases "d = 61") simp_all

lemma decode_quad_iff:
  "(\<exists>bs. base64_decode_quad a b c d = Some bs) \<longleftrightarrow>
     is_digit a \<and> is_digit b \<and> (is_digit c \<and> (is_digit d \<or> d = 61) \<or> c = 61 \<and> d = 61)"
  by (simp add: decode_quad_eq)

lemma decode_quad_length:
  "base64_decode_quad a b c d = Some bs \<Longrightarrow> length bs = (if c = 61 then 1 else if d = 61 then 2 else 3)"
  by (auto simp: decode_quad_eq quad_bytes_def Let_def split: if_splits)

lemma decode_loop_accepts:
  "length t mod 4 = 0 \<Longrightarrow> (\<exists>out. decode_base64_loop t = Some out) \<longleftrightarrow> base64_text t"
proof (induction t rule: decode_base64_loop.induct)
  case (1 a b c d inp)
  then have IH: "(\<exists>out. decode_base64_loop inp = Some out) \<longleftrightarrow> base64_text inp" if "inp \<noteq> []" "base64_decode_quad a b c d = Some bs" "length bs = 3" for bs
    using that by (simp add: mod_Suc split: if_splits)
  show ?case
  proof (cases "base64_decode_quad a b c d")
    case None
    then show ?thesis using decode_quad_iff [of a b c d] by auto
  next
    case (Some bs)
    then show ?thesis using decode_quad_iff [of a b c d] decode_quad_length [OF Some] IH [OF _ Some] not_digit_61
      by (cases inp) auto
  qed
qed simp_all

lemma decode_loop_length:
  "decode_base64_loop t = Some out \<Longrightarrow> length t mod 4 = 0 \<Longrightarrow> length out \<le> length t div 4 * 3"
proof (induction t arbitrary: out rule: decode_base64_loop.induct)
  case (1 a b c d inp)
  then obtain bs rest where "base64_decode_quad a b c d = Some bs" "decode_base64_loop inp = Some rest" "out = bs @ rest"
    "length bs \<le> 3" "length rest \<le> length inp div 4 * 3"
    using decode_quad_length [of a b c d] by (auto simp: mod_Suc split: option.splits if_splits)
  then show ?case using div_add_self1 [of 4 "length inp"] by simp
qed simp_all

lemma decode_writes_length:
  "length t mod 4 = 0 \<Longrightarrow> length (snd (decode_base64_writes out t)) \<le> length out + length t div 4 * 3"
proof (induction out t rule: decode_base64_writes.induct)
  case (1 out a b c d inp)
  show ?case
  proof (cases "base64_decode_quad a b c d")
    case (Some bs)
    then have "length bs \<le> 3" using decode_quad_length [OF Some] by simp
    then show ?thesis using "1.IH" [OF Some] "1.prems" Some by (auto simp: mod_Suc split: if_splits)
  qed simp
qed simp_all

lemma decode_loop_append:
  "length t mod 4 = 0 \<Longrightarrow> decode_base64_loop (t @ s) =
     (case decode_base64_loop t of
       None \<Rightarrow> None
     | Some out \<Rightarrow> if length out mod 3 \<noteq> 0 \<and> s \<noteq> [] then None else map_option ((@) out) (decode_base64_loop s))"
proof (induction t rule: decode_base64_loop.induct)
  case (1 a b c d inp)
  have l: "length bs \<in> {1, 2, 3}" if "base64_decode_quad a b c d = Some bs" for bs
    using decode_quad_length [OF that] by auto
  show ?case
  proof (cases "base64_decode_quad a b c d")
    case (Some bs)
    have IH: "decode_base64_loop (inp @ s) = (case decode_base64_loop inp of None \<Rightarrow> None
     | Some out \<Rightarrow> if length out mod 3 \<noteq> 0 \<and> s \<noteq> [] then None else map_option ((@) out) (decode_base64_loop s))"
      if "length bs = 3 \<or> inp = []"
      using 1(1) [OF Some] that 1(2) by (auto simp: mod_Suc split: if_splits)
    show ?thesis
    proof (cases "length bs = 3")
      case True
      then have "length (bs @ out) mod 3 = length out mod 3" for out by simp
      then show ?thesis using IH True Some by (cases "decode_base64_loop s") (auto split: option.splits)
    next
      case False
      then have "length bs mod 3 \<noteq> 0" using l [OF Some] by auto
      then show ?thesis using Some False by (cases inp; cases s) auto
    qed
  qed simp
qed (cases "decode_base64_loop s"; simp)+

section \<open>The streaming decoder\<close>

lemma decode_update_loop_out:
  "decode_update_loop ctx (pre @ out) inp = (case decode_update_loop ctx out inp of (r, ctx') \<Rightarrow> (map_option ((@) pre) r, ctx'))"
  by (induction ctx out inp rule: decode_update_loop.induct)
    (auto simp: Let_def split: prod.splits option.splits)

lemma decode_update_loop_append:
  "decode_update_loop ctx out (xs @ ys) =
     (case decode_update_loop ctx out xs of (None, ctx') \<Rightarrow> (None, ctx') | (Some out', ctx') \<Rightarrow> decode_update_loop ctx' out' ys)"
  by (induction ctx out xs rule: decode_update_loop.induct) (auto simp: Let_def split: prod.splits option.splits)

text \<open>
  The context after the text \<open>t\<close> (without white space) has been taken and \<open>out\<close> been written: whole
  quads are decoded, the characters of a partial one are in the buffer.
\<close>

definition decoder_at :: "byte list \<Rightarrow> byte list \<Rightarrow> evp_encode_ctx \<Rightarrow> bool" where
  "decoder_at t out ctx \<longleftrightarrow> \<not> error_encountered ctx \<and> length (ctx_data ctx) = sizeof_data \<and>
     data_used ctx = length t mod 4 \<and> take (data_used ctx) (ctx_data ctx) = drop (length t - length t mod 4) t \<and>
     decode_base64_loop (take (length t - length t mod 4) t) = Some out \<and>
     (eof_seen ctx \<longleftrightarrow> length out mod 3 \<noteq> 0) \<and> (eof_seen ctx \<longrightarrow> length t mod 4 = 0)"

lemma set_data_fields [simp]:
  "error_encountered (set_data off xs ctx) = error_encountered ctx" "eof_seen (set_data off xs ctx) = eof_seen ctx"
  "data_used (set_data off xs ctx) = data_used ctx"
  by (simp_all add: set_data_def)

lemma quad_at_take: "quad_at (take 4 xs) = quad_at xs"
  by (simp add: quad_at_def)

lemma length_3: "length xs = 3 \<Longrightarrow> \<exists>x y z. xs = [x, y, z]"
  by (auto simp: numeral_3_eq_3 length_Suc_conv)

definition strip_space :: "byte list \<Rightarrow> byte list" where
  "strip_space inp = filter (\<lambda>c. \<not> is_space c) inp"

lemma strip_space_simps [simp]:
  "strip_space [] = []" "strip_space (c # inp) = (if is_space c then strip_space inp else c # strip_space inp)"
  "strip_space (xs @ ys) = strip_space xs @ strip_space ys"
  by (simp_all add: strip_space_def)

lemma length_strip_space: "length (strip_space xs) \<le> length xs"
  by (simp add: strip_space_def)

lemma decoder_at_init: "decoder_at [] [] EVP_DecodeInit"
  by (simp add: decoder_at_def EVP_DecodeInit_def)

lemma decoder_at_step:
  assumes "decoder_at t out ctx" and "\<not> is_space c"
  shows "case decode_update_loop ctx out [c] of
      (None, ctx') \<Rightarrow> error_encountered ctx' \<and> (\<forall>s. length (t @ [c] @ s) mod 4 = 0 \<longrightarrow> decode_base64_loop (t @ [c] @ s) = None)
    | (Some out', ctx') \<Rightarrow> decoder_at (t @ [c]) out' ctx'"
proof -
  let ?n = "length t" and ?q = "take (length t - length t mod 4) t" and ?p = "drop (length t - length t mod 4) t"
  have q: "length ?q mod 4 = 0" and p: "length ?p = ?n mod 4" and t: "t = ?q @ ?p"
    by (simp_all add: minus_mod_eq_div_mult [symmetric] mod_eq_0_iff_dvd dvd_minus_mod)
  note d = assms(1) [unfolded decoder_at_def]
  note app = decode_loop_append [OF q, unfolded conjunct1 [OF conjunct2 [OF conjunct2 [OF conjunct2 [OF conjunct2 [OF d]]]]] option.case]
  show ?thesis
  proof (cases "eof_seen ctx")
    case True
    then have "?q = t" "length out mod 3 \<noteq> 0" using d by auto
    then show ?thesis using True assms(2) app by simp
  next
    case False
    then have out: "length out mod 3 = 0" using d by auto
    let ?ctx = "(set_data (?n mod 4) [c] ctx)\<lparr>data_used := ?n mod 4 + 1\<rparr>"
    have pc: "take (?n mod 4 + 1) (ctx_data ?ctx) = ?p @ [c]"
      using d by (clarsimp simp: set_data_def sizeof_data_def)
    have len: "length (ctx_data ?ctx) = sizeof_data" using d by (simp add: set_data_def sizeof_data_def min_def)
    show ?thesis
    proof (cases "?n mod 4 = 3")
      case True
      then obtain x y z where xyz: "?p = [x, y, z]" using length_3 [of ?p] p by metis
      have tk: "take 4 (ctx_data ?ctx) = [x, y, z, c]" using pc True xyz by simp
      have quad: "quad_at (ctx_data ?ctx) = base64_decode_quad x y z c"
        using quad_at_take [of "ctx_data ?ctx"] unfolding tk by (simp add: quad_at_def)
      have tc: "decode_base64_loop (t @ c # s) = map_option ((@) out) (decode_base64_loop (x # y # z # c # s))" for s
      proof -
        have "t @ c # s = ?q @ [x, y, z] @ c # s" using t unfolding xyz by (metis append_assoc)
        then show ?thesis using app [of "[x, y, z] @ c # s"] out by (simp only: append_Cons append_Nil) simp
      qed
      show ?thesis
      proof (cases "base64_decode_quad x y z c")
        case None
        then show ?thesis using True False assms(2) d quad tc by (simp add: Let_def)
      next
        case (Some bs)
        have l: "length bs \<le> 3" using decode_quad_length [OF Some] by simp
        from Some have "(length (out @ bs) mod 3 = 0) = (length bs = 3)" using decode_quad_length [OF Some] out
          by (auto simp: mod_add_left_eq [symmetric])
        moreover have "(?n + 1) mod 4 = 0" using True by (simp add: mod_Suc)
        ultimately show ?thesis using True False assms(2) d quad tc [of "[]"] Some len l
          by (auto simp: Let_def decoder_at_def)
      qed
    next
      case less: False
      then have "(?n + 1) mod 4 = ?n mod 4 + 1" by (simp add: mod_Suc) 
      moreover from this have "?n + 1 - (?n + 1) mod 4 = ?n - ?n mod 4" by simp
      ultimately show ?thesis using False less assms(2) d pc len by (simp add: Let_def decoder_at_def)
    qed
  qed
qed


lemma is_space_iff_filter: "decode_update_loop ctx out (c # inp) = (if is_space c then decode_update_loop ctx out inp else
    (case decode_update_loop ctx out [c] of (None, ctx') \<Rightarrow> (None, ctx') | (Some out', ctx') \<Rightarrow> decode_update_loop ctx' out' inp))"
  using decode_update_loop_append [of ctx out "[c]" inp] by simp

text \<open>The loop takes the characters that are not white space.\<close>

lemma decode_update_loop_at:
  assumes "decoder_at t out ctx"
  shows "case decode_update_loop ctx out inp of
      (None, ctx') \<Rightarrow> error_encountered ctx' \<and> (\<forall>s. length (t @ strip_space inp @ s) mod 4 = 0 \<longrightarrow>
        decode_base64_loop (t @ strip_space inp @ s) = None)
    | (Some out', ctx') \<Rightarrow> decoder_at (t @ strip_space inp) out' ctx'"
  using assms
proof (induction inp arbitrary: t out ctx)
  case (Cons c inp)
  show ?case
  proof (cases "is_space c")
    case True
    then have "strip_space (c # inp) = strip_space inp" "decode_update_loop ctx out (c # inp) = decode_update_loop ctx out inp"
      by simp_all
    then show ?thesis using Cons.IH [OF Cons.prems] by (simp only:)
  next
    case False
    note step = decoder_at_step [OF Cons.prems False]
    show ?thesis
    proof (cases "decode_update_loop ctx out [c]")
      case (Pair r ctx1)
      show ?thesis
      proof (cases r)
        case None
        then show ?thesis using step Pair False by (subst is_space_iff_filter) simp
      next
        case (Some out1)
        have at: "decoder_at (t @ [c]) out1 ctx1" using step Pair Some by simp
        have "decode_update_loop ctx out (c # inp) = decode_update_loop ctx1 out1 inp"
          unfolding is_space_iff_filter [of ctx out c inp] Pair Some using False by simp
        moreover have "t @ strip_space (c # inp) = (t @ [c]) @ strip_space inp" using False by simp
        moreover have "t @ strip_space (c # inp) @ s = (t @ [c]) @ strip_space inp @ s" for s using False by simp
        ultimately show ?thesis using Cons.IH [OF at] by (simp only:)
      qed
    qed
  qed
qed simp

lemma decoder_at_length: "decoder_at t out ctx \<Longrightarrow> length out \<le> length t div 4 * 3"
proof -
  assume a: "decoder_at t out ctx"
  let ?q = "take (length t - length t mod 4) t"
  have "decode_base64_loop ?q = Some out" using a unfolding decoder_at_def by blast
  moreover have "length ?q mod 4 = 0" "length ?q div 4 = length t div 4" by (simp_all add: minus_mod_eq_div_mult)
  ultimately show ?thesis using decode_loop_length [of ?q out] by simp
qed

text \<open>A stream: the updates on the pieces of the text, then the end; the bytes on success.\<close>

fun decode_stream :: "evp_encode_ctx \<Rightarrow> byte list list \<Rightarrow> byte list option" where
  "decode_stream ctx [] = (if EVP_DecodeFinal ctx = -1 then None else Some [])"
| "decode_stream ctx (inp # pieces) =
     (case EVP_DecodeUpdate ctx inp of (ret, out, ctx) \<Rightarrow>
       if ret = -1 then None else map_option ((@) out) (decode_stream ctx pieces))"

lemma decode_stream_at:
  assumes "decoder_at t out ctx" and "length t + length (concat pieces) \<le> INT_MAX"
  shows "map_option ((@) out) (decode_stream ctx pieces) =
    EVP_DecodeBase64 INT_MAX (t @ strip_space (concat pieces))"
  using assms
proof (induction pieces arbitrary: t out ctx)
  case Nil
  let ?q = "take (length t - length t mod 4) t"
  from Nil.prems(1) have d: "\<not> error_encountered ctx" "data_used ctx = length t mod 4" "decode_base64_loop ?q = Some out"
    unfolding decoder_at_def by blast+
  have "length t div 4 * 3 \<le> INT_MAX" using Nil.prems(2) by (simp add: INT_MAX_def)
  then show ?case using d by (auto simp: EVP_DecodeFinal_def EVP_DecodeBase64_eq EVP_DecodedLength_def)
next
  case (Cons inp pieces)
  have ne: "\<not> error_encountered ctx" using Cons.prems(1) unfolding decoder_at_def by blast
  note at = decode_update_loop_at [OF Cons.prems(1), of inp]
  show ?case
  proof (cases "decode_update_loop ctx out inp")
    case (Pair r ctx1)
    have loop: "decode_update_loop ctx out inp = (case decode_update_loop ctx [] inp of (r, ctx') \<Rightarrow> (map_option ((@) out) r, ctx'))"
      using decode_update_loop_out [of ctx out "[]" inp] by simp
    show ?thesis
    proof (cases r)
      case None
      then have "decode_update_loop ctx [] inp = (None, ctx1)" using loop Pair by (auto split: prod.splits)
      then have "decode_stream ctx (inp # pieces) = None" by (simp add: EVP_DecodeUpdate_def ne)
      moreover have "EVP_DecodeBase64 INT_MAX (t @ strip_space (concat (inp # pieces))) = None"
        using at Pair None by (auto simp: EVP_DecodeBase64_eq EVP_DecodedLength_def mod_eq_0_iff_dvd)
      ultimately show ?thesis by simp
    next
      case (Some out1)
      then obtain out2 where out2: "decode_update_loop ctx [] inp = (Some out2, ctx1)" "out1 = out @ out2"
        using loop Pair by (auto simp: eq_commute [of "Some out1"] split: prod.splits)
      have at1: "decoder_at (t @ strip_space inp) out1 ctx1" using at Pair Some by simp
      have "length out1 \<le> INT_MAX"
        using decoder_at_length [OF at1] length_strip_space [of inp] Cons.prems(2) by (simp add: INT_MAX_def)
      then have "EVP_DecodeUpdate ctx inp = (if eof_seen ctx1 then 0 else 1, out2, ctx1)" using out2
        by (simp add: EVP_DecodeUpdate_def ne)
      then have "map_option ((@) out) (decode_stream ctx (inp # pieces)) = map_option ((@) out1) (decode_stream ctx1 pieces)"
        using out2(2) by (cases "decode_stream ctx1 pieces") auto
      also have "\<dots> = EVP_DecodeBase64 INT_MAX ((t @ strip_space inp) @ strip_space (concat pieces))"
        using Cons.prems(2) length_strip_space [of inp] by (intro Cons.IH [OF at1]) simp
      finally show ?thesis by simp
    qed
  qed
qed

section \<open>The streaming encoder\<close>

text \<open>The lines of a text: 48 bytes on each but the last.\<close>

function (sequential) pem_lines :: "byte list \<Rightarrow> byte list" where
  "pem_lines xs = (if xs = [] then [] else encode_block_loop (take 48 xs) @ [10] @ pem_lines (drop 48 xs))"
  by pat_completeness auto
termination by (relation "measure length") auto

declare pem_lines.simps [simp del]

lemma pem_lines_simps [simp]:
  "pem_lines [] = []" "xs \<noteq> [] \<Longrightarrow> pem_lines xs = encode_block_loop (take 48 xs) @ [10] @ pem_lines (drop 48 xs)"
  by (simp_all add: pem_lines.simps)

lemma pem_lines_block: "length b = 48 \<Longrightarrow> pem_lines (b @ xs) = encode_block_loop b @ [10] @ pem_lines xs"
  by (subst pem_lines.simps) auto

text \<open>The whole lines at the start of a text, and what is left.\<close>

definition whole :: "byte list \<Rightarrow> byte list" where
  "whole xs = take (48 * (length xs div 48)) xs"

definition remainder :: "byte list \<Rightarrow> byte list" where
  "remainder xs = drop (48 * (length xs div 48)) xs"

lemma whole_remainder: "whole xs @ remainder xs = xs"
  by (simp add: whole_def remainder_def)

lemma length_whole: "length (whole xs) = 48 * (length xs div 48)"
  by (simp add: whole_def)

lemma length_remainder: "length (remainder xs) = length xs mod 48"
  by (simp add: remainder_def minus_mult_div_eq_mod)

lemma short_whole: "length xs < 48 \<Longrightarrow> whole xs = [] \<and> remainder xs = xs"
  by (simp add: whole_def remainder_def)

lemma whole_block: "length b = 48 \<Longrightarrow> whole (b @ xs) = b @ whole xs \<and> remainder (b @ xs) = remainder xs"
  using div_add_self1 [of 48 "length xs"] by (simp add: whole_def remainder_def)

lemma whole_append: "length xs mod 48 = 0 \<Longrightarrow> whole (xs @ ys) = xs @ whole ys \<and> remainder (xs @ ys) = remainder ys"
proof -
  assume "length xs mod 48 = 0"
  then obtain k where k: "length xs = 48 * k" by (auto simp: mod_eq_0_iff_dvd)
  have "(48 * k + length ys) div 48 = k + length ys div 48" by simp
  then show ?thesis by (simp add: whole_def remainder_def k algebra_simps)
qed

lemma multiple_48: "length xs mod 48 = 0 \<Longrightarrow> xs \<noteq> [] \<Longrightarrow> 48 \<le> length xs"
  by (metis length_0_conv mod_less not_less)

lemma remainder_append:
  "remainder (t @ inp) = remainder (remainder t @ inp)" "length (t @ inp) mod 48 = length (remainder t @ inp) mod 48"
proof -
  have *: "t @ inp = whole t @ remainder t @ inp" by (metis append_assoc whole_remainder)
  show "remainder (t @ inp) = remainder (remainder t @ inp)"
    unfolding * using whole_append [of "whole t" "remainder t @ inp"] by (simp add: length_whole)
  show "length (t @ inp) mod 48 = length (remainder t @ inp) mod 48" by (simp add: length_remainder mod_add_left_eq)
qed

lemma pem_lines_append: "length xs mod 48 = 0 \<Longrightarrow> pem_lines (xs @ ys) = pem_lines xs @ pem_lines ys"
proof (induction xs rule: pem_lines.induct)
  case (1 xs)
  show ?case
  proof (cases "xs = []")
    case False
    then have len: "48 \<le> length xs" using 1(2) multiple_48 [of xs] by simp
    then have "length (drop 48 xs) mod 48 = 0" using 1(2) le_mod_geq [OF len] by simp
    from 1(1) [OF False this] have "pem_lines (drop 48 xs @ ys) = pem_lines (drop 48 xs) @ pem_lines ys" .
    then show ?thesis
      using pem_lines_block [of "take 48 xs" "drop 48 xs"] pem_lines_block [of "take 48 xs" "drop 48 xs @ ys"] len
      by (simp add: append_assoc [symmetric] del: append_assoc pem_lines_simps(2))
  qed simp
qed

lemma length_pem_lines: "length xs mod 48 = 0 \<Longrightarrow> length (pem_lines xs) = 65 * (length xs div 48)"
proof (induction xs rule: pem_lines.induct)
  case (1 xs)
  show ?case
  proof (cases "xs = []")
    case False
    then have len: "48 \<le> length xs" using 1(2) multiple_48 [of xs] by simp
    then have "length (drop 48 xs) mod 48 = 0" "length xs div 48 = Suc (length (drop 48 xs) div 48)"
      using 1(2) le_mod_geq [OF len] le_div_geq [OF _ len] by simp_all
    with 1(1) [OF False this(1)] len False show ?thesis by (simp add: length_encode_loop)
  qed simp
qed

lemma block_encoded: "EVP_EncodeBlock xs = (dst, n) \<Longrightarrow> take n dst = encode_block_loop xs \<and> n = length (encode_block_loop xs)"
  by (auto simp: EVP_EncodeBlock_def Let_def)

lemma encode_lines_loop_whole:
  "tot + 65 * (length inp div 48) < size_mod \<Longrightarrow>
   encode_lines_loop inp out tot = (out @ pem_lines (whole inp), Some (remainder inp, tot + 65 * (length inp div 48)))"
proof (induction "length inp" arbitrary: inp out tot rule: less_induct)
  case less
  show ?case
  proof (cases "length inp < 48")
    case True
    then show ?thesis by (subst encode_lines_loop.simps) (simp add: sizeof_data_def short_whole)
  next
    case False
    then obtain b r where inp: "inp = b @ r" and b: "length b = 48" using append_take_drop_id [of 48 inp] by (metis length_take min.absorb2 not_less)
    obtain dst n where e: "EVP_EncodeBlock b = (dst, n)" by (cases "EVP_EncodeBlock b")
    from block_encoded [OF e] have n: "take n dst = encode_block_loop b" "n = 64" using length_encode_loop [of b] b by auto
    have tot: "sz_add (sz_add tot n) 1 = tot + 65" using less.prems b n(2) inp div_add_self1 [of 48 "length r"] by (simp add: sz_add_def)
    have "encode_lines_loop r (out @ take n dst @ [10]) (tot + 65) =
        ((out @ take n dst @ [10]) @ pem_lines (whole r), Some (remainder r, (tot + 65) + 65 * (length r div 48)))"
      using less.prems b inp div_add_self1 [of 48 "length r"] by (intro less.hyps) simp_all
    then show ?thesis using b e tot n(1) inp div_add_self1 [of 48 "length r"]
      by (subst encode_lines_loop.simps) (simp add: sizeof_data_def whole_block pem_lines_block Let_def)
  qed
qed


text \<open>The context after the text \<open>t\<close>: the bytes of a partial line are in the buffer.\<close>

definition encoder_at :: "byte list \<Rightarrow> evp_encode_ctx \<Rightarrow> bool" where
  "encoder_at t ctx \<longleftrightarrow> length (ctx_data ctx) = 48 \<and> data_used ctx = length t mod 48 \<and> take (data_used ctx) (ctx_data ctx) = remainder t"

lemma encoder_at_init: "encoder_at [] EVP_EncodeInit"
  by (simp add: encoder_at_def EVP_EncodeInit_def remainder_def sizeof_data_def)

lemma encoder_lines:
  assumes "(case encode_lines_loop inp o1 tot of
            (out, None) \<Rightarrow> (out @ [0], 0, ctx)
          | (out, Some (rest, tot)) \<Rightarrow>
              (if out = [] then [] else out @ [0], if tot > INT_MAX then 0 else tot,
               (if rest \<noteq> [] then set_data 0 rest ctx else ctx)\<lparr>data_used := length rest\<rparr>)) = (out, n, ctx')"
    and "length o1 = tot" and "tot \<le> 65" and "length inp \<le> 1500000000" and "length (ctx_data ctx) = 48"
  shows "take n out = o1 @ pem_lines (whole inp) \<and> length (ctx_data ctx') = 48 \<and> data_used ctx' = length inp mod 48 \<and>
    take (data_used ctx') (ctx_data ctx') = remainder inp"
proof -
  have "length inp div 48 \<le> 31250000" using div_le_mono [OF assms(4), of 48] by simp
  then have tot: "tot + 65 * (length inp div 48) \<le> INT_MAX" using assms(3) by (simp add: INT_MAX_def)
  then have "tot + 65 * (length inp div 48) < size_mod" by (simp add: INT_MAX_def size_mod_def)
  note loop = encode_lines_loop_whole [OF this, of o1]
  have len: "length (o1 @ pem_lines (whole inp)) = tot + 65 * (length inp div 48)"
    using assms(2) by (simp add: length_pem_lines length_whole)
  have "length inp mod 48 < 48" by simp
  then show ?thesis using assms(1,5) tot len length_remainder [of inp] unfolding loop
    by (auto simp: set_data_def)
qed

lemma encoder_update:
  assumes at: "encoder_at t ctx" and len: "length inp \<le> 1500000000" and up: "EVP_EncodeUpdate ctx inp = (out, n, ctx')"
  shows "encoder_at (t @ inp) ctx' \<and> take n out = pem_lines (whole (remainder t @ inp))"
proof -
  let ?k = "data_used ctx"
  have at': "length (ctx_data ctx) = 48" "?k = length t mod 48" "take ?k (ctx_data ctx) = remainder t"
    using at unfolding encoder_at_def by blast+
  then have k: "?k < 48" "?k = length (remainder t)" by (simp_all add: length_remainder)
  have "remainder (t @ inp) = remainder (remainder t @ inp)" "length (t @ inp) mod 48 = length (remainder t @ inp) mod 48" by (rule remainder_append)+
  moreover have "take n out = pem_lines (whole (remainder t @ inp)) \<and> length (ctx_data ctx') = 48 \<and>
      data_used ctx' = length (remainder t @ inp) mod 48 \<and> take (data_used ctx') (ctx_data ctx') = remainder (remainder t @ inp)"
    (is "?goal")
  proof -
    consider "inp = []" | (short) "inp \<noteq> []" "length inp < 48 - ?k" | (full) "inp \<noteq> []" "48 - ?k \<le> length inp" by linarith
    then show ?goal
    proof cases
      case 1
      then show ?thesis using up at' k by (auto simp: EVP_EncodeUpdate_def short_whole length_remainder)
    next
      case short
      then have "length (remainder t @ inp) < 48" using k by simp
      then show ?thesis using up at' k short by (auto simp: EVP_EncodeUpdate_def short_whole sizeof_data_def set_data_def)
    next
      case full
      show ?thesis
      proof (cases "?k = 0")
        case True
        then show ?thesis using encoder_lines [where inp = inp and ?o1.0 = "[]" and tot = 0 and ctx = ctx and out = out and n = n and ctx' = ctx'] up full at' len k
          by (auto simp: EVP_EncodeUpdate_def sizeof_data_def)
      next
        case False
        let ?todo = "48 - ?k"
        let ?ctx = "set_data ?k (take ?todo inp) ctx"
        let ?b = "remainder t @ take ?todo inp"
        have b: "ctx_data ?ctx = ?b" "length ?b = 48" using at' k full by (simp_all add: set_data_def)
        obtain dst m where e: "EVP_EncodeBlock ?b = (dst, m)" by (cases "EVP_EncodeBlock ?b")
        from block_encoded [OF e] b(2) have m: "take m dst = encode_block_loop ?b" "m = 64"
          using length_encode_loop [of ?b] by auto
        let ?rest = "drop ?todo inp"
        have "take n out = (encode_block_loop ?b @ [10]) @ pem_lines (whole ?rest) \<and> length (ctx_data ctx') = 48 \<and>
            data_used ctx' = length ?rest mod 48 \<and> take (data_used ctx') (ctx_data ctx') = remainder ?rest"
        proof (rule encoder_lines [where ctx = "?ctx\<lparr>data_used := 0\<rparr>"])
          show "(case encode_lines_loop ?rest (encode_block_loop ?b @ [10]) 65 of
            (out, None) \<Rightarrow> (out @ [0], 0, ?ctx\<lparr>data_used := 0\<rparr>)
          | (out, Some (rest, tot)) \<Rightarrow>
              (if out = [] then [] else out @ [0], if tot > INT_MAX then 0 else tot,
               (if rest \<noteq> [] then set_data 0 rest (?ctx\<lparr>data_used := 0\<rparr>) else ?ctx\<lparr>data_used := 0\<rparr>)\<lparr>data_used := length rest\<rparr>)) =
            (out, n, ctx')"
            using up full False e b(1) m by (simp add: EVP_EncodeUpdate_def sizeof_data_def Let_def)
        qed (use len b m length_encode_loop [of ?b] in simp_all)
        moreover have "remainder t @ inp = ?b @ ?rest" by simp
        moreover have "length (?b @ ?rest) mod 48 = length ?rest mod 48"
          unfolding length_append [of ?b ?rest] b(2) by (rule mod_add_self1)
        ultimately show ?thesis
          using whole_block [OF b(2), of ?rest] pem_lines_block [OF b(2), of "whole ?rest"] by (simp only: append_assoc) metis
      qed
    qed
  qed
  ultimately show ?thesis unfolding encoder_at_def by metis
qed


text \<open>A stream: the updates on the pieces of the input, then the end; the \<open>*out_len\<close> bytes of each.\<close>

fun encode_stream :: "evp_encode_ctx \<Rightarrow> byte list list \<Rightarrow> byte list" where
  "encode_stream ctx [] = (case EVP_EncodeFinal ctx of (out, n, _) \<Rightarrow> take n out)"
| "encode_stream ctx (inp # pieces) = (case EVP_EncodeUpdate ctx inp of (out, n, ctx) \<Rightarrow> take n out @ encode_stream ctx pieces)"

lemma pem_lines_short: "length xs < 48 \<Longrightarrow> pem_lines xs = (if xs = [] then [] else encode_block_loop xs @ [10])"
  by simp

lemma encode_stream_at:
  assumes "encoder_at t ctx" and "\<forall>inp \<in> set pieces. length inp \<le> 1500000000"
  shows "encode_stream ctx pieces = pem_lines (remainder t @ concat pieces)"
  using assms
proof (induction pieces arbitrary: t ctx)
  case Nil
  then have at: "data_used ctx = length (remainder t)" "take (data_used ctx) (ctx_data ctx) = remainder t" "length (remainder t) < 48"
    unfolding encoder_at_def by (auto simp: length_remainder)
  obtain dst n where e: "EVP_EncodeBlock (remainder t) = (dst, n)" by (cases "EVP_EncodeBlock (remainder t)")
  from block_encoded [OF e] have "take (length (encode_block_loop (remainder t))) dst = encode_block_loop (remainder t)"
    "n = length (encode_block_loop (remainder t))" by auto
  then show ?case using at e by (simp add: EVP_EncodeFinal_def pem_lines_short)
next
  case (Cons inp pieces)
  obtain out n ctx' where up: "EVP_EncodeUpdate ctx inp = (out, n, ctx')" by (cases "EVP_EncodeUpdate ctx inp")
  let ?x = "remainder t @ inp"
  have u: "encoder_at (t @ inp) ctx'" "take n out = pem_lines (whole ?x)"
    using encoder_update [OF Cons.prems(1) _ up] Cons.prems(2) by auto
  have r: "remainder (t @ inp) = remainder ?x" by (rule remainder_append)
  have "encode_stream ctx (inp # pieces) = pem_lines (whole ?x) @ pem_lines (remainder ?x @ concat pieces)"
    using u(2) Cons.IH [OF u(1)] Cons.prems(2) r by (simp add: up)
  also have "\<dots> = pem_lines (whole ?x @ remainder ?x @ concat pieces)"
    by (rule pem_lines_append [symmetric]) (simp add: length_whole)
  also have "whole ?x @ remainder ?x @ concat pieces = remainder t @ concat (inp # pieces)"
    using whole_remainder [of ?x] by (metis append_assoc concat.simps(2))
  finally show ?case .
qed

section \<open>Lengths\<close>

lemma encoded_length:
  assumes "n < 2 ^ 61"
  shows "EVP_EncodedLength n = Some (4 * ((n + 2) div 3) + 1)"
proof -
  have "(n + 2) div 3 < 2 ^ 60" using assms by simp
  then show ?thesis using assms by (simp add: EVP_EncodedLength_def sz_add_def sz_mul_def size_mod_def Let_def)
qed

text \<open>White space in encoded lines is the line breaks only.\<close>

lemma digit_not_space: "is_digit c \<Longrightarrow> \<not> is_space c"
  by (auto simp: is_digit_def is_space_def word_le_nat_alt)

lemma encode_loop_chars: "c \<in> set (encode_block_loop xs) \<Longrightarrow> is_digit c \<or> c = 61"
  by (induction xs rule: encode_block_loop.induct) (auto simp: encode_block_loop_triple conv_digit)

lemma strip_encoded: "strip_space (encode_block_loop xs) = encode_block_loop xs"
proof -
  have "\<not> is_space c" if "c \<in> set (encode_block_loop xs)" for c
    using encode_loop_chars [OF that] digit_not_space [of c] by (auto simp: is_space_def)
  then show ?thesis by (simp add: strip_space_def)
qed

lemma encode_loop_append: "length xs mod 3 = 0 \<Longrightarrow> encode_block_loop (xs @ ys) = encode_block_loop xs @ encode_block_loop ys"
  by (induction xs rule: encode_block_loop.induct) (auto simp: encode_block_loop_triple mod_Suc split: if_splits)

lemma strip_pem_lines: "strip_space (pem_lines xs) = encode_block_loop xs"
proof (induction xs rule: pem_lines.induct)
  case (1 xs)
  show ?case
  proof (cases "xs = []")
    case False
    have "encode_block_loop xs = encode_block_loop (take 48 xs @ drop 48 xs)" by simp
    also have "\<dots> = encode_block_loop (take 48 xs) @ encode_block_loop (drop 48 xs)"
    proof (cases "length xs \<le> 48")
      case True
      then show ?thesis by simp
    next
      case False
      then have "length (take 48 xs) mod 3 = 0" by simp
      then show ?thesis by (rule encode_loop_append)
    qed
    finally show ?thesis using False 1 by (simp add: strip_encoded is_space_def)
  qed simp
qed

lemma base64_text_length: "base64_text t \<Longrightarrow> length t mod 4 = 0"
  by (induction t rule: base64_text.induct) (auto split: if_splits)

lemma map_option_append_Nil: "map_option ((@) []) r = r"
  by (cases r) simp_all

section \<open>Properties\<close>

text \<open>
  C30: what the streaming encoder writes for an input given in any pieces, the streaming decoder
  turns back into the input, however the text is cut into pieces.
\<close>

theorem base64_stream_round_trip:
  assumes "\<forall>inp \<in> set pieces. length inp \<le> 1500000000"
    and "concat texts = encode_stream EVP_EncodeInit pieces" and "length (concat texts) \<le> INT_MAX"
  shows "decode_stream EVP_DecodeInit texts = Some (concat pieces)"
proof -
  have "concat texts = pem_lines (concat pieces)"
    using encode_stream_at [OF encoder_at_init assms(1)] assms(2) by (simp add: remainder_def)
  then have plain: "strip_space (concat texts) = encode_block_loop (concat pieces)" by (simp add: strip_pem_lines)
  have "length (encode_block_loop (concat pieces)) \<le> INT_MAX"
    using assms(3) length_strip_space [of "concat texts"] unfolding plain by simp
  then have "EVP_DecodeBase64 INT_MAX (encode_block_loop (concat pieces)) = Some (concat pieces)"
    by (simp add: EVP_DecodeBase64_eq EVP_DecodedLength_def decode_encode_loop length_encode_loop)
  moreover have "decode_stream EVP_DecodeInit texts = EVP_DecodeBase64 INT_MAX (strip_space (concat texts))"
    using decode_stream_at [OF decoder_at_init, of texts] assms(3) by (simp add: map_option_append_Nil)
  ultimately show ?thesis by (simp add: plain)
qed

text \<open>
  The streaming encoder writes the lines of the whole input, 48 bytes to a line, whatever the
  pieces it was given.
\<close>

theorem base64_encoder_ignores_pieces:
  assumes "\<forall>inp \<in> set pieces. length inp \<le> 1500000000"
  shows "encode_stream EVP_EncodeInit pieces = pem_lines (concat pieces)"
  using encode_stream_at [OF encoder_at_init assms] by (simp add: remainder_def)

text \<open>
  C31: the streaming decoder accepts a text exactly when \<open>EVP_DecodeBase64\<close> accepts it without its
  white space, and then decodes the same bytes.
\<close>

theorem base64_decoder_is_block:
  assumes "length (concat pieces) \<le> INT_MAX"
  shows "decode_stream EVP_DecodeInit pieces = EVP_DecodeBase64 INT_MAX (strip_space (concat pieces))"
  using decode_stream_at [OF decoder_at_init, of pieces] assms by (simp add: map_option_append_Nil)

text \<open>
  C32: \<open>EVP_DecodeBase64\<close> accepts exactly the well-formed texts whose decoded length, counted
  without regard to padding, fits in the output. Whether it succeeds or fails, it has written no
  more than \<open>max_out\<close> bytes and no more than that length; on success these are the result.
\<close>

theorem base64_accepts:
  "case EVP_DecodeBase64_out max_out t of (ok, written) \<Rightarrow>
     (ok \<longleftrightarrow> base64_text t \<and> length t div 4 * 3 \<le> max_out) \<and>
     length written \<le> max_out \<and> length written \<le> length t div 4 * 3 \<and>
     EVP_DecodeBase64 max_out t = (if ok then Some written else None)"
proof -
  obtain ok written where r: "EVP_DecodeBase64_out max_out t = (ok, written)" by (cases "EVP_DecodeBase64_out max_out t")
  have "EVP_DecodeBase64 max_out t = (if ok then Some written else None)" by (simp add: EVP_DecodeBase64_def r)
  moreover from this have "ok \<longleftrightarrow> base64_text t \<and> length t div 4 * 3 \<le> max_out"
    using decode_loop_accepts [of t] base64_text_length [of t]
    by (auto simp: EVP_DecodeBase64_eq EVP_DecodedLength_def split: if_splits)
  moreover have "length written \<le> max_out \<and> length written \<le> length t div 4 * 3"
    using r decode_writes_length [of t "[]"] by (auto simp: EVP_DecodeBase64_out_def EVP_DecodedLength_def split: if_splits)
  ultimately show ?thesis using r by simp
qed

text \<open>
  \<open>EVP_EncodedLength\<close> is the exact size of what \<open>EVP_EncodeBlock\<close> writes, terminator
  included, and fails only where that would overflow a \<open>size_t\<close>; \<open>EVP_DecodeBase64\<close> inverts the
  block encoder in a buffer of \<open>EVP_DecodedLength\<close> bytes.
\<close>

theorem base64_block_round_trip:
  assumes "length src < 2 ^ 61" and "EVP_EncodeBlock src = (dst, n)"
  shows "EVP_EncodedLength (length src) = Some (length dst) \<and> length dst = n + 1 \<and>
    (\<exists>max_out. EVP_DecodedLength n = Some max_out \<and> EVP_DecodeBase64 max_out (take n dst) = Some src)"
proof -
  have "dst = encode_block_loop src @ [0]" "n = length (encode_block_loop src)"
    using assms(2) by (auto simp: EVP_EncodeBlock_def Let_def)
  then show ?thesis
    by (simp add: encoded_length [OF assms(1)] length_encode_loop EVP_DecodedLength_def EVP_DecodeBase64_eq decode_encode_loop)
qed

section \<open>Witnesses\<close>

lemma small_line: "pem_lines [77, 97] = [84, 87, 69, 61, 10]"
  by (simp add: encode_block_loop.simps out_char_def conv_bin2ascii_cases Let_def)

theorem base64_encoder_ignores_pieces_witness:
  "encode_stream EVP_EncodeInit [[77], [97]] = [84, 87, 69, 61, 10]"
  using base64_encoder_ignores_pieces [of "[[77], [97]]"] small_line by simp

theorem base64_stream_round_trip_witness:
  "decode_stream EVP_DecodeInit [[84, 87], [69, 61, 10]] = Some [77, 97]"
proof -
  have "encode_stream EVP_EncodeInit [[77], [97]] = [84, 87, 69, 61, 10]"
    using encode_stream_at [OF encoder_at_init, of "[[77], [97]]"] small_line by (simp add: remainder_def)
  then show ?thesis using base64_stream_round_trip [of "[[77], [97]]" "[[84, 87], [69, 61, 10]]"] by (simp add: INT_MAX_def)
qed

theorem base64_decoder_is_block_witness:
  "decode_stream EVP_DecodeInit [[84, 32, 87], [69, 10, 61]] = EVP_DecodeBase64 INT_MAX [84, 87, 69, 61]"
  using base64_decoder_is_block [of "[[84, 32, 87], [69, 10, 61]]"] by (simp add: INT_MAX_def is_space_def)

theorem base64_block_round_trip_witness:
  "\<exists>dst n. EVP_EncodeBlock [77, 97] = (dst, n) \<and> EVP_DecodeBase64 3 (take n dst) = Some [77, 97]"
proof -
  obtain dst n where e: "EVP_EncodeBlock [77, 97] = (dst, n)" by (cases "EVP_EncodeBlock [77, 97]") auto
  have "n = 4" using e by (auto simp: EVP_EncodeBlock_def length_encode_loop Let_def)
  with base64_block_round_trip [OF _ e] e show ?thesis by (simp add: EVP_DecodedLength_def)
qed

end
