(* ===== verification/PbWire.thy ===== *)
theory PbWire
  imports Prelude
begin

text \<open>
  The wire layer of nanopb (\<open>pb_encode.c\<close>, \<open>pb_decode.c\<close>): output and input streams, varints,
  fixed-width integers, tags, strings and the skipping of fields. The build of the app defines
  \<open>PB_FIELD_32BIT\<close> and \<open>PB_ENABLE_MALLOC\<close>, so error messages and 64-bit integers are there.
\<close>

section \<open>Output streams\<close>

text \<open>
  The callback of a stream gets its state and the bytes; a stream without a callback only counts.
\<close>

record 's pb_ostream =
  callback :: "('s \<Rightarrow> byte list \<Rightarrow> bool \<times> 's) option"
  o_state :: 's
  max_size :: nat
  bytes_written :: nat
  o_errmsg :: "string option"

definition set_oerror :: "string \<Rightarrow> 's pb_ostream \<Rightarrow> 's pb_ostream" where
  "set_oerror msg s = s\<lparr>o_errmsg := (case o_errmsg s of None \<Rightarrow> Some msg | Some m \<Rightarrow> Some m)\<rparr>"

text \<open>The state of a buffer stream is what has been stored from the start of the buffer on.\<close>

definition buf_write :: "byte list \<Rightarrow> byte list \<Rightarrow> bool \<times> byte list" where
  "buf_write dest buf = (True, dest @ buf)"

definition pb_ostream_from_buffer :: "nat \<Rightarrow> byte list pb_ostream" where
  "pb_ostream_from_buffer bufsize =
     \<lparr>callback = Some buf_write, o_state = [], max_size = bufsize, bytes_written = 0, o_errmsg = None\<rparr>"

definition PB_OSTREAM_SIZING :: "'s \<Rightarrow> 's pb_ostream" where
  "PB_OSTREAM_SIZING null = \<lparr>callback = None, o_state = null, max_size = 0, bytes_written = 0, o_errmsg = None\<rparr>"

definition pb_write :: "byte list \<Rightarrow> nat \<Rightarrow> 's pb_ostream \<Rightarrow> bool \<times> 's pb_ostream" where
  "pb_write buf cnt s =
     (let written = sz_add (bytes_written s) cnt in
      case (if cnt > 0 then callback s else None) of
        None \<Rightarrow> (True, s\<lparr>bytes_written := written\<rparr>)
      | Some cb \<Rightarrow>
          if written < bytes_written s \<or> written > max_size s then (False, set_oerror ''stream full'' s)
          else (case cb (o_state s) (take cnt buf) of (ok, st) \<Rightarrow>
            if ok then (True, s\<lparr>o_state := st, bytes_written := written\<rparr>)
            else (False, set_oerror ''io error'' (s\<lparr>o_state := st\<rparr>))))"

text \<open>\<open>if (!f(stream)) return false;\<close> and what follows.\<close>

definition wr_then :: "bool \<times> 's pb_ostream \<Rightarrow> ('s pb_ostream \<Rightarrow> bool \<times> 's pb_ostream) \<Rightarrow> bool \<times> 's pb_ostream" where
  "wr_then r f = (case r of (ok, s) \<Rightarrow> if ok then f s else (False, s))"

function varint_loop :: "uint64 \<Rightarrow> byte list" where
  "varint_loop value = (if value = 0 then [] else (ucast (value AND 0x7f) OR 0x80) # varint_loop (drop_bit 7 value))"
  by pat_completeness auto
termination by (relation "measure unat") (auto intro: unat_drop_less)

declare varint_loop.simps [simp del]

definition clear_last :: "byte list \<Rightarrow> byte list" where
  "clear_last buffer = buffer[length buffer - 1 := last buffer AND 0x7f]"

definition varint_bytes :: "uint64 \<Rightarrow> byte list" where
  "varint_bytes value = (if value \<le> 0x7f then [ucast value] else clear_last (varint_loop value))"

definition pb_encode_varint :: "uint64 \<Rightarrow> 's pb_ostream \<Rightarrow> bool \<times> 's pb_ostream" where
  "pb_encode_varint value s = (let buffer = varint_bytes value in pb_write buffer (length buffer) s)"

text \<open>A signed 64-bit integer is its two's complement word.\<close>

definition zigzag :: "uint64 \<Rightarrow> uint64" where
  "zigzag value = (if value <s 0 then NOT (push_bit 1 value) else push_bit 1 value)"

definition pb_encode_svarint :: "uint64 \<Rightarrow> 's pb_ostream \<Rightarrow> bool \<times> 's pb_ostream" where
  "pb_encode_svarint value s = pb_encode_varint (zigzag value) s"

definition fixed32_bytes :: "uint32 \<Rightarrow> byte list" where
  "fixed32_bytes val = map (\<lambda>k. ucast (drop_bit k val AND 0xff)) [0, 8, 16, 24]"

definition pb_encode_fixed32 :: "uint32 \<Rightarrow> 's pb_ostream \<Rightarrow> bool \<times> 's pb_ostream" where
  "pb_encode_fixed32 val s = pb_write (fixed32_bytes val) 4 s"

definition fixed64_bytes :: "uint64 \<Rightarrow> byte list" where
  "fixed64_bytes val = map (\<lambda>k. ucast (drop_bit k val AND 0xff)) [0, 8, 16, 24, 32, 40, 48, 56]"

definition pb_encode_fixed64 :: "uint64 \<Rightarrow> 's pb_ostream \<Rightarrow> bool \<times> 's pb_ostream" where
  "pb_encode_fixed64 val s = pb_write (fixed64_bytes val) 8 s"

definition PB_WT_VARINT :: uint32 where "PB_WT_VARINT = 0"
definition PB_WT_64BIT :: uint32 where "PB_WT_64BIT = 1"
definition PB_WT_STRING :: uint32 where "PB_WT_STRING = 2"
definition PB_WT_32BIT :: uint32 where "PB_WT_32BIT = 5"

definition pb_encode_tag :: "uint32 \<Rightarrow> uint32 \<Rightarrow> 's pb_ostream \<Rightarrow> bool \<times> 's pb_ostream" where
  "pb_encode_tag wiretype field_number s = pb_encode_varint (push_bit 3 (ucast field_number) OR ucast wiretype) s"

definition pb_encode_string :: "byte list \<Rightarrow> nat \<Rightarrow> 's pb_ostream \<Rightarrow> bool \<times> 's pb_ostream" where
  "pb_encode_string buffer sz s = wr_then (pb_encode_varint (word_of_nat sz) s) (pb_write buffer sz)"

section \<open>Input streams\<close>

text \<open>
  An input stream reads from a buffer: \<open>i_state\<close> is the memory from the read position on.
\<close>

record pb_istream =
  i_state :: "byte list"
  bytes_left :: nat
  i_errmsg :: "string option"

definition set_ierror :: "string \<Rightarrow> pb_istream \<Rightarrow> pb_istream" where
  "set_ierror msg s = s\<lparr>i_errmsg := (case i_errmsg s of None \<Rightarrow> Some msg | Some m \<Rightarrow> Some m)\<rparr>"

definition pb_istream_from_buffer :: "byte list \<Rightarrow> nat \<Rightarrow> pb_istream" where
  "pb_istream_from_buffer buf bufsize = \<lparr>i_state = buf, bytes_left = bufsize, i_errmsg = None\<rparr>"

text \<open>\<open>buf_read\<close> through the callback of a buffer stream: the bytes and the stream moved on.\<close>

definition buf_read :: "nat \<Rightarrow> pb_istream \<Rightarrow> byte list \<times> pb_istream" where
  "buf_read cnt s = (take cnt (i_state s), s\<lparr>i_state := drop cnt (i_state s)\<rparr>)"

definition pb_read :: "nat \<Rightarrow> pb_istream \<Rightarrow> byte list option \<times> pb_istream" where
  "pb_read cnt s =
     (if cnt = 0 then (Some [], s)
      else if bytes_left s < cnt then (None, set_ierror ''end-of-stream'' s)
      else (case buf_read cnt s of (buf, s) \<Rightarrow> (Some buf, s\<lparr>bytes_left := bytes_left s - cnt\<rparr>)))"

definition pb_readbyte :: "pb_istream \<Rightarrow> byte option \<times> pb_istream" where
  "pb_readbyte s =
     (if bytes_left s = 0 then (None, set_ierror ''end-of-stream'' s)
      else (case buf_read 1 s of (buf, s) \<Rightarrow> (Some (hd buf), s\<lparr>bytes_left := bytes_left s - 1\<rparr>)))"

text \<open>
  The loop of \<open>pb_decode_varint32_eof\<close>. The counter \<open>bitpos\<close> is a \<open>uint_fast8_t\<close>, 8 bits wide on
  the platforms of the app.
\<close>

function varint32_loop :: "uint32 \<Rightarrow> byte \<Rightarrow> pb_istream \<Rightarrow> uint32 option \<times> pb_istream" where
  "varint32_loop result bitpos s =
     (case pb_readbyte s of
       (None, s) \<Rightarrow> (None, s)
     | (Some byte, s') \<Rightarrow>
         let sign_extension = (if bitpos < 63 then 0xff else 0x01) in
         if bitpos \<ge> 32 \<and> byte AND 0x7f \<noteq> 0 \<and> (drop_bit 31 result = 0 \<or> byte \<noteq> sign_extension)
         then (None, set_ierror ''varint overflow'' s')
         else
           let result = (if bitpos \<ge> 32 then result else result OR push_bit (unat bitpos) (ucast (byte AND 0x7f)));
               bitpos = bitpos + 7
           in if byte AND 0x80 \<noteq> 0 then varint32_loop result bitpos s'
              else if bitpos = 35 \<and> byte AND 0x70 \<noteq> 0 then (None, set_ierror ''varint overflow'' s')
              else (Some result, s'))"
  by pat_completeness auto
termination
  by (relation "measure (\<lambda>(_, _, s). bytes_left s)") (auto simp: pb_readbyte_def buf_read_def split: if_splits)

declare varint32_loop.simps [simp del]

text \<open>The result, whether \<open>*eof\<close> is set, and the stream.\<close>

definition pb_decode_varint32_eof :: "pb_istream \<Rightarrow> uint32 option \<times> bool \<times> pb_istream" where
  "pb_decode_varint32_eof s =
     (case pb_readbyte s of
       (None, s) \<Rightarrow> (None, bytes_left s = 0, s)
     | (Some byte, s) \<Rightarrow>
         if byte AND 0x80 = 0 then (Some (ucast byte), False, s)
         else (case varint32_loop (ucast (byte AND 0x7f)) 7 s of (r, s) \<Rightarrow> (r, False, s)))"

definition pb_decode_varint32 :: "pb_istream \<Rightarrow> uint32 option \<times> pb_istream" where
  "pb_decode_varint32 s = (case pb_decode_varint32_eof s of (r, _, s) \<Rightarrow> (r, s))"

function varint_read_loop :: "uint64 \<Rightarrow> byte \<Rightarrow> pb_istream \<Rightarrow> uint64 option \<times> pb_istream" where
  "varint_read_loop result bitpos s =
     (if bitpos \<ge> 64 then (None, set_ierror ''varint overflow'' s)
      else (case pb_readbyte s of
        (None, s) \<Rightarrow> (None, s)
      | (Some byte, s') \<Rightarrow>
          let result = result OR push_bit (unat bitpos) (ucast (byte AND 0x7f)) in
          if byte AND 0x80 \<noteq> 0 then varint_read_loop result (bitpos + 7) s' else (Some result, s')))"
  by pat_completeness auto
termination
  by (relation "measure (\<lambda>(_, _, s). bytes_left s)") (auto simp: pb_readbyte_def buf_read_def split: if_splits)

declare varint_read_loop.simps [simp del]

definition pb_decode_varint :: "pb_istream \<Rightarrow> uint64 option \<times> pb_istream" where
  "pb_decode_varint s = varint_read_loop 0 0 s"

definition pb_decode_svarint :: "pb_istream \<Rightarrow> uint64 option \<times> pb_istream" where
  "pb_decode_svarint s =
     (case pb_decode_varint s of
       (None, s) \<Rightarrow> (None, s)
     | (Some value, s) \<Rightarrow> (Some (if value AND 1 \<noteq> 0 then NOT (drop_bit 1 value) else drop_bit 1 value), s))"

definition pb_decode_fixed32 :: "pb_istream \<Rightarrow> uint32 option \<times> pb_istream" where
  "pb_decode_fixed32 s =
     (case pb_read 4 s of
       (None, s) \<Rightarrow> (None, s)
     | (Some bytes, s) \<Rightarrow>
         (Some (push_bit 0 (ucast (bytes ! 0)) OR push_bit 8 (ucast (bytes ! 1)) OR
                push_bit 16 (ucast (bytes ! 2)) OR push_bit 24 (ucast (bytes ! 3))), s))"

definition pb_decode_fixed64 :: "pb_istream \<Rightarrow> uint64 option \<times> pb_istream" where
  "pb_decode_fixed64 s =
     (case pb_read 8 s of
       (None, s) \<Rightarrow> (None, s)
     | (Some bytes, s) \<Rightarrow>
         (Some (push_bit 0 (ucast (bytes ! 0)) OR push_bit 8 (ucast (bytes ! 1)) OR
                push_bit 16 (ucast (bytes ! 2)) OR push_bit 24 (ucast (bytes ! 3)) OR
                push_bit 32 (ucast (bytes ! 4)) OR push_bit 40 (ucast (bytes ! 5)) OR
                push_bit 48 (ucast (bytes ! 6)) OR push_bit 56 (ucast (bytes ! 7))), s))"

function pb_skip_varint :: "pb_istream \<Rightarrow> bool \<times> pb_istream" where
  "pb_skip_varint s =
     (case pb_read 1 s of
       (None, s) \<Rightarrow> (False, s)
     | (Some byte, s') \<Rightarrow> if hd byte AND 0x80 \<noteq> 0 then pb_skip_varint s' else (True, s'))"
  by pat_completeness auto
termination
  by (relation "measure bytes_left") (auto simp: pb_read_def buf_read_def split: if_splits)

declare pb_skip_varint.simps [simp del]

definition skip_bytes :: "nat \<Rightarrow> pb_istream \<Rightarrow> bool \<times> pb_istream" where
  "skip_bytes cnt s = (case pb_read cnt s of (r, s) \<Rightarrow> (r \<noteq> None, s))"

definition pb_skip_string :: "pb_istream \<Rightarrow> bool \<times> pb_istream" where
  "pb_skip_string s =
     (case pb_decode_varint32 s of
       (None, s) \<Rightarrow> (False, s)
     | (Some len, s) \<Rightarrow> skip_bytes (unat len) s)"

text \<open>The wire type and the tag, whether \<open>*eof\<close> is set, and the stream.\<close>

definition pb_decode_tag :: "pb_istream \<Rightarrow> (uint32 \<times> uint32) option \<times> bool \<times> pb_istream" where
  "pb_decode_tag s =
     (case pb_decode_varint32_eof s of
       (None, eof, s) \<Rightarrow> (None, eof, s)
     | (Some temp, eof, s) \<Rightarrow>
         if temp = 0 then (None, True, s) else (Some (temp AND 7, drop_bit 3 temp), eof, s))"

definition pb_skip_field :: "uint32 \<Rightarrow> pb_istream \<Rightarrow> bool \<times> pb_istream" where
  "pb_skip_field wire_type s =
     (if wire_type = PB_WT_VARINT then pb_skip_varint s
      else if wire_type = PB_WT_64BIT then skip_bytes 8 s
      else if wire_type = PB_WT_STRING then pb_skip_string s
      else if wire_type = PB_WT_32BIT then skip_bytes 4 s
      else (False, set_ierror ''invalid wire_type'' s))"

function read_raw_varint :: "nat \<Rightarrow> byte list \<Rightarrow> pb_istream \<Rightarrow> byte list option \<times> pb_istream" where
  "read_raw_varint max_n buf s =
     (if length buf + 1 > max_n then (None, s)
      else (case pb_read 1 s of
        (None, s) \<Rightarrow> (None, s)
      | (Some byte, s') \<Rightarrow>
          if hd byte AND 0x80 \<noteq> 0 then read_raw_varint max_n (buf @ byte) s' else (Some (buf @ byte), s')))"
  by pat_completeness auto
termination
  by (relation "measure (\<lambda>(_, _, s). bytes_left s)") (auto simp: pb_read_def buf_read_def split: if_splits)

definition read_raw_value :: "uint32 \<Rightarrow> nat \<Rightarrow> pb_istream \<Rightarrow> byte list option \<times> pb_istream" where
  "read_raw_value wire_type max_n s =
     (if wire_type = PB_WT_VARINT then read_raw_varint max_n [] s
      else if wire_type = PB_WT_64BIT then pb_read 8 s
      else if wire_type = PB_WT_32BIT then pb_read 4 s
      else (None, set_ierror ''invalid wire_type'' s))"

text \<open>The substream, and the stream with the bytes of the substream taken off its count.\<close>

definition pb_make_string_substream :: "pb_istream \<Rightarrow> pb_istream option \<times> pb_istream" where
  "pb_make_string_substream s =
     (case pb_decode_varint32 s of
       (None, s) \<Rightarrow> (None, s)
     | (Some sz, s) \<Rightarrow>
         if bytes_left s < unat sz then (None, set_ierror ''parent stream too short'' s)
         else (Some (s\<lparr>bytes_left := unat sz\<rparr>), s\<lparr>bytes_left := bytes_left s - unat sz\<rparr>))"

definition pb_close_string_substream :: "pb_istream \<Rightarrow> pb_istream \<Rightarrow> bool \<times> pb_istream" where
  "pb_close_string_substream s substream =
     (case (if bytes_left substream \<noteq> 0 then skip_bytes (bytes_left substream) substream else (True, substream)) of
       (False, _) \<Rightarrow> (False, s)
     | (True, substream) \<Rightarrow> (True, s\<lparr>i_state := i_state substream, i_errmsg := i_errmsg substream\<rparr>))"

section \<open>Varints\<close>

lemma mask_7: "(0x7f :: 64 word) = mask 7" "(0x7f :: 32 word) = mask 7" "(0x7f :: byte) = mask 7"
  by (simp_all add: mask_eq_exp_minus_1)

lemma bit_7f: "bit (0x7f :: 64 word) n \<longleftrightarrow> n < 7" "bit (0x7f :: 32 word) n \<longleftrightarrow> n < 7" "bit (0x7f :: byte) n \<longleftrightarrow> n < 7"
  unfolding mask_7 bit_mask_iff by auto

lemma bit_80: "bit (0x80 :: byte) n \<longleftrightarrow> n = 7"
proof -
  have "(0x80 :: byte) = push_bit 7 1" by simp
  then show ?thesis by (simp only: bit_push_bit_iff) (auto simp: bit_1_iff)
qed

definition low_byte :: "uint64 \<Rightarrow> byte" where
  "low_byte v = ucast (v AND 0x7f)"

lemma bit_low_byte: "bit (low_byte v) n \<longleftrightarrow> n < 7 \<and> bit v n"
  unfolding low_byte_def bit_ucast_iff bit_and_iff bit_7f by auto

lemma low_byte_marks:
  "low_byte v AND 0x80 = 0" "(low_byte v OR 0x80) AND 0x80 \<noteq> 0" "(low_byte v OR 0x80) AND 0x7f = low_byte v" "low_byte v AND 0x7f = low_byte v"
proof -
  show "low_byte v AND 0x80 = 0" "(low_byte v OR 0x80) AND 0x7f = low_byte v" "low_byte v AND 0x7f = low_byte v"
    by (rule bit_word_eqI, unfold bit_and_iff bit_or_iff bit_low_byte bit_80 bit_7f, auto)+
  have "bit ((low_byte v OR 0x80) AND 0x80) 7" unfolding bit_and_iff bit_or_iff bit_low_byte bit_80 by simp
  then show "(low_byte v OR 0x80) AND 0x80 \<noteq> 0" by auto
qed

function vb :: "uint64 \<Rightarrow> byte list" where
  "vb v = (if v \<le> 0x7f then [low_byte v] else (low_byte v OR 0x80) # vb (drop_bit 7 v))"
  by pat_completeness auto
termination by (relation "measure unat") (auto intro!: unat_drop_less simp: not_le)

declare vb.simps [simp del]

lemma low_byte_small: "v \<le> 0x7f \<Longrightarrow> low_byte v = ucast v"
proof -
  assume "v \<le> 0x7f"
  then have "v AND 0x7f = v" using unat_and_mask [of v 7] by (simp add: mask_7 [symmetric] word_le_nat_alt word_unat_eq_iff)
  then show ?thesis by (simp add: low_byte_def)
qed

lemma vb_nonempty [simp]: "vb v \<noteq> []"
  by (subst vb.simps) simp

lemma drop_7_zero: "v \<le> 0x7f \<longleftrightarrow> drop_bit 7 v = (0 :: uint64)"
  by (simp add: word_unat_eq_iff unat_drop word_le_nat_alt div_eq_0_iff less_Suc_eq_le [symmetric])

lemma clear_last_Cons: "xs \<noteq> [] \<Longrightarrow> clear_last (x # xs) = x # clear_last xs"
  by (cases xs rule: rev_cases) (auto simp: clear_last_def nth_append)

lemma clear_varint_loop: "v \<noteq> 0 \<Longrightarrow> clear_last (varint_loop v) = vb v"
proof (induction v rule: varint_loop.induct)
  case (1 v)
  show ?case
  proof (cases "drop_bit 7 v = 0")
    case True
    then show ?thesis using 1(2)
      by (simp add: varint_loop.simps [of v] varint_loop.simps [of 0] vb.simps [of v] drop_7_zero clear_last_def low_byte_def [symmetric]
          low_byte_marks)
  next
    case False
    then have "varint_loop (drop_bit 7 v) \<noteq> []" by (simp add: varint_loop.simps [of "drop_bit 7 v"])
    then show ?thesis using 1 False
      by (simp add: varint_loop.simps [of v] vb.simps [of v] drop_7_zero clear_last_Cons low_byte_def)
  qed
qed

lemma varint_bytes_vb: "varint_bytes v = vb v"
proof (cases "v \<le> 0x7f")
  case True
  then show ?thesis by (simp add: varint_bytes_def vb.simps [of v] low_byte_small)
next
  case False
  then have "v \<noteq> 0" by auto
  then show ?thesis using False clear_varint_loop by (simp add: varint_bytes_def)
qed

text \<open>The stream after \<open>n\<close> bytes have been read.\<close>

definition advance :: "nat \<Rightarrow> pb_istream \<Rightarrow> pb_istream" where
  "advance n s = s\<lparr>i_state := drop n (i_state s), bytes_left := bytes_left s - n\<rparr>"

lemma advance_advance [simp]: "advance m (advance n s) = advance (n + m) s"
  by (simp add: advance_def add.commute)

text \<open>The bytes \<open>bs\<close> are next in the stream.\<close>

definition holds :: "byte list \<Rightarrow> pb_istream \<Rightarrow> bool" where
  "holds bs s \<longleftrightarrow> length bs \<le> bytes_left s \<and> (\<exists>rest. i_state s = bs @ rest)"

lemma holds_Cons: "holds (b # bs) s \<longleftrightarrow> bytes_left s \<noteq> 0 \<and> (\<exists>rest. i_state s = b # rest) \<and> holds bs (advance 1 s)"
  by (auto simp: holds_def advance_def)

lemma holds_append: "holds (as @ bs) s \<longleftrightarrow> holds as s \<and> holds bs (advance (length as) s)"
  by (auto simp: holds_def advance_def)

lemma readbyte_holds: "holds (b # bs) s \<Longrightarrow> pb_readbyte s = (Some b, advance 1 s)"
  by (auto simp: pb_readbyte_def buf_read_def advance_def holds_def)

lemma read_holds: "holds bs s \<Longrightarrow> pb_read (length bs) s = (Some bs, advance (length bs) s)"
  by (auto simp: pb_read_def buf_read_def advance_def holds_def)

lemma split_low: "push_bit p v = push_bit p (ucast (low_byte v)) OR push_bit (p + 7) (drop_bit 7 v)" for v :: uint64
proof (rule bit_word_eqI)
  fix n assume "n < LENGTH(64)"
  then show "bit (push_bit p v) n = bit (push_bit p (ucast (low_byte v)) OR push_bit (p + 7) (drop_bit 7 v)) n"
    by (cases "n < p + 7") (auto simp: bit_push_bit_iff bit_or_iff bit_ucast_iff bit_low_byte bit_drop_bit_eq)
qed

lemma unat_drop_7_less:
  assumes "unat v < 2 ^ (64 - p)" and "p < 64" and "drop_bit 7 v \<noteq> (0 :: uint64)"
  shows "p + 7 < 64 \<and> unat (drop_bit 7 v) < 2 ^ (64 - (p + 7))"
proof -
  have "128 \<le> unat v" using assms(3) by (simp add: word_unat_eq_iff unat_drop div_eq_0_iff)
  then have "(2 :: nat) ^ 7 < 2 ^ (64 - p)" using assms(1) by simp
  then have p: "7 < 64 - p" by (simp only: power_strict_increasing_iff)
  then have "(2 :: nat) ^ (64 - p) = 2 ^ (64 - (p + 7)) * 128" using power_add [of "2 :: nat" "64 - (p + 7)" 7] by simp
  then show ?thesis using assms(1) p by (simp add: unat_drop div_less_iff_less_mult)
qed

lemma or_assoc_w: "(a OR b) OR c = a OR b OR (c :: 'a::len word)"
  by (auto simp: bit_eq_iff bit_or_iff)

lemma varint_read_loop_vb:
  assumes "holds (vb v) s" and "unat v < 2 ^ (64 - unat p)" and "unat p < 64"
  shows "varint_read_loop r p s = (Some (r OR push_bit (unat p) v), advance (length (vb v)) s)"
  using assms
proof (induction v arbitrary: r p s rule: vb.induct)
  case (1 v)
  have p: "\<not> 64 \<le> p" using "1.prems"(3) by (simp add: word_le_nat_alt)
  show ?case
  proof (cases "v \<le> 0x7f")
    case True
    then have vb: "vb v = [low_byte v]" by (simp add: vb.simps [of v])
    have "push_bit (unat p) v = push_bit (unat p) (ucast (low_byte v))"
      using split_low [of "unat p" v] True by (simp add: drop_7_zero)
    then show ?thesis using readbyte_holds [OF "1.prems"(1) [unfolded vb]] p
      by (subst varint_read_loop.simps) (simp add: vb low_byte_marks)
  next
    case False
    then have vb: "vb v = (low_byte v OR 0x80) # vb (drop_bit 7 v)" by (simp add: vb.simps [of v])
    have d: "unat p + 7 < 64 \<and> unat (drop_bit 7 v) < 2 ^ (64 - (unat p + 7))"
      using unat_drop_7_less [OF "1.prems"(2,3)] False by (simp add: drop_7_zero)
    then have p7: "unat (p + 7) = unat p + 7" by (simp add: unat_word_ariths)
    have "holds (vb (drop_bit 7 v)) (advance 1 s)" using "1.prems"(1) by (simp add: vb holds_Cons)
    from "1.IH" [OF False this, of "p + 7" "r OR push_bit (unat p) (ucast (low_byte v))"] d
    have "varint_read_loop (r OR push_bit (unat p) (ucast (low_byte v))) (p + 7) (advance 1 s) =
        (Some (r OR push_bit (unat p) (ucast (low_byte v)) OR push_bit (unat p + 7) (drop_bit 7 v)),
         advance (Suc (length (vb (drop_bit 7 v)))) s)"
      unfolding p7 by (simp add: or_assoc_w)
    then show ?thesis using readbyte_holds [OF "1.prems"(1) [unfolded vb]] p split_low [of "unat p" v]
      by (subst varint_read_loop.simps) (simp add: vb low_byte_marks or_assoc_w)
  qed
qed

lemma decode_varint_vb: "holds (vb v) s \<Longrightarrow> pb_decode_varint s = (Some v, advance (length (vb v)) s)"
  using varint_read_loop_vb [of v s 0 0] unsigned_less [of v] by (simp add: pb_decode_varint_def)

lemma length_vb: "length (vb v) \<le> 10"
proof -
  have "length (vb v) = base_len 128 (unat v)"
  proof (induction v rule: vb.induct)
    case (1 v)
    then show ?case by (simp add: vb.simps [of v] base_len.simps [of 128 "unat v"] unat_drop word_le_nat_alt)
  qed
  also have "\<dots> \<le> 10" using unsigned_less [of v] by (intro base_len_le) (auto intro: less_le_trans)
  finally show ?thesis .
qed

text \<open>The same for values that fit in 32 bits.\<close>

lemma split_low_32: "push_bit p (ucast v :: uint32) = push_bit p (ucast (low_byte v)) OR push_bit (p + 7) (ucast (drop_bit 7 v))"
proof (rule bit_word_eqI)
  fix n assume "n < LENGTH(32)"
  then show "bit (push_bit p (ucast v :: uint32)) n = bit (push_bit p (ucast (low_byte v) :: uint32) OR push_bit (p + 7) (ucast (drop_bit 7 v))) n"
    by (cases "n < p + 7") (auto simp: bit_push_bit_iff bit_or_iff bit_ucast_iff bit_low_byte bit_drop_bit_eq)
qed

lemma low_byte_top: "unat v < 16 \<Longrightarrow> low_byte v AND 0x70 = 0"
proof -
  assume "unat v < 16"
  then have v: "v = take_bit 4 v" by (simp add: word_unat_eq_iff unsigned_take_bit_eq take_bit_nat_eq_self)
  have b: "bit (0x70 :: byte) n \<longleftrightarrow> 4 \<le> n \<and> n < 7" for n
  proof -
    have "(0x70 :: byte) = push_bit 4 (mask 3)" by (simp add: mask_eq_exp_minus_1)
    show ?thesis unfolding \<open>0x70 = push_bit 4 (mask 3)\<close> bit_push_bit_iff bit_mask_iff by auto
  qed
  have lt: "bit v n \<Longrightarrow> n < 4" for n using v bit_take_bit_iff [of 4 v n] by metis
  show ?thesis by (rule bit_word_eqI, unfold bit_and_iff bit_low_byte b) (auto dest: lt)
qed

lemma varint32_loop_vb:
  assumes "holds (vb v) s" and "unat v < 2 ^ (32 - unat p)" and "unat p \<in> {7, 14, 21, 28}"
  shows "varint32_loop r p s = (Some (r OR push_bit (unat p) (ucast v)), advance (length (vb v)) s)"
  using assms
proof (induction v arbitrary: r p s rule: vb.induct)
  case (1 v)
  have p: "\<not> 32 \<le> p" using "1.prems"(3) by (auto simp: word_le_nat_alt)
  have p7: "unat (p + 7) = unat p + 7" using "1.prems"(3) by (auto simp: unat_word_ariths)
  show ?case
  proof (cases "v \<le> 0x7f")
    case True
    then have vb: "vb v = [low_byte v]" by (simp add: vb.simps [of v])
    have "push_bit (unat p) (ucast v :: uint32) = push_bit (unat p) (ucast (low_byte v))"
      using split_low_32 [of "unat p" v] True by (simp add: drop_7_zero)
    moreover have "\<not> (p + 7 = 35 \<and> low_byte v AND 0x70 \<noteq> 0)"
    proof
      assume *: "p + 7 = 35 \<and> low_byte v AND 0x70 \<noteq> 0"
      then have "unat p = 28" using p7 by (simp add: word_unat_eq_iff)
      then show False using * low_byte_top [of v] "1.prems"(2) by simp
    qed
    ultimately show ?thesis using readbyte_holds [OF "1.prems"(1) [unfolded vb]] p
      by (subst varint32_loop.simps) (simp add: vb low_byte_marks)
  next
    case False
    then have vb: "vb v = (low_byte v OR 0x80) # vb (drop_bit 7 v)" by (simp add: vb.simps [of v])
    have "128 \<le> unat v" using False by (simp add: word_le_nat_alt)
    then have d: "unat (p + 7) \<in> {7, 14, 21, 28}" "unat (drop_bit 7 v) < 2 ^ (32 - unat (p + 7))"
      using "1.prems"(2,3) unfolding p7 by (auto simp: unat_drop div_less_iff_less_mult)
    have "holds (vb (drop_bit 7 v)) (advance 1 s)" using "1.prems"(1) by (simp add: vb holds_Cons)
    from "1.IH" [OF False this d(2,1), of "r OR push_bit (unat p) (ucast (low_byte v))"]
    have "varint32_loop (r OR push_bit (unat p) (ucast (low_byte v))) (p + 7) (advance 1 s) =
        (Some (r OR push_bit (unat p) (ucast (low_byte v)) OR push_bit (unat p + 7) (ucast (drop_bit 7 v))),
         advance (Suc (length (vb (drop_bit 7 v)))) s)"
      unfolding p7 by (simp add: or_assoc_w)
    then show ?thesis using readbyte_holds [OF "1.prems"(1) [unfolded vb]] p split_low_32 [of "unat p" v]
      by (subst varint32_loop.simps) (simp add: vb low_byte_marks or_assoc_w)
  qed
qed

lemma decode_varint32_eof_vb:
  assumes "holds (vb v) s" and "unat v < 2 ^ 32"
  shows "pb_decode_varint32_eof s = (Some (ucast v), False, advance (length (vb v)) s)"
proof (cases "v \<le> 0x7f")
  case True
  then have vb: "vb v = [low_byte v]" by (simp add: vb.simps [of v])
  show ?thesis using readbyte_holds [OF assms(1) [unfolded vb]] split_low_32 [of 0 v] True
    by (simp add: pb_decode_varint32_eof_def vb low_byte_marks drop_7_zero)
next
  case False
  then have vb: "vb v = (low_byte v OR 0x80) # vb (drop_bit 7 v)" by (simp add: vb.simps [of v])
  have "holds (vb (drop_bit 7 v)) (advance 1 s)" using assms(1) by (simp add: vb holds_Cons)
  from varint32_loop_vb [OF this, of 7 "ucast (low_byte v)"] assms(2)
  have "varint32_loop (ucast (low_byte v)) 7 (advance 1 s) =
      (Some (ucast (low_byte v) OR push_bit 7 (ucast (drop_bit 7 v))), advance (Suc (length (vb (drop_bit 7 v)))) s)"
    by (simp add: unat_drop div_less_iff_less_mult)
  then show ?thesis using readbyte_holds [OF assms(1) [unfolded vb]] split_low_32 [of 0 v]
    by (simp add: pb_decode_varint32_eof_def vb low_byte_marks)
qed

lemma skip_varint_vb: "holds (vb v) s \<Longrightarrow> pb_skip_varint s = (True, advance (length (vb v)) s)"
proof (induction v arbitrary: s rule: vb.induct)
  case (1 v)
  show ?case
  proof (cases "v \<le> 0x7f")
    case True
    then have vb: "vb v = [low_byte v]" by (simp add: vb.simps [of v])
    show ?thesis using read_holds [OF "1.prems"] by (subst pb_skip_varint.simps) (simp add: vb low_byte_marks)
  next
    case False
    then have vb: "vb v = (low_byte v OR 0x80) # vb (drop_bit 7 v)" by (simp add: vb.simps [of v])
    then have h: "holds ([low_byte v OR 0x80] @ vb (drop_bit 7 v)) s" using "1.prems" by simp
    then have "holds [low_byte v OR 0x80] s" "holds (vb (drop_bit 7 v)) (advance 1 s)" unfolding holds_append by simp_all
    then show ?thesis using read_holds [of "[low_byte v OR 0x80]" s] "1.IH" [OF False]
      by (subst pb_skip_varint.simps) (simp add: vb low_byte_marks)
  qed
qed

section \<open>Zigzag and fixed-width integers\<close>

lemma unzigzag: "(if zigzag v AND 1 \<noteq> 0 then NOT (drop_bit 1 (zigzag v)) else drop_bit 1 (zigzag v)) = v"
proof -
  have z: "bit (zigzag v) n = (n < 64 \<and> (if n = 0 then v <s 0 else bit v (n - 1) \<noteq> (v <s 0)))" for n
    by (cases "v <s 0") (simp_all only: zigzag_def if_True if_False bit_not_iff bit_push_bit_iff, auto)
  have top: "v <s 0 \<longleftrightarrow> bit v 63" using bit_last_iff [of v] by (simp add: word_sless_alt)
  have odd: "zigzag v AND 1 \<noteq> 0 \<longleftrightarrow> bit v 63" using z [of 0] top by (simp add: and_one_eq odd_iff_mod_2_eq_one bit_0)
  show ?thesis
  proof (rule bit_word_eqI)
    fix n assume "n < LENGTH(64)"
    then have n: "n < 64" by simp
    then show "bit (if zigzag v AND 1 \<noteq> 0 then NOT (drop_bit 1 (zigzag v)) else drop_bit 1 (zigzag v)) n = bit v n"
      unfolding odd by (cases "n = 63"; cases "bit v 63") (simp_all add: z top bit_drop_bit_eq bit_not_iff)
  qed
qed

lemma mask_8: "(0xff :: 32 word) = mask 8" "(0xff :: 64 word) = mask 8"
  by (simp_all add: mask_eq_exp_minus_1)

lemma bit_ff: "bit (0xff :: 32 word) n \<longleftrightarrow> n < 8" "bit (0xff :: 64 word) n \<longleftrightarrow> n < 8"
  unfolding mask_8 bit_mask_iff by auto

lemma bit_byte_32: "bit (ucast (ucast (drop_bit k v AND 0xff) :: byte) :: uint32) m \<longleftrightarrow> m < 8 \<and> bit v (k + m)" for v :: uint32
  unfolding bit_ucast_iff bit_and_iff bit_drop_bit_eq bit_ff by auto

lemma bit_byte_64: "bit (ucast (ucast (drop_bit k v AND 0xff) :: byte) :: uint64) m \<longleftrightarrow> m < 8 \<and> bit v (k + m)" for v :: uint64
  unfolding bit_ucast_iff bit_and_iff bit_drop_bit_eq bit_ff by auto

lemma bit_pushed_32:
  "n < 32 \<Longrightarrow> bit (push_bit k (ucast (ucast (drop_bit k v AND 0xff) :: byte) :: uint32)) n \<longleftrightarrow> k \<le> n \<and> n < k + 8 \<and> bit v n" for v :: uint32
  by (auto simp: bit_push_bit_iff bit_byte_32)

lemma bit_pushed_64:
  "n < 64 \<Longrightarrow> bit (push_bit k (ucast (ucast (drop_bit k v AND 0xff) :: byte) :: uint64)) n \<longleftrightarrow> k \<le> n \<and> n < k + 8 \<and> bit v n" for v :: uint64
  by (auto simp: bit_push_bit_iff bit_byte_64)

lemma fixed32_join:
  "push_bit 0 (ucast (fixed32_bytes v ! 0)) OR push_bit 8 (ucast (fixed32_bytes v ! 1)) OR
   push_bit 16 (ucast (fixed32_bytes v ! 2)) OR push_bit 24 (ucast (fixed32_bytes v ! 3)) = v" (is "?w = _")
proof (rule bit_word_eqI)
  fix n assume "n < LENGTH(32)"
  then have n: "n < 32" by simp
  have w: "?w = push_bit 0 (ucast (ucast (drop_bit 0 v AND 0xff) :: byte)) OR push_bit 8 (ucast (ucast (drop_bit 8 v AND 0xff) :: byte)) OR
     push_bit 16 (ucast (ucast (drop_bit 16 v AND 0xff) :: byte)) OR push_bit 24 (ucast (ucast (drop_bit 24 v AND 0xff) :: byte))"
    by (simp add: fixed32_bytes_def)
  show "bit ?w n = bit v n" unfolding w bit_or_iff bit_pushed_32 [OF n] using n by linarith
qed

lemma fixed64_join:
  "push_bit 0 (ucast (fixed64_bytes v ! 0)) OR push_bit 8 (ucast (fixed64_bytes v ! 1)) OR
   push_bit 16 (ucast (fixed64_bytes v ! 2)) OR push_bit 24 (ucast (fixed64_bytes v ! 3)) OR
   push_bit 32 (ucast (fixed64_bytes v ! 4)) OR push_bit 40 (ucast (fixed64_bytes v ! 5)) OR
   push_bit 48 (ucast (fixed64_bytes v ! 6)) OR push_bit 56 (ucast (fixed64_bytes v ! 7)) = v" (is "?w = _")
proof (rule bit_word_eqI)
  fix n assume "n < LENGTH(64)"
  then have n: "n < 64" by simp
  have w: "?w = push_bit 0 (ucast (ucast (drop_bit 0 v AND 0xff) :: byte)) OR push_bit 8 (ucast (ucast (drop_bit 8 v AND 0xff) :: byte)) OR
     push_bit 16 (ucast (ucast (drop_bit 16 v AND 0xff) :: byte)) OR push_bit 24 (ucast (ucast (drop_bit 24 v AND 0xff) :: byte)) OR
     push_bit 32 (ucast (ucast (drop_bit 32 v AND 0xff) :: byte)) OR push_bit 40 (ucast (ucast (drop_bit 40 v AND 0xff) :: byte)) OR
     push_bit 48 (ucast (ucast (drop_bit 48 v AND 0xff) :: byte)) OR push_bit 56 (ucast (ucast (drop_bit 56 v AND 0xff) :: byte))"
    by (simp add: fixed64_bytes_def)
  show "bit ?w n = bit v n" unfolding w bit_or_iff bit_pushed_64 [OF n] using n by linarith
qed

section \<open>Writing to a buffer\<close>

lemma write_buffer:
  assumes "length bs = n" and "callback s = Some buf_write" and "bytes_written s + n \<le> max_size s" and "max_size s < size_mod"
  shows "pb_write bs n s = (True, s\<lparr>o_state := o_state s @ bs, bytes_written := bytes_written s + n\<rparr>)"
proof (cases "n = 0")
  case True
  then show ?thesis using assms by (simp add: pb_write_def sz_add_def)
next
  case False
  then show ?thesis using assms by (simp add: pb_write_def sz_add_def buf_write_def Let_def)
qed

lemma length_fixed: "length (fixed32_bytes w) = 4" "length (fixed64_bytes v) = 8"
  by (simp_all add: fixed32_bytes_def fixed64_bytes_def)

lemma encode_varint_buffer:
  assumes "callback s = Some buf_write" and "bytes_written s + length (vb v) \<le> max_size s" and "max_size s < size_mod"
  shows "pb_encode_varint v s = (True, s\<lparr>o_state := o_state s @ vb v, bytes_written := bytes_written s + length (vb v)\<rparr>)"
  using write_buffer [OF refl assms] by (simp add: pb_encode_varint_def varint_bytes_vb Let_def)

lemma holds_buffer: "holds bs (pb_istream_from_buffer bs (length bs))"
  by (simp add: holds_def pb_istream_from_buffer_def)

section \<open>Properties of the wire layer\<close>

text \<open>
  C33: ten bytes of buffer are enough for every integer of the wire, and each is read back from
  what its encoder wrote, with nothing left over: varints, zigzag varints and the two fixed
  widths.
\<close>

theorem pb_integers_round_trip:
  "(\<exists>s. pb_encode_varint v (pb_ostream_from_buffer 10) = (True, s) \<and>
     (\<exists>t. pb_decode_varint (pb_istream_from_buffer (o_state s) (bytes_written s)) = (Some v, t) \<and> bytes_left t = 0) \<and>
     (\<exists>t. pb_skip_varint (pb_istream_from_buffer (o_state s) (bytes_written s)) = (True, t) \<and> bytes_left t = 0)) \<and>
   (\<exists>s. pb_encode_varint (ucast w) (pb_ostream_from_buffer 10) = (True, s) \<and>
     (\<exists>t. pb_decode_varint32 (pb_istream_from_buffer (o_state s) (bytes_written s)) = (Some w, t) \<and> bytes_left t = 0)) \<and>
   (\<exists>s. pb_encode_svarint v (pb_ostream_from_buffer 10) = (True, s) \<and>
     (\<exists>t. pb_decode_svarint (pb_istream_from_buffer (o_state s) (bytes_written s)) = (Some v, t) \<and> bytes_left t = 0)) \<and>
   (\<exists>s. pb_encode_fixed32 w (pb_ostream_from_buffer 10) = (True, s) \<and>
     (\<exists>t. pb_decode_fixed32 (pb_istream_from_buffer (o_state s) (bytes_written s)) = (Some w, t) \<and> bytes_left t = 0)) \<and>
   (\<exists>s. pb_encode_fixed64 v (pb_ostream_from_buffer 10) = (True, s) \<and>
     (\<exists>t. pb_decode_fixed64 (pb_istream_from_buffer (o_state s) (bytes_written s)) = (Some v, t) \<and> bytes_left t = 0))"
proof -
  have e: "pb_encode_varint x (pb_ostream_from_buffer 10) =
      (True, (pb_ostream_from_buffer 10)\<lparr>o_state := vb x, bytes_written := length (vb x)\<rparr>)" for x
    using encode_varint_buffer [of "pb_ostream_from_buffer 10" x] length_vb [of x]
    by (simp add: pb_ostream_from_buffer_def size_mod_def)
  have adv: "bytes_left (advance (length bs) (pb_istream_from_buffer bs (length bs))) = 0" for bs
    by (simp add: advance_def pb_istream_from_buffer_def)
  note d = decode_varint_vb [OF holds_buffer] skip_varint_vb [OF holds_buffer]
  have w: "unat (ucast w :: uint64) < 2 ^ 32" "ucast (ucast w :: uint64) = w"
  proof -
    have u: "unat (ucast w :: uint64) = unat w"
      by (simp add: unsigned_ucast_eq take_bit_nat_eq_self order_less_le_trans [OF unsigned_less])
    then show "unat (ucast w :: uint64) < 2 ^ 32" using unsigned_less [of w, where ?'a = nat] by simp
    show "ucast (ucast w :: uint64) = w" by (rule bit_word_eqI) (simp add: bit_ucast_iff)
  qed
  have f: "pb_encode_fixed32 w (pb_ostream_from_buffer 10) =
      (True, (pb_ostream_from_buffer 10)\<lparr>o_state := fixed32_bytes w, bytes_written := 4\<rparr>)"
    "pb_encode_fixed64 v (pb_ostream_from_buffer 10) =
      (True, (pb_ostream_from_buffer 10)\<lparr>o_state := fixed64_bytes v, bytes_written := 8\<rparr>)"
    using write_buffer [of "fixed32_bytes w" 4 "pb_ostream_from_buffer 10"] write_buffer [of "fixed64_bytes v" 8 "pb_ostream_from_buffer 10"]
    by (simp_all add: pb_encode_fixed32_def pb_encode_fixed64_def length_fixed pb_ostream_from_buffer_def size_mod_def)
  have r: "pb_read 4 (pb_istream_from_buffer (fixed32_bytes w) 4) = (Some (fixed32_bytes w), advance 4 (pb_istream_from_buffer (fixed32_bytes w) 4))"
    "pb_read 8 (pb_istream_from_buffer (fixed64_bytes v) 8) = (Some (fixed64_bytes v), advance 8 (pb_istream_from_buffer (fixed64_bytes v) 8))"
    using read_holds [OF holds_buffer [of "fixed32_bytes w"]] read_holds [OF holds_buffer [of "fixed64_bytes v"]]
    unfolding length_fixed by blast+
  show ?thesis
    using d [of v] d [of "zigzag v"] decode_varint32_eof_vb [OF holds_buffer w(1)] w(2) unzigzag [of v] fixed32_join [of w] fixed64_join [of v] r
    by (simp add: e f adv pb_encode_svarint_def pb_decode_svarint_def pb_decode_varint32_def pb_decode_fixed32_def pb_decode_fixed64_def
        advance_def pb_istream_from_buffer_def)
qed

text \<open>
  The bit position of \<open>pb_decode_varint32_eof\<close> wraps around after 37 bytes: a varint of 38
  bytes, which \<open>pb_decode_varint\<close> refuses, is read as the value 8, so that a tag may be spelled
  with any number of padding bytes and bits after the wrap are added to the value.
\<close>

theorem pb_varint32_wraps:
  "fst (pb_decode_varint32 (pb_istream_from_buffer (replicate 37 0x80 @ [1]) 38)) = Some 8 \<and>
   fst (pb_decode_varint (pb_istream_from_buffer (replicate 37 0x80 @ [1]) 38)) = None"
  by code_simp

end
