(* ===== verification/PbEncode.thy ===== *)
theory PbEncode
  imports PbWire
begin

text \<open>
  The message encoder of nanopb (\<open>pb_encode.c\<close>) and the field iterator (\<open>pb_common.c\<close>): the
  encoder walks over a table of field descriptors and reads the message structure at the
  offsets they give. Memory is a function from addresses to bytes, descriptor tables and
  functions are found by their addresses. A call has no result (\<open>None\<close>) when the nesting of
  submessages exceeds the fuel or when it is undefined in C (a call through a null entry of
  \<open>PB_ENCODERS\<close>).
\<close>

section \<open>Memory\<close>

type_synonym addr = uint64
type_synonym memory = "addr \<Rightarrow> byte"

fun load :: "memory \<Rightarrow> addr \<Rightarrow> nat \<Rightarrow> uint64" where
  "load m a 0 = 0"
| "load m a (Suc n) = ucast (m a) OR push_bit 8 (load m (a + 1) n)"

definition load_signed :: "memory \<Rightarrow> addr \<Rightarrow> nat \<Rightarrow> uint64" where
  "load_signed m a n = signed_take_bit (8 * n - 1) (load m a n)"

definition load_ptr :: "memory \<Rightarrow> addr \<Rightarrow> addr" where
  "load_ptr m a = load m a 8"

definition load_size :: "memory \<Rightarrow> addr \<Rightarrow> uint32" where
  "load_size m a = ucast (load m a 4)"

definition bytes_at :: "memory \<Rightarrow> addr \<Rightarrow> nat \<Rightarrow> byte list" where
  "bytes_at m a n = map (\<lambda>i. m (a + word_of_nat i)) [0..<n]"

section \<open>Field descriptors\<close>

definition PB_LTYPE_BOOL :: byte where "PB_LTYPE_BOOL = 0x00"
definition PB_LTYPE_VARINT :: byte where "PB_LTYPE_VARINT = 0x01"
definition PB_LTYPE_UVARINT :: byte where "PB_LTYPE_UVARINT = 0x02"
definition PB_LTYPE_SVARINT :: byte where "PB_LTYPE_SVARINT = 0x03"
definition PB_LTYPE_FIXED32 :: byte where "PB_LTYPE_FIXED32 = 0x04"
definition PB_LTYPE_FIXED64 :: byte where "PB_LTYPE_FIXED64 = 0x05"
definition PB_LTYPE_LAST_PACKABLE :: byte where "PB_LTYPE_LAST_PACKABLE = 0x05"
definition PB_LTYPE_BYTES :: byte where "PB_LTYPE_BYTES = 0x06"
definition PB_LTYPE_STRING :: byte where "PB_LTYPE_STRING = 0x07"
definition PB_LTYPE_SUBMESSAGE :: byte where "PB_LTYPE_SUBMESSAGE = 0x08"
definition PB_LTYPE_EXTENSION :: byte where "PB_LTYPE_EXTENSION = 0x09"
definition PB_LTYPE_FIXED_LENGTH_BYTES :: byte where "PB_LTYPE_FIXED_LENGTH_BYTES = 0x0A"
definition PB_HTYPE_REQUIRED :: byte where "PB_HTYPE_REQUIRED = 0x00"
definition PB_HTYPE_OPTIONAL :: byte where "PB_HTYPE_OPTIONAL = 0x10"
definition PB_HTYPE_REPEATED :: byte where "PB_HTYPE_REPEATED = 0x20"
definition PB_HTYPE_ONEOF :: byte where "PB_HTYPE_ONEOF = 0x30"
definition PB_ATYPE_STATIC :: byte where "PB_ATYPE_STATIC = 0x00"
definition PB_ATYPE_POINTER :: byte where "PB_ATYPE_POINTER = 0x80"
definition PB_ATYPE_CALLBACK :: byte where "PB_ATYPE_CALLBACK = 0x40"

definition PB_ATYPE :: "byte \<Rightarrow> byte" where "PB_ATYPE x = x AND 0xC0"
definition PB_HTYPE :: "byte \<Rightarrow> byte" where "PB_HTYPE x = x AND 0x30"
definition PB_LTYPE :: "byte \<Rightarrow> byte" where "PB_LTYPE x = x AND 0x0F"

lemma htypes: "PB_HTYPE x = PB_HTYPE_REQUIRED \<or> PB_HTYPE x = PB_HTYPE_OPTIONAL \<or> PB_HTYPE x = PB_HTYPE_REPEATED \<or> PB_HTYPE x = PB_HTYPE_ONEOF"
proof -
  have m: "(0x30 :: byte) = push_bit 4 (mask 2)" "(3 :: byte) = mask 2" by (simp_all add: mask_eq_exp_minus_1)
  have x: "x AND 0x30 = push_bit 4 (drop_bit 4 x AND 3)"
    by (rule bit_word_eqI, unfold m bit_and_iff bit_push_bit_iff bit_drop_bit_eq bit_mask_iff comp_apply) auto
  have "unat (drop_bit 4 x AND 3) < 4" using unat_and_mask [of "drop_bit 4 x" 2] by (simp add: m(2))
  then have "drop_bit 4 x AND 3 \<in> {0, 1, 2, 3}" by (auto simp: word_unat_eq_iff)
  with x obtain y where y: "x AND 0x30 = push_bit 4 y" and "y \<in> {0, 1, 2, 3}" by blast
  then show ?thesis
    by (auto simp: PB_HTYPE_def y PB_HTYPE_REQUIRED_def PB_HTYPE_OPTIONAL_def PB_HTYPE_REPEATED_def PB_HTYPE_ONEOF_def)
qed

lemma htype_distinct: "PB_HTYPE_REPEATED \<noteq> PB_HTYPE_ONEOF" "PB_HTYPE_REPEATED \<noteq> PB_HTYPE_REQUIRED"
  "PB_HTYPE_REPEATED \<noteq> PB_HTYPE_OPTIONAL" "PB_HTYPE_OPTIONAL \<noteq> PB_HTYPE_REQUIRED" "PB_HTYPE_OPTIONAL \<noteq> PB_HTYPE_ONEOF"
  "PB_HTYPE_REQUIRED \<noteq> PB_HTYPE_ONEOF"
  by (simp_all add: PB_HTYPE_REPEATED_def PB_HTYPE_ONEOF_def PB_HTYPE_REQUIRED_def PB_HTYPE_OPTIONAL_def)

definition PB_SIZE_MAX :: uint32 where "PB_SIZE_MAX = -1"

text \<open>\<open>size_offset\<close> is signed; \<open>ptr\<close> is the address of a table or of a default value.\<close>

record pb_field =
  f_tag :: uint32
  f_type :: byte
  data_offset :: uint32
  size_offset :: uint32
  data_size :: uint32
  array_size :: uint32
  f_ptr :: addr

definition PB_LAST_FIELD :: pb_field where
  "PB_LAST_FIELD = \<lparr>f_tag = 0, f_type = 0, data_offset = 0, size_offset = 0, data_size = 0, array_size = 0, f_ptr = 0\<rparr>"

text \<open>A table is the list of its entries before the terminator.\<close>

definition field_at :: "pb_field list \<Rightarrow> nat \<Rightarrow> pb_field" where
  "field_at tbl i = (if i < length tbl then tbl ! i else PB_LAST_FIELD)"

text \<open>
  A pointer to a counter: an address, or the local counter that the decoder uses for an array
  without one.
\<close>

datatype size_ref = At addr | Local

record pb_field_iter =
  start :: "pb_field list"
  pos :: nat
  required_field_index :: uint32
  dest_struct :: addr
  pData :: addr
  pSize :: size_ref

definition it_field :: "pb_field_iter \<Rightarrow> pb_field" where
  "it_field it = field_at (start it) (pos it)"

definition pb_field_iter_begin :: "pb_field list \<Rightarrow> addr \<Rightarrow> pb_field_iter \<times> bool" where
  "pb_field_iter_begin tbl dest =
     (let field = field_at tbl 0; data = dest + ucast (data_offset field) in
      (\<lparr>start = tbl, pos = 0, required_field_index = 0, dest_struct = dest, pData = data,
         pSize = At (data + scast (size_offset field))\<rparr>, f_tag field \<noteq> 0))"

definition pb_field_iter_next :: "pb_field_iter \<Rightarrow> pb_field_iter \<times> bool" where
  "pb_field_iter_next it =
     (let prev_field = it_field it in
      if f_tag prev_field = 0 then (it, False)
      else
        let it = it\<lparr>pos := pos it + 1\<rparr>; field = it_field it in
        if f_tag field = 0 then (fst (pb_field_iter_begin (start it) (dest_struct it)), False)
        else if PB_HTYPE (f_type prev_field) = PB_HTYPE_ONEOF \<and> PB_HTYPE (f_type field) = PB_HTYPE_ONEOF \<and>
                data_offset field = PB_SIZE_MAX then (it, True)
        else
          let prev_size = ucast (data_size prev_field) :: uint64;
              prev_size =
                (if PB_ATYPE (f_type prev_field) = PB_ATYPE_STATIC \<and> PB_HTYPE (f_type prev_field) = PB_HTYPE_REPEATED
                 then prev_size * ucast (array_size prev_field)
                 else if PB_ATYPE (f_type prev_field) = PB_ATYPE_POINTER then 8 else prev_size);
              it = (if PB_HTYPE (f_type prev_field) = PB_HTYPE_REQUIRED
                    then it\<lparr>required_field_index := required_field_index it + 1\<rparr> else it);
              data = pData it + prev_size + ucast (data_offset field)
          in (it\<lparr>pData := data, pSize := At (data + scast (size_offset field))\<rparr>, True))"

section \<open>Scalar and string encoders\<close>

type_synonym 's outcome = "(bool \<times> 's pb_ostream) option"

definition wr_bind :: "'s outcome \<Rightarrow> ('s pb_ostream \<Rightarrow> 's outcome) \<Rightarrow> 's outcome" where
  "wr_bind r f = (case r of None \<Rightarrow> None | Some (ok, s) \<Rightarrow> if ok then f s else Some (False, s))"

definition ret_error :: "string \<Rightarrow> 's pb_ostream \<Rightarrow> 's outcome" where
  "ret_error msg s = Some (False, set_oerror msg s)"

text \<open>
  What the encoder takes from outside: memory, the tables and single descriptors at an address,
  the null state of a stream, and the functions at an address: encoding callbacks, which get the
  address of their argument, and encoders of extensions.
\<close>

record 's pb_env =
  mem :: memory
  tables :: "addr \<Rightarrow> pb_field list"
  ext_field :: "addr \<Rightarrow> pb_field"
  null_state :: 's
  call_encode :: "addr \<Rightarrow> pb_field \<Rightarrow> addr \<Rightarrow> 's pb_ostream \<Rightarrow> 's outcome"
  call_extension :: "addr \<Rightarrow> addr \<Rightarrow> 's pb_ostream \<Rightarrow> 's outcome"

text \<open>A \<open>bool\<close> has one byte.\<close>

definition safe_read_bool :: "memory \<Rightarrow> addr \<Rightarrow> bool" where
  "safe_read_bool m p \<longleftrightarrow> m p \<noteq> 0"

definition pb_encode_tag_for_field :: "pb_field \<Rightarrow> 's pb_ostream \<Rightarrow> 's outcome" where
  "pb_encode_tag_for_field field s =
     (let lt = PB_LTYPE (f_type field) in
      if lt = PB_LTYPE_BOOL \<or> lt = PB_LTYPE_VARINT \<or> lt = PB_LTYPE_UVARINT \<or> lt = PB_LTYPE_SVARINT
      then Some (pb_encode_tag PB_WT_VARINT (f_tag field) s)
      else if lt = PB_LTYPE_FIXED32 then Some (pb_encode_tag PB_WT_32BIT (f_tag field) s)
      else if lt = PB_LTYPE_FIXED64 then Some (pb_encode_tag PB_WT_64BIT (f_tag field) s)
      else if lt = PB_LTYPE_BYTES \<or> lt = PB_LTYPE_STRING \<or> lt = PB_LTYPE_SUBMESSAGE \<or> lt = PB_LTYPE_FIXED_LENGTH_BYTES
      then Some (pb_encode_tag PB_WT_STRING (f_tag field) s)
      else ret_error ''invalid field type'' s)"

definition pb_enc_bool :: "memory \<Rightarrow> addr \<Rightarrow> 's pb_ostream \<Rightarrow> 's outcome" where
  "pb_enc_bool m src s = Some (pb_encode_varint (if safe_read_bool m src then 1 else 0) s)"

definition valid_size :: "uint32 \<Rightarrow> bool" where
  "valid_size n \<longleftrightarrow> n = 1 \<or> n = 2 \<or> n = 4 \<or> n = 8"

definition pb_enc_varint :: "memory \<Rightarrow> pb_field \<Rightarrow> addr \<Rightarrow> 's pb_ostream \<Rightarrow> 's outcome" where
  "pb_enc_varint m field src s =
     (if valid_size (data_size field) then Some (pb_encode_varint (load_signed m src (unat (data_size field))) s)
      else ret_error ''invalid data_size'' s)"

definition pb_enc_uvarint :: "memory \<Rightarrow> pb_field \<Rightarrow> addr \<Rightarrow> 's pb_ostream \<Rightarrow> 's outcome" where
  "pb_enc_uvarint m field src s =
     (if valid_size (data_size field) then Some (pb_encode_varint (load m src (unat (data_size field))) s)
      else ret_error ''invalid data_size'' s)"

definition pb_enc_svarint :: "memory \<Rightarrow> pb_field \<Rightarrow> addr \<Rightarrow> 's pb_ostream \<Rightarrow> 's outcome" where
  "pb_enc_svarint m field src s =
     (if valid_size (data_size field) then Some (pb_encode_svarint (load_signed m src (unat (data_size field))) s)
      else ret_error ''invalid data_size'' s)"

definition pb_enc_fixed64 :: "memory \<Rightarrow> addr \<Rightarrow> 's pb_ostream \<Rightarrow> 's outcome" where
  "pb_enc_fixed64 m src s = Some (pb_encode_fixed64 (load m src 8) s)"

definition pb_enc_fixed32 :: "memory \<Rightarrow> addr \<Rightarrow> 's pb_ostream \<Rightarrow> 's outcome" where
  "pb_enc_fixed32 m src s = Some (pb_encode_fixed32 (ucast (load m src 4)) s)"

text \<open>The bytes of a \<open>pb_bytes_array_t\<close> start 4 bytes into it.\<close>

definition PB_BYTES_ARRAY_T_ALLOCSIZE :: "nat \<Rightarrow> nat" where
  "PB_BYTES_ARRAY_T_ALLOCSIZE n = sz_add n 4"

definition pb_enc_bytes :: "memory \<Rightarrow> pb_field \<Rightarrow> addr \<Rightarrow> 's pb_ostream \<Rightarrow> 's outcome" where
  "pb_enc_bytes m field src s =
     (if src = 0 then Some (pb_encode_string [] 0 s)
      else
        let sz = unat (load_size m src); allocsize = PB_BYTES_ARRAY_T_ALLOCSIZE sz in
        if allocsize < sz \<or> PB_ATYPE (f_type field) = PB_ATYPE_STATIC \<and> allocsize > unat (data_size field)
        then ret_error ''bytes size exceeded'' s
        else Some (pb_encode_string (bytes_at m (src + 4) sz) sz s))"

function string_size :: "memory \<Rightarrow> addr \<Rightarrow> nat \<Rightarrow> nat \<Rightarrow> nat" where
  "string_size m p sz max_sz =
     (if sz < max_sz \<and> m p \<noteq> 0 then string_size m (p + 1) (sz + 1) max_sz else sz)"
  by pat_completeness auto
termination by (relation "measure (\<lambda>(_, _, sz, max_sz). max_sz - sz)") auto

declare string_size.simps [simp del]

definition pb_enc_string :: "memory \<Rightarrow> pb_field \<Rightarrow> addr \<Rightarrow> 's pb_ostream \<Rightarrow> 's outcome" where
  "pb_enc_string m field src s =
     (let max_sz = (if PB_ATYPE (f_type field) = PB_ATYPE_POINTER then size_mod - 1 else unat (data_size field));
          sz = (if src = 0 then 0 else string_size m src 0 max_sz)
      in Some (pb_encode_string (bytes_at m src sz) sz s))"

definition pb_enc_fixed_length_bytes :: "memory \<Rightarrow> pb_field \<Rightarrow> addr \<Rightarrow> 's pb_ostream \<Rightarrow> 's outcome" where
  "pb_enc_fixed_length_bytes m field src s =
     (let sz = unat (data_size field) in Some (pb_encode_string (bytes_at m src sz) sz s))"

section \<open>Submessages\<close>

text \<open>
  The argument is \<open>pb_encode\<close> on the fields and the structure of the submessage: it runs once on
  a counting stream and once on the real one, limited to the counted size.
\<close>

definition submessage_data :: "('s pb_ostream \<Rightarrow> 's outcome) \<Rightarrow> nat \<Rightarrow> 's pb_ostream \<Rightarrow> 's outcome" where
  "submessage_data enc sz s =
     (if callback s = None then Some (pb_write [] sz s)
      else if sz_add (bytes_written s) sz > max_size s then ret_error ''stream full'' s
      else
        (case enc \<lparr>callback = callback s, o_state = o_state s, max_size = sz, bytes_written = 0, o_errmsg = None\<rparr> of
          None \<Rightarrow> None
        | Some (status, substream) \<Rightarrow>
            let s = s\<lparr>bytes_written := sz_add (bytes_written s) (bytes_written substream), o_state := o_state substream,
                      o_errmsg := o_errmsg substream\<rparr>
            in if bytes_written substream \<noteq> sz then ret_error ''submsg size changed'' s
               else Some (status, s)))"

definition pb_encode_submessage :: "('s pb_ostream \<Rightarrow> 's outcome) \<Rightarrow> 's \<Rightarrow> 's pb_ostream \<Rightarrow> 's outcome" where
  "pb_encode_submessage enc null s =
     (case enc (PB_OSTREAM_SIZING null) of
       None \<Rightarrow> None
     | Some (False, substream) \<Rightarrow> Some (False, s\<lparr>o_errmsg := o_errmsg substream\<rparr>)
     | Some (True, substream) \<Rightarrow>
         wr_bind (Some (pb_encode_varint (word_of_nat (bytes_written substream)) s))
           (submessage_data enc (bytes_written substream)))"

definition pb_enc_submessage ::
  "(pb_field list \<Rightarrow> addr \<Rightarrow> 's pb_ostream \<Rightarrow> 's outcome) \<Rightarrow> 's pb_env \<Rightarrow> pb_field \<Rightarrow> addr \<Rightarrow> 's pb_ostream \<Rightarrow> 's outcome" where
  "pb_enc_submessage enc env field src s =
     (if f_ptr field = 0 then ret_error ''invalid field descriptor'' s
      else pb_encode_submessage (enc (tables env (f_ptr field)) src) (null_state env) s)"

text \<open>The table of encoders; a missing one has no result.\<close>

definition PB_ENCODERS ::
  "(pb_field list \<Rightarrow> addr \<Rightarrow> 's pb_ostream \<Rightarrow> 's outcome) \<Rightarrow> 's pb_env \<Rightarrow> byte \<Rightarrow> pb_field \<Rightarrow> addr \<Rightarrow> 's pb_ostream \<Rightarrow> 's outcome" where
  "PB_ENCODERS enc env lt field src s =
     (if lt = PB_LTYPE_BOOL then pb_enc_bool (mem env) src s
      else if lt = PB_LTYPE_VARINT then pb_enc_varint (mem env) field src s
      else if lt = PB_LTYPE_UVARINT then pb_enc_uvarint (mem env) field src s
      else if lt = PB_LTYPE_SVARINT then pb_enc_svarint (mem env) field src s
      else if lt = PB_LTYPE_FIXED32 then pb_enc_fixed32 (mem env) src s
      else if lt = PB_LTYPE_FIXED64 then pb_enc_fixed64 (mem env) src s
      else if lt = PB_LTYPE_BYTES then pb_enc_bytes (mem env) field src s
      else if lt = PB_LTYPE_STRING then pb_enc_string (mem env) field src s
      else if lt = PB_LTYPE_SUBMESSAGE then pb_enc_submessage enc env field src s
      else if lt = PB_LTYPE_FIXED_LENGTH_BYTES then pb_enc_fixed_length_bytes (mem env) field src s
      else None)"

section \<open>Arrays\<close>

definition is_packable :: "pb_field \<Rightarrow> bool" where
  "is_packable field \<longleftrightarrow> PB_LTYPE (f_type field) \<le> PB_LTYPE_LAST_PACKABLE"

fun packed_items :: "(addr \<Rightarrow> 's pb_ostream \<Rightarrow> 's outcome) \<Rightarrow> uint64 \<Rightarrow> nat \<Rightarrow> addr \<Rightarrow> 's pb_ostream \<Rightarrow> 's outcome" where
  "packed_items func step 0 p s = Some (True, s)"
| "packed_items func step (Suc n) p s = wr_bind (func p s) (packed_items func step n (p + step))"

text \<open>An entry of a pointer array of strings or bytes is a pointer itself.\<close>

definition array_item :: "memory \<Rightarrow> pb_field \<Rightarrow> addr \<Rightarrow> addr" where
  "array_item m field p =
     (if PB_ATYPE (f_type field) = PB_ATYPE_POINTER \<and>
         (PB_LTYPE (f_type field) = PB_LTYPE_STRING \<or> PB_LTYPE (f_type field) = PB_LTYPE_BYTES)
      then load_ptr m p else p)"

definition tagged_item :: "(addr \<Rightarrow> 's pb_ostream \<Rightarrow> 's outcome) \<Rightarrow> memory \<Rightarrow> pb_field \<Rightarrow> addr \<Rightarrow> 's pb_ostream \<Rightarrow> 's outcome" where
  "tagged_item func m field p s = wr_bind (pb_encode_tag_for_field field s) (func (array_item m field p))"

definition packed_size ::
  "(addr \<Rightarrow> 's pb_ostream \<Rightarrow> 's outcome) \<Rightarrow> 's \<Rightarrow> pb_field \<Rightarrow> addr \<Rightarrow> nat \<Rightarrow> nat option option" where
  "packed_size func null field pdata cnt =
     (if PB_LTYPE (f_type field) = PB_LTYPE_FIXED32 then Some (Some (4 * cnt))
      else if PB_LTYPE (f_type field) = PB_LTYPE_FIXED64 then Some (Some (8 * cnt))
      else (case packed_items func (ucast (data_size field)) cnt pdata (PB_OSTREAM_SIZING null) of
        None \<Rightarrow> None
      | Some (ok, sizestream) \<Rightarrow> Some (if ok then Some (bytes_written sizestream) else None)))"

definition packed_data ::
  "(addr \<Rightarrow> 's pb_ostream \<Rightarrow> 's outcome) \<Rightarrow> uint64 \<Rightarrow> nat \<Rightarrow> addr \<Rightarrow> nat \<Rightarrow> 's pb_ostream \<Rightarrow> 's outcome" where
  "packed_data func step cnt pdata sz s =
     (if callback s = None then Some (pb_write [] sz s) else packed_items func step cnt pdata s)"

definition encode_array ::
  "'s pb_env \<Rightarrow> (addr \<Rightarrow> 's pb_ostream \<Rightarrow> 's outcome) \<Rightarrow> pb_field \<Rightarrow> addr \<Rightarrow> nat \<Rightarrow> 's pb_ostream \<Rightarrow> 's outcome" where
  "encode_array env func field pdata cnt s =
     (let step = ucast (data_size field) in
      if cnt = 0 then Some (True, s)
      else if PB_ATYPE (f_type field) \<noteq> PB_ATYPE_POINTER \<and> cnt > unat (array_size field)
      then ret_error ''array max size exceeded'' s
      else if is_packable field then
        wr_bind (Some (pb_encode_tag PB_WT_STRING (f_tag field) s)) (\<lambda>s.
          case packed_size func (null_state env) field pdata cnt of
            None \<Rightarrow> None
          | Some None \<Rightarrow> Some (False, s)
          | Some (Some sz) \<Rightarrow>
              wr_bind (Some (pb_encode_varint (word_of_nat sz) s)) (packed_data func step cnt pdata sz))
      else packed_items (tagged_item func (mem env) field) step cnt pdata s)"

section \<open>Default values of proto3\<close>

lemma field_iter_next_measure:
  "pb_field_iter_next it = (it', True) \<Longrightarrow> start it' = start it \<and> pos it < length (start it) \<and> pos it' = pos it + 1"
  by (auto simp: pb_field_iter_next_def Let_def it_field_def field_at_def PB_LAST_FIELD_def split: if_splits)

text \<open>The loop over the fields of a static submessage.\<close>

function all_default :: "(pb_field \<Rightarrow> addr \<Rightarrow> bool option) \<Rightarrow> pb_field_iter \<Rightarrow> bool option" where
  "all_default check it =
     (case check (it_field it) (pData it) of
       None \<Rightarrow> None
     | Some False \<Rightarrow> Some False
     | Some True \<Rightarrow> (case pb_field_iter_next it of (it', again) \<Rightarrow> if again then all_default check it' else Some True))"
  by pat_completeness auto
termination
  by (relation "measure (\<lambda>(_, it). length (start it) - pos it)") (auto dest!: field_iter_next_measure [OF sym])

declare all_default.simps [simp del]

definition all_zero :: "memory \<Rightarrow> addr \<Rightarrow> nat \<Rightarrow> bool" where
  "all_zero m p n \<longleftrightarrow> list_all (\<lambda>b. b = 0) (bytes_at m p n)"

text \<open>The part after the first \<open>if\<close> chain, for singular fields.\<close>

definition singular_default ::
  "(pb_field \<Rightarrow> addr \<Rightarrow> bool option) \<Rightarrow> 's pb_env \<Rightarrow> pb_field \<Rightarrow> addr \<Rightarrow> bool option" where
  "singular_default check env field pdata =
     (let at = PB_ATYPE (f_type field); lt = PB_LTYPE (f_type field); m = mem env in
      if at = PB_ATYPE_STATIC \<and> lt = PB_LTYPE_BYTES then Some (load_size m pdata = 0)
      else if at = PB_ATYPE_STATIC \<and> lt = PB_LTYPE_STRING then Some (m pdata = 0)
      else if at = PB_ATYPE_STATIC \<and> lt = PB_LTYPE_FIXED_LENGTH_BYTES then Some (data_size field = 0)
      else if at = PB_ATYPE_STATIC \<and> lt = PB_LTYPE_SUBMESSAGE
      then (case pb_field_iter_begin (tables env (f_ptr field)) pdata of (it, nonempty) \<Rightarrow>
              if nonempty then all_default check it else Some True)
      else if at = PB_ATYPE_POINTER \<and> lt > PB_LTYPE_LAST_PACKABLE then Some (load_ptr m pdata = 0)
      else Some (all_zero m pdata (unat (data_size field))))"

primrec pb_check_proto3_default_value :: "nat \<Rightarrow> 's pb_env \<Rightarrow> pb_field \<Rightarrow> addr \<Rightarrow> bool option" where
  "pb_check_proto3_default_value 0 env field pdata = None"
| "pb_check_proto3_default_value (Suc n) env field pdata =
     (let at = PB_ATYPE (f_type field); ht = PB_HTYPE (f_type field); m = mem env;
          psize = pdata + scast (size_offset field)
      in if ht = PB_HTYPE_REQUIRED then Some False
         else if ht = PB_HTYPE_REPEATED \<and> size_offset field \<noteq> 0 then Some (load_size m psize = 0)
         else if ht = PB_HTYPE_REPEATED \<and> at = PB_ATYPE_STATIC then Some False
         else if ht = PB_HTYPE_ONEOF then Some (load_size m psize = 0)
         else if ht = PB_HTYPE_OPTIONAL \<and> size_offset field \<noteq> 0 then Some (\<not> safe_read_bool m psize)
         else singular_default (pb_check_proto3_default_value n env) env field pdata)"

section \<open>Fields\<close>

definition tag_and_value :: "(addr \<Rightarrow> 's pb_ostream \<Rightarrow> 's outcome) \<Rightarrow> pb_field \<Rightarrow> addr \<Rightarrow> 's pb_ostream \<Rightarrow> 's outcome" where
  "tag_and_value func field pdata s = wr_bind (pb_encode_tag_for_field field s) (func pdata)"

text \<open>
  Without \<open>size_offset\<close> the size pointer is the address of \<open>implicit_has\<close>: an optional field reads
  it as a \<open>bool\<close>; reading it as the tag of a oneof is undefined.
\<close>

definition encode_basic_field ::
  "nat \<Rightarrow> (pb_field list \<Rightarrow> addr \<Rightarrow> 's pb_ostream \<Rightarrow> 's outcome) \<Rightarrow> 's pb_env \<Rightarrow> pb_field \<Rightarrow> addr \<Rightarrow> 's pb_ostream \<Rightarrow> 's outcome" where
  "encode_basic_field n enc env field pdata s =
     (let func = PB_ENCODERS enc env (PB_LTYPE (f_type field)) field; m = mem env;
          at = PB_ATYPE (f_type field); ht = PB_HTYPE (f_type field);
          has_size = (size_offset field \<noteq> 0); psize = pdata + scast (size_offset field)
      in case (if has_size \<or> ht \<noteq> PB_HTYPE_OPTIONAL then Some False else pb_check_proto3_default_value n env field pdata) of
           None \<Rightarrow> None
         | Some is_default \<Rightarrow>
             let data = (if at = PB_ATYPE_POINTER then load_ptr m pdata else pdata);
                 implicit_has = (if at = PB_ATYPE_POINTER then data \<noteq> 0 else \<not> is_default)
             in if ht = PB_HTYPE_REQUIRED then
                  (if data = 0 then ret_error ''missing required field'' s else tag_and_value func field data s)
                else if ht = PB_HTYPE_OPTIONAL then
                  (if (if has_size then safe_read_bool m psize else implicit_has) then tag_and_value func field data s
                   else Some (True, s))
                else if ht = PB_HTYPE_REPEATED then
                  encode_array env func field data (unat (if has_size then load_size m psize else array_size field)) s
                else if \<not> has_size then None
                else if load_size m psize = f_tag field then tag_and_value func field data s
                else Some (True, s))"

text \<open>A \<open>pb_callback_t\<close> is a function pointer and, 8 bytes further, its argument.\<close>

definition encode_callback_field :: "'s pb_env \<Rightarrow> pb_field \<Rightarrow> addr \<Rightarrow> 's pb_ostream \<Rightarrow> 's outcome" where
  "encode_callback_field env field pdata s =
     (let func = load_ptr (mem env) pdata in
      if func = 0 then Some (True, s)
      else (case call_encode env func field (pdata + 8) s of
        None \<Rightarrow> None
      | Some (ok, s) \<Rightarrow> if ok then Some (True, s) else ret_error ''callback error'' s))"

definition encode_field ::
  "nat \<Rightarrow> (pb_field list \<Rightarrow> addr \<Rightarrow> 's pb_ostream \<Rightarrow> 's outcome) \<Rightarrow> 's pb_env \<Rightarrow> pb_field \<Rightarrow> addr \<Rightarrow> 's pb_ostream \<Rightarrow> 's outcome" where
  "encode_field n enc env field pdata s =
     (let at = PB_ATYPE (f_type field) in
      if at = PB_ATYPE_STATIC \<or> at = PB_ATYPE_POINTER then encode_basic_field n enc env field pdata s
      else if at = PB_ATYPE_CALLBACK then encode_callback_field env field pdata s
      else ret_error ''invalid field type'' s)"

text \<open>
  A \<open>pb_extension_t\<close> holds the pointers \<open>type\<close>, \<open>dest\<close> and \<open>next\<close> at 0, 8 and 16, its type the
  pointers \<open>decode\<close>, \<open>encode\<close> and \<open>arg\<close>.
\<close>

definition default_extension_encoder ::
  "nat \<Rightarrow> (pb_field list \<Rightarrow> addr \<Rightarrow> 's pb_ostream \<Rightarrow> 's outcome) \<Rightarrow> 's pb_env \<Rightarrow> addr \<Rightarrow> 's pb_ostream \<Rightarrow> 's outcome" where
  "default_extension_encoder n enc env extension s =
     (let field = ext_field env (load_ptr (mem env) (load_ptr (mem env) extension + 16)) in
      if PB_ATYPE (f_type field) = PB_ATYPE_POINTER then encode_field n enc env field (extension + 8) s
      else encode_field n enc env field (load_ptr (mem env) (extension + 8)) s)"

definition encode_extension ::
  "nat \<Rightarrow> (pb_field list \<Rightarrow> addr \<Rightarrow> 's pb_ostream \<Rightarrow> 's outcome) \<Rightarrow> 's pb_env \<Rightarrow> addr \<Rightarrow> 's pb_ostream \<Rightarrow> 's outcome" where
  "encode_extension n enc env extension s =
     (let encode = load_ptr (mem env) (load_ptr (mem env) extension + 8) in
      if encode \<noteq> 0 then call_extension env encode extension s
      else default_extension_encoder n enc env extension s)"

text \<open>The loop over the list of extensions, which has no result when the list is longer than the fuel.\<close>

primrec extension_loop ::
  "nat \<Rightarrow> (addr \<Rightarrow> 's pb_ostream \<Rightarrow> 's outcome) \<Rightarrow> memory \<Rightarrow> addr \<Rightarrow> 's pb_ostream \<Rightarrow> 's outcome" where
  "extension_loop 0 f m extension s = (if extension = 0 then Some (True, s) else None)"
| "extension_loop (Suc k) f m extension s =
     (if extension = 0 then Some (True, s)
      else wr_bind (f extension s) (extension_loop k f m (load_ptr m (extension + 16))))"

definition encode_extension_field ::
  "nat \<Rightarrow> (pb_field list \<Rightarrow> addr \<Rightarrow> 's pb_ostream \<Rightarrow> 's outcome) \<Rightarrow> 's pb_env \<Rightarrow> addr \<Rightarrow> 's pb_ostream \<Rightarrow> 's outcome" where
  "encode_extension_field n enc env pdata s =
     extension_loop n (encode_extension n enc env) (mem env) (load_ptr (mem env) pdata) s"

section \<open>Messages\<close>

text \<open>The \<open>do ... while\<close> loop over the fields of a message.\<close>

function fields_loop :: "(pb_field \<Rightarrow> addr \<Rightarrow> 's pb_ostream \<Rightarrow> 's outcome) \<Rightarrow> pb_field_iter \<Rightarrow> 's pb_ostream \<Rightarrow> 's outcome" where
  "fields_loop f it s =
     (case f (it_field it) (pData it) s of
       None \<Rightarrow> None
     | Some (ok, s) \<Rightarrow>
         if \<not> ok then Some (False, s)
         else (case pb_field_iter_next it of (it', again) \<Rightarrow> if again then fields_loop f it' s else Some (True, s)))"
  by pat_completeness auto
termination
  by (relation "measure (\<lambda>(_, it, _). length (start it) - pos it)") (auto dest!: field_iter_next_measure [OF sym])

declare fields_loop.simps [simp del]

definition encode_any_field ::
  "nat \<Rightarrow> (pb_field list \<Rightarrow> addr \<Rightarrow> 's pb_ostream \<Rightarrow> 's outcome) \<Rightarrow> 's pb_env \<Rightarrow> pb_field \<Rightarrow> addr \<Rightarrow> 's pb_ostream \<Rightarrow> 's outcome" where
  "encode_any_field n enc env field pdata s =
     (if PB_LTYPE (f_type field) = PB_LTYPE_EXTENSION then encode_extension_field n enc env pdata s
      else encode_field n enc env field pdata s)"

text \<open>
  The fuel bounds the nesting of submessages and the length of a list of extensions.
\<close>

primrec pb_encode :: "nat \<Rightarrow> 's pb_env \<Rightarrow> pb_field list \<Rightarrow> addr \<Rightarrow> 's pb_ostream \<Rightarrow> 's outcome" where
  "pb_encode 0 env tbl src s = None"
| "pb_encode (Suc n) env tbl src s =
     (case pb_field_iter_begin tbl src of (it, nonempty) \<Rightarrow>
        if nonempty then fields_loop (encode_any_field n (pb_encode n env) env) it s else Some (True, s))"

definition pb_encode_delimited :: "nat \<Rightarrow> 's pb_env \<Rightarrow> pb_field list \<Rightarrow> addr \<Rightarrow> 's pb_ostream \<Rightarrow> 's outcome" where
  "pb_encode_delimited n env tbl src s = pb_encode_submessage (pb_encode n env tbl src) (null_state env) s"

definition pb_encode_nullterminated :: "nat \<Rightarrow> 's pb_env \<Rightarrow> pb_field list \<Rightarrow> addr \<Rightarrow> 's pb_ostream \<Rightarrow> 's outcome" where
  "pb_encode_nullterminated n env tbl src s =
     wr_bind (pb_encode n env tbl src s) (\<lambda>s. Some (pb_write [0] 1 s))"

definition pb_get_encoded_size :: "nat \<Rightarrow> 's pb_env \<Rightarrow> pb_field list \<Rightarrow> addr \<Rightarrow> nat option option" where
  "pb_get_encoded_size n env tbl src =
     (case pb_encode n env tbl src (PB_OSTREAM_SIZING (null_state env)) of
       None \<Rightarrow> None
     | Some (ok, s) \<Rightarrow> Some (if ok then Some (bytes_written s) else None))"

section \<open>Evaluation\<close>

lemmas type_consts = PB_LTYPE_BOOL_def PB_LTYPE_VARINT_def PB_LTYPE_UVARINT_def PB_LTYPE_SVARINT_def PB_LTYPE_FIXED32_def PB_LTYPE_FIXED64_def
  PB_LTYPE_LAST_PACKABLE_def PB_LTYPE_BYTES_def PB_LTYPE_STRING_def PB_LTYPE_SUBMESSAGE_def PB_LTYPE_EXTENSION_def PB_LTYPE_FIXED_LENGTH_BYTES_def
  PB_HTYPE_REQUIRED_def PB_HTYPE_OPTIONAL_def PB_HTYPE_REPEATED_def PB_HTYPE_ONEOF_def PB_ATYPE_STATIC_def PB_ATYPE_POINTER_def PB_ATYPE_CALLBACK_def
  PB_ATYPE_def PB_HTYPE_def PB_LTYPE_def PB_SIZE_MAX_def

lemma load_numeral: "load m a (numeral k) = ucast (m a) OR push_bit 8 (load m (a + 1) (pred_numeral k))"
  by (simp add: numeral_eq_Suc)

end
