(* ===== verification/PbDecode.thy ===== *)
theory PbDecode
  imports PbEncode
begin

text \<open>
  The message decoder of nanopb (\<open>pb_decode.c\<close>): field decoders, allocation, default values,
  release and the loop over the fields of a message. A call gets the stream and the world (memory,
  heap and a local counter) and returns them with its result. A call has no result (\<open>None\<close>) when
  the fuel runs out or it is undefined in C (a call through a null entry of \<open>PB_DECODERS\<close>). The
  buffer of the stream is apart from the memory the decoder writes.
\<close>

section \<open>Worlds\<close>

fun store :: "memory \<Rightarrow> addr \<Rightarrow> byte list \<Rightarrow> memory" where
  "store m a [] = m"
| "store m a (b # bs) = store (m(a := b)) (a + 1) bs"

definition le_bytes :: "nat \<Rightarrow> uint64 \<Rightarrow> byte list" where
  "le_bytes n v = map (\<lambda>i. ucast (drop_bit (8 * i) v)) [0..<n]"

text \<open>
  \<open>w_local\<close> is the variable \<open>fixed_count_size\<close> of the running \<open>pb_decode_noinit\<close>, the counter that
  \<open>Local\<close> points to.
\<close>

record 'h pb_world =
  w_mem :: memory
  w_heap :: 'h
  w_local :: uint32

definition poke :: "addr \<Rightarrow> byte list \<Rightarrow> 'h pb_world \<Rightarrow> 'h pb_world" where
  "poke a bs w = w\<lparr>w_mem := store (w_mem w) a bs\<rparr>"

definition poke_ptr :: "addr \<Rightarrow> addr \<Rightarrow> 'h pb_world \<Rightarrow> 'h pb_world" where
  "poke_ptr a p = poke a (le_bytes 8 p)"

definition poke_size :: "addr \<Rightarrow> uint32 \<Rightarrow> 'h pb_world \<Rightarrow> 'h pb_world" where
  "poke_size a n = poke a (le_bytes 4 (ucast n))"

definition poke_bool :: "addr \<Rightarrow> bool \<Rightarrow> 'h pb_world \<Rightarrow> 'h pb_world" where
  "poke_bool a b = poke a [if b then 1 else 0]"

definition zero_fill :: "addr \<Rightarrow> nat \<Rightarrow> 'h pb_world \<Rightarrow> 'h pb_world" where
  "zero_fill a n = poke a (replicate n 0)"

definition get_count :: "size_ref \<Rightarrow> 'h pb_world \<Rightarrow> uint32" where
  "get_count r w = (case r of At a \<Rightarrow> load_size (w_mem w) a | Local \<Rightarrow> w_local w)"

definition set_count :: "size_ref \<Rightarrow> uint32 \<Rightarrow> 'h pb_world \<Rightarrow> 'h pb_world" where
  "set_count r n w = (case r of At a \<Rightarrow> poke_size a n w | Local \<Rightarrow> w\<lparr>w_local := n\<rparr>)"

type_synonym 'h decoded = "(bool \<times> pb_istream \<times> 'h pb_world) option"

text \<open>
  What the decoder takes from outside: tables and descriptors at an address, \<open>realloc\<close> and \<open>free\<close>
  on the memory and the heap, decoding callbacks with the address of their argument, and decoders
  of extensions with the extension, the tag and the wire type.
\<close>

record 'h pb_denv =
  dec_tables :: "addr \<Rightarrow> pb_field list"
  dec_ext_field :: "addr \<Rightarrow> pb_field"
  pb_realloc :: "addr \<Rightarrow> nat \<Rightarrow> memory \<times> 'h \<Rightarrow> addr \<times> memory \<times> 'h"
  pb_free :: "addr \<Rightarrow> memory \<times> 'h \<Rightarrow> memory \<times> 'h"
  call_decode :: "addr \<Rightarrow> pb_field \<Rightarrow> addr \<Rightarrow> pb_istream \<Rightarrow> 'h pb_world \<Rightarrow> 'h decoded"
  call_ext_decode :: "addr \<Rightarrow> addr \<Rightarrow> uint32 \<Rightarrow> uint32 \<Rightarrow> pb_istream \<Rightarrow> 'h pb_world \<Rightarrow> 'h decoded"

definition free_at :: "'h pb_denv \<Rightarrow> addr \<Rightarrow> 'h pb_world \<Rightarrow> 'h pb_world" where
  "free_at env p w = (case pb_free env p (w_mem w, w_heap w) of (m, h) \<Rightarrow> w\<lparr>w_mem := m, w_heap := h\<rparr>)"

definition rd_error :: "string \<Rightarrow> pb_istream \<Rightarrow> 'h pb_world \<Rightarrow> 'h decoded" where
  "rd_error msg s w = Some (False, set_ierror msg s, w)"

definition rd_bind :: "'h decoded \<Rightarrow> (pb_istream \<Rightarrow> 'h pb_world \<Rightarrow> 'h decoded) \<Rightarrow> 'h decoded" where
  "rd_bind r f = (case r of None \<Rightarrow> None | Some (ok, s, w) \<Rightarrow> if ok then f s w else Some (False, s, w))"

text \<open>A read of the wire layer that fails ends the caller.\<close>

definition read_then :: "'a option \<times> pb_istream \<Rightarrow> 'h pb_world \<Rightarrow> ('a \<Rightarrow> pb_istream \<Rightarrow> 'h decoded) \<Rightarrow> 'h decoded" where
  "read_then r w f = (case r of (None, s) \<Rightarrow> Some (False, s, w) | (Some x, s) \<Rightarrow> f x s)"

section \<open>Allocation\<close>

definition allocate_field :: "'h pb_denv \<Rightarrow> addr \<Rightarrow> nat \<Rightarrow> nat \<Rightarrow> pb_istream \<Rightarrow> 'h pb_world \<Rightarrow> 'h decoded" where
  "allocate_field env pdata dsize asize s w =
     (if dsize = 0 \<or> asize = 0 then rd_error ''invalid size'' s w
      else if (dsize \<ge> 2 ^ 32 \<or> asize \<ge> 2 ^ 32) \<and> (size_mod - 1) div asize < dsize then rd_error ''size too large'' s w
      else (case pb_realloc env (load_ptr (w_mem w) pdata) (sz_mul asize dsize) (w_mem w, w_heap w) of (p, m, h) \<Rightarrow>
        let w = w\<lparr>w_mem := m, w_heap := h\<rparr> in
        if p = 0 then rd_error ''realloc failed'' s w else Some (True, s, poke_ptr pdata p w)))"

section \<open>Field decoders\<close>

text \<open>The value is stored in \<open>data_size\<close> bytes, and an error raised when it has more.\<close>

definition store_integer :: "pb_field \<Rightarrow> addr \<Rightarrow> uint64 \<Rightarrow> (nat \<Rightarrow> uint64) \<Rightarrow> pb_istream \<Rightarrow> 'h pb_world \<Rightarrow> 'h decoded" where
  "store_integer field dest v clamp s w =
     (let n = unat (data_size field) in
      if \<not> valid_size (data_size field) then rd_error ''invalid data_size'' s w
      else
        let w = poke dest (le_bytes n v) w in
        if clamp n \<noteq> v then rd_error ''integer too large'' s w else Some (True, s, w))"

definition pb_dec_bool :: "addr \<Rightarrow> pb_istream \<Rightarrow> 'h pb_world \<Rightarrow> 'h decoded" where
  "pb_dec_bool dest s w = read_then (pb_decode_varint32 s) w (\<lambda>v s. Some (True, s, poke_bool dest (v \<noteq> 0) w))"

definition pb_dec_varint :: "pb_field \<Rightarrow> addr \<Rightarrow> pb_istream \<Rightarrow> 'h pb_world \<Rightarrow> 'h decoded" where
  "pb_dec_varint field dest s w =
     read_then (pb_decode_varint s) w (\<lambda>v s.
       let sv = (if data_size field = 8 then v else scast (ucast v :: uint32)) in
       store_integer field dest sv (\<lambda>n. signed_take_bit (8 * n - 1) sv) s w)"

definition pb_dec_uvarint :: "pb_field \<Rightarrow> addr \<Rightarrow> pb_istream \<Rightarrow> 'h pb_world \<Rightarrow> 'h decoded" where
  "pb_dec_uvarint field dest s w =
     read_then (pb_decode_varint s) w (\<lambda>v s. store_integer field dest v (\<lambda>n. take_bit (8 * n) v) s w)"

definition pb_dec_svarint :: "pb_field \<Rightarrow> addr \<Rightarrow> pb_istream \<Rightarrow> 'h pb_world \<Rightarrow> 'h decoded" where
  "pb_dec_svarint field dest s w =
     read_then (pb_decode_svarint s) w (\<lambda>v s. store_integer field dest v (\<lambda>n. signed_take_bit (8 * n - 1) v) s w)"

definition pb_dec_fixed32 :: "addr \<Rightarrow> pb_istream \<Rightarrow> 'h pb_world \<Rightarrow> 'h decoded" where
  "pb_dec_fixed32 dest s w = read_then (pb_decode_fixed32 s) w (\<lambda>v s. Some (True, s, poke dest (le_bytes 4 (ucast v)) w))"

definition pb_dec_fixed64 :: "addr \<Rightarrow> pb_istream \<Rightarrow> 'h pb_world \<Rightarrow> 'h decoded" where
  "pb_dec_fixed64 dest s w = read_then (pb_decode_fixed64 s) w (\<lambda>v s. Some (True, s, poke dest (le_bytes 8 v) w))"

text \<open>\<open>pb_read\<close> into memory.\<close>

definition read_into :: "addr \<Rightarrow> nat \<Rightarrow> pb_istream \<Rightarrow> 'h pb_world \<Rightarrow> 'h decoded" where
  "read_into dest n s w = read_then (pb_read n s) w (\<lambda>bs s. Some (True, s, poke dest bs w))"

definition pb_dec_bytes :: "'h pb_denv \<Rightarrow> pb_field \<Rightarrow> addr \<Rightarrow> pb_istream \<Rightarrow> 'h pb_world \<Rightarrow> 'h decoded" where
  "pb_dec_bytes env field dest s w =
     read_then (pb_decode_varint32 s) w (\<lambda>sz s.
       let n = unat sz; alloc_size = PB_BYTES_ARRAY_T_ALLOCSIZE n in
       if sz > PB_SIZE_MAX then rd_error ''bytes overflow'' s w
       else if n > alloc_size then rd_error ''size too large'' s w
       else if PB_ATYPE (f_type field) = PB_ATYPE_POINTER
       then rd_bind (allocate_field env dest alloc_size 1 s w) (\<lambda>s w.
              let bdest = load_ptr (w_mem w) dest in read_into (bdest + 4) n s (poke_size bdest sz w))
       else if alloc_size > unat (data_size field) then rd_error ''bytes overflow'' s w
       else read_into (dest + 4) n s (poke_size dest sz w))"

text \<open>The string and, whether or not it could be read, its terminator.\<close>

definition read_string_into :: "addr \<Rightarrow> uint32 \<Rightarrow> pb_istream \<Rightarrow> 'h pb_world \<Rightarrow> 'h decoded" where
  "read_string_into dest sz s w =
     (case read_into dest (unat sz) s w of
       None \<Rightarrow> None
     | Some (status, s, w) \<Rightarrow> Some (status, s, poke (dest + ucast sz) [0] w))"

definition pb_dec_string :: "'h pb_denv \<Rightarrow> pb_field \<Rightarrow> addr \<Rightarrow> pb_istream \<Rightarrow> 'h pb_world \<Rightarrow> 'h decoded" where
  "pb_dec_string env field dest s w =
     read_then (pb_decode_varint32 s) w (\<lambda>sz s.
       let alloc_size = unat (sz + 1) in
       if alloc_size < unat sz then rd_error ''size too large'' s w
       else if PB_ATYPE (f_type field) = PB_ATYPE_POINTER
       then rd_bind (allocate_field env dest alloc_size 1 s w) (\<lambda>s w. read_string_into (load_ptr (w_mem w) dest) sz s w)
       else if alloc_size > unat (data_size field) then rd_error ''string overflow'' s w
       else read_string_into dest sz s w)"

definition pb_dec_fixed_length_bytes :: "pb_field \<Rightarrow> addr \<Rightarrow> pb_istream \<Rightarrow> 'h pb_world \<Rightarrow> 'h decoded" where
  "pb_dec_fixed_length_bytes field dest s w =
     read_then (pb_decode_varint32 s) w (\<lambda>sz s.
       if sz > PB_SIZE_MAX then rd_error ''bytes overflow'' s w
       else if sz = 0 then Some (True, s, zero_fill dest (unat (data_size field)) w)
       else if sz \<noteq> data_size field then rd_error ''incorrect fixed length bytes size'' s w
       else read_into dest (unat (data_size field)) s w)"

text \<open>
  The two arguments are \<open>pb_decode\<close> and \<open>pb_decode_noinit\<close> on a table and a structure. Closing the
  substream comes after the decoding, whatever its status.
\<close>

type_synonym 'h message_decoder = "pb_field list \<Rightarrow> addr \<Rightarrow> pb_istream \<Rightarrow> 'h pb_world \<Rightarrow> 'h decoded"

definition close_substream :: "bool \<Rightarrow> pb_istream \<Rightarrow> pb_istream \<Rightarrow> 'h pb_world \<Rightarrow> 'h decoded" where
  "close_substream status s substream w =
     (case pb_close_string_substream s substream of (ok, s) \<Rightarrow> Some (ok \<and> status, s, w))"

definition pb_dec_submessage ::
  "'h message_decoder \<Rightarrow> 'h message_decoder \<Rightarrow> 'h pb_denv \<Rightarrow> pb_field \<Rightarrow> addr \<Rightarrow> pb_istream \<Rightarrow> 'h pb_world \<Rightarrow> 'h decoded" where
  "pb_dec_submessage full noinit env field dest s w =
     read_then (pb_make_string_substream s) w (\<lambda>substream s.
       if f_ptr field = 0 then rd_error ''invalid field descriptor'' s w
       else
         (case (if PB_HTYPE (f_type field) = PB_HTYPE_REPEATED then full (dec_tables env (f_ptr field)) dest substream w
                else noinit (dec_tables env (f_ptr field)) dest substream w) of
           None \<Rightarrow> None
         | Some (status, substream, w) \<Rightarrow> close_substream status s substream w))"

definition PB_DECODERS ::
  "'h message_decoder \<Rightarrow> 'h message_decoder \<Rightarrow> 'h pb_denv \<Rightarrow> byte \<Rightarrow> pb_field \<Rightarrow> addr \<Rightarrow> pb_istream \<Rightarrow> 'h pb_world \<Rightarrow> 'h decoded" where
  "PB_DECODERS full noinit env lt field dest s w =
     (if lt = PB_LTYPE_BOOL then pb_dec_bool dest s w
      else if lt = PB_LTYPE_VARINT then pb_dec_varint field dest s w
      else if lt = PB_LTYPE_UVARINT then pb_dec_uvarint field dest s w
      else if lt = PB_LTYPE_SVARINT then pb_dec_svarint field dest s w
      else if lt = PB_LTYPE_FIXED32 then pb_dec_fixed32 dest s w
      else if lt = PB_LTYPE_FIXED64 then pb_dec_fixed64 dest s w
      else if lt = PB_LTYPE_BYTES then pb_dec_bytes env field dest s w
      else if lt = PB_LTYPE_STRING then pb_dec_string env field dest s w
      else if lt = PB_LTYPE_SUBMESSAGE then pb_dec_submessage full noinit env field dest s w
      else if lt = PB_LTYPE_FIXED_LENGTH_BYTES then pb_dec_fixed_length_bytes field dest s w
      else None)"

definition pb_decode_bool :: "addr \<Rightarrow> pb_istream \<Rightarrow> 'h pb_world \<Rightarrow> 'h decoded" where
  "pb_decode_bool dest s w = pb_dec_bool dest s w"

section \<open>Iterators and extensions\<close>

text \<open>
  The search stops at a field with the tag or back where it started, which the iterator reaches
  after at most as many steps as the table has entries.
\<close>

primrec find_loop :: "nat \<Rightarrow> (pb_field \<Rightarrow> bool) \<Rightarrow> nat \<Rightarrow> pb_field_iter \<Rightarrow> pb_field_iter \<times> bool" where
  "find_loop 0 wanted first it = (it, False)"
| "find_loop (Suc k) wanted first it =
     (if wanted (it_field it) then (it, True)
      else let it = fst (pb_field_iter_next it) in if pos it \<noteq> first then find_loop k wanted first it else (it, False))"

definition pb_field_iter_find :: "pb_field_iter \<Rightarrow> uint32 \<Rightarrow> pb_field_iter \<times> bool" where
  "pb_field_iter_find it tag =
     find_loop (length (start it) + 1) (\<lambda>f. f_tag f = tag \<and> PB_LTYPE (f_type f) \<noteq> PB_LTYPE_EXTENSION) (pos it) it"

definition find_extension_field :: "pb_field_iter \<Rightarrow> pb_field_iter \<times> bool" where
  "find_extension_field it =
     find_loop (length (start it) + 1) (\<lambda>f. PB_LTYPE (f_type f) = PB_LTYPE_EXTENSION) (pos it) it"

definition extension_field :: "'h pb_denv \<Rightarrow> memory \<Rightarrow> addr \<Rightarrow> pb_field" where
  "extension_field env m ext = dec_ext_field env (load_ptr m (load_ptr m ext + 16))"

definition iter_from_extension :: "'h pb_denv \<Rightarrow> memory \<Rightarrow> addr \<Rightarrow> pb_field_iter" where
  "iter_from_extension env m ext =
     (let field = extension_field env m ext in
      (fst (pb_field_iter_begin [field] (load_ptr m (ext + 8))))
        \<lparr>pData := if PB_ATYPE (f_type field) = PB_ATYPE_POINTER then ext + 8 else load_ptr m (ext + 8),
         pSize := At (ext + 24)\<rparr>)"

text \<open>The loops over a list of extensions and over the fields of a message.\<close>

primrec over_extensions :: "nat \<Rightarrow> (addr \<Rightarrow> 'h pb_world \<Rightarrow> 'h pb_world option) \<Rightarrow> addr \<Rightarrow> 'h pb_world \<Rightarrow> 'h pb_world option" where
  "over_extensions 0 f ext w = (if ext = 0 then Some w else None)"
| "over_extensions (Suc k) f ext w =
     (if ext = 0 then Some w
      else Option.bind (f ext w) (\<lambda>w. over_extensions k f (load_ptr (w_mem w) (ext + 16)) w))"

function over_iter :: "(pb_field_iter \<Rightarrow> 'h pb_world \<Rightarrow> 'h pb_world option) \<Rightarrow> pb_field_iter \<Rightarrow> 'h pb_world \<Rightarrow> 'h pb_world option" where
  "over_iter f it w =
     (case f it w of
       None \<Rightarrow> None
     | Some w \<Rightarrow> (case pb_field_iter_next it of (it', again) \<Rightarrow> if again then over_iter f it' w else Some w))"
  by pat_completeness auto
termination
  by (relation "measure (\<lambda>(_, it, _). length (start it) - pos it)") (auto dest!: field_iter_next_measure [OF sym])

declare over_iter.simps [simp del]

definition over_fields :: "(pb_field_iter \<Rightarrow> 'h pb_world \<Rightarrow> 'h pb_world option) \<Rightarrow> pb_field list \<Rightarrow> addr \<Rightarrow> 'h pb_world \<Rightarrow> 'h pb_world option" where
  "over_fields f tbl dest w =
     (case pb_field_iter_begin tbl dest of (it, nonempty) \<Rightarrow> if nonempty then over_iter f it w else Some w)"

section \<open>Default values\<close>

text \<open>A static field after its flag or counter has been reset.\<close>

definition init_static ::
  "(pb_field_iter \<Rightarrow> 'h pb_world \<Rightarrow> 'h pb_world option) \<Rightarrow> 'h pb_denv \<Rightarrow> pb_field_iter \<Rightarrow> 'h pb_world \<Rightarrow> 'h pb_world option" where
  "init_static defaults env it w =
     (let field = it_field it; n = unat (data_size field) in
      if PB_LTYPE (f_type field) = PB_LTYPE_SUBMESSAGE then over_fields defaults (dec_tables env (f_ptr field)) (pData it) w
      else if f_ptr field \<noteq> 0 then Some (poke (pData it) (bytes_at (w_mem w) (f_ptr field) n) w)
      else Some (zero_fill (pData it) n w))"

definition set_has :: "size_ref \<Rightarrow> bool \<Rightarrow> 'h pb_world \<Rightarrow> 'h pb_world" where
  "set_has r b w = (case r of At a \<Rightarrow> poke_bool a b w | Local \<Rightarrow> w\<lparr>w_local := of_bool b\<rparr>)"

primrec pb_field_set_to_default :: "nat \<Rightarrow> 'h pb_denv \<Rightarrow> pb_field_iter \<Rightarrow> 'h pb_world \<Rightarrow> 'h pb_world option" where
  "pb_field_set_to_default 0 env it w = None"
| "pb_field_set_to_default (Suc n) env it w =
     (let field = it_field it; at = PB_ATYPE (f_type field); ht = PB_HTYPE (f_type field) in
      if PB_LTYPE (f_type field) = PB_LTYPE_EXTENSION then
        over_extensions n
          (\<lambda>ext w. let w = poke_bool (ext + 24) False w in pb_field_set_to_default n env (iter_from_extension env (w_mem w) ext) w)
          (load_ptr (w_mem w) (pData it)) w
      else if at = PB_ATYPE_STATIC then
        (if ht = PB_HTYPE_OPTIONAL \<and> pSize it \<noteq> At (pData it)
         then init_static (pb_field_set_to_default n env) env it (set_has (pSize it) False w)
         else if ht = PB_HTYPE_REPEATED \<or> ht = PB_HTYPE_ONEOF then Some (set_count (pSize it) 0 w)
         else init_static (pb_field_set_to_default n env) env it w)
      else if at = PB_ATYPE_POINTER then
        (let w = poke_ptr (pData it) 0 w in
         Some (if ht = PB_HTYPE_REPEATED \<or> ht = PB_HTYPE_ONEOF then set_count (pSize it) 0 w else w))
      else Some w)"

definition pb_message_set_to_defaults :: "nat \<Rightarrow> 'h pb_denv \<Rightarrow> pb_field list \<Rightarrow> addr \<Rightarrow> 'h pb_world \<Rightarrow> 'h pb_world option" where
  "pb_message_set_to_defaults n env tbl dest w = over_fields (pb_field_set_to_default n env) tbl dest w"

section \<open>Release\<close>

primrec free_items :: "'h pb_denv \<Rightarrow> nat \<Rightarrow> addr \<Rightarrow> 'h pb_world \<Rightarrow> 'h pb_world" where
  "free_items env 0 p w = w"
| "free_items env (Suc cnt) p w = free_items env cnt (p + 8) (poke_ptr p 0 (free_at env (load_ptr (w_mem w) p) w))"

definition release_pointer :: "'h pb_denv \<Rightarrow> pb_field_iter \<Rightarrow> 'h pb_world \<Rightarrow> 'h pb_world" where
  "release_pointer env it w =
     (let field = it_field it; ht = PB_HTYPE (f_type field); lt = PB_LTYPE (f_type field);
          w = (if ht = PB_HTYPE_REPEATED \<and> (lt = PB_LTYPE_STRING \<or> lt = PB_LTYPE_BYTES)
               then free_items env (unat (get_count (pSize it) w)) (load_ptr (w_mem w) (pData it)) w else w);
          w = (if ht = PB_HTYPE_REPEATED then set_count (pSize it) 0 w else w)
      in poke_ptr (pData it) 0 (free_at env (load_ptr (w_mem w) (pData it)) w))"

text \<open>How many messages a field of submessages holds.\<close>

definition release_count :: "pb_field_iter \<Rightarrow> 'h pb_world \<Rightarrow> uint32" where
  "release_count it w =
     (let field = it_field it; at = PB_ATYPE (f_type field) in
      if PB_HTYPE (f_type field) \<noteq> PB_HTYPE_REPEATED then 1
      else
        let cnt = (if at = PB_ATYPE_STATIC \<and> pSize it = At (pData it) then array_size field else get_count (pSize it) w) in
        if at = PB_ATYPE_STATIC \<and> cnt > array_size field then array_size field else cnt)"

definition release_message :: "(pb_field_iter \<Rightarrow> 'h pb_world \<Rightarrow> 'h pb_world option) \<Rightarrow> pb_field list \<Rightarrow> addr \<Rightarrow> 'h pb_world \<Rightarrow> 'h pb_world option" where
  "release_message rel tbl dest w = (if dest = 0 then Some w else over_fields rel tbl dest w)"

primrec release_items ::
  "(pb_field_iter \<Rightarrow> 'h pb_world \<Rightarrow> 'h pb_world option) \<Rightarrow> pb_field list \<Rightarrow> addr \<Rightarrow> nat \<Rightarrow> addr \<Rightarrow> 'h pb_world \<Rightarrow> 'h pb_world option" where
  "release_items rel tbl step 0 p w = Some w"
| "release_items rel tbl step (Suc cnt) p w = Option.bind (release_message rel tbl p w) (release_items rel tbl step cnt (p + step))"

primrec pb_release_single_field :: "nat \<Rightarrow> 'h pb_denv \<Rightarrow> pb_field_iter \<Rightarrow> 'h pb_world \<Rightarrow> 'h pb_world option" where
  "pb_release_single_field 0 env it w = None"
| "pb_release_single_field (Suc n) env it w =
     (let field = it_field it; at = PB_ATYPE (f_type field); lt = PB_LTYPE (f_type field); rel = pb_release_single_field n env in
      if PB_HTYPE (f_type field) = PB_HTYPE_ONEOF \<and> get_count (pSize it) w \<noteq> f_tag field then Some w
      else
        Option.bind
          (if lt = PB_LTYPE_EXTENSION
           then over_extensions n (\<lambda>ext w. rel (iter_from_extension env (w_mem w) ext) w) (load_ptr (w_mem w) (pData it)) w
           else if lt = PB_LTYPE_SUBMESSAGE \<and> at \<noteq> PB_ATYPE_CALLBACK then
             (let item = (if at = PB_ATYPE_POINTER then load_ptr (w_mem w) (pData it) else pData it) in
              if item = 0 then Some w
              else release_items rel (dec_tables env (f_ptr field)) (ucast (data_size field)) (unat (release_count it w)) item w)
           else Some w)
          (\<lambda>w. Some (if at = PB_ATYPE_POINTER then release_pointer env it w else w)))"

definition pb_release :: "nat \<Rightarrow> 'h pb_denv \<Rightarrow> pb_field list \<Rightarrow> addr \<Rightarrow> 'h pb_world \<Rightarrow> 'h pb_world option" where
  "pb_release n env tbl dest w = release_message (pb_release_single_field n env) tbl dest w"

end
