(* ===== verification/PbMessage.thy ===== *)
theory PbMessage
  imports PbDecode
begin

text \<open>
  The message level of the nanopb decoder (\<open>pb_decode.c\<close>): static, pointer and callback fields,
  oneofs, extensions, and the loop of \<open>pb_decode_noinit\<close> with its check of required fields. The
  fuel bounds the nesting of messages and the number of rounds of a loop.
\<close>

section \<open>Static fields\<close>

definition dec_field ::
  "'h message_decoder \<Rightarrow> 'h message_decoder \<Rightarrow> 'h pb_denv \<Rightarrow> pb_field_iter \<Rightarrow> addr \<Rightarrow> pb_istream \<Rightarrow> 'h pb_world \<Rightarrow> 'h decoded" where
  "dec_field full noinit env it = PB_DECODERS full noinit env (PB_LTYPE (f_type (it_field it))) (it_field it)"

text \<open>The product is taken in 32 bits, as both factors have the type \<open>pb_size_t\<close>.\<close>

definition item_at :: "addr \<Rightarrow> pb_field \<Rightarrow> uint32 \<Rightarrow> addr" where
  "item_at base field i = base + ucast (data_size field * i)"

text \<open>The items of a packed array, until the substream ends, the array is full or one fails.\<close>

primrec static_packed_loop ::
  "nat \<Rightarrow> (addr \<Rightarrow> pb_istream \<Rightarrow> 'h pb_world \<Rightarrow> 'h decoded) \<Rightarrow> pb_field_iter \<Rightarrow> pb_istream \<Rightarrow> 'h pb_world \<Rightarrow> 'h decoded" where
  "static_packed_loop 0 func it s w = None"
| "static_packed_loop (Suc k) func it s w =
     (let cnt = get_count (pSize it) w in
      if bytes_left s > 0 \<and> cnt < array_size (it_field it) then
        (case func (item_at (pData it) (it_field it) cnt) s w of
          None \<Rightarrow> None
        | Some (ok, s, w) \<Rightarrow>
            if \<not> ok then Some (False, s, w)
            else static_packed_loop k func it s (set_count (pSize it) (get_count (pSize it) w + 1) w))
      else Some (True, s, w))"

definition decode_static_field ::
  "nat \<Rightarrow> 'h message_decoder \<Rightarrow> 'h message_decoder \<Rightarrow> 'h pb_denv \<Rightarrow> uint32 \<Rightarrow> pb_field_iter \<Rightarrow> pb_istream \<Rightarrow> 'h pb_world \<Rightarrow> 'h decoded" where
  "decode_static_field n full noinit env wire_type it s w =
     (let field = it_field it; lt = PB_LTYPE (f_type field); ht = PB_HTYPE (f_type field); func = dec_field full noinit env it in
      if ht = PB_HTYPE_REQUIRED then func (pData it) s w
      else if ht = PB_HTYPE_OPTIONAL
      then func (pData it) s (if pSize it \<noteq> At (pData it) then set_has (pSize it) True w else w)
      else if ht = PB_HTYPE_REPEATED then
        (if wire_type = PB_WT_STRING \<and> is_packable field then
           read_then (pb_make_string_substream s) w (\<lambda>substream s.
             case static_packed_loop n func it substream w of
               None \<Rightarrow> None
             | Some (status, substream, w) \<Rightarrow>
                 if bytes_left substream \<noteq> 0 then rd_error ''array overflow'' s w
                 else close_substream status s substream w)
         else
           let cnt = get_count (pSize it) w; w = set_count (pSize it) (cnt + 1) w in
           if cnt \<ge> array_size field then rd_error ''array overflow'' s w
           else func (item_at (pData it) field cnt) s w)
      else
        let w = set_count (pSize it) (f_tag field) w in
        if lt = PB_LTYPE_SUBMESSAGE then
          (case pb_message_set_to_defaults n env (dec_tables env (f_ptr field)) (pData it)
                  (zero_fill (pData it) (unat (data_size field)) w) of
            None \<Rightarrow> None
          | Some w \<Rightarrow> func (pData it) s w)
        else func (pData it) s w)"

section \<open>Pointer fields\<close>

definition initialize_pointer_field :: "nat \<Rightarrow> 'h pb_denv \<Rightarrow> pb_field \<Rightarrow> addr \<Rightarrow> 'h pb_world \<Rightarrow> 'h pb_world option" where
  "initialize_pointer_field n env field item w =
     (let lt = PB_LTYPE (f_type field) in
      if lt = PB_LTYPE_STRING \<or> lt = PB_LTYPE_BYTES then Some (poke_ptr item 0 w)
      else if lt = PB_LTYPE_SUBMESSAGE
      then pb_message_set_to_defaults n env (dec_tables env (f_ptr field)) item (zero_fill item (unat (data_size field)) w)
      else Some w)"

definition init_then ::
  "nat \<Rightarrow> 'h pb_denv \<Rightarrow> pb_field \<Rightarrow> addr \<Rightarrow> (addr \<Rightarrow> pb_istream \<Rightarrow> 'h pb_world \<Rightarrow> 'h decoded) \<Rightarrow> pb_istream \<Rightarrow> 'h pb_world \<Rightarrow> 'h decoded" where
  "init_then n env field item func s w =
     (case initialize_pointer_field n env field item w of None \<Rightarrow> None | Some w \<Rightarrow> func item s w)"

text \<open>
  The guess of how many entries are to come; the subtraction from \<open>PB_SIZE_MAX\<close> is in 64 bits.
\<close>

definition guess_size :: "pb_field \<Rightarrow> pb_istream \<Rightarrow> nat \<Rightarrow> nat" where
  "guess_size field s allocated =
     (let remain = (bytes_left s - 1) div unat (data_size field) + 1 in
      if remain < (2 ^ 32 - 1 + size_mod - allocated) mod size_mod then sz_add allocated remain else sz_add allocated 1)"

text \<open>
  The loop over a packed array; its status, the error it sets in the outer stream, and the
  substream. A division by a \<open>data_size\<close> of 0 has no result.
\<close>

primrec pointer_packed_loop ::
  "nat \<Rightarrow> 'h pb_denv \<Rightarrow> (addr \<Rightarrow> pb_istream \<Rightarrow> 'h pb_world \<Rightarrow> 'h decoded) \<Rightarrow> pb_field_iter \<Rightarrow> nat \<Rightarrow> pb_istream \<Rightarrow> 'h pb_world \<Rightarrow>
   (bool \<times> string option \<times> pb_istream \<times> 'h pb_world) option" where
  "pointer_packed_loop 0 env func it allocated s w = None"
| "pointer_packed_loop (Suc k) env func it allocated s w =
     (let field = it_field it; cnt = get_count (pSize it) w; grow = (unat cnt + 1 > allocated);
          allocated' = (if grow then guess_size field s allocated else allocated)
      in if bytes_left s = 0 then Some (True, None, s, w)
         else if cnt = PB_SIZE_MAX then Some (False, Some ''too many array entries'', s, w)
         else if grow \<and> data_size field = 0 then None
         else
           (case (if grow then allocate_field env (pData it) (unat (data_size field)) allocated' s w else Some (True, s, w)) of
             None \<Rightarrow> None
           | Some (False, s, w) \<Rightarrow> Some (False, None, s, w)
           | Some (True, s, w) \<Rightarrow>
               (case init_then k env field (item_at (load_ptr (w_mem w) (pData it)) field (get_count (pSize it) w)) func s w of
                 None \<Rightarrow> None
               | Some (False, s, w) \<Rightarrow> Some (False, None, s, w)
               | Some (True, s, w) \<Rightarrow>
                   pointer_packed_loop k env func it allocated' s (set_count (pSize it) (get_count (pSize it) w + 1) w))))"

definition decode_pointer_field ::
  "nat \<Rightarrow> 'h message_decoder \<Rightarrow> 'h message_decoder \<Rightarrow> 'h pb_denv \<Rightarrow> uint32 \<Rightarrow> pb_field_iter \<Rightarrow> pb_istream \<Rightarrow> 'h pb_world \<Rightarrow> 'h decoded" where
  "decode_pointer_field n full noinit env wire_type it s w =
     (let field = it_field it; lt = PB_LTYPE (f_type field); ht = PB_HTYPE (f_type field); func = dec_field full noinit env it in
      if ht \<noteq> PB_HTYPE_REPEATED then
        (case (if lt = PB_LTYPE_SUBMESSAGE \<and> load_ptr (w_mem w) (pData it) \<noteq> 0 then pb_release_single_field n env it w else Some w) of
          None \<Rightarrow> None
        | Some w \<Rightarrow>
            let w = (if ht = PB_HTYPE_ONEOF then set_count (pSize it) (f_tag field) w else w) in
            if lt = PB_LTYPE_STRING \<or> lt = PB_LTYPE_BYTES then func (pData it) s w
            else rd_bind (allocate_field env (pData it) (unat (data_size field)) 1 s w)
                   (\<lambda>s w. case initialize_pointer_field n env field (load_ptr (w_mem w) (pData it)) w of
                      None \<Rightarrow> None
                    | Some w \<Rightarrow> func (load_ptr (w_mem w) (pData it)) s w))
      else if wire_type = PB_WT_STRING \<and> is_packable field then
        read_then (pb_make_string_substream s) w (\<lambda>substream s.
          case pointer_packed_loop n env func it (unat (get_count (pSize it) w)) substream w of
            None \<Rightarrow> None
          | Some (status, msg, substream, w) \<Rightarrow>
              close_substream status (case msg of None \<Rightarrow> s | Some m \<Rightarrow> s\<lparr>i_errmsg := Some m\<rparr>) substream w)
      else
        let cnt = get_count (pSize it) w in
        if cnt = PB_SIZE_MAX then rd_error ''too many array entries'' s w
        else rd_bind (allocate_field env (pData it) (unat (data_size field)) (unat (cnt + 1)) s w) (\<lambda>s w.
               let cnt = get_count (pSize it) w; item = item_at (load_ptr (w_mem w) (pData it)) field cnt in
               init_then n env field item func s (set_count (pSize it) (cnt + 1) w)))"

section \<open>Callback fields\<close>

text \<open>The callback is called until it has read the whole substream.\<close>

primrec callback_loop :: "nat \<Rightarrow> (pb_istream \<Rightarrow> 'h pb_world \<Rightarrow> 'h decoded) \<Rightarrow> pb_istream \<Rightarrow> 'h pb_world \<Rightarrow> 'h decoded" where
  "callback_loop 0 f s w = None"
| "callback_loop (Suc k) f s w = rd_bind (f s w) (\<lambda>s w. if bytes_left s \<noteq> 0 then callback_loop k f s w else Some (True, s, w))"

definition decode_callback_field ::
  "nat \<Rightarrow> 'h pb_denv \<Rightarrow> uint32 \<Rightarrow> pb_field_iter \<Rightarrow> pb_istream \<Rightarrow> 'h pb_world \<Rightarrow> 'h decoded" where
  "decode_callback_field n env wire_type it s w =
     (let func = (if pData it = 0 then 0 else load_ptr (w_mem w) (pData it));
          call = call_decode env func (it_field it) (pData it + 8)
      in if func = 0 then (case pb_skip_field wire_type s of (ok, s) \<Rightarrow> Some (ok, s, w))
         else if wire_type = PB_WT_STRING then
           read_then (pb_make_string_substream s) w (\<lambda>substream s.
             case callback_loop n call substream w of
               None \<Rightarrow> None
             | Some (status, substream, w) \<Rightarrow>
                 if \<not> status then rd_error ''callback failed'' s w else close_substream True s substream w)
         else
           read_then (read_raw_value wire_type 10 s) w (\<lambda>buffer s.
             case call (pb_istream_from_buffer buffer (length buffer)) w of
               None \<Rightarrow> None
             | Some (status, _, w) \<Rightarrow> Some (status, s, w)))"

section \<open>Any field\<close>

text \<open>The iterator comes back with the stream and the world.\<close>

definition pb_release_union_field ::
  "nat \<Rightarrow> 'h pb_denv \<Rightarrow> pb_field_iter \<Rightarrow> pb_istream \<Rightarrow> 'h pb_world \<Rightarrow> (pb_field_iter \<times> bool \<times> pb_istream \<times> 'h pb_world) option" where
  "pb_release_union_field n env it s w =
     (let old_tag = get_count (pSize it) w; new_tag = f_tag (it_field it) in
      if old_tag = 0 \<or> old_tag = new_tag then Some (it, True, s, w)
      else
        (case pb_field_iter_find it old_tag of
          (it, False) \<Rightarrow> Some (it, False, set_ierror ''invalid union tag'' s, w)
        | (it, True) \<Rightarrow>
            (case pb_release_single_field n env it w of
              None \<Rightarrow> None
            | Some w \<Rightarrow>
                (case pb_field_iter_find it new_tag of
                  (it, False) \<Rightarrow> Some (it, False, set_ierror ''iterator error'' s, w)
                | (it, True) \<Rightarrow> Some (it, True, s, w)))))"

definition decode_by_atype ::
  "nat \<Rightarrow> 'h message_decoder \<Rightarrow> 'h message_decoder \<Rightarrow> 'h pb_denv \<Rightarrow> uint32 \<Rightarrow> pb_field_iter \<Rightarrow> pb_istream \<Rightarrow> 'h pb_world \<Rightarrow> 'h decoded" where
  "decode_by_atype n full noinit env wire_type it s w =
     (let at = PB_ATYPE (f_type (it_field it)) in
      if at = PB_ATYPE_STATIC then decode_static_field n full noinit env wire_type it s w
      else if at = PB_ATYPE_POINTER then decode_pointer_field n full noinit env wire_type it s w
      else if at = PB_ATYPE_CALLBACK then decode_callback_field n env wire_type it s w
      else rd_error ''invalid field type'' s w)"

definition decode_field ::
  "nat \<Rightarrow> 'h message_decoder \<Rightarrow> 'h message_decoder \<Rightarrow> 'h pb_denv \<Rightarrow> uint32 \<Rightarrow> pb_field_iter \<Rightarrow> pb_istream \<Rightarrow> 'h pb_world \<Rightarrow>
   (pb_field_iter \<times> bool \<times> pb_istream \<times> 'h pb_world) option" where
  "decode_field n full noinit env wire_type it s w =
     (case (if PB_HTYPE (f_type (it_field it)) = PB_HTYPE_ONEOF then pb_release_union_field n env it s w else Some (it, True, s, w)) of
       None \<Rightarrow> None
     | Some (it, False, s, w) \<Rightarrow> Some (it, False, s, w)
     | Some (it, True, s, w) \<Rightarrow> map_option (Pair it) (decode_by_atype n full noinit env wire_type it s w))"

section \<open>Extensions\<close>

definition default_extension_decoder ::
  "nat \<Rightarrow> 'h message_decoder \<Rightarrow> 'h message_decoder \<Rightarrow> 'h pb_denv \<Rightarrow> addr \<Rightarrow> uint32 \<Rightarrow> uint32 \<Rightarrow> pb_istream \<Rightarrow> 'h pb_world \<Rightarrow> 'h decoded" where
  "default_extension_decoder n full noinit env ext tag wire_type s w =
     (if f_tag (extension_field env (w_mem w) ext) \<noteq> tag then Some (True, s, w)
      else map_option snd (decode_field n full noinit env wire_type (iter_from_extension env (w_mem w) ext) s (poke_bool (ext + 24) True w)))"

text \<open>The loop ends when an extension has read from the stream.\<close>

primrec decode_extension_loop ::
  "nat \<Rightarrow> (addr \<Rightarrow> pb_istream \<Rightarrow> 'h pb_world \<Rightarrow> 'h decoded) \<Rightarrow> nat \<Rightarrow> addr \<Rightarrow> pb_istream \<Rightarrow> 'h pb_world \<Rightarrow> 'h decoded" where
  "decode_extension_loop 0 f at ext s w = (if ext = 0 \<or> at \<noteq> bytes_left s then Some (True, s, w) else None)"
| "decode_extension_loop (Suc k) f at ext s w =
     (if ext = 0 \<or> at \<noteq> bytes_left s then Some (True, s, w)
      else rd_bind (f ext s w) (\<lambda>s w. decode_extension_loop k f at (load_ptr (w_mem w) (ext + 16)) s w))"

definition decode_extension ::
  "nat \<Rightarrow> 'h message_decoder \<Rightarrow> 'h message_decoder \<Rightarrow> 'h pb_denv \<Rightarrow> uint32 \<Rightarrow> uint32 \<Rightarrow> pb_field_iter \<Rightarrow> pb_istream \<Rightarrow> 'h pb_world \<Rightarrow> 'h decoded" where
  "decode_extension n full noinit env tag wire_type it s w =
     decode_extension_loop n
       (\<lambda>ext s w.
          let decode = load_ptr (w_mem w) (load_ptr (w_mem w) ext) in
          if decode \<noteq> 0 then call_ext_decode env decode ext tag wire_type s w
          else default_extension_decoder n full noinit env ext tag wire_type s w)
       (bytes_left s) (load_ptr (w_mem w) (pData it)) s w"

section \<open>Messages\<close>

definition PB_MAX_REQUIRED_FIELDS :: uint32 where "PB_MAX_REQUIRED_FIELDS = 64"

text \<open>The state of the loop; \<open>fixed_count_field\<close> is a position in the table.\<close>

record decode_state =
  d_iter :: pb_field_iter
  fields_seen :: "uint32 list"
  extension_range_start :: uint32
  fixed_count_field :: "nat option"

text \<open>\<open>fixed_count_field\<close> did not get as many entries as its array has.\<close>

definition fixed_count_wrong :: "decode_state \<Rightarrow> 'h pb_world \<Rightarrow> bool" where
  "fixed_count_wrong d w =
     (case fixed_count_field d of
       None \<Rightarrow> False
     | Some p \<Rightarrow> w_local w \<noteq> array_size (field_at (start (d_iter d)) p))"

text \<open>The counters of required fields seen at the end of the table.\<close>

function seek_end :: "pb_field_iter \<Rightarrow> uint32 \<times> byte \<times> pb_field_iter" where
  "seek_end it =
     (case pb_field_iter_next it of (it', again) \<Rightarrow>
       if again then seek_end it' else (required_field_index it, f_type (it_field it), it'))"
  by pat_completeness auto
termination
  by (relation "measure (\<lambda>it. length (start it) - pos it)") (auto dest!: field_iter_next_measure [OF sym])

declare seek_end.simps [simp del]

definition required_count :: "pb_field_iter \<Rightarrow> nat" where
  "required_count it =
     (case seek_end it of (cnt, last_type, it) \<Rightarrow>
       let cnt = (if PB_HTYPE last_type = PB_HTYPE_REQUIRED \<and> f_tag (it_field it) \<noteq> 0 then cnt + 1 else cnt)
       in unat (if cnt > PB_MAX_REQUIRED_FIELDS then PB_MAX_REQUIRED_FIELDS else cnt))"

definition all_seen :: "uint32 list \<Rightarrow> nat \<Rightarrow> bool" where
  "all_seen seen cnt \<longleftrightarrow>
     list_all (\<lambda>i. seen ! i = -1) [0..<cnt div 32] \<and>
     (cnt mod 32 = 0 \<or> seen ! (cnt div 32) = drop_bit (32 - cnt mod 32) (-1))"

text \<open>What follows the loop.\<close>

definition decode_finish :: "decode_state \<Rightarrow> pb_istream \<Rightarrow> 'h pb_world \<Rightarrow> 'h decoded" where
  "decode_finish d s w =
     (if fixed_count_wrong d w then rd_error ''wrong size for fixed count field'' s w
      else if \<not> all_seen (fields_seen d) (required_count (d_iter d)) then rd_error ''missing required field'' s w
      else Some (True, s, w))"

text \<open>A tag that is not in the table: extensions are tried from the tag of the extension field on.\<close>

definition unknown_field ::
  "nat \<Rightarrow> 'h message_decoder \<Rightarrow> 'h message_decoder \<Rightarrow> 'h pb_denv \<Rightarrow> uint32 \<Rightarrow> uint32 \<Rightarrow> decode_state \<Rightarrow> pb_istream \<Rightarrow> 'h pb_world \<Rightarrow>
   (decode_state \<times> bool \<times> pb_istream \<times> 'h pb_world) option" where
  "unknown_field n full noinit env tag wire_type d s w =
     (let skip = (\<lambda>d s w. case pb_skip_field wire_type s of (ok, s) \<Rightarrow> Some (d, ok, s, w)) in
      if tag \<ge> extension_range_start d then
        (case find_extension_field (d_iter d) of (it, found) \<Rightarrow>
          let d = d\<lparr>d_iter := it, extension_range_start := (if found then f_tag (it_field it) else -1)\<rparr> in
          if tag \<ge> extension_range_start d then
            (case decode_extension n full noinit env tag wire_type it s w of
              None \<Rightarrow> None
            | Some (ok, s', w) \<Rightarrow>
                if \<not> ok then Some (d, False, s', w)
                else if bytes_left s' \<noteq> bytes_left s then Some (d, True, s', w)
                else skip d s' w)
          else skip d s w)
      else skip d s w)"

text \<open>A field of the table.\<close>

definition known_field ::
  "nat \<Rightarrow> 'h message_decoder \<Rightarrow> 'h message_decoder \<Rightarrow> 'h pb_denv \<Rightarrow> uint32 \<Rightarrow> decode_state \<Rightarrow> pb_istream \<Rightarrow> 'h pb_world \<Rightarrow>
   (decode_state \<times> bool \<times> pb_istream \<times> 'h pb_world) option" where
  "known_field n full noinit env wire_type d s w =
     (let it = d_iter d; field = it_field it;
          fixed = (PB_HTYPE (f_type field) = PB_HTYPE_REPEATED \<and> pSize it = At (pData it));
          fresh = (fixed \<and> fixed_count_field d \<noteq> Some (pos it))
      in if fresh \<and> fixed_count_wrong d w
         then Some (d, False, set_ierror ''wrong size for fixed count field'' s, w)
         else
           let w = (if fresh then w\<lparr>w_local := 0\<rparr> else w);
               it = (if fixed then it\<lparr>pSize := Local\<rparr> else it);
               i = unat (required_field_index it);
               d = d\<lparr>d_iter := it,
                 fixed_count_field := (if fresh then Some (pos it) else fixed_count_field d),
                 fields_seen :=
                   (if PB_HTYPE (f_type field) = PB_HTYPE_REQUIRED \<and> required_field_index it < PB_MAX_REQUIRED_FIELDS
                    then (fields_seen d)[i div 32 := fields_seen d ! (i div 32) OR push_bit (i mod 32) 1]
                    else fields_seen d)\<rparr>
           in (case decode_field n full noinit env wire_type it s w of
                None \<Rightarrow> None
              | Some (it, ok, s, w) \<Rightarrow> Some (d\<lparr>d_iter := it\<rparr>, ok, s, w)))"

primrec noinit_loop ::
  "nat \<Rightarrow> nat \<Rightarrow> 'h message_decoder \<Rightarrow> 'h message_decoder \<Rightarrow> 'h pb_denv \<Rightarrow> decode_state \<Rightarrow> pb_istream \<Rightarrow> 'h pb_world \<Rightarrow> 'h decoded" where
  "noinit_loop 0 n full noinit env d s w = None"
| "noinit_loop (Suc k) n full noinit env d s w =
     (if bytes_left s = 0 then decode_finish d s w
      else (case pb_decode_tag s of
        (None, eof, s) \<Rightarrow> if eof then decode_finish d s w else Some (False, s, w)
      | (Some (wire_type, tag), _, s) \<Rightarrow>
          (case pb_field_iter_find (d_iter d) tag of (it, found) \<Rightarrow>
            let d = d\<lparr>d_iter := it\<rparr> in
            case (if found then known_field n full noinit env wire_type d s w
                  else unknown_field n full noinit env tag wire_type d s w) of
              None \<Rightarrow> None
            | Some (d, ok, s, w) \<Rightarrow> if ok then noinit_loop k n full noinit env d s w else Some (False, s, w))))"

text \<open>\<open>pb_decode\<close> on top of \<open>pb_decode_noinit\<close>: default values before, and a release after a failure.\<close>

definition decode_and_release :: "nat \<Rightarrow> 'h pb_denv \<Rightarrow> 'h message_decoder \<Rightarrow> 'h message_decoder" where
  "decode_and_release n env noinit tbl dest s w =
     (case pb_message_set_to_defaults n env tbl dest w of
       None \<Rightarrow> None
     | Some w \<Rightarrow>
         (case noinit tbl dest s w of
           None \<Rightarrow> None
         | Some (status, s, w) \<Rightarrow>
             if status then Some (True, s, w) else map_option (\<lambda>w. (False, s, w)) (pb_release n env tbl dest w)))"

text \<open>The local counter of the caller is untouched by a call.\<close>

primrec pb_decode_noinit :: "nat \<Rightarrow> 'h pb_denv \<Rightarrow> 'h message_decoder" where
  "pb_decode_noinit 0 env tbl dest s w = None"
| "pb_decode_noinit (Suc n) env tbl dest s w =
     map_option (\<lambda>(ok, s', w'). (ok, s', w'\<lparr>w_local := w_local w\<rparr>))
       (noinit_loop n n (decode_and_release n env (pb_decode_noinit n env)) (pb_decode_noinit n env) env
          \<lparr>d_iter = fst (pb_field_iter_begin tbl dest), fields_seen = [0, 0], extension_range_start = 0, fixed_count_field = None\<rparr>
          s (w\<lparr>w_local := 0\<rparr>))"

definition pb_decode :: "nat \<Rightarrow> 'h pb_denv \<Rightarrow> 'h message_decoder" where
  "pb_decode n env = decode_and_release n env (pb_decode_noinit n env)"

text \<open>A message after its length.\<close>

definition decode_delimited_by :: "'h message_decoder \<Rightarrow> 'h message_decoder" where
  "decode_delimited_by dec tbl dest s w =
     read_then (pb_make_string_substream s) w (\<lambda>substream s.
       case dec tbl dest substream w of
         None \<Rightarrow> None
       | Some (status, substream, w) \<Rightarrow> close_substream status s substream w)"

definition pb_decode_delimited_noinit :: "nat \<Rightarrow> 'h pb_denv \<Rightarrow> 'h message_decoder" where
  "pb_decode_delimited_noinit n env = decode_delimited_by (pb_decode_noinit n env)"

definition pb_decode_delimited :: "nat \<Rightarrow> 'h pb_denv \<Rightarrow> 'h message_decoder" where
  "pb_decode_delimited n env = decode_delimited_by (pb_decode n env)"

definition pb_decode_nullterminated :: "nat \<Rightarrow> 'h pb_denv \<Rightarrow> 'h message_decoder" where
  "pb_decode_nullterminated n env = pb_decode n env"

end
