(* ===== verification/PbSafe.thy ===== *)
theory PbSafe
  imports PbMessage
begin

text \<open>
  What the decoder may write. For a table whose fields are all static, the theory says where the
  values, flags and counters of the fields are (\<open>fits\<close>) and shows that decoding changes nothing
  else, whatever the input: each decoder, the defaults, the release and the loop \<open>keep\<close> all
  addresses outside the message and the heap.
\<close>

section \<open>Addresses and frames\<close>

definition area :: "addr \<Rightarrow> nat \<Rightarrow> addr set" where
  "area a n = (\<lambda>i. a + word_of_nat i) ` {..<n}"

lemma area_0 [simp]: "area a 0 = {}"
  by (simp add: area_def)

lemma area_Suc: "area a (Suc n) = insert a (area (a + 1) n)"
  by (auto simp: area_def lessThan_Suc_eq_insert_0 image_image algebra_simps)

lemma area_numeral: "area a (numeral k) = insert a (area (a + 1) (pred_numeral k))"
  by (simp add: numeral_eq_Suc area_Suc)

lemma area_1 [simp]: "area a (Suc 0) = {a}"
  by (simp add: area_Suc)

lemma area_mono: "m \<le> n \<Longrightarrow> area a m \<subseteq> area a n"
  by (auto simp: area_def)

lemma area_shift: "i + m \<le> n \<Longrightarrow> area (a + word_of_nat i) m \<subseteq> area a n"
proof
  fix x assume "i + m \<le> n" "x \<in> area (a + word_of_nat i) m"
  then obtain j where "j < m" "x = a + word_of_nat i + word_of_nat j" by (auto simp: area_def)
  then have "i + j < n" "x = a + word_of_nat (i + j)" using \<open>i + m \<le> n\<close> by (simp_all add: add.assoc)
  then show "x \<in> area a n" unfolding area_def by blast
qed

lemma store_outside: "x \<notin> area a (length bs) \<Longrightarrow> store m a bs x = m x"
  by (induction bs arbitrary: m a) (auto simp: area_Suc)

text \<open>Nothing outside the set of addresses and nothing on the heap has changed.\<close>

definition frame :: "addr set \<Rightarrow> 'h pb_world \<Rightarrow> 'h pb_world \<Rightarrow> bool" where
  "frame S w w' \<longleftrightarrow> (\<forall>a. a \<notin> S \<longrightarrow> w_mem w' a = w_mem w a) \<and> w_heap w' = w_heap w"

lemma frame_refl [simp]: "frame S w w"
  by (simp add: frame_def)

lemma frame_trans: "frame S w w' \<Longrightarrow> frame S w' w'' \<Longrightarrow> frame S w w''"
  by (simp add: frame_def)

lemma frame_local [simp]: "frame S w (w'\<lparr>w_local := n\<rparr>) \<longleftrightarrow> frame S w w'" "frame S (w\<lparr>w_local := n\<rparr>) w' \<longleftrightarrow> frame S w w'"
  by (simp_all add: frame_def)

lemma frame_poke: "area a (length bs) \<subseteq> S \<Longrightarrow> frame S w (poke a bs w)"
  by (auto simp: frame_def poke_def dest: subsetD intro!: store_outside)

lemma length_le_bytes [simp]: "length (le_bytes n v) = n"
  by (simp add: le_bytes_def)

lemma frame_pokes:
  "area a 4 \<subseteq> S \<Longrightarrow> frame S w (poke_size a n w)" "area a 1 \<subseteq> S \<Longrightarrow> frame S w (poke_bool a b w)"
  "area a k \<subseteq> S \<Longrightarrow> frame S w (zero_fill a k w)" "area a k \<subseteq> S \<Longrightarrow> frame S w (poke a (le_bytes k v) w)"
  by (simp_all add: poke_size_def poke_bool_def zero_fill_def frame_poke)

definition keeps :: "addr set \<Rightarrow> (pb_istream \<Rightarrow> 'h pb_world \<Rightarrow> 'h decoded) \<Rightarrow> bool" where
  "keeps S f \<longleftrightarrow> (\<forall>s w ok s' w'. f s w = Some (ok, s', w') \<longrightarrow> frame S w w')"

lemma keepsI: "(\<And>s w ok s' w'. f s w = Some (ok, s', w') \<Longrightarrow> frame S w w') \<Longrightarrow> keeps S f"
  by (simp add: keeps_def)

lemma keepsD: "keeps S f \<Longrightarrow> f s w = Some (ok, s', w') \<Longrightarrow> frame S w w'"
  by (simp add: keeps_def)

section \<open>Field decoders write the value\<close>

text \<open>How many bytes the decoder of a static field may write.\<close>

definition value_len :: "pb_field \<Rightarrow> nat" where
  "value_len field =
     (let lt = PB_LTYPE (f_type field); n = unat (data_size field) in
      if lt = PB_LTYPE_BOOL then max 1 n else if lt = PB_LTYPE_FIXED32 then max 4 n else if lt = PB_LTYPE_FIXED64 then max 8 n else n)"

lemma value_len_ge: "unat (data_size field) \<le> value_len field"
  by (simp add: value_len_def Let_def)

lemma keeps_integer:
  assumes "area dest (unat (data_size field)) \<subseteq> S"
  shows "store_integer field dest v clamp s w = Some (ok, s', w') \<Longrightarrow> frame S w w'"
  using frame_pokes(4) [OF assms] by (auto simp: store_integer_def rd_error_def Let_def split: if_splits)

lemma read_then_SomeE:
  assumes "read_then r w f = Some (ok, s', w')"
  obtains "r = (None, s')" "\<not> ok" "w' = w" | x s where "r = (Some x, s)" "f x s = Some (ok, s', w')"
  using assms by (cases r; cases "fst r") (auto simp: read_then_def)

lemma keeps_integers:
  assumes "area dest (unat (data_size field)) \<subseteq> S"
  shows "keeps S (pb_dec_varint field dest)" "keeps S (pb_dec_uvarint field dest)" "keeps S (pb_dec_svarint field dest)"
  unfolding pb_dec_varint_def pb_dec_uvarint_def pb_dec_svarint_def Let_def
  by (auto intro!: keepsI elim!: read_then_SomeE dest!: keeps_integer [OF assms])

lemma pb_read_length: "pb_read n s = (Some bs, s') \<Longrightarrow> length bs \<le> n"
  by (auto simp: pb_read_def buf_read_def split: if_splits)

lemma keeps_read_into: "area dest n \<subseteq> S \<Longrightarrow> keeps S (read_into dest n)"
  unfolding read_into_def
  by (auto intro!: keepsI frame_poke elim!: read_then_SomeE dest!: pb_read_length dest: area_mono)

lemma keeps_fixed:
  "area dest 1 \<subseteq> S \<Longrightarrow> keeps S (pb_dec_bool dest)" "area dest 4 \<subseteq> S \<Longrightarrow> keeps S (pb_dec_fixed32 dest)"
  "area dest 8 \<subseteq> S \<Longrightarrow> keeps S (pb_dec_fixed64 dest)"
  unfolding pb_dec_bool_def pb_dec_fixed32_def pb_dec_fixed64_def
  by (auto intro!: keepsI frame_pokes elim!: read_then_SomeE)

lemma keeps_fixed_length:
  assumes "area dest (unat (data_size field)) \<subseteq> S"
  shows "keeps S (pb_dec_fixed_length_bytes field dest)"
  unfolding pb_dec_fixed_length_bytes_def
  by (auto intro!: keepsI frame_pokes assms elim!: read_then_SomeE simp: rd_error_def split: if_splits
      dest!: keepsD [OF keeps_read_into [OF assms]])

lemma keeps_bytes:
  assumes "area dest (unat (data_size field)) \<subseteq> S" and "PB_ATYPE (f_type field) = PB_ATYPE_STATIC"
  shows "keeps S (pb_dec_bytes env field dest :: pb_istream \<Rightarrow> 'h pb_world \<Rightarrow> 'h decoded)"
proof (rule keepsI)
  fix s w ok s' and w' :: "'h pb_world"
  assume "pb_dec_bytes env field dest s w = Some (ok, s', w')"
  then show "frame S w w'" unfolding pb_dec_bytes_def
  proof (elim read_then_SomeE)
    fix sz :: uint32 and s1
    let ?n = "unat sz"
    assume r: "(let n = unat sz; alloc_size = PB_BYTES_ARRAY_T_ALLOCSIZE n in
       if sz > PB_SIZE_MAX then rd_error ''bytes overflow'' s1 w
       else if n > alloc_size then rd_error ''size too large'' s1 w
       else if PB_ATYPE (f_type field) = PB_ATYPE_POINTER
       then rd_bind (allocate_field env dest alloc_size 1 s1 w) (\<lambda>s w.
              let bdest = load_ptr (w_mem w) dest in read_into (bdest + 4) n s (poke_size bdest sz w))
       else if alloc_size > unat (data_size field) then rd_error ''bytes overflow'' s1 w
       else read_into (dest + 4) n s1 (poke_size dest sz w)) = Some (ok, s', w')"
    have sz: "PB_BYTES_ARRAY_T_ALLOCSIZE ?n = ?n + 4"
      using unsigned_less [of sz, where ?'a = nat] by (simp add: PB_BYTES_ARRAY_T_ALLOCSIZE_def sz_add_def size_mod_def)
    have np: "PB_ATYPE_STATIC \<noteq> PB_ATYPE_POINTER" by (simp add: PB_ATYPE_STATIC_def PB_ATYPE_POINTER_def)
    show "frame S w w'"
    proof (cases "w' = w")
      case False
      then have fits: "?n + 4 \<le> unat (data_size field)" and read: "read_into (dest + 4) ?n s1 (poke_size dest sz w) = Some (ok, s', w')"
        using r np assms(2) by (auto simp: sz rd_error_def Let_def split: if_splits)
      have "area (dest + word_of_nat 4) ?n \<subseteq> S" "area dest 4 \<subseteq> S"
        using fits area_shift [of 4 ?n "unat (data_size field)" dest] area_mono [of 4 "unat (data_size field)" dest] assms(1) by auto
      then have "frame S w (poke_size dest sz w)" "frame S (poke_size dest sz w) w'"
        using keepsD [OF keeps_read_into read] frame_pokes(1) [of dest S w sz] by simp_all
      then show ?thesis by (rule frame_trans)
    qed simp
  qed simp
qed

lemma keeps_string:
  assumes "area dest (unat (data_size field)) \<subseteq> S" and "PB_ATYPE (f_type field) = PB_ATYPE_STATIC"
  shows "keeps S (pb_dec_string env field dest :: pb_istream \<Rightarrow> 'h pb_world \<Rightarrow> 'h decoded)"
proof (rule keepsI)
  fix s w ok s' and w' :: "'h pb_world"
  assume "pb_dec_string env field dest s w = Some (ok, s', w')"
  then show "frame S w w'" unfolding pb_dec_string_def
  proof (elim read_then_SomeE)
    fix sz :: uint32 and s1
    assume r: "(let alloc_size = unat (sz + 1) in
       if alloc_size < unat sz then rd_error ''size too large'' s1 w
       else if PB_ATYPE (f_type field) = PB_ATYPE_POINTER
       then rd_bind (allocate_field env dest alloc_size 1 s1 w) (\<lambda>s w. read_string_into (load_ptr (w_mem w) dest) sz s w)
       else if alloc_size > unat (data_size field) then rd_error ''string overflow'' s1 w
       else read_string_into dest sz s1 w) = Some (ok, s', w')"
    have np: "PB_ATYPE_STATIC \<noteq> PB_ATYPE_POINTER" by (simp add: PB_ATYPE_STATIC_def PB_ATYPE_POINTER_def)
    show "frame S w w'"
    proof (cases "w' = w")
      case False
      then have le: "unat sz \<le> unat (sz + 1)" and fits: "unat (sz + 1) \<le> unat (data_size field)"
        and read: "read_string_into dest sz s1 w = Some (ok, s', w')"
        using r np assms(2) by (auto simp: rd_error_def Let_def split: if_splits)
      have "unat (sz + 1) = unat sz + 1" using le unatSuc [of sz] by (cases "1 + sz = 0") (auto simp: add.commute unsigned_eq_0_iff)
      then have n: "unat sz + 1 \<le> unat (data_size field)" using fits by simp
      obtain st t v where v: "read_into dest (unat sz) s1 w = Some (st, t, v)" "w' = poke (dest + ucast sz) [0] v"
        using read by (auto simp: read_string_into_def split: option.splits prod.splits)
      have "area dest (unat sz) \<subseteq> S" "area (dest + word_of_nat (unat sz)) 1 \<subseteq> S"
        using n area_shift [of "unat sz" 1 "unat (data_size field)" dest] area_mono [of "unat sz" "unat (data_size field)" dest] assms(1)
        by auto
      then have "frame S w v" "frame S v w'"
        using keepsD [OF keeps_read_into v(1)] frame_poke [of "dest + ucast sz" "[0]" S v] v(2) by simp_all
      then show ?thesis by (rule frame_trans)
    qed simp
  qed simp
qed

section \<open>The iterators of a message\<close>

function visited :: "pb_field_iter \<Rightarrow> pb_field_iter list" where
  "visited it = it # (case pb_field_iter_next it of (it', again) \<Rightarrow> if again then visited it' else [])"
  by pat_completeness auto
termination
  by (relation "measure (\<lambda>it. length (start it) - pos it)") (auto dest!: field_iter_next_measure [OF sym])

declare visited.simps [simp del]

definition iters :: "pb_field list \<Rightarrow> addr \<Rightarrow> pb_field_iter list" where
  "iters tbl dest = visited (fst (pb_field_iter_begin tbl dest))"

lemma visited_step:
  "snd (pb_field_iter_next it) \<Longrightarrow> visited it = it # visited (fst (pb_field_iter_next it))"
  "\<not> snd (pb_field_iter_next it) \<Longrightarrow> visited it = [it]"
  by (cases "pb_field_iter_next it"; simp add: visited.simps [of it])+

lemmas iter_eval = iters_def visited_step pb_field_iter_begin_def pb_field_iter_next_def it_field_def field_at_def Let_def type_consts PB_LAST_FIELD_def

lemma visited_first [simp]: "it \<in> set (visited it)"
  by (subst visited.simps) simp

lemma visited_next:
  "it' \<in> set (visited it) \<Longrightarrow> pb_field_iter_next it' = (it'', True) \<Longrightarrow> it'' \<in> set (visited it)"
proof (induction it rule: visited.induct)
  case (1 it)
  show ?case
  proof (cases "it' = it")
    case True
    then show ?thesis using "1.prems" by (subst visited.simps) simp
  next
    case False
    obtain nx again where nx: "pb_field_iter_next it = (nx, again)" by fastforce
    then have "again" "it' \<in> set (visited nx)"
      using "1.prems"(1) False by (auto simp: visited.simps [of it] split: if_splits)
    then have "it'' \<in> set (visited nx)" using "1.IH" [OF nx [symmetric]] "1.prems"(2) by blast
    then show ?thesis using nx \<open>again\<close> by (subst visited.simps) simp
  qed
qed

lemma next_same: "fst (pb_field_iter_next it) = it' \<Longrightarrow> start it' = start it \<and> dest_struct it' = dest_struct it"
  by (auto simp: pb_field_iter_next_def pb_field_iter_begin_def Let_def)

lemma begin_fields [simp]:
  "start (fst (pb_field_iter_begin tbl dest)) = tbl" "dest_struct (fst (pb_field_iter_begin tbl dest)) = dest"
  "pos (fst (pb_field_iter_begin tbl dest)) = 0"
  by (simp_all add: pb_field_iter_begin_def Let_def)

lemma visited_same: "it' \<in> set (visited it) \<Longrightarrow> start it' = start it \<and> dest_struct it' = dest_struct it"
proof (induction it rule: visited.induct)
  case (1 it)
  obtain nx again where nx: "pb_field_iter_next it = (nx, again)" by fastforce
  then show ?case using 1 next_same [of it nx] by (auto simp: visited.simps [of it] split: if_splits)
qed

lemma next_wraps:
  "pb_field_iter_next it = (it', False) \<Longrightarrow> it' = it \<or> it' = fst (pb_field_iter_begin (start it) (dest_struct it))"
  by (auto simp: pb_field_iter_next_def Let_def split: if_splits)

lemma iters_same: "it \<in> set (iters tbl dest) \<Longrightarrow> start it = tbl \<and> dest_struct it = dest"
  unfolding iters_def by (drule visited_same) simp

lemma iters_begin [simp]: "fst (pb_field_iter_begin tbl dest) \<in> set (iters tbl dest)"
  by (simp add: iters_def)

lemma iters_next: "it \<in> set (iters tbl dest) \<Longrightarrow> fst (pb_field_iter_next it) \<in> set (iters tbl dest)"
proof -
  assume it: "it \<in> set (iters tbl dest)"
  obtain nx again where nx: "pb_field_iter_next it = (nx, again)" by fastforce
  show ?thesis
  proof (cases again)
    case True
    then show ?thesis using it nx visited_next unfolding iters_def by fastforce
  next
    case False
    then show ?thesis using it nx next_wraps [of it nx] iters_same [OF it] by auto
  qed
qed

text \<open>An iterator of the decoder may have its counter replaced by the local one.\<close>

definition near :: "pb_field list \<Rightarrow> addr \<Rightarrow> pb_field_iter \<Rightarrow> bool" where
  "near tbl dest it \<longleftrightarrow>
     (\<exists>it0 \<in> set (iters tbl dest). it = it0 \<or> PB_HTYPE (f_type (it_field it0)) = PB_HTYPE_REPEATED \<and> it = it0\<lparr>pSize := Local\<rparr>)"

lemma near_begin: "near tbl dest (fst (pb_field_iter_begin tbl dest))"
  by (auto simp: near_def)

lemma it_field_local [simp]: "it_field (it\<lparr>pSize := r\<rparr>) = it_field it"
  by (simp add: it_field_def)

lemma next_local:
  assumes "PB_HTYPE (f_type (it_field it)) = PB_HTYPE_REPEATED"
  shows "fst (pb_field_iter_next (it\<lparr>pSize := Local\<rparr>)) = fst (pb_field_iter_next it) \<or>
    fst (pb_field_iter_next (it\<lparr>pSize := Local\<rparr>)) = it\<lparr>pSize := Local\<rparr>"
proof (cases "f_tag (it_field it) = 0")
  case True
  then show ?thesis by (simp add: pb_field_iter_next_def)
next
  case False
  have "PB_HTYPE (f_type (field_at (start it) (pos it))) \<noteq> PB_HTYPE_ONEOF"
    using assms htype_distinct(1) by (simp add: it_field_def)
  with False show ?thesis by (simp add: pb_field_iter_next_def it_field_def Let_def)
qed

lemma near_next: "near tbl dest it \<Longrightarrow> near tbl dest (fst (pb_field_iter_next it))"
proof -
  assume n: "near tbl dest it"
  then obtain it0 where it0: "it0 \<in> set (iters tbl dest)" and
    it: "it = it0 \<or> PB_HTYPE (f_type (it_field it0)) = PB_HTYPE_REPEATED \<and> it = it0\<lparr>pSize := Local\<rparr>"
    unfolding near_def by blast
  have "near tbl dest (fst (pb_field_iter_next it0))" using iters_next [OF it0] unfolding near_def by blast
  then show ?thesis using n it next_local [of it0] by auto
qed

lemma near_find_loop: "near tbl dest it \<Longrightarrow> near tbl dest (fst (find_loop k wanted first it))"
  by (induction k arbitrary: it) (auto simp: Let_def intro: near_next)

lemma near_find: "near tbl dest it \<Longrightarrow> near tbl dest (fst (pb_field_iter_find it tag))"
  unfolding pb_field_iter_find_def by (rule near_find_loop)

lemma near_find_extension: "near tbl dest it \<Longrightarrow> near tbl dest (fst (find_extension_field it))"
  unfolding find_extension_field_def by (rule near_find_loop)

lemma near_local: "near tbl dest it \<Longrightarrow> PB_HTYPE (f_type (it_field it)) = PB_HTYPE_REPEATED \<Longrightarrow> near tbl dest (it\<lparr>pSize := Local\<rparr>)"
  by (auto simp: near_def)

section \<open>Messages that fit\<close>

text \<open>Where a field keeps its values.\<close>

definition places :: "pb_field_iter \<Rightarrow> addr list" where
  "places it =
     (if PB_HTYPE (f_type (it_field it)) = PB_HTYPE_REPEATED
      then map (\<lambda>i. item_at (pData it) (it_field it) (word_of_nat i)) [0..<unat (array_size (it_field it))]
      else [pData it])"

text \<open>The field is static, and its values, flag and counter are in the set of addresses.\<close>

definition fits_field :: "(pb_field list \<Rightarrow> addr \<Rightarrow> bool) \<Rightarrow> 'h pb_denv \<Rightarrow> addr set \<Rightarrow> pb_field_iter \<Rightarrow> bool" where
  "fits_field sub env S it =
     (let f = it_field it; ht = PB_HTYPE (f_type f); lt = PB_LTYPE (f_type f) in
      PB_ATYPE (f_type f) = PB_ATYPE_STATIC \<and> lt \<noteq> PB_LTYPE_EXTENSION \<and>
      (\<forall>p \<in> set (places it). area p (value_len f) \<subseteq> S \<and> (lt = PB_LTYPE_SUBMESSAGE \<longrightarrow> sub (dec_tables env (f_ptr f)) p)) \<and>
      (case pSize it of
        Local \<Rightarrow> ht = PB_HTYPE_REPEATED
      | At a \<Rightarrow> (ht = PB_HTYPE_OPTIONAL \<and> a \<noteq> pData it \<longrightarrow> area a 1 \<subseteq> S) \<and>
                (ht = PB_HTYPE_REPEATED \<or> ht = PB_HTYPE_ONEOF \<longrightarrow> area a 4 \<subseteq> S)))"

text \<open>All fields of the table and of the tables below it are static.\<close>

primrec plain :: "nat \<Rightarrow> 'h pb_denv \<Rightarrow> pb_field list \<Rightarrow> bool" where
  "plain 0 env tbl \<longleftrightarrow> False"
| "plain (Suc n) env tbl \<longleftrightarrow>
     list_all (\<lambda>f. PB_ATYPE (f_type f) = PB_ATYPE_STATIC \<and> PB_LTYPE (f_type f) \<noteq> PB_LTYPE_EXTENSION \<and>
       PB_LTYPE (f_type f) \<le> PB_LTYPE_FIXED_LENGTH_BYTES \<and>
       (PB_LTYPE (f_type f) = PB_LTYPE_SUBMESSAGE \<longrightarrow> plain n env (dec_tables env (f_ptr f)))) tbl"

text \<open>The message is static and all its fields fit.\<close>

primrec fits :: "nat \<Rightarrow> 'h pb_denv \<Rightarrow> addr set \<Rightarrow> pb_field list \<Rightarrow> addr \<Rightarrow> bool" where
  "fits 0 env S tbl dest \<longleftrightarrow> False"
| "fits (Suc n) env S tbl dest \<longleftrightarrow> plain (Suc n) env tbl \<and> list_all (fits_field (fits n env S) env S) (iters tbl dest)"

lemma fits_near:
  assumes "fits (Suc n) env S tbl dest" and "near tbl dest it"
  shows "fits_field (fits n env S) env S it"
proof -
  obtain it0 where it0: "it0 \<in> set (iters tbl dest)" and
    it: "it = it0 \<or> PB_HTYPE (f_type (it_field it0)) = PB_HTYPE_REPEATED \<and> it = it0\<lparr>pSize := Local\<rparr>"
    using assms(2) unfolding near_def by blast
  have f: "fits_field (fits n env S) env S it0" using assms(1) it0 unfolding fits.simps list_all_iff by blast
  from it show ?thesis
  proof
    assume l: "PB_HTYPE (f_type (it_field it0)) = PB_HTYPE_REPEATED \<and> it = it0\<lparr>pSize := Local\<rparr>"
    then have "places it = places it0" "pSize it = Local" "it_field it = it_field it0" by (simp_all add: places_def)
    then show ?thesis using f l unfolding fits_field_def Let_def by simp
  qed (use f in simp)
qed

section \<open>Default values stay in the message\<close>

lemma over_iter_rel:
  assumes trans: "transp R"
  shows "(\<And>it' w w'. it' \<in> set (visited it) \<Longrightarrow> f it' w = Some w' \<Longrightarrow> R w w') \<Longrightarrow> over_iter f it w = Some w' \<Longrightarrow> R w w'"
proof (induction f it w rule: over_iter.induct)
  case (1 f it w)
  obtain v where v: "f it w = Some v" using "1.prems"(2) by (auto simp: over_iter.simps [of f it] split: option.splits)
  obtain nx again where nx: "pb_field_iter_next it = (nx, again)" by fastforce
  have fv: "R w v" using "1.prems"(1) [OF visited_first v] .
  show ?case
  proof (cases again)
    case True
    have sub: "it' \<in> set (visited nx) \<Longrightarrow> it' \<in> set (visited it)" for it' using nx True by (simp add: visited.simps [of it])
    have "over_iter f nx v = Some w'" using "1.prems"(2) v nx True by (simp add: over_iter.simps [of f it])
    from "1.IH" [OF v nx [symmetric] True "1.prems"(1) [OF sub] this] show ?thesis by (rule transpD [OF trans fv])
  next
    case False
    then show ?thesis using "1.prems"(2) v nx fv by (simp add: over_iter.simps [of f it])
  qed
qed

lemma over_fields_rel:
  assumes trans: "transp R" and refl: "reflp R"
    and each: "\<And>it w w'. it \<in> set (iters tbl dest) \<Longrightarrow> f it w = Some w' \<Longrightarrow> R w w'" and r: "over_fields f tbl dest w = Some w'"
  shows "R w w'"
proof (cases "snd (pb_field_iter_begin tbl dest)")
  case True
  then have "over_iter f (fst (pb_field_iter_begin tbl dest)) w = Some w'" using r by (simp add: over_fields_def split: prod.splits)
  from over_iter_rel [OF trans _ this] each show ?thesis unfolding iters_def by blast
next
  case False
  then show ?thesis using r reflpD [OF refl] by (auto simp: over_fields_def split: prod.splits)
qed

lemma frame_order: "transp (frame S)" "reflp (frame S)"
  by (auto intro!: transpI reflpI intro: frame_trans)

lemmas over_fields_keeps = over_fields_rel [OF frame_order]

lemma over_fields_same:
  assumes "\<And>it w w'. it \<in> set (iters tbl dest) \<Longrightarrow> f it w = Some w' \<Longrightarrow> w' = w" and "over_fields f tbl dest w = Some w'"
  shows "w' = w"
  using over_fields_rel [of "\<lambda>w w'. w' = w" tbl dest f w w'] assms by (simp add: transp_def reflp_def)

lemma frame_count:
  assumes "fits_field sub env S it" and "PB_HTYPE (f_type (it_field it)) = PB_HTYPE_REPEATED \<or> PB_HTYPE (f_type (it_field it)) = PB_HTYPE_ONEOF"
  shows "frame S w (set_count (pSize it) n w)"
  using assms by (auto simp: fits_field_def set_count_def frame_pokes Let_def split: size_ref.splits)

lemma frame_has:
  assumes "fits_field sub env S it" and "PB_HTYPE (f_type (it_field it)) = PB_HTYPE_OPTIONAL" and "pSize it \<noteq> At (pData it)"
  shows "frame S w (set_has (pSize it) b w)"
  using assms by (auto simp: fits_field_def set_has_def frame_pokes Let_def split: size_ref.splits)

text \<open>What a field may write at one of its places.\<close>

lemma place_area: "fits_field sub env S it \<Longrightarrow> p \<in> set (places it) \<Longrightarrow> area p (value_len (it_field it)) \<subseteq> S"
  by (simp add: fits_field_def Let_def)

lemma place_data: "fits_field sub env S it \<Longrightarrow> p \<in> set (places it) \<Longrightarrow> area p (unat (data_size (it_field it))) \<subseteq> S"
  using place_area value_len_ge area_mono by blast

lemma place_sub:
  "fits_field sub env S it \<Longrightarrow> p \<in> set (places it) \<Longrightarrow> PB_LTYPE (f_type (it_field it)) = PB_LTYPE_SUBMESSAGE \<Longrightarrow>
   sub (dec_tables env (f_ptr (it_field it))) p"
  by (simp add: fits_field_def Let_def)

lemma only_place: "PB_HTYPE (f_type (it_field it)) \<noteq> PB_HTYPE_REPEATED \<Longrightarrow> pData it \<in> set (places it)"
  by (simp add: places_def)

lemma item_place:
  assumes "PB_HTYPE (f_type (it_field it)) = PB_HTYPE_REPEATED" and "cnt < array_size (it_field it)"
  shows "item_at (pData it) (it_field it) cnt \<in> set (places it)"
proof -
  have "unat cnt \<in> set [0..<unat (array_size (it_field it))]" using assms(2) by (simp add: word_less_nat_alt)
  then have "item_at (pData it) (it_field it) (word_of_nat (unat cnt)) \<in> set (places it)"
    unfolding places_def assms(1) by (simp only: if_True refl set_map) (rule imageI)
  then show ?thesis by simp
qed

lemma fits_static: "fits_field sub env S it \<Longrightarrow> PB_ATYPE (f_type (it_field it)) = PB_ATYPE_STATIC \<and> PB_LTYPE (f_type (it_field it)) \<noteq> PB_LTYPE_EXTENSION"
  by (simp add: fits_field_def Let_def)

lemma defaults_keep:
  "fits n env S tbl dest \<Longrightarrow> pb_message_set_to_defaults m env tbl dest w = Some w' \<Longrightarrow> frame S w w'"
proof (induction n arbitrary: m tbl dest w w')
  case (Suc n)
  show ?case
  proof (rule over_fields_keeps [OF _ Suc.prems(2) [unfolded pb_message_set_to_defaults_def]])
    fix it :: pb_field_iter and w w' :: "'a pb_world"
    assume it: "it \<in> set (iters tbl dest)" and r: "pb_field_set_to_default m env it w = Some w'"
    let ?f = "it_field it" and ?ht = "PB_HTYPE (f_type (it_field it))"
    obtain k where m: "m = Suc k" using r by (cases m) auto
    have fits: "fits_field (fits n env S) env S it" using Suc.prems(1) it unfolding fits.simps list_all_iff by blast
    note st = fits_static [OF fits]
    have init: "?ht \<noteq> PB_HTYPE_REPEATED \<Longrightarrow> init_static (pb_field_set_to_default k env) env it v = Some v' \<Longrightarrow> frame S v v'" for v v'
    proof -
      assume ht: "?ht \<noteq> PB_HTYPE_REPEATED" and i: "init_static (pb_field_set_to_default k env) env it v = Some v'"
      note p = only_place [OF ht]
      show "frame S v v'"
        using i Suc.IH [OF place_sub [OF fits p]] place_data [OF fits p]
        by (auto simp: init_static_def pb_message_set_to_defaults_def Let_def frame_pokes intro!: frame_poke simp: bytes_at_def split: if_splits)
    qed
    consider "?ht = PB_HTYPE_OPTIONAL" "pSize it \<noteq> At (pData it)" | "?ht = PB_HTYPE_REPEATED \<or> ?ht = PB_HTYPE_ONEOF"
      | "?ht \<noteq> PB_HTYPE_REPEATED" "\<not> (?ht = PB_HTYPE_OPTIONAL \<and> pSize it \<noteq> At (pData it))" "?ht \<noteq> PB_HTYPE_ONEOF"
      by blast
    then show "frame S w w'"
    proof cases
      case 1
      then have "init_static (pb_field_set_to_default k env) env it (set_has (pSize it) False w) = Some w'"
        using r st by (simp add: m Let_def)
      then have "frame S (set_has (pSize it) False w) w'" using init 1 htype_distinct by metis
      then show ?thesis by (rule frame_trans [OF frame_has [OF fits 1]])
    next
      case 2
      then have "w' = set_count (pSize it) 0 w" using r st htype_distinct by (auto simp: m Let_def)
      then show ?thesis using frame_count [OF fits 2] by simp
    next
      case 3
      then have "init_static (pb_field_set_to_default k env) env it w = Some w'" using r st by (auto simp: m Let_def)
      then show ?thesis using init 3 by blast
    qed
  qed
qed simp

section \<open>Releasing static messages changes nothing\<close>

definition static_field :: "(pb_field list \<Rightarrow> bool) \<Rightarrow> 'h pb_denv \<Rightarrow> pb_field \<Rightarrow> bool" where
  "static_field sub env f \<longleftrightarrow>
     PB_ATYPE (f_type f) = PB_ATYPE_STATIC \<and> PB_LTYPE (f_type f) \<noteq> PB_LTYPE_EXTENSION \<and>
     PB_LTYPE (f_type f) \<le> PB_LTYPE_FIXED_LENGTH_BYTES \<and>
     (PB_LTYPE (f_type f) = PB_LTYPE_SUBMESSAGE \<longrightarrow> sub (dec_tables env (f_ptr f)))"

lemma plain_at: "plain (Suc n) env tbl \<Longrightarrow> start it = tbl \<Longrightarrow> static_field (plain n env) env (it_field it)"
  by (auto simp: static_field_def list_all_iff it_field_def field_at_def PB_LAST_FIELD_def PB_ATYPE_def PB_ATYPE_STATIC_def
      PB_LTYPE_def PB_LTYPE_EXTENSION_def PB_LTYPE_SUBMESSAGE_def)

lemma release_items_same:
  "(\<And>p w w'. release_message rel tbl p w = Some w' \<Longrightarrow> w' = w) \<Longrightarrow> release_items rel tbl step k p w = Some w' \<Longrightarrow> w' = w"
proof (induction k arbitrary: p w)
  case (Suc k)
  then obtain v where v: "release_message rel tbl p w = Some v" "release_items rel tbl step k (p + step) v = Some w'"
    by (auto simp: bind_eq_Some_conv)
  show ?case using Suc.IH [OF Suc.prems(1) v(2)] Suc.prems(1) [OF v(1)] by simp
qed simp

lemma release_same:
  "plain n env (start it) \<Longrightarrow> pb_release_single_field m env it w = Some w' \<Longrightarrow> w' = w"
proof (induction n arbitrary: m it w w')
  case (Suc n)
  obtain k where m: "m = Suc k" using Suc.prems(2) by (cases m) auto
  let ?f = "it_field it" and ?rel = "pb_release_single_field k env"
  note st = plain_at [OF Suc.prems(1) refl, unfolded static_field_def]
  have distinct: "PB_ATYPE_STATIC \<noteq> PB_ATYPE_POINTER" by (simp add: PB_ATYPE_STATIC_def PB_ATYPE_POINTER_def)
  have msg: "release_message ?rel (dec_tables env (f_ptr ?f)) p v = Some v' \<Longrightarrow> v' = v"
    if "PB_LTYPE (f_type ?f) = PB_LTYPE_SUBMESSAGE" for p v v'
  proof -
    assume r: "release_message ?rel (dec_tables env (f_ptr ?f)) p v = Some v'"
    have "plain n env (start it')" if "it' \<in> set (iters (dec_tables env (f_ptr ?f)) p)" for it'
      using iters_same [OF that] st \<open>PB_LTYPE (f_type ?f) = PB_LTYPE_SUBMESSAGE\<close> by simp
    from over_fields_same [OF Suc.IH [OF this]] show "v' = v"
      using r by (auto simp: release_message_def split: if_splits)
  qed
  show ?case
    using Suc.prems(2) st distinct release_items_same [OF msg]
    by (auto simp: m Let_def bind_eq_Some_conv split: if_splits)
qed simp

lemma pb_release_same:
  assumes "plain n env tbl" and "pb_release m env tbl dest w = Some w'"
  shows "w' = w"
proof -
  have "plain n env (start it)" if "it \<in> set (iters tbl dest)" for it
    using iters_same [OF that] assms(1) by simp
  from over_fields_same [OF release_same [OF this]] show ?thesis
    using assms(2) by (auto simp: pb_release_def release_message_def split: if_splits)
qed

section \<open>Decoding stays in the message\<close>

lemma frame_closed: "close_substream st s sub v = Some (ok, s', w') \<Longrightarrow> w' = v"
  by (auto simp: close_substream_def split: prod.splits)

lemma keeps_submessage:
  assumes "keeps S (full (dec_tables env (f_ptr field)) dest)" and "keeps S (noinit (dec_tables env (f_ptr field)) dest)"
  shows "keeps S (pb_dec_submessage full noinit env field dest)"
proof (rule keepsI)
  fix s ok s' and w w' :: "'a pb_world"
  assume r: "pb_dec_submessage full noinit env field dest s w = Some (ok, s', w')"
  show "frame S w w'"
  proof (cases "w' = w")
    case False
    then obtain sub s1 st t v where
      d: "full (dec_tables env (f_ptr field)) dest sub w = Some (st, t, v) \<or> noinit (dec_tables env (f_ptr field)) dest sub w = Some (st, t, v)"
      and c: "close_substream st s1 t v = Some (ok, s', w')"
      using r by (fastforce simp: pb_dec_submessage_def rd_error_def elim!: read_then_SomeE split: if_splits option.splits prod.splits)
    then show ?thesis using keepsD [OF assms(1)] keepsD [OF assms(2)] frame_closed [OF c] by blast
  qed simp
qed

definition sub_keeps :: "addr set \<Rightarrow> (pb_field list \<Rightarrow> addr \<Rightarrow> bool) \<Rightarrow> 'h message_decoder \<Rightarrow> bool" where
  "sub_keeps S sub dec \<longleftrightarrow> (\<forall>tbl dest. sub tbl dest \<longrightarrow> keeps S (dec tbl dest))"

lemma keeps_value:
  assumes fits: "fits_field sub env S it" and full: "sub_keeps S sub full" and noinit: "sub_keeps S sub noinit"
    and p: "p \<in> set (places it)"
  shows "keeps S (dec_field full noinit env it p)"
proof -
  let ?f = "it_field it"
  note st = fits_static [OF fits, THEN conjunct1]
  have len: "k \<le> value_len ?f \<Longrightarrow> area p k \<subseteq> S" for k using place_area [OF fits p] area_mono by blast
  note data = place_data [OF fits p]
  have scalar: "PB_LTYPE (f_type ?f) = PB_LTYPE_BOOL \<Longrightarrow> keeps S (pb_dec_bool p)"
    "PB_LTYPE (f_type ?f) = PB_LTYPE_FIXED32 \<Longrightarrow> keeps S (pb_dec_fixed32 p)"
    "PB_LTYPE (f_type ?f) = PB_LTYPE_FIXED64 \<Longrightarrow> keeps S (pb_dec_fixed64 p)"
    by (auto intro!: keeps_fixed len simp: value_len_def PB_LTYPE_BOOL_def PB_LTYPE_FIXED32_def PB_LTYPE_FIXED64_def)
  have sub: "PB_LTYPE (f_type ?f) = PB_LTYPE_SUBMESSAGE \<Longrightarrow> keeps S (pb_dec_submessage full noinit env ?f p)"
    using place_sub [OF fits p] full noinit by (auto intro!: keeps_submessage simp: sub_keeps_def)
  show ?thesis
    unfolding dec_field_def
    using scalar sub keeps_integers [OF data] keeps_bytes [OF data st, of env] keeps_string [OF data st, of env] keeps_fixed_length [OF data]
    by (intro keepsI) (auto simp: PB_DECODERS_def dest: keepsD split: if_splits)
qed

lemma keeps_packed_loop:
  assumes fits: "fits_field sub env S it" and ht: "PB_HTYPE (f_type (it_field it)) = PB_HTYPE_REPEATED"
    and func: "\<And>p. p \<in> set (places it) \<Longrightarrow> keeps S (func p)"
  shows "static_packed_loop k func it s w = Some (ok, s', w') \<Longrightarrow> frame S w w'"
proof (induction k arbitrary: s w)
  case (Suc k)
  let ?cnt = "get_count (pSize it) w"
  show ?case
  proof (cases "bytes_left s > 0 \<and> ?cnt < array_size (it_field it)")
    case True
    then obtain ok1 s1 w1 where f: "func (item_at (pData it) (it_field it) ?cnt) s w = Some (ok1, s1, w1)"
      using Suc.prems by (auto simp: Let_def split: option.splits)
    then have 1: "frame S w w1" using keepsD [OF func] item_place [OF ht] True by blast
    show ?thesis
    proof (cases ok1)
      case False
      then show ?thesis using Suc.prems True f 1 by (simp add: Let_def)
    next
      case ok: True
      then have "static_packed_loop k func it s1 (set_count (pSize it) (get_count (pSize it) w1 + 1) w1) = Some (ok, s', w')"
        using Suc.prems True f by (simp add: Let_def)
      from Suc.IH [OF this] have "frame S (set_count (pSize it) (get_count (pSize it) w1 + 1) w1) w'" .
      then show ?thesis using frame_count [OF fits] ht 1 frame_trans by blast
    qed
  qed (use Suc.prems in \<open>auto simp: Let_def\<close>)
qed simp

lemma keeps_static_field:
  assumes fits: "fits_field (fits n env S) env S it" and full: "sub_keeps S (fits n env S) full" and noinit: "sub_keeps S (fits n env S) noinit"
  shows "keeps S (decode_static_field m full noinit env wt it)"
proof (rule keepsI)
  fix s ok s' and w w' :: "'a pb_world"
  assume r: "decode_static_field m full noinit env wt it s w = Some (ok, s', w')"
  let ?f = "it_field it" and ?ht = "PB_HTYPE (f_type (it_field it))" and ?func = "dec_field full noinit env it"
  note val_keep = keepsD [OF keeps_value [OF fits full noinit]]
  consider "?ht = PB_HTYPE_REQUIRED" | "?ht = PB_HTYPE_OPTIONAL" | "?ht = PB_HTYPE_REPEATED" | "?ht = PB_HTYPE_ONEOF"
    using htypes [of "f_type ?f"] by blast
  then show "frame S w w'"
  proof cases
    case 1
    then have "?func (pData it) s w = Some (ok, s', w')" using r by (simp add: decode_static_field_def Let_def)
    then show ?thesis using val_keep only_place [of it] 1 htype_distinct by metis
  next
    case 2
    let ?w = "if pSize it \<noteq> At (pData it) then set_has (pSize it) True w else w"
    have "?func (pData it) s ?w = Some (ok, s', w')" using r 2 htype_distinct by (simp add: decode_static_field_def Let_def)
    then have "frame S ?w w'" using val_keep only_place [of it] 2 htype_distinct by metis
    moreover have "frame S w ?w" using frame_has [OF fits 2, of w True] by (cases "pSize it = At (pData it)") simp_all
    ultimately show ?thesis using frame_trans by blast
  next
    case 3
    show ?thesis
    proof (cases "wt = PB_WT_STRING \<and> is_packable ?f")
      case True
      then have "read_then (pb_make_string_substream s) w (\<lambda>substream s.
             case static_packed_loop m ?func it substream w of
               None \<Rightarrow> None
             | Some (status, substream, w) \<Rightarrow>
                 if bytes_left substream \<noteq> 0 then rd_error ''array overflow'' s w
                 else close_substream status s substream w) = Some (ok, s', w')"
        using r 3 htype_distinct by (simp add: decode_static_field_def Let_def)
      then show ?thesis
      proof (elim read_then_SomeE)
        fix sub s1
        assume "(case static_packed_loop m ?func it sub w of
               None \<Rightarrow> None
             | Some (status, substream, w) \<Rightarrow>
                 if bytes_left substream \<noteq> 0 then rd_error ''array overflow'' s1 w
                 else close_substream status s1 substream w) = Some (ok, s', w')"
        then obtain st t v where l: "static_packed_loop m ?func it sub w = Some (st, t, v)"
          and "w' = v" by (auto simp: rd_error_def split: option.splits if_splits dest!: frame_closed)
        then show ?thesis using keeps_packed_loop [OF fits 3 keeps_value [OF fits full noinit] l] by simp
      qed simp
    next
      case False
      let ?cnt = "get_count (pSize it) w"
      let ?w = "set_count (pSize it) (?cnt + 1) w"
      have d: "(if ?cnt \<ge> array_size ?f then rd_error ''array overflow'' s ?w else ?func (item_at (pData it) ?f ?cnt) s ?w) = Some (ok, s', w')"
        using r 3 False htype_distinct by (auto simp: decode_static_field_def Let_def)
      have c: "frame S w ?w" using frame_count [OF fits] 3 by blast
      show ?thesis
      proof (cases "?cnt \<ge> array_size ?f")
        case True
        then show ?thesis using d c by (simp add: rd_error_def)
      next
        case False
        have f: "?func (item_at (pData it) ?f ?cnt) s ?w = Some (ok, s', w')" using d unfolding if_not_P [OF False] by simp
        have "?cnt < array_size ?f" using False by (simp add: not_le)
        then have "frame S ?w w'" using val_keep [OF item_place [OF 3] f] by simp
        then show ?thesis by (rule frame_trans [OF c])
      qed
    qed
  next
    case 4
    let ?w = "set_count (pSize it) (f_tag ?f) w" and ?n = "unat (data_size ?f)"
    have p: "pData it \<in> set (places it)" using only_place 4 htype_distinct by metis
    have c: "frame S w ?w" using frame_count [OF fits] 4 by blast
    have d: "(if PB_LTYPE (f_type ?f) = PB_LTYPE_SUBMESSAGE then
          (case pb_message_set_to_defaults m env (dec_tables env (f_ptr ?f)) (pData it) (zero_fill (pData it) ?n ?w) of
            None \<Rightarrow> None | Some w \<Rightarrow> ?func (pData it) s w)
        else ?func (pData it) s ?w) = Some (ok, s', w')"
      using r 4 htype_distinct by (auto simp: decode_static_field_def Let_def)
    show ?thesis
    proof (cases "PB_LTYPE (f_type ?f) = PB_LTYPE_SUBMESSAGE")
      case True
      then obtain v where v: "pb_message_set_to_defaults m env (dec_tables env (f_ptr ?f)) (pData it) (zero_fill (pData it) ?n ?w) = Some v"
        and f: "?func (pData it) s v = Some (ok, s', w')" using d by (auto split: option.splits)
      have "frame S ?w (zero_fill (pData it) ?n ?w)" by (rule frame_pokes(3) [OF place_data [OF fits p]])
      moreover have "frame S (zero_fill (pData it) ?n ?w) v" using defaults_keep [OF place_sub [OF fits p True] v] .
      ultimately show ?thesis using val_keep [OF p f] c frame_trans by meson
    next
      case False
      then show ?thesis using val_keep [OF p] d c frame_trans by (metis (full_types))
    qed
  qed
qed

lemma union_release:
  assumes p: "plain k env (start it)" and n: "near tbl dest it"
    and r: "pb_release_union_field n env it s w = Some (it', ok, s', w')"
  shows "w' = w \<and> near tbl dest it'"
proof -
  let ?old = "get_count (pSize it) w" and ?new = "f_tag (it_field it)"
  obtain it1 f1 where 1: "pb_field_iter_find it ?old = (it1, f1)" by fastforce
  then have n1: "near tbl dest it1" using near_find [OF n, of ?old] by simp
  obtain it2 f2 where 2: "pb_field_iter_find it1 ?new = (it2, f2)" by fastforce
  then have n2: "near tbl dest it2" using near_find [OF n1, of ?new] by simp
  have "start it1 = start it"
    using n n1 iters_same unfolding near_def by fastforce
  then have "pb_release_single_field n env it1 w = Some v \<Longrightarrow> v = w" for v using release_same p by metis
  then show ?thesis using r 1 2 n n1 n2
    by (auto simp: pb_release_union_field_def Let_def split: if_splits option.splits bool.splits)
qed

lemma near_start: "near tbl dest it \<Longrightarrow> start it = tbl"
  using iters_same unfolding near_def by fastforce

lemma decode_field_keeps:
  assumes fits: "fits (Suc n) env S tbl dest" and near: "near tbl dest it"
    and full: "sub_keeps S (fits n env S) full" and noinit: "sub_keeps S (fits n env S) noinit"
    and r: "decode_field m full noinit env wt it s w = Some (it', ok, s', w')"
  shows "frame S w w' \<and> near tbl dest it'"
proof -
  have p': "plain (Suc n) env (start it)" using fits near_start [OF near] unfolding fits.simps by blast
  obtain it1 ok1 s1 w1 where
    u: "(if PB_HTYPE (f_type (it_field it)) = PB_HTYPE_ONEOF then pb_release_union_field m env it s w else Some (it, True, s, w)) = Some (it1, ok1, s1, w1)"
    using r by (auto simp: decode_field_def split: option.splits)
  then have 1: "w1 = w" "near tbl dest it1" using union_release [OF p' near] near by (auto split: if_splits)
  show ?thesis
  proof (cases ok1)
    case False
    then show ?thesis using r u 1 by (auto simp: decode_field_def)
  next
    case True
    note f = fits_near [OF fits 1(2)]
    have "decode_by_atype m full noinit env wt it1 s1 w1 = Some (ok, s', w')" "it' = it1"
      using r u True by (auto simp: decode_field_def)
    moreover have "decode_by_atype m full noinit env wt it1 = decode_static_field m full noinit env wt it1"
      using fits_static [OF f] by (auto simp: decode_by_atype_def Let_def fun_eq_iff)
    ultimately show ?thesis using keepsD [OF keeps_static_field [OF f full noinit]] 1 by metis
  qed
qed

lemma no_extension:
  assumes "fits (Suc n) env S tbl dest" and "near tbl dest it"
  shows "\<not> snd (find_extension_field it)"
proof -
  have "near tbl dest it \<Longrightarrow> \<not> snd (find_loop k (\<lambda>f. PB_LTYPE (f_type f) = PB_LTYPE_EXTENSION) first it)" for k first it
    using fits_static [OF fits_near [OF assms(1)]] near_next
    by (induction k arbitrary: it) (auto simp: Let_def)
  then show ?thesis using assms(2) unfolding find_extension_field_def by blast
qed

lemma tag_small: "pb_decode_tag s = (Some (wt, tag), e, s') \<Longrightarrow> tag \<noteq> -1"
proof -
  assume "pb_decode_tag s = (Some (wt, tag), e, s')"
  then obtain temp :: uint32 where t: "tag = drop_bit 3 temp"
    by (auto simp: pb_decode_tag_def split: prod.splits option.splits if_splits)
  have "\<not> bit (drop_bit 3 temp) 31" by (auto simp: bit_drop_bit_eq dest: bit_imp_le_length)
  moreover have "bit (-1 :: uint32) 31" by simp
  ultimately show ?thesis using t by metis
qed

lemma known_field_keeps:
  assumes fits: "fits (Suc n) env S tbl dest" and near: "near tbl dest (d_iter d)"
    and full: "sub_keeps S (fits n env S) full" and noinit: "sub_keeps S (fits n env S) noinit"
    and r: "known_field m full noinit env wt d s w = Some (d', ok, s', w')"
  shows "frame S w w' \<and> near tbl dest (d_iter d')"
proof -
  let ?it = "d_iter d"
  let ?fixed = "PB_HTYPE (f_type (it_field ?it)) = PB_HTYPE_REPEATED \<and> pSize ?it = At (pData ?it)"
  let ?fresh = "?fixed \<and> fixed_count_field d \<noteq> Some (pos ?it)"
  let ?w = "if ?fresh then w\<lparr>w_local := 0\<rparr> else w" and ?it1 = "if ?fixed then ?it\<lparr>pSize := Local\<rparr> else ?it"
  have near1: "near tbl dest ?it1" using near near_local by simp
  show ?thesis
  proof (cases "?fresh \<and> fixed_count_wrong d w")
    case True
    then show ?thesis using r near by (auto simp: known_field_def Let_def)
  next
    case False
    then obtain it2 where "decode_field m full noinit env wt ?it1 s ?w = Some (it2, ok, s', w')" and d: "d_iter d' = it2"
      using r by (auto simp: known_field_def Let_def split: option.splits)
    from decode_field_keeps [OF fits near1 full noinit this(1)] show ?thesis by (auto simp: d split: if_splits)
  qed
qed

lemma unknown_field_same:
  assumes fits: "fits (Suc n) env S tbl dest" and near: "near tbl dest (d_iter d)" and tag: "tag \<noteq> -1"
    and r: "unknown_field m full noinit env tag wt d s w = Some (d', ok, s', w')"
  shows "w' = w \<and> near tbl dest (d_iter d')"
proof -
  obtain it where it: "find_extension_field (d_iter d) = (it, False)"
    using no_extension [OF fits near] by (metis (full_types) prod.collapse)
  then have "near tbl dest it" using near_find_extension [OF near] by simp
  moreover have "\<not> tag \<ge> -1" using tag by (simp add: word_order.extremum_unique)
  ultimately show ?thesis using r near it
    by (auto simp: unknown_field_def Let_def split: if_splits prod.splits)
qed

lemma noinit_loop_keeps:
  assumes fits: "fits (Suc n) env S tbl dest"
    and full: "sub_keeps S (fits n env S) full" and noinit: "sub_keeps S (fits n env S) noinit"
  shows "near tbl dest (d_iter d) \<Longrightarrow> noinit_loop j m full noinit env d s w = Some (ok, s', w') \<Longrightarrow> frame S w w'"
proof (induction j arbitrary: d s w)
  case (Suc j)
  have finish: "decode_finish d t v = Some (ok, s', w') \<Longrightarrow> w' = v" for d t v
    by (auto simp: decode_finish_def rd_error_def split: if_splits)
  obtain r e s1 where t: "pb_decode_tag s = (r, e, s1)" by (cases "pb_decode_tag s")
  show ?case
  proof (cases "bytes_left s = 0 \<or> r = None")
    case True
    then have "w' = w" using Suc.prems(2) t finish [of d s w] finish [of d s1 w] by (auto split: if_splits)
    then show ?thesis by simp
  next
    case False
    then obtain wt tag where r: "r = Some (wt, tag)" by auto
    obtain it found where f: "pb_field_iter_find (d_iter d) tag = (it, found)" by fastforce
    let ?d = "d\<lparr>d_iter := it\<rparr>"
    have near: "near tbl dest (d_iter ?d)" using near_find [OF Suc.prems(1), of tag] f by simp
    obtain d2 ok2 s2 w2 where
      step: "(if found then known_field m full noinit env wt ?d s1 w else unknown_field m full noinit env tag wt ?d s1 w) = Some (d2, ok2, s2, w2)"
      and rest: "(if ok2 then noinit_loop j m full noinit env d2 s2 w2 else Some (False, s2, w2)) = Some (ok, s', w')"
      using Suc.prems(2) False t r f by (auto simp: Let_def split: option.splits prod.splits)
    have 2: "frame S w w2 \<and> near tbl dest (d_iter d2)"
    proof (cases found)
      case True
      then show ?thesis using step known_field_keeps [OF fits near full noinit] by simp
    next
      case False
      then have "w2 = w \<and> near tbl dest (d_iter d2)"
        using step unknown_field_same [OF fits near tag_small [OF t [unfolded r]]] by simp
      then show ?thesis by simp
    qed
    show ?thesis
    proof (cases ok2)
      case True
      then show ?thesis using Suc.IH [of d2 s2 w2] rest 2 frame_trans by auto
    next
      case False
      then show ?thesis using rest 2 by simp
    qed
  qed
qed simp

lemma release_keeps:
  assumes "keeps S (noinit tbl dest)" and fits: "fits n env S tbl dest"
  shows "keeps S (decode_and_release m env noinit tbl dest)"
proof (rule keepsI)
  fix s ok s' and w w' :: "'a pb_world"
  assume r: "decode_and_release m env noinit tbl dest s w = Some (ok, s', w')"
  have plain: "plain n env tbl" using fits by (cases n) auto
  obtain v st t u where v: "pb_message_set_to_defaults m env tbl dest w = Some v" and u: "noinit tbl dest s v = Some (st, t, u)"
    using r by (auto simp: decode_and_release_def split: option.splits)
  then have "w' = u" using r pb_release_same [OF plain] by (auto simp: decode_and_release_def split: if_splits)
  then show "frame S w w'" using defaults_keep [OF fits v] keepsD [OF assms(1) u] frame_trans by blast
qed

lemma decode_keeps: "fits n env S tbl dest \<Longrightarrow> keeps S (pb_decode_noinit m env tbl dest)"
proof (induction m arbitrary: n tbl dest)
  case 0
  then show ?case by (simp add: keeps_def)
next
  case (Suc m)
  obtain k where n: "n = Suc k" using Suc.prems by (cases n) auto
  have noinit: "sub_keeps S (fits k env S) (pb_decode_noinit m env)" using Suc.IH by (simp add: sub_keeps_def)
  have full: "sub_keeps S (fits k env S) (decode_and_release m env (pb_decode_noinit m env))"
    unfolding sub_keeps_def by (intro allI impI release_keeps) (rule Suc.IH, assumption+)
  show ?case
  proof (rule keepsI)
    fix s ok s' and w w' :: "'a pb_world"
    assume "pb_decode_noinit (Suc m) env tbl dest s w = Some (ok, s', w')"
    then obtain v where "noinit_loop m m (decode_and_release m env (pb_decode_noinit m env)) (pb_decode_noinit m env) env
          \<lparr>d_iter = fst (pb_field_iter_begin tbl dest), fields_seen = [0, 0], extension_range_start = 0, fixed_count_field = None\<rparr>
          s (w\<lparr>w_local := 0\<rparr>) = Some (ok, s', v)" "w' = v\<lparr>w_local := w_local w\<rparr>"
      by auto
    then show "frame S w w'"
      using noinit_loop_keeps [OF Suc.prems [unfolded n] full noinit] near_begin by (metis decode_state.select_convs(1) frame_local)
  qed
qed

end
