(* ===== verification/PbTotal.thy ===== *)
theory PbTotal
  imports PbSafe
begin

text \<open>
  The decoder returns: every field and every item takes at least one byte of the stream, so the
  loops end before it is used up, and messages nest no deeper than their tables. The theory ends
  with the properties of the decoder on static messages.
\<close>

section \<open>Decoding consumes its input\<close>

lemma readbyte_left: "pb_readbyte s = (r, s') \<Longrightarrow> bytes_left s' \<le> bytes_left s \<and> (r \<noteq> None \<longrightarrow> bytes_left s' < bytes_left s)"
  by (auto simp: pb_readbyte_def buf_read_def set_ierror_def split: if_splits)

lemma read_left: "pb_read n s = (r, s') \<Longrightarrow> bytes_left s' \<le> bytes_left s \<and> (r \<noteq> None \<longrightarrow> bytes_left s' = bytes_left s - n \<and> n \<le> bytes_left s)"
  by (auto simp: pb_read_def buf_read_def set_ierror_def split: if_splits)

lemma varint32_loop_left: "varint32_loop res p s = (r, s') \<Longrightarrow> bytes_left s' \<le> bytes_left s"
proof (induction "bytes_left s" arbitrary: res p s rule: less_induct)
  case less
  obtain b s1 where b: "pb_readbyte s = (b, s1)" by fastforce
  note left = readbyte_left [OF b]
  have rec: "b \<noteq> None \<Longrightarrow> varint32_loop res' p' s1 = (r, s') \<Longrightarrow> bytes_left s' \<le> bytes_left s1" for res' p'
    using less.hyps left by blast
  show ?case using less.prems b left rec
    by (subst (asm) varint32_loop.simps) (force simp: Let_def set_ierror_def split: option.splits if_splits)
qed

lemma varint_read_loop_left: "varint_read_loop res p s = (r, s') \<Longrightarrow> bytes_left s' \<le> bytes_left s \<and> (r \<noteq> None \<longrightarrow> bytes_left s' < bytes_left s)"
proof (induction "bytes_left s" arbitrary: res p s rule: less_induct)
  case less
  obtain b s1 where b: "pb_readbyte s = (b, s1)" by fastforce
  note left = readbyte_left [OF b]
  have rec: "b \<noteq> None \<Longrightarrow> varint_read_loop res' p' s1 = (r, s') \<Longrightarrow> bytes_left s' \<le> bytes_left s1" for res' p'
    using less.hyps left by blast
  show ?case using less.prems b left rec
    by (subst (asm) varint_read_loop.simps) (force simp: Let_def set_ierror_def split: option.splits if_splits)
qed

lemma varint32_eof_left:
  "pb_decode_varint32_eof s = (r, e, s') \<Longrightarrow> bytes_left s' \<le> bytes_left s \<and> (r \<noteq> None \<longrightarrow> bytes_left s' < bytes_left s)"
proof -
  assume r: "pb_decode_varint32_eof s = (r, e, s')"
  obtain b s1 where b: "pb_readbyte s = (b, s1)" by fastforce
  note left = readbyte_left [OF b]
  have rec: "varint32_loop res' p' s1 = (q, t) \<Longrightarrow> bytes_left t \<le> bytes_left s1" for res' p' q t
    by (rule varint32_loop_left)
  show ?thesis using r b left
    by (auto simp: pb_decode_varint32_eof_def dest!: rec split: option.splits if_splits prod.splits)
qed

lemma varint32_left: "pb_decode_varint32 s = (r, s') \<Longrightarrow> bytes_left s' \<le> bytes_left s \<and> (r \<noteq> None \<longrightarrow> bytes_left s' < bytes_left s)"
  by (auto simp: pb_decode_varint32_def dest!: varint32_eof_left split: prod.splits)

lemma varint_left: "pb_decode_varint s = (r, s') \<Longrightarrow> bytes_left s' \<le> bytes_left s \<and> (r \<noteq> None \<longrightarrow> bytes_left s' < bytes_left s)"
  unfolding pb_decode_varint_def by (rule varint_read_loop_left)

lemma svarint_left: "pb_decode_svarint s = (r, s') \<Longrightarrow> bytes_left s' \<le> bytes_left s \<and> (r \<noteq> None \<longrightarrow> bytes_left s' < bytes_left s)"
  by (auto simp: pb_decode_svarint_def dest!: varint_left split: prod.splits option.splits)

lemma tag_left: "pb_decode_tag s = (r, e, s') \<Longrightarrow> bytes_left s' \<le> bytes_left s \<and> (r \<noteq> None \<longrightarrow> bytes_left s' < bytes_left s)"
  by (auto simp: pb_decode_tag_def dest!: varint32_eof_left split: prod.splits option.splits if_splits)

lemma fixed_left:
  "pb_decode_fixed32 s = (r, s') \<Longrightarrow> bytes_left s' \<le> bytes_left s \<and> (r \<noteq> None \<longrightarrow> bytes_left s' < bytes_left s)"
  "pb_decode_fixed64 s = (u, s') \<Longrightarrow> bytes_left s' \<le> bytes_left s \<and> (u \<noteq> None \<longrightarrow> bytes_left s' < bytes_left s)"
  by (auto simp: pb_decode_fixed32_def pb_decode_fixed64_def dest!: read_left split: prod.splits option.splits)

lemma substream_left:
  "pb_make_string_substream s = (r, s') \<Longrightarrow>
   bytes_left s' \<le> bytes_left s \<and> (\<forall>sub. r = Some sub \<longrightarrow> bytes_left s' < bytes_left s \<and> bytes_left sub < bytes_left s)"
  by (auto simp: pb_make_string_substream_def set_ierror_def dest!: varint32_left split: prod.splits option.splits if_splits)

lemma close_left: "close_substream st s sub v = Some (ok, s', w') \<Longrightarrow> bytes_left s' = bytes_left s"
  by (auto simp: close_substream_def pb_close_string_substream_def split: prod.splits bool.splits)

lemma skip_varint_left: "pb_skip_varint s = (ok, s') \<Longrightarrow> bytes_left s' \<le> bytes_left s"
proof (induction "bytes_left s" arbitrary: s rule: less_induct)
  case less
  obtain b s1 where b: "pb_read 1 s = (b, s1)" by fastforce
  note left = read_left [OF b]
  have rec: "bytes_left s' \<le> bytes_left s1" if "b \<noteq> None" "pb_skip_varint s1 = (ok, s')"
    using less.hyps [OF _ that(2)] left that(1) by simp
  show ?case using less.prems b left rec
    by (subst (asm) pb_skip_varint.simps) (force split: option.splits if_splits)
qed

lemma skip_left: "pb_skip_field wt s = (ok, s') \<Longrightarrow> bytes_left s' \<le> bytes_left s"
  by (auto simp: pb_skip_field_def skip_bytes_def pb_skip_string_def set_ierror_def
      dest!: skip_varint_left read_left varint32_left split: if_splits prod.splits option.splits)

text \<open>The stream does not grow, and a success takes at least one byte.\<close>

definition eats :: "(pb_istream \<Rightarrow> 'h pb_world \<Rightarrow> 'h decoded) \<Rightarrow> bool" where
  "eats f \<longleftrightarrow> (\<forall>s w ok s' w'. f s w = Some (ok, s', w') \<longrightarrow> bytes_left s' \<le> bytes_left s \<and> (ok \<longrightarrow> bytes_left s' < bytes_left s))"

lemma eatsD: "eats f \<Longrightarrow> f s w = Some (ok, s', w') \<Longrightarrow> bytes_left s' \<le> bytes_left s \<and> (ok \<longrightarrow> bytes_left s' < bytes_left s)"
  unfolding eats_def by blast

lemma integer_left: "store_integer field dest v clamp s w = Some (ok, s', w') \<Longrightarrow> bytes_left s' = bytes_left s"
  by (auto simp: store_integer_def rd_error_def set_ierror_def Let_def split: if_splits)

lemma read_into_left: "read_into dest n s w = Some (ok, s', w') \<Longrightarrow> bytes_left s' \<le> bytes_left s"
  by (auto simp: read_into_def dest!: read_left elim!: read_then_SomeE)

lemma eats_scalars:
  "eats (pb_dec_bool dest)" "eats (pb_dec_varint field dest)" "eats (pb_dec_uvarint field dest)" "eats (pb_dec_svarint field dest)"
  "eats (pb_dec_fixed32 dest)" "eats (pb_dec_fixed64 dest)" "eats (pb_dec_fixed_length_bytes field dest)"
  unfolding eats_def pb_dec_bool_def pb_dec_varint_def pb_dec_uvarint_def pb_dec_svarint_def pb_dec_fixed32_def pb_dec_fixed64_def
    pb_dec_fixed_length_bytes_def Let_def
  by (auto simp: rd_error_def set_ierror_def elim!: read_then_SomeE split: if_splits
      dest!: varint32_left varint_left svarint_left fixed_left integer_left read_into_left)

lemma eats_static_bytes:
  assumes "PB_ATYPE (f_type field) = PB_ATYPE_STATIC"
  shows "eats (pb_dec_bytes env field dest)" "eats (pb_dec_string env field dest)"
proof -
  have np: "PB_ATYPE_STATIC \<noteq> PB_ATYPE_POINTER" by (simp add: PB_ATYPE_STATIC_def PB_ATYPE_POINTER_def)
  show "eats (pb_dec_bytes env field dest)" "eats (pb_dec_string env field dest)"
    unfolding eats_def pb_dec_bytes_def pb_dec_string_def read_string_into_def Let_def using assms np
    by (auto simp: rd_error_def set_ierror_def elim!: read_then_SomeE split: if_splits option.splits
        dest!: varint32_left read_into_left)
qed

lemma eats_submessage: "eats (pb_dec_submessage full noinit env field dest)"
  unfolding eats_def pb_dec_submessage_def
  by (auto simp: rd_error_def set_ierror_def elim!: read_then_SomeE dest!: substream_left close_left split: if_splits option.splits)

lemma eats_if: "(c \<Longrightarrow> eats f) \<Longrightarrow> (\<not> c \<Longrightarrow> eats g) \<Longrightarrow> eats (\<lambda>s w. if c then f s w else g s w)"
  by (cases c) simp_all

lemma eats_none: "eats (\<lambda>s w. None)"
  by (simp add: eats_def)

lemma eats_value: "PB_ATYPE (f_type (it_field it)) = PB_ATYPE_STATIC \<Longrightarrow> eats (dec_field full noinit env it p)"
  unfolding dec_field_def PB_DECODERS_def [abs_def]
  by (intro eats_if eats_scalars eats_static_bytes eats_submessage eats_none)

section \<open>Decoding returns\<close>

definition replies :: "nat \<Rightarrow> (pb_istream \<Rightarrow> 'h pb_world \<Rightarrow> 'h decoded) \<Rightarrow> bool" where
  "replies b f \<longleftrightarrow> (\<forall>s w. bytes_left s < b \<longrightarrow> f s w \<noteq> None)"

lemma repliesI: "(\<And>s w. bytes_left s < b \<Longrightarrow> f s w \<noteq> None) \<Longrightarrow> replies b f"
  unfolding replies_def by blast

lemma repliesD: "replies b f \<Longrightarrow> bytes_left s < b \<Longrightarrow> f s w \<noteq> None"
  unfolding replies_def by blast

lemma replies_0 [simp]: "replies 0 f"
  by (simp add: replies_def)

lemma rd_error_not_None [simp]: "rd_error msg s w \<noteq> None"
  by (simp add: rd_error_def)

lemma close_not_None [simp]: "close_substream st s sub w \<noteq> None"
  by (simp add: close_substream_def split: prod.splits)

lemma read_then_not_None: "(\<And>x s. r = (Some x, s) \<Longrightarrow> f x s \<noteq> None) \<Longrightarrow> read_then r w f \<noteq> None"
  by (cases r; cases "fst r") (auto simp: read_then_def)

lemma integer_not_None [simp]: "store_integer field dest v clamp s w \<noteq> None"
  by (simp add: store_integer_def Let_def del: not_None_eq)

lemma read_into_not_None [simp]: "read_into dest n s w \<noteq> None"
  unfolding read_into_def by (rule read_then_not_None) simp

lemma read_string_not_None [simp]: "read_string_into dest sz s w \<noteq> None"
  by (simp add: read_string_into_def del: not_None_eq split: option.splits)

lemma replies_if: "(c \<Longrightarrow> replies b f) \<Longrightarrow> (\<not> c \<Longrightarrow> replies b g) \<Longrightarrow> replies b (\<lambda>s w. if c then f s w else g s w)"
  by (cases c) simp_all

lemma replies_scalars:
  "replies b (pb_dec_bool dest)" "replies b (pb_dec_varint field dest)" "replies b (pb_dec_uvarint field dest)"
  "replies b (pb_dec_svarint field dest)" "replies b (pb_dec_fixed32 dest)" "replies b (pb_dec_fixed64 dest)"
  "replies b (pb_dec_fixed_length_bytes field dest)"
  unfolding pb_dec_bool_def pb_dec_varint_def pb_dec_uvarint_def pb_dec_svarint_def pb_dec_fixed32_def pb_dec_fixed64_def
    pb_dec_fixed_length_bytes_def Let_def
  by (intro repliesI read_then_not_None; simp del: not_None_eq)+

lemma replies_static_bytes:
  assumes "PB_ATYPE (f_type field) = PB_ATYPE_STATIC"
  shows "replies b (pb_dec_bytes env field dest)" "replies b (pb_dec_string env field dest)"
proof -
  have np: "PB_ATYPE (f_type field) \<noteq> PB_ATYPE_POINTER" using assms by (simp add: PB_ATYPE_STATIC_def PB_ATYPE_POINTER_def)
  show "replies b (pb_dec_bytes env field dest)" "replies b (pb_dec_string env field dest)"
    unfolding pb_dec_bytes_def pb_dec_string_def Let_def if_not_P [OF np]
    by (intro repliesI read_then_not_None; simp del: not_None_eq)+
qed

text \<open>Messages of a table are decoded from streams of fewer than so many bytes.\<close>

definition sub_replies :: "nat \<Rightarrow> (pb_field list \<Rightarrow> bool) \<Rightarrow> 'h message_decoder \<Rightarrow> bool" where
  "sub_replies b sub dec \<longleftrightarrow> (\<forall>tbl dest. sub tbl \<longrightarrow> replies b (dec tbl dest))"

lemma replies_submessage:
  assumes "replies b (full (dec_tables env (f_ptr field)) dest)" and "replies b (noinit (dec_tables env (f_ptr field)) dest)"
  shows "replies (Suc b) (pb_dec_submessage full noinit env field dest)"
proof (rule repliesI)
  fix s :: pb_istream and w :: "'a pb_world"
  assume s: "bytes_left s < Suc b"
  show "pb_dec_submessage full noinit env field dest s w \<noteq> None"
    unfolding pb_dec_submessage_def
  proof (rule read_then_not_None)
    fix sub s'
    assume m: "pb_make_string_substream s = (Some sub, s')"
    let ?d = "if PB_HTYPE (f_type field) = PB_HTYPE_REPEATED then full (dec_tables env (f_ptr field)) dest sub w
                else noinit (dec_tables env (f_ptr field)) dest sub w"
    have "bytes_left sub < b" using substream_left [OF m] s by simp
    then have "?d \<noteq> None" using repliesD [OF assms(1)] repliesD [OF assms(2)] by simp
    then show "(if f_ptr field = 0 then rd_error ''invalid field descriptor'' s' w
       else (case ?d of None \<Rightarrow> None | Some (status, substream, w) \<Rightarrow> close_substream status s' substream w)) \<noteq> None"
      by (cases ?d) (simp_all del: not_None_eq split: prod.splits)
  qed
qed

lemma ltype_cases:
  assumes "t \<noteq> PB_LTYPE_EXTENSION" and "t \<le> PB_LTYPE_FIXED_LENGTH_BYTES"
  shows "t = PB_LTYPE_BOOL \<or> t = PB_LTYPE_VARINT \<or> t = PB_LTYPE_UVARINT \<or> t = PB_LTYPE_SVARINT \<or> t = PB_LTYPE_FIXED32 \<or>
    t = PB_LTYPE_FIXED64 \<or> t = PB_LTYPE_BYTES \<or> t = PB_LTYPE_STRING \<or> t = PB_LTYPE_SUBMESSAGE \<or> t = PB_LTYPE_FIXED_LENGTH_BYTES"
proof -
  have "unat t \<le> 10" using assms(2) by (simp add: PB_LTYPE_FIXED_LENGTH_BYTES_def word_le_nat_alt)
  then have "unat t \<in> {0, 1, 2, 3, 4, 5, 6, 7, 8, 9, 10}" unfolding insert_iff empty_iff by arith
  then have "word_of_nat (unat t) \<in> (word_of_nat :: nat \<Rightarrow> byte) ` {0, 1, 2, 3, 4, 5, 6, 7, 8, 9, 10 :: nat}" by (rule imageI)
  then have "t \<in> word_of_nat ` {0, 1, 2, 3, 4, 5, 6, 7, 8, 9, 10}" by (simp only: of_nat_unat ucast_id)
  then show ?thesis using assms(1)
    by (simp add: PB_LTYPE_BOOL_def PB_LTYPE_VARINT_def PB_LTYPE_UVARINT_def PB_LTYPE_SVARINT_def PB_LTYPE_FIXED32_def PB_LTYPE_FIXED64_def
        PB_LTYPE_BYTES_def PB_LTYPE_STRING_def PB_LTYPE_SUBMESSAGE_def PB_LTYPE_EXTENSION_def PB_LTYPE_FIXED_LENGTH_BYTES_def)
qed

lemma replies_value:
  assumes st: "static_field sub env (it_field it)" and full: "sub_replies b sub full" and noinit: "sub_replies b sub noinit"
  shows "replies (Suc b) (dec_field full noinit env it p)"
proof -
  let ?lt = "PB_LTYPE (f_type (it_field it))"
  have sub: "?lt = PB_LTYPE_SUBMESSAGE \<Longrightarrow> replies (Suc b) (pb_dec_submessage full noinit env (it_field it) p)"
    using st full noinit unfolding static_field_def sub_replies_def by (intro replies_submessage) blast+
  have a: "PB_ATYPE (f_type (it_field it)) = PB_ATYPE_STATIC" and lt: "?lt \<noteq> PB_LTYPE_EXTENSION" "?lt \<le> PB_LTYPE_FIXED_LENGTH_BYTES"
    using st unfolding static_field_def by blast+
  show ?thesis
    unfolding dec_field_def PB_DECODERS_def [abs_def]
    using ltype_cases [OF lt] by (intro replies_if replies_scalars replies_static_bytes a sub; simp only: simp_thms)
qed

lemma over_iter_total:
  "(\<And>it' w. it' \<in> set (visited it) \<Longrightarrow> f it' w \<noteq> None) \<Longrightarrow> over_iter f it w \<noteq> None"
proof (induction f it w rule: over_iter.induct)
  case (1 f it w)
  obtain v where v: "f it w = Some v" using "1.prems" [OF visited_first, of w] by blast
  obtain nx again where nx: "pb_field_iter_next it = (nx, again)" by fastforce
  show ?case
  proof (cases again)
    case True
    have sub: "it' \<in> set (visited nx) \<Longrightarrow> it' \<in> set (visited it)" for it' using nx True by (simp add: visited.simps [of it])
    show ?thesis using "1.IH" [OF v nx [symmetric] True "1.prems" [OF sub]] v nx True
      by (simp add: over_iter.simps [of f it] del: not_None_eq)
  next
    case False
    then show ?thesis using v nx by (simp add: over_iter.simps [of f it])
  qed
qed

lemma over_fields_total:
  assumes "\<And>it w. start it = tbl \<Longrightarrow> f it w \<noteq> None"
  shows "over_fields f tbl dest w \<noteq> None"
proof -
  have "over_iter f (fst (pb_field_iter_begin tbl dest)) w \<noteq> None"
    using visited_same by (intro over_iter_total assms) fastforce
  then show ?thesis by (cases "pb_field_iter_begin tbl dest") (simp add: over_fields_def del: not_None_eq)
qed

lemma default_total:
  "plain d env (start it) \<Longrightarrow> d \<le> m \<Longrightarrow> pb_field_set_to_default m env it w \<noteq> None"
proof (induction d arbitrary: m it w)
  case (Suc d)
  obtain k where m: "m = Suc k" "d \<le> k" using Suc.prems(2) by (cases m) auto
  note st = plain_at [OF Suc.prems(1) refl, unfolded static_field_def]
  have "over_fields (pb_field_set_to_default k env) (dec_tables env (f_ptr (it_field it))) p v \<noteq> None"
    if "PB_LTYPE (f_type (it_field it)) = PB_LTYPE_SUBMESSAGE" for p v
    using st that m(2) by (intro over_fields_total Suc.IH) auto
  then have "init_static (pb_field_set_to_default k env) env it v \<noteq> None" for v
    by (simp add: init_static_def Let_def del: not_None_eq)
  then show ?case using st by (simp add: m Let_def del: not_None_eq)
qed simp

lemma defaults_total: "plain d env tbl \<Longrightarrow> d \<le> m \<Longrightarrow> pb_message_set_to_defaults m env tbl dest w \<noteq> None"
  unfolding pb_message_set_to_defaults_def by (intro over_fields_total default_total) auto

lemma release_items_total:
  "(\<And>p w. release_message rel tbl p w \<noteq> None) \<Longrightarrow> release_items rel tbl step k p w \<noteq> None"
proof (induction k arbitrary: p w)
  case (Suc k)
  then show ?case by (cases "release_message rel tbl p w") (simp_all del: not_None_eq)
qed simp

lemma release_single_total:
  "plain d env (start it) \<Longrightarrow> d \<le> m \<Longrightarrow> pb_release_single_field m env it w \<noteq> None"
proof (induction d arbitrary: m it w)
  case (Suc d)
  obtain k where m: "m = Suc k" "d \<le> k" using Suc.prems(2) by (cases m) auto
  note st = plain_at [OF Suc.prems(1) refl, unfolded static_field_def]
  let ?f = "it_field it"
  have "release_message (pb_release_single_field k env) (dec_tables env (f_ptr ?f)) p v \<noteq> None"
    if "PB_LTYPE (f_type ?f) = PB_LTYPE_SUBMESSAGE" for p v
    unfolding release_message_def using st that m(2) over_fields_total [OF Suc.IH, of "dec_tables env (f_ptr ?f)"]
    by (simp del: not_None_eq)
  then have items: "release_items (pb_release_single_field k env) (dec_tables env (f_ptr ?f)) step n p v \<noteq> None"
    if "PB_LTYPE (f_type ?f) = PB_LTYPE_SUBMESSAGE" for step n p v using that by (intro release_items_total)
  have bind: "r \<noteq> None \<Longrightarrow> Option.bind r (\<lambda>v. Some (g v)) \<noteq> None" for r :: "'a pb_world option" and g :: "'a pb_world \<Rightarrow> 'a pb_world"
    by (cases r) auto
  show ?case using st items
    by (simp add: m Let_def del: not_None_eq) (intro impI bind; simp del: not_None_eq)
qed simp

lemma release_total: "plain d env tbl \<Longrightarrow> d \<le> m \<Longrightarrow> pb_release m env tbl dest w \<noteq> None"
  unfolding pb_release_def release_message_def by (simp add: over_fields_total release_single_total del: not_None_eq)

lemma packed_loop_total:
  assumes eats: "\<And>p. eats (func p)" and func: "\<And>p. replies b (func p)"
  shows "bytes_left s < b \<Longrightarrow> bytes_left s < k \<Longrightarrow> static_packed_loop k func it s w \<noteq> None"
proof (induction k arbitrary: s w)
  case (Suc k)
  let ?p = "item_at (pData it) (it_field it) (get_count (pSize it) w)"
  obtain ok s1 w1 where f: "func ?p s w = Some (ok, s1, w1)"
    using repliesD [OF func Suc.prems(1), of ?p w] by (cases "func ?p s w") auto
  then have "bytes_left s1 \<le> bytes_left s" "ok \<Longrightarrow> bytes_left s1 < bytes_left s" using eatsD [OF eats f] by auto
  then have "ok \<Longrightarrow> static_packed_loop k func it s1 v \<noteq> None" for v using Suc by auto
  then show ?case using f by (simp add: Let_def del: not_None_eq)
qed simp

lemma find_loop_start: "start (fst (find_loop k wanted first it)) = start it"
proof (induction k arbitrary: it)
  case (Suc k)
  have "start (fst (pb_field_iter_next it)) = start it" using next_same by blast
  then show ?case using Suc [of "fst (pb_field_iter_next it)"] by (simp add: Let_def)
qed simp

lemma find_start: "pb_field_iter_find it tag = (it', found) \<Longrightarrow> start it' = start it"
  unfolding pb_field_iter_find_def by (drule arg_cong [where f = "\<lambda>p. start (fst p)"]) (simp only: find_loop_start fst_conv)

lemma find_extension_start: "find_extension_field it = (it', found) \<Longrightarrow> start it' = start it"
  unfolding find_extension_field_def by (drule arg_cong [where f = "\<lambda>p. start (fst p)"]) (simp only: find_loop_start fst_conv)

lemma find_loop_found: "find_loop k wanted first it = (it', True) \<Longrightarrow> wanted (it_field it')"
  by (induction k arbitrary: it) (auto simp: Let_def split: if_splits)

lemma plain_no_extension:
  assumes "plain (Suc d) env (start it)"
  shows "\<not> snd (find_extension_field it)"
proof
  assume "snd (find_extension_field it)"
  then obtain it' where f: "find_extension_field it = (it', True)" by (metis (full_types) prod.collapse)
  then have "PB_LTYPE (f_type (it_field it')) = PB_LTYPE_EXTENSION"
    unfolding find_extension_field_def by (rule find_loop_found)
  then show False using plain_at [OF assms find_extension_start [OF f]] by (simp add: static_field_def)
qed

lemma replies_static_field:
  assumes st: "static_field (plain d env) env (it_field it)"
    and full: "sub_replies b (plain d env) full" and noinit: "sub_replies b (plain d env) noinit" and d: "d \<le> m" and b: "b \<le> m"
  shows "replies (Suc b) (decode_static_field m full noinit env wt it)"
proof (rule repliesI)
  fix s :: pb_istream and w :: "'a pb_world"
  assume s: "bytes_left s < Suc b"
  let ?f = "it_field it" and ?func = "dec_field full noinit env it"
  have val_total: "?func p s v \<noteq> None" for p v using repliesD [OF replies_value [OF st full noinit] s] .
  have eats: "eats (?func p)" for p using st unfolding static_field_def by (intro eats_value) blast
  have packed: "read_then (pb_make_string_substream s) v (\<lambda>substream s.
       case static_packed_loop m ?func it substream v of
         None \<Rightarrow> None
       | Some (status, substream, w) \<Rightarrow>
           if bytes_left substream \<noteq> 0 then rd_error ''array overflow'' s w
           else close_substream status s substream w) \<noteq> None" for v
  proof (rule read_then_not_None)
    fix sub s1
    assume "pb_make_string_substream s = (Some sub, s1)"
    then have "bytes_left sub < b" using substream_left s by fastforce
    then have "static_packed_loop m ?func it sub v \<noteq> None"
      using packed_loop_total [OF eats replies_value [OF st full noinit]] b by auto
    then show "(case static_packed_loop m ?func it sub v of
         None \<Rightarrow> None
       | Some (status, substream, w) \<Rightarrow>
           if bytes_left substream \<noteq> 0 then rd_error ''array overflow'' s1 w
           else close_substream status s1 substream w) \<noteq> None"
      by (cases "static_packed_loop m ?func it sub v") (simp_all del: not_None_eq split: prod.splits)
  qed
  have oneof: "PB_LTYPE (f_type ?f) = PB_LTYPE_SUBMESSAGE \<Longrightarrow>
     (case pb_message_set_to_defaults m env (dec_tables env (f_ptr ?f)) (pData it) v of None \<Rightarrow> None | Some w \<Rightarrow> ?func (pData it) s w) \<noteq> None" for v
    using st d defaults_total [of d env "dec_tables env (f_ptr ?f)" m "pData it" v] val_total
    by (auto simp: static_field_def)
  show "decode_static_field m full noinit env wt it s w \<noteq> None"
    unfolding decode_static_field_def Let_def using val_total packed oneof by (simp del: not_None_eq)
qed

lemma static_field_left:
  assumes "PB_ATYPE (f_type (it_field it)) = PB_ATYPE_STATIC"
    and "decode_static_field m full noinit env wt it s w = Some (ok, s', w')"
  shows "bytes_left s' \<le> bytes_left s"
proof -
  note val_left = eatsD [OF eats_value [OF assms(1)], THEN conjunct1]
  from assms(2) show ?thesis unfolding decode_static_field_def Let_def
    by (auto simp: rd_error_def set_ierror_def elim!: read_then_SomeE split: if_splits option.splits
        dest!: val_left substream_left close_left)
qed

text \<open>A step of the loop returns, keeps the table and does not add to the stream.\<close>

definition steps :: "pb_field list \<Rightarrow> nat \<Rightarrow> ('x \<times> bool \<times> pb_istream \<times> 'h pb_world) option \<Rightarrow> ('x \<Rightarrow> pb_field list) \<Rightarrow> bool" where
  "steps tbl b r table \<longleftrightarrow> (\<exists>x ok s w. r = Some (x, ok, s, w) \<and> table x = tbl \<and> bytes_left s \<le> b)"

lemma stepsI: "r = Some (x, ok, s, w) \<Longrightarrow> table x = tbl \<Longrightarrow> bytes_left s \<le> b \<Longrightarrow> steps tbl b r table"
  unfolding steps_def by blast

lemma union_steps:
  assumes p: "plain d env (start it)" and "d \<le> m"
  shows "steps (start it) (bytes_left s) (pb_release_union_field m env it s w) start"
proof -
  let ?old = "get_count (pSize it) w" and ?new = "f_tag (it_field it)"
  obtain it1 f1 where 1: "pb_field_iter_find it ?old = (it1, f1)" by fastforce
  obtain it2 f2 where 2: "pb_field_iter_find it1 ?new = (it2, f2)" by fastforce
  note same = find_start [OF 1] find_start [OF 2]
  obtain v where v: "pb_release_single_field m env it1 w = Some v"
    using release_single_total [of d env it1 m w] assms same by auto
  show ?thesis using 1 2 v same
    by (cases f1; cases f2) (auto simp: pb_release_union_field_def Let_def steps_def set_ierror_def split: if_splits)
qed

lemma decode_field_steps:
  assumes p: "plain (Suc n) env (start it)" and full: "sub_replies b (plain n env) full" and noinit: "sub_replies b (plain n env) noinit"
    and n: "Suc n \<le> m" and b: "b \<le> m" and s: "bytes_left s < Suc b"
  shows "steps (start it) (bytes_left s) (decode_field m full noinit env wt it s w) start"
proof -
  have "steps (start it) (bytes_left s)
      (if PB_HTYPE (f_type (it_field it)) = PB_HTYPE_ONEOF then pb_release_union_field m env it s w else Some (it, True, s, w)) start"
    using union_steps [OF p n] by (auto simp: steps_def)
  then obtain it1 ok1 s1 w1 where
    u: "(if PB_HTYPE (f_type (it_field it)) = PB_HTYPE_ONEOF then pb_release_union_field m env it s w else Some (it, True, s, w)) = Some (it1, ok1, s1, w1)"
    and same: "start it1 = start it" and left: "bytes_left s1 \<le> bytes_left s" unfolding steps_def by blast
  show ?thesis
  proof (cases ok1)
    case False
    then have "decode_field m full noinit env wt it s w = Some (it1, False, s1, w1)" unfolding decode_field_def u by simp
    then show ?thesis using same left by (rule stepsI)
  next
    case True
    have st: "static_field (plain n env) env (it_field it1)" using p same by (intro plain_at) auto
    then have stat: "PB_ATYPE (f_type (it_field it1)) = PB_ATYPE_STATIC" by (simp add: static_field_def)
    have "bytes_left s1 < Suc b" "n \<le> m" using s left n by simp_all
    then have "decode_static_field m full noinit env wt it1 s1 w1 \<noteq> None"
      using repliesD [OF replies_static_field [OF st full noinit _ b]] by blast
    then obtain ok2 s2 w2 where r: "decode_static_field m full noinit env wt it1 s1 w1 = Some (ok2, s2, w2)"
      by (cases "decode_static_field m full noinit env wt it1 s1 w1") auto
    have "decode_field m full noinit env wt it s w = Some (it1, ok2, s2, w2)"
      unfolding decode_field_def u using True r stat by (simp add: decode_by_atype_def Let_def)
    moreover have "bytes_left s2 \<le> bytes_left s" using static_field_left [OF stat r] left by simp
    ultimately show ?thesis using same by (intro stepsI)
  qed
qed

definition d_table :: "decode_state \<Rightarrow> pb_field list" where
  "d_table d = start (d_iter d)"

lemma known_field_steps:
  assumes p: "plain (Suc n) env (d_table d)" and full: "sub_replies b (plain n env) full" and noinit: "sub_replies b (plain n env) noinit"
    and n: "Suc n \<le> m" and b: "b \<le> m" and s: "bytes_left s < Suc b"
  shows "steps (d_table d) (bytes_left s) (known_field m full noinit env wt d s w) d_table"
proof -
  let ?it = "d_iter d"
  let ?fixed = "PB_HTYPE (f_type (it_field ?it)) = PB_HTYPE_REPEATED \<and> pSize ?it = At (pData ?it)"
  let ?fresh = "?fixed \<and> fixed_count_field d \<noteq> Some (pos ?it)"
  let ?w = "if ?fresh then w\<lparr>w_local := 0\<rparr> else w" and ?it1 = "if ?fixed then ?it\<lparr>pSize := Local\<rparr> else ?it"
  show ?thesis
  proof (cases "?fresh \<and> fixed_count_wrong d w")
    case True
    then show ?thesis by (auto simp: known_field_def Let_def steps_def set_ierror_def)
  next
    case False
    have "start ?it1 = d_table d" by (simp add: d_table_def)
    then have "steps (d_table d) (bytes_left s) (decode_field m full noinit env wt ?it1 s ?w) start"
      using decode_field_steps [OF _ full noinit n b s, of ?it1 wt ?w] p by simp
    then obtain it2 ok2 s2 w2 where "decode_field m full noinit env wt ?it1 s ?w = Some (it2, ok2, s2, w2)"
      "start it2 = d_table d" "bytes_left s2 \<le> bytes_left s" unfolding steps_def by blast
    then show ?thesis using False by (auto simp: known_field_def Let_def steps_def d_table_def)
  qed
qed

lemma unknown_field_steps:
  assumes p: "plain (Suc n) env (d_table d)" and tag: "tag \<noteq> -1"
  shows "steps (d_table d) (bytes_left s) (unknown_field m full noinit env tag wt d s w) d_table"
proof -
  obtain it where it: "find_extension_field (d_iter d) = (it, False)"
    using plain_no_extension [OF p [unfolded d_table_def]] by (metis (full_types) prod.collapse)
  obtain ok s' where sk: "pb_skip_field wt s = (ok, s')" by fastforce
  have "\<not> tag \<ge> -1" using tag by (simp add: word_order.extremum_unique)
  then show ?thesis using it sk skip_left [OF sk] find_extension_start [OF it]
    by (auto simp: unknown_field_def Let_def steps_def d_table_def)
qed

lemma finish_total [simp]: "decode_finish d s w \<noteq> None"
  by (simp add: decode_finish_def del: not_None_eq)

lemma noinit_loop_total:
  assumes full: "sub_replies b (plain n env) full" and noinit: "sub_replies b (plain n env) noinit"
    and n: "Suc n \<le> m" and b: "b \<le> m"
  shows "plain (Suc n) env (d_table d) \<Longrightarrow> bytes_left s < Suc (Suc b) \<Longrightarrow> bytes_left s < j \<Longrightarrow> noinit_loop j m full noinit env d s w \<noteq> None"
proof (induction j arbitrary: d s w)
  case (Suc j)
  obtain r e s1 where t: "pb_decode_tag s = (r, e, s1)" by (cases "pb_decode_tag s")
  show ?case
  proof (cases "bytes_left s = 0 \<or> r = None")
    case True
    then show ?thesis using t by (elim disjE; cases e) (simp_all del: not_None_eq)
  next
    case False
    then obtain wt tag where r: "r = Some (wt, tag)" by auto
    have s1: "bytes_left s1 < bytes_left s" using tag_left [OF t] r by simp
    then have s1b: "bytes_left s1 < Suc b" using Suc.prems(2) by simp
    obtain it found where f: "pb_field_iter_find (d_iter d) tag = (it, found)" by fastforce
    let ?d = "d\<lparr>d_iter := it\<rparr>"
    have same: "d_table ?d = d_table d" using find_start [OF f] by (simp add: d_table_def)
    have "steps (d_table d) (bytes_left s1)
       (if found then known_field m full noinit env wt ?d s1 w else unknown_field m full noinit env tag wt ?d s1 w) d_table"
      using known_field_steps [OF _ full noinit n b s1b, of ?d wt w] unknown_field_steps [OF _ tag_small [OF t [unfolded r]], of n env ?d s1]
        Suc.prems(1) same by simp
    then obtain d2 ok2 s2 w2 where
      step: "(if found then known_field m full noinit env wt ?d s1 w else unknown_field m full noinit env tag wt ?d s1 w) = Some (d2, ok2, s2, w2)"
      and d2: "d_table d2 = d_table d" and s2: "bytes_left s2 \<le> bytes_left s1" unfolding steps_def by blast
    have "noinit_loop j m full noinit env d2 s2 w2 \<noteq> None"
      using s1 s2 d2 Suc.prems by (intro Suc.IH) auto
    then show ?thesis using False t r f step by (simp add: Let_def del: not_None_eq)
  qed
qed simp

lemma decode_and_release_total:
  assumes "replies b (noinit tbl dest)" and "plain d env tbl" and "d \<le> m"
  shows "replies b (decode_and_release m env noinit tbl dest)"
proof (rule repliesI)
  fix s :: pb_istream and w :: "'a pb_world"
  assume s: "bytes_left s < b"
  obtain v where v: "pb_message_set_to_defaults m env tbl dest w = Some v" using defaults_total [OF assms(2,3)] by blast
  obtain st t u where u: "noinit tbl dest s v = Some (st, t, u)" using repliesD [OF assms(1) s, of v] by (cases "noinit tbl dest s v") auto
  show "decode_and_release m env noinit tbl dest s w \<noteq> None"
    using v u release_total [OF assms(2,3), of dest u] by (simp add: decode_and_release_def del: not_None_eq split: option.splits)
qed

lemma decode_total: "plain d env tbl \<Longrightarrow> Suc d \<le> m \<Longrightarrow> b < m \<Longrightarrow> replies b (pb_decode_noinit m env tbl dest)"
proof (induction m arbitrary: d tbl dest b)
  case (Suc m)
  obtain n where d: "d = Suc n" using Suc.prems by (cases d) auto
  have noinit: "sub_replies (b - 2) (plain n env) (pb_decode_noinit m env)"
    unfolding sub_replies_def using Suc.IH [of n _ "b - 2"] Suc.prems d by (cases "b \<le> 2") auto
  then have full: "sub_replies (b - 2) (plain n env) (decode_and_release m env (pb_decode_noinit m env))"
    unfolding sub_replies_def using Suc.prems d by (intro allI impI decode_and_release_total [where d = n]) auto
  show ?case
  proof (rule repliesI)
    fix s :: pb_istream and w :: "'a pb_world"
    assume s: "bytes_left s < b"
    let ?d = "\<lparr>d_iter = fst (pb_field_iter_begin tbl dest), fields_seen = [0, 0], extension_range_start = 0, fixed_count_field = None\<rparr>"
    have "noinit_loop m m (decode_and_release m env (pb_decode_noinit m env)) (pb_decode_noinit m env) env ?d s (w\<lparr>w_local := 0\<rparr>) \<noteq> None"
      using Suc.prems d s by (intro noinit_loop_total [OF full noinit]) (auto simp: d_table_def)
    then show "pb_decode_noinit (Suc m) env tbl dest s w \<noteq> None" by (simp del: not_None_eq)
  qed
qed simp

section \<open>A sample message\<close>

text \<open>A number, an array of at most two numbers with its counter, and an optional message with a flag.\<close>

definition sample_submessage :: "pb_field list" where
  "sample_submessage = [\<lparr>f_tag = 1, f_type = 0x00, data_offset = 0, size_offset = 0, data_size = 1, array_size = 0, f_ptr = 0\<rparr>]"

definition sample_denv :: "unit pb_denv" where
  "sample_denv = \<lparr>dec_tables = (\<lambda>p. if p = 1 then sample_submessage else []),
     dec_ext_field = (\<lambda>p. PB_LAST_FIELD), pb_realloc = (\<lambda>p n (m, h). (0, m, h)), pb_free = (\<lambda>p (m, h). (m, h)),
     call_decode = (\<lambda>f field arg s w. Some (False, s, w)), call_ext_decode = (\<lambda>f ext tag wt s w. Some (False, s, w))\<rparr>"

definition sample_dtable :: "pb_field list" where
  "sample_dtable =
     [\<lparr>f_tag = 1, f_type = 0x02, data_offset = 0, size_offset = 0, data_size = 4, array_size = 0, f_ptr = 0\<rparr>,
      \<lparr>f_tag = 2, f_type = 0x22, data_offset = 4, size_offset = -4, data_size = 4, array_size = 2, f_ptr = 0\<rparr>,
      \<lparr>f_tag = 3, f_type = 0x18, data_offset = 1, size_offset = -1, data_size = 1, array_size = 0, f_ptr = 1\<rparr>]"

lemma iters_sample: "iters sample_dtable 16 =
  [\<lparr>start = sample_dtable, pos = 0, required_field_index = 0, dest_struct = 16, pData = 16, pSize = At 16\<rparr>,
   \<lparr>start = sample_dtable, pos = 1, required_field_index = 1, dest_struct = 16, pData = 24, pSize = At 20\<rparr>,
   \<lparr>start = sample_dtable, pos = 2, required_field_index = 1, dest_struct = 16, pData = 33, pSize = At 32\<rparr>]"
  unfolding numeral_2_eq_2 One_nat_def by (simp add: iter_eval sample_dtable_def)

lemma iters_submessage: "iters sample_submessage 33 = [\<lparr>start = sample_submessage, pos = 0, required_field_index = 0, dest_struct = 33, pData = 33, pSize = At 33\<rparr>]"
  by (simp add: iter_eval sample_submessage_def)

lemma area_sub:
   "area 16 4 \<subseteq> area 16 18"    "area 20 4 \<subseteq> area 16 18"    "area 24 4 \<subseteq> area 16 18"    "area 28 4 \<subseteq> area 16 18"
   "area 33 1 \<subseteq> area 16 18"    "area 32 1 \<subseteq> area 16 18"
  using area_shift [of 0 4 18 16] area_shift [of 4 4 18 16] area_shift [of 8 4 18 16] area_shift [of 12 4 18 16]
   area_shift [of 17 1 18 16] area_shift [of 16 1 18 16] by simp_all

lemma upt2: "[0..<2] = [0, Suc 0]" by (simp add: numeral_2_eq_2)

lemma sample_fits: "fits (Suc (Suc 0)) sample_denv (area 16 18) sample_dtable 16"
proof -
  have "fits 1 sample_denv (area 16 18) sample_submessage 33"
    using area_sub unfolding One_nat_def fits.simps iters_submessage
    by (simp add: fits_field_def it_field_def field_at_def sample_submessage_def type_consts places_def value_len_def Let_def)
  moreover have "plain (Suc (Suc 0)) sample_denv sample_dtable" by (simp add: sample_dtable_def sample_denv_def sample_submessage_def type_consts)
  ultimately show ?thesis
    unfolding fits.simps(2) [of "Suc 0"] iters_sample using area_sub
    by (simp add: fits_field_def it_field_def field_at_def sample_dtable_def type_consts places_def value_len_def Let_def upt2 item_at_def sample_denv_def)
qed

lemma sample_plain: "plain (Suc (Suc 0)) sample_denv sample_dtable"
  using sample_fits by simp

section \<open>Properties\<close>

text \<open>
  C4: decoding stays in the message. When all fields of the table are static and their places, flags
  and counters are in a set of addresses, \<open>pb_decode\<close> changes no other address and nothing on the
  heap, whatever the input and whether or not it is accepted.
\<close>

theorem pb_decode_stays:
  assumes "fits d env S tbl dest" and "pb_decode m env tbl dest s w = Some (ok, s', w')"
  shows "(\<forall>a. a \<notin> S \<longrightarrow> w_mem w' a = w_mem w a) \<and> w_heap w' = w_heap w"
proof -
  have "keeps S (pb_decode m env tbl dest)"
    unfolding pb_decode_def by (rule release_keeps [where n = d]) (rule decode_keeps [OF assms(1)], rule assms(1))
  from keepsD [OF this assms(2)] show ?thesis unfolding frame_def .
qed

theorem pb_decode_stays_witness:
  "\<exists>ok s' w'. pb_decode 5 sample_denv sample_dtable 16 (pb_istream_from_buffer [8, 1, 16] 3) \<lparr>w_mem = (\<lambda>a. 7), w_heap = (), w_local = 0\<rparr> = Some (ok, s', w') \<and>
     w_mem w' 15 = 7 \<and> w_mem w' 34 = 7"
proof -
  let ?s = "pb_istream_from_buffer [8, 1, 16] 3" and ?w = "\<lparr>w_mem = (\<lambda>a. 7), w_heap = (), w_local = 0\<rparr>"
  have "replies 4 (pb_decode 5 sample_denv sample_dtable 16)"
    unfolding pb_decode_def by (rule decode_and_release_total [where d = "Suc (Suc 0)"], rule decode_total [OF sample_plain]) (use sample_plain in simp_all)
  then have "pb_decode 5 sample_denv sample_dtable 16 ?s ?w \<noteq> None" by (rule repliesD) (simp add: pb_istream_from_buffer_def)
  then obtain ok s' w' where r: "pb_decode 5 sample_denv sample_dtable 16 ?s ?w = Some (ok, s', w')" by auto
  have "15 \<notin> area 16 18" "34 \<notin> area 16 18" by (simp_all add: area_numeral)
  then show ?thesis using pb_decode_stays [OF sample_fits r] r by auto
qed

text \<open>
  C5: decoding a static message returns. With fuel above the nesting depth of the tables and above
  the length of the input plus one, \<open>pb_decode\<close> returns whatever the input and the memory.
\<close>

theorem pb_decode_returns:
  assumes "plain d env tbl" and "d < m" and "bytes_left s + 1 < m"
  shows "pb_decode m env tbl dest s w \<noteq> None"
proof -
  have "replies (Suc (bytes_left s)) (pb_decode m env tbl dest)"
    unfolding pb_decode_def using assms by (intro decode_and_release_total [OF decode_total]) auto
  then show ?thesis by (rule repliesD) simp
qed

theorem pb_decode_returns_witness:
  "pb_decode 5 sample_denv sample_dtable 16 (pb_istream_from_buffer [8, 1, 16] 3) \<lparr>w_mem = (\<lambda>a. 7), w_heap = (), w_local = 0\<rparr> \<noteq> None"
  by (rule pb_decode_returns [OF sample_plain]) (simp_all add: pb_istream_from_buffer_def)

end
