(* ===== verification/PbRefine.thy ===== *)
theory PbRefine
  imports PbEncode
begin

text \<open>
  The encoder of nanopb against a reference encoder. The reference builds the bytes of a message
  from the descriptors and the memory alone, without streams. A writer implements an encoding
  when it counts the bytes on a counting stream, stores exactly them in a buffer that has room and
  fails within the bounds of one that has not; \<open>pb_encode_implements\<close> shows it of \<open>pb_encode\<close>.
\<close>

section \<open>Encodings\<close>

text \<open>
  What a writer is to put on the wire: some bytes, a refusal, or no statement (out of fuel, or
  2^63 bytes and more).
\<close>

datatype encoding = Bytes "byte list" | Invalid | Beyond

definition size_bound :: nat where "size_bound = 2 ^ 63"

definition followed_by :: "encoding \<Rightarrow> encoding \<Rightarrow> encoding" where
  "followed_by r1 r2 =
     (case r1 of
       Bytes bs \<Rightarrow> (case r2 of Bytes cs \<Rightarrow> if length bs + length cs < size_bound then Bytes (bs @ cs) else Beyond | r \<Rightarrow> r)
     | r \<Rightarrow> r)"

definition bytes_of :: "byte list \<Rightarrow> encoding" where
  "bytes_of bs = (if length bs < size_bound then Bytes bs else Beyond)"

definition delimited :: "encoding \<Rightarrow> encoding" where
  "delimited r = (case r of Bytes bs \<Rightarrow> bytes_of (vb (word_of_nat (length bs)) @ bs) | r \<Rightarrow> r)"

section \<open>Writers\<close>

type_synonym writer = "byte list pb_ostream \<Rightarrow> byte list outcome"

definition sizing :: "byte list pb_ostream \<Rightarrow> bool" where
  "sizing s \<longleftrightarrow> callback s = None \<and> o_errmsg s = None \<and> bytes_written s < size_mod"

definition buffered :: "byte list pb_ostream \<Rightarrow> bool" where
  "buffered s \<longleftrightarrow> callback s = Some buf_write \<and> o_errmsg s = None \<and> bytes_written s \<le> max_size s \<and> max_size s < size_bound"

definition grow :: "nat \<Rightarrow> 's pb_ostream \<Rightarrow> 's pb_ostream" where
  "grow n s = s\<lparr>bytes_written := sz_add (bytes_written s) n\<rparr>"

definition put :: "byte list \<Rightarrow> byte list pb_ostream \<Rightarrow> byte list pb_ostream" where
  "put bs s = s\<lparr>o_state := o_state s @ bs, bytes_written := bytes_written s + length bs\<rparr>"

text \<open>The bytes stored are in the buffer.\<close>

definition stored :: "byte list pb_ostream \<Rightarrow> byte list \<Rightarrow> byte list pb_ostream \<Rightarrow> bool" where
  "stored s ds s' \<longleftrightarrow> o_state s' = o_state s @ ds \<and> bytes_written s + length ds \<le> max_size s"

definition emits :: "writer \<Rightarrow> byte list \<Rightarrow> bool" where
  "emits w bs \<longleftrightarrow>
     (\<forall>s. sizing s \<longrightarrow> w s = Some (True, grow (length bs) s)) \<and>
     (\<forall>s. buffered s \<longrightarrow>
        (if bytes_written s + length bs \<le> max_size s then w s = Some (True, put bs s)
         else \<exists>s' k. w s = Some (False, s') \<and> stored s (take k bs) s'))"

definition refuses :: "writer \<Rightarrow> bool" where
  "refuses w \<longleftrightarrow>
     (\<forall>s. sizing s \<longrightarrow> (\<exists>s'. w s = Some (False, s'))) \<and>
     (\<forall>s. buffered s \<longrightarrow> (\<exists>s' ds. w s = Some (False, s') \<and> stored s ds s'))"

definition implements :: "writer \<Rightarrow> encoding \<Rightarrow> bool" where
  "implements w r = (case r of Bytes bs \<Rightarrow> length bs < size_bound \<and> emits w bs | Invalid \<Rightarrow> refuses w | Beyond \<Rightarrow> True)"

lemma implements_simps [simp]:
  "implements w (Bytes bs) \<longleftrightarrow> length bs < size_bound \<and> emits w bs"
  "implements w Invalid \<longleftrightarrow> refuses w"
  "implements w Beyond"
  by (simp_all add: implements_def)

lemma emits_sizing: "emits w bs \<Longrightarrow> sizing s \<Longrightarrow> w s = Some (True, grow (length bs) s)"
  by (simp add: emits_def)

lemma emits_fits:
  "emits w bs \<Longrightarrow> buffered s \<Longrightarrow> bytes_written s + length bs \<le> max_size s \<Longrightarrow> w s = Some (True, put bs s)"
  by (simp add: emits_def)

lemma emits_full:
  "emits w bs \<Longrightarrow> buffered s \<Longrightarrow> \<not> bytes_written s + length bs \<le> max_size s \<Longrightarrow>
   \<exists>s' k. w s = Some (False, s') \<and> stored s (take k bs) s'"
  unfolding emits_def by presburger

lemma emitsI:
  assumes "\<And>s. sizing s \<Longrightarrow> w s = Some (True, grow (length bs) s)"
    and "\<And>s. buffered s \<Longrightarrow> bytes_written s + length bs \<le> max_size s \<Longrightarrow> w s = Some (True, put bs s)"
    and "\<And>s. buffered s \<Longrightarrow> \<not> bytes_written s + length bs \<le> max_size s \<Longrightarrow>
      \<exists>s' k. w s = Some (False, s') \<and> stored s (take k bs) s'"
  shows "emits w bs"
  using assms by (simp add: emits_def)

lemma sizing_grow [simp]: "sizing s \<Longrightarrow> sizing (grow n s)"
  by (simp add: sizing_def grow_def sz_add_def size_mod_def)

lemma buffered_put [simp]:
  "buffered s \<Longrightarrow> bytes_written s + length bs \<le> max_size s \<Longrightarrow> buffered (put bs s)"
  by (simp add: buffered_def put_def)

lemma grow_grow [simp]: "grow n (grow m s) = grow (m + n) s"
  by (simp add: grow_def sz_add_def mod_simps add.assoc)

lemma put_put [simp]: "put cs (put bs s) = put (bs @ cs) s"
  by (simp add: put_def add.assoc)

lemma put_simps [simp]:
  "max_size (put bs s) = max_size s" "bytes_written (put bs s) = bytes_written s + length bs"
  "o_state (put bs s) = o_state s @ bs" "callback (put bs s) = callback s" "o_errmsg (put bs s) = o_errmsg s"
  by (simp_all add: put_def)

lemma stored_put [simp]: "stored (put bs s) ds s' \<longleftrightarrow> stored s (bs @ ds) s'"
  by (simp add: stored_def add.assoc)

lemma emits_nil: "emits (\<lambda>s. Some (True, s)) []"
  by (rule emitsI) (simp_all add: grow_def put_def sz_add_def sizing_def buffered_def)

lemma emits_bind:
  assumes w: "emits w bs" and v: "emits v cs"
  shows "emits (\<lambda>s. wr_bind (w s) v) (bs @ cs)"
proof (rule emitsI)
  fix s :: "byte list pb_ostream"
  show "sizing s \<Longrightarrow> wr_bind (w s) v = Some (True, grow (length (bs @ cs)) s)"
    using emits_sizing [OF w] emits_sizing [OF v, of "grow (length bs) s"] by (simp add: wr_bind_def)
  assume b: "buffered s"
  show "bytes_written s + length (bs @ cs) \<le> max_size s \<Longrightarrow> wr_bind (w s) v = Some (True, put (bs @ cs) s)"
    using emits_fits [OF w b] emits_fits [OF v, of "put bs s"] b by (simp add: wr_bind_def)
  assume over: "\<not> bytes_written s + length (bs @ cs) \<le> max_size s"
  show "\<exists>s' k. wr_bind (w s) v = Some (False, s') \<and> stored s (take k (bs @ cs)) s'"
  proof (cases "bytes_written s + length bs \<le> max_size s")
    case True
    then obtain s' k where "v (put bs s) = Some (False, s')" "stored s (bs @ take k cs) s'"
      using emits_full [OF v buffered_put [OF b True]] over by auto
    then have "wr_bind (w s) v = Some (False, s') \<and> stored s (take (length bs + k) (bs @ cs)) s'"
      using emits_fits [OF w b True] by (simp add: wr_bind_def)
    then show ?thesis by blast
  next
    case False
    then obtain s' k where *: "w s = Some (False, s')" "stored s (take k bs) s'" using emits_full [OF w b] by blast
    have "take k bs = take (min k (length bs)) (bs @ cs)" by (cases "k \<le> length bs") auto
    then show ?thesis using * by (auto simp: wr_bind_def intro!: exI [of _ "min k (length bs)"])
  qed
qed

lemma refuses_bind: "refuses w \<Longrightarrow> refuses (\<lambda>s. wr_bind (w s) v)"
  by (fastforce simp: refuses_def wr_bind_def)

lemma emits_refuses_bind:
  assumes w: "emits w bs" and v: "refuses v"
  shows "refuses (\<lambda>s. wr_bind (w s) v)"
  unfolding refuses_def
proof (intro conjI allI impI)
  fix s :: "byte list pb_ostream"
  show "sizing s \<Longrightarrow> \<exists>s'. wr_bind (w s) v = Some (False, s')"
    using emits_sizing [OF w] v sizing_grow [of s "length bs"] by (fastforce simp: refuses_def wr_bind_def)
  assume b: "buffered s"
  show "\<exists>s' ds. wr_bind (w s) v = Some (False, s') \<and> stored s ds s'"
  proof (cases "bytes_written s + length bs \<le> max_size s")
    case True
    obtain s' ds where "v (put bs s) = Some (False, s')" "stored (put bs s) ds s'"
      using v buffered_put [OF b True] unfolding refuses_def by blast
    then show ?thesis using emits_fits [OF w b True] by (auto simp: wr_bind_def)
  next
    case False
    then show ?thesis using emits_full [OF w b] by (fastforce simp: wr_bind_def)
  qed
qed

lemma implements_bind:
  "implements w r1 \<Longrightarrow> implements v r2 \<Longrightarrow> implements (\<lambda>s. wr_bind (w s) v) (followed_by r1 r2)"
  by (cases r1; cases r2) (auto simp: followed_by_def emits_bind refuses_bind emits_refuses_bind)

lemma refuses_error: "refuses (ret_error msg)"
  by (fastforce simp: refuses_def ret_error_def set_oerror_def stored_def buffered_def)

lemma emits_write:
  assumes "length bs = n" and n: "n < size_bound"
  shows "emits (\<lambda>s. Some (pb_write bs n s)) bs"
proof (rule emitsI)
  fix s :: "byte list pb_ostream"
  show "sizing s \<Longrightarrow> Some (pb_write bs n s) = Some (True, grow (length bs) s)"
    using assms by (simp add: pb_write_def sizing_def grow_def Let_def)
  assume b: "buffered s"
  have "max_size s < size_mod" using b by (simp add: buffered_def size_bound_def size_mod_def)
  with b show "bytes_written s + length bs \<le> max_size s \<Longrightarrow> Some (pb_write bs n s) = Some (True, put bs s)"
    using write_buffer [of bs n s] assms by (simp add: buffered_def put_def)
  assume over: "\<not> bytes_written s + length bs \<le> max_size s"
  have "bytes_written s + n < size_mod" using b n by (simp add: buffered_def size_bound_def size_mod_def)
  then have "pb_write bs n s = (False, set_oerror ''stream full'' s)"
    using over b assms(1) by (cases n) (auto simp: pb_write_def buffered_def sz_add_def)
  then show "\<exists>s' k. Some (pb_write bs n s) = Some (False, s') \<and> stored s (take k bs) s'"
    using b by (auto simp: stored_def set_oerror_def buffered_def intro!: exI [of _ 0])
qed

lemma emits_varint: "emits (\<lambda>s. Some (pb_encode_varint v s)) (vb v)"
  using emits_write [OF refl, of "vb v"] length_vb [of v]
  by (simp add: pb_encode_varint_def varint_bytes_vb Let_def size_bound_def)

section \<open>The reference encoder\<close>

text \<open>
  Bytes without streams: no counting passes, no limits, lengths read off the bytes themselves.
\<close>

fun concat_bytes :: "encoding list \<Rightarrow> encoding" where
  "concat_bytes [] = Bytes []"
| "concat_bytes (r # rs) = followed_by r (concat_bytes rs)"

definition tag_bytes :: "uint32 \<Rightarrow> uint32 \<Rightarrow> byte list" where
  "tag_bytes wiretype number = vb (push_bit 3 (ucast number) OR ucast wiretype)"

definition wire_type_of :: "byte \<Rightarrow> uint32 option" where
  "wire_type_of lt =
     (if lt \<le> PB_LTYPE_SVARINT then Some PB_WT_VARINT
      else if lt = PB_LTYPE_FIXED32 then Some PB_WT_32BIT
      else if lt = PB_LTYPE_FIXED64 then Some PB_WT_64BIT
      else if lt = PB_LTYPE_BYTES \<or> lt = PB_LTYPE_STRING \<or> lt = PB_LTYPE_SUBMESSAGE \<or> lt = PB_LTYPE_FIXED_LENGTH_BYTES
      then Some PB_WT_STRING
      else None)"

definition field_tag :: "pb_field \<Rightarrow> encoding" where
  "field_tag field =
     (case wire_type_of (PB_LTYPE (f_type field)) of None \<Rightarrow> Invalid | Some wt \<Rightarrow> Bytes (tag_bytes wt (f_tag field)))"

definition integer_bytes :: "pb_field \<Rightarrow> uint64 \<Rightarrow> encoding" where
  "integer_bytes field v = (if valid_size (data_size field) then Bytes (vb v) else Invalid)"

definition array_of_bytes :: "memory \<Rightarrow> pb_field \<Rightarrow> addr \<Rightarrow> encoding" where
  "array_of_bytes m field src =
     (let sz = unat (load_size m src) in
      if src = 0 then Bytes []
      else if PB_ATYPE (f_type field) = PB_ATYPE_STATIC \<and> sz + 4 > unat (data_size field) then Invalid
      else bytes_of (bytes_at m (src + 4) sz))"

definition string_bytes :: "memory \<Rightarrow> pb_field \<Rightarrow> addr \<Rightarrow> encoding" where
  "string_bytes m field src =
     (if src = 0 then Bytes []
      else if PB_ATYPE (f_type field) = PB_ATYPE_POINTER then bytes_of (bytes_at m src (string_size m src 0 (size_mod - 1)))
      else bytes_of (bytes_at m src (string_size m src 0 (unat (data_size field)))))"

definition value_bytes ::
  "(pb_field list \<Rightarrow> addr \<Rightarrow> encoding) \<Rightarrow> byte list pb_env \<Rightarrow> pb_field \<Rightarrow> addr \<Rightarrow> encoding" where
  "value_bytes message env field src =
     (let lt = PB_LTYPE (f_type field); m = mem env; n = unat (data_size field) in
      if lt = PB_LTYPE_BOOL then Bytes (vb (of_bool (m src \<noteq> 0)))
      else if lt = PB_LTYPE_VARINT then integer_bytes field (load_signed m src n)
      else if lt = PB_LTYPE_UVARINT then integer_bytes field (load m src n)
      else if lt = PB_LTYPE_SVARINT then integer_bytes field (zigzag (load_signed m src n))
      else if lt = PB_LTYPE_FIXED32 then Bytes (fixed32_bytes (ucast (load m src 4)))
      else if lt = PB_LTYPE_FIXED64 then Bytes (fixed64_bytes (load m src 8))
      else if lt = PB_LTYPE_BYTES then delimited (array_of_bytes m field src)
      else if lt = PB_LTYPE_STRING then delimited (string_bytes m field src)
      else if lt = PB_LTYPE_SUBMESSAGE
      then if f_ptr field = 0 then Invalid else delimited (message (tables env (f_ptr field)) src)
      else if lt = PB_LTYPE_FIXED_LENGTH_BYTES then delimited (bytes_of (bytes_at m src n))
      else Beyond)"

lemma bytes_at_simps [simp]: "length (bytes_at m a n) = n" "bytes_at m a 0 = []"
  by (simp_all add: bytes_at_def)

lemma wr_then_bind: "Some (wr_then r f) = wr_bind (Some r) (\<lambda>s. Some (f s))"
  by (auto simp: wr_then_def wr_bind_def split: prod.splits)

lemma emits_string:
  assumes "length bs = n" and "n < size_bound"
  shows "emits (\<lambda>s. Some (pb_encode_string bs n s)) (vb (word_of_nat n) @ bs)"
  unfolding pb_encode_string_def wr_then_bind by (rule emits_bind [OF emits_varint emits_write [OF assms]])

lemma implements_string:
  assumes "length bs = n"
  shows "implements (\<lambda>s. Some (pb_encode_string bs n s)) (delimited (bytes_of bs))"
  using emits_string [OF assms] assms by (auto simp: delimited_def bytes_of_def)

lemma implements_bytes: "length bs < size_bound \<Longrightarrow> emits w bs \<Longrightarrow> implements w (Bytes bs)"
  by simp

lemma vb_short: "length (vb v) < size_bound"
  using length_vb [of v] by (simp add: size_bound_def)

lemma implements_varint: "implements (\<lambda>s. Some (pb_encode_varint v s)) (Bytes (vb v))"
  by (simp add: emits_varint vb_short)

lemma implements_tag: "implements (\<lambda>s. Some (pb_encode_tag wt tag s)) (Bytes (tag_bytes wt tag))"
  unfolding pb_encode_tag_def tag_bytes_def by (rule implements_varint)

lemma implements_fixed:
  "implements (\<lambda>s. Some (pb_encode_fixed32 v s)) (Bytes (fixed32_bytes v))"
  "implements (\<lambda>s. Some (pb_encode_fixed64 u s)) (Bytes (fixed64_bytes u))"
  unfolding pb_encode_fixed32_def pb_encode_fixed64_def
  by (simp_all add: emits_write length_fixed size_bound_def)

lemma implements_error: "implements (ret_error msg) Invalid"
  by (simp add: refuses_error)

lemma implements_nil: "implements (\<lambda>s. Some (True, s)) (Bytes [])"
  by (simp add: emits_nil size_bound_def)

lemma ltypes_distinct:
  "PB_LTYPE x \<le> PB_LTYPE_SVARINT \<longleftrightarrow>
     PB_LTYPE x = PB_LTYPE_BOOL \<or> PB_LTYPE x = PB_LTYPE_VARINT \<or> PB_LTYPE x = PB_LTYPE_UVARINT \<or> PB_LTYPE x = PB_LTYPE_SVARINT"
proof -
  have "y \<le> 3 \<longleftrightarrow> y = 0 \<or> y = 1 \<or> y = 2 \<or> y = 3" for y :: byte
    unfolding word_le_nat_alt word_unat_eq_iff by auto
  then show ?thesis by (simp add: PB_LTYPE_BOOL_def PB_LTYPE_VARINT_def PB_LTYPE_UVARINT_def PB_LTYPE_SVARINT_def)
qed

lemma implements_field_tag: "implements (pb_encode_tag_for_field field) (field_tag field)"
  using implements_tag implements_error
  unfolding pb_encode_tag_for_field_def [abs_def] field_tag_def wire_type_of_def ltypes_distinct Let_def
  by (auto simp del: implements_simps)

lemma sizing_null: "sizing (PB_OSTREAM_SIZING null)"
  by (simp add: sizing_def PB_OSTREAM_SIZING_def size_mod_def)

lemma emits_null:
  "emits w bs \<Longrightarrow> length bs < size_bound \<Longrightarrow>
   \<exists>t. w (PB_OSTREAM_SIZING null) = Some (True, t) \<and> bytes_written t = length bs"
  using emits_sizing [OF _ sizing_null, of w bs null]
  by (simp add: grow_def PB_OSTREAM_SIZING_def sz_add_def size_bound_def size_mod_def)

lemma emits_submessage_data:
  assumes e: "emits enc bs" and n: "length bs < size_bound"
  shows "emits (submessage_data enc (length bs)) bs"
proof (rule emitsI)
  fix s :: "byte list pb_ostream"
  show "sizing s \<Longrightarrow> submessage_data enc (length bs) s = Some (True, grow (length bs) s)"
    by (simp add: submessage_data_def sizing_def pb_write_def grow_def Let_def)
  assume b: "buffered s"
  then have sum: "sz_add (bytes_written s) (length bs) = bytes_written s + length bs"
    using n by (simp add: buffered_def sz_add_def size_bound_def size_mod_def)
  let ?sub = "\<lparr>callback = Some buf_write, o_state = o_state s, max_size = length bs, bytes_written = 0, o_errmsg = None\<rparr>"
  have sub: "enc ?sub = Some (True, put bs ?sub)"
    by (rule emits_fits [OF e]) (use b n in \<open>simp_all add: buffered_def\<close>)
  show "bytes_written s + length bs \<le> max_size s \<Longrightarrow> submessage_data enc (length bs) s = Some (True, put bs s)"
    using b sum sub by (simp add: submessage_data_def buffered_def put_def cong: if_cong)
  show "\<not> bytes_written s + length bs \<le> max_size s \<Longrightarrow>
      \<exists>s' k. submessage_data enc (length bs) s = Some (False, s') \<and> stored s (take k bs) s'"
    using b sum by (auto simp: submessage_data_def buffered_def ret_error_def stored_def set_oerror_def intro!: exI [of _ 0])
qed

lemma implements_submessage:
  assumes "implements enc r"
  shows "implements (pb_encode_submessage enc null) (delimited r)"
proof (cases r)
  case (Bytes bs)
  then have e: "emits enc bs" and n: "length bs < size_bound" using assms by simp_all
  obtain t where "enc (PB_OSTREAM_SIZING null) = Some (True, t)" "bytes_written t = length bs"
    using emits_null [OF e n] by blast
  then have "pb_encode_submessage enc null =
      (\<lambda>s. wr_bind (Some (pb_encode_varint (word_of_nat (length bs)) s)) (submessage_data enc (length bs)))"
    by (simp add: fun_eq_iff pb_encode_submessage_def)
  then show ?thesis using emits_bind [OF emits_varint emits_submessage_data [OF e n]]
    by (auto simp: Bytes delimited_def bytes_of_def)
next
  case Invalid
  obtain t where t: "enc (PB_OSTREAM_SIZING null) = Some (False, t)"
    using assms Invalid sizing_null [of null] by (auto simp: refuses_def)
  then have eq: "pb_encode_submessage enc null s = Some (False, s\<lparr>o_errmsg := o_errmsg t\<rparr>)" for s
    by (simp add: pb_encode_submessage_def)
  have "refuses (pb_encode_submessage enc null)"
    by (auto simp: refuses_def eq stored_def buffered_def)
  then show ?thesis by (simp add: Invalid delimited_def)
qed (simp add: delimited_def)

text \<open>The addresses of the entries of an array.\<close>

definition items :: "pb_field \<Rightarrow> addr \<Rightarrow> nat \<Rightarrow> addr list" where
  "items field p cnt = map (\<lambda>i. p + word_of_nat i * ucast (data_size field)) [0..<cnt]"

definition array_bytes ::
  "(addr \<Rightarrow> encoding) \<Rightarrow> memory \<Rightarrow> pb_field \<Rightarrow> addr \<Rightarrow> nat \<Rightarrow> encoding" where
  "array_bytes val m field pdata cnt =
     (if cnt = 0 then Bytes []
      else if PB_ATYPE (f_type field) \<noteq> PB_ATYPE_POINTER \<and> cnt > unat (array_size field) then Invalid
      else if is_packable field
      then followed_by (Bytes (tag_bytes PB_WT_STRING (f_tag field)))
             (delimited (concat_bytes (map val (items field pdata cnt))))
      else concat_bytes (map (\<lambda>p. followed_by (field_tag field) (val (array_item m field p))) (items field pdata cnt)))"

lemma implements_scalars:
  "implements (pb_enc_bool m src) (Bytes (vb (of_bool (m src \<noteq> 0))))"
  "implements (pb_enc_varint m field src) (integer_bytes field (load_signed m src (unat (data_size field))))"
  "implements (pb_enc_uvarint m field src) (integer_bytes field (load m src (unat (data_size field))))"
  "implements (pb_enc_svarint m field src) (integer_bytes field (zigzag (load_signed m src (unat (data_size field)))))"
  "implements (pb_enc_fixed32 m src) (Bytes (fixed32_bytes (ucast (load m src 4))))"
  "implements (pb_enc_fixed64 m src) (Bytes (fixed64_bytes (load m src 8)))"
  using implements_varint implements_fixed implements_error
  unfolding pb_enc_bool_def [abs_def] pb_enc_varint_def [abs_def] pb_enc_uvarint_def [abs_def] pb_enc_svarint_def [abs_def]
    pb_enc_fixed32_def [abs_def] pb_enc_fixed64_def [abs_def] pb_encode_svarint_def integer_bytes_def safe_read_bool_def of_bool_def
  by (auto simp del: implements_simps)

lemma implements_bytes_array: "implements (pb_enc_bytes m field src) (delimited (array_of_bytes m field src))"
proof -
  have "unat (load_size m src) < 2 ^ 32" using unsigned_less [of "load_size m src", where ?'a = nat] by simp
  then have "PB_BYTES_ARRAY_T_ALLOCSIZE (unat (load_size m src)) = unat (load_size m src) + 4"
    by (simp add: PB_BYTES_ARRAY_T_ALLOCSIZE_def sz_add_def size_mod_def)
  moreover have "delimited (Bytes []) = delimited (bytes_of [])" by (simp add: bytes_of_def size_bound_def)
  moreover have "delimited Invalid = Invalid" by (simp add: delimited_def)
  ultimately show ?thesis
    using implements_string [of "[]" 0] implements_string [OF bytes_at_simps(1), of m "src + 4"] implements_error
    unfolding pb_enc_bytes_def [abs_def] array_of_bytes_def Let_def
    by (auto simp del: implements_simps)
qed

lemma implements_c_string: "implements (pb_enc_string m field src) (delimited (string_bytes m field src))"
proof -
  have nil: "Bytes [] = bytes_of (bytes_at m src 0)" by (simp add: bytes_of_def size_bound_def)
  show ?thesis
    using implements_string [OF bytes_at_simps(1), of m src]
    unfolding pb_enc_string_def [abs_def] string_bytes_def nil Let_def
    by (auto simp del: implements_simps bytes_at_simps)
qed

lemma implements_fixed_length: "implements (pb_enc_fixed_length_bytes m field src) (delimited (bytes_of (bytes_at m src (unat (data_size field)))))"
  unfolding pb_enc_fixed_length_bytes_def [abs_def] Let_def by (rule implements_string) simp

lemma implements_value:
  assumes "\<And>tbl a. implements (enc tbl a) (message tbl a)"
  shows "implements (PB_ENCODERS enc env (PB_LTYPE (f_type field)) field src) (value_bytes message env field src)"
proof -
  have "implements (pb_enc_submessage enc env field src) (if f_ptr field = 0 then Invalid else delimited (message (tables env (f_ptr field)) src))"
    using implements_submessage [OF assms] implements_error
    unfolding pb_enc_submessage_def [abs_def] by (auto simp del: implements_simps)
  then show ?thesis
    using implements_scalars implements_bytes_array implements_c_string implements_fixed_length
    unfolding PB_ENCODERS_def [abs_def] value_bytes_def Let_def
    by (auto simp del: implements_simps(1,2))
qed

section \<open>Arrays\<close>

lemma items_Suc: "items field p (Suc n) = p # items field (p + ucast (data_size field)) n"
  by (simp add: items_def map_upt_Suc algebra_simps del: upt_Suc)

lemma implements_items:
  assumes "\<And>p. implements (f p) (r p)"
  shows "implements (packed_items f (ucast (data_size field)) n p) (concat_bytes (map r (items field p n)))"
proof (induction n arbitrary: p)
  case 0
  then show ?case using implements_nil by (simp add: items_def fun_eq_iff [symmetric] del: implements_simps)
next
  case (Suc n)
  from implements_bind [OF assms [of p] Suc [of "p + ucast (data_size field)"]]
  show ?case by (simp add: items_Suc fun_eq_iff [symmetric] del: implements_simps)
qed

lemma concat_fixed:
  "concat_bytes (map r xs) = Bytes bs \<Longrightarrow> (\<And>x ds. r x = Bytes ds \<Longrightarrow> length ds = k) \<Longrightarrow> length bs = k * length xs"
proof (induction xs arbitrary: bs)
  case (Cons x xs)
  then obtain ds cs where "r x = Bytes ds" "concat_bytes (map r xs) = Bytes cs" "bs = ds @ cs"
    by (auto simp: followed_by_def split: encoding.splits if_splits)
  then show ?case using Cons by (simp add: algebra_simps)
qed simp

lemma emits_packed_data:
  assumes e: "emits (packed_items func step cnt pdata) bs"
  shows "emits (packed_data func step cnt pdata (length bs)) bs"
proof (rule emitsI)
  fix s :: "byte list pb_ostream"
  have eq: "buffered s \<Longrightarrow> packed_data func step cnt pdata (length bs) s = packed_items func step cnt pdata s"
    by (simp add: packed_data_def buffered_def)
  show "sizing s \<Longrightarrow> packed_data func step cnt pdata (length bs) s = Some (True, grow (length bs) s)"
    by (simp add: packed_data_def sizing_def pb_write_def grow_def Let_def)
  show "buffered s \<Longrightarrow> bytes_written s + length bs \<le> max_size s \<Longrightarrow>
      packed_data func step cnt pdata (length bs) s = Some (True, put bs s)"
    using emits_fits [OF e] eq by simp
  show "buffered s \<Longrightarrow> \<not> bytes_written s + length bs \<le> max_size s \<Longrightarrow>
      \<exists>s' k. packed_data func step cnt pdata (length bs) s = Some (False, s') \<and> stored s (take k bs) s'"
    using emits_full [OF e] eq by simp
qed

lemma implements_packed:
  assumes items: "implements (packed_items func step cnt pdata) r"
    and size: "\<And>bs. r = Bytes bs \<Longrightarrow> packed_size func null field pdata cnt = Some (Some (length bs))"
      "r = Invalid \<Longrightarrow> packed_size func null field pdata cnt = Some None"
  shows "implements (\<lambda>s. case packed_size func null field pdata cnt of
           None \<Rightarrow> None
         | Some None \<Rightarrow> Some (False, s)
         | Some (Some sz) \<Rightarrow>
             wr_bind (Some (pb_encode_varint (word_of_nat sz) s)) (packed_data func step cnt pdata sz)) (delimited r)"
proof (cases r)
  case (Bytes bs)
  then have e: "emits (packed_items func step cnt pdata) bs" using items by simp
  show ?thesis using emits_bind [OF emits_varint emits_packed_data [OF e]]
    by (auto simp: Bytes size(1) delimited_def bytes_of_def)
next
  case Invalid
  have "refuses (\<lambda>s. Some (False, s))" by (auto simp: refuses_def stored_def buffered_def)
  then show ?thesis using Invalid size(2) by (simp add: delimited_def)
qed (simp add: delimited_def)


lemma implements_array:
  assumes func: "\<And>p. implements (func p) (val p)"
    and fixed: "\<And>p ds. PB_LTYPE (f_type field) = PB_LTYPE_FIXED32 \<Longrightarrow> val p = Bytes ds \<Longrightarrow> length ds = 4"
      "\<And>p ds. PB_LTYPE (f_type field) = PB_LTYPE_FIXED64 \<Longrightarrow> val p = Bytes ds \<Longrightarrow> length ds = 8"
    and valid: "\<And>p. PB_LTYPE (f_type field) \<in> {PB_LTYPE_FIXED32, PB_LTYPE_FIXED64} \<Longrightarrow> val p \<noteq> Invalid"
  shows "implements (encode_array env func field pdata cnt) (array_bytes val (mem env) field pdata cnt)"
proof -
  let ?step = "ucast (data_size field) :: uint64"
  let ?r = "concat_bytes (map val (items field pdata cnt))"
  have items: "implements (packed_items func ?step cnt pdata) ?r" by (rule implements_items [OF func])
  have len: "length (items field pdata cnt) = cnt" by (simp add: items_def)
  have never: "\<forall>p. val p \<noteq> Invalid \<Longrightarrow> concat_bytes (map val ps) \<noteq> Invalid" for ps
    by (induction ps) (auto simp: followed_by_def split: encoding.splits)
  have size: "?r = Bytes bs \<Longrightarrow> packed_size func null field pdata cnt = Some (Some (length bs))" for bs null
  proof -
    assume r: "?r = Bytes bs"
    have "length bs = 4 * cnt" if "PB_LTYPE (f_type field) = PB_LTYPE_FIXED32"
      using concat_fixed [OF r fixed(1) [OF that]] len by simp
    moreover have "length bs = 8 * cnt" if "PB_LTYPE (f_type field) = PB_LTYPE_FIXED64"
      using concat_fixed [OF r fixed(2) [OF that]] len by simp
    moreover obtain t where "packed_items func ?step cnt pdata (PB_OSTREAM_SIZING null) = Some (True, t)" "bytes_written t = length bs"
      using emits_null [of "packed_items func ?step cnt pdata" bs null] items r by auto
    ultimately show ?thesis by (simp add: packed_size_def)
  qed
  have bad: "?r = Invalid \<Longrightarrow> packed_size func null field pdata cnt = Some None" for null
  proof -
    assume r: "?r = Invalid"
    then have "PB_LTYPE (f_type field) \<notin> {PB_LTYPE_FIXED32, PB_LTYPE_FIXED64}" using never valid by blast
    moreover obtain t where "packed_items func ?step cnt pdata (PB_OSTREAM_SIZING null) = Some (False, t)"
      using items sizing_null [of null] r by (auto simp: refuses_def)
    ultimately show ?thesis by (simp add: packed_size_def)
  qed
  have packed: "implements (\<lambda>s. wr_bind (Some (pb_encode_tag PB_WT_STRING (f_tag field) s)) (\<lambda>s.
        case packed_size func (null_state env) field pdata cnt of
          None \<Rightarrow> None
        | Some None \<Rightarrow> Some (False, s)
        | Some (Some sz) \<Rightarrow>
            wr_bind (Some (pb_encode_varint (word_of_nat sz) s)) (packed_data func ?step cnt pdata sz)))
      (followed_by (Bytes (tag_bytes PB_WT_STRING (f_tag field))) (delimited ?r))"
    by (rule implements_bind [OF implements_tag implements_packed [OF items size bad]])
  have tagged: "implements (tagged_item func (mem env) field p) (followed_by (field_tag field) (val (array_item (mem env) field p)))" for p
    unfolding tagged_item_def [abs_def] by (rule implements_bind [OF implements_field_tag func])
  show ?thesis
    using implements_nil implements_error packed implements_items [OF tagged]
    unfolding encode_array_def [abs_def] array_bytes_def Let_def
    by (auto simp del: implements_simps(1,2))
qed

section \<open>Fields and messages\<close>

text \<open>What callbacks and extension encoders promise to write.\<close>

record pb_contract =
  callback_bytes :: "addr \<Rightarrow> pb_field \<Rightarrow> addr \<Rightarrow> encoding"
  extension_bytes :: "addr \<Rightarrow> addr \<Rightarrow> encoding"

definition honest :: "byte list pb_env \<Rightarrow> pb_contract \<Rightarrow> bool" where
  "honest env c \<longleftrightarrow>
     (\<forall>f field arg. implements (call_encode env f field arg) (callback_bytes c f field arg)) \<and>
     (\<forall>f ext. implements (call_extension env f ext) (extension_bytes c f ext))"

definition tagged_bytes :: "(addr \<Rightarrow> encoding) \<Rightarrow> pb_field \<Rightarrow> addr \<Rightarrow> encoding" where
  "tagged_bytes val field pdata = followed_by (field_tag field) (val pdata)"

definition basic_bytes ::
  "nat \<Rightarrow> (pb_field list \<Rightarrow> addr \<Rightarrow> encoding) \<Rightarrow> byte list pb_env \<Rightarrow> pb_field \<Rightarrow> addr \<Rightarrow> encoding" where
  "basic_bytes n message env field pdata =
     (let val = value_bytes message env field; m = mem env; ht = PB_HTYPE (f_type field);
          pointer = (PB_ATYPE (f_type field) = PB_ATYPE_POINTER);
          has_size = (size_offset field \<noteq> 0); psize = pdata + scast (size_offset field);
          data = (if pointer then load_ptr m pdata else pdata);
          default = (if has_size \<or> ht \<noteq> PB_HTYPE_OPTIONAL then Some False else pb_check_proto3_default_value n env field pdata)
      in if default = None then Beyond
         else if ht = PB_HTYPE_REQUIRED then if data = 0 then Invalid else tagged_bytes val field data
         else if ht = PB_HTYPE_OPTIONAL then
           if (if has_size then m psize \<noteq> 0 else if pointer then data \<noteq> 0 else default = Some False)
           then tagged_bytes val field data else Bytes []
         else if ht = PB_HTYPE_REPEATED
         then array_bytes val m field data (unat (if has_size then load_size m psize else array_size field))
         else if \<not> has_size then Beyond
         else if load_size m psize = f_tag field then tagged_bytes val field data else Bytes [])"

definition field_bytes ::
  "nat \<Rightarrow> (pb_field list \<Rightarrow> addr \<Rightarrow> encoding) \<Rightarrow> byte list pb_env \<Rightarrow> pb_contract \<Rightarrow> pb_field \<Rightarrow> addr \<Rightarrow> encoding" where
  "field_bytes n message env c field pdata =
     (let at = PB_ATYPE (f_type field); func = load_ptr (mem env) pdata in
      if at = PB_ATYPE_STATIC \<or> at = PB_ATYPE_POINTER then basic_bytes n message env field pdata
      else if at = PB_ATYPE_CALLBACK then if func = 0 then Bytes [] else callback_bytes c func field (pdata + 8)
      else Invalid)"

definition one_extension ::
  "nat \<Rightarrow> (pb_field list \<Rightarrow> addr \<Rightarrow> encoding) \<Rightarrow> byte list pb_env \<Rightarrow> pb_contract \<Rightarrow> addr \<Rightarrow> encoding" where
  "one_extension n message env c ext =
     (let m = mem env; type = load_ptr m ext; encode = load_ptr m (type + 8); field = ext_field env (load_ptr m (type + 16)) in
      if encode \<noteq> 0 then extension_bytes c encode ext
      else field_bytes n message env c field
             (if PB_ATYPE (f_type field) = PB_ATYPE_POINTER then ext + 8 else load_ptr m (ext + 8)))"

text \<open>The addresses of a list of extensions, unless it is longer than the fuel.\<close>

primrec extension_list :: "nat \<Rightarrow> memory \<Rightarrow> addr \<Rightarrow> addr list option" where
  "extension_list 0 m ext = (if ext = 0 then Some [] else None)"
| "extension_list (Suc k) m ext =
     (if ext = 0 then Some [] else map_option ((#) ext) (extension_list k m (load_ptr m (ext + 16))))"

definition any_field_bytes ::
  "nat \<Rightarrow> (pb_field list \<Rightarrow> addr \<Rightarrow> encoding) \<Rightarrow> byte list pb_env \<Rightarrow> pb_contract \<Rightarrow> pb_field \<Rightarrow> addr \<Rightarrow> encoding" where
  "any_field_bytes n message env c field pdata =
     (if PB_LTYPE (f_type field) = PB_LTYPE_EXTENSION
      then (case extension_list n (mem env) (load_ptr (mem env) pdata) of
        None \<Rightarrow> Beyond
      | Some exts \<Rightarrow> concat_bytes (map (one_extension n message env c) exts))
      else field_bytes n message env c field pdata)"

text \<open>Where the fields of a structure are, from the address of the field before.\<close>

definition field_width :: "pb_field \<Rightarrow> addr" where
  "field_width f =
     (if PB_ATYPE (f_type f) = PB_ATYPE_STATIC \<and> PB_HTYPE (f_type f) = PB_HTYPE_REPEATED
      then ucast (data_size f) * ucast (array_size f)
      else if PB_ATYPE (f_type f) = PB_ATYPE_POINTER then 8 else ucast (data_size f))"

definition in_union :: "pb_field \<Rightarrow> pb_field \<Rightarrow> bool" where
  "in_union prev f \<longleftrightarrow>
     PB_HTYPE (f_type prev) = PB_HTYPE_ONEOF \<and> PB_HTYPE (f_type f) = PB_HTYPE_ONEOF \<and> data_offset f = PB_SIZE_MAX"

fun layout :: "pb_field \<Rightarrow> addr \<Rightarrow> pb_field list \<Rightarrow> (pb_field \<times> addr) list" where
  "layout prev a [] = []"
| "layout prev a (f # fs) =
     (if f_tag f = 0 then []
      else let a' = (if in_union prev f then a else a + field_width prev + ucast (data_offset f)) in (f, a') # layout f a' fs)"

definition message_fields :: "pb_field list \<Rightarrow> addr \<Rightarrow> (pb_field \<times> addr) list" where
  "message_fields tbl src =
     (case tbl of
       [] \<Rightarrow> []
     | f # fs \<Rightarrow> if f_tag f = 0 then [] else let a = src + ucast (data_offset f) in (f, a) # layout f a fs)"

primrec message_bytes :: "nat \<Rightarrow> byte list pb_env \<Rightarrow> pb_contract \<Rightarrow> pb_field list \<Rightarrow> addr \<Rightarrow> encoding" where
  "message_bytes 0 env c tbl src = Beyond"
| "message_bytes (Suc n) env c tbl src =
     concat_bytes (map (\<lambda>(field, a). any_field_bytes n (message_bytes n env c) env c field a) (message_fields tbl src))"

lemma value_fixed:
  "PB_LTYPE (f_type field) = PB_LTYPE_FIXED32 \<Longrightarrow> value_bytes message env field p = Bytes (fixed32_bytes (ucast (load (mem env) p 4)))"
  "PB_LTYPE (f_type field) = PB_LTYPE_FIXED64 \<Longrightarrow> value_bytes message env field p = Bytes (fixed64_bytes (load (mem env) p 8))"
  by (simp_all add: value_bytes_def PB_LTYPE_BOOL_def PB_LTYPE_VARINT_def PB_LTYPE_UVARINT_def PB_LTYPE_SVARINT_def
      PB_LTYPE_FIXED32_def PB_LTYPE_FIXED64_def Let_def)

lemma implements_basic:
  assumes enc: "\<And>tbl a. implements (enc tbl a) (message tbl a)"
  shows "implements (encode_basic_field n enc env field pdata) (basic_bytes n message env field pdata)"
proof -
  let ?func = "PB_ENCODERS enc env (PB_LTYPE (f_type field)) field" and ?val = "value_bytes message env field"
  have func: "implements (?func p) (?val p)" for p by (rule implements_value [OF enc])
  have array: "implements (encode_array env ?func field p cnt) (array_bytes ?val (mem env) field p cnt)" for p cnt
    by (rule implements_array [OF func]) (auto simp: value_fixed length_fixed)
  have tagged: "implements (tag_and_value ?func field p) (tagged_bytes ?val field p)" for p
    unfolding tag_and_value_def [abs_def] tagged_bytes_def by (rule implements_bind [OF implements_field_tag func])
  show ?thesis
    using array tagged implements_nil implements_error
    unfolding encode_basic_field_def [abs_def] basic_bytes_def Let_def safe_read_bool_def
    by (auto simp del: implements_simps(1,2) split: option.splits)
qed

lemma implements_failing:
  assumes "implements w r"
  shows "implements (\<lambda>s. case w s of None \<Rightarrow> None | Some (ok, s) \<Rightarrow> if ok then Some (True, s) else ret_error msg s) r"
proof (cases r)
  case (Bytes bs)
  then have e: "emits w bs" and n: "length bs < size_bound" using assms by simp_all
  have "emits (\<lambda>s. case w s of None \<Rightarrow> None | Some (ok, s) \<Rightarrow> if ok then Some (True, s) else ret_error msg s) bs"
  proof (rule emitsI)
    fix s :: "byte list pb_ostream"
    assume "buffered s" "\<not> bytes_written s + length bs \<le> max_size s"
    then obtain s' k where "w s = Some (False, s')" "stored s (take k bs) s'" using emits_full [OF e] by blast
    then show "\<exists>s' k. (case w s of None \<Rightarrow> None | Some (ok, s) \<Rightarrow> if ok then Some (True, s) else ret_error msg s) = Some (False, s') \<and>
        stored s (take k bs) s'" by (auto simp: ret_error_def set_oerror_def stored_def)
  qed (simp_all add: emits_sizing [OF e] emits_fits [OF e])
  then show ?thesis using n Bytes by simp
next
  case Invalid
  then show ?thesis using assms by (fastforce simp: refuses_def ret_error_def set_oerror_def stored_def)
qed simp

lemma implements_field:
  assumes enc: "\<And>tbl a. implements (enc tbl a) (message tbl a)" and "honest env c"
  shows "implements (encode_field n enc env field pdata) (field_bytes n message env c field pdata)"
proof -
  have cb: "implements (encode_callback_field env field pdata)
      (if load_ptr (mem env) pdata = 0 then Bytes [] else callback_bytes c (load_ptr (mem env) pdata) field (pdata + 8))"
    using implements_nil implements_failing assms(2)
    unfolding encode_callback_field_def [abs_def] Let_def honest_def by (auto simp del: implements_simps)
  show ?thesis
    using implements_basic [OF enc] cb implements_error
    unfolding encode_field_def [abs_def] field_bytes_def Let_def by (auto simp del: implements_simps)
qed

lemma implements_extension:
  assumes enc: "\<And>tbl a. implements (enc tbl a) (message tbl a)" and h: "honest env c"
  shows "implements (encode_extension n enc env ext) (one_extension n message env c ext)"
  using implements_field [OF enc h] h
  unfolding encode_extension_def [abs_def] one_extension_def default_extension_encoder_def Let_def honest_def
  by (auto simp del: implements_simps)

lemma implements_extension_loop:
  assumes "\<And>ext. implements (f ext) (r ext)"
  shows "implements (extension_loop k f m ext)
    (case extension_list k m ext of None \<Rightarrow> Beyond | Some exts \<Rightarrow> concat_bytes (map r exts))"
proof (induction k arbitrary: ext)
  case 0
  then show ?case using implements_nil by (simp add: fun_eq_iff [symmetric] del: implements_simps(1,2))
next
  case (Suc k)
  from implements_bind [OF assms [of ext] Suc [of "load_ptr m (ext + 16)"]]
  show ?case using implements_nil
    by (cases "extension_list k m (load_ptr m (ext + 16))")
      (auto simp: fun_eq_iff [symmetric] followed_by_def simp del: implements_simps(1,2))
qed


lemma implements_any_field:
  assumes enc: "\<And>tbl a. implements (enc tbl a) (message tbl a)" and h: "honest env c"
  shows "implements (encode_any_field n enc env field pdata) (any_field_bytes n message env c field pdata)"
  using implements_field [OF enc h] implements_extension_loop [OF implements_extension [OF enc h]]
  unfolding encode_any_field_def [abs_def] any_field_bytes_def encode_extension_field_def by auto

lemma iter_next_layout:
  assumes it: "f_tag (it_field it) \<noteq> 0" and fs: "drop (Suc (pos it)) (start it) = fs"
  shows "fs = [] \<or> f_tag (hd fs) = 0 \<Longrightarrow> \<exists>it'. pb_field_iter_next it = (it', False)"
    and "fs = f # gs \<Longrightarrow> f_tag f \<noteq> 0 \<Longrightarrow>
      \<exists>it'. pb_field_iter_next it = (it', True) \<and> it_field it' = f \<and> drop (Suc (pos it')) (start it') = gs \<and>
        pData it' = (if in_union (it_field it) f then pData it else pData it + field_width (it_field it) + ucast (data_offset f))"
proof -
  have next_field: "it_field (it\<lparr>pos := Suc (pos it)\<rparr>) = (case fs of [] \<Rightarrow> PB_LAST_FIELD | f # _ \<Rightarrow> f)"
    using fs by (auto simp: it_field_def field_at_def Cons_nth_drop_Suc [symmetric] split: list.splits)
  show "fs = [] \<or> f_tag (hd fs) = 0 \<Longrightarrow> \<exists>it'. pb_field_iter_next it = (it', False)"
    using it next_field by (auto simp: pb_field_iter_next_def Let_def PB_LAST_FIELD_def split: list.splits)
  assume f: "fs = f # gs" "f_tag f \<noteq> 0"
  then have gs: "drop (Suc (Suc (pos it))) (start it) = gs"
    using fs by (metis drop_Suc tl_drop list.sel(3))
  show "\<exists>it'. pb_field_iter_next it = (it', True) \<and> it_field it' = f \<and> drop (Suc (pos it')) (start it') = gs \<and>
      pData it' = (if in_union (it_field it) f then pData it else pData it + field_width (it_field it) + ucast (data_offset f))"
    using it next_field f gs
    by (auto simp: pb_field_iter_next_def it_field_def in_union_def field_width_def Let_def)
qed

lemma implements_fields:
  assumes "\<And>field a. implements (f field a) (r field a)" and "f_tag (it_field it) \<noteq> 0" and "drop (Suc (pos it)) (start it) = fs"
  shows "implements (fields_loop f it) (concat_bytes (map (case_prod r) ((it_field it, pData it) # layout (it_field it) (pData it) fs)))"
  using assms(2,3)
proof (induction fs arbitrary: it)
  case Nil
  then obtain it' where "pb_field_iter_next it = (it', False)" using iter_next_layout(1) by blast
  then have "fields_loop f it = (\<lambda>s. wr_bind (f (it_field it) (pData it) s) (\<lambda>s. Some (True, s)))"
    by (rule_tac ext, subst fields_loop.simps) (auto simp: wr_bind_def split: option.splits)
  then show ?case using implements_bind [OF assms(1) implements_nil] by simp
next
  case (Cons g gs)
  show ?case
  proof (cases "f_tag g = 0")
    case True
    then obtain it' where "pb_field_iter_next it = (it', False)" using iter_next_layout(1) [OF Cons.prems] by auto
    then have "fields_loop f it = (\<lambda>s. wr_bind (f (it_field it) (pData it) s) (\<lambda>s. Some (True, s)))"
      by (rule_tac ext, subst fields_loop.simps) (auto simp: wr_bind_def split: option.splits)
    then show ?thesis using implements_bind [OF assms(1) implements_nil] True by simp
  next
    case False
    then obtain it' where it': "pb_field_iter_next it = (it', True)" "it_field it' = g" "drop (Suc (pos it')) (start it') = gs"
      "pData it' = (if in_union (it_field it) g then pData it else pData it + field_width (it_field it) + ucast (data_offset g))"
      using iter_next_layout(2) [OF Cons.prems refl] by blast
    have "fields_loop f it = (\<lambda>s. wr_bind (f (it_field it) (pData it) s) (fields_loop f it'))"
      by (rule ext, subst fields_loop.simps) (auto simp: wr_bind_def it'(1) split: option.splits)
    moreover have "implements (fields_loop f it') (concat_bytes (map (case_prod r) ((g, pData it') # layout g (pData it') gs)))"
      using Cons.IH [of it'] it' False by simp
    ultimately show ?thesis
      using implements_bind [OF assms(1), of "fields_loop f it'" _ "it_field it" "pData it"] False it'(4)
      by (simp add: Let_def)
  qed
qed

theorem pb_encode_implements:
  "honest env c \<Longrightarrow> implements (pb_encode n env tbl src) (message_bytes n env c tbl src)"
proof (induction n arbitrary: tbl src)
  case (Suc n)
  have any: "implements (encode_any_field n (pb_encode n env) env field a) (any_field_bytes n (message_bytes n env c) env c field a)" for field a
    by (rule implements_any_field [OF Suc.IH [OF Suc.prems] Suc.prems])
  obtain it where it: "pb_field_iter_begin tbl src = (it, f_tag (field_at tbl 0) \<noteq> 0)" "it_field it = field_at tbl 0"
    "pData it = src + ucast (data_offset (field_at tbl 0))" "start it = tbl" "pos it = 0"
    by (simp add: pb_field_iter_begin_def it_field_def Let_def)
  show ?case
  proof (cases "f_tag (field_at tbl 0) = 0")
    case True
    then have "message_fields tbl src = []" by (auto simp: message_fields_def field_at_def split: list.splits)
    then show ?thesis using implements_nil it True by (simp add: fun_eq_iff [symmetric] del: implements_simps)
  next
    case False
    then obtain f fs where tbl: "tbl = f # fs" by (cases tbl) (auto simp: field_at_def PB_LAST_FIELD_def)
    then have f: "field_at tbl 0 = f" by (simp add: field_at_def)
    have "implements (fields_loop (encode_any_field n (pb_encode n env) env) it)
        (concat_bytes (map (case_prod (any_field_bytes n (message_bytes n env c) env c)) (message_fields tbl src)))"
      using implements_fields [OF any, of it fs] it False tbl f by (simp add: message_fields_def Let_def)
    then show ?thesis using it(1) False by (simp add: fun_eq_iff [symmetric] del: implements_simps)
  qed
qed simp

end
