(* ===== verification/PbFormat.thy ===== *)
theory PbFormat
  imports PbRefine
begin

text \<open>
  What the encoder of nanopb puts on the wire: a sequence of fields that the functions of
  \<open>pb_decode.c\<close> take apart again. Conditions under which encoding ends, and the properties of the
  encoder.
\<close>

section \<open>The wire format\<close>

definition wire_value :: "uint32 \<Rightarrow> byte list \<Rightarrow> bool" where
  "wire_value wt bs \<longleftrightarrow>
     wt = PB_WT_VARINT \<and> (\<exists>v. bs = vb v) \<or>
     wt = PB_WT_64BIT \<and> length bs = 8 \<or>
     wt = PB_WT_32BIT \<and> length bs = 4 \<or>
     wt = PB_WT_STRING \<and> (\<exists>ds. bs = vb (word_of_nat (length ds)) @ ds)"

inductive wire_message :: "byte list \<Rightarrow> bool" where
  empty: "wire_message []"
| field: "0 < num \<Longrightarrow> num < 2 ^ 29 \<Longrightarrow> wire_value wt val \<Longrightarrow> wire_message rest \<Longrightarrow>
    wire_message (tag_bytes wt num @ val @ rest)"

text \<open>The writers the encoder is given put fields on the wire, and the tables have valid tags.\<close>

definition is_wire :: "encoding \<Rightarrow> bool" where
  "is_wire r \<longleftrightarrow> (\<forall>bs. r = Bytes bs \<longrightarrow> wire_message bs)"

definition good_tag :: "pb_field \<Rightarrow> bool" where
  "good_tag f \<longleftrightarrow> f_tag f < 2 ^ 29"

definition wire_contract :: "pb_contract \<Rightarrow> bool" where
  "wire_contract c \<longleftrightarrow> (\<forall>f field arg. is_wire (callback_bytes c f field arg)) \<and> (\<forall>f ext. is_wire (extension_bytes c f ext))"

definition good_tables :: "byte list pb_env \<Rightarrow> bool" where
  "good_tables env \<longleftrightarrow> (\<forall>a. list_all good_tag (tables env a)) \<and> (\<forall>a. good_tag (ext_field env a) \<and> f_tag (ext_field env a) \<noteq> 0)"

lemma wire_message_append: "wire_message xs \<Longrightarrow> wire_message ys \<Longrightarrow> wire_message (xs @ ys)"
  by (induction rule: wire_message.induct) (auto intro: wire_message.field)

lemma wire_one: "0 < num \<Longrightarrow> num < 2 ^ 29 \<Longrightarrow> wire_value wt val \<Longrightarrow> wire_message (tag_bytes wt num @ val)"
  using wire_message.field [OF _ _ _ wire_message.empty] by simp

lemma is_wire_simps [simp]: "is_wire (Bytes bs) \<longleftrightarrow> wire_message bs" "is_wire Invalid" "is_wire Beyond"
  by (simp_all add: is_wire_def)

lemma is_wire_followed: "is_wire r1 \<Longrightarrow> is_wire r2 \<Longrightarrow> is_wire (followed_by r1 r2)"
  by (cases r1; cases r2) (auto simp: followed_by_def wire_message_append)

lemma is_wire_concat: "list_all is_wire rs \<Longrightarrow> is_wire (concat_bytes rs)"
  by (induction rs) (auto intro: is_wire_followed wire_message.empty)

definition is_value :: "uint32 option \<Rightarrow> encoding \<Rightarrow> bool" where
  "is_value wt r \<longleftrightarrow> (\<forall>w bs. wt = Some w \<longrightarrow> r = Bytes bs \<longrightarrow> wire_value w bs)"

lemma delimited_value: "delimited r = Bytes bs \<Longrightarrow> wire_value PB_WT_STRING bs"
  by (auto simp: delimited_def bytes_of_def wire_value_def split: encoding.splits if_splits)

lemma is_value_bytes: "is_value (wire_type_of (PB_LTYPE (f_type field))) (value_bytes message env field p)"
proof -
  let ?lt = "PB_LTYPE (f_type field)"
  have 1: "integer_bytes field v = Bytes bs \<Longrightarrow> wire_value PB_WT_VARINT bs" for v bs
    by (auto simp: integer_bytes_def wire_value_def split: if_splits)
  show ?thesis
  proof (cases "?lt \<le> PB_LTYPE_SVARINT")
    case True
    then have "?lt = PB_LTYPE_BOOL \<or> ?lt = PB_LTYPE_VARINT \<or> ?lt = PB_LTYPE_UVARINT \<or> ?lt = PB_LTYPE_SVARINT" by (simp add: ltypes_distinct)
    then show ?thesis using 1 True unfolding is_value_def value_bytes_def wire_type_of_def Let_def
      by (elim disjE) (auto simp: wire_value_def split: if_splits)
  next
    case False
    then show ?thesis using delimited_value value_fixed length_fixed unfolding is_value_def wire_type_of_def
      by (auto simp: value_bytes_def ltypes_distinct Let_def PB_LTYPE_FIXED32_def PB_LTYPE_FIXED64_def PB_LTYPE_BYTES_def
        PB_LTYPE_STRING_def PB_LTYPE_SUBMESSAGE_def PB_LTYPE_FIXED_LENGTH_BYTES_def wire_value_def length_fixed split: if_splits)
  qed
qed

lemma is_wire_tagged:
  assumes "is_value (wire_type_of (PB_LTYPE (f_type field))) r" and "good_tag field" and "f_tag field \<noteq> 0"
  shows "is_wire (followed_by (field_tag field) r)"
  using assms wire_one [of "f_tag field"]
  by (cases r) (auto simp: followed_by_def field_tag_def is_value_def good_tag_def word_neq_0_conv split: option.splits if_splits)

lemma is_wire_field:
  assumes "good_tag field" and "f_tag field \<noteq> 0" and "wire_contract c"
  shows "is_wire (field_bytes n message env c field pdata)"
proof -
  note tagged = is_wire_tagged [OF is_value_bytes assms(1,2)]
  have "is_wire (followed_by (Bytes (tag_bytes PB_WT_STRING (f_tag field))) (delimited r))" for r
    using wire_one [OF _ _ delimited_value, of "f_tag field" r] assms(1,2)
    by (cases "delimited r") (auto simp: followed_by_def good_tag_def word_neq_0_conv)
  then have array: "is_wire (array_bytes (value_bytes message env field) m field p cnt)" for m p cnt
    by (auto simp: array_bytes_def wire_message.empty tagged intro!: is_wire_concat simp: list_all_iff)
  have "is_wire (basic_bytes n message env field pdata)"
    using array tagged by (auto simp: basic_bytes_def tagged_bytes_def wire_message.empty Let_def)
  then show ?thesis using assms(3) by (auto simp: field_bytes_def wire_contract_def wire_message.empty Let_def)
qed

lemma layout_good: "list_all good_tag fs \<Longrightarrow> \<forall>(f, a') \<in> set (layout prev a fs). good_tag f \<and> f_tag f \<noteq> 0"
  by (induction fs arbitrary: prev a) (auto simp: Let_def)

lemma is_wire_message:
  assumes "good_tables env" and "wire_contract c" and "list_all good_tag tbl"
  shows "is_wire (message_bytes n env c tbl src)"
proof (cases n)
  case (Suc k)
  have ext: "is_wire (one_extension k (message_bytes k env c) env c e)" for e
    using assms is_wire_field by (auto simp: one_extension_def wire_contract_def good_tables_def Let_def)
  have "is_wire (any_field_bytes k (message_bytes k env c) env c f a)" if "good_tag f" "f_tag f \<noteq> 0" for f a
    using is_wire_field [OF that assms(2)] ext
    by (auto simp: any_field_bytes_def list_all_iff intro!: is_wire_concat split: option.splits)
  moreover have "\<forall>(f, a) \<in> set (message_fields tbl src). good_tag f \<and> f_tag f \<noteq> 0"
    using assms(3) layout_good [of "tl tbl" "hd tbl" "src + ucast (data_offset (hd tbl))"]
    by (cases tbl) (auto simp: message_fields_def Let_def)
  ultimately have "list_all is_wire
      (map (\<lambda>(f, a). any_field_bytes k (message_bytes k env c) env c f a) (message_fields tbl src))"
    unfolding list_all_iff by fastforce
  then show ?thesis unfolding Suc message_bytes.simps by (rule is_wire_concat)
qed simp

section \<open>Reading the fields back\<close>

text \<open>
  What \<open>pb_decode\<close> does with fields it does not know: the number, the wire type and the bytes of the
  value of each. A tag of zero, which also ends \<open>pb_decode\<close>, is an error here.
\<close>

type_synonym raw_field = "uint32 \<times> uint32 \<times> byte list"

fun skip_fields :: "nat \<Rightarrow> pb_istream \<Rightarrow> raw_field list option" where
  "skip_fields 0 s = None"
| "skip_fields (Suc n) s =
     (if bytes_left s = 0 then Some []
      else (case pb_decode_tag s of
        (None, _, _) \<Rightarrow> None
      | (Some (wt, num), _, s1) \<Rightarrow>
          (case pb_skip_field wt s1 of (ok, s2) \<Rightarrow>
             if ok then map_option ((#) (num, wt, take (bytes_left s1 - bytes_left s2) (i_state s1))) (skip_fields n s2) else None)))"

definition raw_bytes :: "raw_field list \<Rightarrow> byte list" where
  "raw_bytes fs = concat (map (\<lambda>(num, wt, val). tag_bytes wt num @ val) fs)"

definition is_wire_type :: "uint32 \<Rightarrow> bool" where
  "is_wire_type wt \<longleftrightarrow> wt = PB_WT_VARINT \<or> wt = PB_WT_64BIT \<or> wt = PB_WT_32BIT \<or> wt = PB_WT_STRING"

lemma wire_type_value: "wire_value wt bs \<Longrightarrow> is_wire_type wt"
  by (auto simp: wire_value_def is_wire_type_def)

lemma tag_word:
  fixes num wt :: uint32
  assumes "num < 2 ^ 29" and "is_wire_type wt"
  shows "unat (push_bit 3 (ucast num) OR ucast wt :: uint64) < 2 ^ 32"
    and "(ucast (push_bit 3 (ucast num) OR ucast wt :: uint64) :: uint32) AND 7 = wt"
    and "drop_bit 3 (ucast (push_bit 3 (ucast num) OR ucast wt :: uint64) :: uint32) = num"
proof -
  have num: "num = take_bit 29 num" using assms(1)
    by (simp add: word_unat_eq_iff unsigned_take_bit_eq take_bit_nat_eq_self word_less_nat_alt)
  have wt: "wt = take_bit 3 wt" using assms(2)
    by (auto simp: is_wire_type_def PB_WT_VARINT_def PB_WT_64BIT_def PB_WT_32BIT_def PB_WT_STRING_def)
  have bn: "bit num k \<Longrightarrow> k < 29" for k using num bit_take_bit_iff [of 29 num k] by metis
  have bw: "bit wt k \<Longrightarrow> k < 3" for k using wt bit_take_bit_iff [of 3 wt k] by metis
  have b7: "bit (7 :: uint32) k \<longleftrightarrow> k < 3" for k
    using bit_mask_iff [of 3 k, where ?'a = "32 word"] by (auto simp: mask_eq_exp_minus_1)
  let ?w = "push_bit 3 (ucast num) OR ucast wt :: uint64"
  have b: "bit ?w k \<longleftrightarrow> 3 \<le> k \<and> bit num (k - 3) \<or> bit wt k" for k
    using bn [of "k - 3"] bw [of k] by (auto simp: bit_or_iff bit_push_bit_iff bit_ucast_iff)
  have "?w = take_bit 32 ?w"
  proof (rule bit_word_eqI)
    fix k show "bit ?w k = bit (take_bit 32 ?w) k"
      unfolding bit_take_bit_iff b using bn [of "k - 3"] bw [of k] by linarith
  qed
  then have "unat ?w = take_bit 32 (unat ?w)" using unsigned_take_bit_eq [of 32 ?w, where ?'a = nat] by argo
  then show "unat ?w < 2 ^ 32" using take_bit_nat_less_exp [of 32 "unat ?w"] by argo
  have u: "bit (ucast ?w :: uint32) k \<longleftrightarrow> k < 32 \<and> bit ?w k" for k by (simp only: bit_ucast_iff) auto
  show "(ucast ?w :: uint32) AND 7 = wt"
  proof (rule bit_word_eqI)
    fix k show "bit ((ucast ?w :: uint32) AND 7) k = bit wt k"
      unfolding bit_and_iff u b b7 using bw [of k] by auto
  qed
  show "drop_bit 3 (ucast ?w :: uint32) = num"
  proof (rule bit_word_eqI)
    fix k show "bit (drop_bit 3 (ucast ?w :: uint32)) k = bit num k"
      unfolding bit_drop_bit_eq comp_apply u b using bn [of k] bw [of "3 + k"] by auto
  qed
qed

lemma decode_tag_bytes:
  assumes "holds (tag_bytes wt num) s" and "0 < num" "num < 2 ^ 29" and "is_wire_type wt"
  shows "pb_decode_tag s = (Some (wt, num), False, advance (length (tag_bytes wt num)) s)"
proof -
  let ?w = "push_bit 3 (ucast num) OR ucast wt :: uint64"
  note w = tag_word [OF assms(3,4)]
  have "(ucast ?w :: uint32) \<noteq> 0" using w(3) assms(2) by (metis drop_bit_of_0 word_less_nat_alt less_irrefl)
  then show ?thesis using decode_varint32_eof_vb [OF assms(1) [unfolded tag_bytes_def] w(1)] w(2,3)
    by (simp add: pb_decode_tag_def tag_bytes_def)
qed

lemma skip_bytes_holds: "holds bs s \<Longrightarrow> skip_bytes (length bs) s = (True, advance (length bs) s)"
  by (simp add: skip_bytes_def read_holds)

lemma skip_value:
  assumes "wire_value wt bs" and "holds bs s" and "length bs < 2 ^ 32"
  shows "pb_skip_field wt s = (True, advance (length bs) s)"
proof -
  have str: "pb_skip_string s = (True, advance (length bs) s)" if "bs = vb (word_of_nat (length ds)) @ ds" for ds
  proof -
    let ?v = "word_of_nat (length ds) :: uint64"
    have n: "length ds < 2 ^ 32" using assms(3) that by simp
    then have v: "unat ?v = length ds" by (simp add: unsigned_of_nat take_bit_nat_eq_self)
    have c: "unat (ucast ?v :: uint32) = length ds"
      using n v by (simp add: unsigned_ucast_eq take_bit_nat_eq_self)
    have h: "holds (vb ?v) s" "holds ds (advance (length (vb ?v)) s)" using assms(2) that by (simp_all add: holds_append)
    show ?thesis using decode_varint32_eof_vb [OF h(1)] skip_bytes_holds [OF h(2)] n v c that
      by (simp add: pb_skip_string_def pb_decode_varint32_def)
  qed
  show ?thesis using assms(1) unfolding wire_value_def
    using skip_varint_vb assms(2) skip_bytes_holds [OF assms(2)] str
    by (auto simp: pb_skip_field_def PB_WT_VARINT_def PB_WT_64BIT_def PB_WT_32BIT_def PB_WT_STRING_def)
qed

lemma skip_wire_message:
  "wire_message bs \<Longrightarrow> length bs < 2 ^ 32 \<Longrightarrow> holds bs s \<Longrightarrow> bytes_left s = length bs \<Longrightarrow> length bs < n \<Longrightarrow>
   \<exists>fs. skip_fields n s = Some fs \<and> raw_bytes fs = bs \<and> (\<forall>(num, wt, val) \<in> set fs. 0 < num \<and> num < 2 ^ 29 \<and> wire_value wt val)"
proof (induction arbitrary: n s rule: wire_message.induct)
  case empty
  then show ?case by (cases n) (simp_all add: raw_bytes_def)
next
  case (field num wt val rest)
  let ?t = "tag_bytes wt num"
  have h: "holds ?t s" "holds val (advance (length ?t) s)" "holds rest (advance (length ?t + length val) s)"
    using field.prems(2) by (simp_all add: holds_append)
  obtain k where n: "n = Suc k" using field.prems(4) by (cases n) auto
  have "?t \<noteq> []" by (simp add: tag_bytes_def)
  then have pos: "0 < length ?t" by simp
  then have len: "length val < 2 ^ 32" "length rest < 2 ^ 32" "length rest < k"
    using field.prems(1,4) unfolding n length_append by linarith+
  have left: "bytes_left s \<noteq> 0" using pos field.prems(3) by simp
  have "bytes_left (advance (length ?t + length val) s) = length rest" using field.prems(3) by (simp add: advance_def)
  from field.IH [OF len(2) h(3) this len(3)] obtain fs where fs: "skip_fields k (advance (length ?t + length val) s) = Some fs"
    "raw_bytes fs = rest" "\<forall>(num, wt, val) \<in> set fs. 0 < num \<and> num < 2 ^ 29 \<and> wire_value wt val" by blast
  have "take (bytes_left (advance (length ?t) s) - bytes_left (advance (length ?t + length val) s)) (i_state (advance (length ?t) s)) = val"
    using h(2) field.prems(3) by (auto simp: holds_def advance_def)
  then have "skip_fields n s = Some ((num, wt, val) # fs)"
    using decode_tag_bytes [OF h(1) field.hyps(1,2) wire_type_value [OF field.hyps(3)]] skip_value [OF field.hyps(3) h(2) len(1)] left fs(1)
    by (simp add: n)
  then show ?case using fs(2,3) field.hyps(1-3) by (simp add: raw_bytes_def)
qed

section \<open>Termination\<close>

text \<open>
  Tables without cycles: a rank decreases from a table to the tables of its submessages. The
  fields have no extensions, and a oneof has its tag in memory.
\<close>

definition flat :: "(addr \<Rightarrow> nat) \<Rightarrow> nat \<Rightarrow> pb_field \<Rightarrow> bool" where
  "flat rank k f \<longleftrightarrow>
     PB_LTYPE (f_type f) \<noteq> PB_LTYPE_EXTENSION \<and>
     (PB_LTYPE (f_type f) = PB_LTYPE_SUBMESSAGE \<longrightarrow> rank (f_ptr f) < k) \<and>
     (PB_HTYPE (f_type f) = PB_HTYPE_ONEOF \<longrightarrow> size_offset f \<noteq> 0)"

definition ranked :: "(addr \<Rightarrow> nat) \<Rightarrow> 's pb_env \<Rightarrow> bool" where
  "ranked rank env \<longleftrightarrow> (\<forall>a. list_all (flat rank (rank a)) (tables env a))"

definition answers :: "('s pb_ostream \<Rightarrow> 's outcome) \<Rightarrow> bool" where
  "answers w \<longleftrightarrow> (\<forall>s. w s \<noteq> None)"

lemma answersI: "(\<And>s. w s \<noteq> None) \<Longrightarrow> answers w"
  by (simp add: answers_def)

lemma answersD: "answers w \<Longrightarrow> w s \<noteq> None"
  by (simp add: answers_def)

lemma answer_bind: "r \<noteq> None \<Longrightarrow> (\<And>s. v s \<noteq> None) \<Longrightarrow> wr_bind r v \<noteq> None"
  by (cases r) (auto simp: wr_bind_def)

lemma answer_error: "ret_error msg s \<noteq> None"
  by (simp add: ret_error_def)

lemma answer_if: "(c \<Longrightarrow> x \<noteq> None) \<Longrightarrow> (\<not> c \<Longrightarrow> y \<noteq> None) \<Longrightarrow> (if c then x else y) \<noteq> None"
  by simp

lemma answer_case:
  "r \<noteq> None \<Longrightarrow> (\<And>ok s. f ok s \<noteq> None) \<Longrightarrow> (case r of None \<Rightarrow> None | Some (ok, s) \<Rightarrow> f ok s) \<noteq> None"
  by (cases r) auto

lemmas answer_rules = answer_bind answer_error answer_if answer_case option.distinct(2)

lemma answers_items: "(\<And>p. answers (f p)) \<Longrightarrow> answers (packed_items f step n p)"
proof (induction n arbitrary: p)
  case (Suc n)
  show ?case
    by (rule answersI, unfold packed_items.simps)
      (intro answer_bind answersD [OF Suc.prems] answersD [OF Suc.IH [OF Suc.prems]])
qed (simp add: answers_def)

lemma answers_submessage:
  assumes "answers enc"
  shows "answers (pb_encode_submessage enc null)"
proof (rule answersI)
  fix s
  have data: "submessage_data enc n s \<noteq> None" for n s
    unfolding submessage_data_def Let_def by (intro answer_rules answersD [OF assms])
  obtain ok t where "enc (PB_OSTREAM_SIZING null) = Some (ok, t)"
    using answersD [OF assms, of "PB_OSTREAM_SIZING null"] by auto
  then show "pb_encode_submessage enc null s \<noteq> None"
    using answer_bind [OF option.distinct(2) data] by (cases ok) (simp_all add: pb_encode_submessage_def del: not_None_eq)
qed

text \<open>The iterator stays in the table.\<close>

lemma field_in_table: "f_tag (it_field it) \<noteq> 0 \<Longrightarrow> it_field it \<in> set (start it)"
  by (auto simp: it_field_def field_at_def PB_LAST_FIELD_def split: if_splits)

lemma iter_next_field: "pb_field_iter_next it = (it', True) \<Longrightarrow> f_tag (it_field it') \<noteq> 0 \<and> start it' = start it"
  by (auto simp: pb_field_iter_next_def it_field_def Let_def split: if_splits)

lemma all_default_answers:
  "(\<And>f a. f \<in> set (start it) \<Longrightarrow> check f a \<noteq> None) \<Longrightarrow> f_tag (it_field it) \<noteq> 0 \<Longrightarrow> all_default check it \<noteq> None"
proof (induction check it rule: all_default.induct)
  case (1 check it)
  obtain d where d: "check (it_field it) (pData it) = Some d" using "1.prems" field_in_table by blast
  obtain it' again where it': "pb_field_iter_next it = (it', again)" by fastforce
  show ?case
  proof (cases "d \<and> again")
    case True
    then show ?thesis using "1.IH" [OF d _ it' [symmetric]] "1.prems" iter_next_field [of it it'] it' d
      by (subst all_default.simps) simp
  next
    case False
    then show ?thesis using d it' by (subst all_default.simps) (auto split: bool.splits)
  qed
qed

lemma fields_loop_answers:
  "(\<And>f a. f \<in> set (start it) \<Longrightarrow> answers (w f a)) \<Longrightarrow> f_tag (it_field it) \<noteq> 0 \<Longrightarrow> fields_loop w it s \<noteq> None"
proof (induction w it s rule: fields_loop.induct)
  case (1 w it s)
  obtain ok s' where r: "w (it_field it) (pData it) s = Some (ok, s')"
    using "1.prems" field_in_table [of it] unfolding answers_def by fastforce
  obtain it' again where it': "pb_field_iter_next it = (it', again)" by fastforce
  show ?case
  proof (cases "ok \<and> again")
    case True
    then show ?thesis using "1.IH" [OF r refl _ it' [symmetric]] "1.prems" iter_next_field [of it it'] it' r
      by (subst fields_loop.simps) simp
  next
    case False
    then show ?thesis using r it' by (subst fields_loop.simps) auto
  qed
qed

lemma check_answers:
  assumes "ranked rank env"
  shows "flat rank k f \<Longrightarrow> k < n \<Longrightarrow> pb_check_proto3_default_value n env f a \<noteq> None"
proof (induction n arbitrary: k f a)
  case (Suc n)
  let ?tbl = "tables env (f_ptr f)"
  have "singular_default (pb_check_proto3_default_value n env) env f a \<noteq> None"
  proof (cases "PB_LTYPE (f_type f) = PB_LTYPE_SUBMESSAGE")
    case True
    then have k: "rank (f_ptr f) < n" using Suc.prems by (simp add: flat_def)
    have "\<And>g b. g \<in> set ?tbl \<Longrightarrow> pb_check_proto3_default_value n env g b \<noteq> None"
      using Suc.IH [OF _ k] assms by (auto simp: ranked_def list_all_iff)
    then show ?thesis
      using all_default_answers [of "fst (pb_field_iter_begin ?tbl a)" "pb_check_proto3_default_value n env"]
      by (auto simp: singular_default_def pb_field_iter_begin_def it_field_def Let_def)
  qed (simp add: singular_default_def Let_def)
  then show ?case unfolding pb_check_proto3_default_value.simps Let_def by (intro answer_if) simp_all
qed simp

lemma tag_answers: "pb_encode_tag_for_field f s \<noteq> None"
  unfolding pb_encode_tag_for_field_def Let_def by (intro answer_rules)

text \<open>The table of encoders has an entry for every type whose tag can be written.\<close>

definition sub_answers :: "(pb_field list \<Rightarrow> addr \<Rightarrow> 's pb_ostream \<Rightarrow> 's outcome) \<Rightarrow> 's pb_env \<Rightarrow> pb_field \<Rightarrow> bool" where
  "sub_answers enc env f \<longleftrightarrow> (PB_LTYPE (f_type f) = PB_LTYPE_SUBMESSAGE \<longrightarrow> (\<forall>a. answers (enc (tables env (f_ptr f)) a)))"

lemma value_answers:
  assumes "sub_answers enc env f" and "wire_type_of (PB_LTYPE (f_type f)) \<noteq> None"
  shows "answers (PB_ENCODERS enc env (PB_LTYPE (f_type f)) f a)"
proof -
  have sub: "pb_enc_submessage enc env f a s \<noteq> None" if "PB_LTYPE (f_type f) = PB_LTYPE_SUBMESSAGE" for s
  proof -
    have "answers (enc (tables env (f_ptr f)) a)" using assms(1) that by (simp add: sub_answers_def)
    then show ?thesis unfolding pb_enc_submessage_def by (intro answer_rules answersD [OF answers_submessage])
  qed
  have others: "pb_enc_bool m a s \<noteq> None" "pb_enc_varint m f a s \<noteq> None" "pb_enc_uvarint m f a s \<noteq> None" "pb_enc_svarint m f a s \<noteq> None"
    "pb_enc_fixed32 m a s \<noteq> None" "pb_enc_fixed64 m a s \<noteq> None" "pb_enc_bytes m f a s \<noteq> None" "pb_enc_string m f a s \<noteq> None"
    "pb_enc_fixed_length_bytes m f a s \<noteq> None" for m s
    unfolding pb_enc_bool_def pb_enc_varint_def pb_enc_uvarint_def pb_enc_svarint_def pb_enc_fixed32_def pb_enc_fixed64_def
      pb_enc_bytes_def pb_enc_string_def pb_enc_fixed_length_bytes_def Let_def
    by (intro answer_rules)+
  have "PB_LTYPE (f_type f) = PB_LTYPE_BOOL \<or> PB_LTYPE (f_type f) = PB_LTYPE_VARINT \<or> PB_LTYPE (f_type f) = PB_LTYPE_UVARINT \<or>
    PB_LTYPE (f_type f) = PB_LTYPE_SVARINT \<or> PB_LTYPE (f_type f) = PB_LTYPE_FIXED32 \<or> PB_LTYPE (f_type f) = PB_LTYPE_FIXED64 \<or>
    PB_LTYPE (f_type f) = PB_LTYPE_BYTES \<or> PB_LTYPE (f_type f) = PB_LTYPE_STRING \<or> PB_LTYPE (f_type f) = PB_LTYPE_SUBMESSAGE \<or>
    PB_LTYPE (f_type f) = PB_LTYPE_FIXED_LENGTH_BYTES"
    using assms(2) unfolding wire_type_of_def ltypes_distinct by (metis option.distinct(1))
  then show ?thesis unfolding PB_ENCODERS_def
    by (intro answersI answer_rules others sub) blast+
qed

lemma tag_fails: "wire_type_of (PB_LTYPE (f_type f)) = None \<Longrightarrow> pb_encode_tag_for_field f s = ret_error ''invalid field type'' s"
  by (auto simp: pb_encode_tag_for_field_def wire_type_of_def ltypes_distinct Let_def split: if_splits)

lemma tagged_answers:
  assumes "sub_answers enc env f"
  shows "wr_bind (pb_encode_tag_for_field f s) (PB_ENCODERS enc env (PB_LTYPE (f_type f)) f a) \<noteq> None"
proof (cases "wire_type_of (PB_LTYPE (f_type f)) = None")
  case True
  then show ?thesis by (simp add: tag_fails wr_bind_def ret_error_def)
next
  case False
  show ?thesis by (intro answer_bind tag_answers answersD [OF value_answers [OF assms False]])
qed

lemma packable_wire_type: "is_packable f \<Longrightarrow> wire_type_of (PB_LTYPE (f_type f)) \<noteq> None"
proof -
  assume "is_packable f"
  then have "PB_LTYPE (f_type f) \<le> 5" by (simp add: is_packable_def PB_LTYPE_LAST_PACKABLE_def)
  moreover have "x \<le> 5 \<Longrightarrow> x \<le> 3 \<or> x = 4 \<or> x = 5" for x :: byte
    unfolding word_le_nat_alt word_unat_eq_iff by auto
  ultimately show ?thesis by (auto simp: wire_type_of_def PB_LTYPE_SVARINT_def PB_LTYPE_FIXED32_def PB_LTYPE_FIXED64_def)
qed

lemma array_answers:
  assumes "sub_answers enc env f"
  shows "encode_array env (PB_ENCODERS enc env (PB_LTYPE (f_type f)) f) f a cnt s \<noteq> None"
proof -
  let ?func = "PB_ENCODERS enc env (PB_LTYPE (f_type f)) f"
  have items: "packed_items (tagged_item ?func (mem env) f) step n p s \<noteq> None" for step n p s
    by (rule answersD [OF answers_items [OF answersI]]) (unfold tagged_item_def, rule tagged_answers [OF assms])
  show ?thesis
  proof (cases "is_packable f")
    case True
    have packed: "packed_items ?func step n p s \<noteq> None" for step n p s
      by (rule answersD [OF answers_items [OF value_answers [OF assms packable_wire_type [OF True]]]])
    have data: "packed_data ?func step n p sz s \<noteq> None" for step n p sz s
      unfolding packed_data_def by (intro answer_rules packed)
    have "packed_size ?func (null_state env) f a cnt \<noteq> None"
      unfolding packed_size_def by (intro answer_rules packed)
    then obtain r where r: "packed_size ?func (null_state env) f a cnt = Some r" by blast
    have "(case Some r of None \<Rightarrow> None | Some None \<Rightarrow> Some (False, s)
        | Some (Some sz) \<Rightarrow> wr_bind (Some (pb_encode_varint (word_of_nat sz) s)) (packed_data ?func (ucast (data_size f)) cnt a sz)) \<noteq> None" for s
      by (cases r) (simp_all add: answer_bind data del: not_None_eq)
    then show ?thesis using True unfolding encode_array_def Let_def r by (intro answer_rules) simp_all
  next
    case False
    then show ?thesis unfolding encode_array_def Let_def by (intro answer_rules items) simp_all
  qed
qed

lemma field_answers:
  assumes "ranked rank env" and "flat rank k f" and "k < n" and "\<And>g b a. answers (call_encode env g b a)"
    and "sub_answers enc env f"
  shows "answers (encode_any_field n enc env f a)"
proof (rule answersI)
  fix s
  obtain d where d: "pb_check_proto3_default_value n env f a = Some d" using check_answers [OF assms(1-3)] by fastforce
  have tav: "tag_and_value (PB_ENCODERS enc env (PB_LTYPE (f_type f)) f) f p s \<noteq> None" for p
    unfolding tag_and_value_def by (rule tagged_answers [OF assms(5)])
  obtain d' where d': "(if size_offset f \<noteq> 0 \<or> PB_HTYPE (f_type f) \<noteq> PB_HTYPE_OPTIONAL then Some False else Some d) = Some d'"
    by (cases "size_offset f \<noteq> 0 \<or> PB_HTYPE (f_type f) \<noteq> PB_HTYPE_OPTIONAL") auto
  have ht: "PB_HTYPE (f_type f) = PB_HTYPE_REQUIRED \<or> PB_HTYPE (f_type f) = PB_HTYPE_OPTIONAL \<or>
      PB_HTYPE (f_type f) = PB_HTYPE_REPEATED \<or> PB_HTYPE (f_type f) = PB_HTYPE_ONEOF"
    by (rule htypes)
  have basic: "encode_basic_field n enc env f a s \<noteq> None"
    unfolding encode_basic_field_def Let_def d d' option.case
    by (intro answer_rules tav array_answers assms(5)) (use ht assms(2) in \<open>auto simp: flat_def\<close>)
  have cb: "encode_callback_field env f a s \<noteq> None"
    unfolding encode_callback_field_def Let_def by (intro answer_rules answersD [OF assms(4)])
  show "encode_any_field n enc env f a s \<noteq> None" using assms(2) basic cb
    unfolding encode_any_field_def encode_field_def flat_def Let_def by (intro answer_rules) simp_all
qed

lemma pb_encode_answers:
  assumes "ranked rank env" and "\<And>g b a. answers (call_encode env g b a)"
  shows "list_all (flat rank k) tbl \<Longrightarrow> k + 1 < n \<Longrightarrow> pb_encode n env tbl src s \<noteq> None"
proof (induction n arbitrary: k tbl src s)
  case (Suc n)
  have enc: "sub_answers (pb_encode n env) env f" if f: "flat rank k f" for f
    unfolding sub_answers_def
  proof (intro impI allI)
    fix a assume "PB_LTYPE (f_type f) = PB_LTYPE_SUBMESSAGE"
    then have "rank (f_ptr f) < k" using f by (simp add: flat_def)
    then have n: "rank (f_ptr f) + 1 < n" using Suc.prems(2) by simp
    have "list_all (flat rank (rank (f_ptr f))) (tables env (f_ptr f))" using assms(1) by (simp add: ranked_def)
    then show "answers (pb_encode n env (tables env (f_ptr f)) a)" by (rule answersI [OF Suc.IH [OF _ n]])
  qed
  have any: "f \<in> set tbl \<Longrightarrow> answers (encode_any_field n (pb_encode n env) env f a)" for f a
    using field_answers [OF assms(1) _ _ assms(2) enc] Suc.prems by (auto simp: list_all_iff)
  show ?case
    using fields_loop_answers [of "fst (pb_field_iter_begin tbl src)" "encode_any_field n (pb_encode n env) env" s] any
    by (auto simp: pb_field_iter_begin_def it_field_def Let_def)
qed simp

section \<open>A sample\<close>

text \<open>A string of at most 4 bytes and a submessage with one integer, at addresses 16 and 20.\<close>

definition sample_inner :: pb_field where
  "sample_inner = \<lparr>f_tag = 1, f_type = PB_LTYPE_UVARINT, data_offset = 0, size_offset = 0, data_size = 4, array_size = 0, f_ptr = 0\<rparr>"

definition sample_table :: "pb_field list" where
  "sample_table =
     [\<lparr>f_tag = 1, f_type = PB_LTYPE_STRING, data_offset = 0, size_offset = 0, data_size = 4, array_size = 0, f_ptr = 0\<rparr>,
      \<lparr>f_tag = 2, f_type = PB_LTYPE_SUBMESSAGE, data_offset = 0, size_offset = 0, data_size = 4, array_size = 0, f_ptr = 200\<rparr>]"

definition sample_env :: "byte list pb_env" where
  "sample_env =
     \<lparr>mem = (\<lambda>a. if a = 16 then 0x68 else if a = 17 then 0x69 else if a = 20 then 0x96 else 0),
      tables = (\<lambda>a. if a = 200 then [sample_inner] else []), ext_field = (\<lambda>a. sample_inner), null_state = [],
      call_encode = (\<lambda>f field arg s. Some (True, s)), call_extension = (\<lambda>f ext s. Some (True, s))\<rparr>"

definition sample_contract :: pb_contract where
  "sample_contract = \<lparr>callback_bytes = (\<lambda>f field arg. Bytes []), extension_bytes = (\<lambda>f ext. Bytes [])\<rparr>"

lemma sample_honest: "honest sample_env sample_contract"
  using implements_nil by (simp add: honest_def sample_env_def sample_contract_def)

text \<open>Facts that evaluate the reference encoder.\<close>

lemmas encoding_defs = any_field_bytes_def field_bytes_def basic_bytes_def tagged_bytes_def value_bytes_def field_tag_def wire_type_of_def tag_bytes_def
  string_bytes_def integer_bytes_def valid_size_def delimited_def bytes_of_def followed_by_def size_bound_def bytes_at_def
  layout.simps message_fields_def in_union_def field_width_def Let_def
  PB_WT_VARINT_def PB_WT_64BIT_def PB_WT_32BIT_def PB_WT_STRING_def
lemma small_vb:
  "vb 0 = [0]" "vb 1 = [1]" "numeral k \<le> (0x7f :: uint64) \<Longrightarrow> vb (numeral k) = [numeral k]"
proof -
  have "ucast (word_of_int i :: uint64) = (word_of_int i :: byte)" for i by transfer simp
  from this [of "numeral k"] have "ucast (numeral k :: uint64) = (numeral k :: byte)" by simp
  then show "numeral k \<le> (0x7f :: uint64) \<Longrightarrow> vb (numeral k) = [numeral k]" by (simp add: vb.simps low_byte_small)
qed (simp_all add: vb.simps low_byte_small)

lemma vb_150: "vb 0x96 = [0x96, 1]"
  by (simp add: vb.simps low_byte_def)

lemmas encoding_eval = encoding_defs type_consts small_vb vb_150 load_numeral numeral_3_eq_3 string_size.simps upt_rec_numeral

lemmas sample_defs = sample_env_def sample_inner_def sample_table_def

lemma sample_bytes:
  "message_bytes 3 sample_env c sample_table 16 = Bytes [0x0a, 2, 0x68, 0x69, 0x12, 3, 8, 0x96, 1]"
  by (simp add: encoding_eval sample_defs)

section \<open>Properties of the encoder\<close>

lemma buffered_from_buffer: "N < size_bound \<Longrightarrow> buffered (pb_ostream_from_buffer N)"
  by (simp add: buffered_def pb_ostream_from_buffer_def)

text \<open>
  C34: the encoder writes the reference encoding. When the callbacks keep what they promise and
  the reference encoder gives bytes, \<open>pb_get_encoded_size\<close> returns their number, a buffer of at
  least that size gets exactly these bytes, and in a smaller one the encoder fails after
  storing a prefix that fits.
\<close>

theorem pb_encode_exact:
  assumes "honest env c" and "message_bytes n env c tbl src = Bytes bs"
  shows "pb_get_encoded_size n env tbl src = Some (Some (length bs)) \<and>
    (\<forall>N. N < size_bound \<longrightarrow>
      (if length bs \<le> N
       then \<exists>s. pb_encode n env tbl src (pb_ostream_from_buffer N) = Some (True, s) \<and> o_state s = bs \<and> bytes_written s = length bs
       else \<exists>s k. pb_encode n env tbl src (pb_ostream_from_buffer N) = Some (False, s) \<and> o_state s = take k bs \<and> length (o_state s) \<le> N))"
proof (intro conjI allI impI)
  have e: "emits (pb_encode n env tbl src) bs" and b: "length bs < size_bound"
    using pb_encode_implements [OF assms(1), of n tbl src] assms(2) by simp_all
  show "pb_get_encoded_size n env tbl src = Some (Some (length bs))"
    using emits_null [OF e b, of "null_state env"] by (auto simp: pb_get_encoded_size_def)
  fix N :: nat assume "N < size_bound"
  then have s: "buffered (pb_ostream_from_buffer N)" by (rule buffered_from_buffer)
  show "if length bs \<le> N
       then \<exists>s. pb_encode n env tbl src (pb_ostream_from_buffer N) = Some (True, s) \<and> o_state s = bs \<and> bytes_written s = length bs
       else \<exists>s k. pb_encode n env tbl src (pb_ostream_from_buffer N) = Some (False, s) \<and> o_state s = take k bs \<and> length (o_state s) \<le> N"
  proof (cases "length bs \<le> N")
    case True
    then show ?thesis using emits_fits [OF e s] by (simp add: pb_ostream_from_buffer_def put_def)
  next
    case False
    then obtain s' k where "pb_encode n env tbl src (pb_ostream_from_buffer N) = Some (False, s')" "o_state s' = take k bs" "length (take k bs) \<le> N"
      using emits_full [OF e s] by (auto simp: pb_ostream_from_buffer_def stored_def)
    then show ?thesis using False by auto
  qed
qed

theorem pb_encode_exact_witness:
  "pb_get_encoded_size 3 sample_env sample_table 16 = Some (Some 9) \<and>
   (\<exists>s. pb_encode 3 sample_env sample_table 16 (pb_ostream_from_buffer 9) = Some (True, s) \<and>
      o_state s = [0x0a, 2, 0x68, 0x69, 0x12, 3, 8, 0x96, 1]) \<and>
   (\<exists>s. pb_encode 3 sample_env sample_table 16 (pb_ostream_from_buffer 8) = Some (False, s) \<and> length (o_state s) \<le> 8)"
  using pb_encode_exact [OF sample_honest sample_bytes, THEN conjunct1]
    pb_encode_exact [OF sample_honest sample_bytes, THEN conjunct2, THEN spec, of 9]
    pb_encode_exact [OF sample_honest sample_bytes, THEN conjunct2, THEN spec, of 8]
  by (auto simp: size_bound_def)

text \<open>
  What the reference encoder refuses (a field of an unknown type, an integer of a wrong size,
  bytes longer than their array, a missing required pointer, a callback that refuses) the encoder
  refuses on every stream, with nothing stored outside the buffer.
\<close>

theorem pb_encode_refuses:
  assumes "honest env c" and "message_bytes n env c tbl src = Invalid"
  shows "pb_get_encoded_size n env tbl src = Some None \<and>
    (\<forall>N. N < size_bound \<longrightarrow>
      (\<exists>s. pb_encode n env tbl src (pb_ostream_from_buffer N) = Some (False, s) \<and> length (o_state s) \<le> N))"
proof (intro conjI allI impI)
  have r: "refuses (pb_encode n env tbl src)"
    using pb_encode_implements [OF assms(1), of n tbl src] assms(2) by simp
  show "pb_get_encoded_size n env tbl src = Some None"
    using r sizing_null [of "null_state env"] by (auto simp: refuses_def pb_get_encoded_size_def)
  fix N :: nat assume "N < size_bound"
  then show "\<exists>s. pb_encode n env tbl src (pb_ostream_from_buffer N) = Some (False, s) \<and> length (o_state s) \<le> N"
    using r buffered_from_buffer [of N] by (fastforce simp: refuses_def stored_def pb_ostream_from_buffer_def)
qed

theorem pb_encode_refuses_witness:
  "pb_get_encoded_size 3 sample_env [sample_inner\<lparr>data_size := 3\<rparr>] 16 = Some None"
proof -
  have "message_bytes 3 sample_env sample_contract [sample_inner\<lparr>data_size := 3\<rparr>] 16 = Invalid"
    by (simp add: encoding_eval sample_inner_def)
  from pb_encode_refuses [OF sample_honest this] show ?thesis by blast
qed

text \<open>
  C35: a delimited message of less than 2^32 bytes comes back from \<open>pb_make_string_substream\<close>: the
  substream holds exactly the encoded message, and closing it leaves the parent at the end.
\<close>

theorem pb_delimited_round_trip:
  assumes "honest env c" and "message_bytes n env c tbl src = Bytes bs" and "length bs < 2 ^ 32"
  shows "\<exists>s sub t u. pb_encode_delimited n env tbl src (pb_ostream_from_buffer (length bs + 10)) = Some (True, s) \<and>
    pb_make_string_substream (pb_istream_from_buffer (o_state s) (bytes_written s)) = (Some sub, t) \<and>
    fst (pb_read (bytes_left sub) sub) = Some bs \<and> bytes_left sub = length bs \<and>
    pb_close_string_substream t sub = (True, u) \<and> bytes_left u = 0"
proof -
  let ?len = "word_of_nat (length bs) :: uint64"
  have e: "implements (pb_encode_delimited n env tbl src) (delimited (Bytes bs))"
    using implements_submessage [OF pb_encode_implements [OF assms(1)], of n tbl src "null_state env"]
    by (simp add: pb_encode_delimited_def [abs_def] assms(2))
  have "length (vb ?len @ bs) < size_bound" using length_vb [of ?len] assms(3) by (simp add: size_bound_def)
  then have e: "emits (pb_encode_delimited n env tbl src) (vb ?len @ bs)" using e by (simp add: delimited_def bytes_of_def)
  let ?out = "put (vb ?len @ bs) (pb_ostream_from_buffer (length bs + 10))"
  have enc: "pb_encode_delimited n env tbl src (pb_ostream_from_buffer (length bs + 10)) = Some (True, ?out)"
    by (rule emits_fits [OF e buffered_from_buffer]) (use assms(3) length_vb [of ?len] in \<open>simp_all add: size_bound_def pb_ostream_from_buffer_def\<close>)
  have out: "o_state ?out = vb ?len @ bs" "bytes_written ?out = length (vb ?len @ bs)" by (simp_all add: pb_ostream_from_buffer_def)
  define inp where "inp = pb_istream_from_buffer (vb ?len @ bs) (length (vb ?len @ bs))"
  let ?next = "advance (length (vb ?len)) inp"
  have v: "unat ?len = length bs" using assms(3) by (simp add: unsigned_of_nat take_bit_nat_eq_self)
  have u: "unat (ucast ?len :: uint32) = length bs" using assms(3) v by (simp add: unsigned_ucast_eq take_bit_nat_eq_self)
  have h: "holds (vb ?len) inp" "holds bs ?next" using holds_buffer [of "vb ?len @ bs"] by (simp_all add: inp_def holds_append)
  have left: "bytes_left ?next = length bs" by (simp add: inp_def advance_def pb_istream_from_buffer_def)
  have d: "pb_decode_varint32 inp = (Some (ucast ?len), ?next)"
    using decode_varint32_eof_vb [OF h(1)] v assms(3) by (simp add: pb_decode_varint32_def)
  define sub where "sub = ?next\<lparr>bytes_left := length bs\<rparr>"
  have sub: "holds bs sub" "bytes_left sub = length bs" using h(2) by (simp_all add: sub_def holds_def)
  have make: "pb_make_string_substream inp = (Some sub, ?next\<lparr>bytes_left := 0\<rparr>)"
    unfolding pb_make_string_substream_def d by (simp add: u left sub_def)
  have read: "fst (pb_read (bytes_left sub) sub) = Some bs" using read_holds [OF sub(1)] sub(2) by simp
  have skip: "skip_bytes (bytes_left sub) sub = (True, advance (length bs) sub)" using skip_bytes_holds [OF sub(1)] sub(2) by simp
  obtain t where close: "pb_close_string_substream (?next\<lparr>bytes_left := 0\<rparr>) sub = (True, t)" "bytes_left t = 0"
    unfolding pb_close_string_substream_def skip by (cases "bytes_left sub = 0") auto
  show ?thesis
    by (intro exI [of _ ?out] exI [of _ sub] exI [of _ "?next\<lparr>bytes_left := 0\<rparr>"] exI [of _ t] conjI enc read sub(2) close)
      (use make in \<open>simp only: out inp_def\<close>)
qed

lemma sample_length: "length [0x0a, 2, 0x68, 0x69, 0x12, 3, 8, 0x96, 1 :: byte] = 9"
  by simp

theorem pb_delimited_round_trip_witness:
  "\<exists>s sub t. pb_encode_delimited 3 sample_env sample_table 16 (pb_ostream_from_buffer 19) = Some (True, s) \<and>
    pb_make_string_substream (pb_istream_from_buffer (o_state s) (bytes_written s)) = (Some sub, t) \<and> bytes_left sub = 9"
proof -
  have "9 + 10 = (19 :: nat)" "9 < (2 ^ 32 :: nat)" by simp_all
  with pb_delimited_round_trip [OF sample_honest sample_bytes] show ?thesis unfolding sample_length by metis
qed

text \<open>
  C36: messages are read back as fields. When tags are below 2^29 and callbacks write whole
  fields, an encoded message of less than 2^32 bytes is taken apart by \<open>pb_decode_tag\<close> and
  \<open>pb_skip_field\<close> without an error and up to its last byte: the tags and values they find, one after
  another, are the bytes of the message. All tags are valid, and each value is one of its wire
  type. \<open>skip_fields\<close> has no result where a tag is zero.
\<close>

theorem pb_encode_wire:
  assumes "honest env c" and "wire_contract c" and "good_tables env" and "list_all good_tag tbl"
    and "message_bytes n env c tbl src = Bytes bs" and "length bs < 2 ^ 32"
  shows "\<exists>s fs. pb_encode n env tbl src (pb_ostream_from_buffer (length bs)) = Some (True, s) \<and>
    skip_fields (length bs + 1) (pb_istream_from_buffer (o_state s) (bytes_written s)) = Some fs \<and>
    o_state s = bs \<and> bytes_written s = length bs \<and> raw_bytes fs = bs \<and>
    (\<forall>(num, wt, val) \<in> set fs. 0 < num \<and> num < 2 ^ 29 \<and> wire_value wt val)"
proof -
  have e: "emits (pb_encode n env tbl src) bs" and b: "length bs < size_bound"
    using pb_encode_implements [OF assms(1), of n tbl src] assms(5) by simp_all
  let ?s = "put bs (pb_ostream_from_buffer (length bs))"
  have enc: "pb_encode n env tbl src (pb_ostream_from_buffer (length bs)) = Some (True, ?s)"
    by (rule emits_fits [OF e buffered_from_buffer [OF b]]) (simp add: pb_ostream_from_buffer_def)
  have out: "o_state ?s = bs" "bytes_written ?s = length bs" by (simp_all add: pb_ostream_from_buffer_def put_def)
  have "wire_message bs" using is_wire_message [OF assms(3,2,4), of n src] assms(5) by simp
  from skip_wire_message [OF this assms(6) holds_buffer, of "length bs + 1"] obtain fs
    where "skip_fields (length bs + 1) (pb_istream_from_buffer bs (length bs)) = Some fs" "raw_bytes fs = bs"
      "\<forall>(num, wt, val) \<in> set fs. 0 < num \<and> num < 2 ^ 29 \<and> wire_value wt val"
    by (auto simp: pb_istream_from_buffer_def simp del: skip_fields.simps)
  with enc out show ?thesis by (intro exI [of _ ?s] exI [of _ fs]) (simp del: skip_fields.simps)
qed

theorem pb_encode_wire_witness:
  "\<exists>s fs. pb_encode 3 sample_env sample_table 16 (pb_ostream_from_buffer 9) = Some (True, s) \<and>
    skip_fields 10 (pb_istream_from_buffer (o_state s) (bytes_written s)) = Some fs \<and>
    raw_bytes fs = [0x0a, 2, 0x68, 0x69, 0x12, 3, 8, 0x96, 1]"
proof -
  have "wire_contract sample_contract" by (simp add: wire_contract_def sample_contract_def wire_message.empty)
  moreover have "good_tables sample_env" "list_all good_tag sample_table"
    by (simp_all add: good_tables_def sample_env_def sample_inner_def sample_table_def good_tag_def)
  moreover have "length [0x0a, 2, 0x68, 0x69, 0x12, 3, 8, 0x96, 1 :: byte] < 2 ^ 32" by simp
  moreover have 10: "9 + 1 = (10 :: nat)" by simp
  ultimately show ?thesis using pb_encode_wire [OF sample_honest _ _ _ sample_bytes] unfolding sample_length 10 by blast
qed

text \<open>
  C37: encoding ends. If a rank decreases from every table to the tables of its submessages, there
  are no extension fields, oneofs have their tag in memory and callbacks return, then fuel of the
  rank plus two is enough for a result, on every stream.
\<close>

theorem pb_encode_returns:
  assumes "ranked rank env" and "list_all (flat rank k) tbl" and "k + 1 < n"
    and "\<forall>f field arg s. call_encode env f field arg s \<noteq> None"
  shows "\<exists>ok s'. pb_encode n env tbl src s = Some (ok, s')"
  using pb_encode_answers [OF assms(1) _ assms(2,3), of src s] assms(4) by (auto simp: answers_def)

theorem pb_encode_returns_witness:
  "\<exists>ok s'. pb_encode 3 sample_env sample_table 16 (pb_ostream_from_buffer 4) = Some (ok, s')"
proof (rule pb_encode_returns [where rank = "\<lambda>a. 0" and k = 1])
  show "ranked (\<lambda>a. 0) sample_env" "list_all (flat (\<lambda>a. 0) 1) sample_table"
    by (simp_all add: ranked_def sample_env_def sample_inner_def sample_table_def flat_def PB_LTYPE_def PB_HTYPE_def
      PB_LTYPE_UVARINT_def PB_LTYPE_STRING_def PB_LTYPE_SUBMESSAGE_def PB_LTYPE_EXTENSION_def PB_HTYPE_ONEOF_def)
  show "\<forall>f field arg s. call_encode sample_env f field arg s \<noteq> None" by (simp add: sample_env_def)
qed simp

section \<open>A pointer that is lost\<close>

text \<open>The number that \<open>load\<close> reads ends with its first bytes.\<close>

lemma load_low: "k \<le> n \<Longrightarrow> k \<le> 8 \<Longrightarrow> take_bit (8 * k) (load m a n) = load m a k"
proof (induction n arbitrary: k a)
  case (Suc n)
  show ?case
  proof (cases k)
    case (Suc j)
    have "take_bit (8 * Suc j) (ucast (m a) :: uint64) = ucast (m a)"
      by (rule bit_word_eqI) (auto simp: bit_take_bit_iff bit_ucast_iff dest: bit_imp_le_length)
    moreover have "take_bit (8 * Suc j) (push_bit 8 (load m (a + 1) n)) = push_bit 8 (take_bit (8 * j) (load m (a + 1) n))"
      by (rule bit_word_eqI) (auto simp: bit_take_bit_iff bit_push_bit_iff)
    ultimately show ?thesis using Suc.IH [of j "a + 1"] Suc.prems Suc by (simp del: mult_Suc_right)
  qed simp
qed simp

lemma load_zero: "n \<le> 8 \<Longrightarrow> load m a n = 0 \<longleftrightarrow> all_zero m a n"
proof (induction n arbitrary: a)
  case (Suc n)
  have "ucast (m a) OR push_bit 8 (load m (a + 1) n) = (0 :: uint64) \<longleftrightarrow> m a = 0 \<and> push_bit 8 (load m (a + 1) n) = 0"
  proof -
    have "ucast (m a) = (0 :: uint64) \<longleftrightarrow> m a = 0" by (metis unat_ucast_64 unat_eq_0 unsigned_0)
    then show ?thesis by (simp add: or_eq_0_iff)
  qed
  moreover have "push_bit 8 (load m (a + 1) n) = 0 \<longleftrightarrow> load m (a + 1) n = 0"
  proof
    assume z: "push_bit 8 (load m (a + 1) n) = 0"
    have "load m (a + 1) n = take_bit (8 * n) (load m (a + 1) n)" using load_low [of n n m "a + 1"] Suc.prems by simp
    show "load m (a + 1) n = 0"
    proof (rule bit_word_eqI)
      fix k assume "k < LENGTH(64)"
      show "bit (load m (a + 1) n) k = bit 0 k"
      proof (cases "k < 8 * n")
        case True
        then have "bit (push_bit 8 (load m (a + 1) n)) (k + 8) = bit (load m (a + 1) n) k"
          using Suc.prems by (simp add: bit_push_bit_iff)
        then show ?thesis unfolding z by simp
      next
        case False
        then show ?thesis using \<open>load m (a + 1) n = _\<close> bit_take_bit_iff [of "8 * n" "load m (a + 1) n" k] by auto
      qed
    qed
  qed simp
  ultimately show ?case using Suc.IH [of "a + 1"] Suc.prems
    by (simp add: all_zero_def bytes_at_def map_upt_Suc algebra_simps del: upt_Suc)
qed (simp add: all_zero_def bytes_at_def)

lemma low_bytes_zero: "k \<le> 8 \<Longrightarrow> all_zero m a k \<longleftrightarrow> take_bit (8 * k) (load_ptr m a) = 0"
  using load_low [of k 8 m a] load_zero [of k m a] by (simp add: load_ptr_def)

definition flag_field :: pb_field where
  "flag_field = \<lparr>f_tag = 1, f_type = PB_LTYPE_BOOL OR PB_HTYPE_OPTIONAL OR PB_ATYPE_POINTER, data_offset = 0, size_offset = 0,
     data_size = 1, array_size = 0, f_ptr = 0\<rparr>"

definition holder_field :: pb_field where
  "holder_field = \<lparr>f_tag = 7, f_type = PB_LTYPE_SUBMESSAGE OR PB_HTYPE_OPTIONAL, data_offset = 0, size_offset = 0,
     data_size = 8, array_size = 0, f_ptr = 200\<rparr>"

text \<open>The pointer at 16 is 0x100, and a \<open>true\<close> is there.\<close>

definition flag_env :: "byte list pb_env" where
  "flag_env = sample_env\<lparr>mem := (\<lambda>a. if a = 17 then 1 else if a = 0x100 then 1 else 0),
     tables := (\<lambda>a. if a = 200 then [flag_field] else [])\<rparr>"

lemma flag_honest: "honest flag_env sample_contract"
  using implements_nil by (simp add: honest_def flag_env_def sample_env_def sample_contract_def)

lemma flag_bytes: "message_bytes 3 flag_env c [flag_field] 16 = Bytes [8, 1]"
  by (simp add: encoding_eval flag_field_def flag_env_def load_ptr_def sample_env_def singular_default_def)

lemma one_field:
  assumes "f_tag f \<noteq> 0" and "pb_field_iter_begin [f] src = (it, ne)"
  shows "ne" "it_field it = f" "pData it = src + ucast (data_offset f)" "\<not> snd (pb_field_iter_next it)"
  using assms by (auto simp: pb_field_iter_begin_def it_field_def field_at_def pb_field_iter_next_def Let_def PB_LAST_FIELD_def)

lemma pb_encode_one:
  assumes "f_tag f \<noteq> 0"
  shows "pb_encode (Suc n) env [f] src s = encode_any_field n (pb_encode n env) env f (src + ucast (data_offset f)) s"
proof -
  obtain it ne where it: "pb_field_iter_begin [f] src = (it, ne)" by fastforce
  then show ?thesis using one_field [OF assms it]
    by (cases "pb_field_iter_next it") (auto simp: fields_loop.simps [of _ it] split: option.splits prod.splits)
qed


lemma ltype_packable: "lt \<le> PB_LTYPE_LAST_PACKABLE \<Longrightarrow> lt \<noteq> PB_LTYPE_EXTENSION \<and> lt \<noteq> PB_LTYPE_SUBMESSAGE"
  by (auto simp: PB_LTYPE_LAST_PACKABLE_def PB_LTYPE_EXTENSION_def PB_LTYPE_SUBMESSAGE_def)

lemma check_one:
  assumes "f_tag f \<noteq> 0"
  shows "(case pb_field_iter_begin [f] src of (it, nonempty) \<Rightarrow> if nonempty then all_default check it else Some True) =
    check f (src + ucast (data_offset f))"
proof -
  obtain it ne where it: "pb_field_iter_begin [f] src = (it, ne)" by fastforce
  then show ?thesis using one_field [OF assms it]
    by (cases "pb_field_iter_next it") (auto simp: all_default.simps [of _ it] split: option.splits bool.splits)
qed



end
