(* ===== verification/PbValues.thy ===== *)
theory PbValues
  imports PbTotal PbFormat
begin

text \<open>
  What the field decoders recover: from the bytes that the reference encoder writes for a value
  each decoder stores that value again, within the size of its field.
\<close>

section \<open>Loads and stores\<close>

lemma bit_load: "n \<le> 8 \<Longrightarrow> bit (load m a n) j \<longleftrightarrow> j < 8 * n \<and> bit (m (a + word_of_nat (j div 8))) (j mod 8)"
proof (induction n arbitrary: a j)
  case (Suc n)
  show ?case
  proof (cases "j < 8")
    case True
    then show ?thesis by (simp add: bit_or_iff bit_ucast_iff bit_push_bit_iff)
  next
    case False
    then have d: "j div 8 = Suc ((j - 8) div 8)" "j mod 8 = (j - 8) mod 8" by (simp_all add: le_div_geq le_mod_geq)
    have "\<not> bit (m a) j" using False by (auto dest: bit_imp_le_length)
    moreover have "j < 64 \<or> \<not> j < 8 * Suc n" using Suc.prems by arith
    ultimately show ?thesis using False Suc.IH [of "a + 1" "j - 8"] Suc.prems d
      by (auto simp: bit_or_iff bit_ucast_iff bit_push_bit_iff add.assoc)
  qed
qed simp

lemma le_bytes_nth: "i < n \<Longrightarrow> le_bytes n v ! i = ucast (drop_bit (8 * i) v)"
  by (simp add: le_bytes_def)

text \<open>Storing a value that agrees with a loaded one in its low bytes stores the bytes loaded.\<close>

lemma le_bytes_load:
  assumes "n \<le> 8" and "\<And>j. j < 8 * n \<Longrightarrow> bit v j = bit (load m a n) j"
  shows "le_bytes n v = bytes_at m a n"
proof (rule nth_equalityI)
  fix i assume "i < length (le_bytes n v)"
  then have i: "i < n" by simp
  have "ucast (drop_bit (8 * i) v) = m (a + word_of_nat i)"
  proof (rule bit_word_eqI)
    fix k assume "k < LENGTH(8)"
    then have k: "k < 8" by simp
    then have "8 * i + k < 8 * n" "8 * i + k < 64" using i assms(1) by linarith+
    then show "bit (ucast (drop_bit (8 * i) v) :: byte) k = bit (m (a + word_of_nat i)) k"
      using k assms by (simp add: bit_ucast_iff bit_drop_bit_eq bit_load)
  qed
  then show "le_bytes n v ! i = bytes_at m a n ! i" using i by (simp add: le_bytes_nth bytes_at_def)
qed simp

lemma bytes_at_Suc: "bytes_at m a (Suc n) = m a # bytes_at m (a + 1) n"
  by (simp add: bytes_at_def upt_rec [of 0] map_Suc_upt [symmetric] add.assoc del: upt_Suc)

lemma bytes_at_numeral: "bytes_at m a (numeral k) = m a # bytes_at m (a + 1) (pred_numeral k)"
  by (simp add: numeral_eq_Suc bytes_at_Suc)

lemma bytes_at_cong: "(\<And>x. x \<in> area a n \<Longrightarrow> m x = m' x) \<Longrightarrow> bytes_at m a n = bytes_at m' a n"
  by (auto simp: bytes_at_def area_def)

lemma area_head: "n < 2 ^ 64 \<Longrightarrow> a \<notin> area (a + 1) n"
proof
  assume n: "n < 2 ^ 64" and "a \<in> area (a + 1) n"
  then obtain i where i: "i < n" and "a = a + 1 + word_of_nat i" by (auto simp: area_def)
  then have "word_of_nat (Suc i) = (0 :: addr)" by (simp add: add.assoc)
  then show False using i n by (simp add: word_of_nat_eq_0_iff del: of_nat_Suc) (use nat_dvd_not_less [of "Suc i"] in force)
qed

lemma bytes_at_store: "length bs < 2 ^ 64 \<Longrightarrow> bytes_at (store m a bs) a (length bs) = bs"
proof (induction bs arbitrary: m a)
  case (Cons b bs)
  then have "store m a (b # bs) a = b" using store_outside [of a "a + 1" bs "m(a := b)"] area_head [of "length bs" a] by simp
  then show ?case using Cons by (simp add: bytes_at_Suc)
qed simp

lemma bytes_at_poke [simp]: "length bs < 2 ^ 64 \<Longrightarrow> n = length bs \<Longrightarrow> bytes_at (w_mem (poke a bs w)) a n = bs"
  by (simp add: poke_def bytes_at_store)

section \<open>Values\<close>

text \<open>The value of the field at \<open>p\<close> is the one at \<open>a\<close>: its bytes, or the part of them that counts.\<close>

definition same_value :: "memory \<Rightarrow> addr \<Rightarrow> memory \<Rightarrow> addr \<Rightarrow> pb_field \<Rightarrow> bool" where
  "same_value m a m' p f \<longleftrightarrow>
     (let lt = PB_LTYPE (f_type f); n = unat (data_size f) in
      if lt = PB_LTYPE_BOOL then m' p = of_bool (m a \<noteq> 0)
      else if lt = PB_LTYPE_STRING
      then bytes_at m' p (string_size m a 0 n) = bytes_at m a (string_size m a 0 n) \<and> m' (p + word_of_nat (string_size m a 0 n)) = 0
      else if lt = PB_LTYPE_BYTES then bytes_at m' p (unat (load_size m a) + 4) = bytes_at m a (unat (load_size m a) + 4)
      else bytes_at m' p n = bytes_at m a n)"

text \<open>Field types with a value of their own, and values that are within their field.\<close>

definition simple_value :: "pb_field \<Rightarrow> bool" where
  "simple_value f \<longleftrightarrow>
     (let lt = PB_LTYPE (f_type f) in
      lt \<le> PB_LTYPE_FIXED_LENGTH_BYTES \<and> lt \<noteq> PB_LTYPE_EXTENSION \<and> lt \<noteq> PB_LTYPE_SUBMESSAGE \<and>
      (lt = PB_LTYPE_BOOL \<longrightarrow> data_size f = 1) \<and> (lt = PB_LTYPE_FIXED32 \<longrightarrow> data_size f = 4) \<and> (lt = PB_LTYPE_FIXED64 \<longrightarrow> data_size f = 8))"

definition proper_value :: "memory \<Rightarrow> pb_field \<Rightarrow> addr \<Rightarrow> bool" where
  "proper_value m f a \<longleftrightarrow>
     (let lt = PB_LTYPE (f_type f); n = unat (data_size f) in
      (lt = PB_LTYPE_STRING \<longrightarrow> a \<noteq> 0 \<and> string_size m a 0 n < n) \<and> (lt = PB_LTYPE_BYTES \<longrightarrow> a \<noteq> 0 \<and> unat (load_size m a) + 4 \<le> n))"

text \<open>A decoder that reads the bytes and stores the value.\<close>

definition recovers :: "memory \<Rightarrow> pb_field \<Rightarrow> addr \<Rightarrow> addr \<Rightarrow> byte list \<Rightarrow> (pb_istream \<Rightarrow> 'h pb_world \<Rightarrow> 'h decoded) \<Rightarrow> bool" where
  "recovers m f a p bs dec \<longleftrightarrow>
     (\<forall>s w. holds bs s \<longrightarrow>
        (\<exists>w'. dec s w = Some (True, advance (length bs) s, w') \<and> frame (area p (unat (data_size f))) w w' \<and> same_value m a (w_mem w') p f))"

lemma recoversI:
  assumes "\<And>s w. holds bs s \<Longrightarrow>
    \<exists>w'. dec s w = Some (True, advance (length bs) s, w') \<and> frame (area p (unat (data_size f))) w w' \<and> same_value m a (w_mem w') p f"
  shows "recovers m f a p bs dec"
  using assms unfolding recovers_def by blast

lemma recovers_poke:
  assumes "\<And>s (w :: 'h pb_world). holds bs s \<Longrightarrow> dec s w = Some (True, advance (length bs) s, poke p cs w)"
    and "length cs \<le> unat (data_size f)" and "\<And>w :: 'h pb_world. same_value m a (w_mem (poke p cs w)) p f"
  shows "recovers m f a p bs dec"
  using assms area_mono [OF assms(2), of p] by (intro recoversI) (auto intro: frame_poke)

lemma valid_size_le: "valid_size n \<Longrightarrow> unat n \<le> 8 \<and> 0 < unat n"
  by (auto simp: valid_size_def)

lemma valid_size_small: "valid_size n \<Longrightarrow> n \<noteq> 8 \<Longrightarrow> unat n \<le> 4"
  by (auto simp: valid_size_def)

lemma same_bytes:
  assumes "PB_LTYPE (f_type f) \<noteq> PB_LTYPE_BOOL" "PB_LTYPE (f_type f) \<noteq> PB_LTYPE_STRING" "PB_LTYPE (f_type f) \<noteq> PB_LTYPE_BYTES"
  shows "same_value m a m' p f \<longleftrightarrow> bytes_at m' p (unat (data_size f)) = bytes_at m a (unat (data_size f))"
  using assms by (simp add: same_value_def Let_def)

lemma recovers_integer:
  assumes other: "PB_LTYPE (f_type f) \<noteq> PB_LTYPE_BOOL" "PB_LTYPE (f_type f) \<noteq> PB_LTYPE_STRING" "PB_LTYPE (f_type f) \<noteq> PB_LTYPE_BYTES"
    and size: "valid_size (data_size f)" and bits: "\<And>j. j < 8 * unat (data_size f) \<Longrightarrow> bit v j = bit (load m a (unat (data_size f))) j"
    and clamp: "clamp (unat (data_size f)) = v"
    and dec: "\<And>s w. holds bs s \<Longrightarrow> dec s w = store_integer f p v clamp (advance (length bs) s) w"
  shows "recovers m f a p bs (dec :: pb_istream \<Rightarrow> 'h pb_world \<Rightarrow> 'h decoded)"
proof (rule recovers_poke)
  let ?n = "unat (data_size f)"
  show "length (le_bytes ?n v) \<le> ?n" by simp
  show "dec s w = Some (True, advance (length bs) s, poke p (le_bytes ?n v) w)" if "holds bs s" for s w
    using dec [OF that] size clamp by (simp add: store_integer_def Let_def)
  have "le_bytes ?n v = bytes_at m a ?n" using valid_size_le [OF size] bits by (intro le_bytes_load) auto
  moreover have "?n < 2 ^ 64" using valid_size_le [OF size] by auto
  ultimately show "same_value m a (w_mem (poke p (le_bytes ?n v) w)) p f" for w :: "'h pb_world"
    by (simp add: same_bytes [OF other])
qed

lemma bit_load_word: "n \<le> 8 \<Longrightarrow> \<not> j < 8 * n \<Longrightarrow> \<not> bit (load m a n) j"
  by (simp add: bit_load)

lemma take_bit_load: "n \<le> 8 \<Longrightarrow> take_bit (8 * n) (load m a n) = load m a n"
  by (rule bit_word_eqI) (auto simp: bit_take_bit_iff bit_load)

lemma bit_signed: "0 < n \<Longrightarrow> n \<le> 8 \<Longrightarrow> j < 8 * n \<Longrightarrow> bit (signed_take_bit (8 * n - 1) v) j = bit v j" for v :: uint64
proof -
  assume "0 < n" "n \<le> 8" "j < 8 * n"
  then have "j \<le> 8 * n - 1" "j < 64" by arith+
  then show ?thesis by (simp add: bit_signed_take_bit_iff min_absorb2)
qed

lemma signed_again: "signed_take_bit k (signed_take_bit k v) = signed_take_bit k v"
  by (simp add: signed_take_bit_signed_take_bit)

lemma narrow_signed: "k < 32 \<Longrightarrow> scast (ucast (signed_take_bit k v) :: uint32) = signed_take_bit k v" for v :: uint64
proof (rule bit_word_eqI)
  fix n assume "k < 32" "n < LENGTH(64)"
  then show "bit (scast (ucast (signed_take_bit k v) :: uint32) :: uint64) n = bit (signed_take_bit k v) n"
    by (auto simp: bit_signed_iff bit_ucast_iff bit_signed_take_bit_iff min_def)
qed


lemmas kinds = PB_LTYPE_BOOL_def PB_LTYPE_VARINT_def PB_LTYPE_UVARINT_def PB_LTYPE_SVARINT_def PB_LTYPE_FIXED32_def PB_LTYPE_FIXED64_def
  PB_LTYPE_BYTES_def PB_LTYPE_STRING_def PB_LTYPE_SUBMESSAGE_def PB_LTYPE_EXTENSION_def PB_LTYPE_FIXED_LENGTH_BYTES_def

lemma recovers_scalars:
  assumes size: "valid_size (data_size f)" and o: "PB_LTYPE (f_type f) \<noteq> PB_LTYPE_BOOL" "PB_LTYPE (f_type f) \<noteq> PB_LTYPE_STRING" "PB_LTYPE (f_type f) \<noteq> PB_LTYPE_BYTES"
  shows "recovers m f a p (vb (load_signed m a (unat (data_size f)))) (pb_dec_varint f p)"
    and "recovers m f a p (vb (load m a (unat (data_size f)))) (pb_dec_uvarint f p)"
    and "recovers m f a p (vb (zigzag (load_signed m a (unat (data_size f))))) (pb_dec_svarint f p)"
proof -
  let ?n = "unat (data_size f)" and ?v = "load m a (unat (data_size f))" and ?sv = "load_signed m a (unat (data_size f))"
  note n = valid_size_le [OF size]
  have signed: "bit ?sv j = bit ?v j" if "j < 8 * ?n" for j
    unfolding load_signed_def by (rule bit_signed) (use that n in auto)
  have clamp: "signed_take_bit (8 * ?n - 1) ?sv = ?sv" by (simp add: load_signed_def signed_again)
  have narrow: "(if data_size f = 8 then ?sv else scast (ucast ?sv :: uint32)) = ?sv"
    using valid_size_small [OF size] n unfolding load_signed_def by (auto intro: narrow_signed)
  show "recovers m f a p (vb ?sv) (pb_dec_varint f p)"
    by (rule recovers_integer [OF o size signed, where clamp = "\<lambda>n. signed_take_bit (8 * n - 1) ?sv"])
      (simp_all add: clamp [simplified] pb_dec_varint_def decode_varint_vb read_then_def narrow Let_def)
  show "recovers m f a p (vb ?v) (pb_dec_uvarint f p)"
    by (rule recovers_integer [OF o size, where v = ?v and clamp = "\<lambda>n. take_bit (8 * n) ?v"])
      (use n in \<open>simp_all add: pb_dec_uvarint_def decode_varint_vb read_then_def take_bit_load\<close>)
  show "recovers m f a p (vb (zigzag ?sv)) (pb_dec_svarint f p)"
    by (rule recovers_integer [OF o size signed, where clamp = "\<lambda>n. signed_take_bit (8 * n - 1) ?sv"])
      (simp_all add: clamp [simplified] pb_dec_svarint_def pb_decode_svarint_def decode_varint_vb read_then_def unzigzag)
qed

lemma decode_fixed_holds:
  "holds (fixed32_bytes u) s \<Longrightarrow> pb_decode_fixed32 s = (Some u, advance 4 s)"
  "holds (fixed64_bytes v) s \<Longrightarrow> pb_decode_fixed64 s = (Some v, advance 8 s)"
  using read_holds [of "fixed32_bytes u" s] read_holds [of "fixed64_bytes v" s] fixed32_join [of u] fixed64_join [of v]
  by (simp_all add: pb_decode_fixed32_def pb_decode_fixed64_def length_fixed)

lemma bit_ucast_32: "j < 32 \<Longrightarrow> bit (ucast (ucast v :: uint32) :: uint64) j = bit v j" for v :: uint64
  by (simp add: bit_ucast_iff)

lemma recovers_fixed:
  "PB_LTYPE (f_type f) = PB_LTYPE_FIXED32 \<Longrightarrow> data_size f = 4 \<Longrightarrow> recovers m f a p (fixed32_bytes (ucast (load m a 4))) (pb_dec_fixed32 p)"
  "PB_LTYPE (f_type f) = PB_LTYPE_FIXED64 \<Longrightarrow> data_size f = 8 \<Longrightarrow> recovers m f a p (fixed64_bytes (load m a 8)) (pb_dec_fixed64 p)"
proof -
  have le: "le_bytes 4 (ucast (ucast (load m a 4) :: uint32)) = bytes_at m a 4" "le_bytes 8 (load m a 8) = bytes_at m a 8"
    by (rule le_bytes_load; simp add: bit_ucast_32)+
  show "PB_LTYPE (f_type f) = PB_LTYPE_FIXED32 \<Longrightarrow> data_size f = 4 \<Longrightarrow> recovers m f a p (fixed32_bytes (ucast (load m a 4))) (pb_dec_fixed32 p)"
    by (rule recovers_poke [where cs = "le_bytes 4 (ucast (ucast (load m a 4) :: uint32))"])
      (simp_all add: pb_dec_fixed32_def decode_fixed_holds read_then_def length_fixed same_bytes kinds le)
  show "PB_LTYPE (f_type f) = PB_LTYPE_FIXED64 \<Longrightarrow> data_size f = 8 \<Longrightarrow> recovers m f a p (fixed64_bytes (load m a 8)) (pb_dec_fixed64 p)"
    by (rule recovers_poke [where cs = "le_bytes 8 (load m a 8)"])
      (simp_all add: pb_dec_fixed64_def decode_fixed_holds read_then_def length_fixed same_bytes kinds le)
qed

lemma recovers_bool:
  assumes "PB_LTYPE (f_type f) = PB_LTYPE_BOOL" and "data_size f = 1"
  shows "recovers m f a p (vb (of_bool (m a \<noteq> 0))) (pb_dec_bool p)"
proof (rule recovers_poke)
  show "length [of_bool (m a \<noteq> 0) :: byte] \<le> unat (data_size f)" using assms by simp
  show "same_value m a (w_mem (poke p [of_bool (m a \<noteq> 0)] w)) p f" for w :: "'h pb_world"
    using assms by (simp add: same_value_def poke_def)
  show "pb_dec_bool p s w = Some (True, advance (length (vb (of_bool (m a \<noteq> 0)))) s, poke p [of_bool (m a \<noteq> 0)] w)"
    if "holds (vb (of_bool (m a \<noteq> 0))) s" for s w
    using decode_varint32_eof_vb [OF that] by (simp add: pb_dec_bool_def pb_decode_varint32_def read_then_def poke_bool_def of_bool_def)
qed

lemma bytes_at_append: "bytes_at m a (i + j) = bytes_at m a i @ bytes_at m (a + word_of_nat i) j"
  by (induction i arbitrary: a) (simp_all add: bytes_at_Suc algebra_simps)

lemma delimited_bytes:
  "length bs < 2 ^ 32 \<Longrightarrow> delimited (bytes_of bs) = Bytes (vb (word_of_nat (length bs)) @ bs)"
  using length_vb [of "word_of_nat (length bs)"] by (simp add: delimited_def bytes_of_def size_bound_def)

lemma unat_of_length: "n < 2 ^ 32 \<Longrightarrow> unat (word_of_nat n :: uint64) = n" "n < 2 ^ 32 \<Longrightarrow> unat (word_of_nat n :: uint32) = n"
  by (simp_all add: unsigned_of_nat take_bit_nat_eq_self)

lemma decode_length:
  assumes "holds (vb (word_of_nat n)) s" and "n < 2 ^ 32"
  shows "pb_decode_varint32 s = (Some (word_of_nat n), advance (length (vb (word_of_nat n))) s)"
  using decode_varint32_eof_vb [OF assms(1)] assms(2)
  by (simp add: pb_decode_varint32_def unsigned_of_nat take_bit_nat_eq_self)

lemma read_into_holds: "holds bs s \<Longrightarrow> n = length bs \<Longrightarrow> read_into p n s w = Some (True, advance n s, poke p bs w)"
  by (simp add: read_into_def read_holds read_then_def)

lemma small_size: "unat (n :: uint32) < 2 ^ 32"
  using unsigned_less [of n, where ?'a = nat] by simp

lemma recovers_fixed_length:
  assumes lt: "PB_LTYPE (f_type f) = PB_LTYPE_FIXED_LENGTH_BYTES"
  shows "recovers m f a p (vb (word_of_nat (unat (data_size f))) @ bytes_at m a (unat (data_size f))) (pb_dec_fixed_length_bytes f p)"
proof (rule recovers_poke)
  let ?n = "unat (data_size f)"
  show "length (bytes_at m a ?n) \<le> ?n" by simp
  have "?n < 2 ^ 64" using small_size [of "data_size f"] by simp
  then show "same_value m a (w_mem (poke p (bytes_at m a ?n) w)) p f" for w :: "'h pb_world" using lt by (simp add: same_bytes kinds)
  fix s and w :: "'h pb_world"
  assume "holds (vb (word_of_nat ?n) @ bytes_at m a ?n) s"
  then have h: "holds (vb (word_of_nat ?n)) s" "holds (bytes_at m a ?n) (advance (length (vb (word_of_nat ?n))) s)"
    by (simp_all add: holds_append)
  have "word_of_nat ?n = data_size f" by simp
  then show "pb_dec_fixed_length_bytes f p s w =
      Some (True, advance (length (vb (word_of_nat ?n) @ bytes_at m a ?n)) s, poke p (bytes_at m a ?n) w)"
    using decode_length [OF h(1) small_size] read_into_holds [OF h(2)]
    by (auto simp: pb_dec_fixed_length_bytes_def read_then_def PB_SIZE_MAX_def word_not_simps zero_fill_def)
qed


lemma word_of_nat_inj: "word_of_nat i = (word_of_nat j :: addr) \<Longrightarrow> i < 2 ^ 64 \<Longrightarrow> j < 2 ^ 64 \<Longrightarrow> i = j"
proof -
  have u: "unat (word_of_nat n :: addr) = n" if "n < 2 ^ 64" for n using that by (simp add: unsigned_of_nat take_bit_nat_eq_self)
  show "word_of_nat i = (word_of_nat j :: addr) \<Longrightarrow> i < 2 ^ 64 \<Longrightarrow> j < 2 ^ 64 \<Longrightarrow> i = j" by (metis u)
qed

lemma area_disjoint: "i + j \<le> 2 ^ 64 \<Longrightarrow> area a i \<inter> area (a + word_of_nat i) j = {}"
proof (rule equals0I)
  fix x assume le: "i + j \<le> 2 ^ 64" and "x \<in> area a i \<inter> area (a + word_of_nat i) j"
  then obtain k l where k: "k < i" and l: "l < j" and "word_of_nat k = (word_of_nat (i + l) :: addr)" by (auto simp: area_def add.assoc)
  from word_of_nat_inj [OF this(3)] show False using k l le by simp
qed

lemma bytes_at_frame: "frame S w w' \<Longrightarrow> area a n \<inter> S = {} \<Longrightarrow> bytes_at (w_mem w') a n = bytes_at (w_mem w) a n"
  by (rule bytes_at_cong) (auto simp: frame_def)

lemma recovers_string:
  assumes lt: "PB_LTYPE (f_type f) = PB_LTYPE_STRING" and st: "PB_ATYPE (f_type f) \<noteq> PB_ATYPE_POINTER"
    and k: "string_size m a 0 (unat (data_size f)) = k" "k < unat (data_size f)"
  shows "recovers m f a p (vb (word_of_nat k) @ bytes_at m a k) (pb_dec_string env f p :: pb_istream \<Rightarrow> 'h pb_world \<Rightarrow> 'h decoded)"
proof (rule recoversI)
  fix s and w :: "'h pb_world"
  let ?n = "unat (data_size f)"
  assume "holds (vb (word_of_nat k) @ bytes_at m a k) s"
  then have h: "holds (vb (word_of_nat k)) s" "holds (bytes_at m a k) (advance (length (vb (word_of_nat k))) s)" by (simp_all add: holds_append)
  have small: "k < 2 ^ 32" "Suc k < 2 ^ 32" using k(2) small_size [of "data_size f"] by simp_all
  have sz: "unat (word_of_nat k + 1 :: uint32) = Suc k" using unat_of_length(2) [OF small(2)] by (simp add: add.commute)
  let ?w = "poke p (bytes_at m a k) w" and ?w' = "poke (p + word_of_nat k) [0] (poke p (bytes_at m a k) w)"
  have up: "ucast (word_of_nat k :: uint32) = (word_of_nat k :: addr)" using small(1) by (simp add: unsigned_of_nat take_bit_nat_eq_self)
  have "pb_dec_string env f p s w = read_string_into p (word_of_nat k) (advance (length (vb (word_of_nat k))) s) w"
    using decode_length [OF h(1) small(1)] st k(2) unat_of_length(2) [OF small(1)] by (simp add: pb_dec_string_def read_then_def sz Let_def)
  also have "\<dots> = Some (True, advance (length (vb (word_of_nat k) @ bytes_at m a k)) s, ?w')"
    using unat_of_length(2) [OF small(1)] by (simp add: read_string_into_def up read_into_holds [OF h(2)])
  finally have r: "pb_dec_string env f p s w = Some (True, advance (length (vb (word_of_nat k) @ bytes_at m a k)) s, ?w')" .
  have "frame (area p ?n) w ?w" "frame (area p ?n) ?w ?w'"
    using area_mono [of k ?n p] area_shift [of k 1 ?n p] k(2) by (auto intro!: frame_poke)
  then have fr: "frame (area p ?n) w ?w'" by (rule frame_trans)
  have "frame (area (p + word_of_nat k) 1) ?w ?w'" by (rule frame_poke) simp
  then have "bytes_at (w_mem ?w') p k = bytes_at (w_mem ?w) p k" using area_disjoint [of k 1 p] small by (intro bytes_at_frame) auto
  also have "\<dots> = bytes_at m a k" using small by simp
  finally have "same_value m a (w_mem ?w') p f" using lt k(1) by (simp add: same_value_def kinds poke_def Let_def)
  then show "\<exists>w'. pb_dec_string env f p s w = Some (True, advance (length (vb (word_of_nat k) @ bytes_at m a k)) s, w') \<and>
      frame (area p ?n) w w' \<and> same_value m a (w_mem w') p f" using r fr by blast
qed

lemma recovers_bytes:
  assumes lt: "PB_LTYPE (f_type f) = PB_LTYPE_BYTES" and st: "PB_ATYPE (f_type f) \<noteq> PB_ATYPE_POINTER"
    and k: "unat (load_size m a) = k" "k + 4 \<le> unat (data_size f)"
  shows "recovers m f a p (vb (word_of_nat k) @ bytes_at m (a + 4) k) (pb_dec_bytes env f p :: pb_istream \<Rightarrow> 'h pb_world \<Rightarrow> 'h decoded)"
proof (rule recoversI)
  fix s and w :: "'h pb_world"
  let ?n = "unat (data_size f)"
  assume "holds (vb (word_of_nat k) @ bytes_at m (a + 4) k) s"
  then have h: "holds (vb (word_of_nat k)) s" "holds (bytes_at m (a + 4) k) (advance (length (vb (word_of_nat k))) s)" by (simp_all add: holds_append)
  have small: "k < 2 ^ 32" "?n < 2 ^ 32" using k(2) small_size [of "data_size f"] by simp_all
  have alloc: "PB_BYTES_ARRAY_T_ALLOCSIZE k = k + 4" using small by (simp add: PB_BYTES_ARRAY_T_ALLOCSIZE_def sz_add_def size_mod_def)
  let ?w = "poke_size p (word_of_nat k) w"
  let ?w' = "poke (p + 4) (bytes_at m (a + 4) k) ?w"
  have "pb_dec_bytes env f p s w = read_into (p + 4) k (advance (length (vb (word_of_nat k))) s) ?w"
    using decode_length [OF h(1) small(1)] st k(2) unat_of_length(2) [OF small(1)]
    by (simp add: pb_dec_bytes_def read_then_def alloc PB_SIZE_MAX_def Let_def)
  also have "\<dots> = Some (True, advance (length (vb (word_of_nat k) @ bytes_at m (a + 4) k)) s, ?w')"
    by (simp add: read_into_holds [OF h(2)])
  finally have r: "pb_dec_bytes env f p s w = Some (True, advance (length (vb (word_of_nat k) @ bytes_at m (a + 4) k)) s, ?w')" .
  have "frame (area p ?n) w ?w" "frame (area p ?n) ?w ?w'"
    using area_mono [of 4 ?n p] area_shift [of 4 k ?n p] k(2) by (auto intro!: frame_poke frame_pokes)
  then have fr: "frame (area p ?n) w ?w'" by (rule frame_trans)
  have "word_of_nat k = load_size m a" using k(1) by auto
  then have le: "le_bytes 4 (ucast (word_of_nat k :: uint32)) = bytes_at m a 4" by (intro le_bytes_load) (simp_all add: load_size_def bit_ucast_32)
  have "frame (area (p + word_of_nat 4) k) ?w ?w'" by (rule frame_poke) simp
  then have "bytes_at (w_mem ?w') p 4 = bytes_at (w_mem ?w) p 4" using area_disjoint [of 4 k p] small by (intro bytes_at_frame) auto
  also have "\<dots> = bytes_at m a 4" unfolding poke_size_def le by simp
  finally have "bytes_at (w_mem ?w') p (k + 4) = bytes_at m a (k + 4)"
    using small unfolding add.commute [of k 4] bytes_at_append by simp
  then have "same_value m a (w_mem ?w') p f" using lt k(1) by (simp add: same_value_def kinds Let_def)
  then show "\<exists>w'. pb_dec_bytes env f p s w = Some (True, advance (length (vb (word_of_nat k) @ bytes_at m (a + 4) k)) s, w') \<and>
      frame (area p ?n) w w' \<and> same_value m a (w_mem w') p f" using r fr by blast
qed

lemma kind_eqs: "PB_ATYPE_STATIC \<noteq> PB_ATYPE_POINTER" "PB_HTYPE_REQUIRED \<noteq> PB_HTYPE_OPTIONAL"
  by (simp_all add: PB_ATYPE_STATIC_def PB_ATYPE_POINTER_def PB_HTYPE_REQUIRED_def PB_HTYPE_OPTIONAL_def)

lemma delimited_inv:
  assumes "delimited (bytes_of xs) = Bytes bs" and "length xs < 2 ^ 32"
  shows "bs = vb (word_of_nat (length xs)) @ xs"
  using assms delimited_bytes [OF assms(2)] by simp

lemma recovers_value:
  assumes simple: "simple_value f" and st: "PB_ATYPE (f_type f) = PB_ATYPE_STATIC" and proper: "proper_value (mem env) f a"
    and val: "value_bytes message env f a = Bytes bs"
  shows "recovers (mem env) f a p bs (PB_DECODERS full noinit denv (PB_LTYPE (f_type f)) f p :: pb_istream \<Rightarrow> 'h pb_world \<Rightarrow> 'h decoded)"
proof -
  let ?lt = "PB_LTYPE (f_type f)" and ?m = "mem env" and ?n = "unat (data_size f)"
  have np: "PB_ATYPE (f_type f) \<noteq> PB_ATYPE_POINTER" using st kind_eqs by simp
  have lt: "?lt \<noteq> PB_LTYPE_EXTENSION" "?lt \<le> PB_LTYPE_FIXED_LENGTH_BYTES" "?lt \<noteq> PB_LTYPE_SUBMESSAGE"
    using simple by (simp_all add: simple_value_def Let_def)
  have abs: "(\<lambda>s w. PB_DECODERS full noinit denv lt f p s w) = PB_DECODERS full noinit denv lt f p" for lt by (simp add: fun_eq_iff)
  consider "?lt = PB_LTYPE_BOOL" | "?lt = PB_LTYPE_VARINT" | "?lt = PB_LTYPE_UVARINT" | "?lt = PB_LTYPE_SVARINT" | "?lt = PB_LTYPE_FIXED32"
    | "?lt = PB_LTYPE_FIXED64" | "?lt = PB_LTYPE_BYTES" | "?lt = PB_LTYPE_STRING" | "?lt = PB_LTYPE_FIXED_LENGTH_BYTES"
    using ltype_cases [OF lt(1,2)] lt(3) by blast
  then show ?thesis
  proof cases
    case 1
    then have "bs = vb (of_bool (?m a \<noteq> 0))" "data_size f = 1" using val simple by (simp_all add: value_bytes_def simple_value_def Let_def)
    moreover have "PB_DECODERS full noinit denv ?lt f p = pb_dec_bool p" by (simp add: PB_DECODERS_def [abs_def] 1)
    ultimately show ?thesis using recovers_bool [OF 1] by metis
  next
    case 2
    then have "bs = vb (load_signed ?m a ?n)" "valid_size (data_size f)"
      using val by (simp_all add: value_bytes_def integer_bytes_def kinds Let_def split: if_splits)
    then show ?thesis using recovers_scalars(1) [of f ?m a p] 2 by (simp add: PB_DECODERS_def [abs_def] kinds)
  next
    case 3
    then have "bs = vb (load ?m a ?n)" "valid_size (data_size f)"
      using val by (simp_all add: value_bytes_def integer_bytes_def kinds Let_def split: if_splits)
    then show ?thesis using recovers_scalars(2) [of f ?m a p] 3 by (simp add: PB_DECODERS_def [abs_def] kinds)
  next
    case 4
    then have "bs = vb (zigzag (load_signed ?m a ?n))" "valid_size (data_size f)"
      using val by (simp_all add: value_bytes_def integer_bytes_def kinds Let_def split: if_splits)
    then show ?thesis using recovers_scalars(3) [of f ?m a p] 4 by (simp add: PB_DECODERS_def [abs_def] kinds)
  next
    case 5
    then have "bs = fixed32_bytes (ucast (load ?m a 4))" "data_size f = 4" using val simple by (simp_all add: value_bytes_def simple_value_def kinds Let_def)
    then show ?thesis using recovers_fixed(1) [OF 5] 5 by (simp add: PB_DECODERS_def [abs_def] kinds)
  next
    case 6
    then have "bs = fixed64_bytes (load ?m a 8)" "data_size f = 8" using val simple by (simp_all add: value_bytes_def simple_value_def kinds Let_def)
    then show ?thesis using recovers_fixed(2) [OF 6] 6 by (simp add: PB_DECODERS_def [abs_def] kinds)
  next
    case 7
    let ?k = "unat (load_size ?m a)"
    have "a \<noteq> 0" using proper 7 by (simp add: proper_value_def kinds Let_def)
    then have "delimited (array_of_bytes ?m f a) = Bytes bs" "?k + 4 \<le> ?n" "array_of_bytes ?m f a = bytes_of (bytes_at ?m (a + 4) ?k)"
      using val 7 st by (auto simp: value_bytes_def array_of_bytes_def delimited_def kinds Let_def split: if_splits)
    then have "bs = vb (word_of_nat ?k) @ bytes_at ?m (a + 4) ?k" "?k + 4 \<le> ?n"
      using delimited_inv [of "bytes_at ?m (a + 4) ?k" bs] small_size [of "load_size ?m a"] by simp_all
    then show ?thesis using recovers_bytes [OF 7 np refl, of ?m a p denv] 7 by (simp add: PB_DECODERS_def [abs_def] kinds)
  next
    case 8
    let ?k = "string_size ?m a 0 ?n"
    have k: "a \<noteq> 0" "?k < ?n" using proper 8 by (simp_all add: proper_value_def kinds Let_def)
    then have "delimited (bytes_of (bytes_at ?m a ?k)) = Bytes bs" using val 8 np by (simp add: value_bytes_def string_bytes_def kinds Let_def)
    then have "bs = vb (word_of_nat ?k) @ bytes_at ?m a ?k"
      using delimited_inv [of "bytes_at ?m a ?k" bs] small_size [of "data_size f"] k(2) by simp
    then show ?thesis using recovers_string [OF 8 np refl k(2), of p denv] 8 by (simp add: PB_DECODERS_def [abs_def] kinds)
  next
    case 9
    then have "delimited (bytes_of (bytes_at ?m a ?n)) = Bytes bs" using val by (simp add: value_bytes_def kinds Let_def)
    then have "bs = vb (word_of_nat ?n) @ bytes_at ?m a ?n" using delimited_inv [of "bytes_at ?m a ?n" bs] small_size [of "data_size f"] by simp
    then show ?thesis using recovers_fixed_length [OF 9, of ?m a p] 9 by (simp add: PB_DECODERS_def [abs_def] kinds)
  qed
qed

section \<open>Fields\<close>

text \<open>A field the round trip covers: static, required or with a flag, and not a message.\<close>

definition simple_field :: "pb_field \<Rightarrow> bool" where
  "simple_field f \<longleftrightarrow>
     simple_value f \<and> PB_ATYPE (f_type f) = PB_ATYPE_STATIC \<and> 0 < f_tag f \<and> f_tag f < 2 ^ 29 \<and>
     (PB_HTYPE (f_type f) = PB_HTYPE_REQUIRED \<or> PB_HTYPE (f_type f) = PB_HTYPE_OPTIONAL \<and> size_offset f \<noteq> 0)"

definition flag_of :: "pb_field \<Rightarrow> addr \<Rightarrow> addr" where
  "flag_of f a = a + scast (size_offset f)"

text \<open>The field is written.\<close>

definition sent :: "memory \<Rightarrow> pb_field \<Rightarrow> addr \<Rightarrow> bool" where
  "sent m f a \<longleftrightarrow> PB_HTYPE (f_type f) = PB_HTYPE_OPTIONAL \<longrightarrow> m (flag_of f a) \<noteq> 0"

lemma followed_by_Bytes: "followed_by r1 r2 = Bytes bs \<Longrightarrow> \<exists>as cs. r1 = Bytes as \<and> r2 = Bytes cs \<and> bs = as @ cs"
  by (auto simp: followed_by_def split: encoding.splits if_splits)

lemma simple_field_bytes:
  assumes "simple_field f" and "any_field_bytes n message env c f a = Bytes bs"
  shows "if sent (mem env) f a then \<exists>wt vs. is_wire_type wt \<and> value_bytes message env f a = Bytes vs \<and> bs = tag_bytes wt (f_tag f) @ vs else bs = []"
proof -
  have basic: "basic_bytes n message env f a = Bytes bs"
    using assms by (simp add: any_field_bytes_def field_bytes_def simple_field_def simple_value_def Let_def)
  have tagged: "\<exists>wt vs. is_wire_type wt \<and> value_bytes message env f a = Bytes vs \<and> bs = tag_bytes wt (f_tag f) @ vs"
    if t: "tagged_bytes (value_bytes message env f) f a = Bytes bs"
  proof -
    obtain as cs where v: "field_tag f = Bytes as" "value_bytes message env f a = Bytes cs" "bs = as @ cs"
      using followed_by_Bytes [OF t [unfolded tagged_bytes_def]] by blast
    then obtain wt where "wire_type_of (PB_LTYPE (f_type f)) = Some wt" "as = tag_bytes wt (f_tag f)"
      by (auto simp: field_tag_def split: option.splits)
    moreover from this have "is_wire_type wt" by (auto simp: wire_type_of_def is_wire_type_def split: if_splits)
    ultimately show ?thesis using v by blast
  qed
  have "PB_ATYPE (f_type f) \<noteq> PB_ATYPE_POINTER" using assms(1) kind_eqs by (simp add: simple_field_def)
  then show ?thesis using basic tagged assms(1) kind_eqs
    by (auto simp: basic_bytes_def simple_field_def sent_def flag_of_def Let_def split: if_splits)
qed

end
