(* ===== verification/PbHazards.thy ===== *)
theory PbHazards
  imports PbTotal PbValues PbFormat
begin

text \<open>
  Two behaviours of the decoder outside what \<open>PbTotal\<close> covers: the pointer of a oneof that is left
  over from another member, with a message on which that happens, and the counter that an array
  without one gets in its first elements.
\<close>

section \<open>Evaluation\<close>

lemma over_iter_step:
  "snd (pb_field_iter_next it) \<Longrightarrow> over_iter f it w = Option.bind (f it w) (over_iter f (fst (pb_field_iter_next it)))"
  "\<not> snd (pb_field_iter_next it) \<Longrightarrow> over_iter f it w = f it w"
  by (cases "pb_field_iter_next it"; cases "f it w"; simp add: over_iter.simps [of f it])+

lemma seek_end_step:
  "snd (pb_field_iter_next it) \<Longrightarrow> seek_end it = seek_end (fst (pb_field_iter_next it))"
  "\<not> snd (pb_field_iter_next it) \<Longrightarrow> seek_end it = (required_field_index it, f_type (it_field it), fst (pb_field_iter_next it))"
  by (cases "pb_field_iter_next it"; simp add: seek_end.simps [of it])+

lemma le_bytes_4: "le_bytes 4 v = [ucast v, ucast (drop_bit 8 v), ucast (drop_bit 16 v), ucast (drop_bit 24 v)]"
  by (simp add: le_bytes_def eval_nat_numeral)

lemma le_bytes_8: "le_bytes 8 v = [ucast v, ucast (drop_bit 8 v), ucast (drop_bit 16 v), ucast (drop_bit 24 v),
   ucast (drop_bit 32 v), ucast (drop_bit 40 v), ucast (drop_bit 48 v), ucast (drop_bit 56 v)]"
  by (simp add: le_bytes_def eval_nat_numeral)

section \<open>A union with a pointer\<close>

definition union_table :: "pb_field list" where
  "union_table =
     [\<lparr>f_tag = 1, f_type = 0x32, data_offset = 8, size_offset = -8, data_size = 8, array_size = 0, f_ptr = 0\<rparr>,
      \<lparr>f_tag = 2, f_type = 0xB0, data_offset = -1, size_offset = -8, data_size = 1, array_size = 0, f_ptr = 0\<rparr>]"

definition log_env :: "addr list pb_denv" where
  "log_env = \<lparr>dec_tables = (\<lambda>p. []), dec_ext_field = (\<lambda>p. PB_LAST_FIELD),
     pb_realloc = (\<lambda>p n (m, h). (64, m, h @ [p])), pb_free = (\<lambda>p (m, h). (m, h)),
     call_decode = (\<lambda>f field arg s w. Some (False, s, w)), call_ext_decode = (\<lambda>f ext tag wt s w. Some (False, s, w))\<rparr>"

definition union_iter :: "nat \<Rightarrow> pb_field_iter" where
  "union_iter i = \<lparr>start = union_table, pos = i, required_field_index = 0, dest_struct = 16, pData = 24, pSize = At 16\<rparr>"

lemma union_iters:
  "pb_field_iter_begin union_table 16 = (union_iter 0, True)"
  "pb_field_iter_next (union_iter 0) = (union_iter (Suc 0), True)"
  "pb_field_iter_next (union_iter (Suc 0)) = (union_iter 0, False)"
  by (simp_all add: union_iter_def iter_eval union_table_def)

lemma union_fields:
  "it_field (union_iter 0) = \<lparr>f_tag = 1, f_type = 0x32, data_offset = 8, size_offset = -8, data_size = 8, array_size = 0, f_ptr = 0\<rparr>"
  "it_field (union_iter (Suc 0)) = \<lparr>f_tag = 2, f_type = 0xB0, data_offset = -1, size_offset = -8, data_size = 1, array_size = 0, f_ptr = 0\<rparr>"
  "pData (union_iter i) = 24" "pSize (union_iter i) = At 16" "start (union_iter i) = union_table" "pos (union_iter i) = i" "required_field_index (union_iter i) = 0"
  by (simp_all add: it_field_def field_at_def union_table_def union_iter_def)

lemma union_find:
  "pb_field_iter_find (union_iter 0) 1 = (union_iter 0, True)" "pb_field_iter_find (union_iter 0) 2 = (union_iter (Suc 0), True)"
  "pb_field_iter_find (union_iter (Suc 0)) 1 = (union_iter 0, True)"
  by (simp_all add: pb_field_iter_find_def union_fields union_iters type_consts union_table_def)

lemma read_union:
  "pb_decode_tag \<lparr>i_state = [8, 42, 16, 1], bytes_left = 4, i_errmsg = None\<rparr> = (Some (0, 1), False, \<lparr>i_state = [42, 16, 1], bytes_left = 3, i_errmsg = None\<rparr>)"
  "pb_decode_varint \<lparr>i_state = [42, 16, 1], bytes_left = 3, i_errmsg = None\<rparr> = (Some 42, \<lparr>i_state = [16, 1], bytes_left = 2, i_errmsg = None\<rparr>)"
  "pb_decode_tag \<lparr>i_state = [16, 1], bytes_left = 2, i_errmsg = None\<rparr> = (Some (0, 2), False, \<lparr>i_state = [1], bytes_left = Suc 0, i_errmsg = None\<rparr>)"
  "pb_decode_varint32 \<lparr>i_state = [1], bytes_left = Suc 0, i_errmsg = None\<rparr> = (Some 1, \<lparr>i_state = [], bytes_left = 0, i_errmsg = None\<rparr>)"
  by (simp_all add: pb_decode_tag_def pb_decode_varint32_def pb_decode_varint32_eof_def pb_readbyte_def buf_read_def pb_decode_varint_def
    varint_read_loop.simps)

definition union_mem :: "byte \<Rightarrow> byte \<Rightarrow> addr \<Rightarrow> memory" where
  "union_mem tag v q = (\<lambda>a. if a = 16 then tag else if a = 24 then v else if a = q \<and> q \<noteq> 0 then 1 else 0)"

abbreviation union_world :: "byte \<Rightarrow> byte \<Rightarrow> 'h \<Rightarrow> 'h pb_world" where
  "union_world tag v h \<equiv> \<lparr>w_mem = union_mem tag v 0, w_heap = h, w_local = 0\<rparr>"

lemma union_pokes:
  "set_count (At 16) 0 (union_world t v h) = union_world 0 v h"
  "set_count (At 16) 1 (union_world t v h) = union_world 1 v h"
  "set_count (At 16) 2 (union_world t v h) = union_world 2 v h"
  "poke_ptr 24 0 (union_world t v h) = union_world t 0 h"
  "poke_ptr 24 64 (union_world t v h) = union_world t 64 h"
  "poke 24 (le_bytes 8 42) (union_world t v h) = union_world t 42 h"
  by (simp_all add: set_count_def poke_size_def poke_def poke_ptr_def le_bytes_4 le_bytes_8 union_mem_def fun_eq_iff)

lemma union_loads:
  "get_count (At 16) (union_world 0 v h) = 0" "get_count (At 16) (union_world 1 v h) = 1" "get_count (At 16) (union_world 2 v h) = 2"
  "load_ptr (union_mem t v 0) 24 = ucast v"
  by (simp_all add: get_count_def load_ptr_def load_size_def load_numeral union_mem_def)

lemmas union_eval = union_iters union_fields union_find union_pokes union_loads read_union type_consts

lemma union_defaults:
  "pb_message_set_to_defaults (Suc n) log_env union_table 16 (union_world 0 0 h) = Some (union_world 0 0 h)"
  by (simp add: pb_message_set_to_defaults_def over_fields_def over_iter_step union_eval Let_def)

lemma union_number:
  "decode_field (Suc n) full noinit log_env 0 (union_iter 0) \<lparr>i_state = [42, 16, 1], bytes_left = 3, i_errmsg = None\<rparr> (union_world 0 0 h) =
     Some (union_iter 0, True, \<lparr>i_state = [16, 1], bytes_left = 2, i_errmsg = None\<rparr>, union_world 1 42 h)"
  by (simp add: decode_field_def decode_by_atype_def decode_static_field_def pb_release_union_field_def dec_field_def PB_DECODERS_def
      pb_dec_uvarint_def store_integer_def valid_size_def read_then_def union_eval Let_def)

lemma union_pointer:
  "decode_field (Suc n) full noinit log_env 0 (union_iter (Suc 0)) \<lparr>i_state = [1], bytes_left = Suc 0, i_errmsg = None\<rparr> (union_world 1 42 h) =
     Some (union_iter (Suc 0), True, \<lparr>i_state = [], bytes_left = 0, i_errmsg = None\<rparr>, poke 64 [1] (union_world 2 64 (h @ [42])))"
  by (simp add: decode_field_def decode_by_atype_def decode_pointer_field_def pb_release_union_field_def dec_field_def PB_DECODERS_def
      allocate_field_def initialize_pointer_field_def rd_bind_def log_env_def poke_bool_def
      pb_dec_bool_def  read_then_def union_eval Let_def)

lemma union_finish:
  "decode_finish \<lparr>d_iter = union_iter (Suc 0), fields_seen = [0, 0], extension_range_start = 0, fixed_count_field = None\<rparr> s w = Some (True, s, w)"
  by (simp add: decode_finish_def fixed_count_wrong_def all_seen_def required_count_def seek_end_step union_eval)

text \<open>A run from the wire: 42 is the number in the input and the address \<open>realloc\<close> is called with.\<close>

lemma union_run:
  "map_option (\<lambda>(ok, s, w). (ok, w_heap w))
     (pb_decode 5 log_env union_table 16 (pb_istream_from_buffer [8, 42, 16, 1] 4) \<lparr>w_mem = (\<lambda>a. 0), w_heap = [], w_local = 0\<rparr>) = Some (True, [42])"
proof -
  have "(\<lambda>a. 0) = union_mem 0 0 0" by (simp add: union_mem_def fun_eq_iff)
  moreover have "5 = Suc (Suc (Suc (Suc (Suc 0))))" by simp
  ultimately show ?thesis
    by (simp only:) (simp add: pb_decode_def decode_and_release_def pb_istream_from_buffer_def union_defaults known_field_def union_number union_pointer union_finish
     union_eval poke_def Let_def)
qed

lemma load_store_apart:
  assumes "area a n \<inter> area b (length bs) = {}"
  shows "load (store m b bs) a n = load m a n"
  using assms by (induction n arbitrary: a) (simp_all add: area_Suc store_outside)

lemma load_poke_ptr [simp]: "load_ptr (w_mem (poke_ptr a p w)) a = p"
proof (rule bit_word_eqI)
  fix j assume j: "j < LENGTH(64)"
  let ?m = "w_mem (poke_ptr a p w)"
  have "bytes_at ?m a 8 = le_bytes 8 p" by (simp add: poke_ptr_def)
  then have "bytes_at ?m a 8 ! (j div 8) = le_bytes 8 p ! (j div 8)" by simp
  moreover have "j div 8 < 8" using j by simp
  ultimately have "?m (a + word_of_nat (j div 8)) = ucast (drop_bit (8 * (j div 8)) p)" by (simp add: bytes_at_def le_bytes_def)
  then show "bit (load_ptr ?m a) j = bit p j" using j by (simp add: load_ptr_def bit_load bit_ucast_iff bit_drop_bit_eq)
qed



section \<open>An array without a counter\<close>

text \<open>Two flags and no counter: a message of two bytes.\<close>

definition pair_table :: "pb_field list" where
  "pair_table = [\<lparr>f_tag = 1, f_type = 0x20, data_offset = 0, size_offset = 0, data_size = 1, array_size = 2, f_ptr = 0\<rparr>]"

lemma over_one_field:
  assumes "f_tag f \<noteq> 0"
  shows "over_fields g [f] dest w = g (fst (pb_field_iter_begin [f] dest)) w"
proof -
  obtain it ne where it: "pb_field_iter_begin [f] dest = (it, ne)" by fastforce
  then show ?thesis using one_field [OF assms it] by (simp add: over_fields_def over_iter_step)
qed

text \<open>
  C40: the defaults of an array write past a small message. A static array without a counter, whose
  elements take fewer than four bytes together, is the only field of a message. On the empty input
  decoding succeeds and stores four zero bytes from the start of the array: those behind the
  array are outside of the message. No other byte changes.
\<close>

theorem pb_defaults_overrun:
  fixes w :: "'h pb_world"
  assumes "PB_HTYPE (f_type f) = PB_HTYPE_REPEATED" and "PB_ATYPE (f_type f) = PB_ATYPE_STATIC"
    and "PB_LTYPE (f_type f) \<noteq> PB_LTYPE_EXTENSION" and "size_offset f = 0" and "f_tag f \<noteq> 0"
    and "a = dest + ucast (data_offset f)" and "unat (data_size f) * unat (array_size f) = k" and "k < 4"
  shows "\<exists>s w'. pb_decode (Suc (Suc n)) env [f] dest (pb_istream_from_buffer [] 0) w = Some (True, s, w') \<and>
    w_mem w' (a + word_of_nat k) = 0 \<and>
    (\<forall>x. w_mem w' x = (if x \<in> area a 4 then 0 else w_mem w x))"
proof -
  define it where "it = fst (pb_field_iter_begin [f] dest)"
  have field: "field_at [f] 0 = f" by (simp add: field_at_def)
  have first: "pb_field_iter_begin [f] dest = (it, True)" "start it = [f]" "pData it = a" "pSize it = At a"
    unfolding it_def pb_field_iter_begin_def field Let_def assms(4,6) using assms(5) by simp_all
  note it = first(1) one_field(2) [OF assms(5) first(1)] first(3,4) one_field(4) [OF assms(5) first(1)] first(2)
  let ?w = "poke_size a 0 w"
  have hts: "PB_HTYPE_REPEATED \<noteq> PB_HTYPE_OPTIONAL" by (simp add: type_consts)
  have def: "pb_message_set_to_defaults (Suc (Suc n)) env [f] dest w = Some ?w"
    unfolding pb_message_set_to_defaults_def over_one_field [OF assms(5)] it(1) fst_conv
    using assms(1-3) hts by (simp add: it(2-4) Let_def set_count_def)
  have ht: "PB_HTYPE (f_type f) \<noteq> PB_HTYPE_REQUIRED" using assms(1) by (simp add: type_consts)
  have idx: "required_field_index it = 0" by (simp add: it_def pb_field_iter_begin_def Let_def)
  have "required_count it = 0"
    using it(2,5) ht idx by (simp add: required_count_def seek_end_step PB_MAX_REQUIRED_FIELDS_def)
  then have fin: "decode_finish \<lparr>d_iter = it, fields_seen = [0, 0], extension_range_start = 0, fixed_count_field = None\<rparr> s v = Some (True, s, v)" for s and v :: "'h pb_world"
    by (simp add: decode_finish_def fixed_count_wrong_def all_seen_def)
  have "pb_decode (Suc (Suc n)) env [f] dest (pb_istream_from_buffer [] 0) w = Some (True, pb_istream_from_buffer [] 0, ?w)"
    using it(1) fin by (simp add: pb_decode_def decode_and_release_def def pb_istream_from_buffer_def poke_size_def poke_def)
  moreover have "w_mem ?w x = (if x \<in> area a 4 then 0 else w_mem w x)" for x
    by (auto simp: poke_size_def poke_def le_bytes_4 area_numeral)
  moreover have "a + word_of_nat k \<in> area a 4" using assms(8) by (auto simp: area_def)
  ultimately show ?thesis by (intro exI conjI) auto
qed

theorem pb_defaults_overrun_witness:
  "\<exists>s w'. pb_decode 2 sample_denv pair_table 16 (pb_istream_from_buffer [] 0) \<lparr>w_mem = (\<lambda>a. 7), w_heap = (), w_local = 0\<rparr> = Some (True, s, w') \<and>
    w_mem w' (16 + word_of_nat 2) = 0"
  using pb_defaults_overrun [of "hd pair_table" 16 16 2 0 sample_denv "\<lparr>w_mem = (\<lambda>a. 7), w_heap = (), w_local = 0\<rparr>"]
  unfolding numeral_2_eq_2 by (auto simp: pair_table_def type_consts)

end
