(* ===== verification/PbRound.thy ===== *)
theory PbRound
  imports PbValues
begin

text \<open>
  The decoder against the encoder on tables of simple fields: static scalars, strings and byte
  arrays, required or with a flag. The iterator visits the fields at fixed places; every field of
  the input is found, stored and marked as seen; the fields before it stay as they are.
\<close>

section \<open>Iterators of simple tables\<close>

primrec nth_iter :: "pb_field list \<Rightarrow> addr \<Rightarrow> nat \<Rightarrow> pb_field_iter" where
  "nth_iter tbl base 0 = fst (pb_field_iter_begin tbl base)"
| "nth_iter tbl base (Suc i) = fst (pb_field_iter_next (nth_iter tbl base i))"

text \<open>The number of required fields before a position.\<close>

definition required_before :: "pb_field list \<Rightarrow> nat \<Rightarrow> nat" where
  "required_before tbl i = length (filter (\<lambda>f. PB_HTYPE (f_type f) = PB_HTYPE_REQUIRED) (take i tbl))"

definition place :: "pb_field list \<Rightarrow> addr \<Rightarrow> nat \<Rightarrow> addr" where
  "place tbl base i = pData (nth_iter tbl base i)"

lemma simple_tag: "simple_field f \<Longrightarrow> f_tag f \<noteq> 0"
  by (auto simp: simple_field_def)

lemma not_oneof: "simple_field f \<Longrightarrow> PB_HTYPE (f_type f) \<noteq> PB_HTYPE_ONEOF \<and> PB_HTYPE (f_type f) \<noteq> PB_HTYPE_REPEATED"
  using htype_distinct by (auto simp: simple_field_def)

lemma required_before_Suc:
  "i < length tbl \<Longrightarrow> required_before tbl (Suc i) = required_before tbl i + of_bool (PB_HTYPE (f_type (tbl ! i)) = PB_HTYPE_REQUIRED)"
  by (simp add: required_before_def take_Suc_conv_app_nth)

lemma nth_iter_fields:
  assumes "list_all simple_field tbl" and "i < length tbl"
  shows "pos (nth_iter tbl base i) = i \<and> start (nth_iter tbl base i) = tbl \<and> dest_struct (nth_iter tbl base i) = base \<and>
    required_field_index (nth_iter tbl base i) = word_of_nat (required_before tbl i) \<and>
    pSize (nth_iter tbl base i) = At (flag_of (tbl ! i) (place tbl base i))"
  using assms(2)
proof (induction i)
  case 0
  then show ?case by (simp add: pb_field_iter_begin_def field_at_def required_before_def place_def flag_of_def Let_def)
next
  case (Suc i)
  let ?it = "nth_iter tbl base i"
  have i: "i < length tbl" using Suc.prems by simp
  note IH = Suc.IH [OF i]
  have f: "it_field ?it = tbl ! i" using IH i by (simp add: it_field_def field_at_def)
  have g: "it_field (?it\<lparr>pos := Suc i\<rparr>) = tbl ! Suc i" using IH Suc.prems by (simp add: it_field_def field_at_def)
  have s: "simple_field (tbl ! i)" "simple_field (tbl ! Suc i)" using assms(1) i Suc.prems by (auto simp: list_all_length)
  then show ?case using IH f g simple_tag [OF s(1)] simple_tag [OF s(2)] not_oneof [OF s(1)] required_before_Suc [OF i]
    by (simp add: pb_field_iter_next_def place_def flag_of_def it_field_def field_at_def i Suc.prems Let_def)
qed

lemma nth_iter_field: "list_all simple_field tbl \<Longrightarrow> i < length tbl \<Longrightarrow> it_field (nth_iter tbl base i) = tbl ! i"
  using nth_iter_fields [of tbl i base] by (simp add: it_field_def field_at_def)

lemma nth_iter_next:
  assumes "list_all simple_field tbl" and "i < length tbl"
  shows "pb_field_iter_next (nth_iter tbl base i) =
    (if Suc i < length tbl then (nth_iter tbl base (Suc i), True) else (nth_iter tbl base 0, False))"
proof -
  let ?it = "nth_iter tbl base i"
  note it = nth_iter_fields [OF assms, of base] nth_iter_field [OF assms, of base]
  have s: "simple_field (tbl ! i)" using assms by (auto simp: list_all_length)
  show ?thesis
  proof (cases "Suc i < length tbl")
    case True
    have "simple_field (tbl ! Suc i)" using assms(1) True by (auto simp: list_all_length)
    moreover have "it_field (?it\<lparr>pos := Suc i\<rparr>) = tbl ! Suc i" using it True by (simp add: it_field_def field_at_def)
    ultimately have "snd (pb_field_iter_next ?it)"
      using it simple_tag [OF s] simple_tag [of "tbl ! Suc i"] by (simp add: pb_field_iter_next_def Let_def)
    then show ?thesis using True by (simp add: prod_eq_iff)
  next
    case False
    have "it_field (?it\<lparr>pos := Suc i\<rparr>) = PB_LAST_FIELD" using it False by (simp add: it_field_def field_at_def)
    then show ?thesis using it False simple_tag [OF s] by (simp add: pb_field_iter_next_def PB_LAST_FIELD_def Let_def)
  qed
qed

lemma layout_nth:
  assumes "list_all simple_field tbl"
  shows "Suc i \<le> length tbl \<Longrightarrow> layout (tbl ! i) (place tbl src i) (drop (Suc i) tbl) = map (\<lambda>j. (tbl ! j, place tbl src j)) [Suc i..<length tbl]"
proof (induction "length tbl - i" arbitrary: i rule: less_induct)
  case less
  show ?case
  proof (cases "Suc i < length tbl")
    case False
    then show ?thesis by simp
  next
    case True
    let ?it = "nth_iter tbl src i"
    have i: "i < length tbl" using True by simp
    note it = nth_iter_fields [OF assms i, of src] nth_iter_field [OF assms i, of src]
    have s: "f_tag (tbl ! i) \<noteq> 0" "f_tag (tbl ! Suc i) \<noteq> 0" using assms True simple_tag [of "tbl ! i"] simple_tag [of "tbl ! Suc i"] by (auto simp: list_all_length)
    have d: "drop (Suc i) tbl = tbl ! Suc i # drop (Suc (Suc i)) tbl" using True by (simp add: Cons_nth_drop_Suc)
    have a: "f_tag (it_field ?it) \<noteq> 0" and b: "drop (Suc (pos ?it)) (start ?it) = drop (Suc i) tbl" using it s by simp_all
    obtain it' where "pb_field_iter_next ?it = (it', True)" and
      data: "pData it' = (if in_union (it_field ?it) (tbl ! Suc i) then pData ?it else pData ?it + field_width (it_field ?it) + ucast (data_offset (tbl ! Suc i)))"
      using iter_next_layout(2) [OF a b d s(2)] by blast
    then have "it' = nth_iter tbl src (Suc i)" by simp
    with data have "pData (nth_iter tbl src (Suc i)) =
        (if in_union (tbl ! i) (tbl ! Suc i) then pData ?it else pData ?it + field_width (tbl ! i) + ucast (data_offset (tbl ! Suc i)))"
      using it by simp
    then have "layout (tbl ! i) (place tbl src i) (drop (Suc i) tbl) =
        (tbl ! Suc i, place tbl src (Suc i)) # layout (tbl ! Suc i) (place tbl src (Suc i)) (drop (Suc (Suc i)) tbl)"
      using s by (simp add: d place_def Let_def)
    also have "\<dots> = (tbl ! Suc i, place tbl src (Suc i)) # map (\<lambda>j. (tbl ! j, place tbl src j)) [Suc (Suc i)..<length tbl]"
      using less.hyps [of "Suc i"] True by simp
    finally show ?thesis using True by (simp add: upt_rec [of "Suc i"])
  qed
qed

lemma message_fields_nth:
  assumes "list_all simple_field tbl" and "tbl \<noteq> []"
  shows "message_fields tbl src = map (\<lambda>j. (tbl ! j, place tbl src j)) [0..<length tbl]"
proof -
  obtain f fs where t: "tbl = f # fs" using assms(2) by (cases tbl) auto
  have p: "place tbl src 0 = src + ucast (data_offset f)" by (simp add: place_def pb_field_iter_begin_def field_at_def t Let_def)
  have "f_tag f \<noteq> 0" using assms(1) simple_tag by (simp add: t)
  then have "message_fields tbl src = (tbl ! 0, place tbl src 0) # layout (tbl ! 0) (place tbl src 0) (drop (Suc 0) tbl)"
    by (simp add: message_fields_def t p [unfolded t] Let_def)
  also have "\<dots> = map (\<lambda>j. (tbl ! j, place tbl src j)) (0 # [Suc 0..<length tbl])" using layout_nth [OF assms(1), of 0 src] t by simp
  finally have "message_fields tbl src = map (\<lambda>j. (tbl ! j, place tbl src j)) (0 # [Suc 0..<length tbl])" .
  moreover have "[0..<length tbl] = 0 # [Suc 0..<length tbl]" using assms(2) by (simp add: upt_conv_Cons)
  ultimately show ?thesis by (simp only:)
qed

declare nth_iter.simps [simp del]

lemma mod_shift: "i < n \<Longrightarrow> e < n \<Longrightarrow> (i + e) mod n = (if i + e < n then i + e else i + e - n)" for n :: nat
  by (simp add: mod_if)

lemma mod_shift_inj: "i < n \<Longrightarrow> e < n \<Longrightarrow> e' < n \<Longrightarrow> (i + e) mod n = (i + e') mod n \<Longrightarrow> e = e'" for n :: nat
  by (simp add: mod_shift split: if_splits)

lemma nth_iter_step:
  assumes "list_all simple_field tbl" and "i < length tbl"
  shows "fst (pb_field_iter_next (nth_iter tbl base i)) = nth_iter tbl base (Suc i mod length tbl)"
proof (cases "Suc i < length tbl")
  case False
  then have "Suc i = length tbl" using assms(2) by simp
  then show ?thesis using nth_iter_next [OF assms, of base] by simp
qed (simp add: nth_iter.simps(2))

lemma find_walk:
  assumes tbl: "list_all simple_field tbl"
  shows "i < length tbl \<Longrightarrow> d < k \<Longrightarrow> d < length tbl \<Longrightarrow> wanted (tbl ! ((i + d) mod length tbl)) \<Longrightarrow>
    (\<And>e. e < d \<Longrightarrow> \<not> wanted (tbl ! ((i + e) mod length tbl))) \<Longrightarrow> (\<And>e. 0 < e \<Longrightarrow> e \<le> d \<Longrightarrow> (i + e) mod length tbl \<noteq> first) \<Longrightarrow>
    find_loop k wanted first (nth_iter tbl base i) = (nth_iter tbl base ((i + d) mod length tbl), True)"
proof (induction k arbitrary: i d)
  case (Suc k)
  let ?n = "length tbl"
  note f = nth_iter_field [OF tbl Suc.prems(1), of base]
  show ?case
  proof (cases d)
    case 0
    then show ?thesis using Suc.prems(1,4) f by simp
  next
    case d: (Suc e)
    let ?j = "Suc i mod ?n"
    have j: "?j < ?n" using Suc.prems(1) by (intro mod_less_divisor) linarith
    have shift: "(?j + x) mod ?n = (i + Suc x) mod ?n" for x by (simp add: mod_simps)
    have "\<not> wanted (tbl ! i)" using Suc.prems(5) [of 0] Suc.prems(1) d by simp
    moreover have "?j \<noteq> first" using Suc.prems(6) [of 1] d by simp
    moreover have "pos (nth_iter tbl base ?j) = ?j" using nth_iter_fields [OF tbl j, of base] by simp
    moreover have "find_loop k wanted first (nth_iter tbl base ?j) = (nth_iter tbl base ((?j + e) mod ?n), True)"
    proof (rule Suc.IH [OF j])
      show "e < k" "e < ?n" using Suc.prems(2,3) d by simp_all
      show "wanted (tbl ! ((?j + e) mod ?n))" unfolding shift using Suc.prems(4) d by simp
      show "\<not> wanted (tbl ! ((?j + x) mod ?n))" if "x < e" for x unfolding shift using Suc.prems(5) [of "Suc x"] that d by simp
      show "(?j + x) mod ?n \<noteq> first" if "0 < x" "x \<le> e" for x unfolding shift using Suc.prems(6) [of "Suc x"] that d by simp
    qed
    ultimately show ?thesis using f nth_iter_step [OF tbl Suc.prems(1), of base] shift [of e] d by (simp add: Let_def)
  qed
qed simp

lemma find_nth:
  assumes tbl: "list_all simple_field tbl" and tags: "distinct (map f_tag tbl)" and i: "i < length tbl" and j: "j < length tbl"
  shows "pb_field_iter_find (nth_iter tbl base i) (f_tag (tbl ! j)) = (nth_iter tbl base j, True)"
proof -
  let ?n = "length tbl" and ?d = "if i \<le> j then j - i else j + length tbl - i"
  have d: "?d < ?n" using i j by auto
  have at: "(i + ?d) mod ?n = j" using i j d by (simp add: mod_shift)
  have lt: "x < ?n \<Longrightarrow> PB_LTYPE (f_type (tbl ! x)) \<noteq> PB_LTYPE_EXTENSION" for x
    using tbl by (simp add: list_all_length simple_field_def simple_value_def Let_def)
  have tag: "x < ?n \<Longrightarrow> f_tag (tbl ! x) = f_tag (tbl ! j) \<Longrightarrow> x = j" for x
    using tags j nth_eq_iff_index_eq [OF tags, of x j] by simp
  have "find_loop (?n + 1) (\<lambda>f. f_tag f = f_tag (tbl ! j) \<and> PB_LTYPE (f_type f) \<noteq> PB_LTYPE_EXTENSION) i (nth_iter tbl base i) =
      (nth_iter tbl base ((i + ?d) mod ?n), True)"
  proof (rule find_walk [OF tbl i])
    show "?d < ?n + 1" using d by linarith
    show "?d < ?n" by (rule d)
    show "f_tag (tbl ! ((i + ?d) mod ?n)) = f_tag (tbl ! j) \<and> PB_LTYPE (f_type (tbl ! ((i + ?d) mod ?n))) \<noteq> PB_LTYPE_EXTENSION"
      unfolding at using lt [OF j] by simp
    show "\<not> (f_tag (tbl ! ((i + e) mod ?n)) = f_tag (tbl ! j) \<and> PB_LTYPE (f_type (tbl ! ((i + e) mod ?n))) \<noteq> PB_LTYPE_EXTENSION)" if "e < ?d" for e
    proof -
      have "(i + e) mod ?n \<noteq> j" using mod_shift_inj [OF i _ d, of e] that d at by fastforce
      moreover have "(i + e) mod ?n < ?n" using i by (intro mod_less_divisor) linarith
      ultimately show ?thesis using tag [of "(i + e) mod ?n"] by blast
    qed
    show "(i + e) mod ?n \<noteq> i" if "0 < e" "e \<le> ?d" for e
      using mod_shift_inj [OF i, of e 0] that d i by fastforce
  qed
  then show ?thesis unfolding at using nth_iter_fields [OF tbl i, of base] by (simp only: pb_field_iter_find_def)
qed

lemma seek_end_nth:
  assumes tbl: "list_all simple_field tbl"
  shows "i < length tbl \<Longrightarrow> seek_end (nth_iter tbl base i) =
    (word_of_nat (required_before tbl (length tbl - 1)), f_type (tbl ! (length tbl - 1)), nth_iter tbl base 0)"
proof (induction "length tbl - i" arbitrary: i rule: less_induct)
  case less
  note it = nth_iter_fields [OF tbl less.prems, of base] nth_iter_field [OF tbl less.prems, of base]
  note nx = nth_iter_next [OF tbl less.prems, of base]
  show ?case
  proof (cases "Suc i < length tbl")
    case True
    then show ?thesis using less.hyps [of "Suc i"] less.prems nx by (simp add: seek_end.simps [of "nth_iter tbl base i"])
  next
    case False
    have "seek_end (nth_iter tbl base i) = (word_of_nat (required_before tbl i), f_type (tbl ! i), nth_iter tbl base 0)"
      using nx it False by (simp add: seek_end.simps [of "nth_iter tbl base i"])
    moreover have "i = length tbl - 1" using False less.prems by simp
    ultimately show ?thesis by simp
  qed
qed

lemma required_count_nth:
  assumes tbl: "list_all simple_field tbl" and i: "i < length tbl" and small: "length tbl < 2 ^ 32"
  shows "required_count (nth_iter tbl base i) = min 64 (required_before tbl (length tbl))"
proof -
  let ?l = "length tbl - 1"
  have l: "?l < length tbl" "Suc ?l = length tbl" using i by simp_all
  have zero: "it_field (nth_iter tbl base 0) = tbl ! 0" using i by (intro nth_iter_field [OF tbl]) auto
  have "simple_field (tbl ! 0)" using tbl i by (cases tbl) auto
  then have "f_tag (tbl ! 0) \<noteq> 0" by (rule simple_tag)
  moreover have "required_before tbl (length tbl) = required_before tbl ?l + of_bool (PB_HTYPE (f_type (tbl ! ?l)) = PB_HTYPE_REQUIRED)"
    using required_before_Suc [OF l(1)] l(2) by simp
  moreover have "required_before tbl (length tbl) < 2 ^ 32"
    using small by (simp add: required_before_def le_less_trans [OF length_filter_le])
  ultimately have "required_count (nth_iter tbl base i) =
      unat (if (word_of_nat (required_before tbl (length tbl)) :: uint32) > 64 then (64 :: uint32) else word_of_nat (required_before tbl (length tbl)))"
    by (simp add: required_count_def seek_end_nth [OF tbl i] zero PB_MAX_REQUIRED_FIELDS_def add.commute Let_def)
  also have "\<dots> = min 64 (required_before tbl (length tbl))"
    using unat_of_length(2) [OF \<open>required_before tbl (length tbl) < 2 ^ 32\<close>] by (simp add: word_less_nat_alt)
  finally show ?thesis .
qed

lemma over_iter_walk:
  assumes tbl: "list_all simple_field tbl" and step: "\<And>i w. i < length tbl \<Longrightarrow> J i w \<Longrightarrow> \<exists>w'. f (nth_iter tbl base i) w = Some w' \<and> J (Suc i) w'"
  shows "i < length tbl \<Longrightarrow> J i w \<Longrightarrow> \<exists>w'. over_iter f (nth_iter tbl base i) w = Some w' \<and> J (length tbl) w'"
proof (induction "length tbl - i" arbitrary: i w rule: less_induct)
  case less
  obtain w' where w': "f (nth_iter tbl base i) w = Some w'" "J (Suc i) w'" using step [OF less.prems] by blast
  note nx = nth_iter_next [OF tbl less.prems(1), of base]
  show ?case
  proof (cases "Suc i < length tbl")
    case True
    then show ?thesis using less.hyps [of "Suc i" w'] less.prems w' nx by (simp add: over_iter.simps [of f])
  next
    case False
    then have "Suc i = length tbl" using less.prems by simp
    then show ?thesis using w' nx False by (simp add: over_iter.simps [of f])
  qed
qed

section \<open>Messages\<close>

definition optional :: "pb_field \<Rightarrow> bool" where
  "optional f \<longleftrightarrow> PB_HTYPE (f_type f) = PB_HTYPE_OPTIONAL"

text \<open>The value and the flag of a field have arrived.\<close>

definition arrived :: "memory \<Rightarrow> addr \<Rightarrow> memory \<Rightarrow> addr \<Rightarrow> pb_field \<Rightarrow> bool" where
  "arrived m a m' p f \<longleftrightarrow>
     (optional f \<longrightarrow> m' (flag_of f p) = of_bool (m (flag_of f a) \<noteq> 0)) \<and> (sent m f a \<longrightarrow> same_value m a m' p f)"

definition span :: "pb_field list \<Rightarrow> addr \<Rightarrow> nat \<Rightarrow> addr set" where
  "span tbl base i =
     (let f = tbl ! i; p = place tbl base i in area p (unat (data_size f)) \<union> (if optional f then {flag_of f p} else {}))"

text \<open>Fields do not overlap, and flags are apart from the values.\<close>

definition separate :: "pb_field list \<Rightarrow> addr \<Rightarrow> bool" where
  "separate tbl base \<longleftrightarrow>
     list_all (\<lambda>i. let f = tbl ! i; p = place tbl base i in
       (optional f \<longrightarrow> flag_of f p \<notin> insert p (area p (unat (data_size f)))) \<and>
       list_all (\<lambda>j. i = j \<or> span tbl base i \<inter> span tbl base j = {}) [0..<length tbl]) [0..<length tbl]"

lemma separateD:
  assumes "separate tbl base" and "i < length tbl"
  shows "optional (tbl ! i) \<Longrightarrow> flag_of (tbl ! i) (place tbl base i) \<notin> insert (place tbl base i) (area (place tbl base i) (unat (data_size (tbl ! i))))"
    and "j < length tbl \<Longrightarrow> i \<noteq> j \<Longrightarrow> span tbl base i \<inter> span tbl base j = {}"
proof -
  have "(optional (tbl ! i) \<longrightarrow> flag_of (tbl ! i) (place tbl base i) \<notin> insert (place tbl base i) (area (place tbl base i) (unat (data_size (tbl ! i))))) \<and>
      (\<forall>j \<in> set [0..<length tbl]. i = j \<or> span tbl base i \<inter> span tbl base j = {})"
    using assms by (simp add: separate_def list_all_iff Let_def)
  then have a: "optional (tbl ! i) \<longrightarrow> flag_of (tbl ! i) (place tbl base i) \<notin> insert (place tbl base i) (area (place tbl base i) (unat (data_size (tbl ! i))))"
    and b: "\<forall>j \<in> set [0..<length tbl]. i = j \<or> span tbl base i \<inter> span tbl base j = {}" by blast+
  show "optional (tbl ! i) \<Longrightarrow> flag_of (tbl ! i) (place tbl base i) \<notin> insert (place tbl base i) (area (place tbl base i) (unat (data_size (tbl ! i))))"
    using a by blast
  show "span tbl base i \<inter> span tbl base j = {}" if "j < length tbl" "i \<noteq> j" using b that by fastforce
qed

lemma frame_mono: "frame S w w' \<Longrightarrow> S \<subseteq> T \<Longrightarrow> frame T w w'"
  by (auto simp: frame_def)

lemma span_parts:
  "area (place tbl base i) (unat (data_size (tbl ! i))) \<subseteq> span tbl base i"
  "optional (tbl ! i) \<Longrightarrow> flag_of (tbl ! i) (place tbl base i) \<in> span tbl base i"
  by (auto simp: span_def Let_def)

lemma frame_same: "frame S w w' \<Longrightarrow> a \<notin> S \<Longrightarrow> w_mem w' a = w_mem w a"
  by (simp add: frame_def)

lemma same_value_frame:
  assumes "same_value m a (w_mem w) p f" and fr: "frame S w w'" and S: "S \<inter> area p (unat (data_size f)) = {}"
    and "simple_value f" and "proper_value m f a"
  shows "same_value m a (w_mem w') p f"
proof -
  let ?n = "unat (data_size f)"
  have at: "bytes_at (w_mem w') p k = bytes_at (w_mem w) p k" if "k \<le> ?n" for k
    using S area_mono [OF that, of p] by (intro bytes_at_frame [OF fr]) auto
  have one: "w_mem w' (p + word_of_nat k) = w_mem w (p + word_of_nat k)" if "k < ?n" for k
    using S that by (intro frame_same [OF fr]) (auto simp: area_def)
  show ?thesis using assms(1,4,5) at one one [of 0]
    by (auto simp: same_value_def simple_value_def proper_value_def Let_def)
qed

lemma arrived_frame:
  assumes "arrived m (place tbl src i) (w_mem w) (place tbl dest i) (tbl ! i)" and fr: "frame S w w'" and S: "S \<inter> span tbl dest i = {}"
    and "simple_value (tbl ! i)" and "sent m (tbl ! i) (place tbl src i) \<Longrightarrow> proper_value m (tbl ! i) (place tbl src i)"
  shows "arrived m (place tbl src i) (w_mem w') (place tbl dest i) (tbl ! i)"
proof -
  have "S \<inter> area (place tbl dest i) (unat (data_size (tbl ! i))) = {}" using S span_parts(1) [of tbl dest i] by blast
  moreover have "optional (tbl ! i) \<Longrightarrow> w_mem w' (flag_of (tbl ! i) (place tbl dest i)) = w_mem w (flag_of (tbl ! i) (place tbl dest i))"
    using S span_parts(2) [of tbl i dest] by (intro frame_same [OF fr]) blast
  ultimately show ?thesis using assms(1,4,5) same_value_frame [OF _ fr] unfolding arrived_def by auto
qed

text \<open>The first \<open>k\<close> fields have arrived, and the flags of the others are unset.\<close>

definition progress :: "memory \<Rightarrow> pb_field list \<Rightarrow> addr \<Rightarrow> addr \<Rightarrow> nat \<Rightarrow> 'h pb_world \<Rightarrow> bool" where
  "progress m tbl src dest k w \<longleftrightarrow>
     (\<forall>i < k. arrived m (place tbl src i) (w_mem w) (place tbl dest i) (tbl ! i)) \<and>
     (\<forall>i. k \<le> i \<and> i < length tbl \<and> optional (tbl ! i) \<longrightarrow> w_mem w (flag_of (tbl ! i) (place tbl dest i)) = 0)"

definition simple_table :: "pb_field list \<Rightarrow> bool" where
  "simple_table tbl \<longleftrightarrow> tbl \<noteq> [] \<and> list_all simple_field tbl \<and> distinct (map f_tag tbl) \<and> length tbl < 2 ^ 32"

definition proper_message :: "memory \<Rightarrow> pb_field list \<Rightarrow> addr \<Rightarrow> bool" where
  "proper_message m tbl src \<longleftrightarrow>
     list_all (\<lambda>i. sent m (tbl ! i) (place tbl src i) \<longrightarrow> proper_value m (tbl ! i) (place tbl src i)) [0..<length tbl]"

lemma simple_at: "simple_table tbl \<Longrightarrow> i < length tbl \<Longrightarrow> simple_field (tbl ! i)"
  by (simp add: simple_table_def list_all_length)

lemma proper_at: "proper_message m tbl src \<Longrightarrow> i < length tbl \<Longrightarrow> sent m (tbl ! i) (place tbl src i) \<Longrightarrow> proper_value m (tbl ! i) (place tbl src i)"
  by (simp add: proper_message_def list_all_iff)

lemma progress_Suc:
  assumes "progress m tbl src dest k w" and k: "k < length tbl" and tbl: "simple_table tbl" and sep: "separate tbl dest"
    and proper: "proper_message m tbl src" and fr: "frame (span tbl dest k) w w'"
    and here: "arrived m (place tbl src k) (w_mem w') (place tbl dest k) (tbl ! k)"
  shows "progress m tbl src dest (Suc k) w'"
proof -
  have dis: "i < length tbl \<Longrightarrow> i \<noteq> k \<Longrightarrow> span tbl dest k \<inter> span tbl dest i = {}" for i using separateD(2) [OF sep k] by blast
  have "arrived m (place tbl src i) (w_mem w') (place tbl dest i) (tbl ! i)" if i: "i < Suc k" for i
  proof (cases "i = k")
    case False
    then have i: "i < k" "i < length tbl" using i k by simp_all
    then have "simple_value (tbl ! i)" using simple_at [OF tbl] by (simp add: simple_field_def)
    then show ?thesis using assms(1) i False by (intro arrived_frame [OF _ fr dis]) (auto simp: progress_def intro: proper_at [OF proper])
  qed (use here in simp)
  moreover have "w_mem w' (flag_of (tbl ! i) (place tbl dest i)) = 0" if i: "Suc k \<le> i" "i < length tbl" "optional (tbl ! i)" for i
  proof -
    have "flag_of (tbl ! i) (place tbl dest i) \<notin> span tbl dest k" using dis [OF i(2)] span_parts(2) [OF i(3)] i(1) by auto
    then show ?thesis using assms(1) i frame_same [OF fr] by (auto simp: progress_def)
  qed
  ultimately show ?thesis by (simp add: progress_def)
qed

lemma progress_skip:
  assumes "progress m tbl src dest k w" and "k < length tbl" and "\<not> sent m (tbl ! k) (place tbl src k)"
  shows "progress m tbl src dest (Suc k) w"
proof -
  have "arrived m (place tbl src k) (w_mem w) (place tbl dest k) (tbl ! k)"
    using assms by (auto simp: arrived_def progress_def sent_def optional_def)
  then show ?thesis using assms(1) by (auto simp: progress_def less_Suc_eq)
qed

section \<open>Default values\<close>

lemma flag_set:
  assumes "optional (tbl ! i)"
  shows "frame (span tbl base i) w (set_has (At (flag_of (tbl ! i) (place tbl base i))) b w) \<and>
    w_mem (set_has (At (flag_of (tbl ! i) (place tbl base i))) b w) (flag_of (tbl ! i) (place tbl base i)) = of_bool b"
  using assms by (auto simp: set_has_def poke_bool_def poke_def frame_def span_def Let_def)

lemma init_static_frame:
  assumes "simple_value (it_field it)"
  shows "\<exists>w'. init_static f env it w = Some w' \<and> frame (area (pData it) (unat (data_size (it_field it)))) w w'"
  using assms by (auto simp: init_static_def simple_value_def bytes_at_def Let_def intro!: frame_poke frame_pokes(3))

lemma pData_place: "pData (nth_iter tbl base i) = place tbl base i"
  by (simp add: place_def)

lemma default_step:
  assumes tbl: "simple_table tbl" and sep: "separate tbl dest" and i: "i < length tbl"
  shows "\<exists>w'. pb_field_set_to_default (Suc n) env (nth_iter tbl dest i) w = Some w' \<and> frame (span tbl dest i) w w' \<and>
    (optional (tbl ! i) \<longrightarrow> w_mem w' (flag_of (tbl ! i) (place tbl dest i)) = 0)"
proof -
  have all: "list_all simple_field tbl" using tbl by (simp add: simple_table_def)
  note it = nth_iter_fields [OF all i, of dest] nth_iter_field [OF all i, of dest]
  let ?it = "nth_iter tbl dest i" and ?f = "tbl ! i" and ?flag = "flag_of (tbl ! i) (place tbl dest i)"
  have s: "simple_field ?f" by (rule simple_at [OF tbl i])
  then have v: "simple_value ?f" "PB_ATYPE (f_type ?f) = PB_ATYPE_STATIC" "PB_LTYPE (f_type ?f) \<noteq> PB_LTYPE_EXTENSION"
    by (simp_all add: simple_field_def simple_value_def Let_def)
  have init: "\<exists>w'. init_static (pb_field_set_to_default n env) env ?it w = Some w' \<and> frame (area (place tbl dest i) (unat (data_size ?f))) w w'" for w
    using init_static_frame [of ?it] v(1) it by (simp add: pData_place)
  show ?thesis
  proof (cases "optional ?f")
    case True
    let ?w = "set_has (At ?flag) False w"
    obtain w' where w': "init_static (pb_field_set_to_default n env) env ?it ?w = Some w'" and fr: "frame (area (place tbl dest i) (unat (data_size ?f))) ?w w'"
      using init by blast
    note out = separateD(1) [OF sep i True]
    have "pb_field_set_to_default (Suc n) env ?it w = Some w'"
      using w' v it out True by (simp add: optional_def pData_place Let_def)
    moreover have "frame (span tbl dest i) w w'"
      using flag_set [OF True, of dest w False] frame_mono [OF fr span_parts(1)] frame_trans by blast
    moreover have "w_mem w' ?flag = 0" using frame_same [OF fr] out flag_set [OF True, of dest w False] by simp
    ultimately show ?thesis by blast
  next
    case False
    obtain w' where w': "init_static (pb_field_set_to_default n env) env ?it w = Some w'" and fr: "frame (area (place tbl dest i) (unat (data_size ?f))) w w'"
      using init by blast
    have "pb_field_set_to_default (Suc n) env ?it w = Some w'"
      using w' v it False not_oneof [OF s] by (simp add: optional_def Let_def)
    then show ?thesis using frame_mono [OF fr span_parts(1)] False by blast
  qed
qed

lemma defaults_blank:
  assumes tbl: "simple_table tbl" and sep: "separate tbl dest"
  shows "\<exists>w'. pb_message_set_to_defaults (Suc n) env tbl dest w = Some w' \<and> progress m tbl src dest 0 w'"
proof -
  have all: "list_all simple_field tbl" and ne: "0 < length tbl" using tbl by (auto simp: simple_table_def)
  let ?J = "\<lambda>k (w :: 'a pb_world). \<forall>i<k. i < length tbl \<and> optional (tbl ! i) \<longrightarrow> w_mem w (flag_of (tbl ! i) (place tbl dest i)) = 0"
  have step: "\<exists>w'. pb_field_set_to_default (Suc n) env (nth_iter tbl dest i) w = Some w' \<and> ?J (Suc i) w'" if i: "i < length tbl" and J: "?J i w" for i w
  proof -
    obtain w' where w': "pb_field_set_to_default (Suc n) env (nth_iter tbl dest i) w = Some w'" and fr: "frame (span tbl dest i) w w'"
      and flag: "optional (tbl ! i) \<longrightarrow> w_mem w' (flag_of (tbl ! i) (place tbl dest i)) = 0" using default_step [OF tbl sep i] by blast
    have "w_mem w' (flag_of (tbl ! j) (place tbl dest j)) = 0" if j: "j < i" "j < length tbl" "optional (tbl ! j)" for j
    proof -
      have "flag_of (tbl ! j) (place tbl dest j) \<notin> span tbl dest i"
        using separateD(2) [OF sep i j(2)] span_parts(2) [OF j(3), of dest] j(1) by auto
      then show ?thesis using frame_same [OF fr] J j by simp
    qed
    then show ?thesis using w' flag by (auto simp: less_Suc_eq)
  qed
  have zero: "pb_field_iter_begin tbl dest = (nth_iter tbl dest 0, True)"
    using simple_tag [OF simple_at [OF tbl ne]] ne by (simp add: nth_iter.simps pb_field_iter_begin_def field_at_def Let_def)
  have "?J 0 w" by simp
  have "\<exists>w'. over_iter (pb_field_set_to_default (Suc n) env) (nth_iter tbl dest 0) w = Some w' \<and> ?J (length tbl) w'"
    by (rule over_iter_walk [where J = ?J]) (fact all step ne \<open>?J 0 w\<close>)+
  then show ?thesis
    unfolding pb_message_set_to_defaults_def over_fields_def zero by (auto simp: progress_def)
qed

section \<open>Fields of the input\<close>

text \<open>The required fields seen so far, as bits.\<close>

definition seen_upto :: "uint32 list \<Rightarrow> nat \<Rightarrow> bool" where
  "seen_upto seen r \<longleftrightarrow> length seen = 2 \<and> (\<forall>j<64. bit (seen ! (j div 32)) (j mod 32) \<longleftrightarrow> j < r)"

definition mark :: "uint32 list \<Rightarrow> nat \<Rightarrow> uint32 list" where
  "mark seen i = seen[i div 32 := seen ! (i div 32) OR push_bit (i mod 32) 1]"

lemma seen_upto_mark:
  assumes "seen_upto seen r" and "r < 64"
  shows "seen_upto (mark seen r) (Suc r)"
proof -
  have len: "length seen = 2" and bits: "\<And>j. j < 64 \<Longrightarrow> bit (seen ! (j div 32)) (j mod 32) \<longleftrightarrow> j < r"
    using assms(1) by (auto simp: seen_upto_def)
  have d: "r div 32 < 2" using assms(2) by simp
  have "bit (mark seen r ! (j div 32)) (j mod 32) \<longleftrightarrow> j < Suc r" if j: "j < 64" for j
  proof (cases "j div 32 = r div 32")
    case True
    have "j mod 32 = r mod 32 \<longleftrightarrow> j = r" using True by (metis div_mult_mod_eq)
    moreover have "bit (push_bit (r mod 32) (1 :: uint32)) (j mod 32) \<longleftrightarrow> j mod 32 = r mod 32"
      by (simp add: bit_exp_iff)
    ultimately show ?thesis using bits [OF j] True d len by (auto simp: mark_def bit_or_iff)
  next
    case False
    then have "j \<noteq> r" by blast
    then show ?thesis using bits [OF j] False by (auto simp: mark_def)
  qed
  then show ?thesis using len by (simp add: seen_upto_def mark_def)
qed

lemma seen_upto_over: "seen_upto seen r \<Longrightarrow> 64 \<le> r \<Longrightarrow> seen_upto seen (Suc r)"
  by (auto simp: seen_upto_def)

lemma all_seen_upto:
  assumes "seen_upto seen r"
  shows "all_seen seen (min 64 r)"
proof -
  let ?c = "min 64 r"
  have bits: "\<And>j. j < 64 \<Longrightarrow> bit (seen ! (j div 32)) (j mod 32) \<longleftrightarrow> j < ?c" using assms by (auto simp: seen_upto_def)
  have word: "bit (seen ! i) k \<longleftrightarrow> 32 * i + k < ?c" if "i < 2" "k < 32" for i k using bits [of "32 * i + k"] that by simp
  have "seen ! i = -1" if "i < ?c div 32" for i
  proof (rule bit_word_eqI)
    fix k assume "k < LENGTH(32)"
    then show "bit (seen ! i) k = bit (-1 :: uint32) k" using word [of i k] that by simp
  qed
  moreover have "seen ! (?c div 32) = drop_bit (32 - ?c mod 32) (-1)" if "?c mod 32 \<noteq> 0"
  proof (rule bit_word_eqI)
    fix k assume "k < LENGTH(32)"
    then have k: "k < 32" by simp
    have "?c div 32 < 2" using that by (cases "?c = 64") auto
    moreover have "32 * (x div 32) + k < x \<longleftrightarrow> k < x mod 32" for x :: nat using div_mult_mod_eq [of x 32] by linarith
    ultimately have "bit (seen ! (?c div 32)) k \<longleftrightarrow> k < ?c mod 32" using word k by blast
    then show "bit (seen ! (?c div 32)) k = bit (drop_bit (32 - ?c mod 32) (-1 :: uint32)) k"
      using k that by (auto simp: bit_drop_bit_eq bit_mask_iff)
  qed
  ultimately show ?thesis by (auto simp: all_seen_def list_all_iff)
qed

lemma field_step:
  assumes tbl: "simple_table tbl" and sep: "separate tbl dest" and i: "i < length tbl"
    and sent: "sent (mem env) (tbl ! i) (place tbl src i)" and proper: "proper_value (mem env) (tbl ! i) (place tbl src i)"
    and val: "value_bytes message env (tbl ! i) (place tbl src i) = Bytes vs" and h: "holds vs s"
  shows "\<exists>w'. decode_field m full noinit denv wt (nth_iter tbl dest i) s w = Some (nth_iter tbl dest i, True, advance (length vs) s, w') \<and>
    frame (span tbl dest i) w w' \<and> arrived (mem env) (place tbl src i) (w_mem w') (place tbl dest i) (tbl ! i)"
proof -
  have all: "list_all simple_field tbl" using tbl by (simp add: simple_table_def)
  note it = nth_iter_fields [OF all i, of dest] nth_iter_field [OF all i, of dest] pData_place [of tbl dest i]
  let ?it = "nth_iter tbl dest i" and ?f = "tbl ! i" and ?p = "place tbl dest i"
  let ?flag = "flag_of ?f ?p"
  have s: "simple_field ?f" by (rule simple_at [OF tbl i])
  then have v: "simple_value ?f" "PB_ATYPE (f_type ?f) = PB_ATYPE_STATIC" by (simp_all add: simple_field_def)
  note rec = recovers_value [OF v proper val, of ?p full noinit denv, unfolded recovers_def, rule_format, OF h]
  have static: "decode_field m full noinit denv wt ?it s w = map_option (Pair ?it) (decode_static_field m full noinit denv wt ?it s w)"
    using it not_oneof [OF s] v by (simp add: decode_field_def decode_by_atype_def Let_def)
  show ?thesis
  proof (cases "optional ?f")
    case True
    let ?w = "set_has (At ?flag) True w"
    note out = separateD(1) [OF sep i True]
    obtain w' where w': "PB_DECODERS full noinit denv (PB_LTYPE (f_type ?f)) ?f ?p s ?w = Some (True, advance (length vs) s, w')"
      and fr: "frame (area ?p (unat (data_size ?f))) ?w w'" and same: "same_value (mem env) (place tbl src i) (w_mem w') ?p ?f" using rec by blast
    have "decode_static_field m full noinit denv wt ?it s w = Some (True, advance (length vs) s, w')"
      using w' it out True kind_eqs by (simp add: decode_static_field_def dec_field_def optional_def Let_def)
    moreover have "frame (span tbl dest i) w w'"
      using flag_set [OF True, of dest w True] frame_mono [OF fr span_parts(1)] frame_trans by blast
    moreover have "w_mem w' ?flag = 1" using frame_same [OF fr] out flag_set [OF True, of dest w True] by simp
    ultimately show ?thesis using same True sent static by (auto simp: arrived_def sent_def optional_def)
  next
    case False
    obtain w' where w': "PB_DECODERS full noinit denv (PB_LTYPE (f_type ?f)) ?f ?p s w = Some (True, advance (length vs) s, w')"
      and fr: "frame (area ?p (unat (data_size ?f))) w w'" and same: "same_value (mem env) (place tbl src i) (w_mem w') ?p ?f" using rec by blast
    have "PB_HTYPE (f_type ?f) = PB_HTYPE_REQUIRED" using s False by (simp add: simple_field_def optional_def)
    then have "decode_static_field m full noinit denv wt ?it s w = Some (True, advance (length vs) s, w')"
      using w' it by (simp add: decode_static_field_def dec_field_def Let_def)
    then show ?thesis using same False static frame_mono [OF fr span_parts(1)] by (auto simp: arrived_def)
  qed
qed

text \<open>The state of the loop before field \<open>k\<close>.\<close>

definition loop_at :: "pb_field list \<Rightarrow> addr \<Rightarrow> nat \<Rightarrow> decode_state \<Rightarrow> bool" where
  "loop_at tbl dest k d \<longleftrightarrow>
     (\<exists>c < length tbl. d_iter d = nth_iter tbl dest c) \<and> fixed_count_field d = None \<and> seen_upto (fields_seen d) (required_before tbl k)"

lemma known_step:
  assumes tbl: "simple_table tbl" and sep: "separate tbl dest" and i: "i < length tbl"
    and sent: "sent (mem env) (tbl ! i) (place tbl src i)" and proper: "proper_value (mem env) (tbl ! i) (place tbl src i)"
    and val: "value_bytes message env (tbl ! i) (place tbl src i) = Bytes vs" and h: "holds vs s"
    and loop: "loop_at tbl dest i d" and it: "d_iter d = nth_iter tbl dest i"
  shows "\<exists>d' w'. known_field m full noinit denv wt d s w = Some (d', True, advance (length vs) s, w') \<and> loop_at tbl dest (Suc i) d' \<and>
    frame (span tbl dest i) w w' \<and> arrived (mem env) (place tbl src i) (w_mem w') (place tbl dest i) (tbl ! i)"
proof -
  have all: "list_all simple_field tbl" and len: "length tbl < 2 ^ 32" using tbl by (simp_all add: simple_table_def)
  note f = nth_iter_fields [OF all i, of dest] nth_iter_field [OF all i, of dest]
  let ?r = "required_before tbl i" and ?required = "PB_HTYPE (f_type (tbl ! i)) = PB_HTYPE_REQUIRED"
  obtain w' where w': "decode_field m full noinit denv wt (nth_iter tbl dest i) s w = Some (nth_iter tbl dest i, True, advance (length vs) s, w')"
    and fr: "frame (span tbl dest i) w w'" and here: "arrived (mem env) (place tbl src i) (w_mem w') (place tbl dest i) (tbl ! i)"
    using field_step [OF assms(1-7)] by blast
  have "?r \<le> length tbl" unfolding required_before_def by (rule order_trans [OF length_filter_le]) simp
  then have r: "unat (word_of_nat ?r :: uint32) = ?r" using len by (intro unat_of_length(2)) simp
  let ?seen = "if ?required \<and> ?r < 64 then mark (fields_seen d) ?r else fields_seen d"
  have seen: "seen_upto ?seen (required_before tbl (Suc i))"
    using loop seen_upto_mark [of "fields_seen d" ?r] seen_upto_over [of "fields_seen d" ?r] required_before_Suc [OF i]
    by (cases ?required; cases "?r < 64") (simp_all add: loop_at_def)
  have "known_field m full noinit denv wt d s w = Some (d\<lparr>fields_seen := ?seen\<rparr>, True, advance (length vs) s, w')"
    using w' f it r not_oneof [OF simple_at [OF tbl i]]
    by (simp add: known_field_def PB_MAX_REQUIRED_FIELDS_def word_less_nat_alt mark_def Let_def)
  moreover have "loop_at tbl dest (Suc i) (d\<lparr>fields_seen := ?seen\<rparr>)" using loop seen by (simp add: loop_at_def)
  ultimately show ?thesis using fr here by blast
qed

lemma finish_at:
  assumes tbl: "simple_table tbl" and loop: "loop_at tbl dest (length tbl) d"
  shows "decode_finish d s w = Some (True, s, w)"
proof -
  have all: "list_all simple_field tbl" "length tbl < 2 ^ 32" using tbl by (simp_all add: simple_table_def)
  obtain c where c: "c < length tbl" "d_iter d = nth_iter tbl dest c" using loop by (auto simp: loop_at_def)
  have "all_seen (fields_seen d) (required_count (d_iter d))"
    unfolding c(2) required_count_nth [OF all(1) c(1) all(2)] using loop by (intro all_seen_upto) (simp add: loop_at_def)
  then show ?thesis using loop by (simp add: decode_finish_def fixed_count_wrong_def loop_at_def)
qed

text \<open>The bytes of each field.\<close>

definition field_out :: "nat \<Rightarrow> byte list pb_env \<Rightarrow> pb_contract \<Rightarrow> pb_field list \<Rightarrow> addr \<Rightarrow> nat \<Rightarrow> encoding" where
  "field_out n env c tbl src i = any_field_bytes n (message_bytes n env c) env c (tbl ! i) (place tbl src i)"

definition the_bytes :: "encoding \<Rightarrow> byte list" where
  "the_bytes r = (case r of Bytes bs \<Rightarrow> bs | _ \<Rightarrow> [])"

lemma concat_bytes_inv:
  "concat_bytes rs = Bytes bs \<Longrightarrow> bs = concat (map the_bytes rs) \<and> (\<forall>r \<in> set rs. r = Bytes (the_bytes r))"
proof (induction rs arbitrary: bs)
  case (Cons r rs)
  then obtain as cs where "r = Bytes as" "concat_bytes rs = Bytes cs" "bs = as @ cs" 
    using followed_by_Bytes [of r "concat_bytes rs" bs] by auto
  then show ?case using Cons.IH by (auto simp: the_bytes_def)
qed simp

lemma message_out:
  assumes tbl: "simple_table tbl" and bytes: "message_bytes (Suc n) env c tbl src = Bytes bs"
  shows "bs = concat (map (\<lambda>i. the_bytes (field_out n env c tbl src i)) [0..<length tbl])"
    and "i < length tbl \<Longrightarrow> field_out n env c tbl src i = Bytes (the_bytes (field_out n env c tbl src i))"
proof -
  have all: "list_all simple_field tbl" "tbl \<noteq> []" using tbl by (simp_all add: simple_table_def)
  have "concat_bytes (map (field_out n env c tbl src) [0..<length tbl]) = Bytes bs"
    using bytes by (simp add: message_fields_nth [OF all] field_out_def [abs_def] comp_def)
  from concat_bytes_inv [OF this]
  show "bs = concat (map (\<lambda>i. the_bytes (field_out n env c tbl src i)) [0..<length tbl])"
    "i < length tbl \<Longrightarrow> field_out n env c tbl src i = Bytes (the_bytes (field_out n env c tbl src i))"
    by (auto simp: comp_def)
qed

lemma advance_left: "bytes_left (advance n s) = bytes_left s - n"
  by (simp add: advance_def)

lemma decode_loop:
  assumes tbl: "simple_table tbl" and sep: "separate tbl dest" and proper: "proper_message (mem env) tbl src"
    and out: "\<And>i. i < length tbl \<Longrightarrow> field_out n env c tbl src i = Bytes (out i)"
  shows "i \<le> length tbl \<Longrightarrow> progress (mem env) tbl src dest i w \<Longrightarrow> loop_at tbl dest i d \<Longrightarrow> holds (concat (map out [i..<length tbl])) s \<Longrightarrow>
    bytes_left s = length (concat (map out [i..<length tbl])) \<Longrightarrow> bytes_left s < j \<Longrightarrow>
    \<exists>s' w'. noinit_loop j m full noinit denv d s w = Some (True, s', w') \<and> bytes_left s' = 0 \<and> progress (mem env) tbl src dest (length tbl) w'"
proof (induction "length tbl - i" arbitrary: i w d s j)
  case 0
  then have i: "i = length tbl" by simp
  then have "bytes_left s = 0" using 0 by simp
  moreover obtain k where "j = Suc k" using 0 by (cases j) auto
  moreover have "decode_finish d s w = Some (True, s, w)" by (rule finish_at [OF tbl]) (use 0 i in simp)
  ultimately show ?case using 0 i by auto
next
  case (Suc x)
  then have i: "i < length tbl" by simp
  note hyp = Suc.hyps(1) [of "Suc i"]
  have x: "x = length tbl - Suc i" "Suc i \<le> length tbl" using Suc.hyps(2) i by simp_all
  let ?rest = "concat (map out [Suc i..<length tbl])"
  have split: "concat (map out [i..<length tbl]) = out i @ ?rest" using i by (simp add: upt_conv_Cons)
  then have h: "holds (out i) s" "holds ?rest (advance (length (out i)) s)" using Suc.prems(4) by (simp_all add: holds_append)
  have left: "bytes_left (advance (length (out i)) s) = length ?rest" using Suc.prems(5) split by (simp add: advance_left)
  have s: "simple_field (tbl ! i)" by (rule simple_at [OF tbl i])
  note fb = simple_field_bytes [OF s out [OF i, unfolded field_out_def]]
  show ?case
  proof (cases "sent (mem env) (tbl ! i) (place tbl src i)")
    case False
    then have "out i = []" "PB_HTYPE (f_type (tbl ! i)) \<noteq> PB_HTYPE_REQUIRED" using fb kind_eqs by (auto simp: sent_def)
    then have "holds ?rest s" "bytes_left s = length ?rest" "loop_at tbl dest (Suc i) d"
      using h left Suc.prems(3) required_before_Suc [OF i] by (simp_all add: loop_at_def advance_def)
    then show ?thesis using hyp [OF x progress_skip [OF Suc.prems(2) i False]] Suc.prems(6) by blast
  next
    case True
    then obtain wt vs where wt: "is_wire_type wt" and val: "value_bytes (message_bytes n env c) env (tbl ! i) (place tbl src i) = Bytes vs"
      and o: "out i = tag_bytes wt (f_tag (tbl ! i)) @ vs" using fb by auto
    let ?tag = "tag_bytes wt (f_tag (tbl ! i))"
    let ?s1 = "advance (length ?tag) s"
    have ht: "holds ?tag s" "holds vs ?s1" using h(1) by (simp_all add: o holds_append)
    have tag: "pb_decode_tag s = (Some (wt, f_tag (tbl ! i)), False, ?s1)"
      using decode_tag_bytes [OF ht(1) _ _ wt] s by (simp add: simple_field_def)
    obtain c where c: "c < length tbl" "d_iter d = nth_iter tbl dest c" using Suc.prems(3) by (auto simp: loop_at_def)
    have find: "pb_field_iter_find (d_iter d) (f_tag (tbl ! i)) = (nth_iter tbl dest i, True)"
      unfolding c(2) using tbl c(1) i by (intro find_nth) (simp_all add: simple_table_def)
    let ?d = "d\<lparr>d_iter := nth_iter tbl dest i\<rparr>"
    have l: "loop_at tbl dest i ?d" using Suc.prems(3) i by (auto simp: loop_at_def)
    obtain d' w' where k: "known_field m full noinit denv wt ?d ?s1 w = Some (d', True, advance (length vs) ?s1, w')"
      and loop: "loop_at tbl dest (Suc i) d'" and fr: "frame (span tbl dest i) w w'"
      and here: "arrived (mem env) (place tbl src i) (w_mem w') (place tbl dest i) (tbl ! i)"
      using known_step [OF tbl sep i True proper_at [OF proper i True] val ht(2) l, of m full noinit denv wt w] by auto
    have adv: "advance (length vs) ?s1 = advance (length (out i)) s" by (simp add: o add.commute)
    have "0 < length ?tag" unfolding tag_bytes_def length_greater_0_conv by simp
    then have "0 < length (out i)" unfolding o length_append by arith
    moreover have "length (out i) \<le> bytes_left s" using h(1) by (simp add: holds_def)
    ultimately have nz: "bytes_left s \<noteq> 0" and less: "bytes_left (advance (length (out i)) s) < bytes_left s"
      unfolding advance_left by linarith+
    obtain j' where j: "j = Suc j'" using Suc.prems(6) by (cases j) auto
    obtain s' w'' where "noinit_loop j' m full noinit denv d' (advance (length (out i)) s) w' = Some (True, s', w'')" "bytes_left s' = 0"
      "progress (mem env) tbl src dest (length tbl) w''"
      using hyp [OF x progress_Suc [OF Suc.prems(2) i tbl sep proper fr here] loop h(2) left, of j'] less Suc.prems(6) j by auto
    then show ?thesis using nz tag find k adv by (simp add: j Let_def)
  qed
qed

section \<open>A sample message\<close>

text \<open>A number, a string with a flag, and an unset flag with a value.\<close>

definition trip_table :: "pb_field list" where
  "trip_table =
     [\<lparr>f_tag = 1, f_type = 0x02, data_offset = 0, size_offset = 0, data_size = 4, array_size = 0, f_ptr = 0\<rparr>,
      \<lparr>f_tag = 2, f_type = 0x17, data_offset = 1, size_offset = -1, data_size = 8, array_size = 0, f_ptr = 0\<rparr>,
      \<lparr>f_tag = 3, f_type = 0x10, data_offset = 1, size_offset = -1, data_size = 1, array_size = 0, f_ptr = 0\<rparr>]"

definition trip_env :: "byte list pb_env" where
  "trip_env = sample_env\<lparr>mem := (\<lambda>a. if a = 16 then 0x96 else if a = 20 then 1 else if a = 21 then 0x68 else if a = 22 then 0x69 else 0)\<rparr>"

lemma trip_honest: "honest trip_env sample_contract"
  using sample_honest by (simp add: honest_def trip_env_def)

lemma trip_bytes: "message_bytes 3 trip_env c trip_table 16 = Bytes [8, 0x96, 1, 0x12, 2, 0x68, 0x69]"
  by (simp add: encoding_eval trip_env_def trip_table_def sample_env_def)

lemma trip_places:
  "place trip_table 16 0 = 16" "place trip_table 16 (Suc 0) = 21" "place trip_table 16 (Suc (Suc 0)) = 30"
  "place trip_table 64 0 = 64" "place trip_table 64 (Suc 0) = 69" "place trip_table 64 (Suc (Suc 0)) = 78"
  by (simp_all add: place_def nth_iter.simps iter_eval trip_table_def)

lemma trip_index: "[0..<length trip_table] = [0, Suc 0, Suc (Suc 0)]"
  by (simp add: trip_table_def upt_rec)

lemma trip_simple: "simple_table trip_table"
  by (simp add: simple_table_def trip_table_def simple_field_def simple_value_def type_consts Let_def)

lemma trip_proper: "proper_message (mem trip_env) trip_table 16"
  unfolding proper_message_def trip_index
  by (simp add: trip_places) (simp add: trip_table_def trip_env_def proper_value_def sent_def flag_of_def type_consts string_size.simps Let_def)

lemma trip_spans:
  "span trip_table 64 0 = area 64 4" "span trip_table 64 (Suc 0) = insert 68 (area 69 8)" "span trip_table 64 (Suc (Suc 0)) = {77, 78}"
  by (simp_all add: span_def trip_places Let_def) (simp_all add: trip_table_def optional_def flag_of_def type_consts area_numeral)

lemma trip_separate: "separate trip_table 64"
  unfolding separate_def trip_index
  by (simp add: trip_places trip_spans area_numeral Let_def) (simp add: trip_table_def optional_def flag_of_def type_consts area_numeral)

section \<open>The round trip\<close>

text \<open>
  C1: \<open>pb_decode\<close> undoes \<open>pb_encode\<close>. When the reference encoder gives bytes for a message of a
  simple table whose strings and byte arrays are within their fields, the bytes that
  \<open>pb_encode\<close> stores are accepted by \<open>pb_decode\<close> up to the last one, and a structure whose fields do
  not overlap gets the values and flags of the message, whatever was in memory before.
\<close>

theorem pb_round_trip:
  assumes honest: "honest env c" and bytes: "message_bytes n env c tbl src = Bytes bs"
    and tbl: "simple_table tbl" and proper: "proper_message (mem env) tbl src" and sep: "separate tbl dest"
    and room: "length bs \<le> N" "N < size_bound" and fuel: "length bs + 2 \<le> m"
  shows "\<exists>s s' w'. pb_encode n env tbl src (pb_ostream_from_buffer N) = Some (True, s) \<and>
    pb_decode m denv tbl dest (pb_istream_from_buffer (o_state s) (bytes_written s)) w = Some (True, s', w') \<and> bytes_left s' = 0 \<and>
    list_all (\<lambda>i. arrived (mem env) (place tbl src i) (w_mem w') (place tbl dest i) (tbl ! i)) [0..<length tbl]"
proof -
  obtain k where n: "n = Suc k" using bytes by (cases n) auto
  let ?s = "pb_istream_from_buffer bs (length bs)" and ?out = "\<lambda>i. the_bytes (field_out k env c tbl src i)"
  have "emits (pb_encode n env tbl src) bs" using pb_encode_implements [OF honest, of n tbl src] bytes by simp
  then have enc: "pb_encode n env tbl src (pb_ostream_from_buffer N) = Some (True, put bs (pb_ostream_from_buffer N))"
    using emits_fits buffered_from_buffer [OF room(2)] room(1) by (simp add: pb_ostream_from_buffer_def)
  note out = message_out [OF tbl bytes [unfolded n]]
  obtain m' where m: "m = Suc m'" and m': "length bs < m'" using fuel by (cases m) auto
  obtain v where v: "pb_message_set_to_defaults m denv tbl dest w = Some v" and blank: "progress (mem env) tbl src dest 0 v"
    using defaults_blank [OF tbl sep, of m' denv w] unfolding m by blast
  let ?v = "v\<lparr>w_local := 0\<rparr>"
  have blank: "progress (mem env) tbl src dest 0 ?v" using blank by (simp add: progress_def)
  have ne: "0 < length tbl" using tbl by (simp add: simple_table_def)
  let ?d = "\<lparr>d_iter = fst (pb_field_iter_begin tbl dest), fields_seen = [0, 0], extension_range_start = 0, fixed_count_field = None\<rparr>"
  have loop: "loop_at tbl dest 0 ?d"
    using ne by (auto simp: loop_at_def nth_iter.simps(1) [symmetric] seen_upto_def required_before_def nth_Cons' split: if_splits)
  let ?full = "decode_and_release m' denv (pb_decode_noinit m' denv)" and ?noinit = "pb_decode_noinit m' denv"
  obtain s' u where u: "noinit_loop m' m' ?full ?noinit denv ?d ?s ?v = Some (True, s', u)" and left: "bytes_left s' = 0"
    and arr: "progress (mem env) tbl src dest (length tbl) u"
    using decode_loop [OF tbl sep proper out(2) _ blank loop, of ?s m' m' ?full ?noinit denv] holds_buffer [of bs] m' out(1)
    by (auto simp: pb_istream_from_buffer_def)
  have "pb_decode m denv tbl dest ?s w = Some (True, s', u\<lparr>w_local := w_local v\<rparr>)"
    using v u by (simp add: pb_decode_def decode_and_release_def m)
  moreover have "o_state (put bs (pb_ostream_from_buffer N)) = bs" "bytes_written (put bs (pb_ostream_from_buffer N)) = length bs"
    by (simp_all add: pb_ostream_from_buffer_def)
  ultimately show ?thesis using enc left arr by (auto simp: progress_def list_all_iff)
qed

theorem pb_round_trip_witness:
  "\<exists>s s' w'. pb_encode 3 trip_env trip_table 16 (pb_ostream_from_buffer 9) = Some (True, s) \<and>
    pb_decode 9 sample_denv trip_table 64 (pb_istream_from_buffer (o_state s) (bytes_written s)) \<lparr>w_mem = (\<lambda>a. 7), w_heap = (), w_local = 0\<rparr> = Some (True, s', w') \<and>
    bytes_left s' = 0 \<and> bytes_at (w_mem w') 64 4 = [0x96, 0, 0, 0] \<and> w_mem w' 68 = 1 \<and> w_mem w' 69 = 0x68 \<and> w_mem w' 70 = 0x69 \<and>
    w_mem w' 71 = 0 \<and> w_mem w' 77 = 0"
proof -
  let ?w = "\<lparr>w_mem = (\<lambda>a. 7), w_heap = (), w_local = 0\<rparr>"
  obtain s s' w' where r: "pb_encode 3 trip_env trip_table 16 (pb_ostream_from_buffer 9) = Some (True, s)"
    "pb_decode 9 sample_denv trip_table 64 (pb_istream_from_buffer (o_state s) (bytes_written s)) ?w = Some (True, s', w')" "bytes_left s' = 0"
    and a: "list_all (\<lambda>i. arrived (mem trip_env) (place trip_table 16 i) (w_mem w') (place trip_table 64 i) (trip_table ! i)) [0..<length trip_table]"
    using pb_round_trip [OF trip_honest trip_bytes trip_simple trip_proper trip_separate, of 9 9 sample_denv ?w] by (auto simp: size_bound_def)
  have "string_size (mem trip_env) 21 0 8 = 2" by (simp add: trip_env_def string_size.simps)
  then have "bytes_at (w_mem w') 64 4 = [0x96, 0, 0, 0]" "w_mem w' 68 = 1" "bytes_at (w_mem w') 69 2 = [0x68, 0x69]" "w_mem w' 71 = 0" "w_mem w' 77 = 0"
    using a unfolding trip_index
    by (simp_all add: trip_places) (simp_all add: trip_table_def arrived_def optional_def sent_def flag_of_def same_value_def type_consts
        trip_env_def bytes_at_numeral bytes_at_Suc Let_def)
  then show ?thesis using r by (auto simp: bytes_at_numeral bytes_at_Suc)
qed

end
