(* ===== verification/FsBits.thy ===== *)
theory FsBits
  imports DER "HOL-Library.Monad_Syntax"
begin

text \<open>
  Firestore's helpers on machine words (\<open>util/bits.h\<close>, \<open>util/bits.cc\<close>) and the loads, stores and
  byte swaps it takes from Abseil. An operation with a failed \<open>HARD_ASSERT\<close>, which throws, or an
  access outside a buffer has no result: \<open>None\<close>.
\<close>

section \<open>Assertions and memory\<close>

definition HARD_ASSERT :: "bool \<Rightarrow> unit option" where
  "HARD_ASSERT c = (if c then Some () else None)"

lemma HARD_ASSERT_simps [simp]: "HARD_ASSERT True = Some ()" "HARD_ASSERT False = None"
  by (simp_all add: HARD_ASSERT_def)

lemma HARD_ASSERT_Some [simp]: "HARD_ASSERT c = Some u \<longleftrightarrow> c" "HARD_ASSERT c = None \<longleftrightarrow> \<not> c"
  by (simp_all add: HARD_ASSERT_def)

text \<open>A pointer is an offset into the buffer it points to.\<close>

definition byte_at :: "byte list \<Rightarrow> nat \<Rightarrow> byte option" where
  "byte_at m p = (if p < length m then Some (m ! p) else None)"

primrec le_word :: "byte list \<Rightarrow> 'a::len word" where
  "le_word [] = 0"
| "le_word (b # bs) = ucast b OR push_bit 8 (le_word bs)"

definition le_image :: "'a::len word \<Rightarrow> byte list" where
  "le_image v = map (\<lambda>i. ucast (drop_bit (8 * i) v)) [0..<LENGTH('a) div 8]"

definition UNALIGNED_LOAD32 :: "byte list \<Rightarrow> nat \<Rightarrow> uint32 option" where
  "UNALIGNED_LOAD32 m p = (if p + 4 \<le> length m then Some (le_word (take 4 (drop p m))) else None)"

definition UNALIGNED_LOAD64 :: "byte list \<Rightarrow> nat \<Rightarrow> uint64 option" where
  "UNALIGNED_LOAD64 m p = (if p + 8 \<le> length m then Some (le_word (take 8 (drop p m))) else None)"

definition UNALIGNED_STORE64 :: "byte list \<Rightarrow> nat \<Rightarrow> uint64 \<Rightarrow> byte list option" where
  "UNALIGNED_STORE64 m p v = (if p + 8 \<le> length m then Some (take p m @ le_image v @ drop (p + 8) m) else None)"

definition gbswap_64 :: "uint64 \<Rightarrow> uint64" where
  "gbswap_64 x =
     push_bit 56 (x AND 0xFF) OR push_bit 40 (x AND 0xFF00) OR
     push_bit 24 (x AND 0xFF0000) OR push_bit 8 (x AND 0xFF000000) OR
     drop_bit 8 (x AND 0xFF00000000) OR drop_bit 24 (x AND 0xFF0000000000) OR
     drop_bit 40 (x AND 0xFF000000000000) OR drop_bit 56 (x AND 0xFF00000000000000)"

definition ghtonll :: "uint64 \<Rightarrow> uint64" where
  "ghtonll x = gbswap_64 x"

definition gntohll :: "uint64 \<Rightarrow> uint64" where
  "gntohll x = ghtonll x"

lemma bit_le_word:
  "bit (le_word bs :: 'a::len word) n \<longleftrightarrow> n < LENGTH('a) \<and> n div 8 < length bs \<and> bit (bs ! (n div 8)) (n mod 8)"
proof (induction bs arbitrary: n)
  case (Cons b bs)
  show ?case
  proof (cases "n < 8")
    case True
    then show ?thesis by (auto simp: bit_simps)
  next
    case False
    then have "n div 8 = Suc ((n - 8) div 8)" "n mod 8 = (n - 8) mod 8"
      by (simp_all add: le_div_geq le_mod_geq)
    moreover have "\<not> bit b n" using False bit_imp_le_length [of b n] by auto
    ultimately show ?thesis using False Cons.IH [of "n - 8"] by (auto simp: bit_simps)
  qed
qed simp

lemma le_word_image: "8 * (LENGTH('a) div 8) = LENGTH('a) \<Longrightarrow> le_word (le_image v) = (v :: 'a::len word)"
proof (rule bit_word_eqI)
  fix n assume "8 * (LENGTH('a) div 8) = LENGTH('a)" "n < LENGTH('a)"
  then have "n div 8 < LENGTH('a) div 8" by linarith
  then show "bit (le_word (le_image v) :: 'a word) n = bit v n"
    using \<open>n < LENGTH('a)\<close> by (simp add: bit_le_word le_image_def bit_ucast_iff bit_drop_bit_eq)
qed

lemma length_le_image [simp]: "length (le_image (v :: 'a::len word)) = LENGTH('a) div 8"
  by (simp add: le_image_def)

lemma byte_masks:
  "(0xFF :: uint64) = mask 8"
  "(0xFF00 :: uint64) = push_bit 8 (mask 8)" "(0xFF0000 :: uint64) = push_bit 16 (mask 8)"
  "(0xFF000000 :: uint64) = push_bit 24 (mask 8)" "(0xFF00000000 :: uint64) = push_bit 32 (mask 8)"
  "(0xFF0000000000 :: uint64) = push_bit 40 (mask 8)" "(0xFF000000000000 :: uint64) = push_bit 48 (mask 8)"
  "(0xFF00000000000000 :: uint64) = push_bit 56 (mask 8)"
  by (simp_all add: push_bit_eq_mult mask_eq_exp_minus_1)

lemma bit_gbswap_64:
  assumes "q < 8" and "r < 8"
  shows "bit (gbswap_64 x) (8 * q + r) \<longleftrightarrow> bit x (8 * (7 - q) + r)"
proof -
  consider "q = 0" | "q = 1" | "q = 2" | "q = 3" | "q = 4" | "q = 5" | "q = 6" | "q = 7"
    using assms(1) by linarith
  then show ?thesis
    unfolding gbswap_64_def byte_masks bit_or_iff bit_push_bit_iff bit_and_iff bit_drop_bit_eq bit_mask_iff o_def
    using assms(2) by cases simp_all
qed

text \<open>A number in network byte order.\<close>

lemma bit_be_bytes: "i < n \<Longrightarrow> be_bytes n v ! i = word_of_nat (v div 256 ^ (n - Suc i))"
proof (induction n arbitrary: i)
  case (Suc n)
  then show ?case by (cases i) (simp_all add: be_bytes_Cons del: be_bytes.simps)
qed simp

lemma image_ghtonll: "le_image (ghtonll v) = be_bytes 8 (unat v)"
proof (rule nth_equalityI)
  fix i assume "i < length (le_image (ghtonll v))"
  then have i: "i < 8" by simp
  show "le_image (ghtonll v) ! i = be_bytes 8 (unat v) ! i"
  proof (rule bit_word_eqI)
    fix k assume k: "k < LENGTH(8)"
    have "bit (le_image (ghtonll v) ! i) k \<longleftrightarrow> bit v (8 * (7 - i) + k)"
      using i k bit_gbswap_64 [of i k v] by (simp add: le_image_def ghtonll_def bit_ucast_iff bit_drop_bit_eq)
    also have "\<dots> \<longleftrightarrow> bit (word_of_nat (unat v div 2 ^ (8 * (7 - i))) :: byte) k"
      using k by (simp add: bit_of_nat_iff flip: drop_bit_eq_div) (simp add: bit_drop_bit_eq bit_unsigned_iff)
    also have "(2 :: nat) ^ (8 * (7 - i)) = 256 ^ (7 - i)" by (simp add: power_mult)
    finally show "bit (le_image (ghtonll v) ! i) k \<longleftrightarrow> bit (be_bytes 8 (unat v) ! i) k"
      using i by (simp add: bit_be_bytes del: be_bytes.simps)
  qed
qed simp

section \<open>Logarithms\<close>

text \<open>The compiler's count of leading zeros, which has no result for 0.\<close>

definition builtin_clz :: "'a::len word \<Rightarrow> nat option" where
  "builtin_clz n =
     (if n = 0 then None else Some (length (takeWhile (\<lambda>i. \<not> bit n i) (rev [0..<LENGTH('a)]))))"

definition Log2Floor :: "uint32 \<Rightarrow> int option" where
  "Log2Floor n = (if n = 0 then Some (- 1) else do { z \<leftarrow> builtin_clz n; Some (31 XOR int z) })"

definition Log2FloorNonZero :: "uint32 \<Rightarrow> int option" where
  "Log2FloorNonZero n = do { z \<leftarrow> builtin_clz n; Some (31 XOR int z) }"

definition Log2Floor64 :: "uint64 \<Rightarrow> int option" where
  "Log2Floor64 n = (if n = 0 then Some (- 1) else do { z \<leftarrow> builtin_clz n; Some (63 XOR int z) })"

definition Log2FloorNonZero64 :: "uint64 \<Rightarrow> int option" where
  "Log2FloorNonZero64 n = do { z \<leftarrow> builtin_clz n; Some (63 XOR int z) }"

definition log2_step :: "nat \<Rightarrow> uint32 \<times> int \<Rightarrow> uint32 \<times> int" where
  "log2_step i = (\<lambda>(value, log).
     let shift = 2 ^ i; x = drop_bit shift value in if x \<noteq> 0 then (x, log + int shift) else (value, log))"

definition Log2Floor_Portable :: "uint32 \<Rightarrow> int option" where
  "Log2Floor_Portable n =
     (if n = 0 then Some (- 1)
      else let (value, log) = fold log2_step [4, 3, 2, 1, 0] (n, 0) in
        do { HARD_ASSERT (value = 1); Some log })"

definition Log2FloorNonZero_Portable :: "uint32 \<Rightarrow> int option" where
  "Log2FloorNonZero_Portable n = Log2Floor n"

definition Log2Floor64_Portable :: "uint64 \<Rightarrow> int option" where
  "Log2Floor64_Portable n =
     (let top_bits = ucast (drop_bit 32 n) :: uint32 in
      if top_bits = 0 then Log2Floor (ucast n) else do { l \<leftarrow> Log2FloorNonZero top_bits; Some (32 + l) })"

definition Log2FloorNonZero64_Portable :: "uint64 \<Rightarrow> int option" where
  "Log2FloorNonZero64_Portable n =
     (let top_bits = ucast (drop_bit 32 n) :: uint32 in
      if top_bits = 0 then Log2FloorNonZero (ucast n) else do { l \<leftarrow> Log2FloorNonZero top_bits; Some (32 + l) })"

text \<open>The highest bit of a word.\<close>

definition top_bit :: "'a::len word \<Rightarrow> nat \<Rightarrow> bool" where
  "top_bit n k \<longleftrightarrow> bit n k \<and> (\<forall>i > k. \<not> bit n i)"

lemma top_bit_exists: "n \<noteq> 0 \<Longrightarrow> \<exists>k. top_bit n k"
proof -
  assume "n \<noteq> 0"
  then have "\<exists>k. bit n k" by (metis bit_0_eq bit_eq_iff bot_apply bot_bool_def)
  moreover have "finite {k. bit n k}"
    by (rule finite_subset [of _ "{..<LENGTH('a)}"]) (auto dest: bit_imp_le_length)
  ultimately have "bit n (Max {k. bit n k})" "\<forall>i > Max {k. bit n k}. \<not> bit n i"
    using Max_in [of "{k. bit n k}"] Max_ge [of "{k. bit n k}"] by (auto simp: not_less [symmetric])
  then show ?thesis unfolding top_bit_def by blast
qed

lemma top_bit_less: "top_bit (n :: 'a::len word) k \<Longrightarrow> k < LENGTH('a)"
  by (auto simp: top_bit_def dest: bit_imp_le_length)

lemma builtin_clz_top:
  fixes n :: "'a::len word"
  assumes "top_bit n k"
  shows "builtin_clz n = Some (LENGTH('a) - 1 - k)"
proof -
  have k: "k < LENGTH('a)" by (rule top_bit_less [OF assms])
  have "[0..<LENGTH('a)] = [0..<k] @ k # [Suc k..<LENGTH('a)]"
    using k upt_add_eq_append [of 0 k "LENGTH('a) - k"] by (simp add: upt_conv_Cons)
  then have "rev [0..<LENGTH('a)] = rev [Suc k..<LENGTH('a)] @ k # rev [0..<k]" by simp
  moreover have "\<forall>i \<in> set (rev [Suc k..<LENGTH('a)]). \<not> bit n i" "bit n k" "n \<noteq> 0"
    using assms by (auto simp: top_bit_def)
  ultimately show ?thesis by (simp add: builtin_clz_def takeWhile_append)
qed

lemma xor_63: "k < 64 \<Longrightarrow> 63 XOR (63 - int k) = int k"
proof -
  have "\<forall>k \<in> set [0..<64]. 63 XOR (63 - int k) = int k" by code_simp
  then show "k < 64 \<Longrightarrow> 63 XOR (63 - int k) = int k" by simp
qed

lemma xor_31: "k < 32 \<Longrightarrow> 31 XOR (31 - int k) = int k"
proof -
  have "\<forall>k \<in> set [0..<32]. 31 XOR (31 - int k) = int k" by code_simp
  then show "k < 32 \<Longrightarrow> 31 XOR (31 - int k) = int k" by simp
qed

lemma top_bit_nonzero: "top_bit n k \<Longrightarrow> n \<noteq> 0"
  by (auto simp: top_bit_def)

lemma Log2_top:
  "top_bit n k \<Longrightarrow> Log2Floor n = Some (int k)" "top_bit n k \<Longrightarrow> Log2FloorNonZero n = Some (int k)"
  "top_bit m k \<Longrightarrow> Log2Floor64 m = Some (int k)" "top_bit m k \<Longrightarrow> Log2FloorNonZero64 m = Some (int k)"
  using top_bit_less [of n k] top_bit_less [of m k]
  by (simp_all add: Log2Floor_def Log2FloorNonZero_def Log2Floor64_def Log2FloorNonZero64_def builtin_clz_top xor_63 xor_31
      top_bit_nonzero)

lemma log2_step_top:
  assumes "top_bit v j" and "j < 2 * 2 ^ i"
  obtains v' j' where "log2_step i (v, l) = (v', l + int j - int j')" and "top_bit v' j'" and "j' < 2 ^ i"
proof (cases "2 ^ i \<le> j")
  case True
  then have "top_bit (drop_bit (2 ^ i) v) (j - 2 ^ i)"
    using assms(1) by (auto simp: top_bit_def bit_drop_bit_eq)
  moreover from this have "drop_bit (2 ^ i) v \<noteq> 0" by (rule top_bit_nonzero)
  ultimately show thesis
    using that [of "drop_bit (2 ^ i) v" "j - 2 ^ i"] True assms(2) by (simp add: log2_step_def Let_def of_nat_diff)
next
  case False
  then have "drop_bit (2 ^ i) v = 0"
    using assms(1) by (intro bit_word_eqI) (auto simp: top_bit_def bit_drop_bit_eq)
  then show thesis using that [of v j] False assms(1) by (simp add: log2_step_def Let_def)
qed

lemma top_bit_0: "top_bit n 0 \<Longrightarrow> n = 1"
  by (rule bit_word_eqI) (auto simp: top_bit_def bit_1_iff intro: gr0I)

lemma Log2Floor_Portable_eq: "Log2Floor_Portable n = Log2Floor n"
proof (cases "n = 0")
  case False
  then obtain k where k: "top_bit n k" using top_bit_exists by blast
  have "k < 2 * 2 ^ 4" using top_bit_less [OF k] by simp
  from log2_step_top [OF k this, of 0] obtain n4 k4
    where 4: "log2_step 4 (n, 0) = (n4, int k - int k4)" "top_bit n4 k4" "k4 < 2 ^ 4" by auto
  then have "k4 < 2 * 2 ^ 3" by simp
  from log2_step_top [OF 4(2) this, of "int k - int k4"] obtain n3 k3
    where 3: "log2_step 3 (n4, int k - int k4) = (n3, int k - int k3)" "top_bit n3 k3" "k3 < 2 ^ 3" by auto
  then have "k3 < 2 * 2 ^ 2" by simp
  from log2_step_top [OF 3(2) this, of "int k - int k3"] obtain n2 k2
    where 2: "log2_step 2 (n3, int k - int k3) = (n2, int k - int k2)" "top_bit n2 k2" "k2 < 2 ^ 2" by auto
  then have "k2 < 2 * 2 ^ 1" by simp
  from log2_step_top [OF 2(2) this, of "int k - int k2"] obtain n1 k1
    where 1: "log2_step 1 (n2, int k - int k2) = (n1, int k - int k1)" "top_bit n1 k1" "k1 < 2 ^ 1" by auto
  then have "k1 < 2 * 2 ^ 0" by simp
  from log2_step_top [OF 1(2) this, of "int k - int k1"] obtain n0 k0
    where 0: "log2_step 0 (n1, int k - int k1) = (n0, int k - int k0)" "top_bit n0 k0" "k0 < 2 ^ 0" by auto
  then have "k0 = 0" "n0 = 1" using top_bit_0 by auto
  then have "Log2Floor_Portable n = Some (int k)"
    using False 4(1) 3(1) 2(1) 1(1) 0(1) by (simp add: Log2Floor_Portable_def)
  then show ?thesis using k by (simp add: Log2_top)
qed (simp add: Log2Floor_Portable_def Log2Floor_def)

lemma Log2Floor64_Portable_eq: "Log2Floor64_Portable n = Log2Floor64 n"
proof (cases "n = 0")
  case False
  then obtain k where k: "top_bit n k" using top_bit_exists by blast
  show ?thesis
  proof (cases "32 \<le> k")
    case True
    then have "top_bit (ucast (drop_bit 32 n) :: uint32) (k - 32)"
      using k top_bit_less [OF k] by (auto simp: top_bit_def bit_ucast_iff bit_drop_bit_eq)
    with True k show ?thesis by (simp add: Log2Floor64_Portable_def Log2_top Let_def top_bit_nonzero)
  next
    case f: False
    then have "(ucast (drop_bit 32 n) :: uint32) = 0" "top_bit (ucast n :: uint32) k"
      using k by (auto simp: top_bit_def bit_ucast_iff bit_drop_bit_eq intro!: bit_word_eqI)
    with k show ?thesis by (simp add: Log2Floor64_Portable_def Log2_top Let_def)
  qed
qed (simp add: Log2Floor64_Portable_def Log2Floor64_def Log2Floor_def)

end
