(* ===== verification/OrderedString.thy ===== *)
theory OrderedString
  imports FsBits Codec
begin

text \<open>
  The strings of Firestore's ordered encoding (\<open>util/ordered_code.cc\<close>): special bytes are escaped,
  a separator ends the string. The scan for special bytes looks at eight bytes at a time; it is
  the scan byte by byte.
\<close>

section \<open>Special bytes\<close>

definition kEscape1 :: byte where "kEscape1 = 0"
definition kNullCharacter :: byte where "kNullCharacter = 0xff"
definition kSeparator :: byte where "kSeparator = 1"
definition kEscape2 :: byte where "kEscape2 = 0xff"
definition kInfinity :: byte where "kInfinity = 0xff"
definition kFFCharacter :: byte where "kFFCharacter = 0"

definition kEscape1_Separator :: "byte list" where
  "kEscape1_Separator = [kEscape1, kSeparator]"

lemmas ordered_constants = kEscape1_def kNullCharacter_def kSeparator_def kEscape2_def kInfinity_def kFFCharacter_def
  kEscape1_Separator_def

text \<open>The \<open>len\<close> bytes at offset \<open>p\<close> of \<open>src\<close> are appended to \<open>dest\<close>.\<close>

definition AppendBytes :: "byte list \<Rightarrow> byte list \<Rightarrow> nat \<Rightarrow> nat \<Rightarrow> byte list option" where
  "AppendBytes dest src p len = (if p + len \<le> length src then Some (dest @ take len (drop p src)) else None)"

definition IsSpecialByte :: "byte \<Rightarrow> bool" where
  "IsSpecialByte c \<longleftrightarrow> c + 1 < 2"

definition AdvanceIfNoSpecialBytes :: "uint32 \<Rightarrow> byte list \<Rightarrow> nat \<Rightarrow> nat option" where
  "AdvanceIfNoSpecialBytes v_32 m p = do {
     l \<leftarrow> UNALIGNED_LOAD32 m p;
     HARD_ASSERT (l = v_32);
     p0 \<leftarrow> byte_at m p; p1 \<leftarrow> byte_at m (p + 1); p2 \<leftarrow> byte_at m (p + 2); p3 \<leftarrow> byte_at m (p + 3);
     if (v_32 - 0x01010101) AND NOT (v_32 + 0x01010101) AND 0x80808080 \<noteq> 0 then do {
       HARD_ASSERT (IsSpecialByte p0 \<or> IsSpecialByte p1 \<or> IsSpecialByte p2 \<or> IsSpecialByte p3);
       Some 0
     } else do {
       HARD_ASSERT (\<not> IsSpecialByte p0);
       HARD_ASSERT (\<not> IsSpecialByte p1);
       HARD_ASSERT (\<not> IsSpecialByte p2);
       HARD_ASSERT (\<not> IsSpecialByte p3);
       Some 4
     }
   }"

text \<open>
  The part of the loop over eight bytes that has found a special byte; and the loop, which returns
  the place of a special byte (\<open>True\<close>) or where less than eight bytes are left (\<open>False\<close>).
\<close>

definition find_in_word :: "byte list \<Rightarrow> nat \<Rightarrow> uint64 \<Rightarrow> nat option" where
  "find_in_word m p v = do {
     n \<leftarrow> AdvanceIfNoSpecialBytes (ucast v) m p;
     let p = p + n;
     p0 \<leftarrow> byte_at m p;
     if IsSpecialByte p0 then Some p else do {
       p1 \<leftarrow> byte_at m (p + 1);
       if IsSpecialByte p1 then Some (p + 1) else do {
         p2 \<leftarrow> byte_at m (p + 2);
         if IsSpecialByte p2 then Some (p + 2) else do {
           p3 \<leftarrow> byte_at m (p + 3);
           HARD_ASSERT (IsSpecialByte p3);
           Some (p + 3)
         }
       }
     }
   }"

function skip_words :: "byte list \<Rightarrow> nat \<Rightarrow> nat \<Rightarrow> (bool \<times> nat) option" where
  "skip_words m p limit =
     (if p + 8 \<le> limit then do {
        v \<leftarrow> UNALIGNED_LOAD64 m p;
        if (v - 0x0101010101010101) AND NOT (v + 0x0101010101010101) AND 0x8080808080808080 = 0
        then skip_words m (p + 8) limit
        else do { q \<leftarrow> find_in_word m p v; Some (True, q) }
      } else Some (False, p))"
  by pat_completeness auto
termination by (relation "measure (\<lambda>(m, p, limit). limit - p)") auto

declare skip_words.simps [simp del]

function skip_bytes :: "byte list \<Rightarrow> nat \<Rightarrow> nat \<Rightarrow> nat option" where
  "skip_bytes m p limit =
     (if p < limit then do {
        c \<leftarrow> byte_at m p;
        if \<not> IsSpecialByte c then skip_bytes m (p + 1) limit else Some p
      } else Some p)"
  by pat_completeness auto
termination by (relation "measure (\<lambda>(m, p, limit). limit - p)") auto

declare skip_bytes.simps [simp del]

definition SkipToNextSpecialByte :: "byte list \<Rightarrow> nat \<Rightarrow> nat \<Rightarrow> nat option" where
  "SkipToNextSpecialByte m start limit = do {
     (found, p) \<leftarrow> skip_words m start limit;
     if found then Some p
     else if p + 4 \<le> limit then do {
       v_32 \<leftarrow> UNALIGNED_LOAD32 m p;
       n \<leftarrow> AdvanceIfNoSpecialBytes v_32 m p;
       skip_bytes m (p + n) limit
     } else skip_bytes m p limit
   }"

definition TEST_SkipToNextSpecialByte :: "byte list \<Rightarrow> nat \<Rightarrow> nat \<Rightarrow> nat option" where
  "TEST_SkipToNextSpecialByte m start limit = SkipToNextSpecialByte m start limit"

section \<open>The test for special bytes in a word\<close>

lemma unat_byte_minus_1: "b \<noteq> 0 \<Longrightarrow> unat (b - 1) = unat b - 1" for b :: byte
  by (simp add: unat_minus_one)

lemma unat_byte_plus_1: "unat (b + 1) = (if unat b = 255 then 0 else unat b + 1)" for b :: byte
proof -
  have "unat b < 255 \<Longrightarrow> Suc (unat b) mod 256 = Suc (unat b)" by simp
  moreover have "unat b \<noteq> 255 \<Longrightarrow> unat b < 255" using unat_byte_less [of b] by linarith
  ultimately show ?thesis by (auto simp: unat_word_ariths)
qed

lemma unat_byte_255: "unat b = 255 \<longleftrightarrow> b = 0xff" for b :: byte
  by (simp add: word_unat_eq_iff)

lemma special_iff: "IsSpecialByte c \<longleftrightarrow> c = 0 \<or> c = 0xff"
proof -
  have "IsSpecialByte c \<longleftrightarrow> unat c = 255 \<or> unat c = 0"
    by (simp add: IsSpecialByte_def word_less_nat_alt unat_byte_plus_1)
  then show ?thesis by (auto simp: unat_byte_255 unat_eq_0)
qed

lemma bit_7: "bit b 7 \<longleftrightarrow> 128 \<le> unat b" for b :: byte
  using byte_high_bit [of b] by (simp add: bit_iff_and_push_bit_not_eq_0)

lemma special_test: "(b - 1) AND NOT (b + 1) AND 0x80 = 0 \<longleftrightarrow> \<not> IsSpecialByte b" for b :: byte
proof -
  have "(b - 1) AND NOT (b + 1) AND 0x80 \<noteq> 0 \<longleftrightarrow> bit ((b - 1) AND NOT (b + 1)) 7"
    by (simp add: bit_iff_and_push_bit_not_eq_0 [of _ 7] and.assoc del: bit_and_iff)
  also have "\<dots> \<longleftrightarrow> 128 \<le> unat (b - 1) \<and> unat (b + 1) < 128"
    by (simp only: bit_and_iff bit_not_iff) (simp add: bit_7 not_le)
  also have "\<dots> \<longleftrightarrow> IsSpecialByte b"
  proof (cases "b = 0")
    case False
    then show ?thesis
      using unat_byte_less [of b] by (auto simp: special_iff unat_byte_255 [symmetric] unat_byte_minus_1 unat_byte_plus_1)
  qed (simp add: special_iff unsigned_minus_1_eq_mask mask_eq_exp_minus_1)
  finally show ?thesis by blast
qed

abbreviation ones :: "nat \<Rightarrow> 'a::len word" where
  "ones n \<equiv> le_word (replicate n 1)"

abbreviation highs :: "nat \<Rightarrow> 'a::len word" where
  "highs n \<equiv> le_word (replicate n 0x80)"

lemma le_word_plus: "8 \<le> LENGTH('a) \<Longrightarrow> (ucast (b :: byte) OR push_bit 8 w :: 'a::len word) = ucast b + push_bit 8 w"
  by (rule disjunctive_add_eq_or [symmetric], rule bit_word_eqI) (auto simp: bit_simps dest: bit_imp_le_length)

lemma ucast_minus_1:
  assumes "8 \<le> LENGTH('a)"
  shows "(ucast (b :: byte) :: 'a::len word) - 1 = (if b = 0 then ucast (b - 1) - 256 else ucast (b - 1))"
proof (cases "b = 0")
  case True
  have "unat (- 1 :: byte) = 255" by (simp add: unsigned_minus_1_eq_mask mask_eq_exp_minus_1)
  then have "(word_of_nat (unat (b - 1)) :: 'a word) = 255" using True by simp
  then have "(ucast (b - 1) :: 'a word) = 255" by simp
  with True show ?thesis by simp
next
  case False
  then have "unat b = unat (b - 1) + 1" by (simp add: unat_byte_minus_1 Suc_leI unat_gt_0)
  then have "(word_of_nat (unat b) :: 'a word) = word_of_nat (unat (b - 1)) + 1" by simp
  with False show ?thesis by simp
qed

lemma ucast_plus_1:
  "(ucast (b :: byte) :: 'a::len word) + 1 = (if b = 0xff then ucast (b + 1) + 256 else ucast (b + 1))"
proof (cases "b = 0xff")
  case True
  then have "(word_of_nat (unat b) :: 'a word) = 255" by simp
  then have "(ucast b :: 'a word) = 255" by simp
  with True show ?thesis by simp
next
  case False
  then have "unat (b + 1) = unat b + 1" by (simp add: unat_byte_plus_1 unat_byte_255)
  then have "(word_of_nat (unat (b + 1)) :: 'a word) = word_of_nat (unat b) + 1" by simp
  with False show ?thesis by simp
qed

lemma le_cons_minus:
  assumes "8 \<le> LENGTH('a)"
  shows "(ucast (b :: byte) OR push_bit 8 v) - (1 OR push_bit 8 w) =
    (ucast (b - 1) OR push_bit 8 (if b = 0 then v - w - 1 else v - w) :: 'a::len word)"
proof -
  have "(ucast b OR push_bit 8 v) - (1 OR push_bit 8 w) = (ucast b - 1) + (push_bit 8 v - push_bit 8 w :: 'a word)"
    using le_word_plus [OF assms, of b v] le_word_plus [OF assms, of 1 w] by simp
  also have "\<dots> = (if b = 0 then ucast (b - 1) - 256 else ucast (b - 1)) + (push_bit 8 v - push_bit 8 w)"
    by (simp only: ucast_minus_1 [OF assms])
  also have "\<dots> = ucast (b - 1) + push_bit 8 (if b = 0 then v - w - 1 else v - w)"
    by (cases "b = 0") (simp_all only: if_True if_False push_bit_eq_mult, simp_all add: algebra_simps)
  finally show ?thesis by (simp only: le_word_plus [OF assms])
qed

lemma le_cons_plus:
  assumes "8 \<le> LENGTH('a)"
  shows "(ucast (b :: byte) OR push_bit 8 v) + (1 OR push_bit 8 w) =
    (ucast (b + 1) OR push_bit 8 (if b = 0xff then v + w + 1 else v + w) :: 'a::len word)"
proof -
  have "(ucast b OR push_bit 8 v) + (1 OR push_bit 8 w) = (ucast b + 1) + (push_bit 8 v + push_bit 8 w :: 'a word)"
    using le_word_plus [OF assms, of b v] le_word_plus [OF assms, of 1 w] by simp
  also have "\<dots> = (if b = 0xff then ucast (b + 1) + 256 else ucast (b + 1)) + (push_bit 8 v + push_bit 8 w)"
    by (simp only: ucast_plus_1)
  also have "\<dots> = ucast (b + 1) + push_bit 8 (if b = 0xff then v + w + 1 else v + w)"
    by (cases "b = 0xff") (simp_all only: if_True if_False push_bit_eq_mult, simp_all add: algebra_simps)
  finally show ?thesis by (simp only: le_word_plus [OF assms])
qed

lemma le_cons_test:
  fixes u t h :: "'a::len word"
  shows "(ucast x OR push_bit 8 u) AND NOT (ucast y OR push_bit 8 t) AND (ucast z OR push_bit 8 h) =
    ucast (x AND NOT y AND z :: byte) OR push_bit 8 (u AND NOT t AND h)"
  by (rule bit_word_eqI) (auto simp: bit_simps dest: bit_imp_le_length)

lemma le_cons_zero:
  assumes "8 \<le> LENGTH('a)"
  shows "ucast (x :: byte) OR push_bit 8 u = (0 :: 'a::len word) \<longleftrightarrow> x = 0 \<and> push_bit 8 u = 0"
proof -
  have "(ucast x :: 'a word) = 0 \<longleftrightarrow> x = 0"
    using assms bit_imp_le_length [of x] by (auto simp: bit_eq_iff bit_ucast_iff) (metis order_less_le_trans)
  then show ?thesis unfolding or_eq_0_iff by (simp only:)
qed

lemma special_in_word:
  assumes "8 * length bs \<le> LENGTH('a)"
  shows "(le_word bs - ones (length bs)) AND NOT (le_word bs + ones (length bs)) AND highs (length bs) = (0 :: 'a::len word)
    \<longleftrightarrow> (\<forall>b \<in> set bs. \<not> IsSpecialByte b)"
  using assms
proof (induction bs)
  case (Cons b bs)
  let ?v = "le_word bs :: 'a word" and ?w = "ones (length bs) :: 'a word" and ?h = "highs (length bs) :: 'a word"
  have len: "8 \<le> LENGTH('a)" using Cons.prems by simp
  let ?u = "if b = 0 then ?v - ?w - 1 else ?v - ?w" and ?t = "if b = 0xff then ?v + ?w + 1 else ?v + ?w"
  have "push_bit 8 (?u AND NOT ?t AND ?h) = 0 \<longleftrightarrow> ?u AND NOT ?t AND ?h = 0"
  proof
    assume *: "push_bit 8 (?u AND NOT ?t AND ?h) = 0"
    show "?u AND NOT ?t AND ?h = 0"
    proof (rule bit_word_eqI)
      fix i
      have "bit (push_bit 8 (?u AND NOT ?t AND ?h)) (i + 8) = False" by (simp only: * bit_0_eq bot_apply bot_bool_def)
      moreover have "bit ?h i \<Longrightarrow> i + 8 < LENGTH('a)"
        using Cons.prems by (auto simp: bit_le_word)
      ultimately show "bit (?u AND NOT ?t AND ?h) i = bit 0 i" by (auto simp: bit_simps)
    qed
  qed simp
  moreover have "?u AND NOT ?t AND ?h = 0 \<longleftrightarrow> (\<forall>b \<in> set bs. \<not> IsSpecialByte b)" if "\<not> IsSpecialByte b"
    using that Cons by (simp add: special_iff)
  moreover have "(ucast (b - 1) OR push_bit 8 ?u) AND NOT (ucast (b + 1) OR push_bit 8 ?t) AND (ucast (0x80 :: byte) OR push_bit 8 ?h) = 0
      \<longleftrightarrow> \<not> IsSpecialByte b \<and> push_bit 8 (?u AND NOT ?t AND ?h) = 0"
    unfolding le_cons_test le_cons_zero [OF len] special_test ..
  ultimately show ?case using le_cons_minus [OF len, of b ?v ?w] le_cons_plus [OF len, of b ?v ?w] by auto
qed simp

section \<open>The scan is the scan byte by byte\<close>

definition first_special :: "byte list \<Rightarrow> nat \<Rightarrow> nat \<Rightarrow> nat" where
  "first_special m p limit = p + length (takeWhile (\<lambda>c. \<not> IsSpecialByte c) (take (limit - p) (drop p m)))"

lemma first_special_end [simp]: "limit \<le> p \<Longrightarrow> first_special m p limit = p"
  by (simp add: first_special_def)

lemma first_special_step:
  assumes "p < limit" and "limit \<le> length m"
  shows "first_special m p limit = (if IsSpecialByte (m ! p) then p else first_special m (Suc p) limit)"
proof -
  have "drop p m = m ! p # drop (Suc p) m" using assms by (simp add: Cons_nth_drop_Suc)
  moreover have "limit - p = Suc (limit - Suc p)" using assms by simp
  ultimately show ?thesis by (simp add: first_special_def)
qed

lemma first_special_skip:
  "(\<And>i. i < k \<Longrightarrow> \<not> IsSpecialByte (m ! (p + i))) \<Longrightarrow> p + k \<le> limit \<Longrightarrow> limit \<le> length m \<Longrightarrow>
   first_special m p limit = first_special m (p + k) limit"
proof (induction k arbitrary: p)
  case (Suc k)
  have "first_special m p limit = first_special m (Suc p) limit"
    using Suc.prems(1) [of 0] Suc.prems(2,3) by (subst first_special_step) auto
  also have "\<dots> = first_special m (Suc p + k) limit"
    by (rule Suc.IH) (use Suc.prems(1) [of "Suc _"] Suc.prems(2,3) in auto)
  finally show ?case by simp
qed simp

lemma take_bytes: "p + n \<le> length m \<Longrightarrow> take n (drop p m) = map (\<lambda>i. m ! (p + i)) [0..<n]"
  by (rule nth_equalityI) auto

lemma set_take_bytes: "p + n \<le> length m \<Longrightarrow> (\<forall>b \<in> set (take n (drop p m)). P b) \<longleftrightarrow> (\<forall>i < n. P (m ! (p + i)))"
  by (auto simp: take_bytes)

lemma replicate_4_8: "replicate 4 x = [x, x, x, x]" "replicate 8 x = [x, x, x, x, x, x, x, x]"
  by (simp_all add: numeral_eq_Suc)

lemma length_take_bytes: "p + n \<le> length m \<Longrightarrow> length (take n (drop p m)) = n"
  by simp

lemma replicate_words:
  "ones 4 = (0x01010101 :: uint32)" "highs 4 = (0x80808080 :: uint32)"
  "ones 8 = (0x0101010101010101 :: uint64)" "highs 8 = (0x8080808080808080 :: uint64)"
  by (simp_all add: replicate_4_8)

lemma special_in_32:
  assumes "p + 4 \<le> length m" and "v = le_word (take 4 (drop p m))"
  shows "(v - 0x01010101) AND NOT (v + 0x01010101) AND 0x80808080 = (0 :: uint32) \<longleftrightarrow> (\<forall>i < 4. \<not> IsSpecialByte (m ! (p + i)))"
  using special_in_word [of "take 4 (drop p m)", where ?'a = 32]
  unfolding length_take_bytes [OF assms(1)] set_take_bytes [OF assms(1)] replicate_words assms(2) by simp

lemma special_in_64:
  assumes "p + 8 \<le> length m" and "v = le_word (take 8 (drop p m))"
  shows "(v - 0x0101010101010101) AND NOT (v + 0x0101010101010101) AND 0x8080808080808080 = (0 :: uint64)
    \<longleftrightarrow> (\<forall>i < 8. \<not> IsSpecialByte (m ! (p + i)))"
  using special_in_word [of "take 8 (drop p m)", where ?'a = 64]
  unfolding length_take_bytes [OF assms(1)] set_take_bytes [OF assms(1)] replicate_words assms(2) by simp

lemma all_less_4: "(\<forall>i < 4. P (m ! (p + i))) \<longleftrightarrow> P (m ! p) \<and> P (m ! (p + 1)) \<and> P (m ! (p + 2)) \<and> P (m ! (p + 3))" for p :: nat
  by (simp add: numeral_eq_Suc All_less_Suc) auto

lemma Advance_eq:
  assumes "p + 4 \<le> length m" and "v = le_word (take 4 (drop p m))"
  shows "AdvanceIfNoSpecialBytes v m p = Some (if \<forall>i < 4. \<not> IsSpecialByte (m ! (p + i)) then 4 else 0)"
proof -
  have "byte_at m p = Some (m ! p)" "byte_at m (p + 1) = Some (m ! (p + 1))" "byte_at m (p + 2) = Some (m ! (p + 2))"
    "byte_at m (p + 3) = Some (m ! (p + 3))"
    using assms(1) by (simp_all add: byte_at_def)
  moreover have "UNALIGNED_LOAD32 m p = Some v" using assms by (simp add: UNALIGNED_LOAD32_def)
  ultimately show ?thesis
    using special_in_32 [OF assms] all_less_4 [of "\<lambda>b. \<not> IsSpecialByte b" m p]
    by (cases "\<forall>i < 4. \<not> IsSpecialByte (m ! (p + i))") (auto simp: AdvanceIfNoSpecialBytes_def)
qed

lemma low_half: "length bs = 8 \<Longrightarrow> ucast (le_word bs :: uint64) = (le_word (take 4 bs) :: uint32)"
proof (rule bit_word_eqI)
  fix n assume "length bs = 8" "n < LENGTH(32)"
  moreover from this have "n div 8 < 4" by simp
  ultimately show "bit (ucast (le_word bs :: uint64) :: uint32) n = bit (le_word (take 4 bs) :: uint32) n"
    by (simp add: bit_ucast_iff bit_le_word)
qed

lemma find_in_word_eq:
  assumes "p + 8 \<le> length m" and "v = le_word (take 8 (drop p m))" and "\<exists>i < 8. IsSpecialByte (m ! (p + i))"
  shows "find_in_word m p v = Some (first_special m p (p + 8))"
proof -
  let ?n = "if \<forall>i < 4. \<not> IsSpecialByte (m ! (p + i)) then 4 else 0 :: nat" and ?l = "p + 8"
  let ?q = "p + ?n"
  have adv: "AdvanceIfNoSpecialBytes (ucast v) m p = Some ?n"
    by (rule Advance_eq) (use assms(1) low_half [OF length_take_bytes [OF assms(1)]] in \<open>simp_all add: assms(2)\<close>)
  have "\<exists>i < 4. IsSpecialByte (m ! (?q + i))"
  proof (cases "\<forall>i < 4. \<not> IsSpecialByte (m ! (p + i))")
    case True
    obtain i where i: "i < 8" "IsSpecialByte (m ! (p + i))" using assms(3) by blast
    with True have "4 \<le> i" by (meson not_le)
    with i True show ?thesis by (auto intro!: exI [of _ "i - 4"])
  qed auto
  then have some: "\<not> (\<not> IsSpecialByte (m ! ?q) \<and> \<not> IsSpecialByte (m ! (?q + 1)) \<and> \<not> IsSpecialByte (m ! (?q + 2)) \<and> \<not> IsSpecialByte (m ! (?q + 3)))"
    using all_less_4 [of "\<lambda>b. \<not> IsSpecialByte b" m ?q] by blast
  have fs: "first_special m p ?l = first_special m ?q ?l"
    by (rule first_special_skip) (use assms(1) in \<open>auto split: if_splits\<close>)
  have q: "?q + 4 \<le> ?l" by simp
  define q where "q = ?q"
  have step: "first_special m (q + i) ?l = (if IsSpecialByte (m ! (q + i)) then q + i else first_special m (q + Suc i) ?l)" if "i < 4" for i
    using that q assms(1) unfolding q_def [symmetric] by (subst first_special_step) auto
  have at: "byte_at m (q + i) = Some (m ! (q + i))" if "i < 4" for i
    using that q assms(1) unfolding q_def [symmetric] by (simp add: byte_at_def)
  show ?thesis
    unfolding fs find_in_word_def adv bind.bind_lunit Let_def q_def [symmetric]
    using some step [of 0] step [of 1] step [of 2] step [of 3] at [of 0] at [of 1] at [of 2] at [of 3]
    unfolding q_def [symmetric] by (auto simp: numeral_eq_Suc)
qed

lemma skip_words_eq:
  "limit \<le> length m \<Longrightarrow> \<exists>found q. skip_words m p limit = Some (found, q) \<and>
    (if found then q = first_special m p limit else first_special m p limit = first_special m q limit)"
proof (induction m p limit rule: skip_words.induct)
  case (1 m p limit)
  let ?v = "le_word (take 8 (drop p m)) :: uint64"
  show ?case
  proof (cases "p + 8 \<le> limit")
    case True
    then have p: "p + 8 \<le> length m" and load: "UNALIGNED_LOAD64 m p = Some ?v"
      using "1.prems" by (simp_all add: UNALIGNED_LOAD64_def)
    show ?thesis
    proof (cases "\<forall>i < 8. \<not> IsSpecialByte (m ! (p + i))")
      case none: True
      then have fs: "first_special m p limit = first_special m (p + 8) limit"
        using True "1.prems" by (intro first_special_skip) auto
      have sw: "skip_words m p limit = skip_words m (p + 8) limit"
        using True load none special_in_64 [OF p refl] by (subst skip_words.simps) simp
      show ?thesis
        unfolding fs sw using "1.IH" [OF True load _ "1.prems"] none special_in_64 [OF p refl] by blast
    next
      case False
      then have found: "find_in_word m p ?v = Some (first_special m p (p + 8))"
        by (intro find_in_word_eq) (use p in auto)
      have eq: "first_special m p (p + 8) = first_special m p limit"
      proof -
        obtain i where i: "i < 8" "IsSpecialByte (m ! (p + i))" using False by blast
        then have "take 8 (drop p m) ! i = m ! (p + i)" using p by simp
        moreover have "i < length (take 8 (drop p m))" using i(1) p by simp
        ultimately have "\<exists>c \<in> set (take 8 (drop p m)). IsSpecialByte c" using i(2) nth_mem by metis
        then obtain c where c: "c \<in> set (take 8 (drop p m))" "\<not> \<not> IsSpecialByte c" by blast
        have "take (limit - p) (drop p m) = take (8 + (limit - p - 8)) (drop p m)" using True by simp
        also have "\<dots> = take 8 (drop p m) @ take (limit - p - 8) (drop 8 (drop p m))" by (rule take_add)
        finally show ?thesis
          unfolding first_special_def using takeWhile_append1 [OF c(1), of "\<lambda>c. \<not> IsSpecialByte c"] c(2) by simp
      qed
      show ?thesis
        using True load found eq False special_in_64 [OF p refl] by (subst skip_words.simps) auto
    qed
  next
    case False
    then show ?thesis by (subst skip_words.simps) (auto intro: exI [of _ False])
  qed
qed

lemma skip_bytes_eq: "limit \<le> length m \<Longrightarrow> skip_bytes m p limit = Some (first_special m p limit)"
proof (induction m p limit rule: skip_bytes.induct)
  case (1 m p limit)
  then show ?case
    by (subst skip_bytes.simps) (auto simp: byte_at_def first_special_step)
qed

lemma Skip_eq:
  assumes "limit \<le> length m"
  shows "SkipToNextSpecialByte m start limit = Some (first_special m start limit)"
proof -
  obtain found q where q: "skip_words m start limit = Some (found, q)"
    "if found then q = first_special m start limit else first_special m start limit = first_special m q limit"
    using skip_words_eq [OF assms] by blast
  show ?thesis
  proof (cases "\<not> found \<and> q + 4 \<le> limit")
    case True
    then have p: "q + 4 \<le> length m" using assms by simp
    let ?n = "if \<forall>i < 4. \<not> IsSpecialByte (m ! (q + i)) then 4 else 0 :: nat"
    have "first_special m q limit = first_special m (q + ?n) limit"
      by (rule first_special_skip) (use True assms in \<open>auto split: if_splits\<close>)
    with True q show ?thesis
      using Advance_eq [OF p refl] p assms by (auto simp: SkipToNextSpecialByte_def UNALIGNED_LOAD32_def skip_bytes_eq)
  next
    case False
    with q show ?thesis using assms by (auto simp: SkipToNextSpecialByte_def skip_bytes_eq)
  qed
qed

lemma first_special_ge: "p \<le> first_special m p limit"
  by (simp add: first_special_def)

lemma first_special_le: "p \<le> limit \<Longrightarrow> limit \<le> length m \<Longrightarrow> first_special m p limit \<le> limit"
  using length_takeWhile_le [of "\<lambda>c. \<not> IsSpecialByte c" "take (limit - p) (drop p m)"]
  by (simp add: first_special_def min_def split: if_splits)

lemma first_special_at: "p \<le> limit \<Longrightarrow> limit \<le> length m \<Longrightarrow> first_special m p limit < limit \<Longrightarrow> IsSpecialByte (m ! first_special m p limit)"
  using nth_length_takeWhile [of "\<lambda>c. \<not> IsSpecialByte c" "take (limit - p) (drop p m)"]
  by (auto simp: first_special_def)

lemma Skip_ge: "SkipToNextSpecialByte m start limit = Some q \<Longrightarrow> limit \<le> length m \<Longrightarrow> start \<le> q"
  using Skip_eq first_special_ge by auto

section \<open>Writing and reading strings\<close>

text \<open>
  The loop of \<open>EncodeStringFragment\<close>; \<open>p\<close> is where the scan goes on, \<open>copy_start\<close> the start of what has
  not been copied yet.
\<close>

function encode_loop :: "byte list \<Rightarrow> nat \<Rightarrow> nat \<Rightarrow> byte list \<Rightarrow> byte list option" where
  "encode_loop s p copy_start dest =
     (case SkipToNextSpecialByte s p (length s) of None \<Rightarrow> None | Some p \<Rightarrow>
      if length s \<le> p then
        if copy_start < p then AppendBytes dest s copy_start (p - copy_start) else Some dest
      else do {
        c \<leftarrow> byte_at s p;
        let p = p + 1;
        HARD_ASSERT (IsSpecialByte c);
        if c = kEscape1 then do {
          dest \<leftarrow> AppendBytes dest s copy_start (p - copy_start - 1);
          encode_loop s p p (dest @ [kEscape1] @ [kNullCharacter])
        } else do {
          HARD_ASSERT (c = kEscape2);
          dest \<leftarrow> AppendBytes dest s copy_start (p - copy_start - 1);
          encode_loop s p p (dest @ [kEscape2] @ [kFFCharacter])
        }
      })"
  by pat_completeness auto
termination
  by (relation "measure (\<lambda>(s, p, c, d). length s - p)") (auto dest!: Skip_ge [OF _ order_refl])

declare encode_loop.simps [simp del]

definition EncodeStringFragment :: "byte list \<Rightarrow> byte list \<Rightarrow> byte list option" where
  "EncodeStringFragment dest s = encode_loop s 0 0 dest"

definition WriteString :: "byte list \<Rightarrow> byte list \<Rightarrow> byte list option" where
  "WriteString dest s = do { dest \<leftarrow> EncodeStringFragment dest s; AppendBytes dest kEscape1_Separator 0 2 }"

definition WriteInfinityInternal :: "byte list \<Rightarrow> byte list" where
  "WriteInfinityInternal dest = dest @ [kEscape2, kInfinity]"

definition WriteInfinity :: "byte list \<Rightarrow> byte list" where
  "WriteInfinity dest = WriteInfinityInternal dest"

definition WriteTrailingString :: "byte list \<Rightarrow> byte list \<Rightarrow> byte list" where
  "WriteTrailingString dest str = dest @ str"

text \<open>
  The readers return whether they succeed, the string that \<open>result\<close> points to (\<open>None\<close> for a null
  pointer), and what is left of \<open>src\<close>.
\<close>

definition append_result :: "byte list option \<Rightarrow> byte list \<Rightarrow> nat \<Rightarrow> nat \<Rightarrow> byte list option option" where
  "append_result result src p len =
     (case result of None \<Rightarrow> Some None | Some r \<Rightarrow> map_option Some (AppendBytes r src p len))"

text \<open>The limit of an empty string is one before its start; no scan goes on from there either.\<close>

function read_loop :: "byte list \<Rightarrow> nat \<Rightarrow> nat \<Rightarrow> byte list option \<Rightarrow> (bool \<times> byte list option \<times> byte list) option" where
  "read_loop src start copy_start result =
     (case SkipToNextSpecialByte src start (length src - 1) of None \<Rightarrow> None | Some start \<Rightarrow>
      if length src - 1 \<le> start then Some (False, result, src)
      else do {
        c \<leftarrow> byte_at src start;
        let start = start + 1;
        HARD_ASSERT (IsSpecialByte c);
        if c = kEscape1 then do {
          result \<leftarrow> append_result result src copy_start (start - copy_start - 1);
          next \<leftarrow> byte_at src start;
          let start = start + 1;
          if next = kSeparator then Some (True, result, drop start src)
          else if next = kNullCharacter then read_loop src start start (map_option (\<lambda>r. r @ [0]) result)
          else Some (False, result, src)
        } else do {
          HARD_ASSERT (c = kEscape2);
          result \<leftarrow> append_result result src copy_start (start - copy_start - 1);
          next \<leftarrow> byte_at src start;
          let start = start + 1;
          if next = kFFCharacter then read_loop src start start (map_option (\<lambda>r. r @ [0xff]) result)
          else Some (False, result, src)
        }
      })"
  by pat_completeness auto
termination
  by (relation "measure (\<lambda>(s, p, c, d). length s - p)") (auto dest!: Skip_ge)

declare read_loop.simps [simp del]

definition ReadStringInternal :: "byte list \<Rightarrow> byte list option \<Rightarrow> (bool \<times> byte list option \<times> byte list) option" where
  "ReadStringInternal src result = read_loop src 0 0 result"

definition ReadString :: "byte list \<Rightarrow> byte list option \<Rightarrow> (bool \<times> byte list option \<times> byte list) option" where
  "ReadString src result = ReadStringInternal src result"

definition ReadInfinityInternal :: "byte list \<Rightarrow> bool \<times> byte list" where
  "ReadInfinityInternal src =
     (if 2 \<le> length src \<and> src ! 0 = kEscape2 \<and> src ! 1 = kInfinity then (True, drop 2 src) else (False, src))"

definition ReadInfinity :: "byte list \<Rightarrow> bool \<times> byte list" where
  "ReadInfinity src = ReadInfinityInternal src"

text \<open>\<open>inf\<close> is \<open>None\<close> where the code leaves the flag alone.\<close>

definition ReadStringOrInfinityInternal ::
  "byte list \<Rightarrow> byte list option \<Rightarrow> (bool \<times> byte list option \<times> bool option \<times> byte list) option" where
  "ReadStringOrInfinityInternal src result =
     (case ReadInfinityInternal src of
        (True, src) \<Rightarrow> Some (True, result, Some True, src)
      | (False, src) \<Rightarrow> do {
          (success, result, src) \<leftarrow> ReadString src result;
          if success then Some (True, result, Some False, src) else Some (False, result, None, src)
        })"

definition ReadStringOrInfinity ::
  "byte list \<Rightarrow> byte list option \<Rightarrow> (bool \<times> byte list option \<times> bool option \<times> byte list) option" where
  "ReadStringOrInfinity src result = ReadStringOrInfinityInternal src result"

definition ReadTrailingString :: "byte list \<Rightarrow> byte list option \<Rightarrow> bool \<times> byte list option \<times> byte list" where
  "ReadTrailingString src result = (True, map_option (\<lambda>_. src) result, drop (length src) src)"

text \<open>The helper of the tests. The loop of an empty string has the bound \<open>SIZE_MAX\<close> and leaves the string.\<close>

function corrupt_from :: "nat \<Rightarrow> int \<Rightarrow> int \<Rightarrow> byte list \<Rightarrow> byte list" where
  "corrupt_from i seen k str =
     (if Suc i < length str then
        if str ! i = kEscape1 \<and> str ! Suc i = kSeparator then
          if seen + 1 = k then str[Suc i := kSeparator + 1] else corrupt_from (Suc i) (seen + 1) k str
        else corrupt_from (Suc i) seen k str
      else str)"
  by pat_completeness auto
termination by (relation "measure (\<lambda>(i, seen, k, str). length str - i)") auto

declare corrupt_from.simps [simp del]

definition TEST_Corrupt :: "byte list \<Rightarrow> int \<Rightarrow> byte list option" where
  "TEST_Corrupt str k = (if str = [] then None else Some (corrupt_from 0 0 k str))"

section \<open>Strings escape and come back\<close>

text \<open>The encoding of a string, character by character, and the function that inverts it.\<close>

definition escape :: "byte \<Rightarrow> byte list" where
  "escape c = (if c = 0 then [0, 0xff] else if c = 0xff then [0xff, 0] else [c])"

definition string_bytes :: "byte list \<Rightarrow> byte list" where
  "string_bytes s = concat (map escape s) @ [0, 1]"

fun parse_string :: "byte list \<Rightarrow> (byte list \<times> byte list) option" where
  "parse_string (c # n # t) =
     (if c = 0 then
        if n = 1 then Some ([], t)
        else if n = 0xff then map_option (apfst (Cons c)) (parse_string t) else None
      else if c = 0xff then
        if n = 0 then map_option (apfst (Cons c)) (parse_string t) else None
      else map_option (apfst (Cons c)) (parse_string (n # t)))"
| "parse_string t = None"

lemma escape_plain: "\<not> IsSpecialByte c \<Longrightarrow> escape c = [c]"
  by (simp add: escape_def special_iff)

lemma escape_plains: "\<forall>c \<in> set u. \<not> IsSpecialByte c \<Longrightarrow> concat (map escape u) = u"
  by (induction u) (simp_all add: escape_plain)

lemma parse_plains:
  "\<forall>c \<in> set u. \<not> IsSpecialByte c \<Longrightarrow> t \<noteq> [] \<Longrightarrow> parse_string (u @ t) = map_option (apfst ((@) u)) (parse_string t)"
proof (induction u)
  case (Cons c u)
  then obtain n r where "u @ t = n # r" by (cases "u @ t") auto
  with Cons show ?case
    by (auto simp: special_iff option.map_comp apfst_compose intro!: option.map_cong)
qed (simp add: option.map_id apfst_def map_prod_def flip: id_def)

lemma parse_no_special: "\<forall>c \<in> set (butlast t). \<not> IsSpecialByte c \<Longrightarrow> parse_string t = None"
  by (induction t rule: parse_string.induct) (auto simp: special_iff split: if_splits)

lemma parse_string_bytes [simp]: "parse_string (string_bytes s @ rest) = Some (s, rest)"
proof (induction s)
  case (Cons c s)
  obtain n r where "string_bytes s @ rest = n # r" by (cases "string_bytes s @ rest") (auto simp: string_bytes_def)
  with Cons show ?case by (auto simp: string_bytes_def escape_def)
qed (simp add: string_bytes_def)

lemma parse_string_only: "parse_string t = Some (s, rest) \<Longrightarrow> t = string_bytes s @ rest"
proof (induction t arbitrary: s rule: parse_string.induct)
  case (1 c n t)
  then show ?case
    by (auto simp: string_bytes_def escape_def split: if_splits)
qed auto

text \<open>What the scan passes over.\<close>

lemma passed:
  assumes "p \<le> limit" and "limit \<le> length m"
  shows "\<forall>c \<in> set (take (first_special m p limit - p) (drop p m)). \<not> IsSpecialByte c"
proof -
  let ?u = "takeWhile (\<lambda>c. \<not> IsSpecialByte c) (take (limit - p) (drop p m))"
  have "length ?u \<le> limit - p"
    using length_takeWhile_le [of "\<lambda>c. \<not> IsSpecialByte c" "take (limit - p) (drop p m)"] by simp
  then have "take (length ?u) (drop p m) = take (length ?u) (take (limit - p) (drop p m))"
    by (simp add: min_def)
  also have "\<dots> = ?u" by (rule takeWhile_eq_take [symmetric])
  finally show ?thesis by (auto simp: first_special_def dest: set_takeWhileD)
qed

lemma drop_passed: "p \<le> q \<Longrightarrow> drop p m = take (q - p) (drop p m) @ drop q m"
  using append_take_drop_id [of "q - p" "drop p m"] by simp

lemma encode_loop_eq: "p \<le> length s \<Longrightarrow> encode_loop s p p dest = Some (dest @ concat (map escape (drop p s)))"
proof (induction "length s - p" arbitrary: p dest rule: less_induct)
  case less
  let ?q = "first_special s p (length s)"
  let ?u = "take (?q - p) (drop p s)"
  have q: "p \<le> ?q" "?q \<le> length s"
    using first_special_ge first_special_le [OF less.prems order_refl] by auto
  have d: "drop p s = ?u @ drop ?q s" by (rule drop_passed [OF q(1)])
  have e: "concat (map escape (drop p s)) = ?u @ concat (map escape (drop ?q s))"
    by (subst d) (simp only: map_append concat_append escape_plains [OF passed [OF less.prems order_refl]])
  have copy: "AppendBytes dest s p (?q - p) = Some (dest @ ?u)" using q by (simp add: AppendBytes_def)
  show ?case
  proof (cases "?q = length s")
    case True
    then show ?thesis
      using e copy by (subst encode_loop.simps) (auto simp: Skip_eq)
  next
    case False
    then have less_q: "?q < length s" using q by simp
    then have special: "IsSpecialByte (s ! ?q)" by (intro first_special_at) (use less.prems in auto)
    have "drop ?q s = s ! ?q # drop (Suc ?q) s" using less_q by (simp add: Cons_nth_drop_Suc)
    then have "concat (map escape (drop ?q s)) = escape (s ! ?q) @ concat (map escape (drop (Suc ?q) s))" by simp
    moreover have "encode_loop s (Suc ?q) (Suc ?q) d = Some (d @ concat (map escape (drop (Suc ?q) s)))" for d
      by (rule less.hyps) (use q less_q in auto)
    ultimately show ?thesis
      using e copy special less_q by (subst encode_loop.simps)
        (auto simp: Skip_eq byte_at_def Let_def special_iff escape_def ordered_constants)
  qed
qed

lemma WriteString_eq: "WriteString dest s = Some (dest @ string_bytes s)"
  by (simp add: WriteString_def EncodeStringFragment_def encode_loop_eq AppendBytes_def string_bytes_def ordered_constants)

lemma read_loop_eq:
  "p \<le> length src \<Longrightarrow>
   case parse_string (drop p src) of
     Some (s, rest) \<Rightarrow> read_loop src p p result = Some (True, map_option (\<lambda>r. r @ s) result, rest)
   | None \<Rightarrow> \<exists>r. read_loop src p p result = Some (False, r, src)"
proof (induction "length src - p" arbitrary: p result rule: less_induct)
  case less
  let ?l = "length src - 1"
  let ?q = "first_special src p ?l"
  let ?u = "take (?q - p) (drop p src)"
  have q: "p \<le> ?q" by (rule first_special_ge)
  have d: "drop p src = ?u @ drop ?q src" by (rule drop_passed [OF q])
  show ?case
  proof (cases "?l \<le> ?q")
    case True
    have "\<forall>c \<in> set (butlast (drop p src)). \<not> IsSpecialByte c"
    proof (cases "p \<le> ?l")
      case p: True
      then have "?q = ?l" using True first_special_le [OF p, of src] by simp
      moreover have "butlast (drop p src) = take (?l - p) (drop p src)" by (simp add: butlast_conv_take)
      ultimately show ?thesis using passed [OF p, of src] by simp
    next
      case False
      then have "butlast (drop p src) = []" by (simp add: butlast_conv_take)
      then show ?thesis by simp
    qed
    then show ?thesis
      using True by (subst read_loop.simps) (simp add: Skip_eq parse_no_special)
  next
    case False
    then have p: "p \<le> ?l" using q by simp
    have len: "Suc ?q < length src" using False by simp
    have special: "IsSpecialByte (src ! ?q)" by (rule first_special_at [OF p]) (use False in auto)
    have drop: "drop ?q src = src ! ?q # src ! Suc ?q # drop (Suc (Suc ?q)) src"
      using len by (simp add: Cons_nth_drop_Suc)
    have "parse_string (drop p src) = map_option (apfst ((@) ?u)) (parse_string (drop ?q src))"
      by (subst d) (rule parse_plains [OF passed [OF p]], use len in auto)
    then have parse: "parse_string (drop p src) =
      map_option (apfst ((@) ?u)) (parse_string (src ! ?q # src ! Suc ?q # drop (Suc (Suc ?q)) src))"
      unfolding drop .
    have copy: "append_result result src p (?q - p) = Some (map_option (\<lambda>r. r @ ?u) result)"
      using q len by (simp add: append_result_def AppendBytes_def split: option.split)
    have IH: "case parse_string (drop (Suc (Suc ?q)) src) of
        Some (s, rest) \<Rightarrow> read_loop src (Suc (Suc ?q)) (Suc (Suc ?q)) res = Some (True, map_option (\<lambda>r. r @ s) res, rest)
      | None \<Rightarrow> \<exists>r. read_loop src (Suc (Suc ?q)) (Suc (Suc ?q)) res = Some (False, r, src)" for res
      by (rule less.hyps) (use q len in auto)
    let ?c = "src ! ?q" and ?n = "src ! Suc ?q" and ?t = "drop (Suc (Suc ?q)) src"
    let ?r = "map_option (\<lambda>r. r @ ?u) result"
    have at: "byte_at src ?q = Some ?c" "byte_at src (?q + 1) = Some ?n" using len by (simp_all add: byte_at_def)
    have step: "read_loop src p p result =
      (if ?c = 0 then
         if ?n = 1 then Some (True, ?r, ?t)
         else if ?n = 0xff then read_loop src (Suc (Suc ?q)) (Suc (Suc ?q)) (map_option (\<lambda>r. r @ [0]) ?r)
         else Some (False, ?r, src)
       else if ?n = 0 then read_loop src (Suc (Suc ?q)) (Suc (Suc ?q)) (map_option (\<lambda>r. r @ [0xff]) ?r)
       else Some (False, ?r, src))"
    proof (cases "?c = 0")
      case True
      then show ?thesis
        using special copy False at by (subst read_loop.simps) (simp add: Skip_eq Let_def ordered_constants)
    next
      case c: False
      then have "?c = 0xff" using special by (simp add: special_iff)
      then show ?thesis
        using special copy False at by (subst read_loop.simps) (simp add: Skip_eq Let_def ordered_constants)
    qed
    consider (stop) "?c = 0" "?n = 1" | (zero) "?c = 0" "?n = 0xff" | (ff) "?c \<noteq> 0" "?n = 0"
      | (wrong) "?c = 0" "?n \<noteq> 1" "?n \<noteq> 0xff" | (wrong') "?c \<noteq> 0" "?n \<noteq> 0" by blast
    then show ?thesis
    proof cases
      case zero
      then show ?thesis
        using IH [of "map_option (\<lambda>r. r @ [0]) ?r"] unfolding parse step
        by (cases "parse_string ?t") (simp_all add: option.map_comp o_def split: prod.splits)
    next
      case ff
      then have "?c = 0xff" using special by (simp add: special_iff)
      then show ?thesis
        using ff IH [of "map_option (\<lambda>r. r @ [0xff]) ?r"] unfolding parse step
        by (cases "parse_string ?t") (simp_all add: option.map_comp o_def split: prod.splits)
    next
      case wrong'
      then have "?c = 0xff" using special by (simp add: special_iff)
      then show ?thesis using wrong' unfolding parse step by simp
    qed (unfold parse step, simp_all)
  qed
qed

lemma ReadString_cases:
  obtains (found) s rest where "src = string_bytes s @ rest"
      and "\<And>result. ReadString src result = Some (True, map_option (\<lambda>r. r @ s) result, rest)"
  | (refused) "\<nexists>s rest. src = string_bytes s @ rest" and "\<And>result. \<exists>r. ReadString src result = Some (False, r, src)"
proof (cases "parse_string src")
  case None
  then have "\<nexists>s rest. src = string_bytes s @ rest" using parse_string_bytes by fastforce
  moreover have "\<exists>r. ReadString src result = Some (False, r, src)" for result
    using read_loop_eq [of 0 src result] None by (simp add: ReadString_def ReadStringInternal_def)
  ultimately show thesis by (rule refused)
next
  case (Some x)
  then obtain s rest where x: "parse_string src = Some (s, rest)" by (cases x) auto
  have "ReadString src result = Some (True, map_option (\<lambda>r. r @ s) result, rest)" for result
    using read_loop_eq [of 0 src result] x by (simp add: ReadString_def ReadStringInternal_def)
  then show thesis using found parse_string_only [OF x] by blast
qed

lemma ReadString_append [simp]:
  "ReadString (string_bytes s @ rest) result = Some (True, map_option (\<lambda>r. r @ s) result, rest)"
  using read_loop_eq [of 0 "string_bytes s @ rest" result] by (simp add: ReadString_def ReadStringInternal_def)

text \<open>As a reader of the byte reader's kind.\<close>

definition string_reader :: "byte list reader" where
  "string_reader src = (case ReadString src (Some []) of Some (True, Some s, rest) \<Rightarrow> (Some s, rest) | _ \<Rightarrow> (None, src))"

interpretation ordered_string: stream_codec string_bytes string_reader "\<lambda>s. True"
proof unfold_locales
  fix cs s rest assume "string_reader cs = (Some s, rest)"
  then show "True \<and> cs = string_bytes s @ rest"
  proof (cases cs rule: ReadString_cases)
    case refused
    then obtain r where "ReadString cs (Some []) = Some (False, r, cs)" by blast
    with \<open>string_reader cs = (Some s, rest)\<close> show ?thesis by (simp add: string_reader_def)
  qed (simp add: string_reader_def)
next
  show "string_bytes s \<noteq> []" for s by (simp add: string_bytes_def)
qed (simp add: string_reader_def)

section \<open>Strings in order\<close>

text \<open>The order of \<open>std::string\<close> and of the keys of leveldb: unsigned bytes, lexicographically.\<close>

abbreviation bytes_less :: "byte list \<Rightarrow> byte list \<Rightarrow> bool" where
  "bytes_less \<equiv> ord_class.lexordp"

text \<open>
  An encoding that keeps the order, whatever follows: it can be a part of a key. The order of two
  keys is then decided by their first parts or, where these agree, by the rest.
\<close>

locale key_part =
  fixes enc :: "'a \<Rightarrow> byte list" and less :: "'a \<Rightarrow> 'a \<Rightarrow> bool"
  assumes enc_less: "less x y \<Longrightarrow> bytes_less (enc x @ r) (enc y @ s)"
    and total: "x = y \<or> less x y \<or> less y x"
begin

lemma less_iff: "bytes_less (enc x @ r) (enc y @ s) \<longleftrightarrow> less x y \<or> x = y \<and> bytes_less r s"
proof -
  have "\<not> bytes_less (enc x @ r) (enc y @ s)" if "less y x"
    using enc_less [OF that, of s r] by (auto dest: lexordp_antisym)
  moreover have "bytes_less (enc x @ r) (enc x @ s) \<longleftrightarrow> bytes_less r s"
    by (auto intro: lexordp_append_leftI dest: lexordp_append_leftD)
  ultimately show ?thesis using enc_less [of x y r s] enc_less [of x x r r] total [of x y] lexordp_irreflexive' by blast
qed

lemma less_irrefl: "\<not> less x x"
  using enc_less [of x x "[]" "[]"] lexordp_irreflexive' by blast

end

lemma string_bytes_Cons: "string_bytes (c # s) @ r = escape c @ string_bytes s @ r"
  by (simp add: string_bytes_def)

lemma byte_pos: "0 < c \<longleftrightarrow> c \<noteq> 0" for c :: byte
  by (simp add: word_neq_0_conv)

lemma byte_max: "c < 0xff \<longleftrightarrow> c \<noteq> 0xff" for c :: byte
  using unat_byte_less [of c] by (auto simp: word_less_nat_alt simp flip: unat_byte_255 simp del: unat_byte_less)

lemma escape_less: "x < y \<Longrightarrow> bytes_less (escape x @ r) (escape y @ r')"
  using byte_pos [of x] byte_pos [of y] byte_max [of x] byte_max [of y] by (auto simp: escape_def)

lemma string_bytes_less: "bytes_less s t \<Longrightarrow> bytes_less (string_bytes s @ r) (string_bytes t @ r')"
proof (induction rule: lexordp_induct)
  case (Nil y ys)
  show ?case using byte_pos [of y] by (auto simp: string_bytes_def escape_def)
next
  case (Cons x y xs ys)
  then show ?case unfolding string_bytes_Cons by (rule escape_less)
next
  case (Cons_eq x xs ys)
  then show ?case unfolding string_bytes_Cons by (intro lexordp_append_leftI)
qed

lemma string_below_infinity: "bytes_less (string_bytes s @ r) (0xff # 0xff # r')"
  using byte_max by (cases s) (auto simp: string_bytes_def escape_def)

definition string_or_infinity_bytes :: "byte list option \<Rightarrow> byte list" where
  "string_or_infinity_bytes x = (case x of Some s \<Rightarrow> string_bytes s | None \<Rightarrow> [0xff, 0xff])"

definition string_or_infinity_less :: "byte list option \<Rightarrow> byte list option \<Rightarrow> bool" where
  "string_or_infinity_less x y =
     (case x of None \<Rightarrow> False | Some s \<Rightarrow> (case y of None \<Rightarrow> True | Some t \<Rightarrow> bytes_less s t))"

interpretation string_part: key_part string_or_infinity_bytes string_or_infinity_less
proof unfold_locales
  fix x y :: "byte list option" and r s
  show "string_or_infinity_less x y \<Longrightarrow> bytes_less (string_or_infinity_bytes x @ r) (string_or_infinity_bytes y @ s)"
    by (auto simp: string_or_infinity_less_def string_or_infinity_bytes_def string_bytes_less string_below_infinity split: option.splits)
  show "x = y \<or> string_or_infinity_less x y \<or> string_or_infinity_less y x"
    using lexordp_linear by (cases x; cases y) (auto simp: string_or_infinity_less_def)
qed

lemma ReadInfinity_eq: "ReadInfinityInternal src = (case src of b # c # t \<Rightarrow> if b = 0xff \<and> c = 0xff then (True, t) else (False, src) | _ \<Rightarrow> (False, src))"
  by (auto simp: ReadInfinityInternal_def ordered_constants split: list.split)

lemma string_bytes_not_infinity: "string_bytes s @ r \<noteq> 0xff # 0xff # t"
  by (cases s) (auto simp: string_bytes_def escape_def)

lemma ReadInfinity_string: "ReadInfinityInternal (string_bytes s @ r) = (False, string_bytes s @ r)"
  using string_bytes_not_infinity [of s r] by (auto simp: ReadInfinity_eq split: list.split)

text \<open>What \<open>ReadStringOrInfinity\<close> reads.\<close>

lemma ReadStringOrInfinity_bytes:
  "ReadStringOrInfinity (string_or_infinity_bytes x @ rest) (Some []) =
    Some (True, Some (case x of Some s \<Rightarrow> s | None \<Rightarrow> []), Some (x = None), rest)"
proof (cases x)
  case None
  then show ?thesis
    by (simp add: ReadStringOrInfinity_def ReadStringOrInfinityInternal_def string_or_infinity_bytes_def ReadInfinity_eq)
next
  case (Some s)
  then show ?thesis
    by (simp add: ReadStringOrInfinity_def ReadStringOrInfinityInternal_def string_or_infinity_bytes_def ReadInfinity_string)
qed

lemma ReadStringOrInfinity_only:
  assumes "ReadStringOrInfinity src (Some []) = Some (True, Some s, Some endless, rest)"
  shows "src = string_or_infinity_bytes (if endless then None else Some s) @ rest \<and> (endless \<longrightarrow> s = [])"
proof (cases "ReadInfinityInternal src")
  case (Pair found src')
  show ?thesis
  proof (cases found)
    case True
    with assms Pair show ?thesis
      by (auto simp: ReadStringOrInfinity_def ReadStringOrInfinityInternal_def string_or_infinity_bytes_def ReadInfinity_eq
        split: list.splits if_splits)
  next
    case False
    then have src: "src' = src" using Pair by (auto simp: ReadInfinity_eq split: list.splits if_splits)
    show ?thesis
    proof (cases src rule: ReadString_cases)
      case (found s' rest')
      with assms Pair False src show ?thesis
        by (simp add: ReadStringOrInfinity_def ReadStringOrInfinityInternal_def string_or_infinity_bytes_def)
    next
      case refused
      then obtain r where "ReadString src (Some []) = Some (False, r, src)" by blast
      with assms Pair False src show ?thesis
        by (simp add: ReadStringOrInfinity_def ReadStringOrInfinityInternal_def)
    qed
  qed
qed

end
