(* ===== verification/OrderedNum.thy ===== *)
theory OrderedNum
  imports OrderedString
begin

text \<open>
  The numbers of Firestore's ordered encoding (\<open>util/ordered_code.cc\<close>): unsigned ones with a length
  byte, signed ones with a header whose bits count the bytes. The functions are shown to write and
  read a form given by arithmetic on natural numbers.
\<close>

section \<open>Unsigned numbers\<close>

definition OrderedNumLength :: "uint64 \<Rightarrow> nat option" where
  "OrderedNumLength val = do { lg \<leftarrow> Log2Floor64 val; Some (nat (lg + 1 + 7) div 8) }"

text \<open>Nine bytes at offset \<open>p\<close> of \<open>src\<close> are appended, and those beyond the first \<open>n\<close> erased again.\<close>

definition AppendUpto9 :: "byte list \<Rightarrow> byte list \<Rightarrow> nat \<Rightarrow> nat \<Rightarrow> byte list option" where
  "AppendUpto9 dst src p n = do {
     dst \<leftarrow> AppendBytes dst src p 9;
     let extra = 9 - n;
     Some (take (length dst - extra) dst)
   }"

text \<open>\<open>buf\<close> is what the local buffer of 17 bytes holds before it is written.\<close>

definition WriteNumIncreasing :: "byte list \<Rightarrow> byte list \<Rightarrow> uint64 \<Rightarrow> byte list option" where
  "WriteNumIncreasing buf dest val = do {
     buf \<leftarrow> UNALIGNED_STORE64 buf 1 (ghtonll val);
     length \<leftarrow> OrderedNumLength val;
     let start = 9 - length - 1;
     AppendUpto9 dest (buf[start := word_of_nat length]) start (length + 1)
   }"

text \<open>
  The readers of numbers return the number (\<open>None\<close>: the code returns false) and what is left of \<open>src\<close>;
  the number is stored if \<open>result\<close> is not null. A \<open>char\<close> is signed.
\<close>

definition ReadNumIncreasing :: "byte list \<Rightarrow> (uint64 option \<times> byte list) option" where
  "ReadNumIncreasing src =
     (if src = [] then Some (None, src)
      else let len = scast (src ! 0) :: uint64 in do {
        HARD_ASSERT (0 = len \<or> length src = 1 \<or> src ! 1 \<noteq> 0);
        if length src < unat (len + 1) \<or> 8 < len then Some (None, src)
        else
          let tmp = foldl (\<lambda>tmp b. push_bit 8 tmp OR ucast b) 0 (take (unat len) (drop 1 src))
          in Some (Some tmp, drop (unat (len + 1)) src)
      })"

section \<open>Signed numbers\<close>

definition kMaxSigned64Length :: nat where "kMaxSigned64Length = 10"

definition kLengthToHeaderBits :: "(byte \<times> byte) list" where
  "kLengthToHeaderBits =
     [(0, 0), (0x80, 0), (0xc0, 0), (0xe0, 0),
      (0xf0, 0), (0xf8, 0), (0xfc, 0), (0xfe, 0),
      (0xff, 0), (0xff, 0x80), (0xff, 0xc0)]"

definition kLengthToMask :: "uint64 list" where
  "kLengthToMask =
     [0, 0x80, 0xc000, 0xe00000, 0xf0000000, 0xf800000000, 0xfc0000000000,
      0xfe000000000000, 0xff00000000000000, 0x8000000000000000, 0]"

definition kBitsToLength :: "nat list" where
  "kBitsToLength =
     [1, 1, 1, 1, 1, 1, 1, 2, 2, 2, 2, 2, 2, 2, 3, 3, 3, 3, 3, 3, 3, 4,
      4, 4, 4, 4, 4, 4, 5, 5, 5, 5, 5, 5, 5, 6, 6, 6, 6, 6, 6, 6, 7, 7,
      7, 7, 7, 7, 7, 8, 8, 8, 8, 8, 8, 8, 9, 9, 9, 9, 9, 9, 9, 10]"

text \<open>An access to a table.\<close>

definition table_at :: "'a list \<Rightarrow> nat \<Rightarrow> 'a option" where
  "table_at t i = (if i < length t then Some (t ! i) else None)"

definition SignedEncodingLength :: "uint64 \<Rightarrow> nat option" where
  "SignedEncodingLength n = do {
     l \<leftarrow> Log2Floor64 (if n <s 0 then NOT n else n);
     table_at kBitsToLength (nat (l + 1))
   }"

definition SignedEncodingLengthPositive :: "uint64 \<Rightarrow> nat option" where
  "SignedEncodingLengthPositive n = do {
     l \<leftarrow> Log2FloorNonZero64 n;
     table_at kBitsToLength (nat (l + 1))
   }"

text \<open>An \<open>int64_t\<close> is a word that comparisons read as signed.\<close>

definition WriteSignedNumIncreasing :: "byte list \<Rightarrow> uint64 \<Rightarrow> byte list option" where
  "WriteSignedNumIncreasing dest val =
     (let x = if val <s 0 then NOT val else val in
      if x <s 64 then Some (dest @ [ucast (scast (fst (kLengthToHeaderBits ! 1)) XOR val)])
      else let sign_byte = if val <s 0 then 0xff else 0 in do {
        buf \<leftarrow> UNALIGNED_STORE64 ([sign_byte, sign_byte] @ replicate 8 0) 2 (ghtonll val);
        HARD_ASSERT (length buf = kMaxSigned64Length);
        len \<leftarrow> SignedEncodingLengthPositive x;
        HARD_ASSERT (2 \<le> len);
        (h0, h1) \<leftarrow> table_at kLengthToHeaderBits len;
        let begin = length buf - len;
        let buf = buf[begin := buf ! begin XOR h0];
        let buf = buf[begin + 1 := buf ! (begin + 1) XOR h1];
        AppendBytes dest buf begin len
      })"

text \<open>
  The end of \<open>ReadSignedNumIncreasing\<close>, its branches for encodings of eight bytes or more, and the
  choice of a branch by the first bytes, read through the mask of the sign.
\<close>

definition finish_signed :: "byte list \<Rightarrow> nat \<Rightarrow> uint64 \<Rightarrow> (uint64 option \<times> byte list) option" where
  "finish_signed src len x = do {
     mask \<leftarrow> table_at kLengthToMask len;
     let x = x XOR mask;
     l \<leftarrow> SignedEncodingLength x;
     HARD_ASSERT (len = l);
     Some (Some x, drop len src)
   }"

definition read_long :: "byte list \<Rightarrow> nat \<Rightarrow> (uint64 option \<times> byte list) option" where
  "read_long src len =
     (if length src < len then Some (None, src)
      else do { v \<leftarrow> UNALIGNED_LOAD64 src (len - 8); finish_signed src len (gntohll v) })"

definition read_masked :: "uint64 \<Rightarrow> byte list \<Rightarrow> (uint64 option \<times> byte list) option" where
  "read_masked xor_mask src =
     (let first_byte = ucast (scast (src ! 0) XOR (xor_mask AND 0xff)) :: byte in
      if first_byte \<noteq> 0xff then do {
        l \<leftarrow> Log2FloorNonZero (ucast (first_byte XOR 0xff));
        let len = nat (7 - l);
        if length src < len then Some (None, src)
        else finish_signed src len (foldl (\<lambda>x b. push_bit 8 x OR ucast b) xor_mask (take len src))
      }
      else if length src < 8 then Some (None, src)
      else
        let second_byte = ucast (scast (src ! 1) XOR (xor_mask AND 0xff)) :: byte in
        if 0x80 \<le> second_byte then
          if second_byte < 0xc0 then read_long src 9
          else
            let third_byte = ucast (scast (src ! 2) XOR (xor_mask AND 0xff)) :: byte in
            if second_byte = 0xc0 \<and> third_byte < 0x80 then read_long src 10
            else Some (None, src)
        else read_long src 8)"

definition ReadSignedNumIncreasing :: "byte list \<Rightarrow> (uint64 option \<times> byte list) option" where
  "ReadSignedNumIncreasing src =
     (if src = [] then Some (None, src)
      else read_masked (if src ! 0 AND 0x80 = 0 then NOT 0 else 0) src)"

section \<open>Bytes that differ\<close>

text \<open>The first difference of two strings lies inside both.\<close>

definition differs_below :: "byte list \<Rightarrow> byte list \<Rightarrow> bool" where
  "differs_below xs ys \<longleftrightarrow> (\<exists>us a b vs ws. a < b \<and> xs = us @ a # vs \<and> ys = us @ b # ws)"

lemma differs_below_append: "differs_below xs ys \<Longrightarrow> bytes_less (xs @ r) (ys @ s)"
  by (auto simp: differs_below_def intro: lexordp_append_left_rightI)

lemma differs_below_Cons: "a < b \<Longrightarrow> differs_below (a # xs) (b # ys)"
  unfolding differs_below_def by (metis append_Nil)

lemma differs_below_Cons_eq: "differs_below xs ys \<Longrightarrow> differs_below (a # xs) (a # ys)"
  unfolding differs_below_def by (metis append_Cons)

lemma differs_below_extend: "differs_below xs ys \<Longrightarrow> differs_below (xs @ r) (ys @ s)"
  unfolding differs_below_def by (metis append_Cons append_assoc)

lemma unat_not_byte: "unat (NOT b) = 255 - unat b" for b :: byte
  using unat_not [of b] by simp

lemma not_byte_less: "NOT a < NOT b \<longleftrightarrow> b < a" for a :: byte
  using unat_byte_less [of a] unat_byte_less [of b] by (auto simp: word_less_nat_alt unat_not_byte simp del: unat_byte_less)

lemma differs_below_not: "differs_below xs ys \<Longrightarrow> differs_below (map NOT ys) (map NOT xs)"
proof -
  assume "differs_below xs ys"
  then obtain us a b vs ws where *: "a < b" "xs = us @ a # vs" "ys = us @ b # ws"
    unfolding differs_below_def by blast
  then have "NOT b < NOT a" by (simp add: not_byte_less)
  moreover have "map NOT ys = map NOT us @ NOT b # map NOT ws" "map NOT xs = map NOT us @ NOT a # map NOT vs"
    by (simp_all add: *)
  ultimately show ?thesis unfolding differs_below_def by blast
qed

lemma be_bytes_differ:
  "x < y \<Longrightarrow> y < 256 ^ n \<Longrightarrow> differs_below (be_bytes n x) (be_bytes n y)"
proof (induction n arbitrary: x y)
  case (Suc n)
  have le: "x div 256 ^ n \<le> y div 256 ^ n" using Suc.prems(1) by (intro div_le_mono) simp
  have small: "y div 256 ^ n < 256" using Suc.prems(2) by (simp add: div_less_iff_less_mult mult.commute)
  show ?case
  proof (cases "x div 256 ^ n = y div 256 ^ n")
    case True
    then have "x mod 256 ^ n < y mod 256 ^ n"
      using Suc.prems(1) by (metis add_less_cancel_left div_mult_mod_eq)
    then have "differs_below (be_bytes n (x mod 256 ^ n)) (be_bytes n (y mod 256 ^ n))"
      by (intro Suc.IH) simp_all
    then show ?thesis
      using True be_bytes_mod [of n x] be_bytes_mod [of n y] unfolding be_bytes_Cons by (simp add: differs_below_Cons_eq)
  next
    case False
    then have "(word_of_nat (x div 256 ^ n) :: byte) < word_of_nat (y div 256 ^ n)"
      using le small by (simp add: word_less_nat_alt unat_of_nat take_bit_eq_mod)
    then show ?thesis unfolding be_bytes_Cons by (rule differs_below_Cons)
  qed
qed simp

section \<open>What the unsigned functions write and read\<close>

definition num_length :: "nat \<Rightarrow> nat" where
  "num_length v = (if v = 0 then 0 else base_len 256 v)"

definition num_bytes :: "uint64 \<Rightarrow> byte list" where
  "num_bytes v = word_of_nat (num_length (unat v)) # be_bytes (num_length (unat v)) (unat v)"

lemma top_bit_bounds:
  fixes n :: "'a::len word"
  assumes "top_bit n k"
  shows "2 ^ k \<le> unat n \<and> unat n < 2 ^ Suc k"
proof -
  have "top_bit (drop_bit k n) 0" using assms by (auto simp: top_bit_def bit_drop_bit_eq)
  then have "drop_bit k n = 1" by (rule top_bit_0)
  then have "unat n div 2 ^ k = 1" using unat_drop [of k n] by simp
  then have "unat n = 2 ^ k + unat n mod 2 ^ k" by (metis div_mult_mod_eq mult_1)
  moreover have "unat n mod 2 ^ k < 2 ^ k" by simp
  ultimately show ?thesis unfolding power_Suc by linarith
qed

lemma top_bitI:
  fixes n :: "'a::len word"
  assumes "2 ^ k \<le> unat n" and "unat n < 2 ^ Suc k"
  shows "top_bit n k"
proof -
  have "n \<noteq> 0" using assms(1) by auto
  then obtain j where j: "top_bit n j" using top_bit_exists by blast
  then have "2 ^ j \<le> unat n" "unat n < 2 ^ Suc j" using top_bit_bounds by auto
  then have "(2 :: nat) ^ k < 2 ^ Suc j" "(2 :: nat) ^ j < 2 ^ Suc k" using assms by linarith+
  then have "k < Suc j" "j < Suc k" using power_strict_increasing_iff [of "2 :: nat"] by (auto simp del: power_Suc)
  with j show ?thesis by (simp add: less_Suc_eq_le order_antisym)
qed

lemma num_length_bound: "v < 256 ^ num_length v" "0 < num_length v \<Longrightarrow> 256 ^ (num_length v - 1) \<le> v"
  using base_len_bound [of 256 v] by (auto simp: num_length_def split: if_splits)

lemma num_length_8: "num_length (unat (v :: uint64)) \<le> 8"
proof -
  have "unat v < 256 ^ 8" using unsigned_less [of v, where ?'a = nat] by simp
  then show ?thesis by (simp add: num_length_def base_len_le)
qed

lemma num_length_unique: "0 < n \<Longrightarrow> v < 256 ^ n \<Longrightarrow> 256 ^ (n - 1) \<le> v \<Longrightarrow> num_length v = n"
  using base_len_unique [of 256 n v] by (auto simp: num_length_def)

lemma OrderedNumLength_eq: "OrderedNumLength v = Some (num_length (unat v))"
proof (cases "v = 0")
  case False
  then obtain k where k: "top_bit v k" using top_bit_exists by blast
  note b = top_bit_bounds [OF k]
  have "num_length (unat v) = Suc (k div 8)"
  proof (rule num_length_unique)
    have "(2 :: nat) ^ Suc k \<le> 2 ^ (8 * Suc (k div 8))" by (rule power_increasing) auto
    also have "\<dots> = 256 ^ Suc (k div 8)" by (simp only: power_mult) simp
    finally show "unat v < 256 ^ Suc (k div 8)" using b by linarith
    have "(256 :: nat) ^ (Suc (k div 8) - 1) = 2 ^ (8 * (k div 8))" by (simp only: power_mult) simp
    also have "\<dots> \<le> 2 ^ k" by (rule power_increasing) auto
    finally show "256 ^ (Suc (k div 8) - 1) \<le> unat v" using b by linarith
  qed simp
  moreover have "nat (int k + 1 + 7) div 8 = Suc (k div 8)" by (simp add: nat_add_distrib)
  ultimately show ?thesis using k by (simp add: OrderedNumLength_def Log2_top)
qed (simp add: OrderedNumLength_def Log2Floor64_def num_length_def)

lemma drop_be_bytes: "m \<le> n \<Longrightarrow> drop (n - m) (be_bytes n v) = be_bytes m v"
  using be_bytes_split [of "n - m" m v] by simp

lemma drop_update: "n < length xs \<Longrightarrow> drop n (xs[n := x]) = x # drop (Suc n) xs"
  by (rule nth_equalityI) (auto simp: nth_Cons split: nat.split)

lemma WriteNum_eq:
  assumes "length buf = 17"
  shows "WriteNumIncreasing buf dest v = Some (dest @ num_bytes v)"
proof -
  let ?l = "num_length (unat v)"
  have l: "?l \<le> 8" by (rule num_length_8)
  let ?buf = "take 1 buf @ be_bytes 8 (unat v) @ drop 9 buf"
  have 1: "UNALIGNED_STORE64 buf 1 (ghtonll v) = Some ?buf"
    using assms by (simp add: UNALIGNED_STORE64_def image_ghtonll)
  have "drop (8 - ?l) (?buf[8 - ?l := word_of_nat ?l]) = word_of_nat ?l # drop (Suc (8 - ?l)) ?buf"
    using assms by (intro drop_update) simp
  also have "drop (Suc (8 - ?l)) ?buf = be_bytes ?l (unat v) @ drop 9 buf"
  proof -
    have "take 1 buf = [hd buf]" using assms by (cases buf) auto
    then show ?thesis by (simp only: append_Cons append_Nil drop_Suc_Cons drop_append drop_be_bytes [OF l]) simp
  qed
  finally have 2: "drop (8 - ?l) (?buf[8 - ?l := word_of_nat ?l]) = num_bytes v @ drop 9 buf"
    by (simp add: num_bytes_def)
  have "length (num_bytes v) = Suc ?l" by (simp add: num_bytes_def)
  then have "take 9 (num_bytes v @ drop 9 buf) = num_bytes v @ take (8 - ?l) (drop 9 buf)"
    using l by simp
  moreover have "8 - ?l + 9 \<le> length (?buf[8 - ?l := word_of_nat ?l])" using assms l by simp
  ultimately have "AppendBytes dest (?buf[8 - ?l := word_of_nat ?l]) (8 - ?l) 9 = Some (dest @ num_bytes v @ take (8 - ?l) (drop 9 buf))"
    unfolding AppendBytes_def 2 by (simp only: if_True)
  then have "AppendUpto9 dest (?buf[8 - ?l := word_of_nat ?l]) (8 - ?l) (?l + 1) = Some (dest @ num_bytes v)"
    using assms l \<open>length (num_bytes v) = Suc ?l\<close> by (simp add: AppendUpto9_def del: One_nat_def)
  then show ?thesis
    by (simp add: WriteNumIncreasing_def 1 OrderedNumLength_eq Let_def del: One_nat_def)
qed

lemma num_length_mono: "v \<le> w \<Longrightarrow> num_length v \<le> num_length w"
proof (rule ccontr)
  assume "v \<le> w" and "\<not> num_length v \<le> num_length w"
  then have "(256 :: nat) ^ num_length w \<le> 256 ^ (num_length v - 1)" by (intro power_increasing) auto
  then show False
    using num_length_bound(2) [of v] num_length_bound(1) [of w] \<open>v \<le> w\<close> \<open>\<not> num_length v \<le> num_length w\<close> by linarith
qed

lemma num_bytes_differ: "v < w \<Longrightarrow> differs_below (num_bytes v) (num_bytes w)"
proof -
  assume "v < w"
  then have less: "unat v < unat w" by (simp add: word_less_nat_alt)
  show ?thesis
  proof (cases "num_length (unat v) = num_length (unat w)")
    case True
    then show ?thesis
      using be_bytes_differ [OF less num_length_bound(1)] by (simp add: num_bytes_def differs_below_Cons_eq)
  next
    case False
    then have "num_length (unat v) < num_length (unat w)" using num_length_mono less by (simp add: le_neq_implies_less)
    then have "(word_of_nat (num_length (unat v)) :: byte) < word_of_nat (num_length (unat w))"
      using num_length_8 [of w] by (simp add: word_less_nat_alt unat_of_nat take_bit_eq_mod)
    then show ?thesis unfolding num_bytes_def by (rule differs_below_Cons)
  qed
qed

lemma foldl_be_value: "foldl (\<lambda>x b. push_bit 8 x OR ucast b) 0 bs = be_value bs"
  by (simp add: be_value_def)

lemma word_be_value: "length bs \<le> 8 \<Longrightarrow> be_value bs = word_of_nat (be_nat bs)"
  by (simp add: word_unat_eq_iff unat_be_value unat_of_nat take_bit_eq_mod)

text \<open>The length byte is read as a signed character.\<close>

lemma unat_scast_small: "unat b < 128 \<Longrightarrow> unat (scast (b :: byte) :: uint64) = unat b"
proof -
  assume "unat b < 128"
  then have "\<not> bit b 7" by (simp add: bit_7)
  then have "(scast b :: uint64) = ucast b"
    by (intro bit_word_eqI) (auto simp: bit_simps min_def not_less le_less dest: bit_imp_le_length)
  then show ?thesis by simp
qed

lemma bit_imp_ge: "bit w n \<Longrightarrow> 2 ^ n \<le> unat w" for w :: "'a::len word"
proof (rule ccontr)
  assume "bit w n" and "\<not> 2 ^ n \<le> unat w"
  then have "take_bit n w = w" by (metis not_le take_bit_nat_eq_self unsigned_take_bit_eq unsigned_word_eqI)
  with \<open>bit w n\<close> show False by (metis bit_take_bit_iff less_irrefl)
qed

lemma unat_scast_large: "128 \<le> unat b \<Longrightarrow> 8 < unat (scast (b :: byte) :: uint64)"
proof -
  assume "128 \<le> unat b"
  then have "bit b 7" by (simp add: bit_7)
  then have "bit (scast b :: uint64) 8" by (simp add: bit_simps)
  then show ?thesis using bit_imp_ge [of "scast b :: uint64" 8] by simp
qed

lemma scast_byte_0: "(scast (b :: byte) :: uint64) = 0 \<longleftrightarrow> b = 0"
proof (cases "unat b < 128")
  case True
  then show ?thesis using unat_scast_small [OF True] by (metis unsigned_0 unsigned_word_eqI scast_0)
next
  case False
  then have "8 < unat (scast b :: uint64)" by (intro unat_scast_large) simp
  then have "(scast b :: uint64) \<noteq> 0" by auto
  moreover have "b \<noteq> 0" using False by auto
  ultimately show ?thesis by simp
qed

lemma ReadNum_eq:
  "ReadNumIncreasing src =
    (case src of [] \<Rightarrow> Some (None, src)
     | b # t \<Rightarrow>
       if b \<noteq> 0 \<and> t \<noteq> [] \<and> hd t = 0 then None
       else if unat b \<le> 8 \<and> unat b \<le> length t
       then Some (Some (word_of_nat (be_nat (take (unat b) t))), drop (unat b) t) else Some (None, src))"
proof (cases src)
  case (Cons b t)
  have guard: "0 = (scast b :: uint64) \<or> length src = 1 \<or> src ! 1 \<noteq> 0 \<longleftrightarrow> \<not> (b \<noteq> 0 \<and> t \<noteq> [] \<and> hd t = 0)"
    using scast_byte_0 [of b] by (cases t) (auto simp: Cons)
  show ?thesis
  proof (cases "unat b \<le> 8")
    case True
    then have u: "unat (scast b :: uint64) = unat b" by (simp add: unat_scast_small)
    then have "unat ((scast b :: uint64) + 1) = unat b + 1" using True by (simp add: unat_word_ariths)
    moreover have "\<not> 8 < (scast b :: uint64)" using True u by (simp add: word_less_nat_alt)
    ultimately show ?thesis
      using True u guard
      by (auto simp: ReadNumIncreasing_def Cons Let_def foldl_be_value word_be_value)
  next
    case False
    then have "8 < (scast b :: uint64)"
      using unat_scast_small [of b] unat_scast_large [of b] by (cases "unat b < 128") (auto simp: word_less_nat_alt)
    then show ?thesis using False guard by (auto simp: ReadNumIncreasing_def Cons Let_def)
  qed
qed (simp add: ReadNumIncreasing_def)

lemma be_nat_num: "be_nat (be_bytes (num_length v) v) = v"
  using num_length_bound(1) [of v] by (simp add: be_nat_be_bytes)

lemma num_bytes_head:
  assumes "num_length v = Suc l"
  shows "hd (be_bytes (Suc l) v @ rest) \<noteq> 0"
proof -
  have "v div 256 ^ l < 256" "0 < v div 256 ^ l"
    using num_length_bound [of v] assms by (simp_all add: div_less_iff_less_mult div_greater_zero_iff mult.commute)
  moreover from this have "unat (word_of_nat (v div 256 ^ l) :: byte) = v div 256 ^ l" by (intro unat_small) simp
  ultimately have "(word_of_nat (v div 256 ^ l) :: byte) \<noteq> 0" by (metis less_irrefl unat_0)
  then show ?thesis by (simp add: be_bytes_Cons del: be_bytes.simps)
qed

lemma ReadNum_bytes: "ReadNumIncreasing (num_bytes v @ rest) = Some (Some v, rest)"
proof -
  let ?l = "num_length (unat v)"
  have l: "unat (word_of_nat ?l :: byte) = ?l" using num_length_8 [of v] by (intro unat_small) simp
  have "\<not> (hd (be_bytes ?l (unat v) @ rest) = 0 \<and> ?l \<noteq> 0)"
    using num_bytes_head [of "unat v"] by (cases ?l) (auto simp del: be_bytes.simps)
  moreover have "(word_of_nat ?l :: byte) = 0 \<longleftrightarrow> ?l = 0" by (cases "?l = 0") (use l in auto)
  ultimately show ?thesis
    using l num_length_8 [of v] by (auto simp: ReadNum_eq num_bytes_def be_nat_num simp del: be_bytes.simps)
qed

lemma ReadNum_only:
  assumes "ReadNumIncreasing src = Some (Some v, rest)"
  shows "src = num_bytes v @ rest"
proof (cases src)
  case (Cons b t)
  let ?d = "take (unat b) t"
  from assms have *: "\<not> (b \<noteq> 0 \<and> t \<noteq> [] \<and> hd t = 0)" "unat b \<le> 8" "unat b \<le> length t" "v = word_of_nat (be_nat ?d)"
    "rest = drop (unat b) t"
    by (auto simp: ReadNum_eq Cons split: if_splits)
  then have len: "length ?d = unat b" by simp
  have "be_nat ?d < 256 ^ unat b" using be_nat_less [of ?d] len by simp
  also have "\<dots> \<le> 256 ^ 8" using *(2) by (intro power_increasing) auto
  finally have v: "unat v = be_nat ?d" using *(4) by (simp add: unat_small)
  have "num_length (be_nat ?d) = unat b"
  proof (cases ?d)
    case Nil
    with len have "unat b = 0" by simp
    then show ?thesis by (simp add: num_length_def)
  next
    case (Cons c u)
    then have "unat b \<noteq> 0" "hd t = c" "t \<noteq> []" by (cases t; cases "unat b"; simp)+
    then have "c \<noteq> 0" using *(1) by auto
    then have "1 * 256 ^ length u \<le> unat c * 256 ^ length u" by (intro mult_le_mono1) (simp add: Suc_leI unat_gt_0)
    then have "256 ^ length u \<le> be_nat ?d" unfolding Cons be_nat_Cons by linarith
    moreover have "unat b = Suc (length u)" using len Cons by simp
    ultimately show ?thesis
      using len be_nat_less [of ?d] by (intro num_length_unique) simp_all
  qed
  then have "be_bytes (num_length (unat v)) (unat v) = ?d"
    using be_bytes_be_nat [of ?d] len v by simp
  then show ?thesis
    using v \<open>num_length (be_nat ?d) = unat b\<close> *(5) Cons by (simp add: num_bytes_def)
qed (use assms in \<open>simp add: ReadNum_eq\<close>)

lemma ReadNum_throws: "ReadNumIncreasing src = None \<longleftrightarrow> (\<exists>b t. src = b # 0 # t \<and> b \<noteq> 0)"
  by (cases src; cases "tl src") (auto simp: ReadNum_eq)

section \<open>The form of signed numbers\<close>

text \<open>A non-negative number with \<open>n\<close> bits takes \<open>n div 7 + 1\<close> bytes; as many bits in front are set.\<close>

definition signed_length :: "nat \<Rightarrow> nat" where
  "signed_length x = base_len 2 x div 7 + 1"

definition header :: "nat \<Rightarrow> nat" where
  "header l = 2 ^ (8 * l) - 2 ^ (7 * l)"

definition pos_bytes :: "nat \<Rightarrow> byte list" where
  "pos_bytes x = be_bytes (signed_length x) (x + header (signed_length x))"

text \<open>A negative number is the complement of a non-negative one.\<close>

definition signed_bytes :: "uint64 \<Rightarrow> byte list" where
  "signed_bytes v = (if v <s 0 then map NOT (pos_bytes (unat (NOT v))) else pos_bytes (unat v))"

lemma signed_length_bound:
  "x < 2 ^ (7 * signed_length x - 1)" "signed_length x \<noteq> 1 \<Longrightarrow> 2 ^ (7 * (signed_length x - 1) - 1) \<le> x"
proof -
  let ?b = "base_len 2 x"
  have b: "x < 2 ^ ?b" "?b = 1 \<or> 2 ^ (?b - 1) \<le> x" using base_len_bound [of 2 x] by simp_all
  have "(2 :: nat) ^ ?b \<le> 2 ^ (7 * signed_length x - 1)"
    by (rule power_increasing) (auto simp: signed_length_def)
  with b(1) show "x < 2 ^ (7 * signed_length x - 1)" by (rule order_less_le_trans)
  assume "signed_length x \<noteq> 1"
  then have "7 \<le> ?b" by (simp add: signed_length_def)
  moreover from this have "(2 :: nat) ^ (7 * (signed_length x - 1) - 1) \<le> 2 ^ (?b - 1)"
    by (intro power_increasing) (auto simp: signed_length_def)
  ultimately show "2 ^ (7 * (signed_length x - 1) - 1) \<le> x" using b(2) by linarith
qed

lemma signed_length_pos [simp]: "0 < signed_length x"
  by (simp add: signed_length_def)

lemma signed_length_le:
  assumes "x < 2 ^ (7 * l - 1)" and "0 < l"
  shows "signed_length x \<le> l"
proof (rule ccontr)
  assume "\<not> signed_length x \<le> l"
  then have "(2 :: nat) ^ (7 * l - 1) \<le> 2 ^ (7 * (signed_length x - 1) - 1)" "signed_length x \<noteq> 1"
    using assms(2) by (auto intro!: power_increasing)
  with signed_length_bound(2) [of x] assms(1) show False by linarith
qed

lemma signed_length_unique:
  assumes "0 < l" and "x < 2 ^ (7 * l - 1)" and "l = 1 \<or> 2 ^ (7 * (l - 1) - 1) \<le> x"
  shows "signed_length x = l"
proof (rule antisym)
  show "l \<le> signed_length x"
  proof (rule ccontr)
    assume *: "\<not> l \<le> signed_length x"
    then have "(2 :: nat) ^ (7 * signed_length x - 1) \<le> 2 ^ (7 * (l - 1) - 1)" by (auto intro!: power_increasing)
    moreover have "l \<noteq> 1" using * signed_length_pos [of x] by linarith
    ultimately show False using signed_length_bound(1) [of x] assms(3) by linarith
  qed
qed (rule signed_length_le [OF assms(2,1)])

lemma signed_length_mono: "x \<le> y \<Longrightarrow> signed_length x \<le> signed_length y"
  using signed_length_bound(1) [of y] by (intro signed_length_le) auto

lemma header_bound: "0 < l \<Longrightarrow> x < 2 ^ (7 * l - 1) \<Longrightarrow> x + header l + 2 ^ (7 * l - 1) < 2 ^ (8 * l)"
proof -
  assume "0 < l" "x < 2 ^ (7 * l - 1)"
  moreover have "(2 :: nat) ^ (7 * l) = 2 * 2 ^ (7 * l - 1)"
  proof -
    have "7 * l = Suc (7 * l - 1)" using \<open>0 < l\<close> by simp
    then show ?thesis by (metis power_Suc)
  qed
  moreover have "(2 :: nat) ^ (7 * l) \<le> 2 ^ (8 * l)" by (rule power_increasing) auto
  ultimately show ?thesis unfolding header_def by linarith
qed

lemma power_256: "(256 :: nat) ^ n = 2 ^ (8 * n)"
  by (simp only: power_mult) simp

lemma pos_bytes_differ:
  assumes "x < y"
  shows "differs_below (pos_bytes x) (pos_bytes y)"
proof -
  let ?l = "signed_length x" and ?m = "signed_length y"
  have lm: "?l \<le> ?m" using signed_length_mono assms by simp
  have x: "x + header ?l + 2 ^ (7 * ?l - 1) < 2 ^ (8 * ?l)"
    by (rule header_bound [OF signed_length_pos signed_length_bound(1)])
  have y: "y + header ?m < 256 ^ ?m"
    using header_bound [OF signed_length_pos signed_length_bound(1), of y] unfolding power_256 by linarith
  show ?thesis
  proof (cases "?l = ?m")
    case True
    then show ?thesis unfolding pos_bytes_def using assms y by (simp only: True) (rule be_bytes_differ, auto)
  next
    case False
    let ?d = "?m - ?l"
    have m: "?m = ?l + ?d" "1 \<le> ?d" using lm False by auto
    have "(x + header ?l + 1) * 256 ^ ?d \<le> (2 ^ (8 * ?l) - 2 ^ (7 * ?l - 1)) * 256 ^ ?d"
      using x by (intro mult_le_mono1) linarith
    also have "\<dots> = 2 ^ (8 * ?m) - 2 ^ (7 * ?l - 1) * 2 ^ (8 * ?d)"
    proof -
      have "8 * ?m = 8 * ?l + 8 * ?d" using m(1) by simp
      then show ?thesis by (simp only: diff_mult_distrib power_add power_256)
    qed
    also have "\<dots> \<le> header ?m"
    proof -
      have "(2 :: nat) ^ (7 * ?m) \<le> 2 ^ (7 * ?l - 1 + 8 * ?d)" using m by (intro power_increasing) auto
      then show ?thesis unfolding header_def by (intro diff_le_mono2) (simp add: power_add)
    qed
    finally have "(x + header ?l + 1) * 256 ^ ?d \<le> y + header ?m" by simp
    then have less: "x + header ?l < (y + header ?m) div 256 ^ ?d"
      by (simp add: less_eq_div_iff_mult_less_eq Suc_le_eq [symmetric])
    have "(y + header ?m) div 256 ^ ?d < 256 ^ ?l"
      using y m(1) by (simp add: div_less_iff_less_mult power_add [symmetric])
    then have "differs_below (be_bytes ?l (x + header ?l)) (be_bytes ?l ((y + header ?m) div 256 ^ ?d))"
      by (rule be_bytes_differ [OF less])
    moreover have "pos_bytes y = be_bytes ?l ((y + header ?m) div 256 ^ ?d) @ be_bytes ?d (y + header ?m)"
      using be_bytes_split [of ?l ?d "y + header ?m"] m(1) unfolding pos_bytes_def by simp
    ultimately show ?thesis
      using differs_below_extend [of _ _ "[]" "be_bytes ?d (y + header ?m)"] unfolding pos_bytes_def by simp
  qed
qed

section \<open>The signed writer\<close>

text \<open>The sign bit decides; complementing a number changes it.\<close>

lemma sless_0: "v <s 0 \<longleftrightarrow> \<not> unat v < 2 ^ 63" for v :: uint64
  using sint_nonneg_iff [of v] by (auto simp: word_sless_alt)

lemma sless_0_not: "NOT v <s 0 \<longleftrightarrow> \<not> v <s 0" for v :: uint64
  using sint_not [of v] by (auto simp: word_sless_alt)

definition magnitude :: "uint64 \<Rightarrow> uint64" where
  "magnitude v = (if v <s 0 then NOT v else v)"

lemma magnitude_less: "unat (magnitude v) < 2 ^ 63"
  using sless_0 [of v] sless_0 [of "NOT v"] sless_0_not [of v] by (auto simp: magnitude_def)

lemma magnitude_not [simp]: "magnitude (NOT v) = magnitude v"
  by (auto simp: magnitude_def sless_0_not)

lemma sless_64: "unat x < 2 ^ 63 \<Longrightarrow> x <s 64 \<longleftrightarrow> unat x < 64" for x :: uint64
proof -
  assume "unat x < 2 ^ 63"
  then have "sint x = int (unat x)" by (rule sint_pos)
  moreover have "sint (64 :: uint64) = 64" by simp
  ultimately show ?thesis unfolding word_sless_alt by presburger
qed

lemma base_len_2_top: "top_bit (n :: 'a::len word) k \<Longrightarrow> base_len 2 (unat n) = Suc k"
  using top_bit_bounds [of n k] by (intro base_len_unique [symmetric]) simp_all

lemma kBitsToLength_eq: "i < 64 \<Longrightarrow> table_at kBitsToLength i = Some (i div 7 + 1)"
proof -
  have "\<forall>i \<in> set [0..<64]. table_at kBitsToLength i = Some (i div 7 + 1)" by code_simp
  then show "i < 64 \<Longrightarrow> table_at kBitsToLength i = Some (i div 7 + 1)" by simp
qed

lemma SignedEncodingLength_eq: "SignedEncodingLength v = Some (signed_length (unat (magnitude v)))"
proof (cases "magnitude v = 0")
  case True
  have "base_len 2 0 = 1" by (simp add: base_len.simps)
  with True show ?thesis
    by (simp add: SignedEncodingLength_def Log2Floor64_def kBitsToLength_eq signed_length_def flip: magnitude_def)
next
  case False
  then obtain k where k: "top_bit (magnitude v) k" using top_bit_exists by blast
  then have "(2 :: nat) ^ k < 2 ^ 63" using top_bit_bounds magnitude_less by (metis order_le_less_trans)
  then have "k < 63" by (rule power_less_imp_less_exp [rotated]) simp
  then show ?thesis
    using k by (simp add: SignedEncodingLength_def Log2_top kBitsToLength_eq signed_length_def base_len_2_top nat_add_distrib
      flip: magnitude_def)
qed

lemma SignedEncodingLengthPositive_eq:
  assumes "x \<noteq> 0" and "unat x < 2 ^ 63"
  shows "SignedEncodingLengthPositive x = Some (signed_length (unat x))"
proof -
  have "magnitude x = x" using assms(2) sless_0 by (simp add: magnitude_def)
  then have "SignedEncodingLength x = Some (signed_length (unat x))" by (simp add: SignedEncodingLength_eq)
  moreover obtain k where "top_bit x k" using top_bit_exists assms(1) by blast
  ultimately show ?thesis
    using \<open>magnitude x = x\<close> by (simp add: SignedEncodingLength_def SignedEncodingLengthPositive_def Log2_top flip: magnitude_def)
qed

text \<open>
  The ten bytes that the writer starts from, for a non-negative number, and what it makes of them.
\<close>

definition put_header :: "nat \<Rightarrow> byte list \<Rightarrow> byte list" where
  "put_header len buf =
     (let begin = length buf - len;
          buf = buf[begin := buf ! begin XOR fst (kLengthToHeaderBits ! len)];
          buf = buf[begin + 1 := buf ! (begin + 1) XOR snd (kLengthToHeaderBits ! len)]
      in drop begin buf)"

lemma put_header_not:
  assumes "2 \<le> len" and "len \<le> length buf"
  shows "put_header len (map NOT buf) = map NOT (put_header len buf)"
proof -
  have "length buf - len < length buf" "Suc (length buf - len) < length buf" using assms by linarith+
  moreover have "NOT b XOR h = NOT (b XOR h)" for b h :: byte by (rule bit_word_eqI) (auto simp: bit_simps)
  ultimately show ?thesis by (simp add: put_header_def Let_def map_update flip: drop_map)
qed

lemma put_header_split:
  assumes "2 \<le> len" and "len \<le> length buf" and "drop (length buf - len) buf = b # c # bs"
  shows "put_header len buf = (b XOR fst (kLengthToHeaderBits ! len)) # (c XOR snd (kLengthToHeaderBits ! len)) # bs"
proof -
  let ?p = "take (length buf - len) buf"
  have buf: "buf = ?p @ b # c # bs" using append_take_drop_id [of "length buf - len" buf] assms(3) by simp
  have "length ?p = length buf - len" by simp
  then obtain p where p: "buf = p @ b # c # bs" "length p = length buf - len" using buf by blast
  show ?thesis
    unfolding put_header_def Let_def p(2) [symmetric] unfolding p(1) by (simp add: nth_append list_update_append)
qed

lemma be_bytes_Suc_Suc:
  "be_bytes (Suc (Suc n)) v = word_of_nat (v div 256 ^ Suc n) # word_of_nat (v div 256 ^ n) # be_bytes n v"
  by (simp only: be_bytes_Cons)

text \<open>The header lies above the bits of the number.\<close>

lemma xor_push_bit:
  fixes s r :: "'a::len word"
  assumes "unat s < 2 ^ k"
  shows "s XOR push_bit k r = s + push_bit k r"
proof -
  have "take_bit k s = s" using assms by (metis take_bit_nat_eq_self unsigned_take_bit_eq unsigned_word_eqI)
  then have *: "bit s n \<Longrightarrow> n < k" for n by (metis bit_take_bit_iff)
  then have "s XOR push_bit k r = push_bit k r OR s" by (intro bit_word_eqI) (auto simp: bit_simps dest: *)
  then show ?thesis using push_or_plus [OF assms, of r] by (simp add: add.commute)
qed

lemma byte_xor: "q < 2 ^ k \<Longrightarrow> k \<le> 8 \<Longrightarrow> (word_of_nat q :: byte) XOR push_bit k r = word_of_nat q + push_bit k r"
proof -
  assume "q < 2 ^ k" "k \<le> 8"
  moreover from this have "(2 :: nat) ^ k \<le> 2 ^ 8" by (intro power_increasing) auto
  ultimately show ?thesis by (intro xor_push_bit) (simp add: unat_small)
qed

lemma be_bytes_header:
  "be_bytes (Suc (Suc n)) (x + h * 256 ^ n) =
    word_of_nat ((x div 256 ^ n + h) div 256) # word_of_nat (x div 256 ^ n + h) # be_bytes n x"
proof -
  have 1: "(x + h * 256 ^ n) div 256 ^ n = x div 256 ^ n + h" by simp
  have 2: "(x + h * 256 ^ n) div 256 ^ Suc n = (x div 256 ^ n + h) div 256"
    by (metis 1 div_mult2_eq power_Suc2)
  have "(x + h * 256 ^ n) mod 256 ^ n = x mod 256 ^ n" by simp
  then have 3: "be_bytes n (x + h * 256 ^ n) = be_bytes n x" using be_bytes_mod by metis
  show ?thesis unfolding be_bytes_Suc_Suc 1 2 3 ..
qed

lemma put_header_eq:
  assumes "header (Suc (Suc n)) = h * 256 ^ n" and "n \<le> 8" and "x < 2 ^ 64"
    and "(word_of_nat ((x div 256 ^ n + h) div 256) :: byte) =
      word_of_nat (x div 256 ^ n div 256) XOR fst (kLengthToHeaderBits ! Suc (Suc n))"
    and "(word_of_nat (x div 256 ^ n + h) :: byte) = word_of_nat (x div 256 ^ n) XOR snd (kLengthToHeaderBits ! Suc (Suc n))"
  shows "put_header (Suc (Suc n)) ([0, 0] @ be_bytes 8 x) = be_bytes (Suc (Suc n)) (x + header (Suc (Suc n)))"
proof -
  have "x div 256 ^ 8 = 0" using assms(3) by simp
  then have buf: "[0, 0] @ be_bytes 8 x = be_bytes (2 + 8) x"
    unfolding be_bytes_split by (simp add: numeral_2_eq_2)
  have "drop (length (be_bytes (2 + 8) x) - Suc (Suc n)) (be_bytes (2 + 8) x) = be_bytes (Suc (Suc n)) x"
    unfolding length_be_bytes by (rule drop_be_bytes) (use assms(2) in simp)
  then have "put_header (Suc (Suc n)) (be_bytes (2 + 8) x) =
    (word_of_nat (x div 256 ^ Suc n) XOR fst (kLengthToHeaderBits ! Suc (Suc n))) #
    (word_of_nat (x div 256 ^ n) XOR snd (kLengthToHeaderBits ! Suc (Suc n))) # be_bytes n x"
    unfolding be_bytes_Suc_Suc by (intro put_header_split) (use assms(2) in simp_all)
  moreover have "x div 256 ^ Suc n = x div 256 ^ n div 256" by (metis div_mult2_eq power_Suc2)
  ultimately show ?thesis unfolding buf assms(1) be_bytes_header assms(4,5) by simp
qed

lemma put_header_low:
  assumes "header (Suc (Suc n)) = h * 256 ^ Suc n" and "n \<le> 6" and "x div 256 ^ Suc n < 2 ^ k" and "k \<le> 8" and "x < 2 ^ 64"
    and "kLengthToHeaderBits ! Suc (Suc n) = (push_bit k r, 0)" and "(word_of_nat h :: byte) = push_bit k r"
  shows "put_header (Suc (Suc n)) ([0, 0] @ be_bytes 8 x) = be_bytes (Suc (Suc n)) (x + header (Suc (Suc n)))"
proof (rule put_header_eq)
  show "header (Suc (Suc n)) = h * 256 * 256 ^ n" using assms(1) by simp
  have "x div 256 ^ n div 256 = x div 256 ^ Suc n" by (metis div_mult2_eq power_Suc2)
  then show "(word_of_nat ((x div 256 ^ n + h * 256) div 256) :: byte) =
      word_of_nat (x div 256 ^ n div 256) XOR fst (kLengthToHeaderBits ! Suc (Suc n))"
    using byte_xor [OF assms(3,4), of r] assms(6,7) by simp
  show "(word_of_nat (x div 256 ^ n + h * 256) :: byte) = word_of_nat (x div 256 ^ n) XOR snd (kLengthToHeaderBits ! Suc (Suc n))"
  proof -
    have "(word_of_nat (h * 256) :: byte) = 0" by (simp add: word_of_nat_eq_0_iff del: of_nat_mult)
    then show ?thesis using assms(6) by (simp del: of_nat_mult)
  qed
qed (use assms(2,5) in simp_all)

lemma signed_length_10: "x < 2 ^ 63 \<Longrightarrow> signed_length x \<le> 10"
  by (rule signed_length_le) simp_all

lemma put_header_pos:
  assumes "x < 2 ^ 63" and "2 \<le> signed_length x"
  shows "put_header (signed_length x) ([0, 0] @ be_bytes 8 x) = pos_bytes x"
proof -
  note b = signed_length_bound(1) [of x]
  note defs = header_def kLengthToHeaderBits_def div_less_iff_less_mult
  consider "signed_length x = Suc (Suc 0)" | "signed_length x = Suc (Suc 1)" | "signed_length x = Suc (Suc 2)"
    | "signed_length x = Suc (Suc 3)" | "signed_length x = Suc (Suc 4)" | "signed_length x = Suc (Suc 5)"
    | "signed_length x = Suc (Suc 6)" | "signed_length x = Suc (Suc 7)" | "signed_length x = Suc (Suc 8)"
    using signed_length_10 [OF assms(1)] assms(2) by linarith
  then show ?thesis
  proof cases
    case 1
    show ?thesis unfolding pos_bytes_def 1
      by (rule put_header_low [where h = "0xc0" and k = 6 and r = 3]) (use 1 b assms(1) in \<open>simp_all add: defs\<close>)
  next
    case 2
    show ?thesis unfolding pos_bytes_def 2
      by (rule put_header_low [where h = "0xe0" and k = 5 and r = 7]) (use 2 b assms(1) in \<open>simp_all add: defs\<close>)
  next
    case 3
    show ?thesis unfolding pos_bytes_def 3
      by (rule put_header_low [where h = "0xf0" and k = 4 and r = 15]) (use 3 b assms(1) in \<open>simp_all add: defs\<close>)
  next
    case 4
    show ?thesis unfolding pos_bytes_def 4
      by (rule put_header_low [where h = "0xf8" and k = 3 and r = 31]) (use 4 b assms(1) in \<open>simp_all add: defs\<close>)
  next
    case 5
    show ?thesis unfolding pos_bytes_def 5
      by (rule put_header_low [where h = "0xfc" and k = 2 and r = 63]) (use 5 b assms(1) in \<open>simp_all add: defs\<close>)
  next
    case 6
    show ?thesis unfolding pos_bytes_def 6
      by (rule put_header_low [where h = "0xfe" and k = 1 and r = 127]) (use 6 b assms(1) in \<open>simp_all add: defs\<close>)
  next
    case 7
    show ?thesis unfolding pos_bytes_def 7
      by (rule put_header_low [where h = "0xff" and k = 0 and r = 255]) (use 7 b assms(1) in \<open>simp_all add: defs\<close>)
  next
    case 8
    then have t: "x div 256 ^ 7 < 64" using b by (simp add: div_less_iff_less_mult)
    then have q: "(x div 256 ^ 7 + 0xff80) div 256 = 255" "x div 256 ^ 7 div 256 = 0" by (auto intro: div_nat_eqI)
    show ?thesis unfolding pos_bytes_def 8
    proof (rule put_header_eq [of _ "0xff80"])
      show "word_of_nat ((x div 256 ^ 7 + 0xff80) div 256) =
          word_of_nat (x div 256 ^ 7 div 256) XOR fst (kLengthToHeaderBits ! Suc (Suc 7))"
        unfolding q by (simp add: defs)
      show "word_of_nat (x div 256 ^ 7 + 0xff80) = word_of_nat (x div 256 ^ 7) XOR snd (kLengthToHeaderBits ! Suc (Suc 7))"
        using byte_xor [of "x div 256 ^ 7" 6 2] t by (simp add: defs)
    qed (use assms(1) in \<open>simp_all add: defs\<close>)
  next
    case 9
    then have "x div 256 ^ 8 = 0" using assms(1) by simp
    then show ?thesis unfolding pos_bytes_def 9
      by (intro put_header_eq [of _ "0xffc0"]) (use assms(1) in \<open>simp_all add: defs\<close>)
  qed
qed

lemma ucast_nat: "ucast v = (word_of_nat (unat v) :: 'b::len word)" for v :: "'a::len word"
  by simp

lemma not_bytes: "map NOT (be_bytes n (unat v)) = be_bytes n (unat (NOT v))" if "n = 8" for v :: uint64
proof (rule be_nat_inj)
  have v: "unat (v :: uint64) < 2 ^ 64" "unat (NOT v) < 2 ^ 64"
    using unsigned_less [of v, where ?'a = nat] unsigned_less [of "NOT v", where ?'a = nat] by simp_all
  have "be_nat (map NOT (be_bytes n (unat v))) + be_nat (be_bytes n (unat v)) + 1 = 256 ^ n"
    using be_nat_not [of "be_bytes n (unat v)"] by simp
  then show "be_nat (map NOT (be_bytes n (unat v))) = be_nat (be_bytes n (unat (NOT v)))"
    using unat_not [of v] v that by (simp add: be_nat_be_bytes)
qed simp

lemma signed_length_1: "signed_length x = 1 \<longleftrightarrow> x < 64"
  using signed_length_unique [of 1 x] signed_length_bound(1) [of x] by auto

lemma WriteSigned_short:
  assumes "unat (magnitude v) < 64"
  shows "ucast ((scast (0x80 :: byte) :: uint64) XOR v) = word_of_nat (unat (magnitude v) + 128) XOR (if v <s 0 then - 1 else (0 :: byte))"
proof -
  have low: "ucast ((scast (h :: byte) :: uint64) XOR w) = h XOR ucast w" for h w
    by (rule bit_word_eqI) (auto simp: bit_simps)
  have "(word_of_nat (unat (magnitude v)) :: byte) XOR push_bit 7 1 = word_of_nat (unat (magnitude v)) + push_bit 7 1"
    by (rule byte_xor) (use assms in simp_all)
  then have "(word_of_nat (unat (magnitude v) + 128) :: byte) = 0x80 XOR ucast (magnitude v)"
    unfolding ucast_nat by (simp add: xor.commute)
  moreover have "h XOR ucast v = h XOR ucast (NOT v) XOR - 1" for h :: byte
    by (rule bit_word_eqI) (auto simp: bit_simps)
  ultimately show ?thesis unfolding low by (simp add: magnitude_def)
qed

lemma WriteSigned_eq: "WriteSignedNumIncreasing dest v = Some (dest @ signed_bytes v)"
proof -
  let ?x = "unat (magnitude v)"
  note x = magnitude_less [of v]
  have bytes: "signed_bytes v = (if v <s 0 then map NOT (pos_bytes ?x) else pos_bytes ?x)"
    by (simp add: signed_bytes_def magnitude_def)
  show ?thesis
  proof (cases "?x < 64")
    case True
    then have "pos_bytes ?x = [word_of_nat (?x + 128)]"
      using signed_length_1 [of ?x] by (simp add: pos_bytes_def header_def)
    then show ?thesis
      using True x WriteSigned_short [OF True] unfolding WriteSignedNumIncreasing_def magnitude_def [symmetric] Let_def bytes
      by (simp add: sless_64 kLengthToHeaderBits_def)
  next
    case False
    then have l: "2 \<le> signed_length ?x" using signed_length_1 [of ?x] signed_length_pos [of ?x] by linarith
    have l10: "signed_length ?x \<le> 10" by (rule signed_length_10 [OF x])
    let ?sign = "if v <s 0 then 0xff else 0 :: byte"
    let ?buf = "[?sign, ?sign] @ be_bytes 8 (unat v)"
    have len: "length ?buf = 10" by simp
    have "UNALIGNED_STORE64 ([?sign, ?sign] @ replicate 8 0) 2 (ghtonll v) = Some ?buf"
      by (simp add: UNALIGNED_STORE64_def image_ghtonll del: be_bytes.simps)
    moreover have "SignedEncodingLengthPositive (magnitude v) = Some (signed_length ?x)"
      using False x by (intro SignedEncodingLengthPositive_eq) auto
    moreover have "table_at kLengthToHeaderBits (signed_length ?x) = Some (kLengthToHeaderBits ! signed_length ?x)"
      using l10 by (simp add: table_at_def kLengthToHeaderBits_def)
    moreover have "\<not> magnitude v <s 64" using False x by (simp add: sless_64)
    moreover have "put_header (signed_length ?x) ?buf = signed_bytes v"
    proof (cases "v <s 0")
      case True
      then have buf: "?buf = map NOT ([0, 0] @ be_bytes 8 ?x)"
        using not_bytes [OF refl, of "NOT v"] by (simp add: magnitude_def del: be_bytes.simps)
      have "signed_length ?x \<le> length ([0, 0] @ be_bytes 8 ?x)" using l10 by simp
      from put_header_not [OF l this] show ?thesis
        unfolding buf put_header_pos [OF x l] bytes using True by (simp only: if_True)
    next
      case False
      then have "?buf = [0, 0] @ be_bytes 8 ?x" by (simp add: magnitude_def)
      then show ?thesis using put_header_pos [OF x l] bytes False by (simp del: be_bytes.simps)
    qed
    moreover have "length (signed_bytes v) = signed_length ?x" by (simp add: bytes pos_bytes_def)
    ultimately show ?thesis
      unfolding WriteSignedNumIncreasing_def magnitude_def [symmetric] put_header_def Let_def using l l10 len
      by (cases "kLengthToHeaderBits ! signed_length ?x")
        (simp add: kMaxSigned64Length_def AppendBytes_def del: be_bytes.simps append.simps)
  qed
qed

end
