(* ===== verification/OrderedRead.thy ===== *)
theory OrderedRead
  imports OrderedNum
begin

text \<open>
  The reader of signed numbers of Firestore's ordered encoding (\<open>util/ordered_code.cc\<close>): which
  headers it accepts, and that it inverts the writer and nothing else.
\<close>

section \<open>The signed reader\<close>

lemma be_nat_append: "be_nat (as @ bs) = be_nat as * 256 ^ length bs + be_nat bs"
  by (induction as) (simp_all add: be_nat_Cons power_add algebra_simps)

lemma be_value_nat: "be_value bs = word_of_nat (be_nat bs)"
  by (simp add: word_unat_eq_iff unat_be_value unat_of_nat take_bit_eq_mod)

lemma ghtonll_ghtonll: "ghtonll (ghtonll v) = v"
proof (rule bit_word_eqI)
  fix n assume "n < LENGTH(64)"
  then have n: "n = 8 * (n div 8) + n mod 8" "n div 8 < 8" "n mod 8 < 8" by auto
  have "bit (gbswap_64 (gbswap_64 v)) (8 * (n div 8) + n mod 8) = bit v (8 * (n div 8) + n mod 8)"
    using bit_gbswap_64 [OF n(2,3), of "gbswap_64 v"] bit_gbswap_64 [of "7 - n div 8" "n mod 8" v] n(2,3)
    by (simp del: mult_div_mod_eq)
  then show "bit (ghtonll (ghtonll v)) n = bit v n" by (simp add: ghtonll_def)
qed

lemma gntohll_le_word: "length bs = 8 \<Longrightarrow> gntohll (le_word bs) = be_value bs"
proof -
  assume len: "length bs = 8"
  have "be_nat bs < 256 ^ 8" using be_nat_less [of bs] len by simp
  then have "unat (be_value bs) = be_nat bs" by (simp add: unat_be_value)
  then have "le_image (ghtonll (be_value bs)) = bs"
    using be_bytes_be_nat [of bs] len by (simp add: image_ghtonll)
  then have "le_word bs = ghtonll (be_value bs)" using le_word_image [of "ghtonll (be_value bs)"] by simp
  then show ?thesis by (simp add: gntohll_def ghtonll_ghtonll)
qed

lemma read_long_eq:
  assumes "8 \<le> len"
  shows "read_long src len = (if length src < len then Some (None, src) else finish_signed src len (word_of_nat (be_nat (take len src))))"
proof (cases "length src < len")
  case False
  then have "take len src = take (len - 8) src @ take 8 (drop (len - 8) src)"
    using assms take_add [of "len - 8" 8 src] by simp
  then have "be_nat (take len src) = be_nat (take (len - 8) src) * 2 ^ 64 + be_nat (take 8 (drop (len - 8) src))"
    using False assms by (simp add: be_nat_append)
  moreover have "(word_of_nat (a * 2 ^ 64 + b) :: uint64) = word_of_nat b" for a b
    by (simp add: word_unat_eq_iff unat_of_nat take_bit_eq_mod del: of_nat_add of_nat_mult)
  ultimately have "(word_of_nat (be_nat (take len src)) :: uint64) = be_value (take 8 (drop (len - 8) src))"
    by (simp add: be_value_nat)
  then show ?thesis
    using False assms by (simp add: read_long_def UNALIGNED_LOAD64_def gntohll_le_word)
qed (simp add: read_long_def)

lemma kLengthToMask_eq:
  assumes "0 < l" and "l \<le> 10"
  shows "table_at kLengthToMask l = Some (push_bit (7 * l) (word_of_nat (2 ^ l - 1)))"
proof -
  have "l = 1 \<or> l = 2 \<or> l = 3 \<or> l = 4 \<or> l = 5 \<or> l = 6 \<or> l = 7 \<or> l = 8 \<or> l = 9 \<or> l = 10"
    using assms by arith
  then show ?thesis by (elim disjE) (simp_all add: table_at_def kLengthToMask_def push_bit_eq_mult)
qed

lemma header_mult: "header l = 2 ^ (7 * l) * (2 ^ l - 1)"
proof -
  have "8 * l = 7 * l + l" by simp
  then show ?thesis unfolding header_def by (simp only: power_add diff_mult_distrib2 mult_1_right)
qed

lemma finish_signed_eq:
  assumes "0 < l" and "l \<le> 10" and "x < 2 ^ (7 * l)" and "x < 2 ^ 63"
  shows "finish_signed src l (word_of_nat (x + header l)) =
    (if signed_length x = l then Some (Some (word_of_nat x), drop l src) else None)"
proof -
  let ?h = "push_bit (7 * l) (word_of_nat (2 ^ l - 1)) :: uint64"
  have u: "unat (word_of_nat x :: uint64) = x" using assms(4) by (intro unat_small) simp
  have h: "(word_of_nat (header l) :: uint64) = ?h"
    by (simp add: header_mult push_bit_eq_mult mult.commute)
  have "(word_of_nat (x + header l) :: uint64) = word_of_nat x XOR ?h"
    using xor_push_bit [of "word_of_nat x" "7 * l" "word_of_nat (2 ^ l - 1) :: uint64"] u assms(3) by (simp add: h)
  then have "(word_of_nat (x + header l) :: uint64) XOR ?h = word_of_nat x" by (simp add: xor.assoc)
  moreover have "magnitude (word_of_nat x) = word_of_nat x" using u assms(4) sless_0 by (simp add: magnitude_def)
  ultimately show ?thesis
    using u by (auto simp: finish_signed_def kLengthToMask_eq [OF assms(1,2)] SignedEncodingLength_eq)
qed

text \<open>The encodings whose header says that they have \<open>l\<close> bytes.\<close>

definition headed :: "nat \<Rightarrow> byte list \<Rightarrow> bool" where
  "headed l src \<longleftrightarrow> 0 < l \<and> l \<le> 10 \<and> l \<le> length src \<and>
     header l \<le> be_nat (take l src) \<and> be_nat (take l src) < header l + 2 ^ min (7 * l - 1) 63"

lemma prefix_bounds:
  assumes "be_nat (take l src) = p * B + r" and "r < B"
  shows "a * B \<le> be_nat (take l src) \<longleftrightarrow> a \<le> p" and "be_nat (take l src) < b * B \<longleftrightarrow> p < b"
proof -
  have "a * B \<le> p * B + r \<longleftrightarrow> a \<le> p" for a
  proof
    assume "a * B \<le> p * B + r"
    then have "a * B < Suc p * B" using assms(2) by simp
    then have "a < Suc p" unfolding mult_less_cancel2 by blast
    then show "a \<le> p" by simp
  next
    assume "a \<le> p"
    then have "a * B \<le> p * B" by (rule mult_le_mono1)
    then show "a * B \<le> p * B + r" by (rule trans_le_add1)
  qed
  then show "a * B \<le> be_nat (take l src) \<longleftrightarrow> a \<le> p" "be_nat (take l src) < b * B \<longleftrightarrow> p < b"
    unfolding assms(1) by (simp_all add: not_le [symmetric])
qed

lemma headed_low:
  assumes "l < 7" and "Suc l \<le> length (b # t)"
  shows "headed (Suc l) (b # t) \<longleftrightarrow> 256 - 2 ^ (7 - l) \<le> unat b \<and> unat b < 256 - 2 ^ (6 - l)"
proof -
  have pre: "be_nat (take (Suc l) (b # t)) = unat b * 256 ^ l + be_nat (take l t)" "be_nat (take l t) < 256 ^ l"
    using assms(2) be_nat_less [of "take l t"] by (simp_all add: be_nat_Cons)
  have "l = 0 \<or> l = 1 \<or> l = 2 \<or> l = 3 \<or> l = 4 \<or> l = 5 \<or> l = 6" using assms(1) by arith
  then have "header (Suc l) = (256 - 2 ^ (7 - l)) * 256 ^ l"
    "header (Suc l) + 2 ^ min (7 * Suc l - 1) 63 = (256 - 2 ^ (6 - l)) * 256 ^ l"
    by (auto simp: header_def)
  then show ?thesis
    using assms prefix_bounds [OF pre] by (simp add: headed_def)
qed

lemma headed_prefix:
  assumes "0 < l" and "l \<le> 10" and "l \<le> length src" and "k \<le> l"
    and "header l = a * 256 ^ (l - k)" and "header l + 2 ^ min (7 * l - 1) 63 = b * 256 ^ (l - k)"
  shows "headed l src \<longleftrightarrow> a \<le> be_nat (take k src) \<and> be_nat (take k src) < b"
proof -
  have "take l src = take k src @ take (l - k) (drop k src)"
    using take_add [of k "l - k" src] assms(4) by simp
  then have pre: "be_nat (take l src) = be_nat (take k src) * 256 ^ (l - k) + be_nat (take (l - k) (drop k src))"
    using assms(3,4) by (simp add: be_nat_append)
  have "be_nat (take (l - k) (drop k src)) < 256 ^ (l - k)"
    using be_nat_less [of "take (l - k) (drop k src)"] assms(3) by simp
  from prefix_bounds(1) [OF pre this, of a] prefix_bounds(2) [OF pre this, of b] show ?thesis
    unfolding headed_def assms(5,6) [symmetric] using assms(1-3) by simp
qed

lemma header_8_9_10:
  "header 8 = 0xff00 * 256 ^ (8 - 2)" "header 8 + 2 ^ min (7 * 8 - 1) 63 = 0xff80 * 256 ^ (8 - 2)"
  "header 9 = 0xff80 * 256 ^ (9 - 2)" "header 9 + 2 ^ min (7 * 9 - 1) 63 = 0xffc0 * 256 ^ (9 - 2)"
  "header 10 = 0xffc000 * 256 ^ (10 - 3)" "header 10 + 2 ^ min (7 * 10 - 1) 63 = 0xffc080 * 256 ^ (10 - 3)"
  by (simp_all add: header_def)

lemma be_nat_2_3:
  "be_nat (take 2 (b # c # t)) = unat b * 256 + unat c"
  "be_nat (take 3 (b # c # d # t)) = unat b * 65536 + unat c * 256 + unat d"
  by (simp_all add: be_nat_Cons numeral_2_eq_2 numeral_3_eq_3)

lemma headed_8: "8 \<le> length (b # c # t) \<Longrightarrow> headed 8 (b # c # t) \<longleftrightarrow> unat b = 255 \<and> unat c < 128"
proof -
  assume len: "8 \<le> length (b # c # t)"
  have "headed 8 (b # c # t) \<longleftrightarrow> 0xff00 \<le> be_nat (take 2 (b # c # t)) \<and> be_nat (take 2 (b # c # t)) < 0xff80"
    by (rule headed_prefix [OF _ _ len _ header_8_9_10(1,2)]) simp_all
  then show ?thesis using unat_byte_less [of b] unat_byte_less [of c] unfolding be_nat_2_3 by arith
qed

lemma headed_9: "9 \<le> length (b # c # t) \<Longrightarrow> headed 9 (b # c # t) \<longleftrightarrow> unat b = 255 \<and> 128 \<le> unat c \<and> unat c < 192"
proof -
  assume len: "9 \<le> length (b # c # t)"
  have "headed 9 (b # c # t) \<longleftrightarrow> 0xff80 \<le> be_nat (take 2 (b # c # t)) \<and> be_nat (take 2 (b # c # t)) < 0xffc0"
    by (rule headed_prefix [OF _ _ len _ header_8_9_10(3,4)]) simp_all
  then show ?thesis using unat_byte_less [of b] unat_byte_less [of c] unfolding be_nat_2_3 by arith
qed

lemma headed_10:
  "10 \<le> length (b # c # d # t) \<Longrightarrow> headed 10 (b # c # d # t) \<longleftrightarrow> unat b = 255 \<and> unat c = 192 \<and> unat d < 128"
proof -
  assume len: "10 \<le> length (b # c # d # t)"
  have "headed 10 (b # c # d # t) \<longleftrightarrow>
      0xffc000 \<le> be_nat (take 3 (b # c # d # t)) \<and> be_nat (take 3 (b # c # d # t)) < 0xffc080"
    by (rule headed_prefix [OF _ _ len _ header_8_9_10(5,6)]) simp_all
  moreover have "unat b \<le> 254 \<or> unat b = 255" "unat c \<le> 191 \<or> unat c = 192 \<or> 193 \<le> unat c"
    using unat_byte_less [of b] by linarith+
  ultimately show ?thesis
    unfolding be_nat_2_3 using unat_byte_less [of c] unat_byte_less [of d] by (elim disjE) (simp_all del: unat_byte_less)
qed

text \<open>A byte read through the mask of the sign.\<close>

lemma masked_byte: "ucast ((scast (b :: byte) :: uint64) XOR (m AND 0xff)) = b XOR ucast m" for m :: uint64
proof -
  have "m AND 0xff = take_bit 8 m" unfolding byte_masks(1) by (simp only: take_bit_eq_mask)
  moreover have "ucast ((scast b :: uint64) XOR take_bit 8 m) = b XOR ucast m"
  proof (rule bit_word_eqI)
    fix n assume "n < LENGTH(8)"
    then have "n = 7 \<or> n < 7" by auto
    then show "bit (ucast ((scast b :: uint64) XOR take_bit 8 m) :: byte) n = bit (b XOR ucast m) n"
      by (auto simp: bit_simps min_def)
  qed
  ultimately show ?thesis by (simp only:)
qed

lemma Log2_byte:
  fixes b :: byte
  assumes "128 \<le> unat b" and "256 - 2 ^ Suc k \<le> unat b" and "unat b < 256 - 2 ^ k"
  shows "Log2FloorNonZero (ucast (b XOR 0xff)) = Some (int k)"
proof -
  have "(0xff :: byte) = - 1" by simp
  then have "b XOR 0xff = NOT b" by (simp only: bit.xor_one_right)
  then have "unat (ucast (b XOR 0xff) :: uint32) = 255 - unat b" by (simp add: unat_not_byte)
  then have "top_bit (ucast (b XOR 0xff) :: uint32) k" using assms unat_byte_less [of b] by (intro top_bitI) simp_all
  then show ?thesis by (rule Log2_top(2))
qed

lemma ReadSigned_high:
  assumes "128 \<le> unat b"
  shows "ReadSignedNumIncreasing (b # t) =
    (if b \<noteq> 0xff then do {
       l \<leftarrow> Log2FloorNonZero (ucast (b XOR 0xff));
       if length (b # t) < nat (7 - l) then Some (None, b # t)
       else finish_signed (b # t) (nat (7 - l)) (word_of_nat (be_nat (take (nat (7 - l)) (b # t))))
     }
     else if length (b # t) < 8 then Some (None, b # t)
     else if 0x80 \<le> t ! 0 then
       if t ! 0 < 0xc0 then read_long (b # t) 9
       else if t ! 0 = 0xc0 \<and> t ! 1 < 0x80 then read_long (b # t) 10
       else Some (None, b # t)
     else read_long (b # t) 8)"
proof -
  have m: "(if (b # t) ! 0 AND 0x80 = 0 then NOT 0 else 0) = (0 :: uint64)"
    using assms byte_high_bit [of b] by simp
  have z: "ucast ((scast c :: uint64) XOR (0 AND 0xff)) = c" for c :: byte
    using masked_byte [of c 0] by simp
  show ?thesis
    unfolding ReadSignedNumIncreasing_def read_masked_def Let_def m z foldl_be_value be_value_nat by (simp del: take_Suc_Cons)
qed

lemma Read_headed:
  assumes "headed l src"
  shows "ReadSignedNumIncreasing src = finish_signed src l (word_of_nat (be_nat (take l src)))"
proof -
  have l: "0 < l" "l \<le> 10" "l \<le> length src" using assms by (simp_all add: headed_def)
  then obtain b t where src: "src = b # t" by (cases src) auto
  show ?thesis
  proof (cases "l \<le> 7")
    case True
    then obtain k where k: "l = Suc k" "k < 7" using l(1) by (cases l) auto
    have b: "256 - 2 ^ (7 - k) \<le> unat b" "unat b < 256 - 2 ^ (6 - k)"
      using headed_low [of k b t] assms k l(3) by (simp_all add: src)
    have "(2 :: nat) ^ (7 - k) \<le> 2 ^ 7" by (rule power_increasing) auto
    then have high: "128 \<le> unat b" using b(1) by simp
    have "Suc (6 - k) = 7 - k" using k(2) by simp
    then have "Log2FloorNonZero (ucast (b XOR 0xff)) = Some (int (6 - k))"
      using b high by (intro Log2_byte) simp_all
    moreover have "nat (7 - int (6 - k)) = l" using k by simp
    moreover have "b \<noteq> 0xff"
    proof
      assume "b = 0xff"
      then have "unat b = 255" by simp
      moreover have "1 \<le> (2 :: nat) ^ (6 - k)" by simp
      ultimately show False using b(2) by linarith
    qed
    ultimately show ?thesis using l(3) unfolding src ReadSigned_high [OF high] by simp
  next
    case False
    then obtain c d u where t: "t = c # d # u" using l(3) by (cases t; cases "tl t") (auto simp: src)
    have long: "read_long src l = finish_signed src l (word_of_nat (be_nat (take l src)))"
      using read_long_eq [of l src] l(3) False by simp
    have "l = 8 \<or> l = 9 \<or> l = 10" using False l(2) by arith
    then show ?thesis
    proof (elim disjE)
      assume 8: "l = 8"
      then have "unat b = 255" "unat c < 128" using headed_8 [of b c "d # u"] assms l(3) by (simp_all add: src t)
      then show ?thesis
        using long l(3) 8 unfolding src by (subst ReadSigned_high) (simp_all add: t unat_byte_255 word_le_nat_alt)
    next
      assume 9: "l = 9"
      then have "unat b = 255" "128 \<le> unat c" "unat c < 192" using headed_9 [of b c "d # u"] assms l(3) by (simp_all add: src t)
      then show ?thesis
        using long l(3) 9 unfolding src
        by (subst ReadSigned_high) (simp_all add: t unat_byte_255 word_le_nat_alt word_less_nat_alt)
    next
      assume 10: "l = 10"
      then have "unat b = 255" "unat c = 192" "unat d < 128" using headed_10 [of b c d u] assms l(3) by (simp_all add: src t)
      moreover from this have "c = 0xc0" by (simp add: word_unat_eq_iff)
      ultimately show ?thesis
        using long l(3) 10 unfolding src
        by (subst ReadSigned_high) (simp_all add: t unat_byte_255 word_le_nat_alt word_less_nat_alt)
    qed
  qed
qed

lemma Read_unheaded:
  assumes "128 \<le> unat b" and "\<nexists>l. headed l (b # t)"
  shows "ReadSignedNumIncreasing (b # t) = Some (None, b # t)"
proof (cases "b = 0xff")
  case False
  then have b: "128 \<le> unat b" "unat b < 255"
    using assms(1) unat_byte_less [of b] unat_byte_255 [of b] by linarith+
  have not_b: "unat (NOT b) = 255 - unat b" by (rule unat_not_byte)
  then have "NOT b \<noteq> 0" using b by auto
  then obtain j where j: "top_bit (NOT b) j" using top_bit_exists by blast
  have r: "2 ^ j \<le> 255 - unat b" "255 - unat b < 2 ^ Suc j" using top_bit_bounds [OF j] not_b by auto
  then have "(2 :: nat) ^ j < 2 ^ 7" using b by simp
  then have j7: "j < 7" by (rule power_less_imp_less_exp [rotated]) simp
  then have bounds: "256 - 2 ^ Suc j \<le> unat b" "unat b < 256 - 2 ^ j" using r b by linarith+
  then have log: "Log2FloorNonZero (ucast (b XOR 0xff)) = Some (int j)" by (intro Log2_byte assms(1))
  have l: "nat (7 - int j) = Suc (6 - j)" using j7 by simp
  have "\<not> Suc (6 - j) \<le> length (b # t)"
  proof
    assume "Suc (6 - j) \<le> length (b # t)"
    then have "headed (Suc (6 - j)) (b # t)"
      using bounds j7 by (subst headed_low) (simp_all add: Suc_diff_le)
    with assms(2) show False by blast
  qed
  then show ?thesis using False log l by (simp add: ReadSigned_high [OF assms(1)])
next
  case True
  show ?thesis
  proof (cases "length (b # t) < 8")
    case False
    then obtain c d u where t: "t = c # d # u" by (cases t; cases "tl t") auto
    have "c < 0x80 \<or> 0x80 \<le> c \<and> c < 0xc0 \<or> 0xc0 \<le> c" by auto
    then show ?thesis
    proof (elim disjE)
      assume "c < 0x80"
      then have "headed 8 (b # t)" using headed_8 [of b c "d # u"] False True by (simp add: t word_less_nat_alt)
      with assms(2) show ?thesis by blast
    next
      assume c: "0x80 \<le> c \<and> c < 0xc0"
      then have "length (b # t) < 9"
        using headed_9 [of b c "d # u"] assms(2) True by (auto simp: t word_less_nat_alt word_le_nat_alt not_le [symmetric])
      then show ?thesis using True False c unfolding ReadSigned_high [OF assms(1)] t by (simp add: read_long_eq)
    next
      assume c: "0xc0 \<le> c"
      then have c': "0x80 \<le> c" "\<not> c < 0xc0" by (auto simp: word_le_nat_alt word_less_nat_alt)
      show ?thesis
      proof (cases "c = 0xc0 \<and> d < 0x80")
        case True
        then have "length (b # t) < 10"
          using headed_10 [of b c d u] assms(2) \<open>b = 0xff\<close> by (auto simp: t word_less_nat_alt not_le [symmetric])
        then show ?thesis using True False c' \<open>b = 0xff\<close> unfolding ReadSigned_high [OF assms(1)] t by (simp add: read_long_eq)
      next
        case f: False
        then show ?thesis using True False c' unfolding ReadSigned_high [OF assms(1)] t by auto
      qed
    qed
    qed (use True ReadSigned_high [OF assms(1), of t] in simp)
qed

text \<open>The reader inverts the writer, and every number it reads has been written by it.\<close>

lemma headed_pos:
  assumes "x < 2 ^ 63"
  shows "headed (signed_length x) (pos_bytes x @ rest)" and "be_nat (take (signed_length x) (pos_bytes x @ rest)) = x + header (signed_length x)"
proof -
  let ?l = "signed_length x"
  have "x + header ?l < 256 ^ ?l"
    using header_bound [OF signed_length_pos signed_length_bound(1), of x] unfolding power_256 by linarith
  then show *: "be_nat (take ?l (pos_bytes x @ rest)) = x + header ?l"
    by (simp add: pos_bytes_def be_nat_be_bytes)
  have "x < 2 ^ min (7 * ?l - 1) 63" using signed_length_bound(1) [of x] assms by (simp add: min_def)
  then show "headed ?l (pos_bytes x @ rest)"
    unfolding headed_def * using signed_length_10 [OF assms] by (simp add: pos_bytes_def)
qed

lemma headed_finish:
  assumes "headed l src"
  defines "x \<equiv> be_nat (take l src) - header l"
  shows "ReadSignedNumIncreasing src = (if signed_length x = l then Some (Some (word_of_nat x), drop l src) else None)"
    and "signed_length x = l \<Longrightarrow> take l src = pos_bytes x" and "x < 2 ^ 63"
proof -
  have l: "0 < l" "l \<le> 10" "l \<le> length src" "be_nat (take l src) = x + header l" "x < 2 ^ min (7 * l - 1) 63"
  proof -
    note h = assms(1) [unfolded headed_def]
    then show "0 < l" "l \<le> 10" "l \<le> length src" by simp_all
    show "be_nat (take l src) = x + header l" "x < 2 ^ min (7 * l - 1) 63" using h unfolding x_def by linarith+
  qed
  have "(2 :: nat) ^ min (7 * l - 1) 63 \<le> 2 ^ (7 * l)" by (rule power_increasing) simp_all
  moreover have "(2 :: nat) ^ min (7 * l - 1) 63 \<le> 2 ^ 63" by (rule power_increasing) simp_all
  ultimately have x: "x < 2 ^ (7 * l)" "x < 2 ^ 63" using l(5) by linarith+
  show "ReadSignedNumIncreasing src = (if signed_length x = l then Some (Some (word_of_nat x), drop l src) else None)"
    using Read_headed [OF assms(1)] finish_signed_eq [OF l(1,2) x] l(4) by simp
  show "x < 2 ^ 63" by (rule x(2))
  show "take l src = pos_bytes x" if "signed_length x = l"
    unfolding pos_bytes_def that l(4) [symmetric] using be_bytes_be_nat [of "take l src"] l(3) by (simp only: length_take min_absorb2)
qed

lemma pos_bytes_high: "x < 2 ^ 63 \<Longrightarrow> \<exists>b t. pos_bytes x = b # t \<and> 128 \<le> unat b"
proof -
  assume x: "x < 2 ^ 63"
  obtain n where n: "signed_length x = Suc n" using signed_length_pos [of x] by (cases "signed_length x") auto
  let ?q = "(x + header (Suc n)) div 256 ^ n"
  have "x + header (Suc n) < 256 ^ Suc n"
    using header_bound [OF signed_length_pos signed_length_bound(1), of x] unfolding n power_256 by linarith
  then have "?q < 256" by (simp add: div_less_iff_less_mult)
  moreover have "128 * 256 ^ n \<le> header (Suc n)"
  proof -
    have "(2 :: nat) ^ (7 * n) \<le> 2 ^ (8 * n)" by (rule power_increasing) auto
    moreover have "(2 :: nat) ^ (8 * Suc n) = 256 * 2 ^ (8 * n)" "(2 :: nat) ^ (7 * Suc n) = 128 * 2 ^ (7 * n)"
      by (simp_all add: power_add)
    ultimately show ?thesis unfolding header_def power_256 by linarith
  qed
  then have "128 \<le> ?q" by (simp add: less_eq_div_iff_mult_less_eq)
  ultimately have "128 \<le> unat (word_of_nat ?q :: byte)" by (simp add: unat_small)
  then show ?thesis unfolding pos_bytes_def n be_bytes_Cons by blast
qed

lemma ReadSigned_pos: "x < 2 ^ 63 \<Longrightarrow> ReadSignedNumIncreasing (pos_bytes x @ rest) = Some (Some (word_of_nat x), rest)"
  using headed_finish(1) [OF headed_pos(1), of x rest] headed_pos(2) [of x rest] by (simp add: pos_bytes_def)

text \<open>Complementing the input complements the result.\<close>

definition complemented :: "(uint64 option \<times> byte list) option \<Rightarrow> (uint64 option \<times> byte list) option" where
  "complemented r = map_option (\<lambda>(x, rest). (map_option NOT x, map NOT rest)) r"

lemma complemented_simps [simp]:
  "complemented None = None" "complemented (Some (None, s)) = Some (None, map NOT s)"
  "complemented (Some (Some x, s)) = Some (Some (NOT x), map NOT s)"
  by (simp_all add: complemented_def)

lemma finish_signed_not: "finish_signed (map NOT src) l (NOT x) = complemented (finish_signed src l x)"
proof (cases "table_at kLengthToMask l")
  case (Some m)
  have "NOT x XOR m = NOT (x XOR m)" by (rule bit_word_eqI) (auto simp: bit_simps)
  with Some show ?thesis
    by (cases "l = signed_length (unat (magnitude (x XOR m)))") (simp_all add: finish_signed_def SignedEncodingLength_eq drop_map Let_def)
qed (simp add: finish_signed_def)

lemma foldl_not: "foldl (\<lambda>x b. push_bit 8 x OR ucast b) (NOT x) (map NOT bs) = NOT (foldl (\<lambda>x b. push_bit 8 x OR ucast b) (x :: uint64) (bs :: byte list))"
proof (induction bs arbitrary: x)
  case (Cons b bs)
  have "push_bit 8 (NOT x) OR ucast (NOT b) = NOT (push_bit 8 x OR ucast b)"
    by (rule bit_word_eqI) (auto simp: bit_simps dest: bit_imp_le_length)
  then show ?case by (simp only: list.map foldl_Cons Cons.IH)
qed simp

lemma be_value_not: "length bs = 8 \<Longrightarrow> be_value (map NOT bs) = NOT (be_value bs)"
proof -
  assume "length bs = 8"
  moreover have "be_value (map NOT bs) = foldl (\<lambda>x b. push_bit 8 x OR ucast b) 0 (map NOT bs)" by (simp add: be_value_def)
  ultimately show ?thesis
    using be_nat_not [of bs] unat_not [of "be_value bs"] be_nat_less [of bs] be_nat_less [of "map NOT bs"]
    by (simp add: word_unat_eq_iff unat_be_value)
qed

lemma read_long_not: "8 \<le> l \<Longrightarrow> read_long (map NOT src) l = complemented (read_long src l)"
proof (cases "length src < l")
  case False
  moreover assume "8 \<le> l"
  ultimately have "l - 8 + 8 \<le> length src" and len: "length (take 8 (drop (l - 8) src)) = 8" by simp_all
  then show ?thesis
    using False finish_signed_not [of src l "be_value (take 8 (drop (l - 8) src))"] be_value_not [OF len]
    by (simp add: read_long_def UNALIGNED_LOAD64_def gntohll_le_word drop_map take_map)
qed (simp add: read_long_def)

lemma read_masked_not: "src \<noteq> [] \<Longrightarrow> read_masked (NOT m) (map NOT src) = complemented (read_masked m src)"
proof -
  assume src: "src \<noteq> []"
  have z: "ucast ((scast (NOT c) :: uint64) XOR (NOT m AND 0xff)) = (ucast ((scast c :: uint64) XOR (m AND 0xff)) :: byte)" for c :: byte
    unfolding masked_byte by (rule bit_word_eqI) (auto simp: bit_simps)
  define f :: "byte \<Rightarrow> byte" where "f c = ucast ((scast c :: uint64) XOR (m AND 0xff))" for c
  have nth: "i < length src \<Longrightarrow> ucast ((scast (map NOT src ! i) :: uint64) XOR (NOT m AND 0xff)) = f (src ! i)" for i
    using z by (simp add: f_def)
  show ?thesis
  proof (cases "f (src ! 0) = 0xff")
    case False
    then show ?thesis
      using nth [of 0] src finish_signed_not foldl_not
      by (cases "Log2FloorNonZero (ucast (f (src ! 0) XOR 0xff)) :: int option")
        (simp_all add: read_masked_def Let_def take_map flip: f_def)
  next
    case True
    show ?thesis
    proof (cases "length src < 8")
      case False
      then have "1 < length src" "2 < length src" by simp_all
      from nth [OF this(1)] nth [OF this(2)] show ?thesis
        using nth [of 0] src True False read_long_not [of 8 src] read_long_not [of 9 src] read_long_not [of 10 src]
        by (simp add: read_masked_def Let_def flip: f_def)
    qed (use nth [of 0] src True in \<open>simp add: read_masked_def flip: f_def\<close>)
  qed
qed

lemma ReadSigned_not: "ReadSignedNumIncreasing (map NOT src) = complemented (ReadSignedNumIncreasing src)"
proof (cases "src = []")
  case False
  have "NOT b AND 0x80 = 0 \<longleftrightarrow> \<not> b AND 0x80 = 0" for b :: byte
    unfolding byte_high_bit_0 using unat_not_byte [of b] by auto
  then have "(if map NOT src ! 0 AND 0x80 = 0 then NOT 0 else 0) = NOT (if src ! 0 AND 0x80 = 0 then NOT 0 else 0 :: uint64)"
    using False by simp
  then show ?thesis
    unfolding ReadSignedNumIncreasing_def using False read_masked_not by simp
qed (simp add: ReadSignedNumIncreasing_def)

lemma ReadSigned_bytes: "ReadSignedNumIncreasing (signed_bytes v @ rest) = Some (Some v, rest)"
proof (cases "v <s 0")
  case True
  then have "unat (NOT v) < 2 ^ 63" using magnitude_less [of v] by (simp add: magnitude_def)
  then have "ReadSignedNumIncreasing (pos_bytes (unat (NOT v)) @ map NOT rest) = Some (Some (NOT v), map NOT rest)"
    by (simp add: ReadSigned_pos)
  moreover have "signed_bytes v @ rest = map NOT (pos_bytes (unat (NOT v)) @ map NOT rest)"
    using True by (simp add: signed_bytes_def o_def)
  ultimately have "ReadSignedNumIncreasing (signed_bytes v @ rest) = complemented (Some (Some (NOT v), map NOT rest))"
    by (simp only: ReadSigned_not)
  then show ?thesis by (simp add: o_def)
next
  case False
  then have "unat v < 2 ^ 63" using magnitude_less [of v] by (simp add: magnitude_def)
  with False show ?thesis by (simp add: signed_bytes_def ReadSigned_pos)
qed

lemma ReadSigned_only_pos:
  assumes "128 \<le> unat b" and "ReadSignedNumIncreasing (b # t) = Some (Some v, rest)"
  shows "\<not> v <s 0 \<and> b # t = pos_bytes (unat v) @ rest"
proof -
  obtain l where l: "headed l (b # t)" using Read_unheaded [OF assms(1)] assms(2) by fastforce
  define x where "x = be_nat (take l (b # t)) - header l"
  note f = headed_finish [OF l, folded x_def]
  have *: "signed_length x = l" "v = word_of_nat x" "rest = drop l (b # t)"
    using f(1) assms(2) by (simp_all split: if_splits)
  then have "unat v = x" using f(3) by (simp add: unat_small)
  moreover have "b # t = pos_bytes x @ rest" using f(2) [OF *(1)] *(3) append_take_drop_id [of l "b # t"] by simp
  moreover have "\<not> v <s 0" using \<open>unat v = x\<close> f(3) sless_0 by simp
  ultimately show ?thesis by simp
qed

lemma ReadSigned_only:
  assumes "ReadSignedNumIncreasing src = Some (Some v, rest)"
  shows "src = signed_bytes v @ rest"
proof -
  obtain b t where src: "src = b # t" using assms by (cases src) (auto simp: ReadSignedNumIncreasing_def)
  show ?thesis
  proof (cases "128 \<le> unat b")
    case True
    with ReadSigned_only_pos [of b t v rest] assms show ?thesis by (simp add: src signed_bytes_def)
  next
    case False
    then have "128 \<le> unat (NOT b)" by (simp add: unat_not_byte)
    moreover have "ReadSignedNumIncreasing (NOT b # map NOT t) = Some (Some (NOT v), map NOT rest)"
      using ReadSigned_not [of src] assms by (simp add: src)
    ultimately have *: "\<not> NOT v <s 0" "NOT b # map NOT t = pos_bytes (unat (NOT v)) @ map NOT rest"
      using ReadSigned_only_pos by blast+
    then have "map NOT (map NOT src) = map NOT (pos_bytes (unat (NOT v))) @ rest"
      by (simp add: src o_def)
    then show ?thesis using *(1) by (simp add: signed_bytes_def sless_0_not o_def)
  qed
qed

lemma signed_bytes_differ:
  assumes "v <s w"
  shows "differs_below (signed_bytes v) (signed_bytes w)"
proof -
  have high: "\<exists>b t. pos_bytes (unat (magnitude u)) = b # t \<and> 128 \<le> unat b" for u
    using magnitude_less by (rule pos_bytes_high)
  have int: "u <s 0 \<Longrightarrow> sint u = - 1 - int (unat (NOT u))" "\<not> u <s 0 \<Longrightarrow> sint u = int (unat u)" for u :: uint64
    using sint_pos [of u] sint_pos [of "NOT u"] sint_not [of u] sless_0 [of u] sless_0 [of "NOT u"] sless_0_not [of u] by auto
  show ?thesis
  proof (cases "v <s 0"; cases "w <s 0")
    assume "v <s 0" "w <s 0"
    then have "unat (NOT w) < unat (NOT v)"
      using assms [unfolded word_sless_alt int(1) [OF \<open>v <s 0\<close>] int(1) [OF \<open>w <s 0\<close>]] by linarith
    then show ?thesis
      using \<open>v <s 0\<close> \<open>w <s 0\<close> by (simp add: signed_bytes_def differs_below_not pos_bytes_differ)
  next
    assume "v <s 0" "\<not> w <s 0"
    moreover obtain b t where "pos_bytes (unat (magnitude v)) = b # t" "128 \<le> unat b" using high by blast
    moreover obtain c u where "pos_bytes (unat (magnitude w)) = c # u" "128 \<le> unat c" using high by blast
    ultimately show ?thesis
      by (auto simp: signed_bytes_def magnitude_def word_less_nat_alt unat_not_byte intro!: differs_below_Cons)
  next
    assume "\<not> v <s 0" "w <s 0"
    then show ?thesis
      using assms [unfolded word_sless_alt int(2) [OF \<open>\<not> v <s 0\<close>] int(1) [OF \<open>w <s 0\<close>]] by linarith
  next
    assume "\<not> v <s 0" "\<not> w <s 0"
    then have "unat v < unat w"
      using assms [unfolded word_sless_alt int(2) [OF \<open>\<not> v <s 0\<close>] int(2) [OF \<open>\<not> w <s 0\<close>]] by linarith
    then show ?thesis using \<open>\<not> v <s 0\<close> \<open>\<not> w <s 0\<close> by (simp add: signed_bytes_def pos_bytes_differ)
  qed
qed

section \<open>The numbers as parts of keys\<close>

text \<open>As readers of the byte reader's kind; a failed assertion counts as a refusal.\<close>

definition num_reader :: "uint64 reader" where
  "num_reader src = (case ReadNumIncreasing src of Some r \<Rightarrow> r | None \<Rightarrow> (None, src))"

definition signed_reader :: "uint64 reader" where
  "signed_reader src = (case ReadSignedNumIncreasing src of Some r \<Rightarrow> r | None \<Rightarrow> (None, src))"

interpretation num: stream_codec num_bytes num_reader "\<lambda>v. True"
proof unfold_locales
  show "num_reader cs = (Some v, rest) \<Longrightarrow> True \<and> cs = num_bytes v @ rest" for cs v rest
    using ReadNum_only [of cs v rest] by (simp add: num_reader_def split: option.splits)
qed (simp_all add: num_reader_def ReadNum_bytes, simp add: num_bytes_def)

lemma signed_bytes_not_Nil: "signed_bytes v \<noteq> []"
proof -
  obtain b t where "pos_bytes (unat (magnitude v)) = b # t" using pos_bytes_high magnitude_less by blast
  then show ?thesis by (auto simp: signed_bytes_def magnitude_def split: if_splits)
qed

interpretation signed: stream_codec signed_bytes signed_reader "\<lambda>v. True"
proof unfold_locales
  show "signed_reader cs = (Some v, rest) \<Longrightarrow> True \<and> cs = signed_bytes v @ rest" for cs v rest
    using ReadSigned_only [of cs v rest] by (simp add: signed_reader_def split: option.splits)
qed (simp_all add: signed_reader_def ReadSigned_bytes signed_bytes_not_Nil)

interpretation num_part: key_part num_bytes "(<)"
proof unfold_locales
  show "v = w \<or> v < w \<or> w < v" for v w :: uint64 by auto
qed (rule differs_below_append [OF num_bytes_differ])

interpretation signed_part: key_part signed_bytes "\<lambda>v w. v <s w"
proof unfold_locales
  show "v = w \<or> v <s w \<or> w <s v" for v w :: uint64 by (rule signed.less_linear [THEN disjE]) auto
qed (rule differs_below_append [OF signed_bytes_differ])

end
