(* ===== verification/OrderedCode.thy ===== *)
theory OrderedCode
  imports OrderedRead
begin

text \<open>
  Keys of Firestore's local store: sequences of items written one after another
  (\<open>util/ordered_code.h\<close>). Comparing keys is comparing their items, and a key is read back by
  reading items of the same kinds.
\<close>

section \<open>Sequences of items\<close>

datatype item = Text "byte list" | Infinity | Number uint64 | Signed uint64 | Trailing "byte list"

datatype kind = Text_kind | Number_kind | Signed_kind | Trailing_kind

fun kind_of :: "item \<Rightarrow> kind" where
  "kind_of (Text s) = Text_kind"
| "kind_of Infinity = Text_kind"
| "kind_of (Number n) = Number_kind"
| "kind_of (Signed n) = Signed_kind"
| "kind_of (Trailing s) = Trailing_kind"

text \<open>\<open>junk\<close> is what the local buffers hold before they are written.\<close>

fun write_item :: "byte list \<Rightarrow> byte list \<Rightarrow> item \<Rightarrow> byte list option" where
  "write_item junk dest (Text s) = WriteString dest s"
| "write_item junk dest Infinity = Some (WriteInfinity dest)"
| "write_item junk dest (Number n) = WriteNumIncreasing junk dest n"
| "write_item junk dest (Signed n) = WriteSignedNumIncreasing dest n"
| "write_item junk dest (Trailing s) = Some (WriteTrailingString dest s)"

fun write_items :: "byte list \<Rightarrow> byte list \<Rightarrow> item list \<Rightarrow> byte list option" where
  "write_items junk dest [] = Some dest"
| "write_items junk dest (x # xs) = do { dest \<leftarrow> write_item junk dest x; write_items junk dest xs }"

text \<open>The result is \<open>None\<close> where an assertion fails, and holds no items where a reader returns false.\<close>

fun read_item :: "kind \<Rightarrow> byte list \<Rightarrow> (item option \<times> byte list) option" where
  "read_item Text_kind src =
     (case ReadStringOrInfinity src (Some []) of
        None \<Rightarrow> None
      | Some (True, Some s, Some False, rest) \<Rightarrow> Some (Some (Text s), rest)
      | Some (True, Some s, Some True, rest) \<Rightarrow> Some (Some Infinity, rest)
      | Some (_, _, _, rest) \<Rightarrow> Some (None, rest))"
| "read_item Number_kind src = map_option (\<lambda>(x, rest). (map_option Number x, rest)) (ReadNumIncreasing src)"
| "read_item Signed_kind src = map_option (\<lambda>(x, rest). (map_option Signed x, rest)) (ReadSignedNumIncreasing src)"
| "read_item Trailing_kind src =
     (case ReadTrailingString src (Some []) of (_, s, rest) \<Rightarrow> Some (map_option Trailing s, rest))"

fun read_items :: "kind list \<Rightarrow> byte list \<Rightarrow> (item list option \<times> byte list) option" where
  "read_items [] src = Some (Some [], src)"
| "read_items (k # ks) src =
     (case read_item k src of
        None \<Rightarrow> None
      | Some (None, rest) \<Rightarrow> Some (None, rest)
      | Some (Some x, rest) \<Rightarrow> map_option (\<lambda>(xs, rest). (map_option (Cons x) xs, rest)) (read_items ks rest))"

text \<open>A trailing string stands last.\<close>

fun well_placed :: "kind list \<Rightarrow> bool" where
  "well_placed [] = True"
| "well_placed (k # ks) = ((k = Trailing_kind \<longrightarrow> ks = []) \<and> well_placed ks)"

text \<open>The order of items of one kind, and of sequences; the empty trailing string leaves no trace.\<close>

fun item_less :: "item \<Rightarrow> item \<Rightarrow> bool" where
  "item_less (Text s) (Text t) = bytes_less s t"
| "item_less (Text s) Infinity = True"
| "item_less (Number m) (Number n) = (m < n)"
| "item_less (Signed m) (Signed n) = (m <s n)"
| "item_less (Trailing s) (Trailing t) = bytes_less s t"
| "item_less _ _ = False"

fun items_less :: "item list \<Rightarrow> item list \<Rightarrow> bool" where
  "items_less [] ys = (ys \<noteq> [] \<and> ys \<noteq> [Trailing []])"
| "items_less (x # xs) [] = False"
| "items_less (x # xs) (y # ys) = (item_less x y \<or> x = y \<and> items_less xs ys)"

fun same_kinds :: "item list \<Rightarrow> item list \<Rightarrow> bool" where
  "same_kinds (x # xs) (y # ys) = (kind_of x = kind_of y \<and> same_kinds xs ys)"
| "same_kinds _ _ = True"

section \<open>The bytes of a sequence\<close>

fun item_bytes :: "item \<Rightarrow> byte list" where
  "item_bytes (Text s) = string_or_infinity_bytes (Some s)"
| "item_bytes Infinity = string_or_infinity_bytes None"
| "item_bytes (Number n) = num_bytes n"
| "item_bytes (Signed n) = signed_bytes n"
| "item_bytes (Trailing s) = s"

definition items_bytes :: "item list \<Rightarrow> byte list" where
  "items_bytes xs = concat (map item_bytes xs)"

lemma items_bytes_simps [simp]: "items_bytes [] = []" "items_bytes (x # xs) = item_bytes x @ items_bytes xs"
  by (simp_all add: items_bytes_def)

lemma write_item_eq: "length junk = 17 \<Longrightarrow> write_item junk dest x = Some (dest @ item_bytes x)"
  by (cases x) (simp_all add: WriteString_eq WriteNum_eq WriteSigned_eq WriteInfinity_def WriteInfinityInternal_def
    WriteTrailingString_def string_or_infinity_bytes_def ordered_constants)

lemma write_items_eq: "length junk = 17 \<Longrightarrow> write_items junk dest xs = Some (dest @ items_bytes xs)"
  by (induction xs arbitrary: dest) (simp_all add: write_item_eq)

lemma read_item_bytes: "kind_of x \<noteq> Trailing_kind \<Longrightarrow> read_item (kind_of x) (item_bytes x @ rest) = Some (Some x, rest)"
  by (cases x) (simp_all add: ReadStringOrInfinity_bytes ReadNum_bytes ReadSigned_bytes)

lemma read_trailing: "read_item Trailing_kind s = Some (Some (Trailing s), [])"
  by (simp add: ReadTrailingString_def)

lemma read_item_only:
  assumes "read_item k src = Some (Some x, rest)"
  shows "kind_of x = k \<and> src = item_bytes x @ rest \<and> (k = Trailing_kind \<longrightarrow> rest = [])"
proof (cases k)
  case Text_kind
  with assms show ?thesis
    using ReadStringOrInfinity_only [of src] by (auto split: option.splits prod.splits bool.splits)
next
  case Number_kind
  with assms show ?thesis using ReadNum_only [of src] by auto
next
  case Signed_kind
  with assms show ?thesis using ReadSigned_only [of src] by auto
next
  case Trailing_kind
  with assms show ?thesis by (auto simp: ReadTrailingString_def)
qed

lemma read_items_bytes:
  "well_placed (map kind_of xs) \<Longrightarrow> read_items (map kind_of xs) (items_bytes xs) = Some (Some xs, [])"
proof (induction xs)
  case (Cons x xs)
  show ?case
  proof (cases "kind_of x = Trailing_kind")
    case True
    then obtain s where "x = Trailing s" by (cases x) auto
    moreover have "xs = []" using Cons.prems True by simp
    ultimately show ?thesis by (simp add: ReadTrailingString_def)
  next
    case False
    with Cons show ?thesis by (simp add: read_item_bytes)
  qed
qed simp

lemma read_items_only:
  "read_items ks src = Some (Some xs, rest) \<Longrightarrow> map kind_of xs = ks \<and> src = items_bytes xs @ rest"
proof (induction ks arbitrary: src xs)
  case (Cons k ks)
  then obtain x r ys where "read_item k src = Some (Some x, r)" "read_items ks r = Some (Some ys, rest)" "xs = x # ys"
    by (auto split: option.splits prod.splits)
  with Cons.IH read_item_only show ?case by fastforce
qed simp

lemma item_less_iff:
  assumes "kind_of x = kind_of y" and "kind_of x \<noteq> Trailing_kind"
  shows "bytes_less (item_bytes x @ r) (item_bytes y @ s) \<longleftrightarrow> item_less x y \<or> x = y \<and> bytes_less r s"
  using assms by (cases x; cases y) (simp_all add: string_part.less_iff num_part.less_iff signed_part.less_iff string_or_infinity_less_def)

lemma items_bytes_Nil: "items_bytes xs = [] \<Longrightarrow> well_placed (map kind_of xs) \<Longrightarrow> xs = [] \<or> xs = [Trailing []]"
proof (cases xs)
  case (Cons x ys)
  assume "items_bytes xs = []" and "well_placed (map kind_of xs)"
  with Cons show ?thesis
    by (cases x) (auto simp: string_or_infinity_bytes_def string_bytes_def num_bytes_def signed_bytes_not_Nil)
qed simp

lemma items_less_iff:
  "same_kinds xs ys \<Longrightarrow> well_placed (map kind_of xs) \<Longrightarrow> well_placed (map kind_of ys) \<Longrightarrow>
   bytes_less (items_bytes xs) (items_bytes ys) \<longleftrightarrow> items_less xs ys"
proof (induction xs ys rule: items_less.induct)
  case (1 ys)
  then show ?case using items_bytes_Nil [of ys] by auto
next
  case (3 x xs y ys)
  show ?case
  proof (cases "kind_of x = Trailing_kind")
    case True
    then obtain s t where "x = Trailing s" "y = Trailing t" using "3.prems"(1) by (cases x; cases y) auto
    moreover have "xs = []" "ys = []" using "3.prems" True by auto
    ultimately show ?thesis by simp
  next
    case False
    with "3" show ?thesis by (simp add: item_less_iff)
  qed
qed simp

section \<open>Properties\<close>

lemma length_signed_bytes: "length (signed_bytes v) = signed_length (unat (magnitude v))"
  by (simp add: signed_bytes_def magnitude_def pos_bytes_def)

lemma signed_length_le_iff: "0 < n \<Longrightarrow> signed_length x \<le> n \<longleftrightarrow> x < 2 ^ (7 * n - 1)"
proof
  assume "0 < n" and "signed_length x \<le> n"
  then have "(2 :: nat) ^ (7 * signed_length x - 1) \<le> 2 ^ (7 * n - 1)" by (intro power_increasing) auto
  with signed_length_bound(1) [of x] show "x < 2 ^ (7 * n - 1)" by linarith
qed (rule signed_length_le)

lemma sint_magnitude: "int (unat (magnitude v)) = (if sint v < 0 then - 1 - sint v else sint v)"
proof (cases "v <s 0")
  case True
  then have m: "magnitude v = NOT v" and neg: "sint v < 0" by (simp_all add: magnitude_def word_sless_alt)
  have "sint (NOT v) = int (unat (NOT v))" using magnitude_less [of v] m by (intro sint_pos) simp
  then show ?thesis using sint_not [of v] m neg by simp
next
  case False
  then have "magnitude v = v" "\<not> sint v < 0" by (simp_all add: magnitude_def word_sless_alt)
  moreover have "sint v = int (unat v)" using magnitude_less [of v] calculation(1) by (intro sint_pos) simp
  ultimately show ?thesis by simp
qed

lemma headed_throws:
  "headed l s \<Longrightarrow> ReadSignedNumIncreasing s = None \<longleftrightarrow> signed_length (be_nat (take l s) - header l) < l"
proof -
  assume l: "headed l s"
  define x where "x = be_nat (take l s) - header l"
  have "0 < l" "x < 2 ^ min (7 * l - 1) 63" using l unfolding headed_def x_def by linarith+
  moreover have "(2 :: nat) ^ min (7 * l - 1) 63 \<le> 2 ^ (7 * l - 1)" by (rule power_increasing) simp_all
  ultimately have "signed_length x \<le> l" by (intro signed_length_le) linarith+
  then show ?thesis using headed_finish(1) [OF l] unfolding x_def by auto
qed

lemma ReadSigned_throws_high:
  "128 \<le> unat b \<Longrightarrow> ReadSignedNumIncreasing (b # t) = None \<Longrightarrow>
   \<exists>l. headed l (b # t) \<and> signed_length (be_nat (take l (b # t)) - header l) < l"
  using Read_unheaded [of b t] headed_throws by fastforce

lemma ReadSigned_throws:
  "ReadSignedNumIncreasing src = None \<longleftrightarrow>
    (\<exists>l s. (s = src \<or> s = map NOT src) \<and> headed l s \<and> signed_length (be_nat (take l s) - header l) < l)"
proof
  have not: "ReadSignedNumIncreasing (map NOT src) = None \<longleftrightarrow> ReadSignedNumIncreasing src = None"
    by (simp add: ReadSigned_not complemented_def)
  show "ReadSignedNumIncreasing src = None \<Longrightarrow>
      \<exists>l s. (s = src \<or> s = map NOT src) \<and> headed l s \<and> signed_length (be_nat (take l s) - header l) < l"
  proof (cases src)
    case (Cons b t)
    assume none: "ReadSignedNumIncreasing src = None"
    show ?thesis
    proof (cases "128 \<le> unat b")
      case True
      have "\<exists>l. headed l src \<and> signed_length (be_nat (take l src) - header l) < l"
        unfolding Cons by (rule ReadSigned_throws_high [OF True none [unfolded Cons]])
      then show ?thesis by blast
    next
      case False
      then have "128 \<le> unat (NOT b)" by (simp add: unat_not_byte)
      moreover have "ReadSignedNumIncreasing (NOT b # map NOT t) = None" 
        using none not unfolding Cons list.map by (simp only:)
      ultimately have "\<exists>l. headed l (map NOT src) \<and> signed_length (be_nat (take l (map NOT src)) - header l) < l"
        unfolding Cons list.map by (rule ReadSigned_throws_high)
      then show ?thesis by blast
    qed
  qed (simp add: ReadSignedNumIncreasing_def)
  assume "\<exists>l s. (s = src \<or> s = map NOT src) \<and> headed l s \<and> signed_length (be_nat (take l s) - header l) < l"
  then obtain l s where s: "s = src \<or> s = map NOT src" and l: "headed l s" "signed_length (be_nat (take l s) - header l) < l"
    by (elim exE conjE)
  have "ReadSignedNumIncreasing s = None" using headed_throws [OF l(1)] l(2) by simp
  with s not show "ReadSignedNumIncreasing src = None" by (elim disjE) simp_all
qed

text \<open>
  C2: keys sort as their items do. Two sequences of items that agree in the kinds of their items can
  be written, whatever the local buffers held, and their bytes compare as the sequences do, item by
  item; a sequence comes before the longer ones that start with it, except that an empty
  trailing string adds nothing.
\<close>

theorem ordered_keys_sort:
  assumes "length junk = 17" and "length junk' = 17" and "same_kinds xs ys"
    and "well_placed (map kind_of xs)" and "well_placed (map kind_of ys)"
  shows "\<exists>a b. write_items junk [] xs = Some a \<and> write_items junk' [] ys = Some b \<and> (bytes_less a b \<longleftrightarrow> items_less xs ys)"
  using items_less_iff [OF assms(3-5)] write_items_eq [OF assms(1)] write_items_eq [OF assms(2)] by simp

theorem ordered_keys_sort_witness:
  "\<exists>a b. write_items (replicate 17 7) [] [Signed (- 5), Text [0, 9]] = Some a \<and>
     write_items (replicate 17 8) [] [Signed 300, Infinity, Trailing []] = Some b \<and> (bytes_less a b \<longleftrightarrow> True)"
  using ordered_keys_sort [of "replicate 17 7" "replicate 17 8" "[Signed (- 5), Text [0, 9]]" "[Signed 300, Infinity, Trailing []]"]
  by simp

text \<open>
  C3: a key is read back as what was written, and nothing else is read. Readers of the given kinds
  return a sequence of items and use up the key exactly if the items have these kinds and writing
  them gives that key.
\<close>

theorem ordered_keys_read_back:
  assumes "length junk = 17" and "well_placed ks"
  shows "read_items ks src = Some (Some xs, []) \<longleftrightarrow> map kind_of xs = ks \<and> write_items junk [] xs = Some src"
  using assms read_items_only [of ks src xs "[]"] read_items_bytes [of xs] by (auto simp: write_items_eq)

theorem ordered_keys_read_back_witness:
  "read_items [Number_kind] [1, 42] = Some (Some [Number 42], []) \<longleftrightarrow>
     map kind_of [Number 42] = [Number_kind] \<and> write_items (replicate 17 0) [] [Number 42] = Some [1, 42]"
  by (rule ordered_keys_read_back) simp_all

text \<open>
  C11: the scan for special bytes that looks at eight bytes at a time finds the first one, as a scan
  byte by byte does. None of its assertions fails and it stays within the buffer.
\<close>

theorem skip_finds_special:
  assumes "limit \<le> length m"
  shows "SkipToNextSpecialByte m start limit =
    Some (start + length (takeWhile (\<lambda>c. c \<noteq> 0 \<and> c \<noteq> 0xff) (take (limit - start) (drop start m))))"
  using Skip_eq [OF assms] by (simp add: first_special_def special_iff)

theorem skip_finds_special_witness:
  "SkipToNextSpecialByte [1, 2, 3, 4, 5, 6, 7, 8, 0xff, 9] 1 10 = Some 8"
  by (subst skip_finds_special) simp_all

text \<open>
  C12: a number in more bytes than it needs makes the readers throw. The reader of unsigned numbers
  fails an assertion exactly if the first byte of the number is 0, before it has checked that the
  number is complete; the reader of signed numbers, if its header announces more bytes than the
  number takes.
\<close>

theorem ordered_numbers_throw:
  "(ReadNumIncreasing src = None \<longleftrightarrow> (\<exists>b t. src = b # 0 # t \<and> b \<noteq> 0)) \<and>
   (ReadSignedNumIncreasing src = None \<longleftrightarrow>
     (\<exists>l s. (s = src \<or> s = map NOT src) \<and> headed l s \<and> signed_length (be_nat (take l s) - header l) < l))"
  using ReadNum_throws [of src] ReadSigned_throws [of src] by blast

text \<open>
  C19: signed numbers take as few bytes as the comment on the format says: at most \<open>n\<close> bytes exactly
  in the range from \<open>- 2 ^ (7 * n - 1)\<close> to below \<open>2 ^ (7 * n - 1)\<close>.
\<close>

theorem signed_number_length:
  assumes "0 < n"
  shows "(\<exists>bs. WriteSignedNumIncreasing dest v = Some (dest @ bs) \<and> length bs \<le> n) \<longleftrightarrow>
    - (2 ^ (7 * n - 1)) \<le> sint v \<and> sint v < 2 ^ (7 * n - 1)"
proof -
  have "signed_length (unat (magnitude v)) \<le> n \<longleftrightarrow> int (unat (magnitude v)) < 2 ^ (7 * n - 1)"
    using signed_length_le_iff [OF assms] by (metis of_nat_less_iff of_nat_numeral of_nat_power)
  also have "\<dots> \<longleftrightarrow> - (2 ^ (7 * n - 1)) \<le> sint v \<and> sint v < 2 ^ (7 * n - 1)"
    unfolding sint_magnitude by auto
  finally show ?thesis by (simp add: WriteSigned_eq length_signed_bytes)
qed

theorem signed_number_length_witness:
  "(\<exists>bs. WriteSignedNumIncreasing [] 64 = Some ([] @ bs) \<and> length bs \<le> 1) \<longleftrightarrow> - 64 \<le> sint (64 :: uint64) \<and> sint (64 :: uint64) < 64"
  using signed_number_length [of 1 "[]" 64] by simp

end
