(* ===== verification/Spec2Isabelle.thy ===== *)
theory Spec2Isabelle
  imports MBString LHash Base64 PbHazards PbRound OrderedCode
begin

text \<open>
  This development models C code that the iOS build of the app carries in
  \<^verbatim>\<open>src/ios/Pods\<close>: the encoders, decoders and containers of BoringSSL-GRPC (below,
  \<open>crypto/\<close> stands for \<^verbatim>\<open>src/ios/Pods/BoringSSL-GRPC/src/crypto/\<close>), the protocol
  buffer coder nanopb (\<^verbatim>\<open>src/ios/Pods/nanopb/\<close>) and the encoding of the keys of Firestore's local
  store (below, \<open>util/\<close> stands for \<^verbatim>\<open>src/ios/Pods/FirebaseFirestore/Firestore/core/src/util/\<close>). The app's own sources are a Flutter shell; the
  logic that can be got wrong is in these libraries, on which Firestore and gRPC rest: TLS and
  certificates are parsed and written through the byte reader and builder, Firestore's messages
  and the values of its local store go through nanopb, and the keys of the store, whose order
  its scans rely on, through the ordered encoding.

  \<^bold>\<open>How the parts interact.\<close> The byte builder (\<open>CBB\<close>) writes what the byte reader (\<open>CBS\<close>) reads.
  Object identifiers, SET OF, the BER converter and character strings are built on both. The
  certificate code keeps its objects in the pointer stack and the hash table, which call
  comparison and hash functions they are given. The base64 coder rests on the constant-time
  selections. The message encoder of nanopb walks over tables of field descriptors and writes
  through streams; its submessages are written twice, to a counting stream and to the real one.

  \<^bold>\<open>Foundations.\<close>
  \<^item> \<open>Prelude\<close>: machine words; \<open>size_t\<close> as numbers with the wrap-around of \<open>sz_add\<close> and \<open>sz_mul\<close>
    written out (64-bit targets); the outcomes of the allocator, a list of booleans of which
    each request takes one; facts on words, bytes and lists.
  \<^item> \<open>Codec\<close>: the contract between a writer and a reader as the locales \<open>codec\<close> and
    \<open>stream_codec\<close>, interpreted in \<open>CBS_Codecs\<close> by the readers of \<open>cbs.c\<close> and the bytes the
    builder writes.
  \<^item> \<open>Qsort\<close>: what the sources rely on of the C library's \<open>qsort\<close>, a parameter.

  \<^bold>\<open>Byte reader\<close> (\<^verbatim>\<open>crypto/bytestring/cbs.c\<close>). \<open>CBS\<close>: a \<open>CBS\<close> is the list of the bytes left; an
  operation returns its result, or \<open>None\<close> for 0, and the rest. \<open>DER\<close> says on natural numbers which
  inputs are accepted (tags, lengths, identifiers), \<open>ASN1_Int\<close> which integers.

  \<^bold>\<open>Byte builder\<close> (\<^verbatim>\<open>crypto/bytestring/cbb.c\<close>). \<open>CBB\<close>: the buffer and the chain of pending
  children, a handle being its depth in the chain. \<open>CBB_Refine\<close>, \<open>CBB_ASN1\<close>: a state represents a list of
  frames, on which every call has a one-line meaning. \<open>CBB_Total\<close>: with room no call fails.
  \<open>CBB_Script\<close> runs sequences of calls; \<open>Builder\<close> has the properties of sequences: the bytes they
  yield, that they succeed, that what they write is read back.

  \<^bold>\<open>On top of both.\<close> \<open>OID\<close>: \<open>CBB_add_asn1_oid_from_text\<close> and \<open>CBS_asn1_oid_to_text\<close>, inverse to each
  other. \<open>SetOf\<close>: \<open>CBB_flush_asn1_set_of\<close> sorts. \<open>BER\<close> (\<^verbatim>\<open>crypto/bytestring/ber.c\<close>): the converter
  returns within fuel that is linear in the input, keeps DER, and what it converts is a complete
  BER encoding whose DER it yields; and when BER goes unnoticed. \<open>Unicode\<close>
  (\<^verbatim>\<open>crypto/bytestring/unicode.c\<close>) and \<open>MBString\<close> (\<^verbatim>\<open>crypto/asn1/a_mbstr.c\<close> and parts of
  \<^verbatim>\<open>crypto/asn1/asn1_lib.c\<close>): conversion of character strings is lossless, refuses malformed text and leaves a pointer to a
  freed string behind when it fails late.

  \<^bold>\<open>Containers.\<close> \<open>Stack\<close> (\<^verbatim>\<open>crypto/stack/stack.c\<close>): an array with a capacity and a flag for
  being sorted, refining lists, scripts with searches and overwriting included as long as \<open>sk_set\<close>
  keeps the order of a stack flagged as sorted, and what happens otherwise. \<open>LHash\<close> (\<^verbatim>\<open>crypto/lhash/lhash.c\<close>): buckets of chains, refining finite
  maps; the locale \<open>keyed_store\<close> is what a client may rely on, interpreted by the table.

  \<^bold>\<open>Base64.\<close> \<open>ConstTime\<close> (\<^verbatim>\<open>crypto/internal.h\<close>): branch-free comparisons are the comparisons.
  \<open>Base64\<close> (\<^verbatim>\<open>crypto/base64/base64.c\<close>): streaming coders agree with the block coders whatever the
  pieces, and decoding inverts encoding; \<open>EVP_DecodeBase64_out\<close> has the bytes written also where
  decoding fails, and they stay within the output.

  \<^bold>\<open>nanopb.\<close> \<open>PbWire\<close> (\<^verbatim>\<open>pb_encode.c\<close>, \<^verbatim>\<open>pb_decode.c\<close>): streams, varints, fixed integers, tags,
  substreams. \<open>PbEncode\<close> (\<^verbatim>\<open>pb_encode.c\<close>, \<^verbatim>\<open>pb_common.c\<close>): memory is a function from 64-bit
  addresses to bytes, little-endian as on the targets of the app; an iterator walks over a table
  of descriptors; callbacks and tables are found by their addresses in an environment.
  \<open>PbRefine\<close>: a reference encoder without streams, and the proof that \<open>pb_encode\<close> implements it on
  counting and on buffer streams. \<open>PbFormat\<close>: an encoded message is a sequence of fields that the
  functions of \<^verbatim>\<open>pb_decode.c\<close> take apart into tags and values that make up all of its bytes; encoding
  ends on tables without cycles; and when a pointer in a submessage is lost.

  \<open>PbDecode\<close> and \<open>PbMessage\<close> (\<^verbatim>\<open>pb_decode.c\<close>, \<^verbatim>\<open>pb_common.c\<close>) are the decoder: decoders of single
  values, allocation, default values and release; then static, pointer, callback and extension
  fields and the loop over a message. An operation returns the status, the stream and the world
  (memory, heap and the local counter of a fixed array), or nothing where C has no result.
  \<open>PbSafe\<close>: on tables of static fields decoding writes to the fields of the message only.
  \<open>PbTotal\<close>: every loop ends before the stream is used up; the properties of the decoder on static
  messages. \<open>PbValues\<close> and \<open>PbRound\<close>: each value decoder recovers what the encoder wrote, and a
  message of simple fields comes back whole. \<open>PbHazards\<close>: where decoding goes wrong, for any such
  table and memory: oneofs that hold a pointer after a value, and default values that are stored
  past a small array.

  \<^bold>\<open>Ordered keys\<close> (\<^verbatim>\<open>util/ordered_code.cc\<close>). A buffer is a list of bytes and a pointer into it an offset;
  an operation with a failed \<open>HARD_ASSERT\<close>, which throws, or with an access outside the buffer is
  \<open>None\<close>. \<open>FsBits\<close> (\<^verbatim>\<open>util/bits.h\<close>, \<^verbatim>\<open>util/bits.cc\<close>, Abseil's loads, stores and byte swap, on little-endian
  targets): the portable logarithms are the built-in ones. \<open>OrderedString\<close>: strings, infinity and the scan
  for the bytes to escape, with a specification of the escaped form; the locale \<open>key_part\<close> says what
  makes a kind of item usable in a key, that its bytes compare as its values do whatever follows.
  \<open>OrderedNum\<close> and \<open>OrderedRead\<close>: unsigned and signed numbers, written and read, with what the
  local buffers hold before they are written as an argument. \<open>OrderedCode\<close>: sequences of items; keys
  sort as their items do, nothing but what was written is read back, and numbers in more bytes
  than they need make the readers throw.

  \<^bold>\<open>Bounds and fuel.\<close> \<open>cbs_convert_ber\<close> has fuel for its recursion, and
  \<open>ber_conversion_returns\<close> shows how much is enough; \<open>cbs_find_ber\<close> is a total function, which ends
  because the input gets shorter. \<open>pb_encode\<close> has fuel for the nesting of
  submessages and for lists of extensions, and \<open>pb_encode_returns\<close> shows that the rank of the table
  plus two is enough. The reference encoder makes no statement about messages of 2^63 bytes or more.
  \<open>pb_decode\<close> has fuel for the nesting of messages and for its loops; \<open>pb_decode_returns\<close> shows that
  more than the depth of the tables and more than the bytes of the input plus one is enough.
  Other loops are total functions.

  \<^bold>\<open>Parameters.\<close> Comparison, hash, copy and free functions of the containers, \<open>qsort\<close>, the results
  of the allocator and the callbacks of nanopb are arguments; hypotheses on them state their
  documentation (a total preorder, equal keys have equal hashes, a callback writes the same bytes
  on every pass).

  \<^bold>\<open>Not modelled.\<close> The
  rest of BoringSSL (ciphers, big numbers, curves, X.509, TLS), whose correctness is of arithmetic
  and protocols that need models of their own; gRPC-Core, leveldb, Abseil, Firebase and the
  rest of Firestore, which are C++ and Objective-C; generated tables; the Dart and Flutter shell. Uninitialised
  memory, pointer provenance and concurrency are not represented.
\<close>

end
